(* ===== verification/Prelude.thy ===== *)
theory Prelude
  imports Main "HOL-Library.Word"
begin

text \<open>
  Shared vocabulary of the development: the machine types of the C code, the little-endian
  memory image of an integer (the builds of tun2socks define \<open>BADVPN_LITTLE_ENDIAN\<close>), the
  interface of a fixed-width binary layout (\<open>codec\<close>), and the list and word lemmas the
  component theories use.
\<close>

unbundle bit_operations_syntax

named_theorems wire_simps "unfolding rules of the wire formats"
named_theorems mem_bytes "memory images written out byte by byte"

type_synonym byte = "8 word"
type_synonym u16 = "16 word"
type_synonym u32 = "32 word"
type_synonym u64 = "64 word"

text \<open>Bounds of the C types the code compares against.\<close>

abbreviation (input) INT_MAX :: int where "INT_MAX \<equiv> 2147483647"
abbreviation (input) UINT16_MAX :: int where "UINT16_MAX \<equiv> 65535"

lemma unat_lt: "unat (x :: 'a::len word) < 2 ^ LENGTH('a)"
  by (rule unsigned_less)

lemma of_nat_unat_self: "of_nat (unat x) = (x :: 'a::len word)"
  by (simp add: word_eq_iff_unsigned [where ?'a = nat] unsigned_of_nat take_bit_nat_eq_self unat_lt)

lemma unat_minus_1: "unat (- 1 :: 'a::len word) = 2 ^ LENGTH('a) - 1"
  by (simp add: unsigned_minus_1_eq_mask mask_eq_exp_minus_1)

lemma unat_byte_less: "unat (a :: byte) < 256"
  by (rule unsigned_less [of a, simplified])

lemma unat_u16_less: "unat (a :: u16) < 65536"
  by (rule unsigned_less [of a, simplified])

lemma unat_u64_less: "unat (a :: u64) < 18446744073709551616"
  by (rule unsigned_less [of a, simplified])

lemma unat_ucast_byte: "8 \<le> LENGTH('a) \<Longrightarrow> unat (ucast (a :: byte) :: 'a::len word) = unat a"
  by (simp add: unsigned_ucast_eq take_bit_nat_eq_self_iff less_le_trans [OF unat_byte_less]
      power_increasing [of 8 "LENGTH('a)" "2 :: nat", simplified])

section \<open>Memory images\<close>

text \<open>
  \<open>le_bytes n x\<close> is what \<open>memcpy\<close> reads out of an \<open>n\<close>-byte integer variable holding
  \<open>x\<close> on the little-endian host, and \<open>of_le\<close> the integer a \<open>memcpy\<close> into it leaves.
\<close>

fun le_bytes :: "nat \<Rightarrow> 'a::len word \<Rightarrow> byte list" where
  "le_bytes 0 x = []"
| "le_bytes (Suc n) x = ucast x # le_bytes n (drop_bit 8 x)"

fun of_le :: "byte list \<Rightarrow> 'a::len word" where
  "of_le [] = 0"
| "of_le (b # bs) = ucast b OR push_bit 8 (of_le bs)"

lemma length_le_bytes [simp]: "length (le_bytes n x) = n"
  by (induction n arbitrary: x) auto

lemma take_bit_Suc_byte:
  "take_bit 8 x OR push_bit 8 (take_bit n (drop_bit 8 x)) = take_bit (8 + n) (x :: 'a::len word)"
  by (rule bit_word_eqI) (auto simp: bit_simps not_le)

lemma of_le_le_bytes: "of_le (le_bytes n x) = take_bit (8 * n) (x :: 'a::len word)"
proof (induction n arbitrary: x)
  case 0
  then show ?case by simp
next
  case (Suc n)
  have "(ucast (ucast x :: byte) :: 'a word) = take_bit 8 x"
    by (rule bit_word_eqI) (auto simp: bit_simps)
  then have "of_le (le_bytes (Suc n) x) = take_bit 8 x OR push_bit 8 (take_bit (8 * n) (drop_bit 8 x))"
    by (simp add: Suc.IH)
  also have "\<dots> = take_bit (8 + 8 * n) x" by (rule take_bit_Suc_byte)
  finally show ?case by simp
qed

lemma of_le_le_bytes_full [simp]:
  "LENGTH('a) \<le> 8 * n \<Longrightarrow> of_le (le_bytes n x) = (x :: 'a::len word)"
  by (simp add: of_le_le_bytes take_bit_word_eq_self)

lemma bit_of_le:
  "bit (of_le bs :: 'a::len word) i \<longleftrightarrow>
     i < LENGTH('a) \<and> i div 8 < length bs \<and> bit (bs ! (i div 8)) (i mod 8)"
proof (induction bs arbitrary: i)
  case Nil
  then show ?case by simp
next
  case (Cons b bs)
  show ?case
  proof (cases "i < 8")
    case True
    then show ?thesis by (auto simp: bit_simps)
  next
    case False
    then have "i div 8 = Suc ((i - 8) div 8)" "i mod 8 = (i - 8) mod 8"
      by (simp_all add: le_div_geq le_mod_geq)
    moreover have "\<not> bit b i" using False bit_imp_le_length [of b i] by auto
    ultimately show ?thesis using False Cons.IH [of "i - 8"] by (auto simp: bit_simps)
  qed
qed

lemma le_bytes_nth:
  "k < n \<Longrightarrow> le_bytes n x ! k = ucast (drop_bit (8 * k) (x :: 'a::len word))"
proof (induction n arbitrary: x k)
  case 0
  then show ?case by simp
next
  case (Suc n)
  then show ?case by (cases k) (simp_all add: add.commute)
qed

lemma le_bytes_of_le [simp]:
  assumes "8 * length bs \<le> LENGTH('a::len)"
  shows "le_bytes (length bs) (of_le bs :: 'a word) = bs"
proof (rule nth_equalityI)
  show "length (le_bytes (length bs) (of_le bs :: 'a word)) = length bs" by simp
next
  fix k assume "k < length (le_bytes (length bs) (of_le bs :: 'a word))"
  then have k: "k < length bs" by simp
  have "(ucast (drop_bit (8 * k) (of_le bs :: 'a word)) :: byte) = bs ! k"
    by (rule bit_word_eqI) (use k assms in \<open>auto simp: bit_simps bit_of_le\<close>)
  then show "le_bytes (length bs) (of_le bs :: 'a word) ! k = bs ! k"
    by (simp add: le_bytes_nth k)
qed

text \<open>The widths the code uses.\<close>

abbreviation mem16 :: "u16 \<Rightarrow> byte list" where "mem16 \<equiv> le_bytes 2"
abbreviation mem32 :: "u32 \<Rightarrow> byte list" where "mem32 \<equiv> le_bytes 4"
abbreviation mem64 :: "u64 \<Rightarrow> byte list" where "mem64 \<equiv> le_bytes 8"

lemma le_bytes_2 [mem_bytes]: "le_bytes 2 x = [ucast x, ucast (drop_bit 8 x)]"
  by (simp add: numeral_2_eq_2)

lemma le_bytes_4 [mem_bytes]:
  "le_bytes 4 x = [ucast x, ucast (drop_bit 8 x), ucast (drop_bit 16 x), ucast (drop_bit 24 x)]"
  by (simp add: eval_nat_numeral)

section \<open>Lists\<close>

text \<open>Overwriting the bytes of a buffer from an offset, as \<open>memcpy(buf + at, src, n)\<close> does.\<close>

definition overwrite :: "nat \<Rightarrow> 'a list \<Rightarrow> 'a list \<Rightarrow> 'a list" where
  "overwrite at src buf = take at buf @ src @ drop (at + length src) buf"

definition segment :: "nat \<Rightarrow> nat \<Rightarrow> 'a list \<Rightarrow> 'a list" where
  "segment at n buf = take n (drop at buf)"

lemma length_overwrite [simp]:
  "at + length src \<le> length buf \<Longrightarrow> length (overwrite at src buf) = length buf"
  by (simp add: overwrite_def)

lemma length_segment: "at + n \<le> length buf \<Longrightarrow> length (segment at n buf) = n"
  by (simp add: segment_def)

lemma segment_overwrite_same:
  "at + length src \<le> length buf \<Longrightarrow> segment at (length src) (overwrite at src buf) = src"
  by (simp add: segment_def overwrite_def)

lemma segment_overwrite_before:
  "i + n \<le> at \<Longrightarrow> at \<le> length buf \<Longrightarrow> segment i n (overwrite at src buf) = segment i n buf"
  by (simp add: segment_def overwrite_def take_drop min_absorb1)

lemma segment_overwrite_after:
  assumes "at + length src \<le> i" "at \<le> length buf"
  shows "segment i n (overwrite at src buf) = segment i n buf"
proof -
  have "drop i (overwrite at src buf) = drop i buf"
    using assms by (simp add: overwrite_def)
  then show ?thesis by (simp add: segment_def)
qed

lemma overwrite_Nil [simp]: "overwrite at [] buf = buf"
  by (simp add: overwrite_def)

lemma segment_append:
  "segment at m buf @ segment (at + m) n buf = segment at (m + n) buf"
  by (simp add: segment_def take_add add.commute)

text \<open>Adjacent segments join; a segment of an append lies in one of the two parts.\<close>

lemma segment_join [wire_simps]:
  "b = a + m \<Longrightarrow> segment a m bs @ segment b n bs = segment a (m + n) bs"
  by (simp add: segment_append)

lemma segment_join_more [wire_simps]:
  "b = a + m \<Longrightarrow> segment a m bs @ segment b n bs @ r = segment a (m + n) bs @ r"
  by (simp add: segment_append append_assoc [symmetric] del: append_assoc)

lemma segment_0: "segment 0 n bs = take n bs"
  by (simp add: segment_def)

lemma segment_skip [wire_simps]:
  "length xs \<le> i \<Longrightarrow> segment i n (xs @ ys) = segment (i - length xs) n ys"
  by (simp add: segment_def)

lemma segment_skip_Cons [wire_simps]: "0 < i \<Longrightarrow> segment i n (x # ys) = segment (i - 1) n ys"
  by (cases i) (simp_all add: segment_def)

lemma segment_here [wire_simps]: "length xs = n \<Longrightarrow> segment 0 n (xs @ ys) = xs"
  by (simp add: segment_def)

lemma segment_all [wire_simps]: "length xs = n \<Longrightarrow> segment 0 n xs = xs"
  by (simp add: segment_def)

lemma segment_one: "i < length bs \<Longrightarrow> segment i (Suc 0) bs = [bs ! i]"
  by (simp add: segment_def Cons_nth_drop_Suc [symmetric])

lemma split_segments:
  "a \<le> b \<Longrightarrow> drop a xs = segment a (b - a) xs @ drop b xs"
  by (simp add: segment_def) (metis append_take_drop_id drop_drop le_add_diff_inverse2)

lemma filter_the_one: "distinct xs \<Longrightarrow> x \<in> set xs \<Longrightarrow> filter (\<lambda>y. y = x) xs = [x]"
proof (induction xs)
  case (Cons a xs)
  then have "a = x \<Longrightarrow> filter (\<lambda>y. y = x) xs = []" by (auto simp: filter_empty_conv)
  then show ?case using Cons by auto
qed simp

lemma filter_not_the_one: "distinct xs \<Longrightarrow> filter (\<lambda>y. y \<noteq> x) xs = remove1 x xs"
  by (simp add: distinct_remove1_removeAll removeAll_filter_not_eq eq_commute)

section \<open>Field access in a packed struct\<close>

definition ld8 :: "nat \<Rightarrow> byte list \<Rightarrow> byte" where "ld8 i bs = bs ! i"
definition ld16 :: "nat \<Rightarrow> byte list \<Rightarrow> u16" where "ld16 i bs = of_le (segment i 2 bs)"
definition ld32 :: "nat \<Rightarrow> byte list \<Rightarrow> u32" where "ld32 i bs = of_le (segment i 4 bs)"

lemma ld_skip [wire_simps]:
  "length xs \<le> i \<Longrightarrow> ld8 i (xs @ ys) = ld8 (i - length xs) ys"
  "length xs \<le> i \<Longrightarrow> ld16 i (xs @ ys) = ld16 (i - length xs) ys"
  "length xs \<le> i \<Longrightarrow> ld32 i (xs @ ys) = ld32 (i - length xs) ys"
  by (simp_all add: ld8_def ld16_def ld32_def segment_skip nth_append)

lemma ld_skip_Cons [wire_simps]:
  "0 < i \<Longrightarrow> ld8 i (x # ys) = ld8 (i - 1) ys"
  "0 < i \<Longrightarrow> ld16 i (x # ys) = ld16 (i - 1) ys"
  "0 < i \<Longrightarrow> ld32 i (x # ys) = ld32 (i - 1) ys"
  by (simp_all add: ld8_def ld16_def ld32_def segment_skip_Cons)

lemma ld_here [wire_simps]:
  "ld8 0 (b # ys) = b" "ld16 0 (mem16 x @ ys) = x" "ld16 0 (mem16 x) = x"
  "ld32 0 (mem32 y @ ys) = y" "ld32 0 (mem32 y) = y"
  by (simp_all add: ld8_def ld16_def ld32_def segment_here segment_all)

text \<open>Storing a loaded field back gives the bytes it was loaded from.\<close>

lemma mem_ld:
  "Suc i \<le> length bs \<Longrightarrow> ld8 i bs # ys = segment i (Suc 0) bs @ ys"
  "i + 2 \<le> length bs \<Longrightarrow> mem16 (ld16 i bs) = segment i 2 bs"
  "i + 4 \<le> length bs \<Longrightarrow> mem32 (ld32 i bs) = segment i 4 bs"
  using le_bytes_of_le [where ?'a = 16, of "segment i 2 bs"]
    le_bytes_of_le [where ?'a = 32, of "segment i 4 bs"]
  by (simp_all add: segment_one ld8_def ld16_def ld32_def length_segment)

section \<open>Fixed-width binary layouts\<close>

text \<open>
  The contract of a packed C struct: \<open>enc\<close> is the image \<open>memcpy\<close> writes, \<open>dec\<close> the struct
  \<open>memcpy\<close> reads back from the first \<open>width\<close> bytes, \<open>ok\<close> the well-formed values (arrays of the
  declared length).
\<close>

locale codec =
  fixes width :: nat
    and ok :: "'s \<Rightarrow> bool"
    and enc :: "'s \<Rightarrow> byte list"
    and dec :: "byte list \<Rightarrow> 's"
  assumes enc_length: "ok s \<Longrightarrow> length (enc s) = width"
    and dec_enc: "ok s \<Longrightarrow> dec (enc s @ rest) = s"
    and ok_dec: "width \<le> length bs \<Longrightarrow> ok (dec bs)"
    and enc_dec: "width \<le> length bs \<Longrightarrow> enc (dec bs) = take width bs"
begin

lemma dec_enc_self: "ok s \<Longrightarrow> dec (enc s) = s"
  using dec_enc [of s "[]"] by simp

lemma enc_inject: "ok s \<Longrightarrow> ok t \<Longrightarrow> enc s = enc t \<longleftrightarrow> s = t"
  by (metis dec_enc_self)

lemma drop_enc: "ok s \<Longrightarrow> drop width (enc s @ rest) = rest"
  by (simp add: enc_length)

lemma split_image: "width \<le> length bs \<Longrightarrow> enc (dec bs) @ drop width bs = bs"
  by (simp add: enc_dec)

lemma dec_take: "width \<le> length bs \<Longrightarrow> dec (take width bs) = dec bs"
  by (metis append.right_neutral dec_enc enc_dec ok_dec)

end

section \<open>Packet queues\<close>

text \<open>
  The contract between a packet buffer and the code that fills and drains it. \<open>inv b ps\<close> says
  that \<open>b\<close> holds exactly the packets \<open>ps\<close>, oldest first; \<open>room b\<close> is the size of the largest
  packet the provider takes now (negative for none).
\<close>

locale packet_fifo =
  fixes inv :: "'b \<Rightarrow> byte list list \<Rightarrow> bool"
    and room :: "'b \<Rightarrow> int"
    and put :: "'b \<Rightarrow> byte list \<Rightarrow> 'b"
    and front :: "'b \<Rightarrow> byte list option"
    and drop_front :: "'b \<Rightarrow> 'b"
  assumes put_inv: "inv b ps \<Longrightarrow> int (length p) \<le> room b \<Longrightarrow> inv (put b p) (ps @ [p])"
    and front_inv: "inv b ps \<Longrightarrow> front b = (case ps of [] \<Rightarrow> None | p # _ \<Rightarrow> Some p)"
    and drop_inv: "inv b (p # ps) \<Longrightarrow> inv (drop_front b) ps"

text \<open>A client that offers packets and takes packets; an offer that does not fit is refused.\<close>

datatype fifo_op = Put_op "byte list" | Take_op

text \<open>The result of a run: the buffer, the packets accepted and the packets taken.\<close>

fun fifo_run ::
  "('b \<Rightarrow> int) \<Rightarrow> ('b \<Rightarrow> byte list \<Rightarrow> 'b) \<Rightarrow> ('b \<Rightarrow> byte list option) \<Rightarrow> ('b \<Rightarrow> 'b) \<Rightarrow>
     fifo_op list \<Rightarrow> 'b \<Rightarrow> 'b \<times> byte list list \<times> byte list list" where
  "fifo_run room put front drp [] b = (b, [], [])"
| "fifo_run room put front drp (Put_op p # ops) b =
     (if int (length p) \<le> room b then
        (let (b', acc, out) = fifo_run room put front drp ops (put b p) in (b', p # acc, out))
      else fifo_run room put front drp ops b)"
| "fifo_run room put front drp (Take_op # ops) b =
     (case front b of
        None \<Rightarrow> fifo_run room put front drp ops b
      | Some p \<Rightarrow> (let (b', acc, out) = fifo_run room put front drp ops (drp b) in (b', acc, p # out)))"

context packet_fifo
begin

lemma run_fifo:
  "inv b ps \<Longrightarrow> fifo_run room put front drop_front ops b = (b', acc, out) \<Longrightarrow>
     \<exists>rest. inv b' rest \<and> ps @ acc = out @ rest"
proof (induction ops arbitrary: b ps acc out)
  case (Cons a ops)
  show ?case
  proof (cases a)
    case (Put_op p)
    show ?thesis
    proof (cases "int (length p) \<le> room b")
      case True
      obtain acc2 where "fifo_run room put front drop_front ops (put b p) = (b', acc2, out)" "acc = p # acc2"
        using Cons.prems(2) Put_op True by (auto split: prod.splits)
      then show ?thesis using Cons.IH [OF put_inv [OF Cons.prems(1) True]] by simp
    qed (use Cons Put_op in auto)
  next
    case Take_op
    show ?thesis
    proof (cases ps)
      case Nil
      then have "front b = None" using front_inv [OF Cons.prems(1)] by simp
      then show ?thesis using Cons.IH [OF Cons.prems(1)] Cons.prems(2) Take_op by simp
    next
      case (Cons q qs)
      then have "front b = Some q" using front_inv [OF Cons.prems(1)] by simp
      then obtain out2 where "fifo_run room put front drop_front ops (drop_front b) = (b', acc, out2)"
          "out = q # out2"
        using Cons.prems(2) Take_op by (auto split: prod.splits)
      moreover have "inv (drop_front b) qs" using drop_inv Cons.prems(1) Cons by blast
      ultimately show ?thesis using Cons.IH [of "drop_front b" qs] Cons by auto
    qed
  qed
qed simp

end

end
