(* ===== verification/Wire.thy ===== *)
theory Wire
  imports Prelude
begin

text \<open>
  The integer layer of badvpn: byte order conversion (\<open>misc/byteorder.h\<close>, little-endian host),
  byte-wise reads and writes (\<open>misc/read_write_int.h\<close>), overflow-tracking size arithmetic
  (\<open>misc/bsize.h\<close>) and alignment (\<open>misc/balign.h\<close>). \<open>size_t\<close> is a word of arbitrary width
  \<open>'a\<close>, so the results hold for the 32-bit and the 64-bit builds.
\<close>

section \<open>Byte order (misc/byteorder.h)\<close>

definition badvpn_reverse16 :: "u16 \<Rightarrow> u16" where
  "badvpn_reverse16 x = (let m = mem16 x in of_le [m ! 1, m ! 0])"

definition badvpn_reverse32 :: "u32 \<Rightarrow> u32" where
  "badvpn_reverse32 x = (let m = mem32 x in of_le [m ! 3, m ! 2, m ! 1, m ! 0])"

definition badvpn_reverse64 :: "u64 \<Rightarrow> u64" where
  "badvpn_reverse64 x =
     (let m = mem64 x in of_le [m ! 7, m ! 6, m ! 5, m ! 4, m ! 3, m ! 2, m ! 1, m ! 0])"

definition hton8 :: "byte \<Rightarrow> byte" where "hton8 x = x"
definition htol8 :: "byte \<Rightarrow> byte" where "htol8 x = x"
definition hton16 :: "u16 \<Rightarrow> u16" where "hton16 x = badvpn_reverse16 x"
definition hton32 :: "u32 \<Rightarrow> u32" where "hton32 x = badvpn_reverse32 x"
definition hton64 :: "u64 \<Rightarrow> u64" where "hton64 x = badvpn_reverse64 x"
definition htol16 :: "u16 \<Rightarrow> u16" where "htol16 x = x"
definition htol32 :: "u32 \<Rightarrow> u32" where "htol32 x = x"
definition htol64 :: "u64 \<Rightarrow> u64" where "htol64 x = x"
definition ntoh8 :: "byte \<Rightarrow> byte" where "ntoh8 x = hton8 x"
definition ntoh16 :: "u16 \<Rightarrow> u16" where "ntoh16 x = hton16 x"
definition ntoh32 :: "u32 \<Rightarrow> u32" where "ntoh32 x = hton32 x"
definition ntoh64 :: "u64 \<Rightarrow> u64" where "ntoh64 x = hton64 x"
definition ltoh8 :: "byte \<Rightarrow> byte" where "ltoh8 x = htol8 x"
definition ltoh16 :: "u16 \<Rightarrow> u16" where "ltoh16 x = htol16 x"
definition ltoh32 :: "u32 \<Rightarrow> u32" where "ltoh32 x = htol32 x"
definition ltoh64 :: "u64 \<Rightarrow> u64" where "ltoh64 x = htol64 x"

lemmas byteorder_id_defs [wire_simps] =
  hton8_def htol8_def htol16_def htol32_def htol64_def ntoh8_def ltoh8_def ltoh16_def
  ltoh32_def ltoh64_def

lemma reverse16_rev: "badvpn_reverse16 x = of_le (rev (mem16 x))"
  by (simp add: badvpn_reverse16_def Let_def le_bytes_2)

lemma reverse32_rev: "badvpn_reverse32 x = of_le (rev (mem32 x))"
  by (simp add: badvpn_reverse32_def Let_def le_bytes_4)

lemma reverse64_rev: "badvpn_reverse64 x = of_le (rev (mem64 x))"
  by (simp add: badvpn_reverse64_def Let_def eval_nat_numeral)

lemma rev_image_involutive:
  assumes "8 * n = LENGTH('a::len)"
  shows "of_le (rev (le_bytes n (of_le (rev (le_bytes n x)) :: 'a word))) = (x :: 'a word)"
proof -
  have "le_bytes (length (rev (le_bytes n x))) (of_le (rev (le_bytes n x)) :: 'a word) = rev (le_bytes n x)"
    by (rule le_bytes_of_le) (use assms in simp)
  then show ?thesis using assms by simp
qed

lemma mem16_hton16 [wire_simps]: "mem16 (hton16 x) = rev (mem16 x)"
  using le_bytes_of_le [where ?'a = 16, of "rev (mem16 x)"] by (simp add: hton16_def reverse16_rev)

lemma mem32_hton32 [wire_simps]: "mem32 (hton32 x) = rev (mem32 x)"
  using le_bytes_of_le [where ?'a = 32, of "rev (mem32 x)"] by (simp add: hton32_def reverse32_rev)

lemma ntoh16_hton16 [simp]: "ntoh16 (hton16 x) = x"
  by (simp add: ntoh16_def hton16_def reverse16_rev rev_image_involutive)

lemma hton16_ntoh16 [simp]: "hton16 (ntoh16 x) = x"
  by (simp add: ntoh16_def hton16_def reverse16_rev rev_image_involutive)

lemma ntoh32_hton32 [simp]: "ntoh32 (hton32 x) = x"
  by (simp add: ntoh32_def hton32_def reverse32_rev rev_image_involutive)

lemma hton32_ntoh32 [simp]: "hton32 (ntoh32 x) = x"
  by (simp add: ntoh32_def hton32_def reverse32_rev rev_image_involutive)

lemma ntoh64_hton64 [simp]: "ntoh64 (hton64 x) = x"
  by (simp add: ntoh64_def hton64_def reverse64_rev rev_image_involutive)

lemma ntoh16_inject [simp]: "ntoh16 x = ntoh16 y \<longleftrightarrow> x = y"
  by (metis hton16_ntoh16)

lemma ntoh32_inject [simp]: "ntoh32 x = ntoh32 y \<longleftrightarrow> x = y"
  by (metis hton32_ntoh32)

lemma hton16_0 [simp]: "hton16 0 = 0"
  by (simp add: hton16_def badvpn_reverse16_def le_bytes_2)

section \<open>Byte-wise access (misc/read_write_int.h)\<close>

definition badvpn_read_be16 :: "byte list \<Rightarrow> u16" where
  "badvpn_read_be16 p = push_bit 8 (ucast (p ! 0)) OR push_bit 0 (ucast (p ! 1))"

definition badvpn_read_be32 :: "byte list \<Rightarrow> u32" where
  "badvpn_read_be32 p =
     push_bit 24 (ucast (p ! 0)) OR push_bit 16 (ucast (p ! 1)) OR
     push_bit 8 (ucast (p ! 2)) OR push_bit 0 (ucast (p ! 3))"

definition badvpn_read_le16 :: "byte list \<Rightarrow> u16" where
  "badvpn_read_le16 p = push_bit 8 (ucast (p ! 1)) OR push_bit 0 (ucast (p ! 0))"

definition badvpn_read_le32 :: "byte list \<Rightarrow> u32" where
  "badvpn_read_le32 p =
     push_bit 24 (ucast (p ! 3)) OR push_bit 16 (ucast (p ! 2)) OR
     push_bit 8 (ucast (p ! 1)) OR push_bit 0 (ucast (p ! 0))"

text \<open>The writers return the bytes they store at the pointer, in address order.\<close>

definition badvpn_write_be16 :: "u16 \<Rightarrow> byte list" where
  "badvpn_write_be16 x = [ucast (drop_bit 8 x), ucast (drop_bit 0 x)]"

definition badvpn_write_be32 :: "u32 \<Rightarrow> byte list" where
  "badvpn_write_be32 x =
     [ucast (drop_bit 24 x), ucast (drop_bit 16 x), ucast (drop_bit 8 x), ucast (drop_bit 0 x)]"

definition badvpn_write_le16 :: "u16 \<Rightarrow> byte list" where
  "badvpn_write_le16 x = [ucast (drop_bit 0 x), ucast (drop_bit 8 x)]"

definition badvpn_write_le32 :: "u32 \<Rightarrow> byte list" where
  "badvpn_write_le32 x =
     [ucast (drop_bit 0 x), ucast (drop_bit 8 x), ucast (drop_bit 16 x), ucast (drop_bit 24 x)]"

lemma read_be16_unat:
  "unat (badvpn_read_be16 (a # b # bs)) = 256 * unat a + unat b"
proof -
  have "badvpn_read_be16 (a # b # bs) = push_bit 8 (ucast a) + ucast b"
    unfolding badvpn_read_be16_def
    by (subst disjunctive_add_eq_or [symmetric]) (auto simp: bit_eq_iff bit_simps dest: bit_imp_le_length)
  moreover have "256 * unat a + unat b < 65536"
    using unat_byte_less [of a] unat_byte_less [of b] by simp
  moreover have "unat a * 256 < 65536" using unat_byte_less [of a] by simp
  ultimately show ?thesis
    by (simp add: push_bit_eq_mult unat_word_ariths unat_ucast_byte)
qed

section \<open>Sizes with overflow tracking (misc/bsize.h)\<close>

record 'w bsize_t =
  is_overflow :: bool
  bs_value :: 'w

definition SIZE_MAX :: "'a::len word" where "SIZE_MAX = - 1"

definition bsize_fromsize :: "'a::len word \<Rightarrow> 'a word bsize_t" where
  "bsize_fromsize v = \<lparr>is_overflow = False, bs_value = v\<rparr>"

definition bsize_fromint :: "int \<Rightarrow> 'a::len word bsize_t" where
  "bsize_fromint v =
     \<lparr>is_overflow = (v < 0 \<or> (word_of_int v :: 'a word) > SIZE_MAX), bs_value = word_of_int v\<rparr>"

definition bsize_overflow :: "'a::len word bsize_t" where
  "bsize_overflow = \<lparr>is_overflow = True, bs_value = 0\<rparr>"

definition bsize_tosize :: "'a::len word bsize_t \<Rightarrow> 'a word option" where
  "bsize_tosize s = (if is_overflow s then None else Some (bs_value s))"

definition bsize_toint :: "'a::len word bsize_t \<Rightarrow> int option" where
  "bsize_toint s =
     (if is_overflow s \<or> uint (bs_value s) > INT_MAX then None else Some (uint (bs_value s)))"

definition bsize_add :: "'a::len word bsize_t \<Rightarrow> 'a word bsize_t \<Rightarrow> 'a word bsize_t" where
  "bsize_add s1 s2 =
     \<lparr>is_overflow = (is_overflow s1 \<or> is_overflow s2 \<or> bs_value s2 > SIZE_MAX - bs_value s1),
      bs_value = bs_value s1 + bs_value s2\<rparr>"

definition bsize_max :: "'a::len word bsize_t \<Rightarrow> 'a word bsize_t \<Rightarrow> 'a word bsize_t" where
  "bsize_max s1 s2 =
     \<lparr>is_overflow = (is_overflow s1 \<or> is_overflow s2),
      bs_value = of_bool (bs_value s1 > bs_value s2) * bs_value s1
               + of_bool (bs_value s1 \<le> bs_value s2) * bs_value s2\<rparr>"

definition bsize_mul :: "'a::len word bsize_t \<Rightarrow> 'a word bsize_t \<Rightarrow> 'a word bsize_t" where
  "bsize_mul s1 s2 =
     \<lparr>is_overflow = (is_overflow s1 \<or> is_overflow s2 \<or>
                     bs_value s1 \<noteq> 0 \<and> bs_value s2 > SIZE_MAX div bs_value s1),
      bs_value = bs_value s1 * bs_value s2\<rparr>"

text \<open>What a tracked size stands for: a natural number, or nothing once it overflowed.\<close>

definition bsize_num :: "'a::len word bsize_t \<Rightarrow> nat option" where
  "bsize_num s = (if is_overflow s then None else Some (unat (bs_value s)))"

definition fits :: "'a::len itself \<Rightarrow> nat \<Rightarrow> nat option" where
  "fits _ n = (if n < 2 ^ LENGTH('a) then Some n else None)"

lemma nat_minus_Suc_less_iff: "a < N \<Longrightarrow> N - Suc a < b \<longleftrightarrow> N \<le> a + (b :: nat)"
  by arith

lemma unat_SIZE_MAX_minus: "unat (SIZE_MAX - x :: 'a::len word) = 2 ^ LENGTH('a) - 1 - unat x"
  by (simp add: SIZE_MAX_def unat_sub unat_minus_1)

lemma bsize_num_add:
  fixes s t :: "'a::len word bsize_t"
  shows "bsize_num (bsize_add s t) =
     Option.bind (bsize_num s) (\<lambda>m. Option.bind (bsize_num t) (\<lambda>n. fits TYPE('a) (m + n)))"
proof -
  have "bs_value t > SIZE_MAX - bs_value s \<longleftrightarrow> 2 ^ LENGTH('a) \<le> unat (bs_value s) + unat (bs_value t)"
    by (simp add: word_less_nat_alt unat_SIZE_MAX_minus nat_minus_Suc_less_iff [OF unat_lt])
  then show ?thesis
    by (auto simp: bsize_num_def bsize_add_def fits_def unat_word_ariths)
qed

lemma bsize_num_mul:
  fixes s t :: "'a::len word bsize_t"
  shows "bsize_num (bsize_mul s t) =
     Option.bind (bsize_num s) (\<lambda>m. Option.bind (bsize_num t) (\<lambda>n. fits TYPE('a) (m * n)))"
proof (cases "bs_value s = 0")
  case True
  then show ?thesis by (auto simp: bsize_num_def bsize_mul_def fits_def)
next
  case False
  then have pos: "0 < unat (bs_value s)" by (simp add: unat_gt_0)
  have "bs_value t > SIZE_MAX div bs_value s \<longleftrightarrow> (2 ^ LENGTH('a) - 1) div unat (bs_value s) < unat (bs_value t)"
    by (simp add: word_less_nat_alt unat_div SIZE_MAX_def unat_minus_1)
  also have "\<dots> \<longleftrightarrow> \<not> unat (bs_value t) * unat (bs_value s) \<le> 2 ^ LENGTH('a) - 1"
    using less_eq_div_iff_mult_less_eq [OF pos] by (simp add: not_le [symmetric])
  finally have "bs_value t > SIZE_MAX div bs_value s \<longleftrightarrow>
      \<not> unat (bs_value s) * unat (bs_value t) < 2 ^ LENGTH('a)"
    by (simp only: mult.commute less_Suc_eq_le [symmetric] Suc_pred' [symmetric] zero_less_power
          zero_less_numeral Suc_diff_1)
  then show ?thesis using False
    by (simp add: bsize_num_def bsize_mul_def fits_def unat_word_ariths)
qed

lemma bsize_num_max:
  "bsize_num (bsize_max s t) =
     Option.bind (bsize_num s) (\<lambda>m. Option.bind (bsize_num t) (\<lambda>n. Some (max m n)))"
  by (auto simp: bsize_num_def bsize_max_def max_def word_le_nat_alt word_less_nat_alt)

lemma bsize_num_fromsize [simp]: "bsize_num (bsize_fromsize v) = Some (unat v)"
  by (simp add: bsize_num_def bsize_fromsize_def)

lemma bsize_num_fromint:
  assumes "v \<le> INT_MAX" and "32 \<le> LENGTH('a::len)"
  shows "bsize_num (bsize_fromint v :: 'a word bsize_t) = (if v < 0 then None else Some (nat v))"
proof (cases "v < 0")
  case True
  then show ?thesis by (simp add: bsize_num_def bsize_fromint_def)
next
  case False
  then obtain n where n: "v = int n" by (metis nonneg_int_cases not_le)
  have "(2::nat) ^ 32 \<le> 2 ^ LENGTH('a)" using assms(2) by (rule power_increasing) simp
  then have "n < 2 ^ LENGTH('a)" using assms(1) n by simp
  then have "unat (word_of_int v :: 'a word) = n" by (simp add: n unat_of_nat take_bit_nat_eq_self_iff)
  with False show ?thesis by (simp add: bsize_num_def bsize_fromint_def SIZE_MAX_def n not_less)
qed

lemma bsize_toint_num:
  "bsize_toint s = Option.bind (bsize_num s) (\<lambda>n. if int n \<le> INT_MAX then Some (int n) else None)"
  by (simp add: bsize_toint_def bsize_num_def uint_nat del: of_nat_unat)

section \<open>Alignment (misc/balign.h)\<close>

definition balign_up_overflows :: "'a::len word \<Rightarrow> 'a word \<Rightarrow> bool" where
  "balign_up_overflows x n = (let r = x mod n in r \<noteq> 0 \<and> x > SIZE_MAX - (n - r))"

definition balign_up :: "'a::len word \<Rightarrow> 'a word \<Rightarrow> 'a word" where
  "balign_up x n = (let r = x mod n in if r \<noteq> 0 then x + (n - r) else x)"

definition balign_down :: "'a::len word \<Rightarrow> 'a word \<Rightarrow> 'a word" where
  "balign_down x n = x - (x mod n)"

definition bdivide_up :: "'a::len word \<Rightarrow> 'a word \<Rightarrow> 'a word" where
  "bdivide_up a b = (let r = a mod b in if r > 0 then a div b + 1 else a div b)"

lemma nat_ceil_div:
  assumes "0 < (b :: nat)"
  shows "(if 0 < a mod b then a div b + 1 else a div b) = (a + b - 1) div b"
proof -
  define q r where "q = a div b" and "r = a mod b"
  have a: "a = r + q * b" and r: "r < b" by (simp_all add: q_def r_def assms)
  show ?thesis
  proof (cases "r = 0")
    case True
    have "a + b - 1 = (b - 1) + q * b" using a True assms by simp
    moreover have "(b - 1) div b = 0" using assms by simp
    ultimately show ?thesis using True assms
      by (simp only: r_def [symmetric] q_def [symmetric] div_mult_self1) simp
  next
    case False
    have "a + b - 1 = (r - 1) + (q + 1) * b" using a False by simp
    moreover have "(r - 1) div b = 0" using r by simp
    ultimately show ?thesis using False assms
      by (simp only: r_def [symmetric] q_def [symmetric] div_mult_self1) simp
  qed
qed

lemma unat_bdivide_up:
  assumes "b \<noteq> 0"
  shows "unat (bdivide_up a b) = (unat a + unat b - 1) div unat b"
proof -
  have pos: "0 < unat b" using assms by (simp add: unat_gt_0)
  have "unat (a div b + 1) = unat a div unat b + 1" if "a mod b > 0"
  proof -
    have "unat a mod unat b \<noteq> 0" using that by (simp add: word_less_nat_alt unat_mod)
    then have "1 < unat b" using pos by (cases "unat b = 1") auto
    moreover have "0 < unat a" using \<open>unat a mod unat b \<noteq> 0\<close> by (cases "unat a = 0") auto
    ultimately have "unat a div unat b < unat a" by simp
    then have "unat a div unat b + 1 < 2 ^ LENGTH('a)"
      using le_less_trans [OF _ unat_lt [of a]] by (simp add: Suc_le_eq)
    then show ?thesis by (simp add: unat_word_ariths unat_div)
  qed
  then have "unat (bdivide_up a b) =
      (if 0 < unat a mod unat b then unat a div unat b + 1 else unat a div unat b)"
    by (auto simp: bdivide_up_def word_less_nat_alt unat_mod unat_div)
  then show ?thesis by (simp only: nat_ceil_div [OF pos])
qed

text \<open>Aligning down and up give the nearest multiples, when aligning up does not overflow.\<close>

lemma unat_balign_down:
  "unat (balign_down x n) = unat x div unat n * unat n"
proof -
  have "x mod n \<le> x" by (simp add: word_le_nat_alt unat_mod)
  then have "unat (balign_down x n) = unat x - unat x mod unat n"
    unfolding balign_down_def by (simp only: unat_sub unat_mod)
  then show ?thesis by (simp only: minus_mod_eq_div_mult)
qed

lemma unat_balign_up:
  assumes "n \<noteq> 0" and "\<not> balign_up_overflows x n"
  shows "unat (balign_up x n) = (unat x + unat n - 1) div unat n * unat n"
proof -
  have pos: "0 < unat n" using assms by (simp add: unat_gt_0)
  define r where "r = unat x mod unat n"
  have r: "r < unat n" "r = unat (x mod n)" using pos by (simp_all add: r_def unat_mod)
  have x: "unat x = unat x div unat n * unat n + r" by (simp add: r_def)
  show ?thesis
  proof (cases "r = 0")
    case True
    then have "x mod n = 0" using r by (simp add: unat_eq_zero)
    then have "balign_up x n = x" by (simp add: balign_up_def)
    moreover have "(unat x + unat n - 1) div unat n = unat x div unat n"
      using nat_ceil_div [OF pos, of "unat x"] True by (simp add: r_def)
    ultimately show ?thesis using x True by simp
  next
    case False
    then have nz: "x mod n \<noteq> 0" using r(2) by (metis unat_0)
    have m: "unat (n - x mod n) = unat n - r" using r by (simp add: unat_sub word_le_nat_alt)
    have "\<not> (x > SIZE_MAX - (n - x mod n))" using assms(2) nz by (simp add: balign_up_overflows_def)
    then have "unat x + (unat n - r) < 2 ^ LENGTH('a)"
      using unat_lt [of "n - x mod n"] m
      by (simp add: not_less word_le_nat_alt unat_SIZE_MAX_minus)
    then have "unat (balign_up x n) = unat x + (unat n - r)"
      using nz m by (simp add: balign_up_def unat_word_ariths)
    also have "\<dots> = (unat x div unat n + 1) * unat n" using x r by simp
    also have "unat x div unat n + 1 = (unat x + unat n - 1) div unat n"
      using nat_ceil_div [OF pos, of "unat x"] False by (simp add: r_def)
    finally show ?thesis .
  qed
qed

section \<open>Properties\<close>

lemma write_be_image: "badvpn_write_be16 x = mem16 (hton16 x)" "badvpn_write_be32 y = mem32 (hton32 y)"
proof -
  have "badvpn_write_be16 x = rev (mem16 x)" "badvpn_write_be32 y = rev (mem32 y)"
    by (simp_all add: badvpn_write_be16_def badvpn_write_be32_def mem_bytes)
  then show "badvpn_write_be16 x = mem16 (hton16 x)" "badvpn_write_be32 y = mem32 (hton32 y)"
    by (simp_all only: mem16_hton16 mem32_hton32)
qed

lemma write_le_image: "badvpn_write_le16 x = mem16 x" "badvpn_write_le32 y = mem32 y"
  by (simp_all add: badvpn_write_le16_def badvpn_write_le32_def mem_bytes)

lemma read_image:
  "badvpn_read_be16 (mem16 x @ r) = ntoh16 x" "badvpn_read_le16 (mem16 x @ r) = x"
  "badvpn_read_be32 (mem32 y @ r) = ntoh32 y" "badvpn_read_le32 (mem32 y @ r) = y"
proof -
  have "x = of_le (mem16 x)" "y = of_le (mem32 y)" by simp_all
  then show "badvpn_read_le16 (mem16 x @ r) = x" "badvpn_read_le32 (mem32 y @ r) = y"
    by (simp_all add: badvpn_read_le16_def badvpn_read_le32_def mem_bytes push_bit_or or.assoc
        or.commute or.left_commute)
qed (simp_all add: badvpn_read_be16_def badvpn_read_be32_def ntoh16_def hton16_def ntoh32_def hton32_def
      badvpn_reverse16_def badvpn_reverse32_def mem_bytes push_bit_or or.assoc or.commute or.left_commute)

text \<open>The byte-wise accessors agree with byte order conversion and memory images: writing in big
  (little) endian order stores the bytes of \<open>hton\<close> (\<open>htol\<close>) of the value, and reading the written
  bytes back, whatever follows them in the buffer, gives the value.\<close>

theorem byte_access_roundtrip:
  "badvpn_write_be16 x = mem16 (hton16 x) \<and> badvpn_read_be16 (badvpn_write_be16 x @ r) = x \<and>
   badvpn_write_le16 x = mem16 (htol16 x) \<and> badvpn_read_le16 (badvpn_write_le16 x @ r) = x \<and>
   badvpn_write_be32 y = mem32 (hton32 y) \<and> badvpn_read_be32 (badvpn_write_be32 y @ r) = y \<and>
   badvpn_write_le32 y = mem32 (htol32 y) \<and> badvpn_read_le32 (badvpn_write_le32 y @ r) = y"
  by (simp only: write_be_image write_le_image read_image ntoh16_hton16 ntoh32_hton32 htol16_def
      htol32_def)

text \<open>Size arithmetic with overflow tracking is exact: a sum, product or maximum of tracked sizes is
  the mathematical result when both operands are valid and the result fits in \<open>size_t\<close> (of any
  width), and the overflow mark otherwise; and converting to \<open>int\<close> gives the value exactly when it is
  at most \<open>INT_MAX\<close>.\<close>

theorem tracked_sizes_exact:
  fixes s t :: "'a::len word bsize_t"
  shows "bsize_num (bsize_add s t) =
      Option.bind (bsize_num s) (\<lambda>m. Option.bind (bsize_num t) (\<lambda>n. fits TYPE('a) (m + n))) \<and>
    bsize_num (bsize_mul s t) =
      Option.bind (bsize_num s) (\<lambda>m. Option.bind (bsize_num t) (\<lambda>n. fits TYPE('a) (m * n))) \<and>
    bsize_num (bsize_max s t) =
      Option.bind (bsize_num s) (\<lambda>m. Option.bind (bsize_num t) (\<lambda>n. Some (max m n))) \<and>
    bsize_toint s =
      Option.bind (bsize_num s) (\<lambda>n. if int n \<le> INT_MAX then Some (int n) else None)"
  by (simp only: bsize_num_add bsize_num_mul bsize_num_max bsize_toint_num)

text \<open>Aligning down and, when the overflow test passes, aligning up give the nearest multiples of
  the alignment, and the rounded-up division is the ceiling, all without wrap-around.\<close>

theorem alignment_exact:
  assumes "n \<noteq> 0"
  shows "unat (balign_down x n) = unat x div unat n * unat n \<and>
    unat (bdivide_up x n) = (unat x + unat n - 1) div unat n \<and>
    (\<not> balign_up_overflows x n \<longrightarrow>
       unat (balign_up x n) = (unat x + unat n - 1) div unat n * unat n)"
  using unat_balign_down unat_bdivide_up [OF assms] unat_balign_up [OF assms] by blast

lemma alignment_exact_witness:
  "unat (balign_up (13 :: u32) 8) = 16 \<and> unat (balign_down (13 :: u32) 8) = 8 \<and>
   unat (bdivide_up (13 :: u32) 8) = 2"
proof -
  have "\<not> balign_up_overflows (13 :: u32) 8" by code_simp
  then show ?thesis using alignment_exact [of "8 :: u32" 13] by simp
qed

end
