(* ===== verification/Inet.thy ===== *)
theory Inet
  imports Wire
begin

text \<open>
  IPv4, IPv6 and UDP headers, their checksums and their validation
  (\<open>misc/ipv4_proto.h\<close>, \<open>misc/ipv6_proto.h\<close>, \<open>misc/udp_proto.h\<close>). A header record holds the
  field values as the C variables do, in network byte order as loaded on the little-endian host.
  A received packet is its list of bytes, so \<open>data_len\<close> is the length of the list.
\<close>

section \<open>The packed headers\<close>

definition IPV4_PROTOCOL_UDP :: byte where "IPV4_PROTOCOL_UDP = 17"
definition IPV6_NEXT_UDP :: byte where "IPV6_NEXT_UDP = 17"

record ipv4_header =
  version4_ihl4 :: byte
  ds :: byte
  total_length :: u16
  identification :: u16
  flags3_fragmentoffset13 :: u16
  ttl :: byte
  protocol :: byte
  ip_checksum :: u16
  source_address :: u32
  destination_address :: u32

definition ipv4_enc :: "ipv4_header \<Rightarrow> byte list" where
  "ipv4_enc h =
     [version4_ihl4 h, ds h] @ mem16 (total_length h) @
     mem16 (identification h) @ mem16 (flags3_fragmentoffset13 h) @
     [ttl h, protocol h] @ mem16 (ip_checksum h) @
     mem32 (source_address h) @ mem32 (destination_address h)"

definition ipv4_dec :: "byte list \<Rightarrow> ipv4_header" where
  "ipv4_dec bs = \<lparr>version4_ihl4 = ld8 0 bs, ds = ld8 1 bs, total_length = ld16 2 bs,
     identification = ld16 4 bs, flags3_fragmentoffset13 = ld16 6 bs, ttl = ld8 8 bs,
     protocol = ld8 9 bs, ip_checksum = ld16 10 bs, source_address = ld32 12 bs,
     destination_address = ld32 16 bs\<rparr>"

record ipv6_header =
  version4_tc4 :: byte
  tc4_fl4 :: byte
  fl :: u16
  payload_length :: u16
  next_header :: byte
  hop_limit :: byte
  source_address6 :: "byte list"
  destination_address6 :: "byte list"

definition ipv6_ok :: "ipv6_header \<Rightarrow> bool" where
  "ipv6_ok h \<longleftrightarrow> length (source_address6 h) = 16 \<and> length (destination_address6 h) = 16"

definition ipv6_enc :: "ipv6_header \<Rightarrow> byte list" where
  "ipv6_enc h =
     [version4_tc4 h, tc4_fl4 h] @ mem16 (fl h) @ mem16 (payload_length h) @
     [next_header h, hop_limit h] @ source_address6 h @ destination_address6 h"

definition ipv6_dec :: "byte list \<Rightarrow> ipv6_header" where
  "ipv6_dec bs = \<lparr>version4_tc4 = ld8 0 bs, tc4_fl4 = ld8 1 bs, fl = ld16 2 bs,
     payload_length = ld16 4 bs, next_header = ld8 6 bs, hop_limit = ld8 7 bs,
     source_address6 = segment 8 16 bs, destination_address6 = segment 24 16 bs\<rparr>"

record udp_header =
  source_port :: u16
  dest_port :: u16
  udp_len :: u16
  udp_csum :: u16

definition udp_enc :: "udp_header \<Rightarrow> byte list" where
  "udp_enc h = mem16 (source_port h) @ mem16 (dest_port h) @ mem16 (udp_len h) @ mem16 (udp_csum h)"

definition udp_dec :: "byte list \<Rightarrow> udp_header" where
  "udp_dec bs = \<lparr>source_port = ld16 0 bs, dest_port = ld16 2 bs, udp_len = ld16 4 bs,
     udp_csum = ld16 6 bs\<rparr>"

text \<open>The three layouts are codecs of 20, 40 and 8 bytes.\<close>

lemma length_ipv4_enc [simp]: "length (ipv4_enc h) = 20"
  by (simp add: ipv4_enc_def)

lemma length_udp_enc [simp]: "length (udp_enc h) = 8"
  by (simp add: udp_enc_def)

interpretation ipv4: codec 20 "\<lambda>_. True" ipv4_enc ipv4_dec
proof unfold_locales
  fix bs :: "byte list" assume "20 \<le> length bs"
  then show "ipv4_enc (ipv4_dec bs) = take 20 bs"
    by (simp add: ipv4_enc_def ipv4_dec_def mem_ld wire_simps flip: segment_0)
qed (simp_all add: ipv4_dec_def ipv4_enc_def wire_simps)

interpretation ipv6: codec 40 ipv6_ok ipv6_enc ipv6_dec
proof unfold_locales
  fix bs :: "byte list" assume "40 \<le> length bs"
  then show "ipv6_enc (ipv6_dec bs) = take 40 bs"
    by (simp add: ipv6_enc_def ipv6_dec_def mem_ld wire_simps flip: segment_0)
qed (simp_all add: ipv6_dec_def ipv6_enc_def ipv6_ok_def wire_simps length_segment)

interpretation udp: codec 8 "\<lambda>_. True" udp_enc udp_dec
proof unfold_locales
  fix bs :: "byte list" assume "8 \<le> length bs"
  then show "udp_enc (udp_dec bs) = take 8 bs"
    by (simp add: udp_enc_def udp_dec_def mem_ld wire_simps flip: segment_0)
qed (simp_all add: udp_dec_def udp_enc_def wire_simps)

section \<open>Checksums\<close>

text \<open>The loop \<open>t += badvpn_read_be16(data + 2 * i)\<close> over \<open>n\<close> 16-bit words, in \<open>uint32_t\<close>.\<close>

fun sum_be16 :: "nat \<Rightarrow> byte list \<Rightarrow> u32 \<Rightarrow> u32" where
  "sum_be16 0 p t = t"
| "sum_be16 (Suc n) p t = sum_be16 n (drop 2 p) (t + ucast (badvpn_read_be16 p))"

text \<open>The folding loop \<open>while (t >> 16) t = (t & 0xFFFF) + (t >> 16)\<close>.\<close>

lemma unat_low_high: "unat (t :: u32) = 65536 * unat (drop_bit 16 t) + unat (t AND 0xFFFF)"
proof -
  have "t AND 0xFFFF = take_bit 16 t" by (simp add: take_bit_eq_mask mask_numeral)
  then have "unat (t AND 0xFFFF) = take_bit 16 (unat t)"
    by (simp only: unsigned_take_bit_eq)
  moreover have "unat (drop_bit 16 t) = drop_bit 16 (unat t)"
    using take_bit_nat_eq_self [OF unat_lt [of t]] by (simp add: unsigned_drop_bit_eq)
  ultimately show ?thesis by (simp add: drop_bit_eq_div take_bit_eq_mod)
qed

lemma unat_fold_step:
  "unat ((t AND 0xFFFF) + drop_bit 16 (t :: u32)) = unat (t AND 0xFFFF) + unat (drop_bit 16 t)"
proof -
  have "unat t < 2 ^ 32" using unat_lt [of t] by simp
  then have "unat (t AND 0xFFFF) + unat (drop_bit 16 t) < 2 ^ 32" using unat_low_high [of t] by simp
  then show ?thesis by (simp add: unat_word_ariths)
qed

function csum_fold :: "u32 \<Rightarrow> u32" where
  "csum_fold t = (if drop_bit 16 t \<noteq> 0 then csum_fold ((t AND 0xFFFF) + drop_bit 16 t) else t)"
  by pat_completeness auto
termination
proof (relation "measure unat")
  fix t :: u32 assume "drop_bit 16 t \<noteq> 0"
  then have "0 < unat (drop_bit 16 t)" by (simp add: unat_gt_0)
  then show "((t AND 0xFFFF) + drop_bit 16 t, t) \<in> measure unat"
    using unat_low_high [of t] by (simp add: unat_fold_step)
qed simp

declare csum_fold.simps [simp del]

definition ipv4_checksum :: "ipv4_header \<Rightarrow> byte list \<Rightarrow> u16" where
  "ipv4_checksum header extra =
     (let t = sum_be16 (20 div 2) (ipv4_enc header) 0;
          t = sum_be16 (length extra div 2) extra t;
          t = csum_fold t
      in hton16 (ucast (NOT t)))"

definition udp_checksum_summer :: "byte list \<Rightarrow> nat \<Rightarrow> u32" where
  "udp_checksum_summer p len = sum_be16 (len div 2) p 0"

text \<open>The payload part, with the odd last byte as the high half of a word.\<close>

definition udp_payload_sum :: "byte list \<Rightarrow> nat \<Rightarrow> u32" where
  "udp_payload_sum payload n =
     (if n mod 2 = 0 then udp_checksum_summer payload n
      else udp_checksum_summer payload (n - 1) +
           udp_checksum_summer (mem16 (hton16 (push_bit 8 (ucast (payload ! (n - 1)))))) 2)"

definition udp_sum :: "udp_header \<Rightarrow> byte list \<Rightarrow> u16 \<Rightarrow> u32 \<Rightarrow> u32 \<Rightarrow> u32" where
  "udp_sum header payload plen source_addr dest_addr =
     (let t = 0;
          t = t + udp_checksum_summer (mem32 source_addr) 4;
          t = t + udp_checksum_summer (mem32 dest_addr) 4;
          x = hton16 (ucast IPV4_PROTOCOL_UDP);
          t = t + udp_checksum_summer (mem16 x) 2;
          x = hton16 (8 + plen);
          t = t + udp_checksum_summer (mem16 x) 2;
          t = t + udp_checksum_summer (udp_enc header) 8
      in t + udp_payload_sum payload (unat plen))"

definition udp_ip6_sum ::
  "udp_header \<Rightarrow> byte list \<Rightarrow> u16 \<Rightarrow> byte list \<Rightarrow> byte list \<Rightarrow> u32" where
  "udp_ip6_sum header payload plen source_addr dest_addr =
     (let t = 0;
          t = t + udp_checksum_summer source_addr 16;
          t = t + udp_checksum_summer dest_addr 16;
          x = hton32 (8 + ucast plen);
          t = t + udp_checksum_summer (mem32 x) 4;
          x = hton32 (ucast IPV6_NEXT_UDP);
          t = t + udp_checksum_summer (mem32 x) 4;
          t = t + udp_checksum_summer (udp_enc header) 8
      in t + udp_payload_sum payload (unat plen))"

text \<open>The common tail: fold, replace a zero sum by all ones, complement.\<close>

definition udp_csum_finish :: "u32 \<Rightarrow> u16" where
  "udp_csum_finish t =
     (let t = csum_fold t;
          t = (if t = 0 then 0xFFFF else t)
      in hton16 (ucast (NOT t)))"

definition udp_checksum :: "udp_header \<Rightarrow> byte list \<Rightarrow> u16 \<Rightarrow> u32 \<Rightarrow> u32 \<Rightarrow> u16" where
  "udp_checksum header payload plen source_addr dest_addr =
     udp_csum_finish (udp_sum header payload plen source_addr dest_addr)"

definition udp_ip6_checksum ::
  "udp_header \<Rightarrow> byte list \<Rightarrow> u16 \<Rightarrow> byte list \<Rightarrow> byte list \<Rightarrow> u16" where
  "udp_ip6_checksum header payload plen source_addr dest_addr =
     udp_csum_finish (udp_ip6_sum header payload plen source_addr dest_addr)"

section \<open>Validation of received packets\<close>

definition IPV4_GET_VERSION :: "ipv4_header \<Rightarrow> byte" where
  "IPV4_GET_VERSION h = drop_bit 4 (version4_ihl4 h AND 0xF0)"

definition IPV4_GET_IHL :: "ipv4_header \<Rightarrow> byte" where
  "IPV4_GET_IHL h = drop_bit 0 (version4_ihl4 h AND 0x0F)"

definition IPV4_MAKE_VERSION_IHL :: "byte \<Rightarrow> byte" where
  "IPV4_MAKE_VERSION_IHL sz = sz div 4 + push_bit 4 4"

definition ipv4_check :: "byte list \<Rightarrow> (ipv4_header \<times> byte list) option" where
  "ipv4_check data =
     (if length data < 20 then None
      else let out_header = ipv4_dec data in
      if IPV4_GET_VERSION out_header \<noteq> 4 then None
      else let header_len = unat (IPV4_GET_IHL out_header) * 4 in
      if header_len < 20 then None
      else if header_len > length data then None
      else let tot = unat (ntoh16 (total_length out_header)) in
      if tot < header_len then None
      else if tot > length data then None
      else let checksum_in_packet = ip_checksum out_header;
               checksum_computed =
                 ipv4_checksum (out_header\<lparr>ip_checksum := hton16 0\<rparr>)
                   (segment 20 (header_len - 20) data) in
      if checksum_in_packet \<noteq> checksum_computed then None
      else Some (out_header, segment header_len (tot - header_len) data))"

definition ipv6_check :: "byte list \<Rightarrow> (ipv6_header \<times> byte list) option" where
  "ipv6_check data =
     (if length data < 40 then None
      else let out_header = ipv6_dec data in
      if drop_bit 4 (ntoh8 (version4_tc4 out_header)) \<noteq> 6 then None
      else let plen = unat (ntoh16 (payload_length out_header)) in
      if plen > length data - 40 then None
      else Some (out_header, segment 40 plen data))"

definition udp_check :: "byte list \<Rightarrow> (udp_header \<times> byte list) option" where
  "udp_check data =
     (if length data < 8 then None
      else let out_header = udp_dec data;
               data = drop 8 data;
               data_len = length data;
               udp_length = unat (ntoh16 (udp_len out_header)) in
      if udp_length < 8 then None
      else if udp_length > 8 + data_len then None
      else Some (out_header, take (udp_length - 8) data))"

section \<open>One's complement arithmetic (RFC 1071)\<close>

text \<open>
  \<open>csum_fold\<close> is the one's complement reduction: it lands in 16 bits, keeps the residue modulo
  65535 and is zero only on zero.
\<close>

lemma mod_65535_split: "(65536 * h + l) mod 65535 = (l + h) mod (65535 :: nat)"
proof -
  have "65536 * h + l = (l + h) + h * 65535" by simp
  then show ?thesis by (simp only: mod_mult_self1)
qed

lemma csum_fold_spec:
  "unat (csum_fold t) \<le> 65535 \<and> unat (csum_fold t) mod 65535 = unat t mod 65535 \<and>
   (unat (csum_fold t) = 0 \<longleftrightarrow> unat t = 0)"
proof (induction t rule: csum_fold.induct)
  case (1 t)
  show ?case
  proof (cases "drop_bit 16 t = 0")
    case True
    then have "unat t = unat (t AND 0xFFFF)" using unat_low_high [of t] by simp
    moreover have "unat (t AND 0xFFFF) \<le> 65535"
      using word_and_le1 [of t "0xFFFF"] by (simp add: word_le_nat_alt)
    ultimately show ?thesis using True by (simp add: csum_fold.simps [of t])
  next
    case False
    then have eq: "csum_fold t = csum_fold ((t AND 0xFFFF) + drop_bit 16 t)"
      by (simp add: csum_fold.simps [of t])
    have "unat t mod 65535 = (unat (t AND 0xFFFF) + unat (drop_bit 16 t)) mod 65535"
      using unat_low_high [of t] by (simp only: mod_65535_split)
    moreover have "unat t = 0 \<longleftrightarrow> unat (t AND 0xFFFF) + unat (drop_bit 16 t) = 0"
      using unat_low_high [of t] by auto
    ultimately show ?thesis using 1 [OF False] unfolding eq unat_fold_step by metis
  qed
qed

text \<open>The word sum as a natural number, which the 32-bit accumulator does not overflow.\<close>

fun words_nat :: "nat \<Rightarrow> byte list \<Rightarrow> nat" where
  "words_nat 0 p = 0"
| "words_nat (Suc n) p = unat (badvpn_read_be16 p) + words_nat n (drop 2 p)"

lemma words_nat_le: "words_nat n p \<le> 65535 * n"
proof (induction n arbitrary: p)
  case (Suc n)
  have "unat (badvpn_read_be16 p) \<le> 65535"
    using unat_u16_less [of "badvpn_read_be16 p"] by simp
  then have "unat (badvpn_read_be16 p) + words_nat n (drop 2 p) \<le> 65535 + 65535 * n"
    using Suc.IH by (rule add_mono)
  then show ?case by simp
qed simp

lemma unat_ucast_u16: "unat (ucast (x :: u16) :: u32) = unat x"
  using unat_u16_less [of x]
  by (simp add: unsigned_ucast_eq take_bit_nat_eq_self_iff)

lemma unat_sum_be16:
  "unat t + 65535 * n < 4294967296 \<Longrightarrow> unat (sum_be16 n p t) = unat t + words_nat n p"
proof (induction n arbitrary: p t)
  case (Suc n)
  have w: "unat (badvpn_read_be16 p) \<le> 65535"
    using unat_u16_less [of "badvpn_read_be16 p"] by simp
  have "unat (t + ucast (badvpn_read_be16 p)) = unat t + unat (badvpn_read_be16 p)"
    using Suc.prems w by (simp add: unat_word_ariths unat_ucast_u16)
  moreover from this have "unat (sum_be16 n (drop 2 p) (t + ucast (badvpn_read_be16 p))) =
      unat (t + ucast (badvpn_read_be16 p)) + words_nat n (drop 2 p)"
    using Suc.prems w by (intro Suc.IH) simp
  ultimately show ?case by simp
qed simp

lemma words_nat_append:
  "length p = 2 * n \<Longrightarrow> words_nat (n + m) (p @ q) = words_nat n p + words_nat m q"
proof (induction n arbitrary: p)
  case (Suc n)
  then obtain a b p' where "p = a # b # p'" by (cases p; cases "tl p") auto
  with Suc show ?case by (simp add: badvpn_read_be16_def)
qed simp

lemma read_be16_mem16 [simp]: "badvpn_read_be16 (mem16 x @ r) = ntoh16 x"
  by (simp add: badvpn_read_be16_def ntoh16_def hton16_def badvpn_reverse16_def mem_bytes or.commute)

lemma read_be16_mem16_self [simp]: "badvpn_read_be16 (mem16 x) = ntoh16 x"
  using read_be16_mem16 [of x "[]"] by simp

lemma words_nat_mem16 [simp]: "words_nat 1 (mem16 x @ r) = unat (ntoh16 x)"
  by simp

text \<open>Completing the one's complement sum with its complement gives all ones.\<close>

lemma complement_residue:
  assumes "c \<le> 65535" and "c mod 65535 = s mod 65535" and "c = 0 \<longleftrightarrow> s = (0::nat)"
    and "unat t = s + (65535 - c)"
  shows "csum_fold t = 0xFFFF"
proof -
  have "(s + (65535 - c)) mod 65535 = (s mod 65535 + (65535 - c)) mod 65535"
    by (rule mod_add_left_eq [symmetric])
  also have "\<dots> = (c + (65535 - c)) mod 65535" using assms(2) by (metis mod_add_left_eq)
  also have "\<dots> = 0" using assms(1) by simp
  finally have "unat (csum_fold t) mod 65535 = 0" using csum_fold_spec [of t] assms(4) by simp
  moreover have "unat (csum_fold t) \<noteq> 0" using csum_fold_spec [of t] assms(1,3,4) by auto
  ultimately have "unat (csum_fold t) = 65535"
    using csum_fold_spec [of t] by (metis dvd_imp_le dvd_eq_mod_eq_0 le_antisym neq0_conv)
  then have "csum_fold t = of_nat 65535" by (metis of_nat_unat_self)
  then show ?thesis by simp
qed

lemma unat_complement16:
  assumes "unat (t :: u32) \<le> 65535"
  shows "unat (ucast (NOT t) :: u16) = 65535 - unat t"
proof -
  have "NOT t = - 1 - t" by (simp add: not_eq_complement algebra_simps)
  then have "unat (NOT t) = unat (- 1 - t)" by simp
  also have "\<dots> = 4294967295 - unat t" by (simp add: unat_sub unat_minus_1)
  also have "\<dots> = (65535 - unat t) + 65535 * 65536" using assms by simp
  finally have "unat (NOT t) mod 65536 = (65535 - unat t) mod 65536" by (simp only: mod_mult_self1)
  then show ?thesis by (simp add: unsigned_ucast_eq take_bit_eq_mod)
qed

text \<open>Splitting the header around its checksum field.\<close>

lemma words_nat_Cons2: "words_nat (Suc n) (a # b # p) = unat (badvpn_read_be16 [a, b]) + words_nat n p"
  by (simp add: badvpn_read_be16_def)

lemma words_nat_ipv4:
  "words_nat 10 (ipv4_enc h) =
     words_nat 10 (ipv4_enc (h\<lparr>ip_checksum := 0\<rparr>)) + unat (ntoh16 (ip_checksum h))"
proof -
  have split: "words_nat 10 (ipv4_enc k) = words_nat 5 (take 10 (ipv4_enc k)) +
      (unat (ntoh16 (ip_checksum k)) + words_nat 4 (drop 12 (ipv4_enc k)))" for k
  proof -
    have "ipv4_enc k = take 10 (ipv4_enc k) @ mem16 (ip_checksum k) @ drop 12 (ipv4_enc k)"
      by (simp add: ipv4_enc_def mem_bytes)
    moreover have "words_nat (5 + (1 + 4)) (take 10 (ipv4_enc k) @ mem16 (ip_checksum k) @ drop 12 (ipv4_enc k))
        = words_nat 5 (take 10 (ipv4_enc k)) + (unat (ntoh16 (ip_checksum k)) + words_nat 4 (drop 12 (ipv4_enc k)))"
      by (subst words_nat_append, simp, subst words_nat_append) simp_all
    ultimately show ?thesis by simp
  qed
  have "take 10 (ipv4_enc (h\<lparr>ip_checksum := 0\<rparr>)) = take 10 (ipv4_enc h)"
    and "drop 12 (ipv4_enc (h\<lparr>ip_checksum := 0\<rparr>)) = drop 12 (ipv4_enc h)"
    by (simp_all add: ipv4_enc_def)
  then show ?thesis
    using split [of h] split [of "h\<lparr>ip_checksum := 0\<rparr>"] by (simp add: ntoh16_def)
qed

lemma ipv4_sum_nat:
  "unat (sum_be16 (length extra div 2) extra (sum_be16 10 (ipv4_enc h) 0)) =
     words_nat 10 (ipv4_enc h) + words_nat (length extra div 2) extra"
  if "length extra \<le> 65535"
proof -
  have h: "unat (sum_be16 10 (ipv4_enc h) 0) = words_nat 10 (ipv4_enc h)"
    by (subst unat_sum_be16) simp_all
  have "words_nat 10 (ipv4_enc h) \<le> 655350" using words_nat_le [of 10 "ipv4_enc h"] by simp
  moreover have "length extra div 2 \<le> 32767" using that by simp
  ultimately show ?thesis by (subst unat_sum_be16) (simp_all add: h)
qed

lemma ipv4_checksum_sums_to_ones:
  fixes h :: ipv4_header
  assumes "length extra \<le> 65535"
  defines "c \<equiv> ipv4_checksum (h\<lparr>ip_checksum := 0\<rparr>) extra"
  shows "csum_fold (sum_be16 (length extra div 2) extra
           (sum_be16 10 (ipv4_enc (h\<lparr>ip_checksum := c\<rparr>)) 0)) = 0xFFFF"
proof -
  let ?z = "h\<lparr>ip_checksum := 0\<rparr>"
  let ?s = "sum_be16 (length extra div 2) extra (sum_be16 10 (ipv4_enc ?z) 0)"
  have f: "unat (csum_fold ?s) \<le> 65535" "unat (csum_fold ?s) mod 65535 = unat ?s mod 65535"
      "unat (csum_fold ?s) = 0 \<longleftrightarrow> unat ?s = 0"
    using csum_fold_spec [of ?s] by blast+
  have "ntoh16 c = ucast (NOT (csum_fold ?s))"
    by (simp add: c_def ipv4_checksum_def Let_def)
  then have "unat (ntoh16 c) = 65535 - unat (csum_fold ?s)"
    using unat_complement16 [OF f(1)] by simp
  moreover have "words_nat 10 (ipv4_enc (h\<lparr>ip_checksum := c\<rparr>)) = words_nat 10 (ipv4_enc ?z) + unat (ntoh16 c)"
    using words_nat_ipv4 [of "h\<lparr>ip_checksum := c\<rparr>"] by simp
  ultimately have "unat (sum_be16 (length extra div 2) extra (sum_be16 10 (ipv4_enc (h\<lparr>ip_checksum := c\<rparr>)) 0))
      = unat ?s + (65535 - unat (csum_fold ?s))"
    by (simp add: ipv4_sum_nat [OF assms(1)])
  with f show ?thesis by (rule complement_residue)
qed

section \<open>The zero checksum of UDP\<close>

text \<open>
  The pseudo header contains the protocol number 17 and the 32-bit sum does not wrap, so the sum
  is never zero and the test \<open>t == 0\<close> in front of the complement never succeeds.
\<close>

lemma unat_summer: "len \<le> 65535 \<Longrightarrow> unat (udp_checksum_summer p len) = words_nat (len div 2) p"
  by (simp add: udp_checksum_summer_def unat_sum_be16)

lemma unat_summer_le: "len \<le> 65535 \<Longrightarrow> unat (udp_checksum_summer p len) \<le> 65535 * (len div 2)"
  by (simp add: unat_summer words_nat_le)

lemma unat_payload_sum_le: "n \<le> 65535 \<Longrightarrow> unat (udp_payload_sum p n) \<le> 65535 * 32768"
proof (cases "n mod 2 = 0")
  case True
  assume "n \<le> 65535"
  then have "unat (udp_checksum_summer p n) \<le> 65535 * (n div 2)" by (rule unat_summer_le)
  also have "\<dots> \<le> 65535 * 32768" using \<open>n \<le> 65535\<close> by simp
  finally show ?thesis using True by (simp add: udp_payload_sum_def)
next
  case False
  assume n: "n \<le> 65535"
  let ?l = "udp_checksum_summer (mem16 (hton16 (push_bit 8 (ucast (p ! (n - 1)))))) 2"
  have "unat (udp_checksum_summer p (n - 1)) \<le> 65535 * ((n - 1) div 2)"
    by (rule unat_summer_le) (use n in simp)
  also have "\<dots> \<le> 65535 * 32767" using n by simp
  finally have a: "unat (udp_checksum_summer p (n - 1)) \<le> 65535 * 32767" .
  have b: "unat ?l \<le> 65535" using unat_summer_le [of 2] by simp
  have "unat (udp_checksum_summer p (n - 1) + ?l) = unat (udp_checksum_summer p (n - 1)) + unat ?l"
    using a b by (simp add: unat_word_ariths)
  then show ?thesis using False a b by (simp add: udp_payload_sum_def)
qed

lemma unat_add_le:
  assumes "unat (a :: u32) \<le> m" and "unat b \<le> n" and "m + n < 4294967296"
  shows "unat (a + b) = unat a + unat b" and "unat (a + b) \<le> m + n"
proof -
  have "unat a + unat b \<le> m + n" using assms(1,2) by (rule add_mono)
  then show "unat (a + b) = unat a + unat b" using assms(3) by (simp add: unat_word_ariths)
  with \<open>unat a + unat b \<le> m + n\<close> show "unat (a + b) \<le> m + n" by simp
qed

lemma summer_proto:
  "udp_checksum_summer (mem16 (hton16 (ucast IPV4_PROTOCOL_UDP))) 2 = 17"
  "udp_checksum_summer (mem32 (hton32 (ucast IPV6_NEXT_UDP))) 4 = 17"
  by code_simp+

lemma six_part_sum_pos:
  fixes a b x h p :: u32
  assumes "unat a \<le> 524280" "unat b \<le> 524280" "unat x \<le> 131070"
    "unat h \<le> 262140" "unat p \<le> 65535 * 32768"
  shows "a + b + 17 + x + h + p \<noteq> 0" and "a + b + x + 17 + h + p \<noteq> 0"
proof -
  have "17 \<le> unat (a + b + 17 + x + h + p) \<and> 17 \<le> unat (a + b + x + 17 + h + p)"
    using assms by (simp add: unat_word_ariths)
  then show "a + b + 17 + x + h + p \<noteq> 0" and "a + b + x + 17 + h + p \<noteq> 0" by auto
qed

lemma csum_fold_eq_0: "csum_fold t = 0 \<longleftrightarrow> t = 0"
  using csum_fold_spec [of t] by (simp add: unat_eq_zero)

lemma udp_sum_pos: "csum_fold (udp_sum h p n s d) \<noteq> 0"
proof -
  have "unat (udp_payload_sum p (unat n)) \<le> 65535 * 32768"
    by (rule unat_payload_sum_le) (use unat_u16_less [of n] in simp)
  moreover have "unat (udp_checksum_summer q 4) \<le> 524280" for q using unat_summer_le [of 4 q] by simp
  moreover have "unat (udp_checksum_summer q 2) \<le> 131070" for q using unat_summer_le [of 2 q] by simp
  moreover have "unat (udp_checksum_summer q 8) \<le> 262140" for q using unat_summer_le [of 8 q] by simp
  ultimately show ?thesis
    unfolding csum_fold_eq_0 udp_sum_def Let_def add_0_left summer_proto by (intro six_part_sum_pos)
qed

lemma udp_ip6_sum_pos: "csum_fold (udp_ip6_sum h p n s d) \<noteq> 0"
proof -
  have "unat (udp_payload_sum p (unat n)) \<le> 65535 * 32768"
    by (rule unat_payload_sum_le) (use unat_u16_less [of n] in simp)
  moreover have "unat (udp_checksum_summer q 16) \<le> 524280" for q using unat_summer_le [of 16 q] by simp
  moreover have "unat (udp_checksum_summer q 4) \<le> 131070" for q using unat_summer_le [of 4 q] by simp
  moreover have "unat (udp_checksum_summer q 8) \<le> 262140" for q using unat_summer_le [of 8 q] by simp
  ultimately show ?thesis
    unfolding csum_fold_eq_0 udp_ip6_sum_def Let_def add_0_left summer_proto by (intro six_part_sum_pos)
qed

lemma unat_csum_finish:
  "csum_fold t \<noteq> 0 \<Longrightarrow> unat (ntoh16 (udp_csum_finish t)) = 65535 - unat (csum_fold t)"
  using csum_fold_spec [of t] by (simp add: udp_csum_finish_def Let_def unat_complement16)

text \<open>Filling in the checksum completes the sum to all ones, which is what a receiver checks.\<close>

lemma words_nat_udp:
  fixes h :: udp_header
  shows "words_nat 4 (udp_enc (h\<lparr>udp_csum := c\<rparr>)) =
     words_nat 4 (udp_enc (h\<lparr>udp_csum := 0\<rparr>)) + unat (ntoh16 c)"
proof -
  have split: "words_nat (3 + 1) ((mem16 (source_port h) @ mem16 (dest_port h) @ mem16 (udp_len h)) @ mem16 x) =
      words_nat 3 (mem16 (source_port h) @ mem16 (dest_port h) @ mem16 (udp_len h)) + unat (ntoh16 x)" for x
    by (subst words_nat_append) simp_all
  show ?thesis using split [of c] split [of 0] by (simp add: udp_enc_def ntoh16_def)
qed

lemma six_part_sum_nat:
  fixes a b x h p :: u32
  assumes "unat a \<le> 524280" "unat b \<le> 524280" "unat x \<le> 131070"
    "unat h \<le> 262140" "unat p \<le> 65535 * 32768"
  shows "unat (a + b + 17 + x + h + p) = unat a + unat b + 17 + unat x + unat h + unat p"
    and "unat (a + b + x + 17 + h + p) = unat a + unat b + 17 + unat x + unat h + unat p"
  using assms by (simp_all add: unat_word_ariths)

lemma udp_sum_csum:
  fixes h :: udp_header
  shows "unat (udp_sum (h\<lparr>udp_csum := c\<rparr>) p n s d) = unat (udp_sum (h\<lparr>udp_csum := 0\<rparr>) p n s d) + unat (ntoh16 c)"
proof -
  have pl: "unat (udp_payload_sum p (unat n)) \<le> 65535 * 32768"
    by (rule unat_payload_sum_le) (use unat_u16_less [of n] in simp)
  have b: "unat (udp_checksum_summer q 4) \<le> 524280" "unat (udp_checksum_summer q 2) \<le> 131070"
    "unat (udp_checksum_summer q 8) \<le> 262140" for q
    using unat_summer_le [of 4 q] unat_summer_le [of 2 q] unat_summer_le [of 8 q] by simp_all
  have "unat (udp_checksum_summer (udp_enc (h\<lparr>udp_csum := c\<rparr>)) 8) =
      unat (udp_checksum_summer (udp_enc (h\<lparr>udp_csum := 0\<rparr>)) 8) + unat (ntoh16 c)"
    using words_nat_udp [of c h] by (simp add: unat_summer)
  then show ?thesis
    unfolding udp_sum_def Let_def add_0_left summer_proto
    by (simp only: six_part_sum_nat [OF b(1) b(1) b(2) b(3) pl])
qed

lemma udp_ip6_sum_csum:
  fixes h :: udp_header
  shows "unat (udp_ip6_sum (h\<lparr>udp_csum := c\<rparr>) p n s d) =
     unat (udp_ip6_sum (h\<lparr>udp_csum := 0\<rparr>) p n s d) + unat (ntoh16 c)"
proof -
  have pl: "unat (udp_payload_sum p (unat n)) \<le> 65535 * 32768"
    by (rule unat_payload_sum_le) (use unat_u16_less [of n] in simp)
  have b: "unat (udp_checksum_summer q 16) \<le> 524280" "unat (udp_checksum_summer q 4) \<le> 131070"
    "unat (udp_checksum_summer q 8) \<le> 262140" for q
    using unat_summer_le [of 16 q] unat_summer_le [of 4 q] unat_summer_le [of 8 q] by simp_all
  have "unat (udp_checksum_summer (udp_enc (h\<lparr>udp_csum := c\<rparr>)) 8) =
      unat (udp_checksum_summer (udp_enc (h\<lparr>udp_csum := 0\<rparr>)) 8) + unat (ntoh16 c)"
    using words_nat_udp [of c h] by (simp add: unat_summer)
  then show ?thesis
    unfolding udp_ip6_sum_def Let_def add_0_left summer_proto
    by (simp only: six_part_sum_nat [OF b(1) b(1) b(2) b(3) pl])
qed

lemma finish_completes:
  assumes "csum_fold t \<noteq> 0" and "unat t' = unat t + unat (ntoh16 (udp_csum_finish t))"
  shows "csum_fold t' = 0xFFFF"
proof (rule complement_residue [of "unat (csum_fold t)" "unat t"])
  show "unat t' = unat t + (65535 - unat (csum_fold t))"
    using assms by (simp add: unat_csum_finish)
qed (use csum_fold_spec [of t] in blast)+

text \<open>The checksums written into the IPv4 header and into the UDP header (under the IPv4 and the
  IPv6 pseudo header) complete the one's complement sum over the covered bytes to all ones, for
  every header, payload and address, with IPv4 options up to the size of a packet: no 32-bit
  accumulator wraps, and an odd payload is padded on the right side.\<close>

theorem checksums_complete_the_sum:
  fixes ip :: ipv4_header and h :: udp_header
  shows "(length opts \<le> 65535 \<longrightarrow>
      csum_fold (sum_be16 (length opts div 2) opts (sum_be16 10 (ipv4_enc
        (ip\<lparr>ip_checksum := ipv4_checksum (ip\<lparr>ip_checksum := 0\<rparr>) opts\<rparr>)) 0)) = 0xFFFF) \<and>
   csum_fold (udp_sum (h\<lparr>udp_csum := udp_checksum (h\<lparr>udp_csum := 0\<rparr>) p n s d\<rparr>) p n s d) = 0xFFFF \<and>
   csum_fold (udp_ip6_sum (h\<lparr>udp_csum := udp_ip6_checksum (h\<lparr>udp_csum := 0\<rparr>) p n s6 d6\<rparr>) p n s6 d6)
     = 0xFFFF"
proof (intro conjI impI)
  show "csum_fold (udp_sum (h\<lparr>udp_csum := udp_checksum (h\<lparr>udp_csum := 0\<rparr>) p n s d\<rparr>) p n s d) = 0xFFFF"
    by (rule finish_completes [OF udp_sum_pos [of "h\<lparr>udp_csum := 0\<rparr>" p n s d]])
      (unfold udp_checksum_def, rule udp_sum_csum)
  show "csum_fold (udp_ip6_sum (h\<lparr>udp_csum := udp_ip6_checksum (h\<lparr>udp_csum := 0\<rparr>) p n s6 d6\<rparr>) p n s6 d6)
     = 0xFFFF"
    by (rule finish_completes [OF udp_ip6_sum_pos [of "h\<lparr>udp_csum := 0\<rparr>" p n s6 d6]])
      (unfold udp_ip6_checksum_def, rule udp_ip6_sum_csum)
qed (rule ipv4_checksum_sums_to_ones)

lemma checksums_complete_the_sum_witness:
  "csum_fold (sum_be16 0 [] (sum_be16 10 (ipv4_enc
     ((ipv4_dec (replicate 20 7))\<lparr>ip_checksum :=
        ipv4_checksum ((ipv4_dec (replicate 20 7))\<lparr>ip_checksum := 0\<rparr>) []\<rparr>)) 0)) = 0xFFFF"
  using checksums_complete_the_sum [THEN conjunct1, rule_format, of "[]" "ipv4_dec (replicate 20 7)"]
  by simp

lemma udp_finish_zero: "csum_fold t \<noteq> 0 \<Longrightarrow>
    udp_csum_finish t \<noteq> 0xFFFF \<and> (udp_csum_finish t = 0 \<longleftrightarrow> csum_fold t = 0xFFFF)"
proof -
  assume nz: "csum_fold t \<noteq> 0"
  let ?c = "udp_csum_finish t"
  have n: "unat (ntoh16 ?c) = 65535 - unat (csum_fold t)" by (rule unat_csum_finish [OF nz])
  have zero: "?c = 0 \<longleftrightarrow> unat (ntoh16 ?c) = 0"
    by (metis hton16_0 hton16_ntoh16 ntoh16_hton16 unat_0 unat_eq_zero)
  have ones: "ntoh16 (0xFFFF :: u16) = 0xFFFF" by code_simp
  have "0 < unat (csum_fold t)" using nz by (simp add: unat_gt_0)
  then have "unat (ntoh16 ?c) < 65535" using n by simp
  then have "?c \<noteq> 0xFFFF" by (auto simp: ones)
  moreover have "unat (csum_fold t) = 65535 \<longleftrightarrow> csum_fold t = 0xFFFF"
    using word_unat_eq_iff [of "csum_fold t" "0xFFFF"] by simp
  moreover have "unat (csum_fold t) \<le> 65535" using csum_fold_spec [of t] by blast
  ultimately show ?thesis using zero n by auto
qed

text \<open>C40. The checksum the code computes is never all ones: where the one's complement of the sum is
  zero it is sent as zero, which RFC 768 reserves for "no checksum" (all ones must be sent instead).
  The guard that was meant to do the replacement tests the sum before it is complemented, and that
  sum is never zero. This holds for the IPv4 and the IPv6 pseudo header.\<close>

theorem udp_checksum_zero_is_sent:
  "(udp_checksum h p n s d \<noteq> 0xFFFF \<and>
      (udp_checksum h p n s d = 0 \<longleftrightarrow> csum_fold (udp_sum h p n s d) = 0xFFFF)) \<and>
   (udp_ip6_checksum h p n s6 d6 \<noteq> 0xFFFF \<and>
      (udp_ip6_checksum h p n s6 d6 = 0 \<longleftrightarrow> csum_fold (udp_ip6_sum h p n s6 d6) = 0xFFFF))"
  unfolding udp_checksum_def udp_ip6_checksum_def
  by (intro conjI udp_finish_zero [THEN conjunct1] udp_finish_zero [THEN conjunct2]
      udp_sum_pos udp_ip6_sum_pos)

section \<open>Accepted packets\<close>

text \<open>Exactly the packets a check accepts.\<close>

definition ipv4_packet :: "ipv4_header \<Rightarrow> byte list \<Rightarrow> byte list \<Rightarrow> bool" where
  "ipv4_packet h opts p \<longleftrightarrow>
     IPV4_GET_VERSION h = 4 \<and> unat (IPV4_GET_IHL h) * 4 = 20 + length opts \<and>
     unat (ntoh16 (total_length h)) = 20 + length opts + length p \<and>
     ip_checksum h = ipv4_checksum (h\<lparr>ip_checksum := 0\<rparr>) opts"

lemma ipv4_check_accepts:
  "ipv4_check data = Some (h, p) \<longleftrightarrow>
     (\<exists>opts trail. data = ipv4_enc h @ opts @ p @ trail \<and> ipv4_packet h opts p)"
proof
  assume a: "ipv4_check data = Some (h, p)"
  let ?hl = "unat (IPV4_GET_IHL h) * 4" and ?tot = "unat (ntoh16 (total_length h))"
  have len: "20 \<le> length data" and h: "h = ipv4_dec data"
    using a by (auto simp: ipv4_check_def Let_def split: if_splits)
  have b: "20 \<le> ?hl" "?hl \<le> length data" "?hl \<le> ?tot" "?tot \<le> length data"
    "IPV4_GET_VERSION h = 4" "p = segment ?hl (?tot - ?hl) data"
    "ip_checksum h = ipv4_checksum (h\<lparr>ip_checksum := 0\<rparr>) (segment 20 (?hl - 20) data)"
    using a by (auto simp: ipv4_check_def Let_def h split: if_splits)
  have "data = ipv4_enc h @ drop 20 data" using ipv4.split_image [OF len] h by simp
  also have "drop 20 data = segment 20 (?hl - 20) data @ p @ drop ?tot data"
    using split_segments [OF b(1), of data] split_segments [OF b(3), of data] b(6) by simp
  finally show "\<exists>opts trail. data = ipv4_enc h @ opts @ p @ trail \<and> ipv4_packet h opts p"
    using b by (intro exI conjI) (auto simp: ipv4_packet_def length_segment)
next
  assume "\<exists>opts trail. data = ipv4_enc h @ opts @ p @ trail \<and> ipv4_packet h opts p"
  then obtain opts trail where d: "data = ipv4_enc h @ opts @ p @ trail" and ok: "ipv4_packet h opts p"
    by blast
  have "ipv4_dec data = h" using d ipv4.dec_enc by simp
  moreover have "segment 20 (length opts) data = opts" "segment (20 + length opts) (length p) data = p"
    by (simp_all add: d segment_def)
  ultimately show "ipv4_check data = Some (h, p)"
    using ok d by (simp add: ipv4_check_def ipv4_packet_def Let_def)
qed

text \<open>C39. The IPv4 check accepts a buffer exactly when it starts with a well-formed packet: a header
  with version 4, options that fill the header length, a payload that fills the total length and the
  checksum of the header with its checksum field cleared; bytes after the total length are ignored,
  and the payload handed on is exactly that payload.\<close>

theorem ipv4_check_iff:
  "ipv4_check data = Some (h, p) \<longleftrightarrow>
     (\<exists>opts trail. data = ipv4_enc h @ opts @ p @ trail \<and> ipv4_packet h opts p)"
  by (rule ipv4_check_accepts)

lemma ipv6_check_accepts:
  "ipv6_check data = Some (h, p) \<longleftrightarrow>
     (\<exists>trail. data = ipv6_enc h @ p @ trail \<and> ipv6_ok h \<and>
        drop_bit 4 (version4_tc4 h) = 6 \<and> unat (ntoh16 (payload_length h)) = length p)"
proof
  assume a: "ipv6_check data = Some (h, p)"
  let ?n = "unat (ntoh16 (payload_length h))"
  have len: "40 \<le> length data" and h: "h = ipv6_dec data"
    using a by (auto simp: ipv6_check_def Let_def split: if_splits)
  have b: "?n \<le> length data - 40" "drop_bit 4 (version4_tc4 h) = 6" "p = segment 40 ?n data"
    using a by (auto simp: ipv6_check_def Let_def h wire_simps split: if_splits)
  have "data = ipv6_enc h @ drop 40 data" using ipv6.split_image [OF len] h by simp
  also have "drop 40 data = p @ drop (40 + ?n) data"
    using split_segments [of 40 "40 + ?n" data] b(3) by simp
  finally show "\<exists>trail. data = ipv6_enc h @ p @ trail \<and> ipv6_ok h \<and>
        drop_bit 4 (version4_tc4 h) = 6 \<and> ?n = length p"
    using b len ipv6.ok_dec [OF len] h by (auto simp: length_segment)
next
  assume "\<exists>trail. data = ipv6_enc h @ p @ trail \<and> ipv6_ok h \<and>
        drop_bit 4 (version4_tc4 h) = 6 \<and> unat (ntoh16 (payload_length h)) = length p"
  then obtain trail where d: "data = ipv6_enc h @ p @ trail" and ok: "ipv6_ok h"
    "drop_bit 4 (version4_tc4 h) = 6" "unat (ntoh16 (payload_length h)) = length p" by blast
  have "ipv6_dec data = h" "length (ipv6_enc h) = 40"
    using d ipv6.dec_enc [OF ok(1)] ipv6.enc_length [OF ok(1)] by simp_all
  moreover have "segment 40 (length p) data = p"
    using calculation by (simp add: d segment_def)
  ultimately show "ipv6_check data = Some (h, p)"
    using ok d by (simp add: ipv6_check_def Let_def wire_simps)
qed

text \<open>The IPv6 check accepts a buffer exactly when it is a fixed header with version nibble 6
  followed by as many payload bytes as the header announces, and hands on exactly these bytes.\<close>

theorem ipv6_check_iff:
  "ipv6_check data = Some (h, p) \<longleftrightarrow>
     (\<exists>trail. data = ipv6_enc h @ p @ trail \<and> ipv6_ok h \<and>
        drop_bit 4 (version4_tc4 h) = 6 \<and> unat (ntoh16 (payload_length h)) = length p)"
  by (rule ipv6_check_accepts)

lemma udp_check_accepts:
  "udp_check data = Some (h, p) \<longleftrightarrow>
     (\<exists>trail. data = udp_enc h @ p @ trail \<and> unat (ntoh16 (udp_len h)) = 8 + length p)"
proof
  assume a: "udp_check data = Some (h, p)"
  let ?n = "unat (ntoh16 (udp_len h))"
  have len: "8 \<le> length data" and h: "h = udp_dec data"
    using a by (auto simp: udp_check_def Let_def split: if_splits)
  have b: "8 \<le> ?n" "?n \<le> length data" "p = take (?n - 8) (drop 8 data)"
    using a len by (auto simp: udp_check_def Let_def h split: if_splits)
  have "data = udp_enc h @ drop 8 data" using udp.split_image [OF len] h by simp
  also have "drop 8 data = p @ drop (?n - 8) (drop 8 data)"
    unfolding b(3) by (rule append_take_drop_id [symmetric])
  finally show "\<exists>trail. data = udp_enc h @ p @ trail \<and> ?n = 8 + length p" using b by auto
next
  assume "\<exists>trail. data = udp_enc h @ p @ trail \<and> unat (ntoh16 (udp_len h)) = 8 + length p"
  then obtain trail where d: "data = udp_enc h @ p @ trail" "unat (ntoh16 (udp_len h)) = 8 + length p"
    by blast
  then have "udp_dec data = h" using udp.dec_enc by simp
  then show "udp_check data = Some (h, p)"
    using d by (simp add: udp_check_def Let_def)
qed

text \<open>The UDP check accepts a buffer exactly when it is a UDP header followed by the number of
  data bytes its length field announces (the length counts the header), and hands on these bytes.\<close>

theorem udp_check_iff:
  "udp_check data = Some (h, p) \<longleftrightarrow>
     (\<exists>trail. data = udp_enc h @ p @ trail \<and> unat (ntoh16 (udp_len h)) = 8 + length p)"
  by (rule udp_check_accepts)
end
