(* ===== verification/Avl.thy ===== *)
theory Avl
  imports Prelude
begin

text \<open>
  The intrusive AVL tree of \<open>structure/BAVL.h\<close>. A node carries a client value \<open>'n\<close> (the object
  the node is embedded in) and its balance factor; \<open>link[0]\<close> and \<open>link[1]\<close> are the two subtrees,
  selected by a \<open>bool\<close> side. The parent pointers, which the code follows upwards when it rebalances,
  are a zipper: the list of frames from a node to the root. The comparator and the offset of the
  key inside the object are the parameters \<open>cmp\<close> and \<open>key\<close>, as in \<open>BAVL_Init\<close>.
\<close>

section \<open>Nodes and links\<close>

datatype 'n avl_tree = Leaf | Node "'n avl_tree" 'n int "'n avl_tree"

fun link :: "'n avl_tree \<Rightarrow> bool \<Rightarrow> 'n avl_tree" where
  "link Leaf d = Leaf"
| "link (Node l v b r) d = (if d then r else l)"

fun set_link :: "'n avl_tree \<Rightarrow> bool \<Rightarrow> 'n avl_tree \<Rightarrow> 'n avl_tree" where
  "set_link Leaf d x = Leaf"
| "set_link (Node l v b r) d x = (if d then Node l v b x else Node x v b r)"

fun balance :: "'n avl_tree \<Rightarrow> int" where
  "balance Leaf = 0"
| "balance (Node l v b r) = b"

fun set_balance :: "'n avl_tree \<Rightarrow> int \<Rightarrow> 'n avl_tree" where
  "set_balance Leaf c = Leaf"
| "set_balance (Node l v b r) c = Node l v c r"

text \<open>
  \<open>Frame s v b other\<close>: the parent holds \<open>v\<close> with balance \<open>b\<close>, the child is its \<open>link[s]\<close> and
  \<open>other\<close> its \<open>link[!s]\<close>. \<open>attach\<close> puts a child back under its parent.
\<close>

datatype 'n frame = Frame bool 'n int "'n avl_tree"

fun attach :: "'n frame \<Rightarrow> 'n avl_tree \<Rightarrow> 'n avl_tree" where
  "attach (Frame s v b other) t = (if s then Node other v b t else Node t v b other)"

fun zip_up :: "'n frame list \<Rightarrow> 'n avl_tree \<Rightarrow> 'n avl_tree" where
  "zip_up [] t = t"
| "zip_up (f # ctx) t = zip_up ctx (attach f t)"

fun frame_side :: "'n frame \<Rightarrow> bool" where
  "frame_side (Frame s v b other) = s"

section \<open>Rebalancing\<close>

definition BAVL_OPTNEG :: "int \<Rightarrow> bool \<Rightarrow> int" where
  "BAVL_OPTNEG a neg = (if neg then - a else a)"

definition BAVL_rotate :: "'n avl_tree \<Rightarrow> bool \<Rightarrow> 'n avl_tree" where
  "BAVL_rotate r dir =
     (let nr = link r (\<not> dir) in set_link nr dir (set_link r (\<not> dir) (link nr dir)))"

text \<open>
  One level of \<open>_BAVL_rebalance\<close>: \<open>node\<close> is the parent of the changed subtree \<open>link[side]\<close>, whose
  height changed by \<open>deltac\<close>. The result is the subtree now in the node's place and how much its
  height changed.
\<close>

definition rebalance_node :: "'n avl_tree \<Rightarrow> bool \<Rightarrow> int \<Rightarrow> 'n avl_tree \<times> int" where
  "rebalance_node node side deltac =
     (let delta = max deltac (BAVL_OPTNEG (balance node) side) - max 0 (BAVL_OPTNEG (balance node) side);
          node = set_balance node (balance node - BAVL_OPTNEG deltac side)
      in if balance node = 2 \<or> balance node = - 2 then
           let (bside, bsidef) = (if balance node = 2 then (True, 1) else (False, - 1));
               child = link node bside
           in if balance child * bsidef = 1 then
                (BAVL_rotate (set_link (set_balance node 0) bside (set_balance child 0)) (\<not> bside), delta - 1)
              else if balance child * bsidef = 0 then
                (BAVL_rotate (set_link (set_balance node (1 * bsidef)) bside
                   (set_balance child (- 1 * bsidef))) (\<not> bside), delta)
              else
                let gchild = link child (\<not> bside);
                    child' = BAVL_rotate
                      (set_link (set_balance child (max 0 (- balance gchild * bsidef) * bsidef)) (\<not> bside)
                         (set_balance gchild 0)) bside
                in (BAVL_rotate
                      (set_link (set_balance node (- max 0 (balance gchild * bsidef) * bsidef)) bside child')
                      (\<not> bside), delta - 1)
         else (node, delta))"

fun BAVL_rebalance :: "'n frame list \<Rightarrow> 'n avl_tree \<Rightarrow> bool \<Rightarrow> int \<Rightarrow> 'n avl_tree" where
  "BAVL_rebalance [] node side deltac =
     (if deltac = 0 then node else fst (rebalance_node node side deltac))"
| "BAVL_rebalance (f # ctx) node side deltac =
     (if deltac = 0 then zip_up (f # ctx) node
      else let (node', delta) = rebalance_node node side deltac
           in BAVL_rebalance ctx (attach f node') (frame_side f) delta)"

section \<open>Operations\<close>

definition BAVL_Init :: "'n avl_tree" where "BAVL_Init = Leaf"

text \<open>
  The descending loop of \<open>BAVL_Insert\<close>, from the node \<open>c\<close> with its ancestors \<open>ctx\<close>. The result is
  the new tree, the return value and \<open>*ref\<close>.
\<close>

fun insert_from ::
  "('n \<Rightarrow> 'k) \<Rightarrow> ('k \<Rightarrow> 'k \<Rightarrow> int) \<Rightarrow> 'n \<Rightarrow> 'n avl_tree \<Rightarrow> 'n frame list \<Rightarrow>
     'n avl_tree \<times> bool \<times> 'n option" where
  "insert_from key cmp node Leaf ctx = (zip_up ctx Leaf, False, None)"
| "insert_from key cmp node (Node l v b r) ctx =
     (let comp = cmp (key node) (key v) in
      if comp = 0 then (zip_up ctx (Node l v b r), False, Some v)
      else let side = (comp = 1) in
      if link (Node l v b r) side = Leaf then
        (BAVL_rebalance ctx (set_link (Node l v b r) side (Node Leaf node 0 Leaf)) side 1, True, Some v)
      else if side then insert_from key cmp node r (Frame True v b l # ctx)
      else insert_from key cmp node l (Frame False v b r # ctx))"

definition BAVL_Insert ::
  "('n \<Rightarrow> 'k) \<Rightarrow> ('k \<Rightarrow> 'k \<Rightarrow> int) \<Rightarrow> 'n avl_tree \<Rightarrow> 'n \<Rightarrow> 'n avl_tree \<times> bool \<times> 'n option" where
  "BAVL_Insert key cmp t node =
     (if t = Leaf then (Node Leaf node 0 Leaf, True, None) else insert_from key cmp node t [])"

fun BAVL_LookupExact :: "('n \<Rightarrow> 'k) \<Rightarrow> ('k \<Rightarrow> 'k \<Rightarrow> int) \<Rightarrow> 'n avl_tree \<Rightarrow> 'k \<Rightarrow> 'n option" where
  "BAVL_LookupExact key cmp Leaf k = None"
| "BAVL_LookupExact key cmp (Node l v b r) k =
     (let comp = cmp k (key v) in
      if comp = 0 then Some v
      else if comp = 1 then BAVL_LookupExact key cmp r k else BAVL_LookupExact key cmp l k)"

text \<open>The path to the node that holds \<open>node\<close>, which the code has through its pointer.\<close>

fun path_to ::
  "('n \<Rightarrow> 'k) \<Rightarrow> ('k \<Rightarrow> 'k \<Rightarrow> int) \<Rightarrow> 'n \<Rightarrow> 'n avl_tree \<Rightarrow> 'n frame list \<Rightarrow>
     ('n frame list \<times> 'n avl_tree) option" where
  "path_to key cmp node Leaf ctx = None"
| "path_to key cmp node (Node l v b r) ctx =
     (let comp = cmp (key node) (key v) in
      if comp = 0 then Some (ctx, Node l v b r)
      else if comp = 1 then path_to key cmp node r (Frame True v b l # ctx)
      else path_to key cmp node l (Frame False v b r # ctx))"

text \<open>\<open>_BAVL_subtree_max\<close>: the path down the right links, the value there and its left link.\<close>

fun BAVL_subtree_max ::
  "'n avl_tree \<Rightarrow> 'n frame list \<Rightarrow> ('n frame list \<times> 'n \<times> 'n avl_tree) option" where
  "BAVL_subtree_max Leaf ctx = None"
| "BAVL_subtree_max (Node l v b r) ctx =
     (if r = Leaf then Some (ctx, v, l) else BAVL_subtree_max r (Frame True v b l # ctx))"

text \<open>Replacing a node that has at most one child by that child, and rebalancing from its parent.\<close>

fun replace_and_rebalance :: "'n frame list \<Rightarrow> 'n avl_tree \<Rightarrow> 'n avl_tree" where
  "replace_and_rebalance [] child = child"
| "replace_and_rebalance (f # ctx) child = BAVL_rebalance ctx (attach f child) (frame_side f) (- 1)"

definition BAVL_Remove :: "('n \<Rightarrow> 'k) \<Rightarrow> ('k \<Rightarrow> 'k \<Rightarrow> int) \<Rightarrow> 'n avl_tree \<Rightarrow> 'n \<Rightarrow> 'n avl_tree" where
  "BAVL_Remove key cmp t node =
     (case path_to key cmp node t [] of
        Some (ctx, Node l v b r) \<Rightarrow>
          (if l \<noteq> Leaf \<and> r \<noteq> Leaf then
             (case BAVL_subtree_max l [] of
                Some (down, m, ml) \<Rightarrow> replace_and_rebalance (down @ Frame False m b r # ctx) ml
              | None \<Rightarrow> t)
           else replace_and_rebalance ctx (if l \<noteq> Leaf then l else r))
      | _ \<Rightarrow> t)"

definition BAVL_IsEmpty :: "'n avl_tree \<Rightarrow> bool" where "BAVL_IsEmpty t \<longleftrightarrow> t = Leaf"

fun BAVL_GetFirst :: "'n avl_tree \<Rightarrow> 'n option" where
  "BAVL_GetFirst Leaf = None"
| "BAVL_GetFirst (Node l v b r) = (if l = Leaf then Some v else BAVL_GetFirst l)"

fun BAVL_GetLast :: "'n avl_tree \<Rightarrow> 'n option" where
  "BAVL_GetLast Leaf = None"
| "BAVL_GetLast (Node l v b r) = (if r = Leaf then Some v else BAVL_GetLast r)"

text \<open>\<open>BAVL_Lookup\<close> returns the last node met when no key is equal.\<close>

fun BAVL_Lookup :: "('n \<Rightarrow> 'k) \<Rightarrow> ('k \<Rightarrow> 'k \<Rightarrow> int) \<Rightarrow> 'n avl_tree \<Rightarrow> 'k \<Rightarrow> 'n option" where
  "BAVL_Lookup key cmp Leaf k = None"
| "BAVL_Lookup key cmp (Node l v b r) k =
     (let comp = cmp k (key v) in
      if comp = 0 then Some v
      else let side = (comp = 1) in
      if link (Node l v b r) side = Leaf then Some v
      else if side then BAVL_Lookup key cmp r k else BAVL_Lookup key cmp l k)"

text \<open>
  The loop of \<open>BAVL_GetNext\<close> and \<open>BAVL_GetPrev\<close> that climbs while the node is \<open>link[d]\<close> of its
  parent, and then takes the parent.
\<close>

fun climb :: "bool \<Rightarrow> 'n frame list \<Rightarrow> 'n option" where
  "climb d [] = None"
| "climb d (Frame s v b other # ctx) = (if s = d then climb d ctx else Some v)"

definition BAVL_GetNext ::
  "('n \<Rightarrow> 'k) \<Rightarrow> ('k \<Rightarrow> 'k \<Rightarrow> int) \<Rightarrow> 'n avl_tree \<Rightarrow> 'n \<Rightarrow> 'n option" where
  "BAVL_GetNext key cmp t n =
     (case path_to key cmp n t [] of
        Some (ctx, Node l v b r) \<Rightarrow> if r \<noteq> Leaf then BAVL_GetFirst r else climb True ctx
      | _ \<Rightarrow> None)"

definition BAVL_GetPrev ::
  "('n \<Rightarrow> 'k) \<Rightarrow> ('k \<Rightarrow> 'k \<Rightarrow> int) \<Rightarrow> 'n avl_tree \<Rightarrow> 'n \<Rightarrow> 'n option" where
  "BAVL_GetPrev key cmp t n =
     (case path_to key cmp n t [] of
        Some (ctx, Node l v b r) \<Rightarrow> if l \<noteq> Leaf then BAVL_GetLast l else climb False ctx
      | _ \<Rightarrow> None)"

section \<open>Shape\<close>

fun ht :: "'n avl_tree \<Rightarrow> int" where
  "ht Leaf = 0"
| "ht (Node l v b r) = 1 + max (ht l) (ht r)"

fun avl :: "'n avl_tree \<Rightarrow> bool" where
  "avl Leaf \<longleftrightarrow> True"
| "avl (Node l v b r) \<longleftrightarrow> b = ht r - ht l \<and> - 1 \<le> b \<and> b \<le> 1 \<and> avl l \<and> avl r"

fun inorder :: "'n avl_tree \<Rightarrow> 'n list" where
  "inorder Leaf = []"
| "inorder (Node l v b r) = inorder l @ v # inorder r"

lemma ht_nonneg [simp]: "0 \<le> ht t"
  by (induction t) auto

lemma ht_Suc_pos [simp]: "0 < 1 + ht t"
  using ht_nonneg [of t] by linarith

lemma max_ht_0 [simp]: "max (ht t) 0 = ht t" "max 0 (ht t) = ht t"
  by (simp_all add: max_def order_antisym)

lemma ht_0_iff [simp]: "ht t = 0 \<longleftrightarrow> t = Leaf"
  by (cases t) (auto simp: add_nonneg_eq_0_iff max_def)

lemma ht_pos_Node: "0 < ht t \<Longrightarrow> \<exists>l v b r. t = Node l v b r"
  by (cases t) auto

text \<open>
  The contract of one level, for a node whose stored balance is \<open>b\<close> although its subtrees now have
  heights that differ by \<open>ht r - ht l\<close>: the result is balanced, holds the same sequence, and its
  height differs from the height before the change by the reported amount.
\<close>

definition level_ok :: "int \<Rightarrow> 'n avl_tree \<times> int \<Rightarrow> 'n list \<Rightarrow> bool" where
  "level_ok h0 res xs \<longleftrightarrow>
     avl (fst res) \<and> snd res \<in> {- 1, 0, 1} \<and> ht (fst res) = h0 + snd res \<and> inorder (fst res) = xs"

lemmas level_defs = rebalance_node_def BAVL_rotate_def BAVL_OPTNEG_def level_ok_def Let_def

text \<open>
  \<open>stale s l b r dc h0\<close>: \<open>b\<close> and \<open>h0\<close> are the balance and the height the node had before
  \<open>link[s]\<close> changed its height by \<open>dc\<close>.
\<close>

definition stale :: "bool \<Rightarrow> 'n avl_tree \<Rightarrow> int \<Rightarrow> 'n avl_tree \<Rightarrow> int \<Rightarrow> int \<Rightarrow> bool" where
  "stale s l b r dc h0 \<longleftrightarrow> avl l \<and> avl r \<and> dc \<in> {- 1, 0, 1} \<and> - 1 \<le> b \<and> b \<le> 1 \<and>
     (if s then b = ht r - dc - ht l \<and> h0 = 1 + max (ht l) (ht r - dc)
      else b = ht r - (ht l - dc) \<and> h0 = 1 + max (ht l - dc) (ht r))"

lemma level_balanced:
  assumes "stale s l b r dc h0" "- 1 \<le> ht r - ht l" "ht r - ht l \<le> 1"
  shows "level_ok h0 (rebalance_node (Node l v b r) s dc) (inorder l @ v # inorder r)"
  using assms by (auto simp: stale_def level_defs max_def split: if_splits)

lemma level_right_heavy:
  assumes st: "stale s l b r dc h0" and d: "ht r - ht l = 2"
  shows "level_ok h0 (rebalance_node (Node l v b r) s dc) (inorder l @ v # inorder r)"
proof -
  note assms = st [unfolded stale_def] d
  have "0 < ht r" using d ht_nonneg [of l] by linarith
  then obtain rl rv rb rr where r: "r = Node rl rv rb rr" using ht_pos_Node by blast
  then have bal: "rb = ht rr - ht rl" "avl rl" "avl rr" "rb = - 1 \<or> rb = 0 \<or> rb = 1"
    using assms by auto
  from bal(4) show ?thesis
  proof (elim disjE)
    assume m: "rb = - 1"
    then have "0 < ht rl" using bal(1) ht_nonneg [of rr] by linarith
    then obtain gl gv gb gr where "rl = Node gl gv gb gr" using ht_pos_Node by blast
    with m show ?thesis using assms bal r by (auto simp: level_defs max_def split: if_splits)
  qed (use assms bal r in \<open>auto simp: level_defs max_def split: if_splits\<close>)
qed

lemma level_left_heavy:
  assumes st: "stale s l b r dc h0" and d: "ht l - ht r = 2"
  shows "level_ok h0 (rebalance_node (Node l v b r) s dc) (inorder l @ v # inorder r)"
proof -
  note assms = st [unfolded stale_def] d
  have "0 < ht l" using d ht_nonneg [of r] by linarith
  then obtain rl rv rb rr where r: "l = Node rl rv rb rr" using ht_pos_Node by blast
  then have bal: "rb = ht rr - ht rl" "avl rl" "avl rr" "rb = - 1 \<or> rb = 0 \<or> rb = 1"
    using assms by auto
  from bal(4) show ?thesis
  proof (elim disjE)
    assume m: "rb = 1"
    then have "0 < ht rr" using bal(1) ht_nonneg [of rl] by linarith
    then obtain gl gv gb gr where "rr = Node gl gv gb gr" using ht_pos_Node by blast
    with m show ?thesis using assms bal r by (auto simp: level_defs max_def split: if_splits)
  qed (use assms bal r in \<open>auto simp: level_defs max_def split: if_splits\<close>)
qed

lemma level:
  assumes "stale s l b r dc h0"
  shows "level_ok h0 (rebalance_node (Node l v b r) s dc) (inorder l @ v # inorder r)"
proof -
  have "ht r - ht l = 2 \<or> ht l - ht r = 2 \<or> - 1 \<le> ht r - ht l \<and> ht r - ht l \<le> 1"
    using assms by (auto simp: stale_def split: if_splits)
  then show ?thesis
    using level_balanced [OF assms] level_right_heavy [OF assms] level_left_heavy [OF assms] by blast
qed

section \<open>Whole trees\<close>

text \<open>A zipper whose hole expects a subtree of height \<open>h\<close>, and the sequence it represents.\<close>

fun ctx_ok :: "'n frame list \<Rightarrow> int \<Rightarrow> bool" where
  "ctx_ok [] h \<longleftrightarrow> True"
| "ctx_ok (Frame s v b t # ctx) h \<longleftrightarrow>
     avl t \<and> - 1 \<le> b \<and> b \<le> 1 \<and> b = (if s then h - ht t else ht t - h) \<and> ctx_ok ctx (1 + max h (ht t))"

fun ctx_list :: "'n frame list \<Rightarrow> 'n list \<Rightarrow> 'n list" where
  "ctx_list [] xs = xs"
| "ctx_list (Frame s v b t # ctx) xs =
     ctx_list ctx (if s then inorder t @ v # xs else xs @ v # inorder t)"

lemma avl_zip_up: "avl t \<Longrightarrow> ctx_ok ctx (ht t) \<Longrightarrow> avl (zip_up ctx t)"
proof (induction ctx arbitrary: t)
  case (Cons f ctx)
  then show ?case by (cases f) (auto simp: max.commute split: if_splits)
qed simp

lemma inorder_zip_up [simp]: "inorder (zip_up ctx t) = ctx_list ctx (inorder t)"
proof (induction ctx arbitrary: t)
  case (Cons f ctx)
  then show ?case by (cases f) simp
qed simp

lemma rebalance_ok:
  assumes "stale s l b r dc h0" and "ctx_ok ctx h0"
  shows "avl (BAVL_rebalance ctx (Node l v b r) s dc) \<and>
         inorder (BAVL_rebalance ctx (Node l v b r) s dc) = ctx_list ctx (inorder l @ v # inorder r)"
  using assms
proof (induction ctx arbitrary: s l v b r dc h0)
  case Nil
  then show ?case using level [OF Nil.prems(1), of v]
    by (auto simp: stale_def level_ok_def split: if_splits)
next
  case (Cons f ctx)
  show ?case
  proof (cases "dc = 0")
    case True
    then have "avl (Node l v b r)" and "ht (Node l v b r) = h0"
      using Cons.prems(1) by (auto simp: stale_def max.commute split: if_splits)
    then show ?thesis using True Cons.prems(2) avl_zip_up [of "Node l v b r" "f # ctx"]
        inorder_zip_up [of "f # ctx" "Node l v b r"] by simp
  next
    case False
    obtain t d where res: "rebalance_node (Node l v b r) s dc = (t, d)" by fastforce
    have lv: "avl t" "d \<in> {- 1, 0, 1}" "ht t = h0 + d" "inorder t = inorder l @ v # inorder r"
      using level [OF Cons.prems(1), of v] by (simp_all add: res level_ok_def)
    obtain fs fv fb ft where f: "f = Frame fs fv fb ft" by (cases f)
    show ?thesis
    proof (cases fs)
      case True
      have "stale True ft fb t d (1 + max (ht ft) (ht t - d))"
        using Cons.prems(2) lv f True by (simp add: stale_def)
      moreover have "ctx_ok ctx (1 + max (ht ft) (ht t - d))"
        using Cons.prems(2) lv f True by (simp add: max.commute)
      ultimately show ?thesis using Cons.IH False res f True lv(4) by simp
    next
      case fF: False
      have "stale False t fb ft d (1 + max (ht t - d) (ht ft))"
        using Cons.prems(2) lv f fF by (simp add: stale_def)
      moreover have "ctx_ok ctx (1 + max (ht t - d) (ht ft))"
        using Cons.prems(2) lv f fF by simp
      ultimately show ?thesis using Cons.IH False res f fF lv(4) by simp
    qed
  qed
qed

text \<open>Removing the node at a zipper position.\<close>

lemma replace_and_rebalance_ok:
  assumes "avl child" and "ctx_ok ctx (1 + ht child)"
  shows "avl (replace_and_rebalance ctx child) \<and>
         inorder (replace_and_rebalance ctx child) = ctx_list ctx (inorder child)"
proof (cases ctx)
  case Nil
  then show ?thesis using assms by simp
next
  case (Cons f rest)
  obtain s v b t where f: "f = Frame s v b t" by (cases f)
  have "stale s (if s then t else child) b (if s then child else t) (- 1)
      (1 + max (1 + ht child) (ht t))"
    using assms Cons f by (simp add: stale_def max.commute)
  moreover have "ctx_ok rest (1 + max (1 + ht child) (ht t))" using assms Cons f by simp
  ultimately show ?thesis using rebalance_ok [of s _ b _ "- 1" _ rest v] Cons f
    by (cases s) simp_all
qed

lemma ctx_list_append: "ctx_list (d @ c) xs = ctx_list c (ctx_list d xs)"
proof (induction d arbitrary: xs)
  case (Cons f d)
  then show ?case by (cases f) simp
qed simp

lemma ctx_ok_append_value:
  "ctx_ok (d @ Frame s v b t # c) h \<longleftrightarrow> ctx_ok (d @ Frame s w b t # c) h"
proof (induction d arbitrary: h)
  case (Cons f d)
  then show ?case by (cases f) simp
qed simp

lemma subtree_max_append:
  "BAVL_subtree_max t (c @ c') = map_option (\<lambda>(d, m, ml). (d @ c', m, ml)) (BAVL_subtree_max t c)"
proof (induction t arbitrary: c)
  case (Node l v b r)
  then show ?case using Node.IH(2) [of "Frame True v b l # c"] by simp
qed simp

lemma subtree_max_list:
  "BAVL_subtree_max t [] = Some (d, m, ml) \<Longrightarrow> ctx_list d (inorder ml) @ [m] = inorder t"
proof (induction t arbitrary: d)
  case (Node l v b r)
  show ?case
  proof (cases "r = Leaf")
    case False
    have "BAVL_subtree_max r ([] @ [Frame True v b l]) = Some (d, m, ml)" using Node.prems False by simp
    then obtain d' where "BAVL_subtree_max r [] = Some (d', m, ml)" "d = d' @ [Frame True v b l]"
      unfolding subtree_max_append by auto
    then show ?thesis using Node.IH(2) [of d'] by (simp add: ctx_list_append)
  qed (use Node.prems in simp)
qed simp

lemma subtree_max_ok:
  "BAVL_subtree_max t c = Some (d, m, ml) \<Longrightarrow> avl t \<Longrightarrow> ctx_ok c (ht t) \<Longrightarrow>
     avl ml \<and> ctx_ok d (1 + ht ml)"
proof (induction t arbitrary: c)
  case (Node l v b r)
  show ?case
  proof (cases "r = Leaf")
    case False
    then show ?thesis using Node by (simp add: max.commute)
  qed (use Node.prems in simp)
qed simp

lemma subtree_max_exists: "t \<noteq> Leaf \<Longrightarrow> \<exists>d m ml. BAVL_subtree_max t c = Some (d, m, ml)"
  by (induction t c rule: BAVL_subtree_max.induct) auto

lemma path_to_ok:
  "path_to key cmp n t ctx = Some (ctx', t') \<Longrightarrow> avl t \<Longrightarrow> ctx_ok ctx (ht t) \<Longrightarrow>
     zip_up ctx' t' = zip_up ctx t \<and> avl t' \<and> ctx_ok ctx' (ht t') \<and>
     (\<exists>l v b r. t' = Node l v b r \<and> cmp (key n) (key v) = 0)"
proof (induction t arbitrary: ctx)
  case (Node l v b r)
  then show ?case by (auto simp: Let_def max.commute split: if_splits)
qed simp

text \<open>Removal deletes the node that compares equal and keeps the rest of the sequence.\<close>

lemma remove_spec:
  assumes "path_to key cmp n t [] = Some (ctx, Node l v b r)" and "avl t"
  shows "avl (BAVL_Remove key cmp t n) \<and> inorder t = ctx_list ctx (inorder l @ v # inorder r) \<and>
         inorder (BAVL_Remove key cmp t n) = ctx_list ctx (inorder l @ inorder r)"
proof -
  have z: "zip_up ctx (Node l v b r) = t" "avl (Node l v b r)" "ctx_ok ctx (ht (Node l v b r))"
    using path_to_ok [OF assms(1,2)] by auto
  have "inorder t = ctx_list ctx (inorder l @ v # inorder r)"
    by (simp add: z(1) [symmetric])
  moreover have "avl (BAVL_Remove key cmp t n) \<and>
      inorder (BAVL_Remove key cmp t n) = ctx_list ctx (inorder l @ inorder r)"
  proof (cases "l \<noteq> Leaf \<and> r \<noteq> Leaf")
    case True
    then obtain d m ml where mx: "BAVL_subtree_max l [] = Some (d, m, ml)"
      using subtree_max_exists by blast
    let ?c = "\<lambda>w. Frame False w b r # ctx"
    have "BAVL_subtree_max l ([] @ ?c v) = Some (d @ ?c v, m, ml)"
      unfolding subtree_max_append mx by simp
    then have "avl ml \<and> ctx_ok (d @ ?c v) (1 + ht ml)"
      using subtree_max_ok [of l "?c v"] z by simp
    then have "avl ml" "ctx_ok (d @ ?c m) (1 + ht ml)"
      by (simp_all add: ctx_ok_append_value [of d False m b r ctx _ v])
    then have "avl (replace_and_rebalance (d @ ?c m) ml) \<and>
        inorder (replace_and_rebalance (d @ ?c m) ml) = ctx_list (d @ ?c m) (inorder ml)"
      by (rule replace_and_rebalance_ok)
    moreover have "ctx_list (d @ ?c m) (inorder ml) = ctx_list ctx (inorder l @ inorder r)"
      using subtree_max_list [OF mx, symmetric] by (simp add: ctx_list_append)
    ultimately show ?thesis using True mx assms(1) by (simp add: BAVL_Remove_def)
  next
    case False
    let ?child = "if l \<noteq> Leaf then l else r"
    have "avl ?child" "ctx_ok ctx (1 + ht ?child)" using z False by (auto split: if_splits)
    then have "avl (replace_and_rebalance ctx ?child) \<and>
        inorder (replace_and_rebalance ctx ?child) = ctx_list ctx (inorder ?child)"
      by (rule replace_and_rebalance_ok)
    then show ?thesis using False assms(1) by (auto simp: BAVL_Remove_def)
  qed
  ultimately show ?thesis by blast
qed

section \<open>Search trees\<close>

text \<open>
  The contract of a comparator: it answers -1, 0 or 1, swapping the arguments swaps the sign, and
  \<open>\<le>\<close> is transitive. Keys that compare equal need not be identical. Every comparator the program
  hands to \<open>BAVL_Init\<close> is an interpretation of this locale.
\<close>

fun ctx_pre :: "'n frame list \<Rightarrow> 'n list" where
  "ctx_pre [] = []"
| "ctx_pre (Frame s v b t # ctx) = ctx_pre ctx @ (if s then inorder t @ [v] else [])"

fun ctx_post :: "'n frame list \<Rightarrow> 'n list" where
  "ctx_post [] = []"
| "ctx_post (Frame s v b t # ctx) = (if s then [] else v # inorder t) @ ctx_post ctx"

lemma ctx_list_split: "ctx_list ctx xs = ctx_pre ctx @ xs @ ctx_post ctx"
proof (induction ctx arbitrary: xs)
  case (Cons f ctx)
  then show ?case by (cases f) simp
qed simp

lemma inorder_Nil [simp]: "inorder t = [] \<longleftrightarrow> t = Leaf"
  by (cases t) auto

lemma get_first_hd: "BAVL_GetFirst t = (if t = Leaf then None else Some (hd (inorder t)))"
  by (induction t) (auto simp: hd_append)

lemma get_last_last: "BAVL_GetLast t = (if t = Leaf then None else Some (last (inorder t)))"
  by (induction t) (auto simp: last_append)

lemma climb_next:
  "climb True ctx = (if ctx_post ctx = [] then None else Some (hd (ctx_post ctx)))"
  by (induction ctx rule: ctx_post.induct) auto

lemma climb_prev:
  "climb False ctx = (if ctx_pre ctx = [] then None else Some (last (ctx_pre ctx)))"
  by (induction ctx rule: ctx_pre.induct) auto

locale comparator =
  fixes cmp :: "'k \<Rightarrow> 'k \<Rightarrow> int"
  assumes cmp_range: "cmp x y \<in> {- 1, 0, 1}"
    and cmp_swap: "cmp y x = - cmp x y"
    and cmp_trans: "cmp x y \<le> 0 \<Longrightarrow> cmp y z \<le> 0 \<Longrightarrow> cmp x z \<le> 0"
begin

lemma cmp_self [simp]: "cmp x x = 0"
  using cmp_swap [of x x] by simp

lemma cmp_cases:
  obtains "cmp x y = - 1" | "cmp x y = 0" | "cmp x y = 1"
  using cmp_range [of x y] by auto

lemma cmp_less_trans: "cmp x y = - 1 \<Longrightarrow> cmp y z = - 1 \<Longrightarrow> cmp x z = - 1"
proof -
  assume a: "cmp x y = - 1" "cmp y z = - 1"
  then have "cmp x z \<le> 0" by (intro cmp_trans [of x y z]) simp_all
  moreover have "cmp x z \<noteq> 0"
  proof
    assume "cmp x z = 0"
    then have "cmp z x \<le> 0" using cmp_swap [of z x] by simp
    then have "cmp y x \<le> 0" using a(2) by (intro cmp_trans [of y z x]) simp_all
    then show False using a(1) cmp_swap [of y x] by simp
  qed
  ultimately show ?thesis using cmp_range [of x z] by auto
qed

lemma cmp_eq_left: "cmp x y = 0 \<Longrightarrow> cmp x z = cmp y z"
proof -
  assume e: "cmp x y = 0"
  then have e': "cmp y x = 0" using cmp_swap [of x y] by simp
  have "cmp x z \<le> 0 \<longleftrightarrow> cmp y z \<le> 0"
    using cmp_trans [of x y z] cmp_trans [of y x z] e e' by auto
  moreover have "cmp z x \<le> 0 \<longleftrightarrow> cmp z y \<le> 0"
    using cmp_trans [of z y x] cmp_trans [of z x y] e e' by auto
  ultimately show ?thesis
    using cmp_range [of x z] cmp_range [of y z] cmp_swap [of z x] cmp_swap [of z y] by auto
qed

definition sorted_keys :: "('n \<Rightarrow> 'k) \<Rightarrow> 'n list \<Rightarrow> bool" where
  "sorted_keys key xs \<longleftrightarrow> sorted_wrt (\<lambda>a b. cmp (key a) (key b) = - 1) xs"

definition bst :: "('n \<Rightarrow> 'k) \<Rightarrow> 'n avl_tree \<Rightarrow> bool" where
  "bst key t \<longleftrightarrow> avl t \<and> sorted_keys key (inorder t)"

lemma sorted_keys_cong: "(\<forall>n\<in>set xs. key n = key' n) \<Longrightarrow> sorted_keys key xs = sorted_keys key' xs"
  by (induction xs) (auto simp: sorted_keys_def)

lemma bst_cong: "(\<forall>n\<in>set (inorder t). key n = key' n) \<Longrightarrow> bst key t = bst key' t"
  unfolding bst_def by (simp only: sorted_keys_cong)

lemma sorted_keys_append:
  "sorted_keys key (xs @ ys) \<longleftrightarrow> sorted_keys key xs \<and> sorted_keys key ys \<and>
     (\<forall>x\<in>set xs. \<forall>y\<in>set ys. cmp (key x) (key y) = - 1)"
  by (auto simp: sorted_keys_def sorted_wrt_append)

lemma sorted_keys_Cons:
  "sorted_keys key (x # ys) \<longleftrightarrow> sorted_keys key ys \<and> (\<forall>y\<in>set ys. cmp (key x) (key y) = - 1)"
  by (auto simp: sorted_keys_def)

lemmas sorted_keys_simps = sorted_keys_append sorted_keys_Cons ball_Un

lemma sorted_keys_distinct: "sorted_keys key xs \<Longrightarrow> distinct xs"
proof (induction xs)
  case (Cons x xs)
  then show ?case by (auto simp: sorted_keys_Cons)
qed simp

lemma sorted_keys_unique:
  "sorted_keys key xs \<Longrightarrow> x \<in> set xs \<Longrightarrow> y \<in> set xs \<Longrightarrow> cmp (key x) (key y) = 0 \<Longrightarrow> x = y"
proof (induction xs)
  case (Cons a xs)
  show ?case
  proof (rule ccontr)
    assume ne: "x \<noteq> y"
    then have "cmp (key x) (key y) = - 1 \<or> cmp (key y) (key x) = - 1"
      using Cons by (auto simp: sorted_keys_Cons)
    then show False using Cons.prems(4) cmp_swap [of "key y" "key x"] by auto
  qed
qed simp

lemma bst_Init: "bst key BAVL_Init"
  by (simp add: bst_def BAVL_Init_def sorted_keys_def)

lemma lookup_exact_Some:
  "BAVL_LookupExact key cmp t k = Some n \<Longrightarrow> n \<in> set (inorder t) \<and> cmp k (key n) = 0"
  by (induction t) (auto simp: Let_def split: if_splits)

lemma lookup_exact_None:
  "BAVL_LookupExact key cmp t k = None \<Longrightarrow> sorted_keys key (inorder t) \<Longrightarrow>
     n \<in> set (inorder t) \<Longrightarrow> cmp k (key n) \<noteq> 0"
proof (induction t)
  case (Node l v b r)
  have srt: "sorted_keys key (inorder l)" "sorted_keys key (inorder r)"
    "\<forall>x\<in>set (inorder l). cmp (key x) (key v) = - 1" "\<forall>x\<in>set (inorder r). cmp (key v) (key x) = - 1"
    using Node.prems(2) by (auto simp: sorted_keys_simps)
  consider "cmp k (key v) = 1" | "cmp k (key v) = - 1"
    using Node.prems(1) cmp_range [of k "key v"] by (auto simp: Let_def)
  then show ?case
  proof cases
    case 1
    then have "cmp (key v) k = - 1" using cmp_swap [of k "key v"] by simp
    then have "\<forall>x\<in>set (inorder l). cmp (key x) k = - 1" using srt(3) cmp_less_trans by blast
    then have "n \<in> set (inorder l) \<Longrightarrow> cmp k (key n) = 1" using cmp_swap [of k "key n"] by simp
    moreover have "n \<in> set (inorder r) \<Longrightarrow> cmp k (key n) \<noteq> 0"
      using Node.IH(2) Node.prems(1) srt(2) 1 by (simp add: Let_def)
    ultimately show ?thesis using 1 Node.prems(3) by auto
  next
    case 2
    then have "\<forall>x\<in>set (inorder r). cmp k (key x) = - 1" using srt(4) cmp_less_trans by blast
    moreover have "n \<in> set (inorder l) \<Longrightarrow> cmp k (key n) \<noteq> 0"
      using Node.IH(1) Node.prems(1) srt(1) 2 by (simp add: Let_def)
    ultimately show ?thesis using 2 Node.prems(3) by auto
  qed
qed simp

lemma lookup_exact_iff:
  assumes "bst key t"
  shows "BAVL_LookupExact key cmp t k = Some n \<longleftrightarrow> n \<in> set (inorder t) \<and> cmp k (key n) = 0"
proof
  assume n: "n \<in> set (inorder t) \<and> cmp k (key n) = 0"
  then obtain m where m: "BAVL_LookupExact key cmp t k = Some m"
    using lookup_exact_None assms unfolding bst_def by (metis not_None_eq)
  then have "m \<in> set (inorder t)" "cmp k (key m) = 0" using lookup_exact_Some [OF m] by simp_all
  then have "cmp (key n) (key m) = 0" using n cmp_eq_left [of k "key n" "key m"] by simp
  then show "BAVL_LookupExact key cmp t k = Some n"
    using m n \<open>m \<in> set (inorder t)\<close> assms sorted_keys_unique unfolding bst_def by metis
qed (rule lookup_exact_Some)

text \<open>
  Insertion: the descent keeps the position of the new key between the elements before and after
  the hole; at the end it either met an equal key, or the node was spliced in.
\<close>

definition splice :: "('n \<Rightarrow> 'k) \<Rightarrow> 'n \<Rightarrow> 'n list \<Rightarrow> 'n list \<Rightarrow> bool" where
  "splice key n xs ys \<longleftrightarrow> (\<exists>us vs. xs = us @ vs \<and> ys = us @ n # vs \<and>
     (\<forall>u\<in>set us. cmp (key u) (key n) = - 1) \<and> (\<forall>v\<in>set vs. cmp (key n) (key v) = - 1))"

lemma splice_sorted:
  "splice key n xs ys \<Longrightarrow> sorted_keys key xs \<Longrightarrow> sorted_keys key ys \<and> set ys = insert n (set xs)"
  unfolding splice_def using cmp_less_trans by (force simp: sorted_keys_simps)

lemma splice_at_hole:
  assumes "\<forall>u\<in>set us. cmp (key u) (key n) = - 1" "\<forall>v\<in>set vs. cmp (key n) (key v) = - 1"
  shows "splice key n (us @ vs) (us @ n # vs)"
  using assms unfolding splice_def by blast

lemma insert_from_spec:
  assumes "t \<noteq> Leaf" "avl t" "ctx_ok ctx (ht t)" "sorted_keys key (inorder t)"
    and "\<forall>u\<in>set (ctx_pre ctx). cmp (key u) (key n) = - 1"
    and "\<forall>v\<in>set (ctx_post ctx). cmp (key n) (key v) = - 1"
    and "insert_from key cmp n t ctx = (t', ok, ref)"
  shows "(if ok then avl t' \<and> splice key n (inorder (zip_up ctx t)) (inorder t')
          else t' = zip_up ctx t \<and> (\<exists>m. ref = Some m \<and> m \<in> set (inorder t) \<and> cmp (key n) (key m) = 0))"
  using assms
proof (induction t arbitrary: ctx)
  case (Node l v b r)
  note srt = Node.prems(4)[simplified inorder.simps sorted_keys_simps]
  consider (eq) "cmp (key n) (key v) = 0" | (gt) "cmp (key n) (key v) = 1"
    | (lt) "cmp (key n) (key v) = - 1" using cmp_range [of "key n" "key v"] by auto
  then show ?case
  proof cases
    case eq
    then show ?thesis using Node.prems(7) by auto
  next
    case gt
    then have v: "cmp (key v) (key n) = - 1" using cmp_swap [of "key v" "key n"] by simp
    have l: "\<forall>u\<in>set (inorder l). cmp (key u) (key n) = - 1"
    proof
      fix u assume "u \<in> set (inorder l)"
      then have "cmp (key u) (key v) = - 1" using srt by simp
      then show "cmp (key u) (key n) = - 1" using v by (rule cmp_less_trans)
    qed
    show ?thesis
    proof (cases "r = Leaf")
      case True
      have "stale True l b (Node Leaf n 0 Leaf) 1 (ht (Node l v b r))"
        using Node.prems(2) True by (simp add: stale_def)
      then have "avl t' \<and> inorder t' = ctx_list ctx (inorder l @ v # [n])"
        using rebalance_ok [of True l b _ 1 _ ctx v] Node.prems(3,7) gt True by (auto simp: Let_def)
      moreover have "ok" using Node.prems(7) gt True by (auto simp: Let_def)
      ultimately show ?thesis
        using splice_at_hole [of "ctx_pre ctx @ inorder l @ [v]" key n "ctx_post ctx"]
          Node.prems(5,6) l v True by (auto simp: ctx_list_split)
    next
      case False
      let ?f = "Frame True v b l # ctx"
      have "insert_from key cmp n r ?f = (t', ok, ref)"
        using Node.prems(7) gt False by (simp add: Let_def)
      moreover have "ctx_ok ?f (ht r)" using Node.prems(2,3) by (simp add: max.commute)
      moreover have "\<forall>u\<in>set (ctx_pre ?f). cmp (key u) (key n) = - 1"
        using Node.prems(5) l v by auto
      ultimately show ?thesis
        using Node.IH(2) [of ?f] False Node.prems(2,6) srt by (auto simp: sorted_keys_simps)
    qed
  next
    case lt
    have r: "\<forall>u\<in>set (inorder r). cmp (key n) (key u) = - 1"
    proof
      fix u assume "u \<in> set (inorder r)"
      then have "cmp (key v) (key u) = - 1" using srt by simp
      with lt show "cmp (key n) (key u) = - 1" by (rule cmp_less_trans)
    qed
    show ?thesis
    proof (cases "l = Leaf")
      case True
      have "stale False (Node Leaf n 0 Leaf) b r 1 (ht (Node l v b r))"
        using Node.prems(2) True by (simp add: stale_def)
      then have "avl t' \<and> inorder t' = ctx_list ctx (n # v # inorder r)"
        using rebalance_ok [of False _ b r 1 _ ctx v] Node.prems(3,7) lt True by (auto simp: Let_def)
      moreover have "ok" using Node.prems(7) lt True by (auto simp: Let_def)
      ultimately show ?thesis
        using splice_at_hole [of "ctx_pre ctx" key n "v # inorder r @ ctx_post ctx"]
          Node.prems(5,6) r lt True by (auto simp: ctx_list_split)
    next
      case False
      let ?f = "Frame False v b r # ctx"
      have "insert_from key cmp n l ?f = (t', ok, ref)"
        using Node.prems(7) lt False by (simp add: Let_def)
      moreover have "ctx_ok ?f (ht l)" using Node.prems(2,3) by simp
      moreover have "\<forall>u\<in>set (ctx_post ?f). cmp (key n) (key u) = - 1"
        using Node.prems(6) r lt by auto
      ultimately show ?thesis
        using Node.IH(1) [of ?f] False Node.prems(2,5) srt by (auto simp: sorted_keys_simps)
    qed
  qed
qed simp

lemma insert_spec:
  assumes "bst key t" and "BAVL_Insert key cmp t n = (t', ok, ref)"
  shows "bst key t' \<and>
    (if ok then set (inorder t') = insert n (set (inorder t)) \<and>
                (\<forall>m\<in>set (inorder t). cmp (key n) (key m) \<noteq> 0)
     else t' = t \<and> (\<exists>m\<in>set (inorder t). cmp (key n) (key m) = 0))"
proof (cases "t = Leaf")
  case True
  then show ?thesis using assms by (auto simp: BAVL_Insert_def bst_def sorted_keys_def)
next
  case False
  have res: "if ok then avl t' \<and> splice key n (inorder t) (inorder t')
      else t' = t \<and> (\<exists>m. ref = Some m \<and> m \<in> set (inorder t) \<and> cmp (key n) (key m) = 0)"
    using insert_from_spec [of t "[]" key n t' ok ref] False assms
    by (cases ok) (simp_all add: BAVL_Insert_def bst_def)
  show ?thesis
  proof (cases ok)
    case True
    have "cmp (key n) (key m) \<noteq> 0" if "m \<in> set (inorder t)" for m
    proof -
      have "cmp (key m) (key n) = - 1 \<or> cmp (key n) (key m) = - 1"
        using that res True by (auto simp: splice_def)
      then show ?thesis using cmp_swap [of "key m" "key n"] by auto
    qed
    moreover have "avl t'" "splice key n (inorder t) (inorder t')" using res True by simp_all
    moreover have "sorted_keys key (inorder t') \<and> set (inorder t') = insert n (set (inorder t))"
      using splice_sorted [OF calculation(3)] assms(1) by (simp add: bst_def)
    ultimately show ?thesis using True by (simp add: bst_def)
  next
    case False
    then show ?thesis using res assms(1) by auto
  qed
qed

lemma insert_fresh:
  assumes "bst key t" and "\<forall>m\<in>set (inorder t). cmp (key n) (key m) \<noteq> 0"
  shows "bst key (fst (BAVL_Insert key cmp t n))"
    and "fst (snd (BAVL_Insert key cmp t n))"
    and "set (inorder (fst (BAVL_Insert key cmp t n))) = insert n (set (inorder t))"
proof -
  obtain t' ok ref where i: "BAVL_Insert key cmp t n = (t', ok, ref)" by (cases "BAVL_Insert key cmp t n")
  show "bst key (fst (BAVL_Insert key cmp t n))"
    and "fst (snd (BAVL_Insert key cmp t n))"
    and "set (inorder (fst (BAVL_Insert key cmp t n))) = insert n (set (inorder t))"
    using insert_spec [OF assms(1) i] assms(2) i by (auto split: if_splits)
qed

text \<open>Removal of a node of the tree.\<close>

lemma path_to_exists:
  "sorted_keys key (inorder t) \<Longrightarrow> n \<in> set (inorder t) \<Longrightarrow> \<exists>ctx' l v b r. path_to key cmp n t ctx = Some (ctx', Node l v b r)"
proof (induction t arbitrary: ctx)
  case (Node l v b r)
  then show ?case
  proof (cases "n = v")
    case True
    then show ?thesis by (simp add: Let_def)
  next
    case False
    then consider "n \<in> set (inorder l)" | "n \<in> set (inorder r)" using Node.prems(2) by auto
    then show ?thesis
    proof cases
      case 1
      then have "cmp (key n) (key v) = - 1" using Node.prems(1) by (auto simp: sorted_keys_simps)
      then show ?thesis using Node 1 by (auto simp: Let_def sorted_keys_simps)
    next
      case 2
      then have "cmp (key v) (key n) = - 1" using Node.prems(1) by (auto simp: sorted_keys_simps)
      then have "cmp (key n) (key v) = 1" using cmp_swap [of "key n" "key v"] by simp
      then show ?thesis using Node 2 by (auto simp: Let_def sorted_keys_simps)
    qed
  qed
qed simp

lemma remove_ok:
  assumes "bst key t" and "n \<in> set (inorder t)"
  shows "bst key (BAVL_Remove key cmp t n)"
    and "set (inorder (BAVL_Remove key cmp t n)) = set (inorder t) - {n}"
proof -
  have s: "sorted_keys key (inorder t)" and a: "avl t" using assms(1) by (auto simp: bst_def)
  obtain ctx l v b r where p: "path_to key cmp n t [] = Some (ctx, Node l v b r)"
    using path_to_exists [OF s assms(2)] by blast
  have "cmp (key n) (key v) = 0" using path_to_ok [OF p a] by auto
  have r: "avl (BAVL_Remove key cmp t n)" "inorder t = ctx_pre ctx @ (inorder l @ v # inorder r) @ ctx_post ctx"
    "inorder (BAVL_Remove key cmp t n) = ctx_pre ctx @ (inorder l @ inorder r) @ ctx_post ctx"
    using remove_spec [OF p a] by (auto simp: ctx_list_split)
  have "n = v" using sorted_keys_unique [OF s assms(2) _ \<open>cmp (key n) (key v) = 0\<close>] r(2) by simp
  then show "set (inorder (BAVL_Remove key cmp t n)) = set (inorder t) - {n}"
    using sorted_keys_distinct [OF s] r(2,3) by auto
  show "bst key (BAVL_Remove key cmp t n)"
    using r s by (auto simp: bst_def sorted_keys_simps)
qed

text \<open>Lookup of the closest node, and the neighbours of a node.\<close>

lemma lookup_None_iff: "BAVL_Lookup key cmp t k = None \<longleftrightarrow> t = Leaf"
  by (induction t) (auto simp: Let_def)

lemma lookup_finds_equal:
  "BAVL_LookupExact key cmp t k = Some n \<Longrightarrow> BAVL_Lookup key cmp t k = Some n"
  by (induction t) (auto simp: Let_def split: if_splits)

lemma lookup_in_tree: "BAVL_Lookup key cmp t k = Some n \<Longrightarrow> n \<in> set (inorder t)"
  by (induction t) (auto simp: Let_def split: if_splits)

lemma path_splits_inorder:
  assumes "bst key t" and "inorder t = xs @ n # ys"
  obtains ctx l b r where "path_to key cmp n t [] = Some (ctx, Node l n b r)"
    "xs = ctx_pre ctx @ inorder l" "ys = inorder r @ ctx_post ctx"
proof -
  have s: "sorted_keys key (inorder t)" and a: "avl t" using assms(1) by (auto simp: bst_def)
  obtain ctx l v b r where p: "path_to key cmp n t [] = Some (ctx, Node l v b r)"
    using path_to_exists [OF s] assms(2) by (metis in_set_conv_decomp)
  have io: "inorder t = (ctx_pre ctx @ inorder l) @ v # inorder r @ ctx_post ctx"
    using remove_spec [OF p a] by (auto simp: ctx_list_split)
  have "n = v"
  proof (rule sorted_keys_unique [OF s])
    show "n \<in> set (inorder t)" using assms(2) by simp
    show "v \<in> set (inorder t)" using io by simp
    show "cmp (key n) (key v) = 0" using path_to_ok [OF p a] by auto
  qed
  moreover have "n \<notin> set (ctx_pre ctx @ inorder l)" "n \<notin> set xs" "n \<notin> set ys"
    using sorted_keys_distinct [OF s [unfolded io]] sorted_keys_distinct [OF s [unfolded assms(2)]]
      \<open>n = v\<close> by auto
  ultimately have "xs = ctx_pre ctx @ inorder l \<and> ys = inorder r @ ctx_post ctx"
    using append_Cons_eq_iff [of n xs ys "ctx_pre ctx @ inorder l" "inorder r @ ctx_post ctx"]
      assms(2) io by (auto simp: append_Cons_eq_iff)
  then show thesis using that p \<open>n = v\<close> by blast
qed

lemma get_next_ok:
  assumes "bst key t" and "inorder t = xs @ n # ys"
  shows "BAVL_GetNext key cmp t n = (if ys = [] then None else Some (hd ys))"
  by (rule path_splits_inorder [OF assms])
    (auto simp: BAVL_GetNext_def get_first_hd climb_next inorder_Nil hd_append)

lemma get_prev_ok:
  assumes "bst key t" and "inorder t = xs @ n # ys"
  shows "BAVL_GetPrev key cmp t n = (if xs = [] then None else Some (last xs))"
  by (rule path_splits_inorder [OF assms])
    (auto simp: BAVL_GetPrev_def get_last_last climb_prev inorder_Nil last_append)

end

section \<open>Comparators\<close>

text \<open>\<open>B_COMPARE\<close> of \<open>misc/compare.h\<close>, and the comparison of one component after another.\<close>

definition B_COMPARE :: "'a::linorder \<Rightarrow> 'a \<Rightarrow> int" where
  "B_COMPARE a b = of_bool (a > b) - of_bool (a < b)"

lemma B_COMPARE_if: "B_COMPARE a b = (if a < b then - 1 else if a > b then 1 else 0)"
  by (auto simp: B_COMPARE_def)

lemma comparator_B_COMPARE: "comparator (B_COMPARE :: 'a::linorder \<Rightarrow> 'a \<Rightarrow> int)"
  by unfold_locales (auto simp: B_COMPARE_if split: if_splits)

lemma comparator_lex:
  assumes "comparator c1" "comparator c2"
  shows "comparator (\<lambda>x y. let r = c1 (f x) (f y) in if r \<noteq> 0 then r else c2 (g x) (g y))"
proof
  fix x y z
  note one = comparator.cmp_range [OF assms(1)] comparator.cmp_swap [OF assms(1)]
    comparator.cmp_trans [OF assms(1)]
  note two = comparator.cmp_range [OF assms(2)] comparator.cmp_swap [OF assms(2)]
    comparator.cmp_trans [OF assms(2)]
  show "(let r = c1 (f x) (f y) in if r \<noteq> 0 then r else c2 (g x) (g y)) \<in> {- 1, 0, 1}"
    using one(1) [of "f x" "f y"] two(1) [of "g x" "g y"] by (auto simp: Let_def)
  show "(let r = c1 (f y) (f x) in if r \<noteq> 0 then r else c2 (g y) (g x)) =
      - (let r = c1 (f x) (f y) in if r \<noteq> 0 then r else c2 (g x) (g y))"
    using one(2) [of "f y" "f x"] two(2) [of "g y" "g x"] by (simp add: Let_def)
  assume a: "(let r = c1 (f x) (f y) in if r \<noteq> 0 then r else c2 (g x) (g y)) \<le> 0"
    and b: "(let r = c1 (f y) (f z) in if r \<noteq> 0 then r else c2 (g y) (g z)) \<le> 0"
  have le: "c1 (f x) (f y) \<le> 0" "c1 (f y) (f z) \<le> 0" using a b by (auto simp: Let_def split: if_splits)
  then have xz: "c1 (f x) (f z) \<le> 0" by (rule one(3))
  show "(let r = c1 (f x) (f z) in if r \<noteq> 0 then r else c2 (g x) (g z)) \<le> 0"
  proof (cases "c1 (f x) (f z) = 0")
    case True
    then have "c1 (f z) (f x) \<le> 0" using one(2) [of "f z" "f x"] by simp
    then have "c1 (f y) (f x) \<le> 0" "c1 (f z) (f y) \<le> 0" using one(3) le by blast+
    then have "c1 (f x) (f y) = 0" "c1 (f y) (f z) = 0"
      using le one(2) [of "f y" "f x"] one(2) [of "f z" "f y"] by linarith+
    then show ?thesis using a b True two(3) [of "g x" "g y" "g z"] by simp
  next
    case False
    then show ?thesis using xz by (simp add: Let_def)
  qed
qed

section \<open>Balance under every use of the tree\<close>

text \<open>
  Balance does not depend on the comparator: whatever \<open>cmp\<close> answers, an insertion and a removal
  leave a tree whose stored balance factors are the height differences of the subtrees.
\<close>

lemma insert_from_avl:
  "avl t \<Longrightarrow> ctx_ok ctx (ht t) \<Longrightarrow> avl (fst (insert_from key cmp n t ctx))"
proof (induction t arbitrary: ctx)
  case Leaf
  then show ?case by (simp add: avl_zip_up)
next
  case (Node l v b r)
  note prems = Node.prems
  consider "cmp (key n) (key v) = 0" | "cmp (key n) (key v) = 1" | "cmp (key n) (key v) \<notin> {0, 1}"
    by blast
  then show ?case
  proof cases
    case 1
    then show ?thesis using prems by (simp add: avl_zip_up)
  next
    case 2
    show ?thesis
    proof (cases "r = Leaf")
      case True
      then have "stale True l b (Node Leaf n 0 Leaf) 1 (ht (Node l v b r))"
        using prems by (simp add: stale_def)
      then show ?thesis using rebalance_ok [of True l b "Node Leaf n 0 Leaf" 1 _ ctx v] prems(2) 2 True
        by (simp add: Let_def)
    next
      case False
      then show ?thesis using Node.IH(2) [of "Frame True v b l # ctx"] prems 2
        by (simp add: Let_def max.commute)
    qed
  next
    case 3
    show ?thesis
    proof (cases "l = Leaf")
      case True
      then have "stale False (Node Leaf n 0 Leaf) b r 1 (ht (Node l v b r))"
        using prems by (simp add: stale_def)
      then show ?thesis using rebalance_ok [of False "Node Leaf n 0 Leaf" b r 1 _ ctx v] prems(2) 3 True
        by (simp add: Let_def)
    next
      case False
      then show ?thesis using Node.IH(1) [of "Frame False v b r # ctx"] prems 3
        by (simp add: Let_def)
    qed
  qed
qed

lemma insert_avl: "avl t \<Longrightarrow> avl (fst (BAVL_Insert key cmp t n))"
  by (simp add: BAVL_Insert_def insert_from_avl)

lemma remove_avl: "avl t \<Longrightarrow> avl (BAVL_Remove key cmp t n)"
proof (cases "path_to key cmp n t []")
  case None
  then show "avl t \<Longrightarrow> ?thesis" by (simp add: BAVL_Remove_def)
next
  case (Some p)
  obtain ctx u where p: "p = (ctx, u)" by (cases p)
  assume a: "avl t"
  then obtain l v b r where "u = Node l v b r"
    using path_to_ok [OF Some [unfolded p] a] by auto
  then show ?thesis using remove_spec [OF Some [unfolded p \<open>u = Node l v b r\<close>] a] by blast
qed

datatype 'n tree_op = Insert_op 'n | Remove_op 'n

fun run_ops :: "('n \<Rightarrow> 'k) \<Rightarrow> ('k \<Rightarrow> 'k \<Rightarrow> int) \<Rightarrow> 'n tree_op list \<Rightarrow> 'n avl_tree \<Rightarrow> 'n avl_tree" where
  "run_ops key cmp [] t = t"
| "run_ops key cmp (Insert_op n # ops) t = run_ops key cmp ops (fst (BAVL_Insert key cmp t n))"
| "run_ops key cmp (Remove_op n # ops) t = run_ops key cmp ops (BAVL_Remove key cmp t n)"

lemma run_ops_avl: "avl t \<Longrightarrow> avl (run_ops key cmp ops t)"
  by (induction key cmp ops t rule: run_ops.induct) (simp_all add: insert_avl remove_avl)

lemma avl_size: "avl t \<Longrightarrow> 2 ^ (nat (ht t) div 2) \<le> Suc (length (inorder t))"
proof (induction "nat (ht t)" arbitrary: t rule: less_induct)
  case less
  show ?case
  proof (cases t)
    case (Node l v b r)
    define h where "h = nat (ht t)"
    show ?thesis
    proof (cases "h < 2")
      case True
      then show ?thesis by (simp add: h_def)
    next
      case False
      have sub: "2 ^ (nat (ht c) div 2) \<le> Suc (length (inorder c)) \<and> h \<le> nat (ht c) + 2"
        if "c = l \<or> c = r" for c
      proof
        have "nat (ht c) < nat (ht t)" "avl c"
          using that less.prems Node ht_nonneg [of l] ht_nonneg [of r] by (auto simp: nat_less_iff max_def)
        then show "2 ^ (nat (ht c) div 2) \<le> Suc (length (inorder c))" using less.hyps by blast
        show "h \<le> nat (ht c) + 2"
          using that less.prems Node ht_nonneg [of l] ht_nonneg [of r] by (auto simp: h_def)
      qed
      have "(2::nat) ^ ((h - 2) div 2) \<le> 2 ^ (nat (ht c) div 2)" if "c = l \<or> c = r" for c
        using sub [OF that] by (intro power_increasing) auto
      then have "2 * 2 ^ ((h - 2) div 2) \<le> Suc (length (inorder l)) + Suc (length (inorder r))"
        using sub [of l] sub [of r] by (smt (verit) add_mono mult_2 order_trans)
      moreover have "h div 2 = Suc ((h - 2) div 2)" using False by simp
      ultimately show ?thesis using Node by (simp add: h_def)
    qed
  qed simp
qed

text \<open>C37. After any sequence of insertions and removals on an initialised tree, whatever the
  comparator answers, every stored balance factor is the height difference of its subtrees and
  lies within one, and the height is logarithmic: a tree of height \<open>h\<close> holds at least
  \<open>2 ^ (h div 2) - 1\<close> nodes. Lookups therefore stay logarithmic under any use.\<close>

theorem tree_stays_logarithmic:
  "avl (run_ops key cmp ops BAVL_Init) \<and>
   2 ^ (nat (ht (run_ops key cmp ops BAVL_Init)) div 2)
     \<le> Suc (length (inorder (run_ops key cmp ops BAVL_Init)))"
proof -
  have "avl (run_ops key cmp ops BAVL_Init)" by (simp add: run_ops_avl BAVL_Init_def)
  then show ?thesis by (simp add: avl_size)
qed

end
