(* ===== verification/Chunk_Buffer.thy ===== *)
theory Chunk_Buffer
  imports Wire
begin

text \<open>
  The circular packet buffer of \<open>structure/ChunkBuffer2.h\<close>. The array of 4-byte blocks is the list
  of its bytes \<open>cb_mem\<close>; a packet is a header block, holding its length as an \<open>int\<close>, followed by
  its bytes, rounded up to whole blocks. Block indices are C \<open>int\<close>s; the pointers \<open>input_dest\<close> and
  \<open>output_dest\<close> are byte offsets into the array, \<open>None\<close> for \<open>NULL\<close>.
\<close>

section \<open>State and operations\<close>

record chunk_buffer =
  cb_mem :: "byte list"
  cb_size :: int
  cb_wrap :: int
  cb_start :: int
  cb_used :: int
  cb_mtu :: int
  input_dest :: "nat option"
  input_avail :: int
  output_dest :: "nat option"
  output_avail :: int

text \<open>Conversion of an integer to \<open>int\<close>, and the rounded-up division in \<open>size_t\<close>.\<close>

definition c_int :: "int \<Rightarrow> int" where "c_int x = signed_take_bit 31 x"

definition blocks_of :: "int \<Rightarrow> int" where
  "blocks_of len = c_int (uint (bdivide_up (word_of_int len :: u64) 4))"

definition block_len :: "byte list \<Rightarrow> int \<Rightarrow> int" where
  "block_len mem i = sint (of_le (segment (nat (4 * i)) 4 mem) :: u32)"

definition set_block_len :: "byte list \<Rightarrow> int \<Rightarrow> int \<Rightarrow> byte list" where
  "set_block_len mem i len = overwrite (nat (4 * i)) (mem32 (word_of_int len)) mem"

definition ChunkBuffer2_calc_blocks :: "int \<Rightarrow> int \<Rightarrow> int" where
  "ChunkBuffer2_calc_blocks chunk_len num =
     (let chunk_data_blocks = blocks_of chunk_len in
      if chunk_data_blocks > INT_MAX - 1 then - 1
      else let chunk_blocks = 1 + chunk_data_blocks in
      if num > INT_MAX - 1 then - 1
      else let num_chunks = num + 1 in
      if chunk_blocks > INT_MAX div num_chunks then - 1
      else chunk_blocks * num_chunks)"

definition ChunkBuffer2_end :: "chunk_buffer \<Rightarrow> int" where
  "ChunkBuffer2_end buf =
     (if cb_used buf \<ge> cb_wrap buf - cb_start buf then cb_used buf - (cb_wrap buf - cb_start buf)
      else cb_start buf + cb_used buf)"

definition ChunkBuffer2_update_input :: "chunk_buffer \<Rightarrow> chunk_buffer" where
  "ChunkBuffer2_update_input buf =
     (let e = ChunkBuffer2_end buf in
      if cb_size buf - e - 1 < cb_mtu buf then buf\<lparr>input_dest := None, input_avail := - 1\<rparr>
      else let free = (if cb_used buf \<ge> cb_wrap buf - cb_start buf then cb_start buf - e
                       else cb_size buf - e)
      in if free > 0 then buf\<lparr>input_dest := Some (nat (4 * (e + 1))), input_avail := c_int ((free - 1) * 4)\<rparr>
         else buf\<lparr>input_dest := None, input_avail := - 1\<rparr>)"

definition ChunkBuffer2_update_output :: "chunk_buffer \<Rightarrow> chunk_buffer" where
  "ChunkBuffer2_update_output buf =
     (if cb_used buf > 0 then
        let datalen = block_len (cb_mem buf) (cb_start buf)
        in buf\<lparr>output_dest := Some (nat (4 * (cb_start buf + 1))), output_avail := datalen\<rparr>
      else buf\<lparr>output_dest := None, output_avail := - 1\<rparr>)"

text \<open>\<open>mem\<close> is the array \<open>buffer\<close> of \<open>blocks\<close> blocks, with whatever it holds.\<close>

definition ChunkBuffer2_Init :: "byte list \<Rightarrow> int \<Rightarrow> int \<Rightarrow> chunk_buffer" where
  "ChunkBuffer2_Init mem blocks mtu =
     ChunkBuffer2_update_output (ChunkBuffer2_update_input
       \<lparr>cb_mem = mem, cb_size = blocks, cb_wrap = blocks, cb_start = 0, cb_used = 0,
        cb_mtu = blocks_of mtu, input_dest = None, input_avail = 0, output_dest = None,
        output_avail = 0\<rparr>)"

definition ChunkBuffer2_SubmitPacket :: "chunk_buffer \<Rightarrow> int \<Rightarrow> chunk_buffer" where
  "ChunkBuffer2_SubmitPacket buf len =
     (let e = ChunkBuffer2_end buf;
          blocklen = blocks_of len;
          buf = buf\<lparr>cb_mem := set_block_len (cb_mem buf) e len\<rparr>;
          buf = buf\<lparr>cb_used := cb_used buf + (1 + blocklen)\<rparr>;
          buf = (if cb_used buf \<le> cb_wrap buf - cb_start buf \<and>
                    cb_mtu buf > cb_size buf - (e + 1 + blocklen) - 1
                 then buf\<lparr>cb_wrap := e + 1 + blocklen\<rparr> else buf);
          buf = ChunkBuffer2_update_input buf
      in if cb_used buf = 1 + blocklen then ChunkBuffer2_update_output buf else buf)"

definition ChunkBuffer2_ConsumePacket :: "chunk_buffer \<Rightarrow> chunk_buffer" where
  "ChunkBuffer2_ConsumePacket buf =
     (let blocklen = blocks_of (block_len (cb_mem buf) (cb_start buf));
          data_wrapped = (cb_used buf \<ge> cb_wrap buf - cb_start buf);
          buf = buf\<lparr>cb_start := cb_start buf + (1 + blocklen), cb_used := cb_used buf - (1 + blocklen)\<rparr>;
          buf = (if cb_start buf = cb_wrap buf then buf\<lparr>cb_start := 0, cb_wrap := cb_size buf\<rparr> else buf);
          buf = (if data_wrapped then ChunkBuffer2_update_input buf else buf)
      in ChunkBuffer2_update_output buf)"

text \<open>The owner of the buffer writes a packet at \<open>input_dest\<close> and reads one at \<open>output_dest\<close>.\<close>

definition write_input :: "chunk_buffer \<Rightarrow> byte list \<Rightarrow> chunk_buffer" where
  "write_input buf data =
     (case input_dest buf of None \<Rightarrow> buf
      | Some d \<Rightarrow> buf\<lparr>cb_mem := overwrite d data (cb_mem buf)\<rparr>)"

definition read_output :: "chunk_buffer \<Rightarrow> byte list option" where
  "read_output buf = map_option (\<lambda>d. segment d (nat (output_avail buf)) (cb_mem buf)) (output_dest buf)"

section \<open>Blocks\<close>

lemma c_int_id [simp]: "0 \<le> x \<Longrightarrow> x \<le> INT_MAX \<Longrightarrow> c_int x = x"
  by (simp add: c_int_def signed_take_bit_int_eq_self_iff)

lemma blocks_of_eq: "0 \<le> n \<Longrightarrow> n \<le> INT_MAX \<Longrightarrow> blocks_of n = (n + 3) div 4"
proof -
  assume n: "0 \<le> n" "n \<le> INT_MAX"
  have u: "unat (word_of_int n :: u64) = nat n"
    using n take_bit_int_eq_self [of n 64] by (simp add: unat_eq_nat_uint uint_word_of_int_eq)
  have "unat (bdivide_up (word_of_int n :: u64) 4) = (nat n + 4 - 1) div 4"
    by (subst unat_bdivide_up) (simp_all add: u)
  then have "uint (bdivide_up (word_of_int n :: u64) 4) = int ((nat n + 3) div 4)"
    by (simp add: uint_nat del: of_nat_unat)
  then have "uint (bdivide_up (word_of_int n :: u64) 4) = (n + 3) div 4"
    using n(1) by (simp add: zdiv_int)
  moreover have "(n + 3) div 4 \<le> INT_MAX" using n by simp
  ultimately show ?thesis using n by (simp add: blocks_of_def)
qed

lemma block_len_set:
  assumes "0 \<le> i" "4 * i + 4 \<le> int (length mem)" "0 \<le> n" "n \<le> INT_MAX"
  shows "block_len (set_block_len mem i n) i = n"
proof -
  let ?w = "mem32 (word_of_int n)"
  have "segment (nat (4 * i)) (length ?w) (set_block_len mem i n) = ?w"
    unfolding set_block_len_def by (rule segment_overwrite_same) (use assms in simp)
  then show ?thesis
    using assms(3,4) by (simp add: block_len_def sint_sbintrunc' signed_take_bit_int_eq_self_iff)
qed

section \<open>Packets in the array\<close>

definition blk :: "byte list \<Rightarrow> int" where "blk p = (int (length p) + 3) div 4"

fun span :: "byte list list \<Rightarrow> int" where
  "span [] = 0"
| "span (p # ps) = 1 + blk p + span ps"

text \<open>
  \<open>chunks mem lim pos ps\<close>: the packets \<open>ps\<close> are stored one after the other from block \<open>pos\<close>, each
  starting no later than block \<open>lim\<close>.
\<close>

fun chunks :: "byte list \<Rightarrow> int \<Rightarrow> int \<Rightarrow> byte list list \<Rightarrow> bool" where
  "chunks mem lim pos [] \<longleftrightarrow> True"
| "chunks mem lim pos (p # ps) \<longleftrightarrow>
     pos \<le> lim \<and> int (length p) \<le> INT_MAX \<and> block_len mem pos = int (length p) \<and>
     segment (nat (4 * (pos + 1))) (length p) mem = p \<and> chunks mem lim (pos + 1 + blk p) ps"

lemma blk_nonneg [simp]: "0 \<le> blk p"
  by (simp add: blk_def)

lemma blk_covers: "int (length p) \<le> 4 * blk p"
  by (simp add: blk_def)

lemma blk_le: "int (length p) \<le> 4 * n \<Longrightarrow> blk p \<le> n"
  by (simp add: blk_def)

lemma blocks_of_length [simp]: "int (length p) \<le> INT_MAX \<Longrightarrow> blocks_of (int (length p)) = blk p"
  by (simp add: blocks_of_eq blk_def)

lemma span_nonneg [simp]: "0 \<le> span ps"
  by (induction ps) auto

lemma span_append [simp]: "span (ps @ qs) = span ps + span qs"
  by (induction ps) auto

lemma span_pos: "ps \<noteq> [] \<Longrightarrow> 0 < span ps"
proof (cases ps)
  case (Cons p qs)
  have "0 < 1 + blk p + span qs" using blk_nonneg [of p] span_nonneg [of qs] by linarith
  then show ?thesis using Cons by simp
qed simp

lemma span_0_iff [simp]: "span ps = 0 \<longleftrightarrow> ps = []"
  using span_pos [of ps] by fastforce

lemma chunks_append:
  "chunks mem lim pos (ps @ qs) \<longleftrightarrow> chunks mem lim pos ps \<and> chunks mem lim (pos + span ps) qs"
  by (induction ps arbitrary: pos) (auto simp: algebra_simps)

lemma nat_offset_le: "0 \<le> a \<Longrightarrow> a + int k \<le> b \<Longrightarrow> nat a + k \<le> nat b"
  by arith

lemma chunks_cong:
  assumes "0 \<le> pos" and "\<And>i n. nat (4 * pos) \<le> i \<Longrightarrow> i + n \<le> nat (4 * (pos + span ps)) \<Longrightarrow>
      segment i n mem = segment i n mem'"
  shows "chunks mem lim pos ps = chunks mem' lim pos ps"
  using assms
proof (induction ps arbitrary: pos)
  case (Cons p ps)
  have n: "0 \<le> blk p" "0 \<le> span ps" "int (length p) \<le> 4 * blk p"
    using blk_covers [of p] by simp_all
  have "block_len mem pos = block_len mem' pos"
    unfolding block_len_def by (subst Cons.prems(2)) (use n Cons.prems(1) in \<open>simp_all add: nat_offset_le\<close>)
  moreover have "segment (nat (4 * (pos + 1))) (length p) mem = segment (nat (4 * (pos + 1))) (length p) mem'"
  proof (rule Cons.prems(2))
    show "nat (4 * (pos + 1)) + length p \<le> nat (4 * (pos + span (p # ps)))"
    proof (rule nat_offset_le)
      show "0 \<le> 4 * (pos + 1)" using Cons.prems(1) by simp
      show "4 * (pos + 1) + int (length p) \<le> 4 * (pos + span (p # ps))"
        using n(2,3) unfolding span.simps distrib_left by linarith
    qed
  qed (use Cons.prems(1) in simp)
  moreover have "chunks mem lim (pos + 1 + blk p) ps = chunks mem' lim (pos + 1 + blk p) ps"
  proof (rule Cons.IH)
    fix i n assume "nat (4 * (pos + 1 + blk p)) \<le> i" "i + n \<le> nat (4 * (pos + 1 + blk p + span ps))"
    then show "segment i n mem = segment i n mem'"
      using n Cons.prems(1) by (intro Cons.prems(2)) (simp_all add: algebra_simps)
  qed (use n Cons.prems(1) in simp)
  ultimately show ?case by simp
qed simp

text \<open>Storing one packet at block \<open>e\<close>: its bytes and then its header.\<close>

definition store_packet :: "byte list \<Rightarrow> int \<Rightarrow> byte list \<Rightarrow> byte list" where
  "store_packet mem e p =
     set_block_len (overwrite (nat (4 * (e + 1))) p mem) e (int (length p))"

lemma length_store_packet:
  "0 \<le> e \<Longrightarrow> 4 * (e + 1) + int (length p) \<le> int (length mem) \<Longrightarrow> length (store_packet mem e p) = length mem"
  by (simp add: store_packet_def set_block_len_def)

lemma store_packet_chunk:
  assumes "0 \<le> e" "e \<le> lim" "4 * (e + 1) + int (length p) \<le> int (length mem)" "int (length p) \<le> INT_MAX"
  shows "chunks (store_packet mem e p) lim e [p]"
proof -
  let ?m = "overwrite (nat (4 * (e + 1))) p mem"
  have l: "length ?m = length mem" using assms by simp
  have "block_len (store_packet mem e p) e = int (length p)"
    unfolding store_packet_def by (rule block_len_set) (use assms l in simp_all)
  moreover have "segment (nat (4 * (e + 1))) (length p) (store_packet mem e p) = p"
    unfolding store_packet_def set_block_len_def
    by (subst segment_overwrite_after, use assms in simp, use assms in simp)
      (rule segment_overwrite_same, use assms in simp)
  ultimately show ?thesis using assms by simp
qed

lemma store_packet_keeps:
  assumes "0 \<le> e" "4 * (e + 1) + int (length p) \<le> int (length mem)"
    and "0 \<le> pos" "pos + span ps \<le> e \<or> e + 1 + blk p \<le> pos"
  shows "chunks (store_packet mem e p) lim pos ps = chunks mem lim pos ps"
proof (rule chunks_cong [OF assms(3)])
  fix i n assume i: "nat (4 * pos) \<le> i" "i + n \<le> nat (4 * (pos + span ps))"
  let ?m = "overwrite (nat (4 * (e + 1))) p mem"
  have l: "length ?m = length mem" using assms by simp
  from assms(4) show "segment i n (store_packet mem e p) = segment i n mem"
  proof
    assume "pos + span ps \<le> e"
    then have "nat (4 * (pos + span ps)) \<le> nat (4 * e)" by (intro nat_mono) simp
    then have "i + n \<le> nat (4 * e)" using i(2) by (rule le_trans [rotated])
    then show ?thesis
      unfolding store_packet_def set_block_len_def
      using assms by (simp add: segment_overwrite_before)
  next
    assume "e + 1 + blk p \<le> pos"
    then have "4 * (e + 1) + int (length p) \<le> 4 * pos"
      using blk_covers [of p] by (simp add: distrib_left)
    then have "nat (4 * (e + 1)) + length p \<le> nat (4 * pos)"
      using assms(1) by (intro nat_offset_le) simp_all
    then have "nat (4 * (e + 1)) + length p \<le> i" using i(1) by (rule le_trans)
    then show ?thesis
      unfolding store_packet_def set_block_len_def
      using assms by (simp add: segment_overwrite_after)
  qed
qed

section \<open>The invariant\<close>

text \<open>
  No packet starts after block \<open>cb_lim\<close>, so that a packet of the MTU always fits behind its header.
  The packets are either one run from \<open>start\<close> (\<open>flat\<close>), or a run from \<open>start\<close> to \<open>wrap\<close> and a
  second one from block 0 (\<open>wrapped\<close>).
\<close>

definition cb_lim :: "chunk_buffer \<Rightarrow> int" where "cb_lim buf = cb_size buf - cb_mtu buf - 1"

definition cb_shape :: "chunk_buffer \<Rightarrow> bool" where
  "cb_shape buf \<longleftrightarrow> 0 \<le> cb_mtu buf \<and> 0 \<le> cb_lim buf \<and> 4 * cb_size buf \<le> INT_MAX \<and>
     int (length (cb_mem buf)) = 4 * cb_size buf \<and> 0 \<le> cb_start buf \<and> cb_start buf \<le> cb_lim buf"

definition flat :: "chunk_buffer \<Rightarrow> byte list list \<Rightarrow> bool" where
  "flat buf ps \<longleftrightarrow> cb_wrap buf = cb_size buf \<and> cb_used buf = span ps \<and>
     cb_start buf + span ps \<le> cb_lim buf \<and> chunks (cb_mem buf) (cb_lim buf) (cb_start buf) ps"

definition wrapped :: "chunk_buffer \<Rightarrow> byte list list \<Rightarrow> byte list list \<Rightarrow> bool" where
  "wrapped buf us vs \<longleftrightarrow> us \<noteq> [] \<and> cb_start buf + span us = cb_wrap buf \<and>
     cb_lim buf < cb_wrap buf \<and> cb_wrap buf \<le> cb_size buf \<and> span vs \<le> cb_start buf \<and>
     cb_used buf = span us + span vs \<and> chunks (cb_mem buf) (cb_lim buf) (cb_start buf) us \<and>
     chunks (cb_mem buf) (cb_lim buf) 0 vs"

definition io_current :: "chunk_buffer \<Rightarrow> bool" where
  "io_current buf \<longleftrightarrow> ChunkBuffer2_update_input buf = buf \<and> ChunkBuffer2_update_output buf = buf"

definition layout :: "chunk_buffer \<Rightarrow> byte list list \<Rightarrow> bool" where
  "layout buf ps \<longleftrightarrow> flat buf ps \<or> (\<exists>us vs. ps = us @ vs \<and> wrapped buf us vs)"

definition cb_inv :: "chunk_buffer \<Rightarrow> byte list list \<Rightarrow> bool" where
  "cb_inv buf ps \<longleftrightarrow> cb_shape buf \<and> io_current buf \<and> layout buf ps"

lemma layout_cases:
  assumes "layout buf ps"
  obtains (flat) "flat buf ps" | (wrapped) us vs where "ps = us @ vs" "wrapped buf us vs"
  using assms by (auto simp: layout_def)

definition in_io :: "chunk_buffer \<Rightarrow> nat option \<times> int" where
  "in_io buf =
     (let e = ChunkBuffer2_end buf;
          free = (if cb_used buf \<ge> cb_wrap buf - cb_start buf then cb_start buf - e else cb_size buf - e)
      in if cb_size buf - e - 1 < cb_mtu buf \<or> free \<le> 0 then (None, - 1)
         else (Some (nat (4 * (e + 1))), c_int ((free - 1) * 4)))"

definition out_io :: "chunk_buffer \<Rightarrow> nat option \<times> int" where
  "out_io buf =
     (if cb_used buf > 0
      then (Some (nat (4 * (cb_start buf + 1))), block_len (cb_mem buf) (cb_start buf))
      else (None, - 1))"

lemma update_input_eq:
  "ChunkBuffer2_update_input b = b\<lparr>input_dest := fst (in_io b), input_avail := snd (in_io b)\<rparr>"
  by (simp add: ChunkBuffer2_update_input_def in_io_def Let_def)

lemma update_output_eq:
  "ChunkBuffer2_update_output b = b\<lparr>output_dest := fst (out_io b), output_avail := snd (out_io b)\<rparr>"
  by (simp add: ChunkBuffer2_update_output_def out_io_def Let_def)

lemma io_fields [simp]:
  "in_io (b\<lparr>input_dest := x\<rparr>) = in_io b" "in_io (b\<lparr>input_avail := y\<rparr>) = in_io b"
  "in_io (b\<lparr>output_dest := x\<rparr>) = in_io b" "in_io (b\<lparr>output_avail := y\<rparr>) = in_io b"
  "out_io (b\<lparr>input_dest := x\<rparr>) = out_io b" "out_io (b\<lparr>input_avail := y\<rparr>) = out_io b"
  "out_io (b\<lparr>output_dest := x\<rparr>) = out_io b" "out_io (b\<lparr>output_avail := y\<rparr>) = out_io b"
  by (simp_all add: in_io_def out_io_def ChunkBuffer2_end_def)

lemma update_fields [simp]:
  "cb_mem (ChunkBuffer2_update_input b) = cb_mem b" "cb_mem (ChunkBuffer2_update_output b) = cb_mem b"
  "cb_size (ChunkBuffer2_update_input b) = cb_size b" "cb_size (ChunkBuffer2_update_output b) = cb_size b"
  "cb_wrap (ChunkBuffer2_update_input b) = cb_wrap b" "cb_wrap (ChunkBuffer2_update_output b) = cb_wrap b"
  "cb_start (ChunkBuffer2_update_input b) = cb_start b" "cb_start (ChunkBuffer2_update_output b) = cb_start b"
  "cb_used (ChunkBuffer2_update_input b) = cb_used b" "cb_used (ChunkBuffer2_update_output b) = cb_used b"
  "cb_mtu (ChunkBuffer2_update_input b) = cb_mtu b" "cb_mtu (ChunkBuffer2_update_output b) = cb_mtu b"
  by (simp_all add: update_input_eq update_output_eq)

lemma update_layout [simp]:
  "cb_shape (ChunkBuffer2_update_input b) = cb_shape b" "cb_shape (ChunkBuffer2_update_output b) = cb_shape b"
  "flat (ChunkBuffer2_update_input b) = flat b" "flat (ChunkBuffer2_update_output b) = flat b"
  "wrapped (ChunkBuffer2_update_input b) = wrapped b" "wrapped (ChunkBuffer2_update_output b) = wrapped b"
  by (auto simp: fun_eq_iff cb_shape_def flat_def wrapped_def cb_lim_def)

lemma update_layout_pred [simp]:
  "layout (ChunkBuffer2_update_input b) = layout b" "layout (ChunkBuffer2_update_output b) = layout b"
  by (simp_all add: fun_eq_iff layout_def)

lemma update_idem [simp]:
  "ChunkBuffer2_update_input (ChunkBuffer2_update_input b) = ChunkBuffer2_update_input b"
  "ChunkBuffer2_update_output (ChunkBuffer2_update_output b) = ChunkBuffer2_update_output b"
  by (simp_all add: update_input_eq update_output_eq)

lemma update_commute:
  "ChunkBuffer2_update_input (ChunkBuffer2_update_output b) = ChunkBuffer2_update_output (ChunkBuffer2_update_input b)"
  by (simp add: update_input_eq update_output_eq)

lemma io_current_iff:
  "io_current b \<longleftrightarrow> input_dest b = fst (in_io b) \<and> input_avail b = snd (in_io b) \<and>
     output_dest b = fst (out_io b) \<and> output_avail b = snd (out_io b)"
proof -
  have "b = b\<lparr>input_dest := input_dest b, input_avail := input_avail b\<rparr>"
    "b = b\<lparr>output_dest := output_dest b, output_avail := output_avail b\<rparr>" by simp_all
  then show ?thesis
    unfolding io_current_def update_input_eq update_output_eq
    by (metis chunk_buffer.select_convs(7-10) chunk_buffer.surjective chunk_buffer.update_convs(7-10))
qed

lemma io_current_update:
  "io_current (ChunkBuffer2_update_output (ChunkBuffer2_update_input b))"
  by (simp add: io_current_def update_commute)

text \<open>Where the next packet goes, and the room there.\<close>

lemma flat_end:
  assumes "cb_shape buf" "flat buf ps"
  shows "ChunkBuffer2_end buf = cb_start buf + span ps" and "cb_used buf < cb_wrap buf - cb_start buf"
  using assms by (auto simp: cb_shape_def flat_def ChunkBuffer2_end_def cb_lim_def)

lemma wrapped_end:
  assumes "wrapped buf us vs"
  shows "ChunkBuffer2_end buf = span vs" and "cb_used buf \<ge> cb_wrap buf - cb_start buf"
proof -
  have "cb_used buf - (cb_wrap buf - cb_start buf) = span vs" using assms by (auto simp: wrapped_def)
  moreover from this show "cb_used buf \<ge> cb_wrap buf - cb_start buf" using span_nonneg [of vs] by linarith
  ultimately show "ChunkBuffer2_end buf = span vs" by (simp add: ChunkBuffer2_end_def)
qed

lemma flat_input:
  assumes "cb_shape buf" "io_current buf" "flat buf ps"
  shows "input_dest buf = Some (nat (4 * (cb_start buf + span ps + 1)))"
    and "input_avail buf = 4 * (cb_size buf - (cb_start buf + span ps) - 1)"
proof -
  let ?e = "cb_start buf + span ps"
  have e: "cb_mtu buf \<le> cb_size buf - ?e - 1" "?e < cb_size buf" "0 \<le> ?e" "4 * cb_size buf \<le> INT_MAX"
    using assms(1,3) by (auto simp: cb_shape_def flat_def cb_lim_def)
  have "c_int ((cb_size buf - ?e - 1) * 4) = (cb_size buf - ?e - 1) * 4"
    using e(2-4) by (intro c_int_id) (simp_all add: algebra_simps)
  then have "in_io buf = (Some (nat (4 * (?e + 1))), 4 * (cb_size buf - ?e - 1))"
    using flat_end [OF assms(1,3)] e(1,2) by (simp add: in_io_def Let_def)
  then show "input_dest buf = Some (nat (4 * (?e + 1)))" and "input_avail buf = 4 * (cb_size buf - ?e - 1)"
    using assms(2) by (simp_all add: io_current_iff)
qed

lemma wrapped_input:
  assumes "cb_shape buf" "io_current buf" "wrapped buf us vs"
  shows "input_dest buf = (if span vs < cb_start buf then Some (nat (4 * (span vs + 1))) else None)"
    and "input_avail buf = (if span vs < cb_start buf then 4 * (cb_start buf - span vs - 1) else - 1)"
proof -
  have e: "cb_mtu buf \<le> cb_size buf - span vs - 1" "span vs \<le> cb_start buf"
      "cb_start buf \<le> cb_size buf" "4 * cb_size buf \<le> INT_MAX"
    using assms(1,3) by (auto simp: cb_shape_def wrapped_def cb_lim_def)
  have c: "c_int ((cb_start buf - span vs - 1) * 4) = (cb_start buf - span vs - 1) * 4"
    if "span vs < cb_start buf"
  proof (rule c_int_id)
    show "0 \<le> (cb_start buf - span vs - 1) * 4" using that by simp
    have "cb_start buf - span vs - 1 \<le> cb_size buf" using e(3) span_nonneg [of vs] by linarith
    then show "(cb_start buf - span vs - 1) * 4 \<le> INT_MAX" using e(4) by (simp add: algebra_simps)
  qed
  have "in_io buf = (if span vs < cb_start buf
      then (Some (nat (4 * (span vs + 1))), 4 * (cb_start buf - span vs - 1)) else (None, - 1))"
    using wrapped_end [OF assms(3)] e(1,2) c by (simp add: in_io_def Let_def)
  then show "input_dest buf = (if span vs < cb_start buf then Some (nat (4 * (span vs + 1))) else None)"
    and "input_avail buf = (if span vs < cb_start buf then 4 * (cb_start buf - span vs - 1) else - 1)"
    using assms(2) by (simp_all add: io_current_iff)
qed

text \<open>What is read from the buffer.\<close>

lemma layout_first:
  assumes "layout buf (p # ps)"
  shows "block_len (cb_mem buf) (cb_start buf) = int (length p)"
    and "segment (nat (4 * (cb_start buf + 1))) (length p) (cb_mem buf) = p"
    and "int (length p) \<le> INT_MAX" and "0 < cb_used buf"
proof -
  consider "flat buf (p # ps)" | us vs where "p # ps = us @ vs" "wrapped buf us vs"
    using assms by (auto simp: layout_def)
  then have "chunks (cb_mem buf) (cb_lim buf) (cb_start buf) [p] \<and> cb_used buf = span (p # ps)"
  proof cases
    case 1
    then show ?thesis by (simp add: flat_def)
  next
    case 2
    then obtain us' where "us = p # us'" by (auto simp: wrapped_def Cons_eq_append_conv)
    with 2 show ?thesis by (simp add: wrapped_def)
  qed
  then show "block_len (cb_mem buf) (cb_start buf) = int (length p)"
    and "segment (nat (4 * (cb_start buf + 1))) (length p) (cb_mem buf) = p"
    and "int (length p) \<le> INT_MAX" and "0 < cb_used buf"
    using span_pos [of "p # ps"] by (auto simp del: span.simps)
qed

section \<open>The operations keep the invariant\<close>

lemma init_inv:
  assumes "0 \<le> mtu" "mtu \<le> INT_MAX" "blocks_of mtu + 1 \<le> blocks" "4 * blocks \<le> INT_MAX"
    and "int (length mem) = 4 * blocks"
  shows "cb_inv (ChunkBuffer2_Init mem blocks mtu) []"
  unfolding cb_inv_def ChunkBuffer2_Init_def
  using assms by (simp add: io_current_update) (simp add: layout_def cb_shape_def flat_def cb_lim_def blocks_of_eq)

text \<open>Room at the input: the block behind the last packet, and the space up to the next obstacle.\<close>

lemma input_room:
  assumes "cb_inv buf ps" "input_dest buf \<noteq> None" "int (length p) \<le> input_avail buf"
  defines "e \<equiv> ChunkBuffer2_end buf"
  shows "input_dest buf = Some (nat (4 * (e + 1)))" and "0 \<le> e" and "e \<le> cb_lim buf"
    and "4 * (e + 1) + int (length p) \<le> 4 * cb_size buf" and "int (length p) \<le> INT_MAX"
proof -
  have sh: "cb_shape buf" "io_current buf" using assms(1) by (simp_all add: cb_inv_def)
  have st: "0 \<le> cb_start buf" "cb_start buf \<le> cb_lim buf" "4 * cb_size buf \<le> INT_MAX" "cb_start buf \<le> cb_size buf"
    using sh(1) by (auto simp: cb_shape_def cb_lim_def)
  consider (flat) "flat buf ps" | (wrapped) us vs where "wrapped buf us vs"
    using assms(1) by (auto simp: cb_inv_def layout_def)
  then have "input_dest buf = Some (nat (4 * (e + 1))) \<and> 0 \<le> e \<and> e \<le> cb_lim buf \<and>
      4 * (e + 1) + int (length p) \<le> 4 * cb_size buf"
  proof cases
    case flat
    have "e = cb_start buf + span ps" unfolding e_def by (rule flat_end [OF sh(1) flat])
    moreover have "cb_start buf + span ps \<le> cb_lim buf" using flat by (simp add: flat_def)
    moreover have "0 \<le> cb_start buf + span ps" using st(1) by simp
    ultimately show ?thesis
      using flat_input [OF sh flat] assms(3) by (simp add: algebra_simps)
  next
    case wrapped
    have "e = span vs" unfolding e_def by (rule wrapped_end [OF wrapped])
    moreover have "span vs < cb_start buf" using wrapped_input [OF sh wrapped] assms(2) by (auto split: if_splits)
    ultimately show ?thesis
      using wrapped_input [OF sh wrapped] assms(3) st by (simp add: algebra_simps)
  qed
  then show "input_dest buf = Some (nat (4 * (e + 1)))" and "0 \<le> e" and "e \<le> cb_lim buf"
    and "4 * (e + 1) + int (length p) \<le> 4 * cb_size buf" and "int (length p) \<le> INT_MAX"
    using st(3) by auto
qed

text \<open>The layout after a packet was stored, before \<open>input_*\<close> and \<open>output_*\<close> are recomputed.\<close>

definition submitted :: "chunk_buffer \<Rightarrow> byte list \<Rightarrow> chunk_buffer" where
  "submitted buf p =
     (let e = ChunkBuffer2_end buf;
          buf = buf\<lparr>cb_mem := store_packet (cb_mem buf) e p, cb_used := cb_used buf + (1 + blk p)\<rparr>
      in if cb_used buf \<le> cb_wrap buf - cb_start buf \<and> cb_mtu buf > cb_size buf - (e + 1 + blk p) - 1
         then buf\<lparr>cb_wrap := e + 1 + blk p\<rparr> else buf)"

lemma submit_packet_eq:
  assumes "cb_inv buf ps" "input_dest buf \<noteq> None" "int (length p) \<le> input_avail buf"
  shows "ChunkBuffer2_SubmitPacket (write_input buf p) (int (length p)) =
     (let b = ChunkBuffer2_update_input (submitted buf p)
      in if cb_used b = 1 + blk p then ChunkBuffer2_update_output b else b)"
proof -
  have d: "input_dest buf = Some (nat (4 * (ChunkBuffer2_end buf + 1)))" "int (length p) \<le> INT_MAX"
    by (rule input_room [OF assms])+
  have "ChunkBuffer2_end (buf\<lparr>cb_mem := m\<rparr>) = ChunkBuffer2_end buf" for m
    by (simp add: ChunkBuffer2_end_def)
  then show ?thesis
    unfolding ChunkBuffer2_SubmitPacket_def submitted_def write_input_def store_packet_def Let_def
      blocks_of_length [OF d(2)] d(1) option.case by simp
qed

lemma submitted_layout:
  assumes "cb_inv buf ps" "input_dest buf \<noteq> None" "int (length p) \<le> input_avail buf"
  shows "cb_shape (submitted buf p) \<and> layout (submitted buf p) (ps @ [p])"
proof -
  define e where "e = ChunkBuffer2_end buf"
  let ?m = "store_packet (cb_mem buf) e p"
  have sh: "cb_shape buf" "io_current buf" using assms(1) by (simp_all add: cb_inv_def)
  have len: "int (length (cb_mem buf)) = 4 * cb_size buf" using sh(1) by (simp add: cb_shape_def)
  note room = input_room [OF assms, folded e_def]
  have e: "0 \<le> e" "4 * (e + 1) + int (length p) \<le> int (length (cb_mem buf))" using room len by simp_all
  have new: "chunks ?m (cb_lim buf) e [p]"
    by (rule store_packet_chunk) (use room e in simp_all)
  have shape: "cb_shape (submitted buf p)"
    using sh(1) length_store_packet [OF e]
    by (simp add: submitted_def cb_shape_def cb_lim_def e_def [symmetric] Let_def)
  have lim: "cb_lim (submitted buf p) = cb_lim buf" by (simp add: submitted_def cb_lim_def Let_def)
  have st: "0 \<le> cb_start buf" "cb_start buf \<le> cb_lim buf" using sh(1) by (auto simp: cb_shape_def)
  consider (flat) "flat buf ps" | (wrapped) us vs where "ps = us @ vs" "wrapped buf us vs"
    using assms(1) by (auto simp: cb_inv_def layout_def)
  then show ?thesis
  proof cases
    case flat
    have ee: "e = cb_start buf + span ps" unfolding e_def by (rule flat_end [OF sh(1) flat])
    have ch: "chunks ?m (cb_lim buf) (cb_start buf) (ps @ [p])"
      using store_packet_keeps [OF e st(1), of ps] flat new by (simp add: chunks_append ee flat_def)
    have bl: "blk p \<le> cb_size buf - e - 1" by (rule blk_le) (use room(4) in simp)
    have used: "cb_used buf + (1 + blk p) \<le> cb_wrap buf - cb_start buf"
      using flat bl ee by (simp add: flat_def)
    show ?thesis
    proof (cases "cb_mtu buf > cb_size buf - (e + 1 + blk p) - 1")
      case True
      have "wrapped (submitted buf p) (ps @ [p]) []"
        unfolding wrapped_def lim
        using True used ch flat bl ee st
        by (simp add: submitted_def e_def [symmetric] Let_def flat_def cb_lim_def)
      then show ?thesis using shape by (auto simp: layout_def)
    next
      case False
      have "flat (submitted buf p) (ps @ [p])"
        unfolding flat_def lim
        using False used ch flat bl ee st
        by (simp add: submitted_def e_def [symmetric] Let_def flat_def cb_lim_def)
      then show ?thesis using shape by (auto simp: layout_def)
    qed
  next
    case wrapped
    note w = wrapped(2)
    have ee: "e = span vs" unfolding e_def by (rule wrapped_end [OF w])
    have "span vs < cb_start buf" and av: "input_avail buf = 4 * (cb_start buf - span vs - 1)"
      using wrapped_input [OF sh w] assms(2) by (auto split: if_splits)
    have bl: "blk p \<le> cb_start buf - span vs - 1" by (rule blk_le) (use assms(3) av in simp)
    have no_wrap: "\<not> cb_used buf + (1 + blk p) \<le> cb_wrap buf - cb_start buf"
      using wrapped_end(2) [OF w] blk_nonneg [of p] by linarith
    have ch: "chunks ?m (cb_lim buf) (cb_start buf) us" "chunks ?m (cb_lim buf) 0 (vs @ [p])"
      using store_packet_keeps [OF e st(1), of us] store_packet_keeps [OF e, of 0 vs] w new bl
      by (simp_all add: chunks_append ee wrapped_def)
    have "wrapped (submitted buf p) us (vs @ [p])"
      unfolding wrapped_def lim
      using no_wrap ch w bl
      by (simp add: submitted_def e_def [symmetric] Let_def wrapped_def)
    then show ?thesis using shape wrapped(1) unfolding layout_def by (metis append_assoc)
  qed
qed

lemma io_current_input: "io_current b \<Longrightarrow> ChunkBuffer2_update_input b = b"
  and io_current_output: "io_current b \<Longrightarrow> ChunkBuffer2_update_output b = b"
  by (simp_all add: io_current_def)

lemma layout_used: "layout buf ps \<Longrightarrow> cb_used buf = span ps"
  by (erule layout_cases) (auto simp: flat_def wrapped_def)

lemma layout_out_io:
  "layout buf ps \<Longrightarrow> out_io buf =
     (case ps of [] \<Rightarrow> (None, - 1)
      | p # _ \<Rightarrow> (Some (nat (4 * (cb_start buf + 1))), int (length p)))"
  using layout_used [of buf ps] layout_first [of buf "hd ps" "tl ps"]
  by (cases ps) (simp_all add: out_io_def)

lemma submit_inv:
  assumes "cb_inv buf ps" "input_dest buf \<noteq> None" "int (length p) \<le> input_avail buf"
  shows "cb_inv (ChunkBuffer2_SubmitPacket (write_input buf p) (int (length p))) (ps @ [p])"
proof -
  let ?b = "ChunkBuffer2_update_input (submitted buf p)"
  have lay: "cb_shape (submitted buf p)" "layout (submitted buf p) (ps @ [p])"
    using submitted_layout [OF assms] by auto
  show ?thesis
  proof (cases "cb_used ?b = 1 + blk p")
    case True
    then show ?thesis using lay
      by (simp add: submit_packet_eq [OF assms] cb_inv_def io_current_update)
  next
    case False
    then have "ps \<noteq> []" using layout_used [OF lay(2)] by auto
    then have "out_io (submitted buf p) = out_io buf"
      using layout_out_io [OF lay(2)] layout_out_io [of buf ps] assms(1)
      by (cases ps) (simp_all add: cb_inv_def submitted_def Let_def)
    then have "io_current ?b"
      using assms(1) by (simp add: cb_inv_def io_current_iff update_input_eq) (simp add: submitted_def Let_def)
    then show ?thesis using lay False by (simp add: submit_packet_eq [OF assms] cb_inv_def)
  qed
qed

text \<open>After the first packet was dropped, before \<open>input_*\<close> and \<open>output_*\<close> are recomputed.\<close>

definition consumed :: "chunk_buffer \<Rightarrow> byte list \<Rightarrow> chunk_buffer" where
  "consumed buf p =
     (let buf = buf\<lparr>cb_start := cb_start buf + (1 + blk p), cb_used := cb_used buf - (1 + blk p)\<rparr>
      in if cb_start buf = cb_wrap buf then buf\<lparr>cb_start := 0, cb_wrap := cb_size buf\<rparr> else buf)"

lemma consume_packet_eq:
  assumes "layout buf (p # ps)"
  shows "ChunkBuffer2_ConsumePacket buf =
     ChunkBuffer2_update_output
       (if cb_used buf \<ge> cb_wrap buf - cb_start buf then ChunkBuffer2_update_input (consumed buf p)
        else consumed buf p)"
  using layout_first [OF assms] by (simp add: ChunkBuffer2_ConsumePacket_def consumed_def Let_def)

lemma consumed_flat:
  assumes "cb_shape buf" "flat buf (p # ps)"
  shows "cb_shape (consumed buf p)" and "flat (consumed buf p) ps"
    and "cb_start (consumed buf p) = cb_start buf + (1 + blk p)"
    and "in_io (consumed buf p) = in_io buf"
proof -
  have st: "0 \<le> cb_start buf" "cb_start buf \<le> cb_lim buf" "cb_lim buf < cb_size buf"
    using assms(1) by (auto simp: cb_shape_def cb_lim_def)
  have nw: "\<not> cb_used buf \<ge> cb_wrap buf - cb_start buf" using flat_end(2) [OF assms] by simp
  have nxt: "cb_start buf + (1 + blk p) \<le> cb_lim buf"
    using assms(2) span_nonneg [of ps] unfolding flat_def span.simps by linarith
  then have c: "consumed buf p =
      buf\<lparr>cb_start := cb_start buf + (1 + blk p), cb_used := cb_used buf - (1 + blk p)\<rparr>"
    using assms(2) st(3) by (simp add: consumed_def flat_def)
  show "cb_shape (consumed buf p)" "flat (consumed buf p) ps"
    using assms nxt st by (simp_all add: c cb_shape_def flat_def cb_lim_def algebra_simps)
  moreover from this have "ChunkBuffer2_end (consumed buf p) = ChunkBuffer2_end buf"
    using flat_end(1) [OF assms] flat_end(1) [of "consumed buf p" ps] by (simp add: c)
  moreover have "cb_size (consumed buf p) = cb_size buf" "cb_mtu (consumed buf p) = cb_mtu buf"
    by (simp_all add: c)
  moreover have "\<not> cb_used (consumed buf p) \<ge> cb_wrap (consumed buf p) - cb_start (consumed buf p)"
    using flat_end(2) [OF calculation(1,2)] by simp
  ultimately show "in_io (consumed buf p) = in_io buf" using nw by (simp add: in_io_def)
  show "cb_start (consumed buf p) = cb_start buf + (1 + blk p)" by (simp add: c)
qed

lemma consumed_wrapped:
  assumes "cb_shape buf" "wrapped buf (p # us) vs"
  shows "cb_shape (consumed buf p)"
    and "us = [] \<Longrightarrow> flat (consumed buf p) vs \<and> cb_start (consumed buf p) = 0 \<and>
           cb_size (consumed buf p) = cb_size buf"
    and "us \<noteq> [] \<Longrightarrow> wrapped (consumed buf p) us vs \<and> cb_start buf \<le> cb_start (consumed buf p)"
proof -
  have st: "0 \<le> cb_start buf" "cb_start buf \<le> cb_lim buf" "cb_lim buf < cb_size buf"
    using assms(1) by (auto simp: cb_shape_def cb_lim_def)
  have "cb_shape (consumed buf p) \<and>
      (us = [] \<longrightarrow> flat (consumed buf p) vs \<and> cb_start (consumed buf p) = 0 \<and>
         cb_size (consumed buf p) = cb_size buf) \<and>
      (us \<noteq> [] \<longrightarrow> wrapped (consumed buf p) us vs \<and> cb_start buf \<le> cb_start (consumed buf p))"
  proof (cases "us = []")
    case True
    then show ?thesis
      using assms st by (auto simp: consumed_def cb_shape_def flat_def wrapped_def cb_lim_def)
  next
    case False
    then have "cb_start buf + (1 + blk p) \<noteq> cb_wrap buf"
      using assms(2) span_pos [of us] by (simp add: wrapped_def)
    then have c: "consumed buf p =
        buf\<lparr>cb_start := cb_start buf + (1 + blk p), cb_used := cb_used buf - (1 + blk p)\<rparr>"
      by (simp add: consumed_def)
    have "cb_start buf + (1 + blk p) \<le> cb_lim buf"
      using assms(2) False by (cases us) (simp_all add: wrapped_def)
    moreover have "span vs \<le> cb_start buf + (1 + blk p)"
      using assms(2) blk_nonneg [of p] unfolding wrapped_def by linarith
    ultimately show ?thesis
      using assms st False by (auto simp: c cb_shape_def wrapped_def cb_lim_def algebra_simps)
  qed
  then show "cb_shape (consumed buf p)"
    and "us = [] \<Longrightarrow> flat (consumed buf p) vs \<and> cb_start (consumed buf p) = 0 \<and>
           cb_size (consumed buf p) = cb_size buf"
    and "us \<noteq> [] \<Longrightarrow> wrapped (consumed buf p) us vs \<and> cb_start buf \<le> cb_start (consumed buf p)"
    by blast+
qed

lemma consume_flat:
  assumes "cb_inv buf (p # ps)" "flat buf (p # ps)"
  shows "cb_inv (ChunkBuffer2_ConsumePacket buf) ps"
    and "input_dest (ChunkBuffer2_ConsumePacket buf) = input_dest buf"
    and "input_avail (ChunkBuffer2_ConsumePacket buf) = input_avail buf"
proof -
  have sh: "cb_shape buf" "io_current buf" and lay: "layout buf (p # ps)"
    using assms(1) by (auto simp: cb_inv_def)
  note c = consumed_flat [OF sh(1) assms(2)]
  have "\<not> cb_used buf \<ge> cb_wrap buf - cb_start buf" using flat_end(2) [OF sh(1) assms(2)] by simp
  then have eq: "ChunkBuffer2_ConsumePacket buf = ChunkBuffer2_update_output (consumed buf p)"
    by (simp add: consume_packet_eq [OF lay])
  have same: "input_dest (consumed buf p) = input_dest buf" "input_avail (consumed buf p) = input_avail buf"
    by (simp_all add: consumed_def Let_def)
  then show "input_dest (ChunkBuffer2_ConsumePacket buf) = input_dest buf"
    and "input_avail (ChunkBuffer2_ConsumePacket buf) = input_avail buf"
    by (simp_all add: eq update_output_eq)
  show "cb_inv (ChunkBuffer2_ConsumePacket buf) ps"
    using sh(2) c(1,2,4) same
    by (simp add: eq cb_inv_def layout_def) (simp add: io_current_iff update_output_eq)
qed

lemma consume_wrapped:
  assumes "cb_inv buf (p # us @ vs)" "wrapped buf (p # us) vs"
  shows "cb_inv (ChunkBuffer2_ConsumePacket buf) (us @ vs)"
    and "us = [] \<Longrightarrow> flat (ChunkBuffer2_ConsumePacket buf) vs \<and> cb_start (ChunkBuffer2_ConsumePacket buf) = 0 \<and>
           cb_size (ChunkBuffer2_ConsumePacket buf) = cb_size buf"
    and "us \<noteq> [] \<Longrightarrow> wrapped (ChunkBuffer2_ConsumePacket buf) us vs \<and>
           cb_start buf \<le> cb_start (ChunkBuffer2_ConsumePacket buf)"
proof -
  have sh: "cb_shape buf" and lay: "layout buf (p # us @ vs)" using assms(1) by (auto simp: cb_inv_def)
  note c = consumed_wrapped [OF sh assms(2)]
  have eq: "ChunkBuffer2_ConsumePacket buf =
      ChunkBuffer2_update_output (ChunkBuffer2_update_input (consumed buf p))"
    using wrapped_end(2) [OF assms(2)] by (simp add: consume_packet_eq [OF lay])
  show "us = [] \<Longrightarrow> flat (ChunkBuffer2_ConsumePacket buf) vs \<and> cb_start (ChunkBuffer2_ConsumePacket buf) = 0 \<and>
           cb_size (ChunkBuffer2_ConsumePacket buf) = cb_size buf"
    and "us \<noteq> [] \<Longrightarrow> wrapped (ChunkBuffer2_ConsumePacket buf) us vs \<and>
           cb_start buf \<le> cb_start (ChunkBuffer2_ConsumePacket buf)"
    using c by (simp_all add: eq)
  have "layout (consumed buf p) (us @ vs)" using c by (cases "us = []") (auto simp: layout_def)
  then show "cb_inv (ChunkBuffer2_ConsumePacket buf) (us @ vs)"
    using c(1) by (simp add: eq cb_inv_def io_current_update)
qed

lemma inv_cases:
  assumes "cb_inv buf (p # ps)"
  obtains (flat) "flat buf (p # ps)" | (wrapped) us vs where "ps = us @ vs" "wrapped buf (p # us) vs"
  using assms by (auto simp: cb_inv_def layout_def wrapped_def Cons_eq_append_conv)

lemma consume_inv: "cb_inv buf (p # ps) \<Longrightarrow> cb_inv (ChunkBuffer2_ConsumePacket buf) ps"
  using consume_flat(1) consume_wrapped(1) by (metis append_Cons inv_cases)

text \<open>Removing a packet never moves or shrinks the free space a client was told to write to.\<close>

lemma consume_keeps_input:
  assumes inv: "cb_inv buf (p # ps)" and d: "input_dest buf = Some d"
  shows "input_dest (ChunkBuffer2_ConsumePacket buf) = Some d"
    and "input_avail buf \<le> input_avail (ChunkBuffer2_ConsumePacket buf)"
proof -
  let ?b = "ChunkBuffer2_ConsumePacket buf"
  have sh: "cb_shape buf" "io_current buf" using inv by (auto simp: cb_inv_def)
  have "input_dest ?b = Some d \<and> input_avail buf \<le> input_avail ?b"
    using inv
  proof (cases rule: inv_cases)
    case flat
    then show ?thesis using consume_flat(2,3) [OF inv flat] d by simp
  next
    case (wrapped us vs)
    have inv': "cb_inv buf (p # us @ vs)" using inv wrapped(1) by simp
    have sh': "cb_shape ?b" "io_current ?b" using consume_inv [OF inv] by (auto simp: cb_inv_def)
    have sv: "span vs < cb_start buf" "cb_start buf \<le> cb_size buf"
      using wrapped_input(1) [OF sh wrapped(2)] d sh(1) by (auto simp: cb_shape_def cb_lim_def split: if_splits)
    note old = wrapped_input [OF sh wrapped(2)]
    show ?thesis
    proof (cases "us = []")
      case True
      have f: "flat ?b vs" "cb_start ?b = 0" "cb_size ?b = cb_size buf"
        using consume_wrapped(2) [OF inv' wrapped(2) True] by auto
      show ?thesis using flat_input [OF sh' f(1)] old sv d f by simp
    next
      case False
      have f: "wrapped ?b us vs" "cb_start buf \<le> cb_start ?b"
        using consume_wrapped(3) [OF inv' wrapped(2) False] by auto
      show ?thesis using wrapped_input [OF sh' f(1)] old sv d f(2) by simp
    qed
  qed
  then show "input_dest ?b = Some d" and "input_avail buf \<le> input_avail ?b" by auto
qed

section \<open>The buffer is a packet queue\<close>

definition cb_put :: "chunk_buffer \<Rightarrow> byte list \<Rightarrow> chunk_buffer" where
  "cb_put buf p = ChunkBuffer2_SubmitPacket (write_input buf p) (int (length p))"

lemma no_input_no_room: "cb_inv buf ps \<Longrightarrow> input_dest buf = None \<Longrightarrow> input_avail buf = - 1"
proof -
  assume "cb_inv buf ps" and n: "input_dest buf = None"
  then have sh: "cb_shape buf" "io_current buf" and lay: "layout buf ps" by (auto simp: cb_inv_def)
  from lay show ?thesis
    by (cases rule: layout_cases)
      (use n flat_input [OF sh] wrapped_input [OF sh] in \<open>auto split: if_splits\<close>)
qed

lemma read_output_inv:
  assumes "cb_inv buf ps"
  shows "read_output buf = (case ps of [] \<Rightarrow> None | p # _ \<Rightarrow> Some p)"
proof -
  have lay: "layout buf ps" and io: "output_dest buf = fst (out_io buf)" "output_avail buf = snd (out_io buf)"
    using assms by (simp_all add: cb_inv_def io_current_iff)
  show ?thesis
    using layout_out_io [OF lay] layout_first(2) [of buf "hd ps" "tl ps"] lay
    by (cases ps) (simp_all add: read_output_def io)
qed

interpretation cbq: packet_fifo cb_inv input_avail cb_put read_output ChunkBuffer2_ConsumePacket
proof unfold_locales
  fix b ps and p :: "byte list" assume "cb_inv b ps" "int (length p) \<le> input_avail b"
  then show "cb_inv (cb_put b p) (ps @ [p])"
    using no_input_no_room [of b ps] by (auto simp: cb_put_def intro!: submit_inv)
qed (simp_all add: read_output_inv consume_inv)

text \<open>Room for a whole packet.\<close>

lemma flat_room: "cb_inv buf ps \<Longrightarrow> flat buf ps \<Longrightarrow> 4 * cb_mtu buf \<le> input_avail buf"
  using flat_input(2) [of buf ps] by (simp add: cb_inv_def flat_def cb_lim_def)

lemma empty_room: "cb_inv buf [] \<Longrightarrow> 4 * cb_mtu buf \<le> input_avail buf"
  using flat_room [of buf "[]"] by (auto simp: cb_inv_def layout_def wrapped_def)

lemma span_le:
  assumes "\<forall>p\<in>set ps. int (length p) \<le> 4 * m"
  shows "span ps \<le> int (length ps) * (1 + m)"
  using assms
proof (induction ps)
  case (Cons p ps)
  then have "blk p \<le> m" by (simp add: blk_le)
  then show ?case using Cons by (simp add: algebra_simps)
qed simp

lemma capacity_room:
  assumes inv: "cb_inv buf ps" and small: "\<forall>p\<in>set ps. int (length p) \<le> 4 * cb_mtu buf"
    and size: "(1 + cb_mtu buf) * (num + 1) \<le> cb_size buf" and n: "int (length ps) < num"
  shows "4 * cb_mtu buf \<le> input_avail buf"
proof -
  have sh: "cb_shape buf" "io_current buf" and lay: "layout buf ps" using inv by (auto simp: cb_inv_def)
  from lay show ?thesis
  proof (cases rule: layout_cases)
    case flat
    then show ?thesis by (rule flat_room [OF inv])
  next
    case (wrapped us vs)
    have m: "0 \<le> cb_mtu buf" using sh(1) by (simp add: cb_shape_def)
    have "span us \<le> int (length us) * (1 + cb_mtu buf)" "span vs \<le> int (length vs) * (1 + cb_mtu buf)"
      using small wrapped(1) by (auto intro!: span_le)
    then have "span us + span vs \<le> int (length ps) * (1 + cb_mtu buf)"
      using wrapped(1) by (simp add: algebra_simps)
    also have "\<dots> \<le> (num - 1) * (1 + cb_mtu buf)" using n m by (intro mult_right_mono) simp_all
    finally have "span us + span vs \<le> (num - 1) * (1 + cb_mtu buf)" .
    moreover have "cb_size buf - cb_mtu buf \<le> cb_start buf + span us"
      using wrapped(2) by (simp add: wrapped_def cb_lim_def)
    ultimately have "cb_mtu buf \<le> cb_start buf - span vs - 1" using size m by (simp add: algebra_simps)
    then show ?thesis using wrapped_input(2) [OF sh wrapped(2)] m by (auto split: if_splits)
  qed
qed

lemma room_for_mtu:
  assumes "cb_inv buf ps" and "0 \<le> mtu" "mtu \<le> INT_MAX" "cb_mtu buf = blocks_of mtu"
    and "ps = [] \<or> (0 \<le> num \<and> num \<le> INT_MAX \<and> cb_size buf = ChunkBuffer2_calc_blocks mtu num \<and>
           int (length ps) < num \<and> (\<forall>p\<in>set ps. int (length p) \<le> mtu))"
  shows "mtu \<le> input_avail buf"
proof -
  have "mtu \<le> 4 * cb_mtu buf" using assms(2-4) by (simp add: blocks_of_eq)
  also have "\<dots> \<le> input_avail buf"
  proof (cases "ps = []")
    case True
    then show ?thesis using assms(1) empty_room by simp
  next
    case False
    have size: "0 < cb_size buf" using assms(1) by (simp add: cb_inv_def cb_shape_def cb_lim_def)
    show ?thesis
    proof (rule capacity_room [OF assms(1)])
      show "\<forall>p\<in>set ps. int (length p) \<le> 4 * cb_mtu buf"
        using False assms(5) \<open>mtu \<le> 4 * cb_mtu buf\<close> by auto
      show "(1 + cb_mtu buf) * (num + 1) \<le> cb_size buf" "int (length ps) < num"
        using False assms(4,5) size by (auto simp: ChunkBuffer2_calc_blocks_def Let_def split: if_splits)
    qed
  qed
  finally show ?thesis .
qed

section \<open>Properties\<close>

text \<open>C33. The circular buffer delivers packets unchanged and in order: from a freshly initialised
  buffer of any size that holds one packet of the MTU, after any sequence of offered packets (each
  accepted exactly when it fits the announced room) and removals, the accepted packets are the
  removed ones followed by those still in the buffer, whose layout is intact.\<close>

theorem chunk_buffer_fifo:
  assumes "0 \<le> mtu" "mtu \<le> INT_MAX" "blocks_of mtu + 1 \<le> blocks" "4 * blocks \<le> INT_MAX"
    and "int (length mem) = 4 * blocks"
    and "fifo_run input_avail cb_put read_output ChunkBuffer2_ConsumePacket ops
           (ChunkBuffer2_Init mem blocks mtu) = (buf, accepted, taken)"
  shows "\<exists>rest. cb_inv buf rest \<and> accepted = taken @ rest"
  using cbq.run_fifo [OF init_inv [OF assms(1-5)] assms(6)] by simp

lemma chunk_buffer_fifo_witness:
  "\<exists>buf rest. fifo_run input_avail cb_put read_output ChunkBuffer2_ConsumePacket
      [Put_op [1,2,3,4,5], Take_op, Put_op [6]] (ChunkBuffer2_Init (replicate 24 0) 6 8)
        = (buf, [[1,2,3,4,5], [6]], [[1,2,3,4,5]]) \<and> cb_inv buf rest \<and> rest = [[6]]"
proof -
  obtain buf acc out where r: "fifo_run input_avail cb_put read_output ChunkBuffer2_ConsumePacket
      [Put_op [1,2,3,4,5], Take_op, Put_op [6]] (ChunkBuffer2_Init (replicate 24 0) 6 8) = (buf, acc, out)"
    by (metis prod_cases3)
  have "(case fifo_run input_avail cb_put read_output ChunkBuffer2_ConsumePacket
      [Put_op [1,2,3,4,5], Take_op, Put_op [6]] (ChunkBuffer2_Init (replicate 24 0) 6 8) of
        (b, a, t) \<Rightarrow> a = [[1,2,3,4,5], [6]] \<and> t = [[1,2,3,4,5]])" by code_simp
  then have "acc = [[1,2,3,4,5], [6]]" "out = [[1,2,3,4,5]]" unfolding r by simp_all
  moreover have "\<exists>rest. cb_inv buf rest \<and> acc = out @ rest"
    by (rule chunk_buffer_fifo [OF _ _ _ _ _ r]) (simp_all add: blocks_of_eq)
  ultimately show ?thesis using r by auto
qed

text \<open>No deadlock and the promised capacity: when a buffer was sized by
  \<open>ChunkBuffer2_calc_blocks\<close> for \<open>num\<close> packets of the MTU and holds fewer than \<open>num\<close> of them, or
  when any buffer is empty, a packet of the MTU can be written to it.\<close>

theorem chunk_buffer_capacity:
  assumes "cb_inv buf ps" and "0 \<le> mtu" "mtu \<le> INT_MAX" "cb_mtu buf = blocks_of mtu"
    and "ps = [] \<or> (0 \<le> num \<and> num \<le> INT_MAX \<and> cb_size buf = ChunkBuffer2_calc_blocks mtu num \<and>
           int (length ps) < num \<and> (\<forall>p\<in>set ps. int (length p) \<le> mtu))"
  shows "mtu \<le> input_avail buf"
  by (rule room_for_mtu [OF assms])

lemma chunk_buffer_capacity_witness:
  "8 \<le> input_avail (ChunkBuffer2_Init (replicate 24 0) 6 8)"
proof (rule chunk_buffer_capacity)
  show "cb_inv (ChunkBuffer2_Init (replicate 24 0) 6 8) []"
    by (rule init_inv) (simp_all add: blocks_of_eq)
qed (simp_all add: ChunkBuffer2_Init_def)

end
