(* ===== verification/Packet_Buffer.thy ===== *)
theory Packet_Buffer
  imports Chunk_Buffer
begin

text \<open>
  \<open>flow/PacketBuffer.c\<close>: a circular buffer between a packet source, from which it receives into the
  buffer, and a packet sink, to which it sends out of the buffer. A handler returns the new state
  and the calls it makes on the two interfaces, in order. The step relation closes the object with
  the two neighbours: a pending receive completes with any packet up to the MTU, a pending send
  completes when the sink has taken the bytes.
\<close>

record packet_buffer =
  pb_input_mtu :: int
  pb_buf :: chunk_buffer

datatype pb_call = Receiver_Recv "nat option" | Sender_Send "nat option" int

definition pb_input_handler_done :: "packet_buffer \<Rightarrow> int \<Rightarrow> packet_buffer \<times> pb_call list" where
  "pb_input_handler_done buf in_len =
     (let was_empty = (output_avail (pb_buf buf) < 0);
          buf = buf\<lparr>pb_buf := ChunkBuffer2_SubmitPacket (pb_buf buf) in_len\<rparr>
      in (buf,
          (if input_avail (pb_buf buf) \<ge> pb_input_mtu buf
           then [Receiver_Recv (input_dest (pb_buf buf))] else []) @
          (if was_empty
           then [Sender_Send (output_dest (pb_buf buf)) (output_avail (pb_buf buf))] else [])))"

definition pb_output_handler_done :: "packet_buffer \<Rightarrow> packet_buffer \<times> pb_call list" where
  "pb_output_handler_done buf =
     (let was_full = (input_avail (pb_buf buf) < pb_input_mtu buf);
          buf = buf\<lparr>pb_buf := ChunkBuffer2_ConsumePacket (pb_buf buf)\<rparr>
      in (buf,
          (if was_full \<and> input_avail (pb_buf buf) \<ge> pb_input_mtu buf
           then [Receiver_Recv (input_dest (pb_buf buf))] else []) @
          (if output_avail (pb_buf buf) \<ge> 0
           then [Sender_Send (output_dest (pb_buf buf)) (output_avail (pb_buf buf))] else [])))"

text \<open>\<open>alloc n\<close> is the array of \<open>n\<close> blocks that \<open>BAllocArray\<close> returns, \<open>None\<close> when it fails.\<close>

definition PacketBuffer_Init ::
  "(int \<Rightarrow> byte list option) \<Rightarrow> int \<Rightarrow> int \<Rightarrow> (packet_buffer \<times> pb_call list) option" where
  "PacketBuffer_Init alloc input_mtu num_packets =
     (let num_blocks = ChunkBuffer2_calc_blocks input_mtu num_packets in
      if num_blocks < 0 then None
      else case alloc num_blocks of
        None \<Rightarrow> None
      | Some mem \<Rightarrow>
          let c = ChunkBuffer2_Init mem num_blocks input_mtu
          in Some (\<lparr>pb_input_mtu = input_mtu, pb_buf = c\<rparr>, [Receiver_Recv (input_dest c)]))"

section \<open>The buffer between its neighbours\<close>

text \<open>
  \<open>sys_recv\<close> and \<open>sys_send\<close> are the pending operations of the two interfaces, \<open>sys_in\<close> and
  \<open>sys_out\<close> the packets received and delivered so far.
\<close>

record pb_system =
  sys_pb :: packet_buffer
  sys_recv :: "nat option option"
  sys_send :: "(nat option \<times> int) option"
  sys_in :: "byte list list"
  sys_out :: "byte list list"

fun pb_calls :: "pb_call list \<Rightarrow> pb_system \<Rightarrow> pb_system" where
  "pb_calls [] s = s"
| "pb_calls (Receiver_Recv d # cs) s = pb_calls cs (s\<lparr>sys_recv := Some d\<rparr>)"
| "pb_calls (Sender_Send d n # cs) s = pb_calls cs (s\<lparr>sys_send := Some (d, n)\<rparr>)"

definition pb_start :: "packet_buffer \<times> pb_call list \<Rightarrow> pb_system" where
  "pb_start r = pb_calls (snd r)
     \<lparr>sys_pb = fst r, sys_recv = None, sys_send = None, sys_in = [], sys_out = []\<rparr>"

definition pb_receive :: "pb_system \<Rightarrow> nat \<Rightarrow> byte list \<Rightarrow> pb_system" where
  "pb_receive s d p =
     (let buf = pb_buf (sys_pb s);
          pb = (sys_pb s)\<lparr>pb_buf := buf\<lparr>cb_mem := overwrite d p (cb_mem buf)\<rparr>\<rparr>;
          r = pb_input_handler_done pb (int (length p))
      in pb_calls (snd r) (s\<lparr>sys_pb := fst r, sys_recv := None, sys_in := sys_in s @ [p]\<rparr>))"

definition pb_deliver :: "pb_system \<Rightarrow> nat \<Rightarrow> int \<Rightarrow> pb_system" where
  "pb_deliver s d n =
     (let p = segment d (nat n) (cb_mem (pb_buf (sys_pb s)));
          r = pb_output_handler_done (sys_pb s)
      in pb_calls (snd r) (s\<lparr>sys_pb := fst r, sys_send := None, sys_out := sys_out s @ [p]\<rparr>))"

inductive pb_step :: "pb_system \<Rightarrow> pb_system \<Rightarrow> bool" where
  receive: "sys_recv s = Some (Some d) \<Longrightarrow> int (length p) \<le> pb_input_mtu (sys_pb s) \<Longrightarrow>
     pb_step s (pb_receive s d p)"
| deliver: "sys_send s = Some (Some d, n) \<Longrightarrow> pb_step s (pb_deliver s d n)"

inductive_cases pb_stepE: "pb_step s t"

text \<open>The invariant: what is held, and that the pending operations are exactly the useful ones.\<close>

definition pb_inv :: "int \<Rightarrow> int \<Rightarrow> pb_system \<Rightarrow> bool" where
  "pb_inv mtu num s \<longleftrightarrow> (\<exists>ps. let c = pb_buf (sys_pb s) in
     cb_inv c ps \<and> sys_in s = sys_out s @ ps \<and> pb_input_mtu (sys_pb s) = mtu \<and>
     cb_mtu c = blocks_of mtu \<and> cb_size c = ChunkBuffer2_calc_blocks mtu num \<and>
     (\<forall>p\<in>set (sys_in s). int (length p) \<le> mtu) \<and>
     sys_recv s = (if mtu \<le> input_avail c then Some (input_dest c) else None) \<and>
     sys_send s = (if ps = [] then None else Some (output_dest c, output_avail c)))"

lemma submit_keeps_size [simp]:
  "cb_size (ChunkBuffer2_SubmitPacket b n) = cb_size b" "cb_mtu (ChunkBuffer2_SubmitPacket b n) = cb_mtu b"
  "cb_size (ChunkBuffer2_ConsumePacket b) = cb_size b" "cb_mtu (ChunkBuffer2_ConsumePacket b) = cb_mtu b"
  "cb_start (ChunkBuffer2_SubmitPacket b n) = cb_start b"
  by (simp_all add: ChunkBuffer2_SubmitPacket_def ChunkBuffer2_ConsumePacket_def Let_def)

lemma write_keeps [simp]:
  "cb_size (write_input b p) = cb_size b" "cb_mtu (write_input b p) = cb_mtu b"
  "cb_start (write_input b p) = cb_start b" "output_avail (write_input b p) = output_avail b"
  by (simp_all add: write_input_def split: option.splits)

lemma inv_output:
  assumes "cb_inv b ps"
  shows "output_avail b = (case ps of [] \<Rightarrow> - 1 | p # _ \<Rightarrow> int (length p))"
    and "ps \<noteq> [] \<Longrightarrow> \<exists>d. output_dest b = Some d \<and> segment d (nat (output_avail b)) (cb_mem b) = hd ps"
proof -
  have io: "output_dest b = fst (out_io b)" "output_avail b = snd (out_io b)" and lay: "layout b ps"
    using assms by (auto simp: cb_inv_def io_current_iff)
  show "output_avail b = (case ps of [] \<Rightarrow> - 1 | p # _ \<Rightarrow> int (length p))"
    using layout_out_io [OF lay] io by (cases ps) simp_all
  show "\<exists>d. output_dest b = Some d \<and> segment d (nat (output_avail b)) (cb_mem b) = hd ps" if "ps \<noteq> []"
    using layout_out_io [OF lay] io that layout_first(2) [of b "hd ps" "tl ps"] lay by (cases ps) simp_all
qed

lemma inv_output_neg: "cb_inv b ps \<Longrightarrow> output_avail b < 0 \<longleftrightarrow> ps = []"
  using inv_output(1) [of b ps] by (cases ps) simp_all

lemma pb_receive_inv:
  assumes inv: "pb_inv mtu num s" and r: "sys_recv s = Some (Some d)"
    and len: "int (length p) \<le> pb_input_mtu (sys_pb s)"
  shows "pb_inv mtu num (pb_receive s d p)"
proof -
  let ?c = "pb_buf (sys_pb s)"
  obtain ps where i: "cb_inv ?c ps" "sys_in s = sys_out s @ ps" "pb_input_mtu (sys_pb s) = mtu"
    "cb_mtu ?c = blocks_of mtu" "cb_size ?c = ChunkBuffer2_calc_blocks mtu num"
    "\<forall>p\<in>set (sys_in s). int (length p) \<le> mtu"
    "sys_recv s = (if mtu \<le> input_avail ?c then Some (input_dest ?c) else None)"
    "sys_send s = (if ps = [] then None else Some (output_dest ?c, output_avail ?c))"
    using inv by (auto simp: pb_inv_def Let_def)
  have d: "input_dest ?c = Some d" and room: "mtu \<le> input_avail ?c"
    using r i(7) by (auto split: if_splits)
  have w: "?c\<lparr>cb_mem := overwrite d p (cb_mem ?c)\<rparr> = write_input ?c p" by (simp add: write_input_def d)
  let ?c' = "ChunkBuffer2_SubmitPacket (write_input ?c p) (int (length p))"
  have new: "cb_inv ?c' (ps @ [p])" by (rule submit_inv [OF i(1)]) (use d room len i(3) in simp_all)
  have "sys_send s = Some (output_dest ?c', output_avail ?c')" if "ps \<noteq> []"
  proof -
    have "out_io ?c' = out_io ?c"
      using new i(1) that layout_out_io [of ?c' "ps @ [p]"] layout_out_io [of ?c ps]
      by (cases ps) (simp_all add: cb_inv_def)
    then show ?thesis using that i(1,8) new by (simp add: cb_inv_def io_current_iff)
  qed
  then show ?thesis
    unfolding pb_inv_def
    using i new d len inv_output_neg [OF i(1)]
    by (intro exI [of _ "ps @ [p]"])
      (auto simp: pb_receive_def pb_input_handler_done_def Let_def w)
qed

lemma pb_deliver_inv:
  assumes inv: "pb_inv mtu num s" and r: "sys_send s = Some (Some d, n)"
  shows "pb_inv mtu num (pb_deliver s d n)"
proof -
  let ?c = "pb_buf (sys_pb s)"
  obtain ps where i: "cb_inv ?c ps" "sys_in s = sys_out s @ ps" "pb_input_mtu (sys_pb s) = mtu"
    "cb_mtu ?c = blocks_of mtu" "cb_size ?c = ChunkBuffer2_calc_blocks mtu num"
    "\<forall>p\<in>set (sys_in s). int (length p) \<le> mtu"
    "sys_recv s = (if mtu \<le> input_avail ?c then Some (input_dest ?c) else None)"
    "sys_send s = (if ps = [] then None else Some (output_dest ?c, output_avail ?c))"
    using inv by (auto simp: pb_inv_def Let_def)
  have ne: "ps \<noteq> []" and out: "output_dest ?c = Some d" "output_avail ?c = n"
    using r i(8) by (auto split: if_splits)
  then obtain p qs where ps: "ps = p # qs" by (cases ps) auto
  have p: "segment d (nat n) (cb_mem ?c) = p" using inv_output(2) [OF i(1) ne] out ps by auto
  let ?c' = "ChunkBuffer2_ConsumePacket ?c"
  have new: "cb_inv ?c' qs" using consume_inv i(1) ps by blast
  have keep: "input_dest ?c' = input_dest ?c" "mtu \<le> input_avail ?c'" if "mtu \<le> input_avail ?c"
  proof -
    have "0 \<le> mtu" using i(6) i(2) ps by force
    then have "input_dest ?c \<noteq> None" using that no_input_no_room [OF i(1)] by auto
    then obtain d' where "input_dest ?c = Some d'" by blast
    then show "input_dest ?c' = input_dest ?c" "mtu \<le> input_avail ?c'"
      using consume_keeps_input [of ?c p qs d'] i(1) ps that by auto
  qed
  show ?thesis
    unfolding pb_inv_def
    using i new keep p ps inv_output_neg [OF new]
    by (intro exI [of _ qs])
      (auto simp: pb_deliver_def pb_output_handler_done_def Let_def not_less)
qed

lemma pb_step_inv: "pb_step s t \<Longrightarrow> pb_inv mtu num s \<Longrightarrow> pb_inv mtu num t"
  by (erule pb_stepE) (simp_all add: pb_receive_inv pb_deliver_inv)

lemma calc_blocks_pos:
  assumes "0 \<le> mtu" "mtu \<le> INT_MAX" "0 < num" "num \<le> INT_MAX" "0 \<le> ChunkBuffer2_calc_blocks mtu num"
  shows "blocks_of mtu + 1 \<le> ChunkBuffer2_calc_blocks mtu num"
proof -
  have "0 \<le> blocks_of mtu" using assms(1,2) by (simp add: blocks_of_eq)
  then have "(1 + blocks_of mtu) * 1 \<le> (1 + blocks_of mtu) * (num + 1)"
    using assms(3) by (intro mult_left_mono) simp_all
  then show ?thesis using assms(5) by (auto simp: ChunkBuffer2_calc_blocks_def Let_def split: if_splits)
qed

lemma pb_start_inv:
  assumes "PacketBuffer_Init alloc mtu num = Some r" "0 \<le> mtu" "mtu \<le> INT_MAX" "0 < num" "num \<le> INT_MAX"
    and alloc: "\<And>n mem. alloc n = Some mem \<Longrightarrow> int (length mem) = 4 * n \<and> 4 * n \<le> INT_MAX"
  shows "pb_inv mtu num (pb_start r)"
proof -
  let ?n = "ChunkBuffer2_calc_blocks mtu num"
  obtain mem where m: "0 \<le> ?n" "alloc ?n = Some mem"
    and r: "r = (\<lparr>pb_input_mtu = mtu, pb_buf = ChunkBuffer2_Init mem ?n mtu\<rparr>,
                  [Receiver_Recv (input_dest (ChunkBuffer2_Init mem ?n mtu))])"
    using assms(1) by (auto simp: PacketBuffer_Init_def Let_def split: if_splits option.splits)
  let ?c = "ChunkBuffer2_Init mem ?n mtu"
  have inv: "cb_inv ?c []"
    using init_inv [OF assms(2,3) calc_blocks_pos [OF assms(2-5) m(1)]] alloc [OF m(2)] by simp
  have f: "cb_mtu ?c = blocks_of mtu" "cb_size ?c = ?n" by (simp_all add: ChunkBuffer2_Init_def)
  have "mtu \<le> 4 * cb_mtu ?c" using assms(2,3) f by (simp add: blocks_of_eq)
  then have "mtu \<le> input_avail ?c" using empty_room [OF inv] by simp
  then show ?thesis using inv f by (simp add: pb_inv_def r pb_start_def exI [of _ "[]"])
qed

section \<open>Properties\<close>

text \<open>C29. A packet buffer between a source and a sink never loses, reorders or corrupts packets and
  never stalls. In every state reached from initialisation (an allocator that returns arrays of
  the requested size, up to 2 GiB), the packets received are the packets delivered followed by the
  packets held; a receive into the buffer is pending whenever fewer than \<open>num\<close> packets are held, a
  send is pending whenever some packet is held, so one of the two always is.\<close>

theorem packet_buffer_delivers:
  assumes "PacketBuffer_Init alloc mtu num = Some r" and "0 \<le> mtu" "mtu \<le> INT_MAX" "0 < num" "num \<le> INT_MAX"
    and "\<And>n mem. alloc n = Some mem \<Longrightarrow> int (length mem) = 4 * n \<and> 4 * n \<le> INT_MAX"
    and "pb_step\<^sup>*\<^sup>* (pb_start r) s"
  shows "\<exists>held. sys_in s = sys_out s @ held \<and>
    (int (length held) < num \<longrightarrow> (\<exists>d. sys_recv s = Some (Some d))) \<and>
    (held \<noteq> [] \<longrightarrow> (\<exists>d. sys_send s = Some (Some d, int (length (hd held))) \<and>
       segment d (length (hd held)) (cb_mem (pb_buf (sys_pb s))) = hd held))"
proof -
  have "pb_inv mtu num s"
    using assms(7)
  proof (induction rule: rtranclp_induct)
    case base
    show ?case by (rule pb_start_inv [OF assms(1-6)])
  qed (rule pb_step_inv)
  then obtain ps where i: "cb_inv (pb_buf (sys_pb s)) ps" "sys_in s = sys_out s @ ps"
    "cb_mtu (pb_buf (sys_pb s)) = blocks_of mtu"
    "cb_size (pb_buf (sys_pb s)) = ChunkBuffer2_calc_blocks mtu num"
    "\<forall>p\<in>set (sys_in s). int (length p) \<le> mtu"
    "sys_recv s = (if mtu \<le> input_avail (pb_buf (sys_pb s)) then Some (input_dest (pb_buf (sys_pb s))) else None)"
    "sys_send s = (if ps = [] then None else Some (output_dest (pb_buf (sys_pb s)), output_avail (pb_buf (sys_pb s))))"
    by (auto simp: pb_inv_def Let_def)
  have "\<exists>d. sys_recv s = Some (Some d)" if "int (length ps) < num"
  proof -
    have "mtu \<le> input_avail (pb_buf (sys_pb s))"
      by (rule room_for_mtu [OF i(1) assms(2,3) i(3), of num]) (use that i(2,4,5) assms(4,5) in auto)
    then show ?thesis using i(6) no_input_no_room [OF i(1)] assms(2) by fastforce
  qed
  moreover have "\<exists>d. sys_send s = Some (Some d, int (length (hd ps))) \<and>
      segment d (length (hd ps)) (cb_mem (pb_buf (sys_pb s))) = hd ps" if "ps \<noteq> []"
    using inv_output [OF i(1)] i(7) that by (cases ps) auto
  ultimately show ?thesis using i(2) by blast
qed

lemma packet_buffer_delivers_witness:
  "\<exists>r s. PacketBuffer_Init (\<lambda>n. if 0 \<le> n \<and> n < 100 then Some (replicate (nat (4 * n)) 0) else None) 8 2 = Some r \<and>
     pb_step\<^sup>*\<^sup>* (pb_start r) s \<and> sys_in s = [[7]] \<and> sys_out s = [] \<and>
     (\<exists>d. sys_recv s = Some (Some d))"
proof -
  let ?a = "\<lambda>n. if 0 \<le> n \<and> n < 100 then Some (replicate (nat (4 * n)) (0 :: byte)) else None"
  obtain r where r: "PacketBuffer_Init ?a 8 2 = Some r"
    and recv: "sys_recv (pb_start r) = Some (Some 4)" "pb_input_mtu (sys_pb (pb_start r)) = 8"
    "sys_in (pb_start r) = []" "sys_out (pb_start r) = []"
  proof -
    have "(case PacketBuffer_Init ?a 8 2 of None \<Rightarrow> False
        | Some r \<Rightarrow> sys_recv (pb_start r) = Some (Some 4) \<and> pb_input_mtu (sys_pb (pb_start r)) = 8 \<and>
            sys_in (pb_start r) = [] \<and> sys_out (pb_start r) = [])" by code_simp
    then show thesis using that by (auto split: option.splits)
  qed
  have calls: "sys_in (pb_calls cs t) = sys_in t \<and> sys_out (pb_calls cs t) = sys_out t" for cs t
    by (induction cs t rule: pb_calls.induct) simp_all
  let ?s = "pb_receive (pb_start r) 4 [7]"
  have step: "pb_step\<^sup>*\<^sup>* (pb_start r) ?s" using recv by (intro r_into_rtranclp receive) simp_all
  have io: "sys_in ?s = [[7]]" "sys_out ?s = []" using recv calls by (simp_all add: pb_receive_def Let_def)
  have "\<exists>held. sys_in ?s = sys_out ?s @ held \<and>
    (int (length held) < 2 \<longrightarrow> (\<exists>d. sys_recv ?s = Some (Some d))) \<and>
    (held \<noteq> [] \<longrightarrow> (\<exists>d. sys_send ?s = Some (Some d, int (length (hd held))) \<and>
       segment d (length (hd held)) (cb_mem (pb_buf (sys_pb ?s))) = hd held))"
    by (rule packet_buffer_delivers [OF r _ _ _ _ _ step]) (auto split: if_splits)
  then show ?thesis using r step io by auto
qed

end
