(* ===== verification/Packet_Stream.thy ===== *)
theory Packet_Stream
  imports Wire
begin

text \<open>
  Packets over a byte stream: the framing of \<open>protocol/packetproto.h\<close>, the encoder
  (\<open>flow/PacketProtoEncoder.c\<close>), the sender that feeds a packet to a stream in pieces
  (\<open>flow/PacketStreamSender.c\<close>) and the decoder that reassembles packets from the stream
  (\<open>flow/PacketProtoDecoder.c\<close>). Pointers into a buffer are byte offsets; a handler returns the new
  state and the calls it makes.
\<close>

section \<open>Framing\<close>

definition PACKETPROTO_ENCLEN :: "nat \<Rightarrow> nat" where "PACKETPROTO_ENCLEN len = 2 + len"
definition PACKETPROTO_MAXPAYLOAD :: nat where "PACKETPROTO_MAXPAYLOAD = 65535"

text \<open>The image of a packet on the stream.\<close>

definition pp_image :: "byte list \<Rightarrow> byte list" where
  "pp_image p = mem16 (htol16 (of_nat (length p))) @ p"

lemma length_pp_image [simp]: "length (pp_image p) = 2 + length p"
  by (simp add: pp_image_def)

lemma unat_len16: "n \<le> 65535 \<Longrightarrow> unat (of_nat n :: u16) = n"
  by (simp add: unat_of_nat take_bit_nat_eq_self_iff)

section \<open>Encoder\<close>

record pp_encoder =
  output_packet :: "nat option"

datatype enc_call = Enc_Recv nat | Enc_Done nat

definition enc_output_handler_recv :: "pp_encoder \<Rightarrow> nat \<Rightarrow> pp_encoder \<times> enc_call" where
  "enc_output_handler_recv enc data =
     (let enc = enc\<lparr>output_packet := Some data\<rparr> in (enc, Enc_Recv (data + 2)))"

text \<open>\<open>mem\<close> is the memory the output packet lies in; \<open>in_len\<close> is converted to \<open>uint16_t\<close>.\<close>

definition enc_input_handler_done ::
  "pp_encoder \<Rightarrow> byte list \<Rightarrow> nat \<Rightarrow> pp_encoder \<times> byte list \<times> enc_call" where
  "enc_input_handler_done enc mem in_len =
     (let mem = overwrite (the (output_packet enc)) (mem16 (htol16 (of_nat in_len))) mem
      in (enc\<lparr>output_packet := None\<rparr>, mem, Enc_Done (PACKETPROTO_ENCLEN in_len)))"

text \<open>One packet through the encoder: the source writes its payload where it was told to.\<close>

definition encode_one :: "pp_encoder \<Rightarrow> byte list \<Rightarrow> nat \<Rightarrow> byte list \<Rightarrow> pp_encoder \<times> byte list \<times> enc_call" where
  "encode_one enc mem data p =
     (case enc_output_handler_recv enc data of
        (enc, Enc_Recv at) \<Rightarrow> enc_input_handler_done enc (overwrite at p mem) (length p)
      | (enc, c) \<Rightarrow> (enc, mem, c))"

lemma encode_one_image:
  assumes "data + 2 + length p \<le> length mem" "encode_one enc mem data p = (enc', mem', c)"
  shows "c = Enc_Done (length (pp_image p)) \<and> segment data (length (pp_image p)) mem' = pp_image p \<and>
     output_packet enc' = None \<and> length mem' = length mem"
proof -
  let ?m = "overwrite (data + 2) p mem" and ?h = "mem16 (htol16 (of_nat (length p)))"
  have e: "c = Enc_Done (2 + length p)" "mem' = overwrite data ?h ?m" "enc' = enc\<lparr>output_packet := None\<rparr>"
    using assms(2)
    by (auto simp: encode_one_def enc_output_handler_recv_def enc_input_handler_done_def Let_def
        PACKETPROTO_ENCLEN_def)
  have l: "length ?m = length mem" using assms(1) by simp
  have "segment data 2 mem' = ?h"
    using segment_overwrite_same [of data ?h ?m] assms(1) l e by simp
  moreover have "segment (data + 2) (length p) mem' = segment (data + 2) (length p) ?m"
    unfolding e by (rule segment_overwrite_after) (use assms(1) l in simp_all)
  moreover have "segment (data + 2) (length p) ?m = p"
    by (rule segment_overwrite_same) (use assms(1) in simp)
  ultimately have "segment data (2 + length p) mem' = pp_image p"
    using segment_append [of data 2 mem' "length p"] by (simp only: pp_image_def)
  then show ?thesis using e l assms(1) by simp
qed

section \<open>Stream sender\<close>

text \<open>\<open>ss_in\<close> is the memory the pointer \<open>in\<close> points to, \<open>in_len\<close> is -1 without a packet.\<close>

record packet_stream_sender =
  ss_in :: "byte list"
  in_len :: int
  in_used :: int

datatype ss_call = Stream_Send "byte list" int | Pass_Done

definition ss_send_data :: "packet_stream_sender \<Rightarrow> packet_stream_sender \<times> ss_call" where
  "ss_send_data s =
     (if in_used s < in_len s
      then (s, Stream_Send (drop (nat (in_used s)) (ss_in s)) (in_len s - in_used s))
      else (s\<lparr>in_len := - 1\<rparr>, Pass_Done))"

definition ss_input_handler_send ::
  "packet_stream_sender \<Rightarrow> byte list \<Rightarrow> int \<Rightarrow> packet_stream_sender \<times> ss_call" where
  "ss_input_handler_send s data data_len =
     ss_send_data (s\<lparr>in_len := data_len, ss_in := data, in_used := 0\<rparr>)"

definition ss_output_handler_done :: "packet_stream_sender \<Rightarrow> int \<Rightarrow> packet_stream_sender \<times> ss_call" where
  "ss_output_handler_done s data_len = ss_send_data (s\<lparr>in_used := in_used s + data_len\<rparr>)"

text \<open>
  A stream that takes between one byte and all of what it is offered: \<open>ks\<close> are the amounts it
  takes (brought into that range). The result is the bytes it took and whether the packet was
  reported done.
\<close>

fun ss_pipe :: "packet_stream_sender \<times> ss_call \<Rightarrow> nat list \<Rightarrow> byte list \<times> bool" where
  "ss_pipe (s, Pass_Done) ks = ([], True)"
| "ss_pipe (s, Stream_Send d n) [] = ([], False)"
| "ss_pipe (s, Stream_Send d n) (k # ks) =
     (let m = min (max 1 k) (nat n);
          r = ss_pipe (ss_output_handler_done s (int m)) ks
      in (take m d @ fst r, snd r))"

lemma ss_pipe_from:
  assumes "0 \<le> in_used s" "in_used s \<le> in_len s" "in_len s = int (length (ss_in s))"
  shows "(\<exists>rest. fst (ss_pipe (ss_send_data s) ks) @ rest = drop (nat (in_used s)) (ss_in s) \<and>
            (snd (ss_pipe (ss_send_data s) ks) \<longleftrightarrow> rest = [])) \<and>
         (in_len s - in_used s \<le> int (length ks) \<longrightarrow> snd (ss_pipe (ss_send_data s) ks))"
  using assms
proof (induction ks arbitrary: s)
  case Nil
  then show ?case by (auto simp: ss_send_data_def)
next
  case (Cons k ks)
  show ?case
  proof (cases "in_used s < in_len s")
    case False
    then show ?thesis using Cons.prems by (simp add: ss_send_data_def)
  next
    case True
    let ?m = "min (max 1 k) (nat (in_len s - in_used s))"
    let ?s = "s\<lparr>in_used := in_used s + int ?m\<rparr>"
    have m: "1 \<le> ?m" "int ?m \<le> in_len s - in_used s" using True by auto
    have "0 \<le> in_used ?s" "in_used ?s \<le> in_len ?s" "in_len ?s = int (length (ss_in ?s))"
      using Cons.prems m(2) by simp_all
    note IH = Cons.IH [OF this]
    have eq: "ss_pipe (ss_send_data s) (k # ks) =
        (take ?m (drop (nat (in_used s)) (ss_in s)) @ fst (ss_pipe (ss_send_data ?s) ks),
         snd (ss_pipe (ss_send_data ?s) ks))"
      using True by (simp add: ss_send_data_def ss_output_handler_done_def Let_def)
    have "nat (in_used ?s) = ?m + nat (in_used s)" using Cons.prems(1) by simp
    then have d: "drop (nat (in_used ?s)) (ss_in ?s) = drop ?m (drop (nat (in_used s)) (ss_in s))"
      by simp
    from IH obtain rest where r: "fst (ss_pipe (ss_send_data ?s) ks) @ rest = drop (nat (in_used ?s)) (ss_in ?s)"
      "snd (ss_pipe (ss_send_data ?s) ks) \<longleftrightarrow> rest = []" by blast
    have "fst (ss_pipe (ss_send_data s) (k # ks)) @ rest = drop (nat (in_used s)) (ss_in s)"
      by (simp only: eq fst_conv append_assoc r(1) d append_take_drop_id)
    moreover have "snd (ss_pipe (ss_send_data s) (k # ks)) \<longleftrightarrow> rest = []" using r(2) eq by simp
    moreover have "in_len s - in_used s \<le> int (length (k # ks)) \<longrightarrow> snd (ss_pipe (ss_send_data s) (k # ks))"
      using IH eq m(1) by auto
    ultimately show ?thesis by blast
  qed
qed

section \<open>Decoder\<close>

record pp_decoder =
  output_mtu :: nat
  dec_buf :: "byte list"
  buf_start :: nat
  buf_used :: nat

text \<open>The C field \<open>buf_size\<close> is the length of the buffer.\<close>

definition buf_size :: "pp_decoder \<Rightarrow> nat" where "buf_size dec = length (dec_buf dec)"

datatype dec_call = Dec_Recv nat int | Dec_Send nat nat | Dec_Error

text \<open>The second half of \<open>process_data\<close>: make room, ask for more input, report an error.\<close>

definition dec_receive_more :: "pp_decoder \<Rightarrow> bool \<Rightarrow> pp_decoder \<times> dec_call list" where
  "dec_receive_more dec was_error =
     (let dec =
        (if was_error then dec\<lparr>buf_start := 0, buf_used := 0\<rparr>
         else if buf_start dec + buf_used dec = buf_size dec
         then dec\<lparr>dec_buf := overwrite 0 (segment (buf_start dec) (buf_used dec) (dec_buf dec)) (dec_buf dec),
                  buf_start := 0\<rparr>
         else dec)
      in (dec, Dec_Recv (buf_start dec + buf_used dec)
                 (int (buf_size dec) - int (buf_start dec + buf_used dec)) #
               (if was_error then [Dec_Error] else [])))"

definition process_data :: "pp_decoder \<Rightarrow> pp_decoder \<times> dec_call list" where
  "process_data dec =
     (let data = buf_start dec; left = buf_used dec in
      if left < 2 then dec_receive_more dec False
      else let data_len = unat (ltoh16 (ld16 data (dec_buf dec))); data = data + 2; left = left - 2 in
      if data_len > output_mtu dec then dec_receive_more dec True
      else if left < data_len then dec_receive_more dec False
      else (dec\<lparr>buf_start := buf_start dec + (2 + data_len), buf_used := buf_used dec - (2 + data_len)\<rparr>,
            [Dec_Send data data_len]))"

definition dec_input_handler_done :: "pp_decoder \<Rightarrow> nat \<Rightarrow> pp_decoder \<times> dec_call list" where
  "dec_input_handler_done dec data_len = process_data (dec\<lparr>buf_used := buf_used dec + data_len\<rparr>)"

definition dec_output_handler_done :: "pp_decoder \<Rightarrow> pp_decoder \<times> dec_call list" where
  "dec_output_handler_done dec = process_data dec"

definition PacketProtoDecoder_Init ::
  "(nat \<Rightarrow> byte list option) \<Rightarrow> nat \<Rightarrow> (pp_decoder \<times> dec_call list) option" where
  "PacketProtoDecoder_Init alloc mtu =
     (let m = min mtu PACKETPROTO_MAXPAYLOAD in
      case alloc (PACKETPROTO_ENCLEN m) of
        None \<Rightarrow> None
      | Some buf \<Rightarrow>
          let dec = \<lparr>output_mtu = m, dec_buf = buf, buf_start = 0, buf_used = 0\<rparr>
          in Some (dec, [Dec_Recv 0 (int (PACKETPROTO_ENCLEN m))]))"

definition PacketProtoDecoder_Reset :: "pp_decoder \<Rightarrow> pp_decoder" where
  "PacketProtoDecoder_Reset dec = dec\<lparr>buf_start := buf_start dec + buf_used dec, buf_used := 0\<rparr>"

subsection \<open>One run of \<open>process_data\<close>\<close>

definition dec_ok :: "pp_decoder \<Rightarrow> bool" where
  "dec_ok dec \<longleftrightarrow> buf_size dec = 2 + output_mtu dec \<and> buf_start dec + buf_used dec \<le> buf_size dec \<and>
     output_mtu dec \<le> 65535"

definition content :: "pp_decoder \<Rightarrow> byte list" where
  "content dec = segment (buf_start dec) (buf_used dec) (dec_buf dec)"

lemma length_content: "dec_ok dec \<Longrightarrow> length (content dec) = buf_used dec"
  by (simp add: dec_ok_def content_def length_segment buf_size_def)

lemma segment_segment: "i + n \<le> m \<Longrightarrow> segment i n (segment a m xs) = segment (a + i) n xs"
  by (simp add: segment_def drop_take min_def add.commute)

text \<open>Whether a complete packet is buffered.\<close>

definition incomplete :: "byte list \<Rightarrow> bool" where
  "incomplete bs \<longleftrightarrow> length bs < 2 \<or> length bs < 2 + unat (ld16 0 bs)"

lemma receive_more_ok:
  assumes ok: "dec_ok dec" and inc: "incomplete (content dec)"
    and le: "buf_used dec < 2 \<or> unat (ld16 0 (content dec)) \<le> output_mtu dec"
  obtains dec' l where "dec_receive_more dec False = (dec', [Dec_Recv (buf_start dec' + buf_used dec') l])"
    "dec_ok dec'" "content dec' = content dec" "0 < l" "output_mtu dec' = output_mtu dec"
    "l = int (buf_size dec') - int (buf_start dec' + buf_used dec')"
proof -
  have lt: "buf_used dec < buf_size dec"
    using inc le ok by (auto simp: incomplete_def length_content dec_ok_def)
  show thesis
  proof (cases "buf_start dec + buf_used dec = buf_size dec")
    case True
    let ?d = "dec\<lparr>dec_buf := overwrite 0 (content dec) (dec_buf dec), buf_start := 0\<rparr>"
    have len: "length (content dec) = buf_used dec" by (rule length_content [OF ok])
    have sz: "buf_size ?d = buf_size dec" using lt len by (simp add: buf_size_def)
    have "content ?d = content dec"
      using segment_overwrite_same [of 0 "content dec" "dec_buf dec"] len lt
      by (simp add: content_def [of ?d] buf_size_def)
    moreover have "dec_ok ?d" using ok lt sz by (simp add: dec_ok_def)
    ultimately show thesis
      using that [of ?d "int (buf_size dec) - int (buf_used dec)"] True lt sz
      by (simp add: dec_receive_more_def content_def Let_def)
  next
    case False
    then show thesis
      using that [of dec "int (buf_size dec) - int (buf_start dec + buf_used dec)"] ok
      by (simp add: dec_receive_more_def Let_def dec_ok_def)
  qed
qed

lemma ld16_content: "2 \<le> buf_used dec \<Longrightarrow> ld16 0 (content dec) = ld16 (buf_start dec) (dec_buf dec)"
  by (simp add: ld16_def content_def segment_segment)

lemma process_complete:
  assumes ok: "dec_ok dec" and c: "\<not> incomplete (content dec)"
    and le: "unat (ld16 0 (content dec)) \<le> output_mtu dec"
  defines "n \<equiv> unat (ld16 0 (content dec))"
  obtains dec' where "process_data dec = (dec', [Dec_Send (buf_start dec + 2) n])" "dec_ok dec'"
    "dec_buf dec' = dec_buf dec" "output_mtu dec' = output_mtu dec"
    "content dec = take 2 (content dec) @ segment (buf_start dec + 2) n (dec_buf dec) @ content dec'"
proof -
  have u: "2 + n \<le> buf_used dec" using c by (simp add: incomplete_def length_content [OF ok] n_def)
  let ?d = "dec\<lparr>buf_start := buf_start dec + (2 + n), buf_used := buf_used dec - (2 + n)\<rparr>"
  have n: "unat (ltoh16 (ld16 (buf_start dec) (dec_buf dec))) = n"
    using u ld16_content [of dec] by (simp add: n_def wire_simps)
  have "process_data dec = (?d, [Dec_Send (buf_start dec + 2) n])"
  proof -
    have "\<not> buf_used dec < 2" "\<not> n > output_mtu dec" "\<not> buf_used dec - 2 < n"
      using u le by (simp_all add: n_def)
    then show ?thesis unfolding process_data_def Let_def n by simp
  qed
  moreover have "dec_ok ?d"
  proof -
    obtain m where "buf_used dec = 2 + n + m" using u le_Suc_ex by blast
    then show ?thesis using ok by (simp add: dec_ok_def buf_size_def)
  qed
  moreover have "content dec = take 2 (content dec) @ segment (buf_start dec + 2) n (dec_buf dec) @ content ?d"
  proof -
    have "take 2 (content dec) = segment (buf_start dec) 2 (dec_buf dec)"
      using u by (simp add: content_def segment_def min_def)
    moreover have "content ?d = segment (buf_start dec + 2 + n) (buf_used dec - (2 + n)) (dec_buf dec)"
      by (simp add: content_def add.assoc)
    moreover have "2 + (n + (buf_used dec - (2 + n))) = buf_used dec" using u by simp
    ultimately show ?thesis
      by (simp only: segment_append content_def [of dec] segment_join_more [OF refl] segment_join [OF refl]) 
  qed
  ultimately show thesis using that [of ?d] by simp
qed

subsection \<open>The decoder on a stream\<close>

text \<open>
  The decoder between a byte stream, \<open>todo\<close> being the bytes not yet received, and a packet sink.
  A pending receive takes any positive number of bytes up to what was asked for; a pending send is
  completed by the sink, which sees the bytes in the buffer.
\<close>

record dec_system =
  sys_dec :: pp_decoder
  todo :: "byte list"
  pending :: "dec_call option"
  delivered :: "byte list list"
  errors :: nat

fun dec_calls :: "dec_call list \<Rightarrow> dec_system \<Rightarrow> dec_system" where
  "dec_calls [] s = s"
| "dec_calls (Dec_Error # cs) s = dec_calls cs (s\<lparr>errors := errors s + 1\<rparr>)"
| "dec_calls (c # cs) s = dec_calls cs (s\<lparr>pending := Some c\<rparr>)"

definition dec_start :: "pp_decoder \<times> dec_call list \<Rightarrow> byte list \<Rightarrow> dec_system" where
  "dec_start r bytes = dec_calls (snd r)
     \<lparr>sys_dec = fst r, todo = bytes, pending = None, delivered = [], errors = 0\<rparr>"

definition dec_take :: "dec_system \<Rightarrow> nat \<Rightarrow> nat \<Rightarrow> dec_system" where
  "dec_take s at k =
     (let dec = sys_dec s;
          r = dec_input_handler_done (dec\<lparr>dec_buf := overwrite at (take k (todo s)) (dec_buf dec)\<rparr>) k
      in dec_calls (snd r) (s\<lparr>todo := drop k (todo s), pending := None, sys_dec := fst r\<rparr>))"

definition dec_pass :: "dec_system \<Rightarrow> nat \<Rightarrow> nat \<Rightarrow> dec_system" where
  "dec_pass s at n =
     (let r = dec_output_handler_done (sys_dec s)
      in dec_calls (snd r) (s\<lparr>pending := None,
           delivered := delivered s @ [segment at n (dec_buf (sys_dec s))], sys_dec := fst r\<rparr>))"

inductive dec_step :: "dec_system \<Rightarrow> dec_system \<Rightarrow> bool" where
  take_input: "pending s = Some (Dec_Recv at l) \<Longrightarrow> 0 < k \<Longrightarrow> int k \<le> l \<Longrightarrow> k \<le> length (todo s) \<Longrightarrow>
     dec_step s (dec_take s at k)"
| pass_output: "pending s = Some (Dec_Send at n) \<Longrightarrow> dec_step s (dec_pass s at n)"

inductive_cases dec_stepE: "dec_step s t"

text \<open>The packets still to come, given what is pending; \<open>wait\<close> is the state between handlers.\<close>

definition stream_of :: "byte list list \<Rightarrow> byte list" where "stream_of ps = concat (map pp_image ps)"

definition small :: "nat \<Rightarrow> byte list list \<Rightarrow> bool" where
  "small mtu ps \<longleftrightarrow> mtu \<le> 65535 \<and> (\<forall>p\<in>set ps. length p \<le> mtu)"

definition dec_inv :: "byte list list \<Rightarrow> dec_system \<Rightarrow> bool" where
  "dec_inv ps s \<longleftrightarrow> dec_ok (sys_dec s) \<and> errors s = 0 \<and> small (output_mtu (sys_dec s)) ps \<and>
     (\<exists>rest. content (sys_dec s) @ todo s = stream_of rest \<and>
       ((\<exists>l. pending s = Some (Dec_Recv (buf_start (sys_dec s) + buf_used (sys_dec s)) l) \<and> 0 < l \<and>
            l = int (buf_size (sys_dec s)) - int (buf_start (sys_dec s) + buf_used (sys_dec s)) \<and>
            incomplete (content (sys_dec s)) \<and> ps = delivered s @ rest) \<or>
        (\<exists>at n. pending s = Some (Dec_Send at n) \<and>
            ps = delivered s @ segment at n (dec_buf (sys_dec s)) # rest)))"

lemma ld16_image: "length p \<le> 65535 \<Longrightarrow> unat (ld16 0 (pp_image p @ r)) = length p"
  by (simp add: pp_image_def wire_simps unat_len16)

lemma header_of_prefix: "2 \<le> length c \<Longrightarrow> ld16 0 (c @ r) = ld16 0 c"
  by (simp add: ld16_def segment_def)

lemma stream_head:
  assumes "small mtu ps" "c @ r = stream_of ps" "2 \<le> length c"
  obtains p qs where "ps = p # qs" "unat (ld16 0 c) = length p" "length p \<le> mtu"
proof (cases ps)
  case Nil
  then show thesis using assms by (simp add: stream_of_def)
next
  case (Cons p qs)
  then have "c @ r = pp_image p @ stream_of qs" using assms(2) by (simp add: stream_of_def)
  then have "unat (ld16 0 c) = length p"
    using header_of_prefix [OF assms(3), of r] ld16_image [of p "stream_of qs"] assms(1) Cons
    by (simp add: small_def)
  then show thesis using that Cons assms(1) by (simp add: small_def)
qed

lemma dec_inv_calls:
  assumes ok: "dec_ok (sys_dec s)" "errors s = 0" "small (output_mtu (sys_dec s)) (delivered s @ rest)"
    and str: "content (sys_dec s) @ todo s = stream_of rest"
    and r: "process_data (sys_dec s) = r"
  shows "dec_inv (delivered s @ rest) (dec_calls (snd r) (s\<lparr>sys_dec := fst r\<rparr>))"
proof -
  let ?d = "sys_dec s"
  have sm: "small (output_mtu ?d) rest" using ok(3) by (simp add: small_def)
  have le: "buf_used ?d < 2 \<or> unat (ld16 0 (content ?d)) \<le> output_mtu ?d"
    using stream_head [OF sm str] length_content [OF ok(1)] by (metis not_less)
  show ?thesis
  proof (cases "incomplete (content ?d)")
    case True
    obtain d' l where d': "dec_receive_more ?d False = (d', [Dec_Recv (buf_start d' + buf_used d') l])"
      "dec_ok d'" "content d' = content ?d" "0 < l" "output_mtu d' = output_mtu ?d"
      "l = int (buf_size d') - int (buf_start d' + buf_used d')"
      by (rule receive_more_ok [OF ok(1) True le])
    have "process_data ?d = dec_receive_more ?d False"
    proof (cases "buf_used ?d < 2")
      case False
      have "unat (ltoh16 (ld16 (buf_start ?d) (dec_buf ?d))) = unat (ld16 0 (content ?d))"
        using False ld16_content [of ?d] by (simp add: wire_simps)
      then show ?thesis
        using True False le by (auto simp: process_data_def incomplete_def length_content [OF ok(1)] Let_def)
    qed (simp add: process_data_def Let_def)
    then have "r = (d', [Dec_Recv (buf_start d' + buf_used d') l])" using r d'(1) by simp
    then show ?thesis using d' ok str True by (simp add: dec_inv_def)
  next
    case False
    let ?n = "unat (ld16 0 (content ?d))"
    have two: "2 \<le> length (content ?d)" using False by (simp add: incomplete_def)
    then have le': "?n \<le> output_mtu ?d" using le length_content [OF ok(1)] by simp
    obtain d' where d': "process_data ?d = (d', [Dec_Send (buf_start ?d + 2) ?n])" "dec_ok d'"
      "dec_buf d' = dec_buf ?d" "output_mtu d' = output_mtu ?d"
      "content ?d = take 2 (content ?d) @ segment (buf_start ?d + 2) ?n (dec_buf ?d) @ content d'"
      by (rule process_complete [OF ok(1) False le'])
    obtain q qs where q: "rest = q # qs" "?n = length q" by (rule stream_head [OF sm str two])
    let ?seg = "segment (buf_start ?d + 2) ?n (dec_buf ?d)"
    have len: "length ?seg = length q"
    proof -
      have "buf_start ?d + 2 + ?n \<le> length (dec_buf ?d)"
        using False ok(1) by (simp add: incomplete_def length_content [OF ok(1)] dec_ok_def buf_size_def)
      then show ?thesis using q(2) by (simp add: length_segment)
    qed
    have "take 2 (content ?d) @ ?seg @ content d' @ todo s = mem16 (htol16 (of_nat (length q))) @ q @ stream_of qs"
      using str d'(5) q(1) by (simp add: stream_of_def pp_image_def) (metis append_assoc)
    then have "?seg = q \<and> content d' @ todo s = stream_of qs"
      using two len by (simp add: append_eq_append_conv)
    then show ?thesis
      using d' ok q r by (auto simp: dec_inv_def)
  qed
qed

lemma content_received:
  assumes "dec_ok dec" "buf_start dec + buf_used dec + length bs \<le> buf_size dec"
  defines "dec' \<equiv> dec\<lparr>dec_buf := overwrite (buf_start dec + buf_used dec) bs (dec_buf dec),
                      buf_used := buf_used dec + length bs\<rparr>"
  shows "content dec' = content dec @ bs" and "dec_ok dec'" and "output_mtu dec' = output_mtu dec"
proof -
  let ?at = "buf_start dec + buf_used dec"
  have l: "?at + length bs \<le> length (dec_buf dec)" using assms(2) by (simp add: buf_size_def)
  have "segment (buf_start dec) (buf_used dec) (overwrite ?at bs (dec_buf dec)) = content dec"
    unfolding content_def by (rule segment_overwrite_before) (use l in simp_all)
  moreover have "segment ?at (length bs) (overwrite ?at bs (dec_buf dec)) = bs"
    by (rule segment_overwrite_same [OF l])
  ultimately show "content dec' = content dec @ bs"
    by (simp add: dec'_def content_def [of "dec\<lparr>dec_buf := _, buf_used := _\<rparr>"] segment_append [symmetric])
  show "dec_ok dec'" using assms(1,2) l by (simp add: dec'_def dec_ok_def buf_size_def)
  show "output_mtu dec' = output_mtu dec" by (simp add: dec'_def)
qed

lemma dec_take_inv:
  assumes inv: "dec_inv ps s" and p: "pending s = Some (Dec_Recv at l)"
    and k: "int k \<le> l" "k \<le> length (todo s)"
  shows "dec_inv ps (dec_take s at k)"
proof -
  let ?d = "sys_dec s" and ?bs = "take k (todo s)"
  obtain rest where i: "dec_ok ?d" "errors s = 0" "small (output_mtu ?d) ps"
    "content ?d @ todo s = stream_of rest" "at = buf_start ?d + buf_used ?d"
    "l = int (buf_size ?d) - int (buf_start ?d + buf_used ?d)" "ps = delivered s @ rest"
    using inv p by (auto simp: dec_inv_def)
  let ?d' = "?d\<lparr>dec_buf := overwrite at ?bs (dec_buf ?d), buf_used := buf_used ?d + k\<rparr>"
  have kk: "length ?bs = k" using k(2) by simp
  have room: "buf_start ?d + buf_used ?d + length ?bs \<le> buf_size ?d" using k(1) i(6) kk by linarith
  note c = content_received [OF i(1) room, unfolded kk, folded i(5)]
  let ?s = "s\<lparr>sys_dec := ?d', todo := drop k (todo s), pending := None\<rparr>"
  have "dec_inv (delivered ?s @ rest) (dec_calls (snd (process_data ?d')) (?s\<lparr>sys_dec := fst (process_data ?d')\<rparr>))"
    using dec_inv_calls [of ?s rest "process_data ?d'"] c i(2,3,4,7) by simp
  then show ?thesis using i(7) by (simp add: dec_take_def dec_input_handler_done_def Let_def)
qed

lemma dec_pass_inv:
  assumes inv: "dec_inv ps s" and p: "pending s = Some (Dec_Send at n)"
  shows "dec_inv ps (dec_pass s at n)"
proof -
  let ?q = "segment at n (dec_buf (sys_dec s))"
  obtain rest where i: "dec_ok (sys_dec s)" "errors s = 0" "small (output_mtu (sys_dec s)) ps"
    "content (sys_dec s) @ todo s = stream_of rest" "ps = delivered s @ ?q # rest"
    using inv p by (auto simp: dec_inv_def)
  let ?s = "s\<lparr>pending := None, delivered := delivered s @ [?q]\<rparr>"
  have "dec_inv (delivered ?s @ rest)
      (dec_calls (snd (process_data (sys_dec s))) (?s\<lparr>sys_dec := fst (process_data (sys_dec s))\<rparr>))"
    using dec_inv_calls [of ?s rest "process_data (sys_dec s)"] i by simp
  then show ?thesis using i(5) by (simp add: dec_pass_def dec_output_handler_done_def Let_def)
qed

lemma dec_step_inv: "dec_step s t \<Longrightarrow> dec_inv ps s \<Longrightarrow> dec_inv ps t"
  by (erule dec_stepE) (simp_all add: dec_take_inv dec_pass_inv)

lemma dec_start_inv:
  assumes "PacketProtoDecoder_Init alloc mtu = Some r" "small mtu ps"
    and "\<And>n buf. alloc n = Some buf \<Longrightarrow> length buf = n"
  shows "dec_inv ps (dec_start r (stream_of ps))"
proof -
  have m: "min mtu PACKETPROTO_MAXPAYLOAD = mtu"
    using assms(2) by (simp add: small_def PACKETPROTO_MAXPAYLOAD_def)
  obtain buf where b: "alloc (2 + mtu) = Some buf"
    "r = (\<lparr>output_mtu = mtu, dec_buf = buf, buf_start = 0, buf_used = 0\<rparr>, [Dec_Recv 0 (int (2 + mtu))])"
    using assms(1) m
    by (auto simp: PacketProtoDecoder_Init_def PACKETPROTO_ENCLEN_def Let_def split: option.splits)
  show ?thesis
    using assms(2) assms(3) [OF b(1)]
    by (auto simp: b(2) dec_start_def dec_inv_def dec_ok_def buf_size_def content_def segment_def
        incomplete_def small_def)
qed

text \<open>A stuck decoder has delivered everything.\<close>

lemma dec_inv_stuck:
  assumes "dec_inv ps s" "\<And>t. \<not> dec_step s t"
  shows "delivered s = ps"
proof -
  have ns: "\<nexists>at n. pending s = Some (Dec_Send at n)"
    using assms(2) pass_output by blast
  then obtain rest l where i: "content (sys_dec s) @ todo s = stream_of rest"
    "pending s = Some (Dec_Recv (buf_start (sys_dec s) + buf_used (sys_dec s)) l)" "0 < l"
    "incomplete (content (sys_dec s))" "ps = delivered s @ rest"
    "small (output_mtu (sys_dec s)) ps"
    using assms(1) by (auto simp: dec_inv_def)
  have "todo s = []"
  proof (rule ccontr)
    assume "todo s \<noteq> []"
    then have "1 \<le> length (todo s)" by (cases "todo s") auto
    then show False using take_input [OF i(2), of 1] assms(2) i(3) by simp
  qed
  then have c: "content (sys_dec s) = stream_of rest" using i(1) by simp
  have "rest = []"
  proof (rule ccontr)
    assume "rest \<noteq> []"
    then obtain q qs where q: "rest = q # qs" by (cases rest) auto
    then have "length q \<le> 65535" using i(5,6) by (auto simp: small_def)
    then show False
      using i(4) ld16_image [of q "stream_of qs"] by (simp add: c q stream_of_def incomplete_def)
  qed
  then show ?thesis using i(5) by simp
qed

section \<open>Properties\<close>

text \<open>C30. The decoder reassembles packets however the stream is cut into pieces: reading the images of
  any list of packets within the MTU, every reachable state has delivered a prefix of the list
  without an error, what it asks for next is a positive number of bytes within its buffer, and when
  nothing can happen any more all packets were delivered.\<close>

theorem decoder_reassembles:
  assumes "PacketProtoDecoder_Init alloc mtu = Some r" and "small mtu ps"
    and "\<And>n buf. alloc n = Some buf \<Longrightarrow> length buf = n"
    and "dec_step\<^sup>*\<^sup>* (dec_start r (stream_of ps)) s"
  shows "errors s = 0 \<and> (\<exists>rest. ps = delivered s @ rest) \<and>
    (\<forall>at l. pending s = Some (Dec_Recv at l) \<longrightarrow> 0 < l \<and> int at + l = int (buf_size (sys_dec s))) \<and>
    ((\<forall>t. \<not> dec_step s t) \<longrightarrow> delivered s = ps)"
proof -
  have inv: "dec_inv ps s"
    using assms(4)
  proof (induction rule: rtranclp_induct)
    case base
    show ?case by (rule dec_start_inv [OF assms(1-3)])
  qed (rule dec_step_inv)
  then have "errors s = 0" "\<exists>rest. ps = delivered s @ rest"
    "\<forall>at l. pending s = Some (Dec_Recv at l) \<longrightarrow> 0 < l \<and> int at + l = int (buf_size (sys_dec s))"
    by (auto simp: dec_inv_def)
  then show ?thesis using dec_inv_stuck [OF inv] by blast
qed

lemma decoder_reassembles_witness:
  "\<exists>r s. PacketProtoDecoder_Init (\<lambda>n. Some (replicate n 0)) 8 = Some r \<and>
     dec_step\<^sup>*\<^sup>* (dec_start r (stream_of [[1, 2], []])) s \<and> errors s = 0 \<and>
     (\<exists>rest. [[1, 2], []] = delivered s @ rest) \<and> todo s = [2, 0, 0]"
proof -
  let ?r = "(\<lparr>output_mtu = 8, dec_buf = 0 # 0 # replicate 8 0, buf_start = 0, buf_used = 0\<rparr>, [Dec_Recv 0 10])"
  have r: "PacketProtoDecoder_Init (\<lambda>n. Some (replicate n 0)) 8 = Some ?r"
    by (simp add: PacketProtoDecoder_Init_def PACKETPROTO_MAXPAYLOAD_def PACKETPROTO_ENCLEN_def)
  let ?s = "dec_start ?r (stream_of [[1, 2], []])"
  have f: "pending ?s = Some (Dec_Recv 0 10)" "length (todo ?s) = 6" "todo (dec_take ?s 0 3) = [2, 0, 0]"
    by code_simp+
  have step: "dec_step\<^sup>*\<^sup>* ?s (dec_take ?s 0 3)"
    using f by (intro r_into_rtranclp take_input [of _ _ 10]) simp_all
  have "errors (dec_take ?s 0 3) = 0 \<and> (\<exists>rest. [[1, 2], []] = delivered (dec_take ?s 0 3) @ rest)"
    using decoder_reassembles [OF r _ _ step] by (simp add: small_def)
  then show ?thesis using r step f(3) by blast
qed

text \<open>An announced length above the MTU discards the buffered bytes, asks for a full buffer of
  fresh input and reports the error, in that order, and reports it once.\<close>

theorem decoder_oversized:
  assumes "2 \<le> buf_used dec" "unat (ld16 (buf_start dec) (dec_buf dec)) > output_mtu dec"
  shows "process_data dec =
    (dec\<lparr>buf_start := 0, buf_used := 0\<rparr>, [Dec_Recv 0 (int (buf_size dec)), Dec_Error])"
  using assms by (simp add: process_data_def dec_receive_more_def Let_def wire_simps buf_size_def)

lemma decoder_oversized_witness:
  "snd (process_data \<lparr>output_mtu = 1, dec_buf = [9, 0, 5], buf_start = 0, buf_used = 3\<rparr>)
     = [Dec_Recv 0 3, Dec_Error]"
proof -
  let ?d = "\<lparr>output_mtu = 1, dec_buf = [9, 0, 5], buf_start = 0, buf_used = 3\<rparr>"
  have "unat (ld16 (buf_start ?d) (dec_buf ?d)) > output_mtu ?d" by code_simp
  then show ?thesis using decoder_oversized [of ?d] by (simp add: buf_size_def)
qed

text \<open>A packet through the encoder and the stream sender is put on the stream as its image, whatever
  pieces the stream takes: the bytes taken are a prefix of the 16-bit length and the payload, the
  packet is reported done exactly when all were taken, and as many steps as there are bytes suffice.\<close>

theorem packet_put_on_stream:
  assumes "data + 2 + length p \<le> length mem" and "encode_one enc mem data p = (enc', mem', Enc_Done n)"
    and "out = ss_pipe (ss_input_handler_send s (segment data n mem') (int n)) ks"
  shows "(\<exists>rest. fst out @ rest = pp_image p \<and> (snd out \<longleftrightarrow> rest = [])) \<and>
    (length (pp_image p) \<le> length ks \<longrightarrow> snd out)"
proof -
  have e: "n = length (pp_image p)" "segment data n mem' = pp_image p"
    using encode_one_image [OF assms(1,2)] by auto
  let ?s = "s\<lparr>in_len := int n, ss_in := pp_image p, in_used := 0\<rparr>"
  have o: "out = ss_pipe (ss_send_data ?s) ks" using assms(3) e by (simp add: ss_input_handler_send_def)
  show ?thesis using ss_pipe_from [of ?s ks] e(1) unfolding o by simp
qed

lemma packet_put_on_stream_witness:
  "ss_pipe (ss_input_handler_send \<lparr>ss_in = [], in_len = - 1, in_used = 0\<rparr>
      (segment 0 4 (fst (snd (encode_one \<lparr>output_packet = None\<rparr> [0,0,0,0] 0 [8,9])))) 4) [3, 9, 9, 9]
     = ([2,0,8,9], True) \<and>
   snd (ss_pipe (ss_input_handler_send \<lparr>ss_in = [], in_len = - 1, in_used = 0\<rparr>
      (segment 0 4 (fst (snd (encode_one \<lparr>output_packet = None\<rparr> [0,0,0,0] 0 [8,9])))) 4) [3, 9, 9, 9])"
proof
  let ?e = "encode_one \<lparr>output_packet = None\<rparr> [0,0,0,0] 0 [8,9]"
  have e: "?e = (fst ?e, fst (snd ?e), Enc_Done 4)" by code_simp
  have "snd (ss_pipe (ss_input_handler_send \<lparr>ss_in = [], in_len = - 1, in_used = 0\<rparr>
      (segment 0 4 (fst (snd ?e))) (int 4)) [3, 9, 9, 9])"
    by (rule packet_put_on_stream [OF _ e refl, THEN conjunct2, rule_format]) simp_all
  then show "snd (ss_pipe (ss_input_handler_send \<lparr>ss_in = [], in_len = - 1, in_used = 0\<rparr>
      (segment 0 4 (fst (snd ?e))) 4) [3, 9, 9, 9])"
    by (simp only: of_nat_numeral)
qed code_simp

end
