(* ===== verification/Fair_Queue.thy ===== *)
theory Fair_Queue
  imports Avl
begin

text \<open>
  The fair queue of \<open>flow/PacketPassFairQueue.c\<close>, which shares one packet sink (the udpgw
  connection) between flows. A flow is identified by a number that stands for its address; the tree
  of queued flows (\<open>structure/SAvl.h\<close>) is the list of its elements in order. A handler returns the
  new state and its calls: a send on the output, the completion of a flow's packet, a call of a
  flow's busy handler.
\<close>

section \<open>State\<close>

record fair_queue =
  fq_output_mtu :: int
  packet_weight :: int
  sending_flow :: "nat option"
  sending_len :: int
  previous_flow :: "nat option"
  queued_tree :: "nat list"
  flows_list :: "nat list"
  fq_freeing :: bool
  schedule_job :: bool
  flow_time :: "nat \<Rightarrow> u64"
  is_queued :: "nat \<Rightarrow> bool"
  queued_packet :: "nat \<Rightarrow> byte list \<times> int"
  handler_busy :: "nat \<Rightarrow> bool"

datatype fq_call = FQ_Send "byte list" int | FQ_Done nat | FQ_Busy nat

definition FAIRQUEUE_MAX_TIME :: u64 where "FAIRQUEUE_MAX_TIME = - 1"

text \<open>The order of the tree: by time, then by address.\<close>

definition compare_flows :: "u64 \<times> nat \<Rightarrow> u64 \<times> nat \<Rightarrow> int" where
  "compare_flows f1 f2 =
     (let cmp = B_COMPARE (fst f1) (fst f2) in
      if cmp \<noteq> 0 then cmp else B_COMPARE (snd f1) (snd f2))"

definition flow_key :: "fair_queue \<Rightarrow> nat \<Rightarrow> u64 \<times> nat" where
  "flow_key m f = (flow_time m f, f)"

fun tree_insert :: "fair_queue \<Rightarrow> nat \<Rightarrow> nat list \<Rightarrow> nat list" where
  "tree_insert m f [] = [f]"
| "tree_insert m f (g # gs) =
     (let comp = compare_flows (flow_key m f) (flow_key m g) in
      if comp = 0 then g # gs else if comp = - 1 then f # g # gs else g # tree_insert m f gs)"

definition tree_first :: "fair_queue \<Rightarrow> nat option" where
  "tree_first m = (case queued_tree m of [] \<Rightarrow> None | f # _ \<Rightarrow> Some f)"

section \<open>Operations\<close>

definition get_current_time :: "fair_queue \<Rightarrow> u64" where
  "get_current_time m =
     (case sending_flow m of
        Some f \<Rightarrow> flow_time m f
      | None \<Rightarrow>
          let th = (case tree_first m of Some f \<Rightarrow> (flow_time m f, True) | None \<Rightarrow> (0, False));
              th = (case previous_flow m of
                      Some p \<Rightarrow> if \<not> snd th \<or> flow_time m p < fst th then (flow_time m p, True) else th
                    | None \<Rightarrow> th)
          in if snd th then fst th else 0)"

definition subtract_time :: "fair_queue \<Rightarrow> nat \<Rightarrow> u64 \<Rightarrow> nat \<Rightarrow> u64" where
  "subtract_time m flow s f =
     (if f \<in> set (flows_list m) then
        (if s > flow_time m f \<and> f \<noteq> flow then 0 else flow_time m f - s)
      else flow_time m f)"

definition increment_sent_flow :: "fair_queue \<Rightarrow> nat \<Rightarrow> u64 \<Rightarrow> fair_queue" where
  "increment_sent_flow m flow amount =
     (let m = (if amount > FAIRQUEUE_MAX_TIME - flow_time m flow
               then (let s = (case tree_first m of None \<Rightarrow> flow_time m flow | Some f \<Rightarrow> flow_time m f)
                     in m\<lparr>flow_time := subtract_time m flow s\<rparr>)
               else m)
      in m\<lparr>flow_time := (flow_time m)(flow := flow_time m flow + amount)\<rparr>)"

definition fq_schedule :: "fair_queue \<Rightarrow> fair_queue \<times> fq_call list" where
  "fq_schedule m =
     (case queued_tree m of
        [] \<Rightarrow> (m, [])
      | q # rest \<Rightarrow>
          (m\<lparr>queued_tree := rest, is_queued := (is_queued m)(q := False),
             sending_flow := Some q, sending_len := snd (queued_packet m q)\<rparr>,
           [FQ_Send (fst (queued_packet m q)) (snd (queued_packet m q))]))"

definition schedule_job_handler :: "fair_queue \<Rightarrow> fair_queue \<times> fq_call list" where
  "schedule_job_handler m =
     (let m = m\<lparr>schedule_job := False, previous_flow := None\<rparr>
      in if queued_tree m \<noteq> [] then fq_schedule m else (m, []))"

text \<open>Setting the time of a flow that sends, and queueing it.\<close>

definition fq_raise_time :: "fair_queue \<Rightarrow> nat \<Rightarrow> fair_queue" where
  "fq_raise_time m flow =
     (if previous_flow m = Some flow then m\<lparr>previous_flow := None\<rparr>
      else m\<lparr>flow_time := (flow_time m)(flow := max (flow_time m flow) (get_current_time m))\<rparr>)"

definition fq_enqueue :: "fair_queue \<Rightarrow> nat \<Rightarrow> byte list \<Rightarrow> int \<Rightarrow> fair_queue" where
  "fq_enqueue m flow data data_len =
     m\<lparr>queued_packet := (queued_packet m)(flow := (data, data_len)),
       queued_tree := tree_insert m flow (queued_tree m),
       is_queued := (is_queued m)(flow := True)\<rparr>"

definition fq_input_handler_send ::
  "fair_queue \<Rightarrow> nat \<Rightarrow> byte list \<Rightarrow> int \<Rightarrow> fair_queue \<times> fq_call list" where
  "fq_input_handler_send m flow data data_len =
     (let m = fq_raise_time m flow;
          m = fq_enqueue m flow data data_len
      in if sending_flow m = None \<and> \<not> schedule_job m then fq_schedule m else (m, []))"

definition fq_output_handler_done :: "fair_queue \<Rightarrow> fair_queue \<times> fq_call list" where
  "fq_output_handler_done m =
     (case sending_flow m of
        None \<Rightarrow> (m, [])
      | Some flow \<Rightarrow>
          let m = m\<lparr>sending_flow := None, previous_flow := Some flow\<rparr>;
              m = increment_sent_flow m flow
                    (word_of_int (packet_weight m) + word_of_int (sending_len m));
              m = m\<lparr>schedule_job := True\<rparr>;
              calls = [FQ_Done flow]
          in if handler_busy m flow
             then (m\<lparr>handler_busy := (handler_busy m)(flow := False)\<rparr>, calls @ [FQ_Busy flow])
             else (m, calls))"

definition PacketPassFairQueue_Init :: "int \<Rightarrow> int \<Rightarrow> fair_queue option" where
  "PacketPassFairQueue_Init mtu weight =
     (if word_of_int mtu \<le> FAIRQUEUE_MAX_TIME \<and>
         word_of_int weight \<le> FAIRQUEUE_MAX_TIME - word_of_int mtu
      then Some \<lparr>fq_output_mtu = mtu, packet_weight = weight, sending_flow = None, sending_len = 0,
                 previous_flow = None, queued_tree = [], flows_list = [], fq_freeing = False,
                 schedule_job = False, flow_time = (\<lambda>_. 0), is_queued = (\<lambda>_. False),
                 queued_packet = (\<lambda>_. ([], 0)), handler_busy = (\<lambda>_. False)\<rparr>
      else None)"

definition PacketPassFairQueue_PrepareFree :: "fair_queue \<Rightarrow> fair_queue" where
  "PacketPassFairQueue_PrepareFree m = m\<lparr>fq_freeing := True\<rparr>"

definition PacketPassFairQueueFlow_Init :: "fair_queue \<Rightarrow> nat \<Rightarrow> fair_queue" where
  "PacketPassFairQueueFlow_Init m flow =
     m\<lparr>handler_busy := (handler_busy m)(flow := False), flow_time := (flow_time m)(flow := 0),
       flows_list := flows_list m @ [flow], is_queued := (is_queued m)(flow := False)\<rparr>"

definition PacketPassFairQueueFlow_Free :: "fair_queue \<Rightarrow> nat \<Rightarrow> fair_queue" where
  "PacketPassFairQueueFlow_Free m flow =
     (let m = (if sending_flow m = Some flow then m\<lparr>sending_flow := None\<rparr> else m);
          m = (if previous_flow m = Some flow then m\<lparr>previous_flow := None\<rparr> else m);
          m = (if is_queued m flow then m\<lparr>queued_tree := remove1 flow (queued_tree m)\<rparr> else m)
      in m\<lparr>flows_list := remove1 flow (flows_list m)\<rparr>)"

definition PacketPassFairQueueFlow_IsBusy :: "fair_queue \<Rightarrow> nat \<Rightarrow> bool" where
  "PacketPassFairQueueFlow_IsBusy m flow \<longleftrightarrow> sending_flow m = Some flow"

definition PacketPassFairQueueFlow_SetBusyHandler :: "fair_queue \<Rightarrow> nat \<Rightarrow> fair_queue" where
  "PacketPassFairQueueFlow_SetBusyHandler m flow = m\<lparr>handler_busy := (handler_busy m)(flow := True)\<rparr>"

section \<open>The order of the tree\<close>

text \<open>The flow order satisfies the contract of a tree comparator.\<close>

interpretation flow_order: comparator compare_flows
proof -
  have eq: "compare_flows = (\<lambda>x y. let r = B_COMPARE (fst x) (fst y) in
      if r \<noteq> 0 then r else B_COMPARE (snd x) (snd y))"
    by (simp add: fun_eq_iff compare_flows_def)
  show "comparator compare_flows"
    unfolding eq by (rule comparator_lex [OF comparator_B_COMPARE comparator_B_COMPARE, of fst snd])
qed

definition flow_less :: "fair_queue \<Rightarrow> nat \<Rightarrow> nat \<Rightarrow> bool" where
  "flow_less m f g \<longleftrightarrow> compare_flows (flow_key m f) (flow_key m g) = - 1"

lemma flow_less_iff: "flow_less m f g \<longleftrightarrow> flow_time m f < flow_time m g \<or> flow_time m f = flow_time m g \<and> f < g"
  by (auto simp: flow_less_def flow_key_def compare_flows_def B_COMPARE_if Let_def)

lemma flow_less_le: "flow_less m f g \<Longrightarrow> flow_time m f \<le> flow_time m g"
  by (auto simp: flow_less_iff)

lemma tree_insert_set [simp]:
  "f \<notin> set gs \<Longrightarrow> set (tree_insert m f gs) = insert f (set gs)"
  by (induction gs) (auto simp: compare_flows_def flow_key_def B_COMPARE_if Let_def split: if_splits)

lemma tree_insert_sorted:
  "f \<notin> set gs \<Longrightarrow> sorted_wrt (flow_less m) gs \<Longrightarrow> sorted_wrt (flow_less m) (tree_insert m f gs)"
proof (induction gs)
  case (Cons g gs)
  have nz: "compare_flows (flow_key m f) (flow_key m g) \<noteq> 0"
    using Cons.prems(1) by (auto simp: compare_flows_def flow_key_def B_COMPARE_if Let_def split: if_splits)
  then consider "flow_less m f g" | "flow_less m g f" "\<not> flow_less m f g"
    using flow_order.cmp_range [of "flow_key m f" "flow_key m g"]
      flow_order.cmp_swap [of "flow_key m g" "flow_key m f"] by (fastforce simp: flow_less_def)
  then show ?case
  proof cases
    case 1
    then have "\<forall>x\<in>set gs. flow_less m f x"
      using Cons.prems(2) flow_order.cmp_less_trans by (auto simp: flow_less_def)
    then show ?thesis using 1 Cons.prems by (simp add: flow_less_def)
  next
    case 2
    then have "tree_insert m f (g # gs) = g # tree_insert m f gs"
      using nz by (simp add: flow_less_def Let_def)
    then show ?thesis using Cons 2 by auto
  qed
qed simp

lemma tree_insert_distinct: "f \<notin> set gs \<Longrightarrow> distinct gs \<Longrightarrow> distinct (tree_insert m f gs)"
  by (induction gs) (auto simp: Let_def)

section \<open>Virtual time\<close>

text \<open>
  The step at the end of a send. As long as no queued flow is behind the flow that was sent, the
  64-bit times after it are the mathematical times shifted down by one common amount; only flows
  that are not queued may be clamped at zero.
\<close>

lemma max_time_minus: "unat (FAIRQUEUE_MAX_TIME - t) = 2 ^ 64 - 1 - unat t"
  by (simp add: FAIRQUEUE_MAX_TIME_def unat_sub unat_minus_1)

lemma increment_fields [simp]:
  "queued_tree (increment_sent_flow m f a) = queued_tree m" "flows_list (increment_sent_flow m f a) = flows_list m"
  "sending_flow (increment_sent_flow m f a) = sending_flow m" "previous_flow (increment_sent_flow m f a) = previous_flow m"
  "schedule_job (increment_sent_flow m f a) = schedule_job m" "is_queued (increment_sent_flow m f a) = is_queued m"
  "queued_packet (increment_sent_flow m f a) = queued_packet m" "handler_busy (increment_sent_flow m f a) = handler_busy m"
  "packet_weight (increment_sent_flow m f a) = packet_weight m" "fq_output_mtu (increment_sent_flow m f a) = fq_output_mtu m"
  "fq_freeing (increment_sent_flow m f a) = fq_freeing m" "sending_len (increment_sent_flow m f a) = sending_len m"
  by (simp_all add: increment_sent_flow_def Let_def)

lemma unat_time_wrap:
  fixes t s a :: u64
  assumes "t \<le> s" "unat t + unat a \<ge> 2 ^ 64"
  shows "unat (t - s + a) + unat s = unat t + unat a"
proof -
  have st: "unat t \<le> unat s" using assms(1) by (simp add: word_le_nat_alt)
  have b: "unat s < 2 ^ 64" "unat a < 2 ^ 64" using unat_lt [of s] unat_lt [of a] by simp_all
  have "unat (t - s + a) = unat (a - (s - t))" by (rule arg_cong [of _ _ unat]) simp
  moreover have d: "unat (s - t) = unat s - unat t" using assms(1) by (simp add: unat_sub)
  moreover have "s - t \<le> a" using d b assms(2) by (simp add: word_le_nat_alt)
  ultimately have "unat (t - s + a) = unat a - (unat s - unat t)" by (simp only: unat_sub)
  then show ?thesis using st b assms(2) by linarith
qed

lemma increment_exact:
  assumes "\<forall>f\<in>set (queued_tree m). flow_time m flow \<le> flow_time m f"
    and "sorted_wrt (flow_less m) (queued_tree m)" "flow \<notin> set (queued_tree m)"
    and "insert flow (set (queued_tree m)) \<subseteq> set (flows_list m)"
  obtains s where
    "\<forall>f\<in>set (queued_tree m). unat (flow_time (increment_sent_flow m flow a) f) + s = unat (flow_time m f)"
    "unat (flow_time (increment_sent_flow m flow a) flow) + s = unat (flow_time m flow) + unat a"
    "\<forall>f. f \<notin> insert flow (set (queued_tree m)) \<and> f \<in> set (flows_list m) \<longrightarrow>
       unat (flow_time (increment_sent_flow m flow a) f) = unat (flow_time m f) - s"
proof (cases "a > FAIRQUEUE_MAX_TIME - flow_time m flow")
  case False
  then have "unat a \<le> 2 ^ 64 - 1 - unat (flow_time m flow)"
    by (simp add: word_less_nat_alt max_time_minus)
  then have "unat (flow_time m flow + a) = unat (flow_time m flow) + unat a"
    using unat_lt [of "flow_time m flow"] by (simp add: unat_word_ariths)
  then show thesis using that [of 0] False assms(3) by (auto simp: increment_sent_flow_def)
next
  case True
  then have big: "unat (flow_time m flow) + unat a \<ge> 2 ^ 64"
    using unat_lt [of "flow_time m flow"] by (simp add: word_less_nat_alt max_time_minus)
  define s where "s = (case tree_first m of None \<Rightarrow> flow_time m flow | Some f \<Rightarrow> flow_time m f)"
  have new: "flow_time (increment_sent_flow m flow a) =
      (subtract_time m flow s)(flow := subtract_time m flow s flow + a)"
    using True by (simp add: increment_sent_flow_def s_def Let_def)
  have le: "\<forall>f\<in>set (queued_tree m). s \<le> flow_time m f" and ge: "flow_time m flow \<le> s"
    using assms(1,2) by (auto simp: s_def tree_first_def flow_less_le split: list.splits)
  have sub: "unat (x - s) + unat s = unat x" if "s \<le> x" for x :: u64
    using that by (simp add: unat_sub word_le_nat_alt)
  have "\<forall>f\<in>set (queued_tree m). unat (flow_time (increment_sent_flow m flow a) f) + unat s = unat (flow_time m f)"
    using le assms(3,4) sub by (auto simp: new subtract_time_def)
  moreover have "unat (flow_time (increment_sent_flow m flow a) flow) + unat s = unat (flow_time m flow) + unat a"
    using unat_time_wrap [OF ge big] assms(4) by (simp add: new subtract_time_def)
  moreover have "unat (if s > flow_time m f then 0 else flow_time m f - s) = unat (flow_time m f) - unat s" for f
    by (simp add: unat_sub word_less_nat_alt word_le_nat_alt not_less)
  ultimately show thesis using that [of "unat s"] by (auto simp: new subtract_time_def)
qed

section \<open>The queue as a whole\<close>

text \<open>The calls the users of the queue make, each under its documented precondition.\<close>

definition sendable :: "fair_queue \<Rightarrow> nat \<Rightarrow> int \<Rightarrow> bool" where
  "sendable m f n \<longleftrightarrow> f \<in> set (flows_list m) \<and> \<not> is_queued m f \<and> sending_flow m \<noteq> Some f \<and>
     0 \<le> n \<and> n \<le> fq_output_mtu m"

inductive fq_step :: "fair_queue \<Rightarrow> fair_queue \<Rightarrow> bool" where
  init_flow: "f \<notin> set (flows_list m) \<Longrightarrow> fq_step m (PacketPassFairQueueFlow_Init m f)"
| send: "sendable m f n \<Longrightarrow> fq_step m (fst (fq_input_handler_send m f d n))"
| done_send: "sending_flow m = Some f \<Longrightarrow> fq_step m (fst (fq_output_handler_done m))"
| job: "schedule_job m \<Longrightarrow> fq_step m (fst (schedule_job_handler m))"
| set_busy: "sending_flow m = Some f \<Longrightarrow> fq_step m (PacketPassFairQueueFlow_SetBusyHandler m f)"
| free_flow: "f \<in> set (flows_list m) \<Longrightarrow> sending_flow m \<noteq> Some f \<Longrightarrow>
    fq_step m (PacketPassFairQueueFlow_Free m f)"

definition tree_ok :: "fair_queue \<Rightarrow> bool" where
  "tree_ok m \<longleftrightarrow> distinct (flows_list m) \<and> distinct (queued_tree m) \<and>
     set (queued_tree m) \<subseteq> set (flows_list m) \<and> sorted_wrt (flow_less m) (queued_tree m) \<and>
     (\<forall>f\<in>set (flows_list m). is_queued m f \<longleftrightarrow> f \<in> set (queued_tree m)) \<and>
     (\<forall>f\<in>set (queued_tree m). 0 \<le> snd (queued_packet m f) \<and> snd (queued_packet m f) \<le> fq_output_mtu m)"

definition phase_ok :: "fair_queue \<Rightarrow> bool" where
  "phase_ok m \<longleftrightarrow>
     (\<forall>s. sending_flow m = Some s \<longrightarrow> s \<in> set (flows_list m) \<and> s \<notin> set (queued_tree m) \<and>
        \<not> schedule_job m \<and> previous_flow m = None \<and> 0 \<le> sending_len m \<and> sending_len m \<le> fq_output_mtu m \<and>
        (\<forall>f\<in>set (queued_tree m). flow_time m s \<le> flow_time m f)) \<and>
     (\<forall>p. previous_flow m = Some p \<longrightarrow> p \<in> set (flows_list m) \<and> p \<notin> set (queued_tree m) \<and> schedule_job m) \<and>
     (queued_tree m \<noteq> [] \<and> sending_flow m = None \<longrightarrow> schedule_job m)"

definition fq_inv :: "fair_queue \<Rightarrow> bool" where
  "fq_inv m \<longleftrightarrow> tree_ok m \<and> phase_ok m"

lemma flow_less_cong:
  assumes "\<forall>f\<in>set gs. unat (flow_time m' f) + s = unat (flow_time m f)" "sorted_wrt (flow_less m) gs"
  shows "sorted_wrt (flow_less m') gs"
proof (rule sorted_wrt_mono_rel [OF _ assms(2)])
  fix f g assume fg: "f \<in> set gs" "g \<in> set gs" "flow_less m f g"
  have "unat (flow_time m' f) + s = unat (flow_time m f)" "unat (flow_time m' g) + s = unat (flow_time m g)"
    using assms(1) fg by auto
  then show "flow_less m' f g"
    using fg(3) unfolding flow_less_iff word_less_nat_alt word_unat_eq_iff by linarith
qed

lemma schedule_inv:
  assumes "tree_ok m" "queued_tree m \<noteq> []" "\<not> schedule_job m" "previous_flow m = None"
  shows "fq_inv (fst (fq_schedule m))"
proof -
  obtain q rest where q: "queued_tree m = q # rest" using assms(2) by (cases "queued_tree m") auto
  have "sorted_wrt (flow_less m) (q # rest)" using assms(1) q by (simp add: tree_ok_def)
  then have le: "\<forall>f\<in>set rest. flow_time m q \<le> flow_time m f" by (auto simp: flow_less_le)
  let ?m = "fst (fq_schedule m)"
  have "flow_less ?m = flow_less m" by (simp add: fun_eq_iff flow_less_iff fq_schedule_def q)
  then have "tree_ok ?m" using assms(1) by (auto simp: tree_ok_def fq_schedule_def q)
  moreover have "phase_ok ?m"
    using assms le by (auto simp: phase_ok_def tree_ok_def fq_schedule_def q)
  ultimately show ?thesis by (simp add: fq_inv_def)
qed

lemma job_inv:
  assumes "fq_inv m" "schedule_job m"
  shows "fq_inv (fst (schedule_job_handler m))"
proof -
  let ?m = "m\<lparr>schedule_job := False, previous_flow := None\<rparr>"
  have "flow_less ?m = flow_less m" by (simp add: fun_eq_iff flow_less_iff)
  then have t: "tree_ok ?m" using assms(1) by (simp add: fq_inv_def tree_ok_def)
  show ?thesis
  proof (cases "queued_tree m = []")
    case True
    then show ?thesis using t assms by (auto simp: schedule_job_handler_def fq_inv_def phase_ok_def)
  next
    case False
    then show ?thesis using schedule_inv [OF t] by (simp add: schedule_job_handler_def)
  qed
qed

lemma current_time_sending: "sending_flow m = Some s \<Longrightarrow> get_current_time m = flow_time m s"
  by (simp add: get_current_time_def)

lemma send_inv:
  assumes inv: "fq_inv m" and s: "sendable m f n"
  shows "fq_inv (fst (fq_input_handler_send m f d n))"
proof -
  define m1 where "m1 = fq_raise_time m f"
  define m2 where "m2 = fq_enqueue m1 f d n"
  note m1_eq = m1_def [unfolded fq_raise_time_def] and m2_eq = m2_def [unfolded fq_enqueue_def]
  have h: "fst (fq_input_handler_send m f d n) =
      (if sending_flow m2 = None \<and> \<not> schedule_job m2 then fst (fq_schedule m2) else m2)"
    by (simp add: fq_input_handler_send_def Let_def m1_def m2_def)
  have t: "tree_ok m" and p: "phase_ok m" using inv by (auto simp: fq_inv_def)
  have fresh: "f \<notin> set (queued_tree m)" "f \<in> set (flows_list m)" using s t by (auto simp: sendable_def tree_ok_def)
  have m1: "queued_tree m1 = queued_tree m" "flows_list m1 = flows_list m" "is_queued m1 = is_queued m"
    "queued_packet m1 = queued_packet m" "sending_flow m1 = sending_flow m" "schedule_job m1 = schedule_job m"
    "fq_output_mtu m1 = fq_output_mtu m" "sending_len m1 = sending_len m"
    by (simp_all add: m1_eq)
  have time1: "g \<noteq> f \<Longrightarrow> flow_time m1 g = flow_time m g" for g by (simp add: m1_eq)
  have less1: "sorted_wrt (flow_less m1) (queued_tree m)"
  proof (rule sorted_wrt_mono_rel)
    show "sorted_wrt (flow_less m) (queued_tree m)" using t by (simp add: tree_ok_def)
    fix x y assume "x \<in> set (queued_tree m)" "y \<in> set (queued_tree m)" "flow_less m x y"
    then show "flow_less m1 x y"
      using time1 [of x] time1 [of y] fresh(1) by (cases "x = f"; cases "y = f") (simp_all add: flow_less_iff)
  qed
  have less2: "flow_less m2 = flow_less m1" by (simp add: m2_eq fun_eq_iff flow_less_iff)
  have t2: "tree_ok m2"
    using t s fresh tree_insert_sorted [OF fresh(1) less1] tree_insert_distinct [of f "queued_tree m" m1]
    unfolding tree_ok_def less2 by (auto simp: m2_eq m1 sendable_def)
  have sm: "sending_flow m2 = sending_flow m" "schedule_job m2 = schedule_job m" by (simp_all add: m2_eq m1)
  have prev: "previous_flow m2 = (if previous_flow m = Some f then None else previous_flow m)"
    by (simp add: m2_eq m1_eq)
  show ?thesis
  proof (cases "sending_flow m = None \<and> \<not> schedule_job m")
    case True
    then have "previous_flow m2 = None" using p prev by (auto simp: phase_ok_def)
    then have "fq_inv (fst (fq_schedule m2))"
      using True t2 fresh by (intro schedule_inv) (auto simp: m2_eq m1 dest: arg_cong [of _ _ set])
    then show ?thesis using True by (simp add: h m2_eq m1)
  next
    case False
    have "flow_time m2 g \<ge> flow_time m2 x" if "sending_flow m = Some x" "g = f \<or> g \<in> set (queued_tree m)" for x g
    proof -
      have "x \<noteq> f" "previous_flow m \<noteq> Some f" using that s p by (auto simp: sendable_def phase_ok_def)
      then show ?thesis
        using that p by (auto simp: m2_eq m1_eq current_time_sending phase_ok_def)
    qed
    then have "phase_ok m2"
      using p False s fresh prev unfolding phase_ok_def
      by (auto simp: m2_eq m1 sendable_def)
    then show ?thesis
      using False t2 sm by (simp only: h if_False fq_inv_def)
  qed
qed

lemma sorted_wrt_remove1: "sorted_wrt P xs \<Longrightarrow> sorted_wrt P (remove1 f xs)"
  by (induction xs) (auto dest: set_remove1_subset [THEN subsetD])

lemma done_times:
  fixes a :: u64
  assumes inv: "fq_inv m" and sf: "sending_flow m = Some f"
  defines "m1 \<equiv> increment_sent_flow (m\<lparr>sending_flow := None, previous_flow := Some f\<rparr>) f a"
  obtains s where "\<forall>g\<in>set (queued_tree m). unat (flow_time m1 g) + s = unat (flow_time m g)"
    "unat (flow_time m1 f) + s = unat (flow_time m f) + unat a"
    "\<forall>g. g \<notin> insert f (set (queued_tree m)) \<and> g \<in> set (flows_list m) \<longrightarrow>
       unat (flow_time m1 g) = unat (flow_time m g) - s"
proof -
  let ?m0 = "m\<lparr>sending_flow := None, previous_flow := Some f\<rparr>"
  have t: "tree_ok m" and p: "phase_ok m" using inv by (auto simp: fq_inv_def)
  have less: "flow_less ?m0 = flow_less m" by (simp add: fun_eq_iff flow_less_iff)
  show thesis
  proof (rule increment_exact [of ?m0 f a])
    show "\<forall>g\<in>set (queued_tree ?m0). flow_time ?m0 f \<le> flow_time ?m0 g"
      using p sf by (auto simp: phase_ok_def)
    show "sorted_wrt (flow_less ?m0) (queued_tree ?m0)" using t by (simp add: less tree_ok_def)
    show "f \<notin> set (queued_tree ?m0)" using p sf by (auto simp: phase_ok_def)
    show "insert f (set (queued_tree ?m0)) \<subseteq> set (flows_list ?m0)"
      using t p sf by (auto simp: phase_ok_def tree_ok_def)
  qed (use that in \<open>simp_all add: m1_def\<close>)
qed

lemma done_inv:
  assumes inv: "fq_inv m" and sf: "sending_flow m = Some f"
  shows "fq_inv (fst (fq_output_handler_done m))"
proof -
  let ?a = "word_of_int (packet_weight m) + word_of_int (sending_len m)"
  let ?m0 = "m\<lparr>sending_flow := None, previous_flow := Some f\<rparr>"
  let ?m1 = "increment_sent_flow ?m0 f ?a"
  have t: "tree_ok m" and p: "phase_ok m" using inv by (auto simp: fq_inv_def)
  have f: "f \<in> set (flows_list m)" "f \<notin> set (queued_tree m)" using p sf by (auto simp: phase_ok_def)
  obtain s where s: "\<forall>g\<in>set (queued_tree m). unat (flow_time ?m1 g) + s = unat (flow_time m g)"
    by (rule done_times [OF inv sf])
  have srt: "sorted_wrt (flow_less ?m1) (queued_tree m)"
    using flow_less_cong [OF s] t by (simp add: tree_ok_def)
  have eq: "fst (fq_output_handler_done m) =
      ?m1\<lparr>schedule_job := True, handler_busy := (handler_busy m)(f := False)\<rparr>"
    using sf by (simp add: fq_output_handler_done_def Let_def fun_upd_idem)
  have "flow_less (?m1\<lparr>schedule_job := True, handler_busy := (handler_busy m)(f := False)\<rparr>) = flow_less ?m1"
    by (simp add: fun_eq_iff flow_less_iff)
  then have "tree_ok (fst (fq_output_handler_done m))"
    using t srt unfolding eq by (simp add: tree_ok_def)
  moreover have "phase_ok (fst (fq_output_handler_done m))"
    using f unfolding eq by (simp add: phase_ok_def)
  ultimately show ?thesis by (simp add: fq_inv_def)
qed

lemma flow_init_inv:
  assumes inv: "fq_inv m" and f: "f \<notin> set (flows_list m)"
  shows "fq_inv (PacketPassFairQueueFlow_Init m f)"
proof -
  let ?m = "PacketPassFairQueueFlow_Init m f"
  have t: "tree_ok m" and p: "phase_ok m" using inv by (auto simp: fq_inv_def)
  have nt: "g \<in> set (queued_tree m) \<Longrightarrow> flow_time ?m g = flow_time m g" for g
    using t f by (auto simp: tree_ok_def PacketPassFairQueueFlow_Init_def)
  then have "sorted_wrt (flow_less ?m) (queued_tree m)"
    using flow_less_cong [of "queued_tree m" ?m 0 m] t by (simp add: tree_ok_def)
  then have "tree_ok ?m" using t f by (auto simp: tree_ok_def PacketPassFairQueueFlow_Init_def)
  moreover have "phase_ok ?m"
    using p f nt t by (auto simp: phase_ok_def tree_ok_def PacketPassFairQueueFlow_Init_def)
  ultimately show ?thesis by (simp add: fq_inv_def)
qed

lemma flow_free_inv:
  assumes inv: "fq_inv m" and f: "f \<in> set (flows_list m)" "sending_flow m \<noteq> Some f"
  shows "fq_inv (PacketPassFairQueueFlow_Free m f)"
proof -
  let ?m = "PacketPassFairQueueFlow_Free m f"
  have t: "tree_ok m" and p: "phase_ok m" using inv by (auto simp: fq_inv_def)
  have tr: "queued_tree ?m = remove1 f (queued_tree m)"
    using t f by (auto simp: PacketPassFairQueueFlow_Free_def tree_ok_def Let_def remove1_idem)
  have fl: "flows_list ?m = remove1 f (flows_list m)" "flow_time ?m = flow_time m"
    "sending_flow ?m = sending_flow m" "is_queued ?m = is_queued m" "queued_packet ?m = queued_packet m"
    "fq_output_mtu ?m = fq_output_mtu m" "schedule_job ?m = schedule_job m" "sending_len ?m = sending_len m"
    "previous_flow ?m = (if previous_flow m = Some f then None else previous_flow m)"
    using f(2) by (simp_all add: PacketPassFairQueueFlow_Free_def Let_def)
  have "flow_less ?m = flow_less m" by (simp add: fun_eq_iff flow_less_iff fl)
  then have "tree_ok ?m"
    using t by (auto simp: tree_ok_def tr fl sorted_wrt_remove1 dest: set_remove1_subset [THEN subsetD])
  moreover have "phase_ok ?m"
    using p f t by (auto simp: phase_ok_def tree_ok_def tr fl in_set_remove1 dest: set_remove1_subset [THEN subsetD])
  ultimately show ?thesis by (simp add: fq_inv_def)
qed

lemma busy_inv: "fq_inv m \<Longrightarrow> fq_inv (PacketPassFairQueueFlow_SetBusyHandler m f)"
proof -
  have "flow_less (PacketPassFairQueueFlow_SetBusyHandler m f) = flow_less m"
    by (simp add: fun_eq_iff flow_less_iff PacketPassFairQueueFlow_SetBusyHandler_def)
  then show "fq_inv m \<Longrightarrow> ?thesis"
    by (simp add: fq_inv_def tree_ok_def phase_ok_def) (simp add: PacketPassFairQueueFlow_SetBusyHandler_def)
qed

lemma fq_step_inv: "fq_step m m' \<Longrightarrow> fq_inv m \<Longrightarrow> fq_inv m'"
  by (induction rule: fq_step.induct)
    (simp_all add: flow_init_inv send_inv done_inv job_inv busy_inv flow_free_inv)

text \<open>What was agreed at initialisation stays.\<close>

lemma schedule_const [simp]:
  "packet_weight (fst (fq_schedule m)) = packet_weight m" "fq_output_mtu (fst (fq_schedule m)) = fq_output_mtu m"
  by (simp_all add: fq_schedule_def split: list.splits)

lemma fq_step_const:
  "fq_step m m' \<Longrightarrow> packet_weight m' = packet_weight m \<and> fq_output_mtu m' = fq_output_mtu m"
  by (induction rule: fq_step.induct)
    (auto simp: PacketPassFairQueueFlow_Init_def fq_input_handler_send_def fq_enqueue_def fq_raise_time_def
      fq_output_handler_done_def schedule_job_handler_def PacketPassFairQueueFlow_SetBusyHandler_def
      PacketPassFairQueueFlow_Free_def Let_def split: option.splits)

lemma fq_init_inv: "PacketPassFairQueue_Init mtu w = Some m \<Longrightarrow> fq_inv m \<and> packet_weight m = w \<and> fq_output_mtu m = mtu"
  by (auto simp: PacketPassFairQueue_Init_def fq_inv_def tree_ok_def phase_ok_def split: if_splits)

lemma reachable_inv:
  assumes "PacketPassFairQueue_Init mtu w = Some m0" "fq_step\<^sup>*\<^sup>* m0 m"
  shows "fq_inv m \<and> packet_weight m = w \<and> fq_output_mtu m = mtu"
  using assms(2)
proof (induction rule: rtranclp_induct)
  case base
  show ?case by (rule fq_init_inv [OF assms(1)])
next
  case (step y z)
  then show ?case using fq_step_inv fq_step_const by metis
qed

section \<open>Properties\<close>

text \<open>C32. The fair queue is work-conserving and serves the flow that is furthest behind: in every state
  reached through its interface, when some flow has a packet queued then a packet is being sent or
  the schedule job is pending; the flow being sent is not behind any queued flow in time; and the job
  starts sending the packet of the queued flow that is first by time and address.\<close>

theorem fair_queue_serves_first:
  assumes "PacketPassFairQueue_Init mtu w = Some m0" and "fq_step\<^sup>*\<^sup>* m0 m"
  shows "(\<forall>f\<in>set (flows_list m). is_queued m f \<longrightarrow> sending_flow m \<noteq> None \<or> schedule_job m) \<and>
    (\<forall>s f. sending_flow m = Some s \<and> f \<in> set (flows_list m) \<and> is_queued m f \<longrightarrow>
       flow_time m s \<le> flow_time m f) \<and>
    (schedule_job m \<and> (\<exists>f\<in>set (flows_list m). is_queued m f) \<longrightarrow>
       (\<exists>q\<in>set (flows_list m). is_queued m q \<and> sending_flow (fst (schedule_job_handler m)) = Some q \<and>
          snd (schedule_job_handler m) = [FQ_Send (fst (queued_packet m q)) (snd (queued_packet m q))] \<and>
          (\<forall>g\<in>set (flows_list m). is_queued m g \<longrightarrow> g = q \<or>
             flow_time m q < flow_time m g \<or> flow_time m q = flow_time m g \<and> q < g)))"
proof -
  have t: "tree_ok m" and p: "phase_ok m" using reachable_inv [OF assms] by (auto simp: fq_inv_def)
  have q: "\<forall>f\<in>set (flows_list m). is_queued m f \<longleftrightarrow> f \<in> set (queued_tree m)" using t by (simp add: tree_ok_def)
  have "\<exists>q\<in>set (flows_list m). is_queued m q \<and> sending_flow (fst (schedule_job_handler m)) = Some q \<and>
      snd (schedule_job_handler m) = [FQ_Send (fst (queued_packet m q)) (snd (queued_packet m q))] \<and>
      (\<forall>g\<in>set (flows_list m). is_queued m g \<longrightarrow> g = q \<or>
         flow_time m q < flow_time m g \<or> flow_time m q = flow_time m g \<and> q < g)"
    if "queued_tree m = q # rest" for q rest
    using t that q by (intro bexI [of _ q])
      (auto simp: tree_ok_def schedule_job_handler_def fq_schedule_def flow_less_iff)
  then show ?thesis
    using q p by (cases "queued_tree m") (auto simp: phase_ok_def)
qed

lemma fair_queue_serves_first_witness:
  "\<exists>m0 m. PacketPassFairQueue_Init 100 1 = Some m0 \<and> fq_step\<^sup>*\<^sup>* m0 m \<and> flows_list m = [5] \<and>
     (\<forall>f\<in>set (flows_list m). is_queued m f \<longrightarrow> sending_flow m \<noteq> None \<or> schedule_job m)"
proof -
  obtain m0 where i: "PacketPassFairQueue_Init 100 1 = Some m0" "flows_list m0 = []"
    by (simp add: PacketPassFairQueue_Init_def FAIRQUEUE_MAX_TIME_def word_le_nat_alt unat_minus_1 unat_sub)
  let ?m = "PacketPassFairQueueFlow_Init m0 5"
  have s: "fq_step\<^sup>*\<^sup>* m0 ?m" using i(2) by (intro r_into_rtranclp init_flow) simp
  have "flows_list ?m = [5]" using i(2) by (simp add: PacketPassFairQueueFlow_Init_def)
  then show ?thesis using fair_queue_serves_first [OF i(1) s] i(1) s by blast
qed

text \<open>C31. The virtual time survives the overflow of its 64-bit counters: when a packet has been sent,
  the flow is charged its length plus the packet weight and all times are shifted down by one common
  amount, exactly for the flow and for every queued flow (so no order between them changes), and
  down to at least zero for the idle flows.\<close>

theorem fair_queue_time_exact:
  assumes "PacketPassFairQueue_Init mtu w = Some m0" and "fq_step\<^sup>*\<^sup>* m0 m" and "sending_flow m = Some f"
    and "0 < w" "w \<le> INT_MAX" "0 \<le> mtu" "mtu \<le> INT_MAX"
  defines "m' \<equiv> fst (fq_output_handler_done m)"
  shows "\<exists>s. unat (flow_time m' f) + s = unat (flow_time m f) + nat (w + sending_len m) \<and>
    (\<forall>g\<in>set (flows_list m). is_queued m g \<longrightarrow> unat (flow_time m' g) + s = unat (flow_time m g)) \<and>
    (\<forall>g\<in>set (flows_list m). g \<noteq> f \<and> \<not> is_queued m g \<longrightarrow>
       unat (flow_time m' g) = unat (flow_time m g) - s)"
proof -
  let ?a = "word_of_int (packet_weight m) + word_of_int (sending_len m) :: u64"
  let ?m0 = "m\<lparr>sending_flow := None, previous_flow := Some f\<rparr>"
  have t: "tree_ok m" and p: "phase_ok m" and c: "packet_weight m = w" "fq_output_mtu m = mtu"
    using reachable_inv [OF assms(1,2)] by (auto simp: fq_inv_def)
  have len: "0 \<le> sending_len m" "sending_len m \<le> mtu" and f: "f \<in> set (flows_list m)" "f \<notin> set (queued_tree m)"
    using p assms(3) c by (auto simp: phase_ok_def)
  have "unat (word_of_int x :: u64) = nat x" if "0 \<le> x" "x \<le> INT_MAX" for x
    using that take_bit_int_eq_self [of x 64] by (simp add: unat_eq_nat_uint uint_word_of_int_eq)
  then have a: "unat ?a = nat (w + sending_len m)"
    using assms(4-7) len c by (simp add: unat_word_ariths nat_add_distrib)
  obtain s where s:
    "\<forall>g\<in>set (queued_tree m). unat (flow_time (increment_sent_flow ?m0 f ?a) g) + s = unat (flow_time m g)"
    "unat (flow_time (increment_sent_flow ?m0 f ?a) f) + s = unat (flow_time m f) + unat ?a"
    "\<forall>g. g \<notin> insert f (set (queued_tree m)) \<and> g \<in> set (flows_list m) \<longrightarrow>
       unat (flow_time (increment_sent_flow ?m0 f ?a) g) = unat (flow_time m g) - s"
    using reachable_inv [OF assms(1,2)] by (blast intro: done_times [OF _ assms(3)])
  have "flow_time m' = flow_time (increment_sent_flow ?m0 f ?a)"
    using assms(3) by (simp add: m'_def fq_output_handler_done_def Let_def)
  then show ?thesis using s a t by (intro exI [of _ s]) (auto simp: tree_ok_def)
qed

lemma fair_queue_time_exact_witness:
  "\<exists>m0 m. PacketPassFairQueue_Init 100 1 = Some m0 \<and> fq_step\<^sup>*\<^sup>* m0 m \<and> sending_flow m = Some 5 \<and>
     (\<exists>s. unat (flow_time (fst (fq_output_handler_done m)) 5) + s = unat (flow_time m 5) + 4)"
proof -
  define m0 where "m0 = the (PacketPassFairQueue_Init 100 1)"
  have i: "PacketPassFairQueue_Init 100 1 = Some m0" and e: "flows_list m0 = []" "fq_output_mtu m0 = 100"
      "sending_flow m0 = None" "schedule_job m0 = False" "queued_tree m0 = []" "previous_flow m0 = None"
    by (simp_all add: m0_def PacketPassFairQueue_Init_def FAIRQUEUE_MAX_TIME_def word_le_nat_alt
        unat_minus_1 unat_sub)
  let ?m1 = "PacketPassFairQueueFlow_Init m0 5"
  let ?m = "fst (fq_input_handler_send ?m1 5 [1, 2, 3] 3)"
  have "fq_step m0 ?m1" using e by (intro init_flow) simp
  moreover have "fq_step ?m1 ?m"
    using e by (intro send) (simp add: sendable_def PacketPassFairQueueFlow_Init_def)
  ultimately have s: "fq_step\<^sup>*\<^sup>* m0 ?m" by (meson r_into_rtranclp rtranclp.rtrancl_into_rtrancl)
  have m: "sending_flow ?m = Some 5" "sending_len ?m = 3"
    using e by (simp_all add: fq_input_handler_send_def fq_raise_time_def fq_enqueue_def fq_schedule_def
        PacketPassFairQueueFlow_Init_def Let_def)
  show ?thesis
    using fair_queue_time_exact [OF i s m(1)] m i s by fastforce
qed

end
