(* ===== verification/Parse_Number.thy ===== *)
theory Parse_Number
  imports Wire
begin

text \<open>
  Numbers and IPv4 addresses as text: \<open>misc/parse_number.h\<close> and \<open>misc/ipaddr.h\<close>. A string is its
  list of characters, so a pointer with a length is a list; \<open>uintmax_t\<close> is a 64-bit word, as the
  code asserts. The \<open>b_cstring\<close> variants, which walk chained chunks, are not modelled.
\<close>

section \<open>Digits\<close>

abbreviation chr_nat :: "char \<Rightarrow> nat" where "chr_nat c \<equiv> of_char c"

definition decode_decimal_digit :: "char \<Rightarrow> int" where
  "decode_decimal_digit c = (if c \<in> set ''0123456789'' then int (chr_nat c - 48) else - 1)"

definition decode_hex_digit :: "char \<Rightarrow> int" where
  "decode_hex_digit c =
     (if c \<in> set ''0123456789'' then int (chr_nat c - 48)
      else if c \<in> set ''ABCDEF'' then int (chr_nat c - 55)
      else if c \<in> set ''abcdef'' then int (chr_nat c - 87)
      else - 1)"

text \<open>
  The sign of \<open>memcmp\<close>. The code compares sequences of one length; here a proper prefix comes first.
\<close>

fun memcmp :: "byte list \<Rightarrow> byte list \<Rightarrow> int" where
  "memcmp [] [] = 0"
| "memcmp [] (y # ys) = - 1"
| "memcmp (x # xs) [] = 1"
| "memcmp (x # xs) (y # ys) = (if x = y then memcmp xs ys else if x < y then - 1 else 1)"

definition chr_byte :: "char \<Rightarrow> byte" where "chr_byte c = of_nat (chr_nat c)"

section \<open>Parsing\<close>

fun parse_no_overflow :: "string \<Rightarrow> u64 \<Rightarrow> u64 option" where
  "parse_no_overflow [] n = Some n"
| "parse_no_overflow (c # cs) n =
     (if chr_nat c < 48 \<or> chr_nat c > 57 then None
      else parse_no_overflow cs (10 * n + of_nat (chr_nat c - 48)))"

definition uintmax_max_str :: string where "uintmax_max_str = ''18446744073709551615''"

definition parse_unsigned_integer_bin :: "string \<Rightarrow> u64 option" where
  "parse_unsigned_integer_bin str =
     (if str = [] then None
      else let str = dropWhile (\<lambda>c. c = CHR ''0'') str in
      if length str > length uintmax_max_str \<or>
         length str = length uintmax_max_str \<and>
           memcmp (map chr_byte str) (map chr_byte uintmax_max_str) > 0
      then None
      else parse_no_overflow str 0)"

fun parse_hex_from :: "string \<Rightarrow> u64 \<Rightarrow> u64 option" where
  "parse_hex_from [] n = Some n"
| "parse_hex_from (c # cs) n =
     (let digit = decode_hex_digit c in
      if digit < 0 then None
      else if n > (- 1) div 16 then None
      else let n = n * 16 in
      if word_of_int digit > - 1 - n then None
      else parse_hex_from cs (n + word_of_int digit))"

definition parse_unsigned_hex_integer_bin :: "string \<Rightarrow> u64 option" where
  "parse_unsigned_hex_integer_bin str = (if str = [] then None else parse_hex_from str 0)"

definition parse_signmag_integer_bin :: "string \<Rightarrow> (int \<times> u64) option" where
  "parse_signmag_integer_bin str =
     (let (sign, str) =
        (if str \<noteq> [] \<and> (hd str = CHR ''+'' \<or> hd str = CHR ''-'')
         then (1 - 2 * of_bool (hd str = CHR ''-''), tl str) else (1, str))
      in case parse_unsigned_integer_bin str of None \<Rightarrow> None | Some mag \<Rightarrow> Some (sign, mag))"

section \<open>Printing\<close>

lemma div_10_less: "x div 10 > 0 \<Longrightarrow> unat (x div 10) < unat (x :: u64)"
proof -
  assume "x div 10 > 0"
  then have "0 < unat x div 10" by (simp add: word_less_nat_alt unat_div)
  then have "0 < unat x" by (cases "unat x = 0") auto
  then have "unat x div 10 < unat x" by simp
  then show ?thesis by (simp add: unat_div)
qed

function compute_decimal_repr_size :: "u64 \<Rightarrow> nat" where
  "compute_decimal_repr_size x =
     (let x = x div 10 in if x > 0 then 1 + compute_decimal_repr_size x else 1)"
  by pat_completeness auto
termination by (relation "measure unat") (auto intro: div_10_less)

text \<open>The loop of \<open>generate_decimal_repr\<close>: digits are stored downwards in front of those written.\<close>

function generate_decimal_repr :: "u64 \<Rightarrow> string \<Rightarrow> string" where
  "generate_decimal_repr x out =
     (let out = char_of (48 + unat (x mod 10)) # out; x = x div 10
      in if x > 0 then generate_decimal_repr x out else out)"
  by pat_completeness auto
termination by (relation "measure (unat \<circ> fst)") (auto intro: div_10_less)

declare compute_decimal_repr_size.simps [simp del] generate_decimal_repr.simps [simp del]

definition generate_decimal_repr_string :: "u64 \<Rightarrow> string" where
  "generate_decimal_repr_string x = generate_decimal_repr x []"

section \<open>What a digit string denotes\<close>

definition is_digit :: "char \<Rightarrow> bool" where "is_digit c \<longleftrightarrow> 48 \<le> chr_nat c \<and> chr_nat c \<le> 57"

definition digit_val :: "char \<Rightarrow> nat" where "digit_val c = chr_nat c - 48"

fun val_from :: "string \<Rightarrow> nat \<Rightarrow> nat" where
  "val_from [] n = n"
| "val_from (c # cs) n = val_from cs (10 * n + digit_val c)"

abbreviation decimal_val :: "string \<Rightarrow> nat" where "decimal_val s \<equiv> val_from s 0"

lemma val_from_shift: "val_from s n = n * 10 ^ length s + decimal_val s"
proof (induction s arbitrary: n)
  case (Cons c cs)
  have "val_from (c # cs) n = (10 * n + digit_val c) * 10 ^ length cs + decimal_val cs"
    using Cons.IH [of "10 * n + digit_val c"] by simp
  moreover have "decimal_val (c # cs) = digit_val c * 10 ^ length cs + decimal_val cs"
    using Cons.IH [of "digit_val c"] by simp
  ultimately show ?case by (simp add: algebra_simps)
qed simp

lemma decimal_val_Cons: "decimal_val (c # cs) = digit_val c * 10 ^ length cs + decimal_val cs"
  using val_from_shift [of cs "digit_val c"] by simp

lemma digit_val_le: "is_digit c \<Longrightarrow> digit_val c \<le> 9"
  unfolding is_digit_def digit_val_def by linarith

lemma decimal_val_less: "\<forall>c\<in>set s. is_digit c \<Longrightarrow> decimal_val s < 10 ^ length s"
proof (induction s)
  case (Cons c cs)
  then have "digit_val c \<le> 9" "decimal_val cs < 10 ^ length cs" using digit_val_le by auto
  then have "digit_val c * 10 ^ length cs + decimal_val cs < 9 * 10 ^ length cs + 10 ^ length cs"
    by (intro add_le_less_mono mult_right_mono) simp_all
  then show ?case unfolding decimal_val_Cons by simp
qed simp

lemma no_overflow_exact:
  "parse_no_overflow s n = (if \<forall>c\<in>set s. is_digit c then Some (of_nat (val_from s (unat n))) else None)"
proof (induction s arbitrary: n)
  case Nil
  then show ?case by simp
next
  case (Cons c cs)
  show ?case
  proof (cases "is_digit c")
    case True
    have shift: "(of_nat (val_from cs a) :: u64) = of_nat (val_from cs b)"
      if "(of_nat a :: u64) = of_nat b" for a b
      using that by (simp add: val_from_shift [of cs a] val_from_shift [of cs b])
    have "(of_nat (unat (10 * n + of_nat (digit_val c) :: u64)) :: u64) = of_nat (10 * unat n + digit_val c)"
      by simp
    note shift [OF this]
    then show ?thesis using Cons.IH True by (auto simp: is_digit_def digit_val_def)
  qed (auto simp: is_digit_def)
qed

lemma chr_byte_less: "chr_byte c < chr_byte d \<longleftrightarrow> chr_nat c < chr_nat d"
  and chr_byte_eq: "chr_byte c = chr_byte d \<longleftrightarrow> c = d"
proof -
  have u: "unat (chr_byte c) = chr_nat c" for c
  proof -
    have "chr_nat c mod 256 < 256" by simp
    then have "chr_nat c < 256" by (simp only: of_char_mod_256)
    then show ?thesis by (simp add: chr_byte_def unat_of_nat take_bit_nat_eq_self_iff)
  qed
  show "chr_byte c < chr_byte d \<longleftrightarrow> chr_nat c < chr_nat d" by (simp add: word_less_nat_alt u)
  show "chr_byte c = chr_byte d \<longleftrightarrow> c = d" by (simp add: word_unat_eq_iff u)
qed

text \<open>On digit strings of one length, \<open>memcmp\<close> orders by value.\<close>

lemma memcmp_digits:
  "length s = length t \<Longrightarrow> \<forall>c\<in>set s. is_digit c \<Longrightarrow> \<forall>c\<in>set t. is_digit c \<Longrightarrow>
     memcmp (map chr_byte s) (map chr_byte t) > 0 \<longleftrightarrow> decimal_val t < decimal_val s"
proof (induction s t rule: list_induct2)
  case (Cons c cs d ds)
  have b: "decimal_val cs < 10 ^ length ds" "decimal_val ds < 10 ^ length ds"
    using Cons decimal_val_less [of cs] decimal_val_less [of ds] by auto
  consider "c = d" | "chr_nat c < chr_nat d" | "chr_nat d < chr_nat c"
    using of_char_eq_iff [of c d, where ?'a = nat] by (metis nat_neq_iff)
  then show ?case
  proof cases
    case 1
    then show ?thesis using Cons unfolding decimal_val_Cons by simp
  next
    case 2
    moreover have "is_digit c" using Cons.prems by simp
    ultimately have "digit_val c + 1 \<le> digit_val d" unfolding is_digit_def digit_val_def by linarith
    then have "(digit_val c + 1) * 10 ^ length ds \<le> digit_val d * 10 ^ length ds"
      by (rule mult_right_mono) simp
    then show ?thesis using 2 b Cons.hyps unfolding decimal_val_Cons by (auto simp: chr_byte_less chr_byte_eq)
  next
    case 3
    moreover have "is_digit d" using Cons.prems by simp
    ultimately have "digit_val d + 1 \<le> digit_val c" unfolding is_digit_def digit_val_def by linarith
    then have "(digit_val d + 1) * 10 ^ length ds \<le> digit_val c * 10 ^ length ds"
      by (rule mult_right_mono) simp
    then show ?thesis using 3 b Cons.hyps unfolding decimal_val_Cons by (auto simp: chr_byte_less chr_byte_eq)
  qed
qed simp

lemma skip_zeros_val:
  "decimal_val (dropWhile (\<lambda>c. c = CHR ''0'') s) = decimal_val s"
proof (induction s)
  case (Cons c cs)
  then show ?case by (cases "c = CHR ''0''") (simp_all add: decimal_val_Cons digit_val_def del: val_from.simps(2))
qed simp

lemma skip_zeros_digits:
  "(\<forall>c\<in>set (dropWhile (\<lambda>c. c = CHR ''0'') s). is_digit c) \<longleftrightarrow> (\<forall>c\<in>set s. is_digit c)"
  by (induction s) (auto simp: is_digit_def)

lemma long_is_big:
  assumes "\<forall>c\<in>set s. is_digit c" "s \<noteq> []" "hd s \<noteq> CHR ''0''"
  shows "10 ^ (length s - 1) \<le> decimal_val s"
proof -
  obtain c cs where s: "s = c # cs" using assms(2) by (cases s) auto
  have "chr_nat c \<noteq> chr_nat CHR ''0''" using assms(3) s by (simp only: of_char_eq_iff) simp
  then have "chr_nat c \<noteq> 48" by simp
  moreover have "is_digit c" using assms(1) s by simp
  ultimately have "1 \<le> digit_val c" unfolding is_digit_def digit_val_def by linarith
  then have "1 * 10 ^ length cs \<le> digit_val c * 10 ^ length cs" by (rule mult_right_mono) simp
  then have "10 ^ length cs \<le> digit_val c * 10 ^ length cs + decimal_val cs"
    by (simp only: mult_1 trans_le_add1)
  then show ?thesis unfolding s decimal_val_Cons by simp
qed

lemma max_str: "length uintmax_max_str = 20" "decimal_val uintmax_max_str = 2 ^ 64 - 1"
  "\<forall>c\<in>set uintmax_max_str. is_digit c"
  by (simp_all add: uintmax_max_str_def digit_val_def is_digit_def)

lemma decimal_exact:
  "parse_unsigned_integer_bin s =
     (if s \<noteq> [] \<and> (\<forall>c\<in>set s. is_digit c) \<and> decimal_val s < 2 ^ 64
      then Some (of_nat (decimal_val s)) else None)"
proof -
  let ?t = "dropWhile (\<lambda>c. c = CHR ''0'') s"
  have v: "decimal_val ?t = decimal_val s" by (rule skip_zeros_val)
  have d: "(\<forall>c\<in>set ?t. is_digit c) \<longleftrightarrow> (\<forall>c\<in>set s. is_digit c)" by (rule skip_zeros_digits)
  show ?thesis
  proof (cases "s \<noteq> [] \<and> (\<forall>c\<in>set s. is_digit c)")
    case False
    then show ?thesis
      by (auto simp: parse_unsigned_integer_bin_def Let_def no_overflow_exact d)
  next
    case True
    then have dt: "\<forall>c\<in>set ?t. is_digit c" unfolding d by blast
    have over: "length ?t > 20 \<or> length ?t = 20 \<and> memcmp (map chr_byte ?t) (map chr_byte uintmax_max_str) > 0
        \<longleftrightarrow> 2 ^ 64 \<le> decimal_val ?t"
    proof (cases "length ?t" "20 :: nat" rule: linorder_cases)
      case less
      have "decimal_val ?t < 10 ^ length ?t" by (rule decimal_val_less [OF dt])
      also have "\<dots> \<le> 10 ^ 19" using less by (intro power_increasing) simp_all
      finally show ?thesis using less by simp
    next
      case equal
      then show ?thesis using memcmp_digits [of ?t uintmax_max_str] dt max_str by auto
    next
      case greater
      then have "length ?t \<noteq> 0" by linarith
      then have "?t \<noteq> []" by (simp only: length_0_conv simp_thms)
      then have "hd ?t \<noteq> CHR ''0''" by (metis (mono_tags, lifting) hd_dropWhile)
      then have "10 ^ (length ?t - 1) \<le> decimal_val ?t" using long_is_big [OF dt \<open>?t \<noteq> []\<close>] by blast
      moreover have "(10 :: nat) ^ 20 \<le> 10 ^ (length ?t - 1)" using greater by (intro power_increasing) simp_all
      ultimately show ?thesis using greater by simp
    qed
    have "parse_unsigned_integer_bin s =
        (if length ?t > 20 \<or> length ?t = 20 \<and> memcmp (map chr_byte ?t) (map chr_byte uintmax_max_str) > 0
         then None else parse_no_overflow ?t 0)"
      using True by (simp only: parse_unsigned_integer_bin_def Let_def max_str(1) if_False simp_thms)
    also have "\<dots> = (if 2 ^ 64 \<le> decimal_val s then None else parse_no_overflow ?t 0)"
      by (simp only: over v)
    also have "parse_no_overflow ?t 0 = Some (of_nat (decimal_val s))"
      unfolding no_overflow_exact if_P [OF dt] by (simp only: unat_0 v)
    finally have e: "parse_unsigned_integer_bin s =
        (if 2 ^ 64 \<le> decimal_val s then None else Some (of_nat (decimal_val s)))" .
    show ?thesis
    proof (cases "2 ^ 64 \<le> decimal_val s")
      case big: True
      then have "\<not> (s \<noteq> [] \<and> (\<forall>c\<in>set s. is_digit c) \<and> decimal_val s < 2 ^ 64)" by linarith
      then show ?thesis unfolding e if_P [OF big] by (rule if_not_P [symmetric])
    next
      case small: False
      then have "s \<noteq> [] \<and> (\<forall>c\<in>set s. is_digit c) \<and> decimal_val s < 2 ^ 64" using True by linarith
      then show ?thesis unfolding e if_not_P [OF small] by (rule if_P [symmetric])
    qed
  qed
qed

text \<open>Decimal parsing is exact: a string is accepted exactly when it is a non-empty string of digits
  whose value fits in 64 bits (leading zeros allowed, in any number), and the result is that value.\<close>

theorem parse_decimal_exact:
  "parse_unsigned_integer_bin s =
     (if s \<noteq> [] \<and> list_all is_digit s \<and> decimal_val s < 2 ^ 64
      then Some (of_nat (decimal_val s)) else None)"
  unfolding list_all_iff by (rule decimal_exact)

section \<open>Printing and parsing back\<close>

lemma digit_char: "d \<le> 9 \<Longrightarrow> is_digit (char_of (48 + d)) \<and> digit_val (char_of (48 + d)) = d"
  by (simp add: is_digit_def digit_val_def)

lemma unat_mod_10: "unat (x mod 10 :: u64) \<le> 9"
  by (simp add: unat_mod less_Suc_eq_le [symmetric])

lemma generate_spec:
  "(\<forall>c\<in>set (generate_decimal_repr x out). is_digit c) \<longleftrightarrow> (\<forall>c\<in>set out. is_digit c)"
  "decimal_val (generate_decimal_repr x out) = unat x * 10 ^ length out + decimal_val out"
  "length (generate_decimal_repr x out) = compute_decimal_repr_size x + length out"
  "generate_decimal_repr x out \<noteq> []"
proof (induction x out rule: generate_decimal_repr.induct)
  case (1 x out)
  let ?c = "char_of (48 + unat (x mod 10)) :: char"
  have c: "is_digit ?c" "digit_val ?c = unat x mod 10"
    using digit_char [OF unat_mod_10 [of x]] by (simp_all add: unat_mod)
  have v: "unat x * 10 ^ length out = unat (x div 10) * 10 ^ length (?c # out) + digit_val ?c * 10 ^ length out"
  proof -
    have "unat x = unat (x div 10) * 10 + digit_val ?c" by (simp add: c unat_div)
    then show ?thesis by (metis (no_types, lifting) add_mult_distrib length_Cons mult.assoc power_Suc)
  qed
  show "(\<forall>c\<in>set (generate_decimal_repr x out). is_digit c) \<longleftrightarrow> (\<forall>c\<in>set out. is_digit c)"
    "decimal_val (generate_decimal_repr x out) = unat x * 10 ^ length out + decimal_val out"
    "length (generate_decimal_repr x out) = compute_decimal_repr_size x + length out"
    "generate_decimal_repr x out \<noteq> []"
  proof -
    have step: "generate_decimal_repr x out =
        (if x div 10 > 0 then generate_decimal_repr (x div 10) (?c # out) else ?c # out)"
      "compute_decimal_repr_size x = (if x div 10 > 0 then 1 + compute_decimal_repr_size (x div 10) else 1)"
      by (simp_all only: generate_decimal_repr.simps [of x] compute_decimal_repr_size.simps [of x] Let_def)
    show "(\<forall>c\<in>set (generate_decimal_repr x out). is_digit c) \<longleftrightarrow> (\<forall>c\<in>set out. is_digit c)"
      using 1(1) [OF refl refl] c(1) by (simp add: step(1))
    show "length (generate_decimal_repr x out) = compute_decimal_repr_size x + length out"
      using 1(3) [OF refl refl] by (simp add: step)
    show "generate_decimal_repr x out \<noteq> []"
      using 1(4) [OF refl refl] by (simp add: step(1))
    show "decimal_val (generate_decimal_repr x out) = unat x * 10 ^ length out + decimal_val out"
    proof (cases "x div 10 > 0")
      case True
      then show ?thesis
        using 1(2) [OF refl refl True] v by (simp only: step(1) if_True decimal_val_Cons add.assoc)
    next
      case False
      then have "unat (x div 10) = 0" by (simp add: word_less_nat_alt)
      then show ?thesis using v False by (simp only: step(1) if_False decimal_val_Cons mult_0 add_0)
    qed
  qed
qed

lemma decimal_parse_print: "parse_unsigned_integer_bin (generate_decimal_repr_string x) = Some x"
  using generate_spec [of x "[]"] unat_u64_less [of x]
  by (simp add: decimal_exact generate_decimal_repr_string_def of_nat_unat_self)

text \<open>Printing a 64-bit number in decimal and parsing the text gives the number back; the text has
  exactly the computed size, and consists of digits.\<close>

theorem decimal_roundtrip:
  "parse_unsigned_integer_bin (generate_decimal_repr_string x) = Some x \<and>
   length (generate_decimal_repr_string x) = compute_decimal_repr_size x"
  using decimal_parse_print [of x] generate_spec(3) [of x "[]"]
  by (simp add: generate_decimal_repr_string_def)

lemma unat_ucast_16_64: "unat (ucast (p :: u16) :: u64) = unat p"
proof -
  have "take_bit 64 (unat p) = unat p"
    using unat_u16_less [of p] by (simp add: take_bit_nat_eq_self)
  then show ?thesis by (simp add: unsigned_ucast_eq)
qed

lemma generate_length_16: "length (generate_decimal_repr_string (ucast (p :: u16))) \<le> 5"
proof -
  have d: "unat ((x :: u64) div 10) = unat x div 10" for x by (simp add: unat_div)
  have u: "unat (ucast p :: u64) < 65536"
    using unat_u16_less [of p] by (simp only: unat_ucast_16_64)
  have "compute_decimal_repr_size x \<le> 5" if "unat x < 100000" for x
    using that
    by (simp add: compute_decimal_repr_size.simps [of x] compute_decimal_repr_size.simps [of "x div 10"]
        compute_decimal_repr_size.simps [of "x div 10 div 10"]
        compute_decimal_repr_size.simps [of "x div 10 div 10 div 10"]
        compute_decimal_repr_size.simps [of "x div 10 div 10 div 10 div 10"] Let_def word_less_nat_alt d)
  then show ?thesis
    using generate_spec(3) [of "ucast p" "[]"] u by (simp add: generate_decimal_repr_string_def)
qed

section \<open>Hexadecimal and signed numbers\<close>

fun hex_val_from :: "string \<Rightarrow> nat \<Rightarrow> nat" where
  "hex_val_from [] n = n"
| "hex_val_from (c # cs) n = hex_val_from cs (16 * n + nat (decode_hex_digit c))"

lemma hex_val_mono: "n \<le> hex_val_from s n"
proof (induction s arbitrary: n)
  case (Cons c cs)
  have "n \<le> 16 * n + nat (decode_hex_digit c)" by simp
  also have "\<dots> \<le> hex_val_from cs (16 * n + nat (decode_hex_digit c))" by (rule Cons.IH)
  finally show ?case by simp
qed simp

lemma hex_digit_range: "0 \<le> decode_hex_digit c \<Longrightarrow> decode_hex_digit c \<le> 15"
  by (auto simp: decode_hex_digit_def)

lemma parse_hex_from_exact:
  "parse_hex_from s n =
     (if (\<forall>c\<in>set s. 0 \<le> decode_hex_digit c) \<and> hex_val_from s (unat n) < 2 ^ 64
      then Some (of_nat (hex_val_from s (unat n))) else None)"
proof (induction s arbitrary: n)
  case Nil
  then show ?case using unat_u64_less [of n] by (simp add: of_nat_unat_self)
next
  case (Cons c cs)
  let ?d = "decode_hex_digit c"
  show ?case
  proof (cases "0 \<le> ?d")
    case False
    then show ?thesis by (auto simp: Let_def)
  next
    case True
    let ?w = "word_of_int ?d :: u64"
    have d: "unat ?w = nat ?d" "nat ?d \<le> 15"
      using True hex_digit_range [OF True] take_bit_int_eq_self [of ?d 64]
      by (simp_all add: unat_eq_nat_uint uint_word_of_int_eq)
    have over: "n > (- 1) div 16 \<longleftrightarrow> 2 ^ 60 \<le> unat n"
      by (simp add: word_less_nat_alt unat_div unat_minus_1) arith
    have "2 ^ 64 \<le> hex_val_from (c # cs) (unat n)" if "2 ^ 60 \<le> unat n"
      using hex_val_mono [of "16 * unat n + nat ?d" cs] that by simp
    moreover have "unat (n * 16) = 16 * unat n \<and> \<not> ?w > - 1 - n * 16 \<and>
        unat (n * 16 + ?w) = 16 * unat n + nat ?d" if "\<not> 2 ^ 60 \<le> unat n"
    proof -
      have m: "unat (n * 16) = 16 * unat n" using that by (simp add: unat_word_ariths)
      moreover have "unat (n * 16 + ?w) = 16 * unat n + nat ?d"
        using that m d by (simp add: unat_word_ariths)
      moreover have "unat (- 1 - n * 16) = 2 ^ 64 - 1 - unat (n * 16)"
        by (simp add: unat_sub unat_minus_1)
      ultimately show ?thesis using that d by (simp add: word_less_nat_alt)
    qed
    ultimately show ?thesis
      using True Cons.IH [of "n * 16 + ?w"] over by (auto simp: Let_def)
  qed
qed

text \<open>Hexadecimal parsing is exact: digits of either case only, at least one of them, and the value
  when it fits in 64 bits; and a sign in front of a decimal number is read off without affecting the
  magnitude.\<close>

theorem parse_hex_and_signed_exact:
  "parse_unsigned_hex_integer_bin s =
     (if s \<noteq> [] \<and> list_all (\<lambda>c. 0 \<le> decode_hex_digit c) s \<and> hex_val_from s 0 < 2 ^ 64
      then Some (of_nat (hex_val_from s 0)) else None) \<and>
   parse_signmag_integer_bin (CHR ''-'' # s) = map_option (Pair (- 1)) (parse_unsigned_integer_bin s) \<and>
   parse_signmag_integer_bin (CHR ''+'' # s) = map_option (Pair 1) (parse_unsigned_integer_bin s)"
  by (simp add: list_all_iff parse_unsigned_hex_integer_bin_def parse_hex_from_exact parse_signmag_integer_bin_def
      split: option.split)

end
