(* ===== verification/Addr.thy ===== *)
theory Addr
  imports Parse_Number Avl
begin

text \<open>
  Network addresses: \<open>system/BAddr.h\<close> and the IPv4 text and mask functions of \<open>misc/ipaddr.h\<close>. The
  tagged unions \<open>BIPAddr\<close> and \<open>BAddr\<close> are datatypes (the packet-socket variant of \<open>BAddr\<close>, which
  the program never makes, is left out); addresses and ports are held in network byte order as in the
  C fields. \<open>getaddrinfo\<close> is a parameter: numeric-only flag, IPv6 flag and text to the address
  bytes.
\<close>

section \<open>Addresses\<close>

datatype bip_addr = IP_None | IP_V4 u32 | IP_V6 "byte list"

datatype baddr = Addr_None | Addr_V4 u32 u16 | Addr_V6 "byte list" u16

text \<open>An address a connection can have: not the invalid one, and 16 bytes for IPv6.\<close>

fun addr_ok :: "baddr \<Rightarrow> bool" where
  "addr_ok Addr_None = False"
| "addr_ok (Addr_V4 ip port) = True"
| "addr_ok (Addr_V6 ip port) = (length ip = 16)"

fun bip_type :: "bip_addr \<Rightarrow> int" where
  "bip_type IP_None = 0" | "bip_type (IP_V4 _) = 1" | "bip_type (IP_V6 _) = 2"

fun baddr_type :: "baddr \<Rightarrow> int" where
  "baddr_type Addr_None = 0" | "baddr_type (Addr_V4 _ _) = 1" | "baddr_type (Addr_V6 _ _) = 2"

fun BIPAddr_Compare :: "bip_addr \<Rightarrow> bip_addr \<Rightarrow> bool" where
  "BIPAddr_Compare (IP_V4 a) (IP_V4 b) = (a = b)"
| "BIPAddr_Compare (IP_V6 a) (IP_V6 b) = (memcmp a b = 0)"
| "BIPAddr_Compare _ _ = False"

fun BAddr_GetPort :: "baddr \<Rightarrow> u16" where
  "BAddr_GetPort (Addr_V4 ip port) = port"
| "BAddr_GetPort (Addr_V6 ip port) = port"
| "BAddr_GetPort Addr_None = 0"

fun BAddr_GetIPAddr :: "baddr \<Rightarrow> bip_addr" where
  "BAddr_GetIPAddr (Addr_V4 ip port) = IP_V4 ip"
| "BAddr_GetIPAddr (Addr_V6 ip port) = IP_V6 ip"
| "BAddr_GetIPAddr Addr_None = IP_None"

fun BAddr_SetPort :: "baddr \<Rightarrow> u16 \<Rightarrow> baddr" where
  "BAddr_SetPort (Addr_V4 ip _) port = Addr_V4 ip port"
| "BAddr_SetPort (Addr_V6 ip _) port = Addr_V6 ip port"
| "BAddr_SetPort Addr_None port = Addr_None"

fun BAddr_MakeFromIpaddrAndPort :: "bip_addr \<Rightarrow> u16 \<Rightarrow> baddr" where
  "BAddr_MakeFromIpaddrAndPort IP_None port = Addr_None"
| "BAddr_MakeFromIpaddrAndPort (IP_V4 ip) port = Addr_V4 ip port"
| "BAddr_MakeFromIpaddrAndPort (IP_V6 ip) port = Addr_V6 ip port"

fun BAddr_Compare :: "baddr \<Rightarrow> baddr \<Rightarrow> bool" where
  "BAddr_Compare (Addr_V4 a p) (Addr_V4 b q) = (a = b \<and> p = q)"
| "BAddr_Compare (Addr_V6 a p) (Addr_V6 b q) = (memcmp a b = 0 \<and> p = q)"
| "BAddr_Compare _ _ = False"

fun BAddr_CompareOrder :: "baddr \<Rightarrow> baddr \<Rightarrow> int" where
  "BAddr_CompareOrder (Addr_V4 ip1 p1) (Addr_V4 ip2 p2) =
     (let cmp = B_COMPARE (ntoh32 ip1) (ntoh32 ip2) in
      if cmp \<noteq> 0 then cmp else B_COMPARE (ntoh16 p1) (ntoh16 p2))"
| "BAddr_CompareOrder (Addr_V6 ip1 p1) (Addr_V6 ip2 p2) =
     (let cmp = memcmp ip1 ip2 in
      if cmp \<noteq> 0 then B_COMPARE cmp 0 else B_COMPARE (ntoh16 p1) (ntoh16 p2))"
| "BAddr_CompareOrder Addr_None Addr_None = 0"
| "BAddr_CompareOrder a b = B_COMPARE (baddr_type a) (baddr_type b)"

section \<open>The address order\<close>

lemma memcmp_refl [simp]: "memcmp xs xs = 0"
  by (induction xs) auto

lemma memcmp_0 [simp]: "memcmp xs ys = 0 \<longleftrightarrow> xs = ys"
  by (induction xs ys rule: memcmp.induct) auto

lemma memcmp_range: "memcmp xs ys \<in> {- 1, 0, 1}"
  by (induction xs ys rule: memcmp.induct) auto

lemma memcmp_swap: "memcmp ys xs = - memcmp xs ys"
  by (induction xs ys rule: memcmp.induct) auto

lemma memcmp_trans: "memcmp xs ys \<le> 0 \<Longrightarrow> memcmp ys zs \<le> 0 \<Longrightarrow> memcmp xs zs \<le> 0"
proof (induction xs arbitrary: ys zs)
  case Nil
  then show ?case by (cases zs) auto
next
  case (Cons x xs)
  then obtain y ys' z zs' where "ys = y # ys'" "zs = z # zs'"
    by (cases ys; cases zs) auto
  then show ?case using Cons by (auto split: if_splits)
qed

lemma comparator_memcmp: "comparator memcmp"
  by unfold_locales (fact memcmp_range memcmp_swap memcmp_trans)+

lemma B_COMPARE_memcmp [simp]: "B_COMPARE (memcmp xs ys) 0 = memcmp xs ys"
  using memcmp_range [of xs ys] by (cases "xs = ys") (auto simp: B_COMPARE_if)

fun addr_key :: "baddr \<Rightarrow> int \<times> u32 \<times> byte list \<times> u16" where
  "addr_key Addr_None = (0, 0, [], 0)"
| "addr_key (Addr_V4 ip p) = (1, ntoh32 ip, [], ntoh16 p)"
| "addr_key (Addr_V6 ip p) = (2, 0, ip, ntoh16 p)"

definition key_cmp :: "int \<times> u32 \<times> byte list \<times> u16 \<Rightarrow> int \<times> u32 \<times> byte list \<times> u16 \<Rightarrow> int" where
  "key_cmp x y =
     (let r = B_COMPARE (fst x) (fst y) in if r \<noteq> 0 then r else
      let r = B_COMPARE (fst (snd x)) (fst (snd y)) in if r \<noteq> 0 then r else
      let r = memcmp (fst (snd (snd x))) (fst (snd (snd y))) in if r \<noteq> 0 then r else
      B_COMPARE (snd (snd (snd x))) (snd (snd (snd y))))"

lemma B_COMPARE_zero [simp]: "B_COMPARE x y = 0 \<longleftrightarrow> x = y"
  by (auto simp: B_COMPARE_if)

lemma compare_order_key: "BAddr_CompareOrder a b = key_cmp (addr_key a) (addr_key b)"
  by (cases a; cases b) (simp_all add: key_cmp_def Let_def)

lemma addr_key_inject: "addr_key a = addr_key b \<longleftrightarrow> a = b"
  by (cases a; cases b) auto

lemma compare_order_0: "BAddr_CompareOrder a b = 0 \<longleftrightarrow> a = b"
  unfolding compare_order_key addr_key_inject [symmetric]
  by (auto simp: key_cmp_def Let_def prod_eq_iff)

lemma comparator_map: "comparator c \<Longrightarrow> comparator (\<lambda>a b. c (f a) (f b))"
  unfolding comparator_def by blast

lemma comparator_key_cmp: "comparator key_cmp"
proof -
  have "comparator (\<lambda>(x :: byte list \<times> u16) y. let r = memcmp (fst x) (fst y) in
      if r \<noteq> 0 then r else B_COMPARE (snd x) (snd y))"
    by (rule comparator_lex [OF comparator_memcmp comparator_B_COMPARE, of fst snd])
  then have "comparator (\<lambda>(x :: u32 \<times> byte list \<times> u16) y. let r = B_COMPARE (fst x) (fst y) in
      if r \<noteq> 0 then r else (let r = memcmp (fst (snd x)) (fst (snd y)) in
      if r \<noteq> 0 then r else B_COMPARE (snd (snd x)) (snd (snd y))))"
    by (rule comparator_lex [OF comparator_B_COMPARE, of _ fst snd])
  then show ?thesis
    unfolding key_cmp_def by (rule comparator_lex [OF comparator_B_COMPARE, of _ fst snd])
qed

interpretation addr_order: comparator BAddr_CompareOrder
proof -
  have eq: "BAddr_CompareOrder = (\<lambda>a b. key_cmp (addr_key a) (addr_key b))"
    by (simp add: fun_eq_iff compare_order_key)
  show "comparator BAddr_CompareOrder"
    unfolding eq by (rule comparator_map [OF comparator_key_cmp])
qed

text \<open>The order as the library's type class, so that addresses can be sorted and compared directly.\<close>

instantiation baddr :: linorder
begin

definition less_eq_baddr :: "baddr \<Rightarrow> baddr \<Rightarrow> bool" where
  "less_eq_baddr a b \<longleftrightarrow> BAddr_CompareOrder a b \<le> 0"

definition less_baddr :: "baddr \<Rightarrow> baddr \<Rightarrow> bool" where
  "less_baddr a b \<longleftrightarrow> BAddr_CompareOrder a b < 0"

instance
proof
  fix a b c :: baddr
  note facts = addr_order.cmp_range [of a b] addr_order.cmp_swap [of b a] compare_order_0 [of a b]
  show "(a < b) = (a \<le> b \<and> \<not> b \<le> a)" "a \<le> b \<or> b \<le> a"
    using facts by (auto simp: less_eq_baddr_def less_baddr_def)
  show "a \<le> a" by (simp add: less_eq_baddr_def compare_order_0)
  show "a \<le> b \<Longrightarrow> b \<le> a \<Longrightarrow> a = b" using facts by (auto simp: less_eq_baddr_def)
  show "a \<le> b \<Longrightarrow> b \<le> c \<Longrightarrow> a \<le> c"
    using addr_order.cmp_trans [of a b c] by (auto simp: less_eq_baddr_def)
qed

end

section \<open>IPv4 text (misc/ipaddr.h)\<close>

text \<open>
  The loop of \<open>ipaddr_parse_ipv4_addr_bin\<close> with \<open>k = 3 - i\<close> octets to come after this one; the
  result are the bytes stored at \<open>out_addr\<close>.
\<close>

fun parse_octets :: "nat \<Rightarrow> string \<Rightarrow> byte list option" where
  "parse_octets k name =
     (let j = length (takeWhile (\<lambda>c. c \<noteq> CHR ''.'') name) in
      if j = length name \<and> k > 0 \<or> j < length name \<and> k = 0 then None
      else if j < 1 \<or> j > 3 then None
      else case parse_unsigned_integer_bin (take j name) of
        None \<Rightarrow> None
      | Some d \<Rightarrow>
          if d > 255 then None
          else case k of
            0 \<Rightarrow> Some [ucast d]
          | Suc k \<Rightarrow> map_option (\<lambda>bs. ucast d # bs) (parse_octets k (drop (j + 1) name)))"

declare parse_octets.simps [simp del]

definition ipaddr_parse_ipv4_addr_bin :: "string \<Rightarrow> u32 option" where
  "ipaddr_parse_ipv4_addr_bin name = map_option of_le (parse_octets 3 name)"

definition ipaddr_parse_ipv4_prefix_bin :: "string \<Rightarrow> int option" where
  "ipaddr_parse_ipv4_prefix_bin str =
     (case parse_unsigned_integer_bin str of
        None \<Rightarrow> None
      | Some d \<Rightarrow> if d > 32 then None else Some (uint d))"

definition ipaddr_parse_ipv4_ifaddr_bin :: "string \<Rightarrow> (u32 \<times> int) option" where
  "ipaddr_parse_ipv4_ifaddr_bin str =
     (let slash_pos = length (takeWhile (\<lambda>c. c \<noteq> CHR ''/'') str) in
      if slash_pos = length str then None
      else case ipaddr_parse_ipv4_addr_bin (take slash_pos str) of
        None \<Rightarrow> None
      | Some addr \<Rightarrow>
          map_option (Pair addr) (ipaddr_parse_ipv4_prefix_bin (drop (slash_pos + 1) str)))"

text \<open>\<open>printf\<close> of an unsigned number.\<close>

definition print_u8 :: "byte \<Rightarrow> string" where
  "print_u8 b = generate_decimal_repr_string (ucast b)"

definition ipaddr_print_addr :: "u32 \<Rightarrow> string" where
  "ipaddr_print_addr addr =
     (let b = mem32 addr in
      print_u8 (b ! 0) @ ''.'' @ print_u8 (b ! 1) @ ''.'' @ print_u8 (b ! 2) @ ''.'' @ print_u8 (b ! 3))"

definition ipaddr_print_ifaddr :: "u32 \<times> int \<Rightarrow> string" where
  "ipaddr_print_ifaddr ifaddr =
     ipaddr_print_addr (fst ifaddr) @ ''/'' @ generate_decimal_repr_string (word_of_int (snd ifaddr))"

section \<open>Network masks\<close>

definition ipaddr_ipv4_mask_from_prefix :: "nat \<Rightarrow> u32" where
  "ipaddr_ipv4_mask_from_prefix prefix =
     hton32 (foldl (\<lambda>t i. t OR push_bit (32 - i - 1) 1) 0 [0..<prefix])"

fun prefix_search :: "u32 \<Rightarrow> u32 \<Rightarrow> nat list \<Rightarrow> nat option" where
  "prefix_search msk t [] = None"
| "prefix_search msk t (i # is) =
     (if ntoh32 msk = t then Some i
      else prefix_search msk (if i < 32 then t OR push_bit (32 - i - 1) 1 else t) is)"

definition ipaddr_ipv4_prefix_from_mask :: "u32 \<Rightarrow> nat option" where
  "ipaddr_ipv4_prefix_from_mask msk = prefix_search msk 0 [0..<33]"

definition ipaddr_ipv4_addrs_in_network :: "u32 \<Rightarrow> u32 \<Rightarrow> nat \<Rightarrow> bool" where
  "ipaddr_ipv4_addrs_in_network addr1 addr2 netprefix =
     (let msk = ipaddr_ipv4_mask_from_prefix netprefix in (addr1 AND msk) = (addr2 AND msk))"

definition ipaddr_ipv4_ifaddr_from_addr_mask :: "u32 \<Rightarrow> u32 \<Rightarrow> (u32 \<times> nat) option" where
  "ipaddr_ipv4_ifaddr_from_addr_mask addr msk =
     map_option (Pair addr) (ipaddr_ipv4_prefix_from_mask msk)"

definition leading_ones :: "nat \<Rightarrow> u32" where
  "leading_ones k = foldl (\<lambda>t i. t OR push_bit (32 - i - 1) 1) 0 [0..<k]"

lemma leading_ones_simps:
  "leading_ones 0 = 0" "leading_ones (Suc k) = leading_ones k OR push_bit (32 - k - 1) 1"
  by (simp_all add: leading_ones_def)

lemma bit_leading_ones: "k \<le> 32 \<Longrightarrow> bit (leading_ones k) n \<longleftrightarrow> n < 32 \<and> 32 - k \<le> n"
proof (induction k)
  case (Suc k)
  have "n < 32 \<Longrightarrow> n = 31 - k \<or> 32 - k \<le> n \<longleftrightarrow> 32 - Suc k \<le> n" using Suc.prems by linarith
  then show ?case using Suc
    by (auto simp: leading_ones_simps bit_simps possible_bit_word)
qed (simp add: leading_ones_simps)

lemma leading_ones_inject: "i < k \<Longrightarrow> k \<le> 32 \<Longrightarrow> leading_ones i \<noteq> leading_ones k"
  using bit_leading_ones [of i "32 - k"] bit_leading_ones [of k "32 - k"] by auto

lemma prefix_search_finds:
  "i \<le> k \<Longrightarrow> k \<le> 32 \<Longrightarrow> ntoh32 msk = leading_ones k \<Longrightarrow>
   prefix_search msk (leading_ones i) [i..<33] = Some k"
proof (induction "k - i" arbitrary: i)
  case 0
  then show ?case by (simp add: upt_conv_Cons)
next
  case (Suc d)
  then have lt: "i < k" by linarith
  then have "prefix_search msk (leading_ones (Suc i)) [Suc i..<33] = Some k" using Suc by auto
  then show ?case
    using lt Suc.prems leading_ones_inject [of i k]
    by (simp add: upt_conv_Cons leading_ones_simps del: upt_Suc)
qed

lemma prefix_from_mask:
  "p \<le> 32 \<Longrightarrow> ipaddr_ipv4_prefix_from_mask (ipaddr_ipv4_mask_from_prefix p) = Some p"
  unfolding ipaddr_ipv4_prefix_from_mask_def ipaddr_ipv4_mask_from_prefix_def leading_ones_def [symmetric]
  using prefix_search_finds [of 0 p "hton32 (leading_ones p)"] by (simp only: leading_ones_simps(1)) simp

section \<open>Printing and parsing IPv4 addresses\<close>

lemma print_u8_spec:
  "parse_unsigned_integer_bin (print_u8 b) = Some (ucast b)"
  "c \<in> set (print_u8 b) \<Longrightarrow> is_digit c"
  "1 \<le> length (print_u8 b)" "length (print_u8 b) \<le> 3"
proof -
  show "parse_unsigned_integer_bin (print_u8 b) = Some (ucast b)"
    by (simp add: print_u8_def decimal_parse_print)
  show "c \<in> set (print_u8 b) \<Longrightarrow> is_digit c"
    using generate_spec(1) [of "ucast b" "[]"] by (simp add: print_u8_def generate_decimal_repr_string_def)
  show "1 \<le> length (print_u8 b)"
    using generate_spec(4) [of "ucast b" "[]"]
    by (simp add: print_u8_def generate_decimal_repr_string_def Suc_le_eq)
  have d: "unat ((x :: u64) div 10) = unat x div 10" for x by (simp add: unat_div)
  have u: "unat (ucast b :: u64) < 256" using unat_byte_less [of b] by (simp add: unat_ucast_byte)
  have "compute_decimal_repr_size x \<le> 3" if "unat x < 1000" for x
    using that
    by (simp add: compute_decimal_repr_size.simps [of x] compute_decimal_repr_size.simps [of "x div 10"]
        compute_decimal_repr_size.simps [of "x div 10 div 10"] Let_def word_less_nat_alt d)
  then show "length (print_u8 b) \<le> 3"
    using generate_spec(3) [of "ucast b" "[]"] u
    by (simp add: print_u8_def generate_decimal_repr_string_def)
qed

lemma not_digit: "\<not> is_digit CHR ''.''" "\<not> is_digit CHR '':''" "\<not> is_digit CHR ''/''"
  by (simp_all add: is_digit_def)

lemma takeWhile_digits:
  assumes "\<forall>c\<in>set s. is_digit c" "\<not> is_digit d"
  shows "takeWhile (\<lambda>c. c \<noteq> d) s = s" "takeWhile (\<lambda>c. c \<noteq> d) (s @ d # r) = s"
proof -
  have "\<forall>c\<in>set s. c \<noteq> d" using assms by auto
  then show "takeWhile (\<lambda>c. c \<noteq> d) s = s" "takeWhile (\<lambda>c. c \<noteq> d) (s @ d # r) = s"
    by (simp_all add: takeWhile_eq_all_conv)
qed

lemma parse_octets_step:
  "parse_octets (Suc k) (print_u8 b @ CHR ''.'' # r) = map_option (Cons b) (parse_octets k r)"
  "parse_octets 0 (print_u8 b) = Some [b]"
proof -
  have dig: "\<forall>c\<in>set (print_u8 b). is_digit c" using print_u8_spec(2) by blast
  have small: "\<not> (ucast b :: u64) > 255"
    using unat_byte_less [of b] by (simp add: word_less_nat_alt unat_ucast_byte not_less)
  have trip: "(ucast (ucast b :: u64) :: byte) = b" by (rule bit_word_eqI) (auto simp: bit_simps)
  have len: "\<not> (length (print_u8 b) < 1 \<or> length (print_u8 b) > 3)"
    using print_u8_spec(3,4) [of b] by linarith
  show "parse_octets (Suc k) (print_u8 b @ CHR ''.'' # r) = map_option (Cons b) (parse_octets k r)"
    using len small trip
    by (simp add: parse_octets.simps [of "Suc k"] takeWhile_digits(2) [OF dig not_digit(1)] Let_def
        print_u8_spec(1))
  show "parse_octets 0 (print_u8 b) = Some [b]"
    using len small trip
    by (simp add: parse_octets.simps [of 0] takeWhile_digits(1) [OF dig not_digit(1)] Let_def
        print_u8_spec(1))
qed

lemma parse_print_addr: "ipaddr_parse_ipv4_addr_bin (ipaddr_print_addr a) = Some a"
proof -
  have "mem32 a = [mem32 a ! 0, mem32 a ! 1, mem32 a ! 2, mem32 a ! 3]" by (simp add: le_bytes_4)
  moreover have "parse_octets 3 (ipaddr_print_addr a) = Some [mem32 a ! 0, mem32 a ! 1, mem32 a ! 2, mem32 a ! 3]"
    by (simp add: ipaddr_print_addr_def Let_def numeral_3_eq_3 parse_octets_step del: le_bytes.simps)
  moreover have "of_le (mem32 a) = a" by simp
  ultimately show ?thesis by (simp only: ipaddr_parse_ipv4_addr_bin_def option.map)
qed

section \<open>Endpoint strings (BAddr.h)\<close>

fun print_hex :: "nat \<Rightarrow> string" where
  "print_hex n =
     (if n < 16 then [''0123456789abcdef'' ! n]
      else print_hex (n div 16) @ [''0123456789abcdef'' ! (n mod 16)])"

declare print_hex.simps [simp del]

fun BIPAddr_Print :: "bip_addr \<Rightarrow> string" where
  "BIPAddr_Print IP_None = ''(none)''"
| "BIPAddr_Print (IP_V4 ip) = ipaddr_print_addr ip"
| "BIPAddr_Print (IP_V6 ip) =
     concat (map (\<lambda>i. (if i = 0 then [] else '':'') @ print_hex (unat (badvpn_read_be16 (drop (2 * i) ip)))) [0..<8])"

fun BAddr_Print :: "baddr \<Rightarrow> string" where
  "BAddr_Print Addr_None = ''(none)''"
| "BAddr_Print (Addr_V4 ip port) =
     BIPAddr_Print (IP_V4 ip) @ '':'' @ generate_decimal_repr_string (ucast (ntoh16 port))"
| "BAddr_Print (Addr_V6 ip port) =
     BIPAddr_Print (IP_V6 ip) @ '':'' @ generate_decimal_repr_string (ucast (ntoh16 port))"

text \<open>
  \<open>strtol\<close> in base 10: white space, a sign, digits; the value and the rest of the string, which is the
  whole string when there are no digits.
\<close>

definition strtol10 :: "string \<Rightarrow> int \<times> string" where
  "strtol10 str =
     (let s = dropWhile (\<lambda>c. chr_nat c = 32 \<or> 9 \<le> chr_nat c \<and> chr_nat c \<le> 13) str;
          neg = (s \<noteq> [] \<and> hd s = CHR ''-'');
          s = (if s \<noteq> [] \<and> (hd s = CHR ''-'' \<or> hd s = CHR ''+'') then tl s else s);
          ds = takeWhile is_digit s
      in if ds = [] then (0, str)
         else ((if neg then - 1 else 1) * int (decimal_val ds), drop (length ds) s))"

type_synonym getaddrinfo = "bool \<Rightarrow> bool \<Rightarrow> string \<Rightarrow> byte list option"

definition BIPAddr_Resolve :: "getaddrinfo \<Rightarrow> string \<Rightarrow> bool \<Rightarrow> bip_addr option" where
  "BIPAddr_Resolve gai str noresolve =
     (let len = length str;
          v6 = (len \<ge> 1 \<and> hd str = CHR ''['' \<and> last str = CHR '']'');
          addr_str = (if v6 then take (len - 2) (drop 1 str) else str)
      in if length addr_str > 128 then None
         else map_option (\<lambda>bytes. if v6 then IP_V6 bytes else IP_V4 (of_le bytes))
                (gai noresolve v6 addr_str))"

text \<open>The address and port parts of an endpoint: the IPv6 flag, the address text, the port text.\<close>

definition split_endpoint :: "string \<Rightarrow> (bool \<times> string \<times> string) option" where
  "split_endpoint str =
     (if hd str = CHR ''['' then
        (let i = 1 + length (takeWhile (\<lambda>c. c \<noteq> CHR '']'') (drop 1 str)) in
         if i \<ge> length str then None
         else if i + 1 \<ge> length str \<or> str ! (i + 1) \<noteq> CHR '':'' then None
         else Some (True, take (i - 1) (drop 1 str), drop (i + 2) str))
      else
        (let i = length (takeWhile (\<lambda>c. c \<noteq> CHR '':'') str) in
         if i \<ge> length str then None
         else Some (False, take i str, drop (i + 1) str)))"

definition BAddr_Parse2 ::
  "getaddrinfo \<Rightarrow> string \<Rightarrow> nat option \<Rightarrow> bool \<Rightarrow> (baddr \<times> string option) option" where
  "BAddr_Parse2 gai str name_len noresolve =
     (if length str < 1 \<or> length str > 1000 then None
      else case split_endpoint str of
        None \<Rightarrow> None
      | Some (v6, addr_str, port_str) \<Rightarrow>
          if length addr_str \<ge> 128 then None
          else if length port_str \<ge> 6 then None
          else let (conv_res, err) = strtol10 port_str in
          if port_str = [] \<or> err \<noteq> [] then None
          else if conv_res < 0 \<or> conv_res > UINT16_MAX then None
          else let port = hton16 (word_of_int conv_res) in
          case gai noresolve v6 addr_str of
            None \<Rightarrow> None
          | Some bytes \<Rightarrow>
              let addr = (if v6 then Addr_V6 bytes port else Addr_V4 (of_le bytes) port) in
              case name_len of
                None \<Rightarrow> Some (addr, None)
              | Some n \<Rightarrow> if length addr_str \<ge> n then None else Some (addr, Some addr_str))"

definition BAddr_Parse :: "getaddrinfo \<Rightarrow> string \<Rightarrow> nat option \<Rightarrow> (baddr \<times> string option) option" where
  "BAddr_Parse gai str name_len = BAddr_Parse2 gai str name_len False"

lemma strtol_digits:
  assumes "s \<noteq> []" "\<forall>c\<in>set s. is_digit c"
  shows "strtol10 s = (int (decimal_val s), [])"
proof -
  obtain c cs where s: "s = c # cs" using assms(1) by (cases s) auto
  have c: "48 \<le> chr_nat c" "chr_nat c \<le> 57" using assms(2) s by (auto simp: is_digit_def)
  have sp: "dropWhile (\<lambda>c. chr_nat c = 32 \<or> 9 \<le> chr_nat c \<and> chr_nat c \<le> 13) s = s" using c s by simp
  have "chr_nat CHR ''-'' = 45" "chr_nat CHR ''+'' = 43" by simp_all
  then have "c \<noteq> CHR ''-''" "c \<noteq> CHR ''+''" using c by auto
  then have sg: "(hd s = CHR ''-'') = False" "(hd s = CHR ''+'') = False" using s by simp_all
  have tk: "takeWhile is_digit s = s" using assms(2) by (simp only: takeWhile_eq_all_conv)
  show ?thesis
    unfolding strtol10_def sp Let_def sg by (simp add: assms(1) tk)
qed

section \<open>Properties\<close>

text \<open>IPv4 addresses survive text: printing an address and parsing the text gives the address back, and
  network masks survive the prefix form: the mask of every prefix length from 0 to 32 is recognised as
  that length.\<close>

theorem ipv4_text_roundtrip:
  "ipaddr_parse_ipv4_addr_bin (ipaddr_print_addr a) = Some a \<and>
   list_all (\<lambda>p. ipaddr_ipv4_prefix_from_mask (ipaddr_ipv4_mask_from_prefix p) = Some p) [0..<33]"
proof
  show "ipaddr_parse_ipv4_addr_bin (ipaddr_print_addr a) = Some a" by (rule parse_print_addr)
  show "list_all (\<lambda>p. ipaddr_ipv4_prefix_from_mask (ipaddr_ipv4_mask_from_prefix p) = Some p) [0..<33]"
    unfolding list_all_iff
  proof
    fix p :: nat assume "p \<in> set [0..<33]"
    then have "p < 33" by (simp only: set_upt atLeastLessThan_iff)
    then have "p \<le> 32" by linarith
    then show "ipaddr_ipv4_prefix_from_mask (ipaddr_ipv4_mask_from_prefix p) = Some p"
      by (rule prefix_from_mask)
  qed
qed

text \<open>The address order is a total order in the form the balanced trees need: its results are -1, 0 and
  1, it is antisymmetric and transitive, and it is 0 exactly on equal addresses, so a tree keyed by
  addresses holds one entry per address.\<close>

theorem address_order_total:
  "BAddr_CompareOrder a b \<in> {- 1, 0, 1} \<and> BAddr_CompareOrder b a = - BAddr_CompareOrder a b \<and>
   (BAddr_CompareOrder a b = 0 \<longleftrightarrow> a = b) \<and>
   \<not> (BAddr_CompareOrder a b \<le> 0 \<and> BAddr_CompareOrder b c \<le> 0 \<and> 0 < BAddr_CompareOrder a c)"
  using addr_order.cmp_range [of a b] addr_order.cmp_swap [of b a] compare_order_0 [of a b]
    addr_order.cmp_trans [of a b c] by auto

text \<open>An IPv4 endpoint survives its text form: with a resolver that returns the address bytes for the
  dotted form of the address, \<open>BAddr_Parse2\<close> gives back exactly the address and port that
  \<open>BAddr_Print\<close> printed.\<close>

theorem endpoint_text_roundtrip:
  assumes "gai noresolve False (ipaddr_print_addr ip) = Some (mem32 ip)"
  shows "BAddr_Parse2 gai (BAddr_Print (Addr_V4 ip port)) None noresolve = Some (Addr_V4 ip port, None)"
proof -
  let ?a = "ipaddr_print_addr ip" and ?p = "generate_decimal_repr_string (ucast (ntoh16 port))"
  have oct: "\<forall>c\<in>set (print_u8 b). is_digit c" for b using print_u8_spec(2) by blast
  have ac: "\<forall>c\<in>set ?a. is_digit c \<or> c = CHR ''.''" 
    using oct by (auto simp: ipaddr_print_addr_def Let_def)
  have ne: "\<forall>c\<in>set ?a. c \<noteq> CHR '':''" using ac not_digit by auto
  have hd_ne: "?a \<noteq> [] \<and> hd ?a \<noteq> CHR ''[''"
  proof
    show "?a \<noteq> []" by (simp add: ipaddr_print_addr_def Let_def)
    then have "hd ?a \<in> set ?a" by simp
    then show "hd ?a \<noteq> CHR ''[''" using ac by (auto simp: is_digit_def)
  qed
  have la: "length ?a \<le> 15"
    using print_u8_spec(4) [of "mem32 ip ! 0"] print_u8_spec(4) [of "mem32 ip ! 1"]
      print_u8_spec(4) [of "mem32 ip ! 2"] print_u8_spec(4) [of "mem32 ip ! 3"]
    by (simp add: ipaddr_print_addr_def Let_def del: le_bytes.simps)
  have pd: "?p \<noteq> []" "\<forall>c\<in>set ?p. is_digit c" "decimal_val ?p = unat (ntoh16 port)"
    using generate_spec [of "ucast (ntoh16 port)" "[]"] unat_u16_less [of "ntoh16 port"]
    by (simp_all add: generate_decimal_repr_string_def unat_ucast_16_64)
  have lp: "length ?p \<le> 5"
    using generate_length_16 [of "ntoh16 port"] by simp
  have split: "split_endpoint (?a @ CHR '':'' # ?p) = Some (False, ?a, ?p)"
    using hd_ne ne by (simp add: split_endpoint_def takeWhile_append2 hd_append Let_def)
  have port: "hton16 (word_of_int (int (unat (ntoh16 port)))) = port"
    by simp
  have range: "\<not> (int (unat (ntoh16 port)) < 0 \<or> int (unat (ntoh16 port)) > UINT16_MAX)"
    using unat_u16_less [of "ntoh16 port"] by linarith
  have ip: "of_le (mem32 ip) = ip" by simp
  have str: "BAddr_Print (Addr_V4 ip port) = ?a @ CHR '':'' # ?p" by simp
  have len: "\<not> (length (?a @ CHR '':'' # ?p) < 1 \<or> length (?a @ CHR '':'' # ?p) > 1000)"
    "\<not> length ?a \<ge> 128" "\<not> length ?p \<ge> 6" "\<not> (?p = [] \<or> [] \<noteq> ([] :: string))"
    using la lp pd(1) by simp_all
  show ?thesis
    unfolding BAddr_Parse2_def str split strtol_digits [OF pd(1,2), unfolded pd(3)] Let_def
    using len range port assms ip
    by (simp only: if_False if_True option.case prod.case strtol_digits [OF pd(1,2), unfolded pd(3)])
qed

lemma endpoint_text_roundtrip_witness:
  "BAddr_Parse2 (\<lambda>_ v6 s. if v6 then None else map_option mem32 (ipaddr_parse_ipv4_addr_bin s))
     (BAddr_Print (Addr_V4 0x0100007F 0x3500)) None True = Some (Addr_V4 0x0100007F 0x3500, None)"
  by (rule endpoint_text_roundtrip) (simp add: parse_print_addr del: le_bytes.simps)

end
