(* ===== verification/Udpgw_Proto.thy ===== *)
theory Udpgw_Proto
  imports Addr
begin

text \<open>
  The wire format between the udpgw client and its server (\<open>protocol/udpgw_proto.h\<close>): the packed
  headers, the flags, the largest message, and the two uses the client makes of them, writing a message
  in \<open>connection_send\<close> and reading one in \<open>recv_interface_handler_send\<close> (\<open>udpgw_client/UdpGwClient.c\<close>).
  The build defines \<open>ANDROID\<close>, which selects \<open>struct socks_udp_header\<close> in \<open>udpgw_compute_mtu\<close>.
\<close>

section \<open>Headers\<close>

definition UDPGW_CLIENT_FLAG_KEEPALIVE :: byte where "UDPGW_CLIENT_FLAG_KEEPALIVE = push_bit 0 1"
definition UDPGW_CLIENT_FLAG_REBIND :: byte where "UDPGW_CLIENT_FLAG_REBIND = push_bit 1 1"
definition UDPGW_CLIENT_FLAG_DNS :: byte where "UDPGW_CLIENT_FLAG_DNS = push_bit 2 1"
definition UDPGW_CLIENT_FLAG_IPV6 :: byte where "UDPGW_CLIENT_FLAG_IPV6 = push_bit 3 1"

record udpgw_header =
  hdr_flags :: byte
  hdr_conid :: u16

definition udpgw_enc :: "udpgw_header \<Rightarrow> byte list" where
  "udpgw_enc h = hdr_flags h # mem16 (hdr_conid h)"

definition udpgw_dec :: "byte list \<Rightarrow> udpgw_header" where
  "udpgw_dec bs = \<lparr>hdr_flags = ld8 0 bs, hdr_conid = ld16 1 bs\<rparr>"

record udpgw_addr_ipv4 =
  addr4_ip :: u32
  addr4_port :: u16

definition addr4_enc :: "udpgw_addr_ipv4 \<Rightarrow> byte list" where
  "addr4_enc a = mem32 (addr4_ip a) @ mem16 (addr4_port a)"

definition addr4_dec :: "byte list \<Rightarrow> udpgw_addr_ipv4" where
  "addr4_dec bs = \<lparr>addr4_ip = ld32 0 bs, addr4_port = ld16 4 bs\<rparr>"

record udpgw_addr_ipv6 =
  addr6_ip :: "byte list"
  addr6_port :: u16

definition addr6_enc :: "udpgw_addr_ipv6 \<Rightarrow> byte list" where
  "addr6_enc a = addr6_ip a @ mem16 (addr6_port a)"

definition addr6_dec :: "byte list \<Rightarrow> udpgw_addr_ipv6" where
  "addr6_dec bs = \<lparr>addr6_ip = segment 0 16 bs, addr6_port = ld16 16 bs\<rparr>"

interpretation udpgw_hdr: codec 3 "\<lambda>_. True" udpgw_enc udpgw_dec
proof unfold_locales
  fix bs :: "byte list" assume "3 \<le> length bs"
  then show "udpgw_enc (udpgw_dec bs) = take 3 bs"
    by (simp add: udpgw_enc_def udpgw_dec_def mem_ld wire_simps numeral_3_eq_3 flip: segment_0)
qed (simp_all add: udpgw_enc_def udpgw_dec_def wire_simps)

interpretation udpgw_addr4: codec 6 "\<lambda>_. True" addr4_enc addr4_dec
proof unfold_locales
  fix bs :: "byte list" assume "6 \<le> length bs"
  then show "addr4_enc (addr4_dec bs) = take 6 bs"
    by (simp add: addr4_enc_def addr4_dec_def mem_ld wire_simps flip: segment_0)
qed (simp_all add: addr4_enc_def addr4_dec_def wire_simps)

interpretation udpgw_addr6: codec 18 "\<lambda>a. length (addr6_ip a) = 16" addr6_enc addr6_dec
proof unfold_locales
  fix bs :: "byte list" assume "18 \<le> length bs"
  then show "addr6_enc (addr6_dec bs) = take 18 bs"
    by (simp add: addr6_enc_def addr6_dec_def mem_ld wire_simps flip: segment_0)
qed (simp_all add: addr6_enc_def addr6_dec_def wire_simps length_segment)

section \<open>Message size\<close>

text \<open>The sizes of \<open>struct socks_udp_header\<close> and of the two addresses, in \<open>size_t\<close>.\<close>

definition udpgw_compute_mtu :: "'w::len itself \<Rightarrow> int \<Rightarrow> int" where
  "udpgw_compute_mtu w dgram_mtu =
     (let bs = bsize_add (bsize_fromsize (4 :: 'w word))
                 (bsize_add (bsize_max (bsize_fromsize 6) (bsize_fromsize 18)) (bsize_fromint dgram_mtu))
      in case bsize_toint bs of None \<Rightarrow> - 1 | Some s \<Rightarrow> s)"

lemma compute_mtu_exact:
  assumes "32 \<le> LENGTH('w::len)" "0 \<le> dgram_mtu" "dgram_mtu \<le> INT_MAX"
  shows "udpgw_compute_mtu TYPE('w) dgram_mtu = (if dgram_mtu + 22 \<le> INT_MAX then dgram_mtu + 22 else - 1)"
proof -
  have big: "(4294967296 :: nat) \<le> 2 ^ LENGTH('w)"
    using power_increasing [OF assms(1), of "2 :: nat"] by simp
  have "unat (of_nat k :: 'w word) = k" if "k < 4294967296" for k
    using that big by (simp add: unat_of_nat take_bit_nat_eq_self)
  from this [of 4] this [of 6] this [of 18]
  have small: "bsize_num (bsize_fromsize (4 :: 'w word)) = Some 4"
    "bsize_num (bsize_fromsize (6 :: 'w word)) = Some 6" "bsize_num (bsize_fromsize (18 :: 'w word)) = Some 18"
    by (simp_all del: unat_numeral)
  obtain n where n: "dgram_mtu = int n" using assms(2) by (rule nonneg_int_cases)
  have "n \<le> 2147483647" using assms(3) n by simp
  then have "bsize_num (bsize_add (bsize_fromsize (4 :: 'w word))
      (bsize_add (bsize_max (bsize_fromsize 6) (bsize_fromsize 18)) (bsize_fromint dgram_mtu))) = Some (22 + n)"
    using big assms n
    by (simp add: bsize_num_add bsize_num_max bsize_num_fromint small fits_def del: bsize_num_fromsize)
  then show ?thesis by (simp add: udpgw_compute_mtu_def Let_def bsize_toint_num n add.commute)
qed

section \<open>Writing and reading a message\<close>

text \<open>The bytes \<open>connection_send\<close> writes into its buffer.\<close>

definition udpgw_message :: "byte \<Rightarrow> u16 \<Rightarrow> baddr \<Rightarrow> byte list \<Rightarrow> byte list" where
  "udpgw_message flags conid remote_addr data =
     (let flags = (case remote_addr of Addr_V6 _ _ \<Rightarrow> flags OR UDPGW_CLIENT_FLAG_IPV6 | _ \<Rightarrow> flags)
      in udpgw_enc \<lparr>hdr_flags = htol8 flags, hdr_conid = htol16 conid\<rparr> @
         (case remote_addr of
            Addr_V4 ip port \<Rightarrow> addr4_enc \<lparr>addr4_ip = ip, addr4_port = port\<rparr>
          | Addr_V6 ip port \<Rightarrow> addr6_enc \<lparr>addr6_ip = ip, addr6_port = port\<rparr>
          | Addr_None \<Rightarrow> []) @ data)"

datatype udpgw_error =
  Missing_header | Missing_ipv6_address | Missing_ipv4_address | Too_much_data
| Unknown_conid | Wrong_remote_address

text \<open>The parsing part of \<open>recv_interface_handler_send\<close>: connection id, remote address and data.\<close>

definition udpgw_parse :: "int \<Rightarrow> byte list \<Rightarrow> udpgw_error + (u16 \<times> baddr \<times> byte list)" where
  "udpgw_parse udp_mtu data =
     (if length data < 3 then Inl Missing_header
      else
        let header = udpgw_dec data; data = drop 3 data;
            flags = ltoh8 (hdr_flags header); conid = ltoh16 (hdr_conid header) in
        case (if flags AND UDPGW_CLIENT_FLAG_IPV6 \<noteq> 0 then
                (if length data < 18 then Inl Missing_ipv6_address
                 else let a = addr6_dec data in Inr (Addr_V6 (addr6_ip a) (addr6_port a), drop 18 data))
              else
                (if length data < 6 then Inl Missing_ipv4_address
                 else let a = addr4_dec data in Inr (Addr_V4 (addr4_ip a) (addr4_port a), drop 6 data))) of
          Inl e \<Rightarrow> Inl e
        | Inr (remote_addr, data) \<Rightarrow>
            if int (length data) > udp_mtu then Inl Too_much_data
            else Inr (conid, remote_addr, data))"

lemma ipv6_flag_value: "UDPGW_CLIENT_FLAG_IPV6 = 8"
  by (simp add: UDPGW_CLIENT_FLAG_IPV6_def push_bit_eq_mult)

lemma ipv6_flag_set: "(flags OR UDPGW_CLIENT_FLAG_IPV6) AND UDPGW_CLIENT_FLAG_IPV6 \<noteq> 0"
proof -
  have "(flags OR UDPGW_CLIENT_FLAG_IPV6) AND UDPGW_CLIENT_FLAG_IPV6 = UDPGW_CLIENT_FLAG_IPV6"
    by (rule bit_word_eqI) (auto simp: bit_simps)
  then show ?thesis by (simp add: ipv6_flag_value)
qed

lemma parse_message:
  assumes "addr_ok remote" "flags AND UDPGW_CLIENT_FLAG_IPV6 = 0" "int (length data) \<le> udp_mtu"
  shows "udpgw_parse udp_mtu (udpgw_message flags conid remote data) = Inr (conid, remote, data)"
proof (cases remote)
  case Addr_None
  then show ?thesis using assms by simp
next
  case (Addr_V4 ip port)
  then show ?thesis
    using assms udpgw_hdr.enc_length udpgw_addr4.enc_length
    by (simp add: udpgw_parse_def udpgw_message_def Let_def udpgw_hdr.dec_enc udpgw_addr4.dec_enc
        ltoh8_def htol8_def ltoh16_def htol16_def)
next
  case (Addr_V6 ip port)
  then have "length (addr6_enc \<lparr>addr6_ip = ip, addr6_port = port\<rparr>) = 18"
    "addr6_dec (addr6_enc \<lparr>addr6_ip = ip, addr6_port = port\<rparr> @ data) = \<lparr>addr6_ip = ip, addr6_port = port\<rparr>"
    using assms(1) by (simp_all add: udpgw_addr6.enc_length udpgw_addr6.dec_enc)
  then show ?thesis
    using assms(3) Addr_V6 udpgw_hdr.enc_length
    by (simp add: udpgw_parse_def udpgw_message_def Let_def udpgw_hdr.dec_enc ipv6_flag_set [simplified]
        ltoh8_def htol8_def ltoh16_def htol16_def)
qed

lemma message_length:
  "addr_ok remote \<Longrightarrow> length (udpgw_message flags conid remote data) \<le> 21 + length data"
  by (cases remote) (simp_all add: udpgw_message_def Let_def udpgw_hdr.enc_length udpgw_addr4.enc_length
      udpgw_addr6.enc_length)

lemma parse_sound:
  assumes "udpgw_parse udp_mtu bs = Inr (conid, remote, data)"
  shows "addr_ok remote \<and> int (length data) \<le> udp_mtu \<and> (\<exists>n. data = drop n bs)"
  using assms by (auto simp: udpgw_parse_def Let_def addr6_dec_def length_segment split: if_splits)

end
