(* ===== verification/Udpgw_Client.thy ===== *)
theory Udpgw_Client
  imports Udpgw_Proto
begin

text \<open>
  The udpgw client (\<open>udpgw_client/UdpGwClient.c\<close>): a table of UDP flows, each with a connection id,
  kept in two balanced trees (by address pair, by id) and a list in order of use. A connection lives at
  an address of \<open>uc_heap\<close> and the trees and the list hold addresses, as the C nodes do; the keys the
  trees compare are read through the heap. \<open>malloc\<close> and the set-up of a connection's send flow are
  parameters: the address returned (\<open>None\<close> for failure) and whether the flow could be made. What the
  client hands to other components is returned as a list of effects.
\<close>

section \<open>State\<close>

record conaddr =
  local_addr :: baddr
  remote_addr :: baddr

text \<open>\<open>con_out_have\<close> is \<open>out_have\<close> of the connection's \<open>BufferWriter\<close>.\<close>

record connection =
  con_addr :: conaddr
  con_conid :: u16
  con_first_job :: bool
  con_first_flags :: byte
  con_first_data :: "byte list"
  con_out_have :: bool

record udpgw_client =
  uc_udp_mtu :: int
  uc_max_connections :: int
  uc_udpgw_mtu :: int
  uc_pp_mtu :: int
  uc_heap :: "nat \<Rightarrow> connection option"
  uc_by_conaddr :: "nat avl_tree"
  uc_by_conid :: "nat avl_tree"
  uc_list :: "nat list"
  uc_num_connections :: int
  uc_next_conid :: int
  uc_keepalive_sending :: bool
  uc_have_server :: bool

datatype client_effect =
  To_flow nat "byte list"
| Out_of_buffer nat
| To_keepalive_flow "byte list"
| Received baddr baddr "byte list"
| Dropped udpgw_error
| Server_error

definition uint16_comparator :: "u16 \<Rightarrow> u16 \<Rightarrow> int" where
  "uint16_comparator v1 v2 = B_COMPARE v1 v2"

definition conaddr_comparator :: "conaddr \<Rightarrow> conaddr \<Rightarrow> int" where
  "conaddr_comparator v1 v2 =
     (let r = BAddr_CompareOrder (remote_addr v1) (remote_addr v2) in
      if r \<noteq> 0 then r else BAddr_CompareOrder (local_addr v1) (local_addr v2))"

text \<open>The keys of the two trees.\<close>

definition addr_at :: "udpgw_client \<Rightarrow> nat \<Rightarrow> conaddr" where
  "addr_at cl p = con_addr (the (uc_heap cl p))"

definition conid_at :: "udpgw_client \<Rightarrow> nat \<Rightarrow> u16" where
  "conid_at cl p = con_conid (the (uc_heap cl p))"

section \<open>Connections\<close>

definition find_connection_by_conaddr :: "udpgw_client \<Rightarrow> conaddr \<Rightarrow> nat option" where
  "find_connection_by_conaddr cl a = BAVL_LookupExact (addr_at cl) conaddr_comparator (uc_by_conaddr cl) a"

definition find_connection_by_conid :: "udpgw_client \<Rightarrow> u16 \<Rightarrow> nat option" where
  "find_connection_by_conid cl c = BAVL_LookupExact (conid_at cl) uint16_comparator (uc_by_conid cl) c"

text \<open>The loop of \<open>find_unused_conid\<close>; \<open>None\<close> stands for a search that never ends.\<close>

partial_function (option) conid_search :: "(u16 \<Rightarrow> bool) \<Rightarrow> int \<Rightarrow> int \<Rightarrow> int option" where
  "conid_search used max_connections next_conid =
     (if \<not> used (word_of_int next_conid) then Some next_conid
      else conid_search used max_connections
             (if next_conid = max_connections - 1 then 0 else next_conid + 1))"

definition find_unused_conid :: "udpgw_client \<Rightarrow> (u16 \<times> udpgw_client) option" where
  "find_unused_conid cl =
     map_option (\<lambda>n. (word_of_int n, cl\<lparr>uc_next_conid := n\<rparr>))
       (conid_search (\<lambda>c. find_connection_by_conid cl c \<noteq> None) (uc_max_connections cl) (uc_next_conid cl))"

definition insert_by_conaddr :: "nat \<Rightarrow> udpgw_client \<Rightarrow> udpgw_client" where
  "insert_by_conaddr p cl =
     cl\<lparr>uc_by_conaddr := fst (BAVL_Insert (addr_at cl) conaddr_comparator (uc_by_conaddr cl) p)\<rparr>"

definition remove_by_conaddr :: "nat \<Rightarrow> udpgw_client \<Rightarrow> udpgw_client" where
  "remove_by_conaddr p cl =
     cl\<lparr>uc_by_conaddr := BAVL_Remove (addr_at cl) conaddr_comparator (uc_by_conaddr cl) p\<rparr>"

definition insert_by_conid :: "nat \<Rightarrow> udpgw_client \<Rightarrow> udpgw_client" where
  "insert_by_conid p cl =
     cl\<lparr>uc_by_conid := fst (BAVL_Insert (conid_at cl) uint16_comparator (uc_by_conid cl) p)\<rparr>"

definition remove_by_conid :: "nat \<Rightarrow> udpgw_client \<Rightarrow> udpgw_client" where
  "remove_by_conid p cl =
     cl\<lparr>uc_by_conid := BAVL_Remove (conid_at cl) uint16_comparator (uc_by_conid cl) p\<rparr>"

definition connection_init ::
  "nat option \<Rightarrow> bool \<Rightarrow> udpgw_client \<Rightarrow> conaddr \<Rightarrow> byte \<Rightarrow> byte list \<Rightarrow> udpgw_client option" where
  "connection_init malloc flow_ok cl addr flags data =
     (case malloc of
        None \<Rightarrow> Some cl
      | Some p \<Rightarrow>
          (case find_unused_conid cl of
             None \<Rightarrow> None
           | Some (conid, cl) \<Rightarrow>
               if \<not> flow_ok then Some cl
               else
                 let con = \<lparr>con_addr = addr, con_conid = conid, con_first_job = True,
                            con_first_flags = flags, con_first_data = data, con_out_have = False\<rparr>;
                     cl = cl\<lparr>uc_heap := (uc_heap cl)(p \<mapsto> con)\<rparr>;
                     cl = insert_by_conaddr p cl;
                     cl = insert_by_conid p cl;
                     cl = cl\<lparr>uc_list := uc_list cl @ [p]\<rparr>
                 in Some (cl\<lparr>uc_num_connections := uc_num_connections cl + 1\<rparr>)))"

definition connection_free :: "nat \<Rightarrow> udpgw_client \<Rightarrow> udpgw_client" where
  "connection_free p cl =
     (let cl = cl\<lparr>uc_num_connections := uc_num_connections cl - 1\<rparr>;
          cl = cl\<lparr>uc_list := remove1 p (uc_list cl)\<rparr>;
          cl = remove_by_conid p cl;
          cl = remove_by_conaddr p cl
      in cl\<lparr>uc_heap := (uc_heap cl)(p := None)\<rparr>)"

text \<open>An update of one connection's fields.\<close>

definition update_con :: "nat \<Rightarrow> (connection \<Rightarrow> connection) \<Rightarrow> udpgw_client \<Rightarrow> udpgw_client" where
  "update_con p f cl = cl\<lparr>uc_heap := (uc_heap cl)(p := map_option f (uc_heap cl p))\<rparr>"

definition connection_send ::
  "nat \<Rightarrow> byte \<Rightarrow> byte list \<Rightarrow> udpgw_client \<Rightarrow> udpgw_client \<times> client_effect list" where
  "connection_send p flags data cl =
     (let con = the (uc_heap cl p) in
      if \<not> con_out_have con then (cl, [Out_of_buffer p])
      else (update_con p (\<lambda>con. con\<lparr>con_out_have := False\<rparr>) cl,
            [To_flow p (udpgw_message flags (con_conid con) (remote_addr (con_addr con)) data)]))"

definition connection_first_job_handler :: "nat \<Rightarrow> udpgw_client \<Rightarrow> udpgw_client \<times> client_effect list" where
  "connection_first_job_handler p cl =
     (let con = the (uc_heap cl p) in
      connection_send p (UDPGW_CLIENT_FLAG_REBIND OR con_first_flags con) (con_first_data con)
        (update_con p (\<lambda>con. con\<lparr>con_first_job := False\<rparr>) cl))"

text \<open>\<open>output_handler_recv\<close> of the connection's \<open>BufferWriter\<close>: the flow wants the next packet.\<close>

definition bw_output_handler_recv :: "nat \<Rightarrow> udpgw_client \<Rightarrow> udpgw_client" where
  "bw_output_handler_recv p cl = update_con p (\<lambda>con. con\<lparr>con_out_have := True\<rparr>) cl"

definition reuse_connection :: "udpgw_client \<Rightarrow> conaddr \<Rightarrow> (nat \<times> udpgw_client) option" where
  "reuse_connection cl addr =
     (case uc_list cl of
        [] \<Rightarrow> None
      | p # _ \<Rightarrow>
          let cl = remove_by_conaddr p cl;
              cl = update_con p (\<lambda>con. con\<lparr>con_addr := addr\<rparr>) cl
          in Some (p, insert_by_conaddr p cl))"

text \<open>Moving a connection to the end of the list, the most recently used.\<close>

definition touch :: "nat \<Rightarrow> udpgw_client \<Rightarrow> udpgw_client" where
  "touch p cl = cl\<lparr>uc_list := remove1 p (uc_list cl) @ [p]\<rparr>"

section \<open>The client's operations\<close>

definition UdpGwClient_Init ::
  "'w::len itself \<Rightarrow> int \<Rightarrow> int \<Rightarrow> bool \<Rightarrow> udpgw_client option" where
  "UdpGwClient_Init w udp_mtu max_connections queue_ok =
     (let max_connections = (if max_connections > UINT16_MAX + 1 then UINT16_MAX + 1 else max_connections);
          udpgw_mtu = udpgw_compute_mtu w udp_mtu
      in if \<not> queue_ok then None
         else Some \<lparr>uc_udp_mtu = udp_mtu, uc_max_connections = max_connections, uc_udpgw_mtu = udpgw_mtu,
           uc_pp_mtu = udpgw_mtu + 2, uc_heap = Map.empty, uc_by_conaddr = BAVL_Init, uc_by_conid = BAVL_Init,
           uc_list = [], uc_num_connections = 0, uc_next_conid = 0, uc_keepalive_sending = False,
           uc_have_server = False\<rparr>)"

definition UdpGwClient_SubmitPacket ::
  "nat option \<Rightarrow> bool \<Rightarrow> baddr \<Rightarrow> baddr \<Rightarrow> bool \<Rightarrow> byte list \<Rightarrow> udpgw_client \<Rightarrow>
     (udpgw_client \<times> client_effect list) option" where
  "UdpGwClient_SubmitPacket malloc flow_ok local remote is_dns data cl =
     (let addr = \<lparr>local_addr = local, remote_addr = remote\<rparr>;
          con = find_connection_by_conaddr cl addr;
          flags = (if is_dns then UDPGW_CLIENT_FLAG_DNS else 0)
      in case (if con = None \<and> uc_num_connections cl = uc_max_connections cl
               then map_option (\<lambda>(p, cl). (Some p, flags OR UDPGW_CLIENT_FLAG_REBIND, cl)) (reuse_connection cl addr)
               else Some (con, flags, cl)) of
           None \<Rightarrow> None
         | Some (None, flags, cl) \<Rightarrow>
             map_option (\<lambda>cl. (cl, [])) (connection_init malloc flow_ok cl addr flags data)
         | Some (Some p, flags, cl) \<Rightarrow> Some (connection_send p flags data (touch p cl)))"

definition recv_interface_handler_send ::
  "byte list \<Rightarrow> udpgw_client \<Rightarrow> udpgw_client \<times> client_effect list" where
  "recv_interface_handler_send data cl =
     (case udpgw_parse (uc_udp_mtu cl) data of
        Inl e \<Rightarrow> (cl, [Dropped e])
      | Inr (conid, remote, data) \<Rightarrow>
          (case find_connection_by_conid cl conid of
             None \<Rightarrow> (cl, [Dropped Unknown_conid])
           | Some p \<Rightarrow>
               let con = the (uc_heap cl p) in
               if BAddr_CompareOrder (remote_addr (con_addr con)) remote \<noteq> 0
               then (cl, [Dropped Wrong_remote_address])
               else (touch p cl,
                     [Received (local_addr (con_addr con)) (remote_addr (con_addr con)) data])))"

text \<open>The keep-alive packet: a \<open>packetproto\<close> header and a udpgw header with connection id 0.\<close>

definition keepalive_packet :: "byte list" where
  "keepalive_packet = mem16 3 @ udpgw_enc \<lparr>hdr_flags = UDPGW_CLIENT_FLAG_KEEPALIVE, hdr_conid = 0\<rparr>"

definition send_monitor_handler :: "udpgw_client \<Rightarrow> udpgw_client \<times> client_effect list" where
  "send_monitor_handler cl =
     (if uc_keepalive_sending cl then (cl, [])
      else (cl\<lparr>uc_keepalive_sending := True\<rparr>, [To_keepalive_flow keepalive_packet]))"

definition keepalive_if_handler_done :: "udpgw_client \<Rightarrow> udpgw_client" where
  "keepalive_if_handler_done cl = cl\<lparr>uc_keepalive_sending := False\<rparr>"

definition UdpGwClient_ConnectServer :: "bool \<Rightarrow> udpgw_client \<Rightarrow> bool \<times> udpgw_client" where
  "UdpGwClient_ConnectServer decoder_ok cl =
     (if \<not> decoder_ok then (False, cl) else (True, cl\<lparr>uc_have_server := True\<rparr>))"

definition UdpGwClient_DisconnectServer :: "udpgw_client \<Rightarrow> udpgw_client" where
  "UdpGwClient_DisconnectServer cl = cl\<lparr>uc_have_server := False\<rparr>"

definition decoder_handler_error :: "udpgw_client \<Rightarrow> udpgw_client \<times> client_effect list" where
  "decoder_handler_error cl = (cl, [Server_error])"

text \<open>The loop of \<open>UdpGwClient_Free\<close> over the list of connections.\<close>

function free_connections :: "udpgw_client \<Rightarrow> udpgw_client" where
  "free_connections cl = (case uc_list cl of [] \<Rightarrow> cl | p # _ \<Rightarrow> free_connections (connection_free p cl))"
  by auto

lemma connection_free_list: "uc_list (connection_free p cl) = remove1 p (uc_list cl)"
  by (simp add: connection_free_def Let_def remove_by_conid_def remove_by_conaddr_def)

termination free_connections
  by (relation "measure (\<lambda>cl. length (uc_list cl))") (auto simp: connection_free_list)

declare free_connections.simps [simp del]

definition UdpGwClient_Free :: "udpgw_client \<Rightarrow> udpgw_client" where
  "UdpGwClient_Free cl =
     (let cl = free_connections cl in if uc_have_server cl then cl\<lparr>uc_have_server := False\<rparr> else cl)"

end
