(* ===== verification/Udpgw_Table.thy ===== *)
theory Udpgw_Table
  imports Udpgw_Client
begin

text \<open>
  Correctness of the udpgw client's connection table: the invariant that ties the two trees, the list and
  the counter to the live connections, the operations that keep it, and the termination of the search
  for a free connection id.
\<close>

section \<open>The two orders\<close>

interpretation conid_order: comparator uint16_comparator
proof -
  have "uint16_comparator = B_COMPARE" by (simp add: fun_eq_iff uint16_comparator_def)
  then show "comparator uint16_comparator" by (simp add: comparator_B_COMPARE)
qed

interpretation conaddr_order: comparator conaddr_comparator
  using comparator_lex [OF addr_order.comparator_axioms addr_order.comparator_axioms,
      of remote_addr local_addr]
  by (simp only: conaddr_comparator_def [abs_def])

lemma conid_cmp_0: "uint16_comparator a b = 0 \<longleftrightarrow> a = b"
  by (simp add: uint16_comparator_def)

lemma conaddr_cmp_0: "conaddr_comparator a b = 0 \<longleftrightarrow> a = b"
  by (cases a; cases b) (auto simp: conaddr_comparator_def Let_def compare_order_0)

section \<open>The invariant\<close>

definition client_inv :: "udpgw_client \<Rightarrow> bool" where
  "client_inv cl \<longleftrightarrow>
     distinct (uc_list cl) \<and> set (uc_list cl) = dom (uc_heap cl) \<and>
     conaddr_order.bst (addr_at cl) (uc_by_conaddr cl) \<and>
     set (inorder (uc_by_conaddr cl)) = dom (uc_heap cl) \<and>
     conid_order.bst (conid_at cl) (uc_by_conid cl) \<and>
     set (inorder (uc_by_conid cl)) = dom (uc_heap cl) \<and>
     uc_num_connections cl = int (length (uc_list cl)) \<and>
     uc_num_connections cl \<le> uc_max_connections cl \<and>
     0 < uc_max_connections cl \<and> uc_max_connections cl \<le> 65536 \<and>
     0 \<le> uc_next_conid cl \<and> uc_next_conid cl < uc_max_connections cl \<and>
     (\<forall>p\<in>dom (uc_heap cl). uint (conid_at cl p) < uc_max_connections cl \<and>
        addr_ok (local_addr (addr_at cl p)) \<and> addr_ok (remote_addr (addr_at cl p)))"

lemma client_invD:
  assumes "client_inv cl"
  shows "distinct (uc_list cl)" "set (uc_list cl) = dom (uc_heap cl)"
    "conaddr_order.bst (addr_at cl) (uc_by_conaddr cl)"
    "set (inorder (uc_by_conaddr cl)) = dom (uc_heap cl)"
    "conid_order.bst (conid_at cl) (uc_by_conid cl)"
    "set (inorder (uc_by_conid cl)) = dom (uc_heap cl)"
    "uc_num_connections cl = int (length (uc_list cl))"
    "uc_num_connections cl \<le> uc_max_connections cl"
    "0 < uc_max_connections cl" "uc_max_connections cl \<le> 65536"
    "0 \<le> uc_next_conid cl" "uc_next_conid cl < uc_max_connections cl"
    "\<And>p. p \<in> dom (uc_heap cl) \<Longrightarrow> uint (conid_at cl p) < uc_max_connections cl"
    "\<And>p. p \<in> dom (uc_heap cl) \<Longrightarrow> addr_ok (local_addr (addr_at cl p))"
    "\<And>p. p \<in> dom (uc_heap cl) \<Longrightarrow> addr_ok (remote_addr (addr_at cl p))"
  using assms by (simp_all add: client_inv_def)

lemma find_by_conaddr_iff:
  "client_inv cl \<Longrightarrow> find_connection_by_conaddr cl a = Some p \<longleftrightarrow> p \<in> dom (uc_heap cl) \<and> addr_at cl p = a"
  by (auto simp: find_connection_by_conaddr_def conaddr_order.lookup_exact_iff client_invD conaddr_cmp_0)

lemma find_by_conid_iff:
  "client_inv cl \<Longrightarrow> find_connection_by_conid cl c = Some p \<longleftrightarrow> p \<in> dom (uc_heap cl) \<and> conid_at cl p = c"
  by (auto simp: find_connection_by_conid_def conid_order.lookup_exact_iff client_invD conid_cmp_0)

lemma none_iff: "x = None \<longleftrightarrow> (\<forall>p. x \<noteq> Some p)"
  by (cases x) auto

lemma find_by_conaddr_None:
  "client_inv cl \<Longrightarrow> find_connection_by_conaddr cl a = None \<longleftrightarrow> a \<notin> addr_at cl ` dom (uc_heap cl)"
  unfolding none_iff by (auto simp: find_by_conaddr_iff)

lemma find_by_conid_None:
  "client_inv cl \<Longrightarrow> find_connection_by_conid cl c = None \<longleftrightarrow> c \<notin> conid_at cl ` dom (uc_heap cl)"
  unfolding none_iff by (auto simp: find_by_conid_iff)

lemma addr_at_inject:
  "client_inv cl \<Longrightarrow> p \<in> dom (uc_heap cl) \<Longrightarrow> q \<in> dom (uc_heap cl) \<Longrightarrow> addr_at cl p = addr_at cl q \<Longrightarrow> p = q"
  by (metis find_by_conaddr_iff option.inject)

lemma conid_at_inject:
  "client_inv cl \<Longrightarrow> p \<in> dom (uc_heap cl) \<Longrightarrow> q \<in> dom (uc_heap cl) \<Longrightarrow> conid_at cl p = conid_at cl q \<Longrightarrow> p = q"
  by (metis find_by_conid_iff option.inject)

section \<open>A free connection id\<close>

lemma search_reaches:
  assumes "0 \<le> n" "n < m" "\<not> used (word_of_int ((n + int i) mod m))"
  shows "\<exists>r. conid_search used m n = Some r \<and> 0 \<le> r \<and> r < m \<and> \<not> used (word_of_int r)"
  using assms
proof (induction i arbitrary: n)
  case 0
  then show ?case by (simp add: conid_search.simps [of used m n])
next
  case (Suc i)
  show ?case
  proof (cases "used (word_of_int n)")
    case True
    define k where "k = (if n = m - 1 then 0 else n + 1)"
    have k: "0 \<le> k" "k < m" using Suc.prems by (auto simp: k_def)
    have "(k + int i) mod m = (n + int (Suc i)) mod m"
      using mod_add_self1 [of "1 + n" "int i"] by (auto simp: k_def add.assoc add.left_commute)
    then have "\<exists>r. conid_search used m k = Some r \<and> 0 \<le> r \<and> r < m \<and> \<not> used (word_of_int r)"
      using Suc.IH [OF k] Suc.prems(3) by simp
    then show ?thesis using True by (simp add: conid_search.simps [of used m n] k_def)
  next
    case False
    then show ?thesis using Suc.prems by (simp add: conid_search.simps [of used m n])
  qed
qed

lemma free_conid_exists:
  assumes "int (card U) < m" "finite U" "m \<le> 65536" "0 < m"
  shows "\<exists>c. 0 \<le> c \<and> c < m \<and> (word_of_int c :: u16) \<notin> U"
proof (rule ccontr)
  assume "\<nexists>c. 0 \<le> c \<and> c < m \<and> (word_of_int c :: u16) \<notin> U"
  then have sub: "(word_of_int :: int \<Rightarrow> u16) ` {0..<m} \<subseteq> U" by auto
  have "inj_on (word_of_int :: int \<Rightarrow> u16) {0..<m}"
  proof (rule inj_onI)
    fix x y assume "x \<in> {0..<m}" "y \<in> {0..<m}" "(word_of_int x :: u16) = word_of_int y"
    then have "take_bit 16 x = take_bit 16 y" "0 \<le> x" "x < 2 ^ 16" "0 \<le> y" "y < 2 ^ 16"
      using assms(3) by (auto simp: word_of_int_eq_iff)
    then show "x = y" by (simp add: take_bit_int_eq_self)
  qed
  then have "card {0..<m} \<le> card U"
    using card_inj_on_le [OF _ sub assms(2)] by blast
  then show False using assms(1,4) by simp
qed

lemma find_unused_conid_finds:
  assumes "client_inv cl" "uc_num_connections cl < uc_max_connections cl"
  shows "\<exists>c n. find_unused_conid cl = Some (c, cl\<lparr>uc_next_conid := n\<rparr>) \<and> uint c = n \<and> 0 \<le> n \<and>
           n < uc_max_connections cl \<and> c \<notin> conid_at cl ` dom (uc_heap cl)"
proof -
  note inv = client_invD [OF assms(1)]
  let ?U = "conid_at cl ` dom (uc_heap cl)" and ?m = "uc_max_connections cl" and ?n = "uc_next_conid cl"
  let ?used = "\<lambda>c. find_connection_by_conid cl c \<noteq> None"
  have fin: "finite ?U" using inv(2) by (metis List.finite_set finite_imageI)
  have "card ?U \<le> length (uc_list cl)"
    unfolding inv(2) [symmetric]
    using card_image_le [of "set (uc_list cl)" "conid_at cl"] card_length [of "uc_list cl"] by simp
  then have "int (card ?U) < ?m" using inv(7) assms(2) by linarith
  then obtain c where c: "0 \<le> c" "c < ?m" "(word_of_int c :: u16) \<notin> ?U"
    using free_conid_exists [OF _ fin inv(10,9)] by blast
  have "(?n + int (nat ((c - ?n) mod ?m))) mod ?m = c"
    using c(1,2) inv(9) by (simp add: mod_add_right_eq)
  then have "\<not> ?used (word_of_int ((?n + int (nat ((c - ?n) mod ?m))) mod ?m))"
    using c(3) by (simp add: find_by_conid_None [OF assms(1)])
  from search_reaches [OF inv(11,12), of ?used, OF this] obtain r where
    r: "conid_search ?used ?m ?n = Some r" "0 \<le> r" "r < ?m" "\<not> ?used (word_of_int r)" by blast
  have "r < 2 ^ 16" using r(3) inv(10) by simp
  then have "uint (word_of_int r :: u16) = r" using r(2) by (simp add: unsigned_of_int take_bit_int_eq_self)
  then show ?thesis
    using r by (auto simp: find_unused_conid_def find_by_conid_None [OF assms(1)])
qed

section \<open>Operations keep the invariant\<close>

lemma update_con_simps [simp]:
  "uc_list (update_con p f cl) = uc_list cl" "uc_by_conaddr (update_con p f cl) = uc_by_conaddr cl"
  "uc_by_conid (update_con p f cl) = uc_by_conid cl" "dom (uc_heap (update_con p f cl)) = dom (uc_heap cl)"
  "uc_num_connections (update_con p f cl) = uc_num_connections cl"
  "uc_max_connections (update_con p f cl) = uc_max_connections cl"
  "uc_next_conid (update_con p f cl) = uc_next_conid cl" "uc_udp_mtu (update_con p f cl) = uc_udp_mtu cl"
  "uc_heap (update_con p f cl) q = (if q = p then map_option f (uc_heap cl p) else uc_heap cl q)"
  by (auto simp: update_con_def dom_def)

lemma update_con_keys:
  assumes "p \<in> dom (uc_heap cl)" "\<And>c. con_addr (f c) = con_addr c" "\<And>c. con_conid (f c) = con_conid c"
  shows "addr_at (update_con p f cl) = addr_at cl" "conid_at (update_con p f cl) = conid_at cl"
  using assms by (auto simp: fun_eq_iff addr_at_def conid_at_def)

lemma inv_update_con:
  assumes "client_inv cl" "p \<in> dom (uc_heap cl)"
    "\<And>c. con_addr (f c) = con_addr c" "\<And>c. con_conid (f c) = con_conid c"
  shows "client_inv (update_con p f cl)"
  using assms(1) unfolding client_inv_def update_con_simps update_con_keys [OF assms(2-4)] .

lemma inv_touch:
  assumes "client_inv cl" "p \<in> dom (uc_heap cl)"
  shows "client_inv (touch p cl)"
proof -
  have k: "addr_at (touch p cl) = addr_at cl" "conid_at (touch p cl) = conid_at cl"
    by (simp_all add: fun_eq_iff touch_def addr_at_def conid_at_def)
  have "p \<in> set (uc_list cl)" using assms by (simp add: client_invD)
  moreover from this have "length (remove1 p (uc_list cl)) + 1 = length (uc_list cl)"
    by (simp add: length_remove1) (metis Suc_pred length_pos_if_in_set)
  ultimately show ?thesis
    using assms(1) unfolding client_inv_def k by (auto simp: touch_def)
qed

lemma inv_next_conid:
  assumes "client_inv cl" "0 \<le> n" "n < uc_max_connections cl"
  shows "client_inv (cl\<lparr>uc_next_conid := n\<rparr>)"
proof -
  have k: "addr_at (cl\<lparr>uc_next_conid := n\<rparr>) = addr_at cl" "conid_at (cl\<lparr>uc_next_conid := n\<rparr>) = conid_at cl"
    by (simp_all add: fun_eq_iff addr_at_def conid_at_def)
  then show ?thesis using assms unfolding client_inv_def k by simp
qed

text \<open>A new connection: fresh address, fresh id, fresh address pair.\<close>

lemma inv_new_connection:
  assumes inv: "client_inv cl" and room: "uc_num_connections cl < uc_max_connections cl"
    and p: "p \<notin> dom (uc_heap cl)" and c: "con_conid con \<notin> conid_at cl ` dom (uc_heap cl)"
    and a: "con_addr con \<notin> addr_at cl ` dom (uc_heap cl)"
    and ok: "uint (con_conid con) < uc_max_connections cl" "addr_ok (local_addr (con_addr con))"
      "addr_ok (remote_addr (con_addr con))"
    and cl1: "cl1 = insert_by_conid p (insert_by_conaddr p (cl\<lparr>uc_heap := (uc_heap cl)(p \<mapsto> con)\<rparr>))"
  shows "client_inv (cl1\<lparr>uc_list := uc_list cl1 @ [p], uc_num_connections := uc_num_connections cl1 + 1\<rparr>)"
    (is "client_inv ?cl")
proof -
  note i = client_invD [OF inv]
  have heap: "uc_heap ?cl = (uc_heap cl)(p \<mapsto> con)" "dom (uc_heap ?cl) = insert p (dom (uc_heap cl))"
    by (auto simp: cl1 insert_by_conid_def insert_by_conaddr_def)
  let ?ka = "addr_at (cl\<lparr>uc_heap := (uc_heap cl)(p \<mapsto> con)\<rparr>)" and
    ?kc = "conid_at (cl\<lparr>uc_heap := (uc_heap cl)(p \<mapsto> con)\<rparr>)"
  have keys: "addr_at ?cl = ?ka" "conid_at ?cl = ?kc"
    "conid_at (insert_by_conaddr p (cl\<lparr>uc_heap := (uc_heap cl)(p \<mapsto> con)\<rparr>)) = ?kc"
    by (simp_all add: fun_eq_iff addr_at_def conid_at_def heap insert_by_conaddr_def)
  have kp: "?ka p = con_addr con" "?kc p = con_conid con" by (simp_all add: addr_at_def conid_at_def)
  have old: "\<forall>q\<in>dom (uc_heap cl). addr_at cl q = ?ka q" "\<forall>q\<in>dom (uc_heap cl). conid_at cl q = ?kc q"
    using p by (auto simp: addr_at_def conid_at_def)
  have ta: "conaddr_order.bst ?ka (uc_by_conaddr cl)" "conid_order.bst ?kc (uc_by_conid cl)"
    using i(3,5) conaddr_order.bst_cong [of "uc_by_conaddr cl" "addr_at cl" ?ka]
      conid_order.bst_cong [of "uc_by_conid cl" "conid_at cl" ?kc] old i(4,6) by auto
  have na: "\<forall>m\<in>set (inorder (uc_by_conaddr cl)). conaddr_comparator (?ka p) (?ka m) \<noteq> 0"
    "\<forall>m\<in>set (inorder (uc_by_conid cl)). uint16_comparator (?kc p) (?kc m) \<noteq> 0"
    using a c old unfolding i(4,6) kp by (auto simp: conaddr_cmp_0 conid_cmp_0)
  have trees: "uc_by_conaddr ?cl = fst (BAVL_Insert ?ka conaddr_comparator (uc_by_conaddr cl) p)"
    "uc_by_conid ?cl = fst (BAVL_Insert ?kc uint16_comparator (uc_by_conid cl) p)"
    by (simp_all add: cl1 insert_by_conid_def keys(3)) (simp_all add: insert_by_conaddr_def)
  have rest: "uc_list ?cl = uc_list cl @ [p]" "uc_num_connections ?cl = uc_num_connections cl + 1"
    "uc_max_connections ?cl = uc_max_connections cl" "uc_next_conid ?cl = uc_next_conid cl"
    by (simp_all add: cl1 insert_by_conid_def insert_by_conaddr_def)
  show ?thesis
    unfolding client_inv_def keys(1,2) trees heap(2) rest
    using conaddr_order.insert_fresh [OF ta(1) na(1)] conid_order.insert_fresh [OF ta(2) na(2)] i p room ok kp old
    by auto
qed

text \<open>Rebinding the least recently used connection to another address pair.\<close>

lemma inv_reuse:
  assumes inv: "client_inv cl" and p: "p \<in> dom (uc_heap cl)" and a: "a \<notin> addr_at cl ` dom (uc_heap cl)"
    and ok: "addr_ok (local_addr a)" "addr_ok (remote_addr a)"
  shows "client_inv (insert_by_conaddr p (update_con p (\<lambda>con. con\<lparr>con_addr := a\<rparr>) (remove_by_conaddr p cl)))"
    (is "client_inv ?cl")
proof -
  note i = client_invD [OF inv]
  let ?t = "BAVL_Remove (addr_at cl) conaddr_comparator (uc_by_conaddr cl) p"
  let ?mid = "update_con p (\<lambda>con. con\<lparr>con_addr := a\<rparr>) (remove_by_conaddr p cl)"
  have fields: "uc_by_conaddr ?mid = ?t" "uc_by_conid ?cl = uc_by_conid cl" "uc_list ?cl = uc_list cl"
    "dom (uc_heap ?cl) = dom (uc_heap cl)" "uc_num_connections ?cl = uc_num_connections cl"
    "uc_max_connections ?cl = uc_max_connections cl" "uc_next_conid ?cl = uc_next_conid cl"
    "uc_by_conaddr ?cl = fst (BAVL_Insert (addr_at ?mid) conaddr_comparator ?t p)"
    by (auto simp: insert_by_conaddr_def remove_by_conaddr_def)
  have keys: "addr_at ?cl = addr_at ?mid" "conid_at ?cl = conid_at cl" "addr_at ?mid p = a"
    "\<And>q. q \<noteq> p \<Longrightarrow> addr_at ?mid q = addr_at cl q"
    using p by (auto simp: fun_eq_iff addr_at_def conid_at_def insert_by_conaddr_def remove_by_conaddr_def)
  have t: "conaddr_order.bst (addr_at cl) ?t" "set (inorder ?t) = dom (uc_heap cl) - {p}"
    using conaddr_order.remove_ok [OF i(3), of p] p i(4) by auto
  then have tm: "conaddr_order.bst (addr_at ?mid) ?t"
    using conaddr_order.bst_cong [of ?t "addr_at cl" "addr_at ?mid"] keys(4) by auto
  have fresh: "\<forall>m\<in>set (inorder ?t). conaddr_comparator (addr_at ?mid p) (addr_at ?mid m) \<noteq> 0"
    using a keys(3,4) unfolding t(2) by (auto simp: conaddr_cmp_0)
  have good: "\<forall>q\<in>dom (uc_heap cl). addr_ok (local_addr (addr_at ?mid q)) \<and> addr_ok (remote_addr (addr_at ?mid q))"
    using i(14,15) ok keys(3,4) by metis
  show ?thesis
    unfolding client_inv_def fields keys(1,2)
    using conaddr_order.insert_fresh(1,3) [OF tm fresh] t(2) i(1,2,5-13) p good
    by (simp add: insert_absorb)
qed

lemma connection_free_simps:
  "uc_heap (connection_free p cl) = (uc_heap cl)(p := None)"
  "uc_by_conaddr (connection_free p cl) = BAVL_Remove (addr_at cl) conaddr_comparator (uc_by_conaddr cl) p"
  "uc_by_conid (connection_free p cl) = BAVL_Remove (conid_at cl) uint16_comparator (uc_by_conid cl) p"
  "uc_num_connections (connection_free p cl) = uc_num_connections cl - 1"
  "uc_max_connections (connection_free p cl) = uc_max_connections cl"
  "uc_next_conid (connection_free p cl) = uc_next_conid cl"
proof -
  have "addr_at (cl\<lparr>uc_num_connections := n, uc_list := l, uc_by_conid := t\<rparr>) = addr_at cl"
    "conid_at (cl\<lparr>uc_num_connections := n, uc_list := l\<rparr>) = conid_at cl" for n l t
    by (simp_all add: fun_eq_iff addr_at_def conid_at_def)
  then show "uc_heap (connection_free p cl) = (uc_heap cl)(p := None)"
    "uc_by_conaddr (connection_free p cl) = BAVL_Remove (addr_at cl) conaddr_comparator (uc_by_conaddr cl) p"
    "uc_by_conid (connection_free p cl) = BAVL_Remove (conid_at cl) uint16_comparator (uc_by_conid cl) p"
    "uc_num_connections (connection_free p cl) = uc_num_connections cl - 1"
    "uc_max_connections (connection_free p cl) = uc_max_connections cl"
    "uc_next_conid (connection_free p cl) = uc_next_conid cl"
    by (simp_all add: connection_free_def Let_def remove_by_conid_def remove_by_conaddr_def)
qed

lemma inv_connection_free:
  assumes inv: "client_inv cl" and p: "p \<in> dom (uc_heap cl)"
  shows "client_inv (connection_free p cl)" (is "client_inv ?cl")
proof -
  note i = client_invD [OF inv]
  have keys: "\<And>q. q \<noteq> p \<Longrightarrow> addr_at ?cl q = addr_at cl q" "\<And>q. q \<noteq> p \<Longrightarrow> conid_at ?cl q = conid_at cl q"
    by (simp_all add: addr_at_def conid_at_def connection_free_simps)
  have ta: "conaddr_order.bst (addr_at cl) (uc_by_conaddr ?cl)"
    "set (inorder (uc_by_conaddr ?cl)) = dom (uc_heap cl) - {p}"
    using conaddr_order.remove_ok [OF i(3), of p] p i(4) by (auto simp: connection_free_simps)
  have tc: "conid_order.bst (conid_at cl) (uc_by_conid ?cl)"
    "set (inorder (uc_by_conid ?cl)) = dom (uc_heap cl) - {p}"
    using conid_order.remove_ok [OF i(5), of p] p i(6) by (auto simp: connection_free_simps)
  have "conaddr_order.bst (addr_at ?cl) (uc_by_conaddr ?cl)" "conid_order.bst (conid_at ?cl) (uc_by_conid ?cl)"
    using ta tc keys conaddr_order.bst_cong [of "uc_by_conaddr ?cl" "addr_at cl" "addr_at ?cl"]
      conid_order.bst_cong [of "uc_by_conid ?cl" "conid_at cl" "conid_at ?cl"] by auto
  moreover have "p \<in> set (uc_list cl)" using p i(2) by simp
  moreover from this have "length (remove1 p (uc_list cl)) + 1 = length (uc_list cl)"
    by (simp add: length_remove1) (metis Suc_pred length_pos_if_in_set)
  moreover have "dom (uc_heap ?cl) = dom (uc_heap cl) - {p}" by (auto simp: connection_free_simps)
  ultimately show ?thesis
    unfolding client_inv_def using i ta(2) tc(2) keys
    by (auto simp: connection_free_simps connection_free_list set_remove1_eq)
qed

lemma free_connections_empty:
  "client_inv cl \<Longrightarrow> uc_list (free_connections cl) = [] \<and> client_inv (free_connections cl)"
proof (induction cl rule: free_connections.induct)
  case (1 cl)
  show ?case
  proof (cases "uc_list cl")
    case Nil
    then show ?thesis using 1 by (simp add: free_connections.simps [of cl])
  next
    case (Cons p ps)
    then have "p \<in> dom (uc_heap cl)" using client_invD(2) [OF "1.prems"] by (metis list.set_intros(1))
    then show ?thesis
      using Cons 1 inv_connection_free by (simp add: free_connections.simps [of cl])
  qed
qed

end
