(* ===== verification/Udpgw_Run.thy ===== *)
theory Udpgw_Run
  imports Udpgw_Table
begin

text \<open>
  The udpgw client as a state machine: the events that reach it from the device side, the server side and
  the jobs of its connections, the states reachable from \<open>UdpGwClient_Init\<close>, and the properties of every
  reachable state. The table is specified as a list of (connection id, address pair) entries in order
  of use.
\<close>

section \<open>Events and reachable states\<close>

datatype client_event =
  Submit "nat option" bool baddr baddr bool "byte list"
| First_job nat
| Buffer_ready nat
| From_server "byte list"
| Monitor
| Keepalive_done
| Connect bool
| Disconnect
| Decoder_error

text \<open>
  When an event can happen: what the C assertions require of the caller, and for the allocator and the
  jobs what makes the event possible at all.
\<close>

fun client_enabled :: "client_event \<Rightarrow> udpgw_client \<Rightarrow> bool" where
  "client_enabled (Submit malloc flow_ok local remote is_dns data) cl =
     (addr_ok local \<and> addr_ok remote \<and> int (length data) \<le> uc_udp_mtu cl \<and>
      (case malloc of None \<Rightarrow> True | Some p \<Rightarrow> uc_heap cl p = None))"
| "client_enabled (First_job p) cl = (case uc_heap cl p of None \<Rightarrow> False | Some con \<Rightarrow> con_first_job con)"
| "client_enabled (Buffer_ready p) cl = (case uc_heap cl p of None \<Rightarrow> False | Some con \<Rightarrow> \<not> con_out_have con)"
| "client_enabled (From_server data) cl = (uc_have_server cl \<and> int (length data) \<le> uc_udpgw_mtu cl)"
| "client_enabled Monitor cl = True"
| "client_enabled Keepalive_done cl = uc_keepalive_sending cl"
| "client_enabled (Connect decoder_ok) cl = (\<not> uc_have_server cl)"
| "client_enabled Disconnect cl = uc_have_server cl"
| "client_enabled Decoder_error cl = uc_have_server cl"

text \<open>The handler of an event; \<open>None\<close> is a handler that does not return.\<close>

fun client_do :: "client_event \<Rightarrow> udpgw_client \<Rightarrow> (udpgw_client \<times> client_effect list) option" where
  "client_do (Submit malloc flow_ok local remote is_dns data) cl =
     UdpGwClient_SubmitPacket malloc flow_ok local remote is_dns data cl"
| "client_do (First_job p) cl = Some (connection_first_job_handler p cl)"
| "client_do (Buffer_ready p) cl = Some (bw_output_handler_recv p cl, [])"
| "client_do (From_server data) cl = Some (recv_interface_handler_send data cl)"
| "client_do Monitor cl = Some (send_monitor_handler cl)"
| "client_do Keepalive_done cl = Some (keepalive_if_handler_done cl, [])"
| "client_do (Connect decoder_ok) cl = Some (snd (UdpGwClient_ConnectServer decoder_ok cl), [])"
| "client_do Disconnect cl = Some (UdpGwClient_DisconnectServer cl, [])"
| "client_do Decoder_error cl = Some (decoder_handler_error cl)"

inductive client_reachable :: "udpgw_client \<Rightarrow> bool" where
  start: "0 \<le> udp_mtu \<Longrightarrow> 0 < max_connections \<Longrightarrow>
    UdpGwClient_Init TYPE(64) udp_mtu max_connections queue_ok = Some cl \<Longrightarrow> client_reachable cl"
| handle: "client_reachable cl \<Longrightarrow> client_enabled ev cl \<Longrightarrow> client_do ev cl = Some (cl', effs) \<Longrightarrow>
    client_reachable cl'"

section \<open>The table in order of use\<close>

definition con_table :: "udpgw_client \<Rightarrow> (u16 \<times> conaddr) list" where
  "con_table cl = map (\<lambda>p. (conid_at cl p, addr_at cl p)) (uc_list cl)"

definition lru_submit :: "int \<Rightarrow> u16 \<Rightarrow> conaddr \<Rightarrow> (u16 \<times> conaddr) list \<Rightarrow> (u16 \<times> conaddr) list" where
  "lru_submit max_connections new_conid a tbl =
     (if a \<in> snd ` set tbl then filter (\<lambda>e. snd e \<noteq> a) tbl @ filter (\<lambda>e. snd e = a) tbl
      else if int (length tbl) = max_connections then tl tbl @ [(fst (hd tbl), a)]
      else tbl @ [(new_conid, a)])"

lemma send_state:
  assumes "p \<in> dom (uc_heap cl)"
  shows "con_table (fst (connection_send p flags data cl)) = con_table cl"
    "dom (uc_heap (fst (connection_send p flags data cl))) = dom (uc_heap cl)"
  using assms update_con_keys [of p cl "\<lambda>con. con\<lparr>con_out_have := False\<rparr>"]
  by (auto simp: connection_send_def Let_def con_table_def)

lemma inv_send:
  "client_inv cl \<Longrightarrow> p \<in> dom (uc_heap cl) \<Longrightarrow> client_inv (fst (connection_send p flags data cl))"
  by (simp add: connection_send_def Let_def inv_update_con)

lemma touch_table:
  assumes "client_inv cl" "p \<in> dom (uc_heap cl)" "addr_at cl p = a"
  shows "con_table (touch p cl) =
    filter (\<lambda>e. snd e \<noteq> a) (con_table cl) @ filter (\<lambda>e. snd e = a) (con_table cl)"
proof -
  note i = client_invD [OF assms(1)]
  have p: "p \<in> set (uc_list cl)" using assms(2) i(2) by simp
  have eq: "addr_at cl q = a \<longleftrightarrow> q = p" if "q \<in> set (uc_list cl)" for q
    using that addr_at_inject [OF assms(1), of q p] assms i(2) by auto
  have "filter (\<lambda>q. addr_at cl q \<noteq> a) (uc_list cl) = remove1 p (uc_list cl)"
    "filter (\<lambda>q. addr_at cl q = a) (uc_list cl) = [p]"
    unfolding filter_not_the_one [OF i(1), symmetric] filter_the_one [OF i(1) p, symmetric]
    by (intro filter_cong refl; use eq in auto)+
  then show ?thesis
    by (simp add: con_table_def filter_map o_def touch_def addr_at_def conid_at_def)
qed

text \<open>What \<open>UdpGwClient_SubmitPacket\<close> does in each of its three cases.\<close>

lemma submit_known:
  assumes "client_inv cl" "find_connection_by_conaddr cl \<lparr>local_addr = l, remote_addr = r\<rparr> = Some p"
  shows "UdpGwClient_SubmitPacket malloc flow_ok l r is_dns data cl =
    Some (connection_send p (if is_dns then UDPGW_CLIENT_FLAG_DNS else 0) data (touch p cl))"
  using assms(2) by (simp add: UdpGwClient_SubmitPacket_def Let_def)

lemma submit_full:
  assumes inv: "client_inv cl" and none: "find_connection_by_conaddr cl \<lparr>local_addr = l, remote_addr = r\<rparr> = None"
    and full: "uc_num_connections cl = uc_max_connections cl" and ok: "addr_ok l" "addr_ok r"
  obtains p ps cl1 where "uc_list cl = p # ps" "client_inv cl1" "p \<in> dom (uc_heap cl1)"
    "con_table cl1 = (conid_at cl p, \<lparr>local_addr = l, remote_addr = r\<rparr>) # tl (con_table cl)"
    "uc_list cl1 = uc_list cl" "addr_at cl1 p = \<lparr>local_addr = l, remote_addr = r\<rparr>"
    "uc_heap cl1 p = map_option (\<lambda>con. con\<lparr>con_addr := \<lparr>local_addr = l, remote_addr = r\<rparr>\<rparr>) (uc_heap cl p)"
    "uc_udp_mtu cl1 = uc_udp_mtu cl"
    "UdpGwClient_SubmitPacket malloc flow_ok l r is_dns data cl =
       Some (connection_send p ((if is_dns then UDPGW_CLIENT_FLAG_DNS else 0) OR UDPGW_CLIENT_FLAG_REBIND)
               data (touch p cl1))"
proof -
  note i = client_invD [OF inv]
  obtain p ps where list: "uc_list cl = p # ps" using full i(7,9) by (cases "uc_list cl") auto
  let ?a = "\<lparr>local_addr = l, remote_addr = r\<rparr>"
  let ?cl = "insert_by_conaddr p (update_con p (\<lambda>con. con\<lparr>con_addr := ?a\<rparr>) (remove_by_conaddr p cl))"
  have p: "p \<in> dom (uc_heap cl)" using list i(2) by (metis list.set_intros(1))
  have a: "?a \<notin> addr_at cl ` dom (uc_heap cl)" using none find_by_conaddr_None [OF inv] by simp
  have 1: "client_inv ?cl" using inv_reuse [OF inv p a] ok by simp
  have heap: "uc_heap ?cl q = (if q = p then map_option (\<lambda>con. con\<lparr>con_addr := ?a\<rparr>) (uc_heap cl p) else uc_heap cl q)" for q
    by (simp add: insert_by_conaddr_def remove_by_conaddr_def)
  have mtu: "uc_udp_mtu ?cl = uc_udp_mtu cl" by (simp add: insert_by_conaddr_def remove_by_conaddr_def)
  have 2: "uc_list ?cl = uc_list cl" by (simp add: insert_by_conaddr_def remove_by_conaddr_def)
  have at: "addr_at ?cl q = (if q = p then ?a else addr_at cl q)" "conid_at ?cl q = conid_at cl q" for q
    using p by (auto simp: addr_at_def conid_at_def heap)
  have "p \<notin> set ps" using i(1) list by simp
  then have "con_table ?cl = (conid_at cl p, ?a) # tl (con_table cl)"
    unfolding con_table_def 2 list by (auto simp: at)
  moreover have "UdpGwClient_SubmitPacket malloc flow_ok l r is_dns data cl =
       Some (connection_send p ((if is_dns then UDPGW_CLIENT_FLAG_DNS else 0) OR UDPGW_CLIENT_FLAG_REBIND)
               data (touch p ?cl))"
    using none full list by (simp add: UdpGwClient_SubmitPacket_def Let_def reuse_connection_def)
  moreover have "p \<in> dom (uc_heap ?cl)" using p by (auto simp: heap)
  ultimately show ?thesis using that list 1 2 at(1) [of p] heap [of p] mtu by auto
qed

lemma submit_new:
  assumes inv: "client_inv cl" and none: "find_connection_by_conaddr cl \<lparr>local_addr = l, remote_addr = r\<rparr> = None"
    and room: "uc_num_connections cl \<noteq> uc_max_connections cl" and ok: "addr_ok l" "addr_ok r"
    and p: "uc_heap cl p = None"
  obtains c cl1 where "client_inv cl1" "c \<notin> conid_at cl ` dom (uc_heap cl)" "uint c < uc_max_connections cl"
    "con_table cl1 = con_table cl @ [(c, \<lparr>local_addr = l, remote_addr = r\<rparr>)]"
    "uc_heap cl1 = (uc_heap cl)(p \<mapsto> \<lparr>con_addr = \<lparr>local_addr = l, remote_addr = r\<rparr>, con_conid = c,
       con_first_job = True, con_first_flags = (if is_dns then UDPGW_CLIENT_FLAG_DNS else 0),
       con_first_data = data, con_out_have = False\<rparr>)"
    "uc_udp_mtu cl1 = uc_udp_mtu cl"
    "UdpGwClient_SubmitPacket (Some p) True l r is_dns data cl = Some (cl1, [])"
    "UdpGwClient_SubmitPacket (Some p) False l r is_dns data cl = Some (cl\<lparr>uc_next_conid := uint c\<rparr>, [])"
proof -
  note i = client_invD [OF inv]
  let ?a = "\<lparr>local_addr = l, remote_addr = r\<rparr>"
  have lt: "uc_num_connections cl < uc_max_connections cl" using room i(8) by simp
  obtain c where c: "find_unused_conid cl = Some (c, cl\<lparr>uc_next_conid := uint c\<rparr>)"
      "uint c < uc_max_connections cl" "c \<notin> conid_at cl ` dom (uc_heap cl)"
    using find_unused_conid_finds [OF inv lt] by metis
  let ?cl = "cl\<lparr>uc_next_conid := uint c\<rparr>"
  let ?con = "\<lparr>con_addr = ?a, con_conid = c, con_first_job = True,
    con_first_flags = (if is_dns then UDPGW_CLIENT_FLAG_DNS else 0), con_first_data = data, con_out_have = False\<rparr>"
  let ?cl1 = "insert_by_conid p (insert_by_conaddr p (?cl\<lparr>uc_heap := (uc_heap ?cl)(p \<mapsto> ?con)\<rparr>))"
  let ?cl2 = "?cl1\<lparr>uc_list := uc_list ?cl1 @ [p], uc_num_connections := uc_num_connections ?cl1 + 1\<rparr>"
  have inv1: "client_inv ?cl" using inv_next_conid [OF inv] c(2) by simp
  have at: "addr_at ?cl = addr_at cl" "conid_at ?cl = conid_at cl"
    by (simp_all add: fun_eq_iff addr_at_def conid_at_def)
  have "?a \<notin> addr_at cl ` dom (uc_heap cl)" using none find_by_conaddr_None [OF inv] by simp
  then have inv2: "client_inv ?cl2"
    by (intro inv_new_connection [OF inv1, of _ ?con]) (use lt p c ok at in auto)
  have heap: "uc_heap ?cl2 = (uc_heap cl)(p \<mapsto> ?con)" "uc_list ?cl2 = uc_list cl @ [p]"
    by (simp_all add: insert_by_conid_def insert_by_conaddr_def)
  have at2: "addr_at ?cl2 q = (if q = p then ?a else addr_at cl q)"
    "conid_at ?cl2 q = (if q = p then c else conid_at cl q)" for q
    by (simp_all add: addr_at_def conid_at_def insert_by_conid_def insert_by_conaddr_def)
  have "p \<notin> set (uc_list cl)" using i(2) p by auto
  then have tbl: "con_table ?cl2 = con_table cl @ [(c, ?a)]"
    unfolding con_table_def heap(2) map_append list.map at2 by (simp cong: map_cong if_cong)
  have "UdpGwClient_SubmitPacket (Some p) True l r is_dns data cl = Some (?cl2, [])"
    "UdpGwClient_SubmitPacket (Some p) False l r is_dns data cl = Some (?cl, [])"
    using none room c(1)
    by (simp_all add: UdpGwClient_SubmitPacket_def Let_def connection_init_def)
  moreover have "uc_udp_mtu ?cl2 = uc_udp_mtu cl" by (simp add: insert_by_conid_def insert_by_conaddr_def)
  ultimately show ?thesis using that [OF inv2 c(3,2) tbl heap(1)] by blast
qed

lemma submit_no_memory:
  assumes "find_connection_by_conaddr cl \<lparr>local_addr = l, remote_addr = r\<rparr> = None"
    "uc_num_connections cl \<noteq> uc_max_connections cl"
  shows "UdpGwClient_SubmitPacket None flow_ok l r is_dns data cl = Some (cl, [])"
  using assms by (simp add: UdpGwClient_SubmitPacket_def Let_def connection_init_def)

lemma touch_dom: "dom (uc_heap (touch p cl)) = dom (uc_heap cl)"
  by (simp add: touch_def)

lemma submit_ok:
  assumes inv: "client_inv cl" and en: "client_enabled (Submit malloc flow_ok l r is_dns data) cl"
  shows "\<exists>cl' effs. UdpGwClient_SubmitPacket malloc flow_ok l r is_dns data cl = Some (cl', effs) \<and> client_inv cl'"
proof (cases "find_connection_by_conaddr cl \<lparr>local_addr = l, remote_addr = r\<rparr>")
  case (Some p)
  then have "p \<in> dom (uc_heap cl)" using find_by_conaddr_iff [OF inv] by blast
  then have "client_inv (fst (connection_send p f data (touch p cl)))" for f
    using inv_touch [OF inv] inv_send touch_dom by blast
  then show ?thesis using submit_known [OF inv Some] by (metis prod.collapse)
next
  case None
  show ?thesis
  proof (cases "uc_num_connections cl = uc_max_connections cl")
    case True
    obtain p ps cl1 where "client_inv cl1" "p \<in> dom (uc_heap cl1)" and
      s: "UdpGwClient_SubmitPacket malloc flow_ok l r is_dns data cl =
       Some (connection_send p ((if is_dns then UDPGW_CLIENT_FLAG_DNS else 0) OR UDPGW_CLIENT_FLAG_REBIND)
               data (touch p cl1))"
      by (rule submit_full [OF inv None True, of malloc flow_ok is_dns data]) (use en in auto)
    then have "client_inv (fst (connection_send p f data (touch p cl1)))" for f
      using inv_touch inv_send touch_dom by blast
    then show ?thesis using s by (metis prod.collapse)
  next
    case False
    show ?thesis
    proof (cases malloc)
      case None
      then show ?thesis using submit_no_memory [OF \<open>find_connection_by_conaddr cl _ = None\<close> False] inv by simp
    next
      case (Some p)
      note room = submit_new [OF inv None False, of p is_dns data]
      show ?thesis
        by (rule room, use en Some in simp, use en Some in simp, use en Some in simp)
          (cases flow_ok; use inv_next_conid [OF inv] Some in auto)
    qed
  qed
qed

lemma do_ok:
  assumes inv: "client_inv cl" and en: "client_enabled ev cl"
  shows "\<exists>cl' effs. client_do ev cl = Some (cl', effs) \<and> client_inv cl'"
proof (cases ev)
  case (Submit malloc flow_ok l r is_dns data)
  then show ?thesis using submit_ok [OF inv] en by simp
next
  case (First_job p)
  then have p: "p \<in> dom (uc_heap cl)" using en by (auto split: option.splits)
  then have "client_inv (fst (connection_first_job_handler p cl))"
    by (simp add: connection_first_job_handler_def Let_def inv_send inv_update_con inv)
  then show ?thesis using First_job by (cases "connection_first_job_handler p cl") simp
next
  case (Buffer_ready p)
  then have "p \<in> dom (uc_heap cl)" using en by (auto split: option.splits)
  then show ?thesis using Buffer_ready by (simp add: bw_output_handler_recv_def inv_update_con inv)
next
  case (From_server data)
  have "client_inv (touch p cl)" if "find_connection_by_conid cl c = Some p" for c p
    using that inv_touch [OF inv] find_by_conid_iff [OF inv] by blast
  then have "client_inv (fst (recv_interface_handler_send data cl))"
    using inv by (auto simp: recv_interface_handler_send_def Let_def split: sum.splits option.splits)
  then show ?thesis using From_server by (cases "recv_interface_handler_send data cl") simp
qed (use inv in \<open>auto simp: send_monitor_handler_def keepalive_if_handler_done_def decoder_handler_error_def
    UdpGwClient_ConnectServer_def UdpGwClient_DisconnectServer_def client_inv_def addr_at_def [abs_def]
    conid_at_def [abs_def]\<close>)

lemma init_ok:
  "0 < max_connections \<Longrightarrow> UdpGwClient_Init w udp_mtu max_connections queue_ok = Some cl \<Longrightarrow> client_inv cl"
  by (auto simp: UdpGwClient_Init_def Let_def client_inv_def BAVL_Init_def conaddr_order.bst_def conid_order.bst_def
      conaddr_order.sorted_keys_def conid_order.sorted_keys_def split: if_splits)

lemma client_reachable_inv: "client_reachable cl \<Longrightarrow> client_inv cl"
proof (induction rule: client_reachable.induct)
  case (start udp_mtu max_connections queue_ok cl)
  then show ?case using init_ok by blast
next
  case (handle cl ev cl' effs)
  then show ?case using do_ok [OF handle.IH handle.hyps(2)] by simp
qed

section \<open>Properties\<close>

text \<open>A concrete reachable client with one connection whose flow waits for a packet.\<close>

definition ex_local :: baddr where "ex_local = Addr_V4 0x0100000A 0x3930"
definition ex_remote :: baddr where "ex_remote = Addr_V4 0x08080808 0x3500"

definition ex_init :: udpgw_client where "ex_init = the (UdpGwClient_Init TYPE(64) 1500 4 True)"

definition ex_submitted :: udpgw_client where
  "ex_submitted = fst (the (client_do (Submit (Some 7) True ex_local ex_remote False [1, 2, 3]) ex_init))"

definition ex_client :: udpgw_client where
  "ex_client = fst (the (client_do (Buffer_ready 7) ex_submitted))"

lemma ex_init_reachable: "client_reachable ex_init"
  by (rule client_reachable.start [of 1500 4 True]) (simp_all add: ex_init_def UdpGwClient_Init_def Let_def)

lemma reachable_do: "client_reachable cl \<Longrightarrow> client_enabled ev cl \<Longrightarrow> client_reachable (fst (the (client_do ev cl)))"
  using do_ok [OF client_reachable_inv] client_reachable.handle by fastforce

lemma ex_submit_enabled: "client_enabled (Submit (Some 7) True ex_local ex_remote False [1, 2, 3]) ex_init"
  by (simp add: ex_init_def UdpGwClient_Init_def Let_def ex_local_def ex_remote_def)

lemma ex_submitted_heap:
  "uc_heap ex_submitted 7 = Some \<lparr>con_addr = \<lparr>local_addr = ex_local, remote_addr = ex_remote\<rparr>, con_conid = 0,
     con_first_job = True, con_first_flags = 0, con_first_data = [1, 2, 3], con_out_have = False\<rparr>"
  by (simp add: ex_submitted_def ex_init_def UdpGwClient_Init_def Let_def UdpGwClient_SubmitPacket_def
      find_connection_by_conaddr_def BAVL_Init_def connection_init_def find_unused_conid_def conid_search.simps
      find_connection_by_conid_def insert_by_conaddr_def insert_by_conid_def)

lemma ex_client_heap:
  "uc_heap ex_client 7 = Some \<lparr>con_addr = \<lparr>local_addr = ex_local, remote_addr = ex_remote\<rparr>, con_conid = 0,
     con_first_job = True, con_first_flags = 0, con_first_data = [1, 2, 3], con_out_have = True\<rparr>"
  by (simp add: ex_client_def bw_output_handler_recv_def ex_submitted_heap)

lemma ex_client_reachable: "client_reachable ex_client"
  unfolding ex_client_def
  by (rule reachable_do [OF reachable_do [OF ex_init_reachable ex_submit_enabled, folded ex_submitted_def]])
    (simp add: ex_submitted_heap)

text \<open>C22. In every reachable state of the udpgw client the table is consistent: no two connections share an
  id or an address pair, every id is below the number of connections allowed and that number is never
  exceeded, and a lookup in either tree finds exactly the connection in use with that key.\<close>

theorem udpgw_table_consistent:
  assumes "client_reachable cl"
  shows "distinct (map fst (con_table cl)) \<and> distinct (map snd (con_table cl)) \<and>
    int (length (con_table cl)) = uc_num_connections cl \<and> uc_num_connections cl \<le> uc_max_connections cl \<and>
    list_all (\<lambda>e. uint (fst e) < uc_max_connections cl) (con_table cl) \<and>
    (find_connection_by_conaddr cl a = Some p \<longleftrightarrow> p \<in> set (uc_list cl) \<and> addr_at cl p = a) \<and>
    (find_connection_by_conid cl c = Some p \<longleftrightarrow> p \<in> set (uc_list cl) \<and> conid_at cl p = c)"
proof -
  have inv: "client_inv cl" using assms by (rule client_reachable_inv)
  note i = client_invD [OF inv]
  have "inj_on (conid_at cl) (set (uc_list cl))" "inj_on (addr_at cl) (set (uc_list cl))"
    using conid_at_inject [OF inv] addr_at_inject [OF inv] i(2) by (auto simp: inj_on_def)
  then have "distinct (map (conid_at cl) (uc_list cl))" "distinct (map (addr_at cl) (uc_list cl))"
    using i(1) by (simp_all add: distinct_map)
  then show ?thesis
    using i find_by_conaddr_iff [OF inv] find_by_conid_iff [OF inv]
    by (simp add: con_table_def o_def list_all_iff)
qed

lemma udpgw_table_consistent_witness:
  "distinct (map fst (con_table ex_client)) \<and>
   find_connection_by_conid ex_client 0 = Some 7 \<and> uc_num_connections ex_client \<le> uc_max_connections ex_client"
proof -
  have "conid_at ex_client 7 = 0" "7 \<in> set (uc_list ex_client)"
    using client_invD(2) [OF client_reachable_inv [OF ex_client_reachable]]
    by (auto simp: conid_at_def ex_client_heap)
  then show ?thesis
    using udpgw_table_consistent [OF ex_client_reachable, of _ 7 0] by simp
qed

text \<open>Every handler of the udpgw client returns, whatever the event: the search for a free connection id
  ends and the reuse of a connection always finds one.\<close>

theorem udpgw_handlers_return:
  assumes "client_reachable cl" "client_enabled ev cl"
  shows "\<exists>cl' effs. client_do ev cl = Some (cl', effs)"
  using do_ok [OF client_reachable_inv [OF assms(1)] assms(2)] by blast

lemma udpgw_handlers_return_witness:
  "\<exists>cl' effs. client_do (Submit (Some 7) True ex_local ex_remote False [1, 2, 3]) ex_init = Some (cl', effs)"
  by (rule udpgw_handlers_return [OF ex_init_reachable ex_submit_enabled])

text \<open>The table after a submission, in the cases of a known address pair and of a full table.\<close>

lemma table_sets:
  assumes "client_inv cl"
  shows "snd ` set (con_table cl) = addr_at cl ` dom (uc_heap cl)"
    "fst ` set (con_table cl) = conid_at cl ` dom (uc_heap cl)"
    "int (length (con_table cl)) = uc_num_connections cl"
  using client_invD(2,7) [OF assms] by (force simp: con_table_def)+

lemma submit_known_table:
  assumes inv: "client_inv cl" and q: "find_connection_by_conaddr cl a = Some q"
  shows "con_table (fst (connection_send q f data (touch q cl))) =
    lru_submit (uc_max_connections cl) c a (con_table cl)"
proof -
  have q: "q \<in> dom (uc_heap cl)" "addr_at cl q = a" using find_by_conaddr_iff [OF inv] q by blast+
  then have "a \<in> snd ` set (con_table cl)" unfolding table_sets [OF inv] by (metis imageI)
  then show ?thesis
    using send_state(1) [of q "touch q cl"] touch_table [OF inv q] q(1) touch_dom by (simp add: lru_submit_def)
qed

lemma submit_full_table:
  assumes cl1: "client_inv cl1" "q \<in> dom (uc_heap cl1)" "addr_at cl1 q = a"
    "con_table cl1 = (conid_at cl q, a) # tl (con_table cl)" "uc_list cl = q # qs"
    and no: "a \<notin> snd ` set (con_table cl)" and full: "int (length (con_table cl)) = uc_max_connections cl"
  shows "con_table (fst (connection_send q f data (touch q cl1))) =
    lru_submit (uc_max_connections cl) c a (con_table cl)"
proof -
  have "\<forall>e\<in>set (tl (con_table cl)). snd e \<noteq> a" using no by (cases "con_table cl") auto
  then have "con_table (touch q cl1) = tl (con_table cl) @ [(conid_at cl q, a)]"
    using touch_table [OF cl1(1-3)] unfolding cl1(4) by (simp add: filter_empty_conv)
  moreover have "conid_at cl q = fst (hd (con_table cl))" using cl1(5) by (simp add: con_table_def)
  ultimately show ?thesis
    using send_state(1) [of q "touch q cl1"] cl1(2) touch_dom no full by (simp add: lru_submit_def)
qed

lemma submit_table:
  assumes reach: "client_reachable cl" and en: "client_enabled (Submit (Some p) True l r is_dns data) cl"
  shows "\<exists>cl' effs c. UdpGwClient_SubmitPacket (Some p) True l r is_dns data cl = Some (cl', effs) \<and>
    con_table cl' = lru_submit (uc_max_connections cl) c \<lparr>local_addr = l, remote_addr = r\<rparr> (con_table cl) \<and>
    (uc_num_connections cl = uc_max_connections cl \<or> c \<notin> fst ` set (con_table cl))"
proof -
  let ?a = "\<lparr>local_addr = l, remote_addr = r\<rparr>"
  have inv: "client_inv cl" using reach by (rule client_reachable_inv)
  note i = client_invD [OF inv] and tbl = table_sets [OF inv]
  obtain c where c: "uc_num_connections cl = uc_max_connections cl \<or> c \<notin> fst ` set (con_table cl)"
    using find_unused_conid_finds [OF inv] i(8) tbl(2) by (metis order_le_imp_less_or_eq)
  show ?thesis
  proof (cases "find_connection_by_conaddr cl ?a")
    case (Some q)
    then show ?thesis using submit_known [OF inv Some] submit_known_table [OF inv Some] c by (metis prod.collapse)
  next
    case None
    then have no: "?a \<notin> snd ` set (con_table cl)" using find_by_conaddr_None [OF inv] tbl(1) by simp
    show ?thesis
    proof (cases "uc_num_connections cl = uc_max_connections cl")
      case True
      obtain q qs cl1 where s: "uc_list cl = q # qs" "client_inv cl1" "q \<in> dom (uc_heap cl1)"
        "con_table cl1 = (conid_at cl q, ?a) # tl (con_table cl)" "addr_at cl1 q = ?a"
        "UdpGwClient_SubmitPacket (Some p) True l r is_dns data cl =
         Some (connection_send q ((if is_dns then UDPGW_CLIENT_FLAG_DNS else 0) OR UDPGW_CLIENT_FLAG_REBIND)
               data (touch q cl1))"
        by (rule submit_full [OF inv None True, of "Some p" True is_dns data]) (use en in auto)
      have "int (length (con_table cl)) = uc_max_connections cl" using tbl(3) True by simp
      then show ?thesis
        using submit_full_table [OF s(2,3,5,4,1) no] s(6) True by (metis prod.collapse)
    next
      case False
      show ?thesis
        by (rule submit_new [OF inv None False, of p is_dns data], use en in simp, use en in simp, use en in simp)
          (use no False tbl in \<open>auto simp: lru_submit_def\<close>)
    qed
  qed
qed

section \<open>What a submission sends\<close>

text \<open>\<open>message_for cl m q r d dns rebind\<close>: the message \<open>m\<close> reads back as one for the connection \<open>q\<close>, to the remote address
  \<open>r\<close>, with the data \<open>d\<close> and the two flags as said.\<close>

definition message_for ::
  "udpgw_client \<Rightarrow> byte list \<Rightarrow> nat \<Rightarrow> baddr \<Rightarrow> byte list \<Rightarrow> bool \<Rightarrow> bool \<Rightarrow> bool" where
  "message_for cl m q r d dns rebind \<longleftrightarrow>
     udpgw_parse (uc_udp_mtu cl) m = Inr (conid_at cl q, r, d) \<and>
     (hdr_flags (udpgw_dec m) AND UDPGW_CLIENT_FLAG_DNS \<noteq> 0 \<longleftrightarrow> dns) \<and>
     (hdr_flags (udpgw_dec m) AND UDPGW_CLIENT_FLAG_REBIND \<noteq> 0 \<longleftrightarrow> rebind)"

lemma message_flags:
  assumes "addr_ok r"
  shows "hdr_flags (udpgw_dec (udpgw_message f c r d)) =
    (case r of Addr_V6 _ _ \<Rightarrow> f OR UDPGW_CLIENT_FLAG_IPV6 | _ \<Rightarrow> f)"
  using assms by (cases r) (simp_all add: udpgw_message_def Let_def udpgw_hdr.dec_enc htol8_def)

lemma message_for_message:
  assumes "addr_ok r" "int (length d) \<le> uc_udp_mtu cl" "conid_at cl q = c"
    "f = (if dns then UDPGW_CLIENT_FLAG_DNS else 0) OR (if rebind then UDPGW_CLIENT_FLAG_REBIND else 0)"
  shows "message_for cl (udpgw_message f c r d) q r d dns rebind"
proof -
  have "f AND UDPGW_CLIENT_FLAG_IPV6 = 0"
    using assms(4) by (cases dns; cases rebind)
      (simp_all add: UDPGW_CLIENT_FLAG_DNS_def UDPGW_CLIENT_FLAG_REBIND_def UDPGW_CLIENT_FLAG_IPV6_def push_bit_eq_mult)
  moreover have "(hdr_flags (udpgw_dec (udpgw_message f c r d)) AND UDPGW_CLIENT_FLAG_DNS \<noteq> 0 \<longleftrightarrow> dns) \<and>
     (hdr_flags (udpgw_dec (udpgw_message f c r d)) AND UDPGW_CLIENT_FLAG_REBIND \<noteq> 0 \<longleftrightarrow> rebind)"
    unfolding message_flags [OF assms(1)] assms(4) by (cases dns; cases rebind; cases r)
      (simp_all add: UDPGW_CLIENT_FLAG_DNS_def UDPGW_CLIENT_FLAG_REBIND_def UDPGW_CLIENT_FLAG_IPV6_def push_bit_eq_mult)
  ultimately show ?thesis using assms(1-3) by (simp add: message_for_def parse_message)
qed

text \<open>The message goes to the flow of a connection with the address pair: at once for a connection in the table whose
  flow has a buffer, not at all when it has none, and from the first job of a new connection.\<close>

definition datagram_sent ::
  "udpgw_client \<Rightarrow> udpgw_client \<Rightarrow> client_effect list \<Rightarrow> nat \<Rightarrow> byte list \<Rightarrow> bool" where
  "datagram_sent cl cl' effs q m \<longleftrightarrow>
     (case uc_heap cl q of
        Some con \<Rightarrow> effs = (if con_out_have con then [To_flow q m] else [Out_of_buffer q])
      | None \<Rightarrow> effs = [] \<and> con_first_job (the (uc_heap cl' q)) \<and>
          snd (connection_first_job_handler q (bw_output_handler_recv q cl')) = [To_flow q m])"

lemma send_effects:
  assumes "uc_heap cl q = Some con"
  shows "snd (connection_send q f d cl) = (if con_out_have con
      then [To_flow q (udpgw_message f (con_conid con) (remote_addr (con_addr con)) d)] else [Out_of_buffer q])"
    "addr_at (fst (connection_send q f d cl)) q = con_addr con" "conid_at (fst (connection_send q f d cl)) q = con_conid con"
    "uc_list (fst (connection_send q f d cl)) = uc_list cl" "uc_udp_mtu (fst (connection_send q f d cl)) = uc_udp_mtu cl"
  using assms by (simp_all add: connection_send_def Let_def addr_at_def conid_at_def update_con_def)

lemma submit_sends_existing:
  assumes "uc_heap cl q = Some con0" "uc_heap cl1 q = Some con" "con_out_have con = con_out_have con0"
    "con_addr con = \<lparr>local_addr = l, remote_addr = r\<rparr>" "addr_ok r" "int (length d) \<le> uc_udp_mtu cl1"
    "f = (if dns then UDPGW_CLIENT_FLAG_DNS else 0) OR (if rebind then UDPGW_CLIENT_FLAG_REBIND else 0)"
    "connection_send q f d (touch q cl1) = (cl', effs)"
  shows "addr_at cl' q = \<lparr>local_addr = l, remote_addr = r\<rparr> \<and> q \<in> set (uc_list cl') \<and>
    message_for cl' (udpgw_message f (con_conid con) r d) q r d dns rebind \<and>
    datagram_sent cl cl' effs q (udpgw_message f (con_conid con) r d)"
proof -
  have h: "uc_heap (touch q cl1) q = Some con" using assms(2) by (simp add: touch_def)
  note e = send_effects [OF h, of f d, unfolded assms(8), simplified]
  have "uc_udp_mtu cl' = uc_udp_mtu cl1" using e(5) by (simp add: touch_def)
  then show ?thesis
    using e assms(1,3-6) message_for_message [OF assms(5) _ e(3) assms(7), of d]
    by (auto simp: datagram_sent_def touch_def)
qed

lemma submit_sends:
  assumes inv: "client_inv cl" and en: "client_enabled (Submit (Some p) True l r is_dns d) cl"
  shows "\<exists>cl' effs q m. UdpGwClient_SubmitPacket (Some p) True l r is_dns d cl = Some (cl', effs) \<and>
    addr_at cl' q = \<lparr>local_addr = l, remote_addr = r\<rparr> \<and> q \<in> set (uc_list cl') \<and>
    message_for cl' m q r d is_dns (\<lparr>local_addr = l, remote_addr = r\<rparr> \<notin> snd ` set (con_table cl)) \<and>
    datagram_sent cl cl' effs q m"
proof -
  let ?a = "\<lparr>local_addr = l, remote_addr = r\<rparr>" and ?f = "if is_dns then UDPGW_CLIENT_FLAG_DNS else 0"
  have ok: "addr_ok l" "addr_ok r" "int (length d) \<le> uc_udp_mtu cl" "uc_heap cl p = None" using en by simp_all
  note tbl = table_sets(1) [OF inv]
  show ?thesis
  proof (cases "find_connection_by_conaddr cl ?a")
    case (Some q)
    then have q: "q \<in> dom (uc_heap cl)" "addr_at cl q = ?a" using find_by_conaddr_iff [OF inv] by blast+
    then have known: "\<not> ?a \<notin> snd ` set (con_table cl)" unfolding tbl by (metis imageI)
    obtain con where con: "uc_heap cl q = Some con" "con_addr con = ?a" using q by (auto simp: addr_at_def)
    obtain cl' effs where s: "connection_send q ?f d (touch q cl) = (cl', effs)" by fastforce
    show ?thesis
      using submit_sends_existing [OF con(1) con(1) refl con(2) ok(2,3) _ s, of is_dns False] known
        submit_known [OF inv Some, of "Some p" True is_dns d] s by auto
  next
    case None
    then have new: "?a \<notin> snd ` set (con_table cl)" using find_by_conaddr_None [OF inv] tbl by simp
    show ?thesis
    proof (cases "uc_num_connections cl = uc_max_connections cl")
      case True
      obtain q qs cl1 where s: "q \<in> dom (uc_heap cl1)"
        "uc_heap cl1 q = map_option (\<lambda>con. con\<lparr>con_addr := ?a\<rparr>) (uc_heap cl q)" "uc_udp_mtu cl1 = uc_udp_mtu cl"
        "UdpGwClient_SubmitPacket (Some p) True l r is_dns d cl =
         Some (connection_send q (?f OR UDPGW_CLIENT_FLAG_REBIND) d (touch q cl1))"
        by (rule submit_full [OF inv None True, of "Some p" True is_dns d]) (use ok in auto)
      then obtain con where con: "uc_heap cl q = Some con" by (cases "uc_heap cl q") auto
      obtain cl' effs where e: "connection_send q (?f OR UDPGW_CLIENT_FLAG_REBIND) d (touch q cl1) = (cl', effs)" by fastforce
      show ?thesis
        using submit_sends_existing [OF con, of cl1 "con\<lparr>con_addr := ?a\<rparr>" l r d _ is_dns True, OF _ _ _ ok(2) _ _ e]
          s con ok new e by auto
    next
      case False
      obtain c cl1 where s: "uc_heap cl1 = (uc_heap cl)(p \<mapsto> \<lparr>con_addr = ?a, con_conid = c, con_first_job = True,
          con_first_flags = ?f, con_first_data = d, con_out_have = False\<rparr>)"
        "UdpGwClient_SubmitPacket (Some p) True l r is_dns d cl = Some (cl1, [])" "client_inv cl1" "uc_udp_mtu cl1 = uc_udp_mtu cl"
        by (rule submit_new [OF inv None False ok(1,2,4), of is_dns d]) auto
      let ?m = "udpgw_message (UDPGW_CLIENT_FLAG_REBIND OR ?f) c r d"
      have at: "addr_at cl1 p = ?a" "conid_at cl1 p = c" "p \<in> set (uc_list cl1)"
        using s(1) client_invD(2) [OF s(3)] by (auto simp: addr_at_def conid_at_def)
      have "message_for cl1 ?m p r d is_dns True"
        using ok s(4) by (intro message_for_message [OF ok(2) _ at(2)]) (auto simp: or.commute)
      moreover have "datagram_sent cl cl1 [] p ?m"
        using s(1) ok(4) by (simp add: datagram_sent_def connection_first_job_handler_def bw_output_handler_recv_def
            connection_send_def Let_def update_con_def)
      ultimately show ?thesis using s(2) at new by auto
    qed
  qed
qed

text \<open>C21. Submitting a packet manages the connections in order of use, exactly as the abstract table does: a
  known address pair moves to the end; an unknown one is added with an id not in use while there is
  room, and otherwise takes over the id of the least recently used connection.\<close>

theorem submit_is_lru:
  assumes reach: "client_reachable cl" and en: "client_enabled (Submit (Some p) True l r is_dns data) cl"
  shows "\<exists>cl' effs c. UdpGwClient_SubmitPacket (Some p) True l r is_dns data cl = Some (cl', effs) \<and>
    con_table cl' = lru_submit (uc_max_connections cl) c \<lparr>local_addr = l, remote_addr = r\<rparr> (con_table cl) \<and>
    (uc_num_connections cl = uc_max_connections cl \<or> c \<notin> fst ` set (con_table cl))"
  using assms by (rule submit_table)

lemma submit_is_lru_witness:
  "\<exists>cl' effs c. UdpGwClient_SubmitPacket (Some 7) True ex_local ex_remote False [1, 2, 3] ex_init = Some (cl', effs) \<and>
     con_table cl' = lru_submit (uc_max_connections ex_init) c \<lparr>local_addr = ex_local, remote_addr = ex_remote\<rparr> (con_table ex_init) \<and>
     (uc_num_connections ex_init = uc_max_connections ex_init \<or> c \<notin> fst ` set (con_table ex_init))"
  by (rule submit_is_lru [OF ex_init_reachable ex_submit_enabled])

lemma answer_delivered:
  assumes reach: "client_reachable cl" and p: "p \<in> set (uc_list cl)"
    and flags: "flags AND UDPGW_CLIENT_FLAG_IPV6 = 0" and fits: "int (length data) \<le> uc_udp_mtu cl"
  shows "recv_interface_handler_send (udpgw_message flags (conid_at cl p) (remote_addr (addr_at cl p)) data) cl =
    (touch p cl, [Received (local_addr (addr_at cl p)) (remote_addr (addr_at cl p)) data])"
proof -
  have inv: "client_inv cl" using reach by (rule client_reachable_inv)
  have p: "p \<in> dom (uc_heap cl)" using p client_invD(2) [OF inv] by simp
  then have "find_connection_by_conid cl (conid_at cl p) = Some p" using find_by_conid_iff [OF inv] by blast
  moreover have "addr_ok (remote_addr (addr_at cl p))" using client_invD(15) [OF inv p] .
  ultimately show ?thesis
    by (simp add: recv_interface_handler_send_def parse_message [OF _ flags fits] Let_def addr_at_def [symmetric]
        compare_order_0)
qed

text \<open>A message the client sends for a connection is understood by its own receiver: when the server
  answers with the same id, remote address and any data that fits, the client hands exactly that data to
  its user, with the local and remote addresses of the connection, and marks the connection as used.\<close>

theorem server_answer_delivered:
  assumes reach: "client_reachable cl" and p: "p \<in> set (uc_list cl)"
    and flags: "flags AND UDPGW_CLIENT_FLAG_IPV6 = 0" and fits: "int (length data) \<le> uc_udp_mtu cl"
  shows "recv_interface_handler_send (udpgw_message flags (conid_at cl p) (remote_addr (addr_at cl p)) data) cl =
    (touch p cl, [Received (local_addr (addr_at cl p)) (remote_addr (addr_at cl p)) data])"
  using assms by (rule answer_delivered)

lemma ex_client_fields:
  "uc_udp_mtu ex_client = 1500" "7 \<in> set (uc_list ex_client)"
  using client_invD(2) [OF client_reachable_inv [OF ex_client_reachable]]
  by (auto simp: ex_client_heap)
    (simp add: ex_client_def bw_output_handler_recv_def ex_submitted_def ex_init_def UdpGwClient_Init_def Let_def
      UdpGwClient_SubmitPacket_def find_connection_by_conaddr_def BAVL_Init_def connection_init_def
      find_unused_conid_def conid_search.simps find_connection_by_conid_def insert_by_conaddr_def insert_by_conid_def)

lemma server_answer_delivered_witness:
  "snd (recv_interface_handler_send (udpgw_message 0 0 ex_remote [9, 8]) ex_client) =
     [Received ex_local ex_remote [9, 8]]"
proof -
  have at: "conid_at ex_client 7 = 0" "addr_at ex_client 7 = \<lparr>local_addr = ex_local, remote_addr = ex_remote\<rparr>"
    by (simp_all add: conid_at_def addr_at_def ex_client_heap)
  show ?thesis
    using server_answer_delivered [OF ex_client_reachable ex_client_fields(2), of 0 "[9, 8]"]
    by (simp add: at ex_client_fields(1))
qed

text \<open>C23. Nothing the server sends can confuse the client: whatever bytes arrive, either the packet is dropped
  with its reason and the client is unchanged, or data at the end of the packet that fits the datagram limit
  is handed over with the addresses of a connection in use, named by the id and by the remote address in
  the packet, and only the order of use changes.\<close>

theorem server_data_checked:
  assumes reach: "client_reachable cl"
  shows "(\<exists>e. recv_interface_handler_send bs cl = (cl, [Dropped e])) \<or>
    (\<exists>p n data. p \<in> set (uc_list cl) \<and> data = drop n bs \<and> int (length data) \<le> uc_udp_mtu cl \<and>
       udpgw_parse (uc_udp_mtu cl) bs = Inr (conid_at cl p, remote_addr (addr_at cl p), data) \<and>
       recv_interface_handler_send bs cl =
         (touch p cl, [Received (local_addr (addr_at cl p)) (remote_addr (addr_at cl p)) data]))"
proof (cases "udpgw_parse (uc_udp_mtu cl) bs")
  case (Inl e)
  then show ?thesis by (simp add: recv_interface_handler_send_def)
next
  case (Inr m)
  obtain c r data where m: "m = (c, r, data)" by (cases m)
  have inv: "client_inv cl" using reach by (rule client_reachable_inv)
  show ?thesis
  proof (cases "find_connection_by_conid cl c")
    case None
    then show ?thesis using Inr m by (simp add: recv_interface_handler_send_def)
  next
    case (Some p)
    then have p: "p \<in> set (uc_list cl)" "conid_at cl p = c"
      using find_by_conid_iff [OF inv] client_invD(2) [OF inv] by auto
    obtain n where n: "data = drop n bs" "int (length data) \<le> uc_udp_mtu cl"
      using parse_sound [OF Inr [unfolded m]] by blast
    show ?thesis
    proof (cases "remote_addr (addr_at cl p) = r")
      case True
      then have "recv_interface_handler_send bs cl =
          (touch p cl, [Received (local_addr (addr_at cl p)) (remote_addr (addr_at cl p)) data])"
        using Inr m Some by (simp add: recv_interface_handler_send_def Let_def compare_order_0 addr_at_def)
      then show ?thesis using Inr m p n True by blast
    next
      case False
      then have "recv_interface_handler_send bs cl = (cl, [Dropped Wrong_remote_address])"
        using Inr m Some by (simp add: recv_interface_handler_send_def Let_def compare_order_0 addr_at_def)
      then show ?thesis by blast
    qed
  qed
qed

lemma server_data_checked_witness:
  "\<exists>e. recv_interface_handler_send [0, 1] ex_client = (ex_client, [Dropped e])"
  using server_data_checked [OF ex_client_reachable, of "[0, 1]"]
  by (simp add: udpgw_parse_def)

end
