(* ===== verification/Socks_Client.thy ===== *)
theory Socks_Client
  imports Addr "HOL-Library.Monad_Syntax"
begin

text \<open>
  The SOCKS5 client (\<open>socksclient/BSocksClient.c\<close>, \<open>misc/socks_proto.h\<close>): its states, the buffer it sends
  from and receives into, and every handler. The objects it sets up and frees (connector, connection and
  the interfaces on it) are a set; setting up an object twice or freeing one that is not there is
  \<open>None\<close>, as is a receive handler in a state that never receives, and every read or write outside the buffer.
  \<open>BRealloc\<close> is a parameter: \<open>None\<close> for failure, and otherwise the contents of the bytes it adds.

  The client does not own its authentication data: \<open>BSocksClient_Init\<close> keeps a pointer to the caller's array and the
  number of its elements. The client here keeps the number, and the handlers that look at the array are given what
  it holds when they run.
\<close>

section \<open>Protocol constants\<close>

definition SOCKS_VERSION :: byte where "SOCKS_VERSION = 5"
definition SOCKS_METHOD_NO_AUTHENTICATION_REQUIRED :: int where "SOCKS_METHOD_NO_AUTHENTICATION_REQUIRED = 0"
definition SOCKS_METHOD_USERNAME_PASSWORD :: int where "SOCKS_METHOD_USERNAME_PASSWORD = 2"
definition SOCKS_CMD_CONNECT :: byte where "SOCKS_CMD_CONNECT = 1"
definition SOCKS_ATYP_IPV4 :: byte where "SOCKS_ATYP_IPV4 = 1"
definition SOCKS_ATYP_IPV6 :: byte where "SOCKS_ATYP_IPV6 = 4"
definition SOCKS_REP_SUCCEEDED :: byte where "SOCKS_REP_SUCCEEDED = 0"

lemmas socks_consts = SOCKS_VERSION_def SOCKS_METHOD_NO_AUTHENTICATION_REQUIRED_def
  SOCKS_METHOD_USERNAME_PASSWORD_def SOCKS_CMD_CONNECT_def SOCKS_ATYP_IPV4_def SOCKS_ATYP_IPV6_def
  SOCKS_REP_SUCCEEDED_def

section \<open>State\<close>

text \<open>An element of the array as it is read. \<open>Auth_freed n password\<close> is an element with a user name of \<open>n\<close> bytes whose
  memory has been freed.\<close>

datatype auth_info = Auth_none | Auth_password "byte list" "byte list" | Auth_freed nat "byte list"

fun auth_type :: "auth_info \<Rightarrow> int" where
  "auth_type Auth_none = SOCKS_METHOD_NO_AUTHENTICATION_REQUIRED"
| "auth_type (Auth_password _ _) = SOCKS_METHOD_USERNAME_PASSWORD"
| "auth_type (Auth_freed _ _) = SOCKS_METHOD_USERNAME_PASSWORD"

text \<open>\<open>struct BSocksClient_auth_info\<close> as it is stored, with a pointer \<open>'n\<close> to the user name, and how it is read: the
  name's bytes, or its length when its memory has been freed.\<close>

datatype 'n auth_data = No_auth | Password_data 'n "byte list"

definition BSocksClient_auth_none :: "'n auth_data" where "BSocksClient_auth_none = No_auth"

definition BSocksClient_auth_password :: "'n \<Rightarrow> byte list \<Rightarrow> 'n auth_data" where
  "BSocksClient_auth_password username password = Password_data username password"

fun load_auth :: "('n \<Rightarrow> nat + byte list) \<Rightarrow> 'n auth_data \<Rightarrow> auth_info" where
  "load_auth name No_auth = Auth_none"
| "load_auth name (Password_data n password) =
     (case name n of Inl len \<Rightarrow> Auth_freed len password | Inr username \<Rightarrow> Auth_password username password)"

datatype socks_state =
  Connecting | Sending_hello | Sent_hello | Sending_password | Sent_password
| Sending_request | Sent_request | Received_reply_header | Up

datatype resource = Connector | Connection | Recv_async | Send_async | Stream_sender

datatype socks_event = Event_error | Event_up | Event_error_closed

datatype socks_effect = Sock_send "byte list" | Sock_recv nat nat | Report socks_event

record socks_client =
  sc_num_auth_info :: nat
  sc_dest_addr :: baddr
  sc_state :: socks_state
  sc_buffer :: "byte list option"
  sc_recv_dest :: nat
  sc_recv_len :: nat
  sc_recv_total :: nat
  sc_held :: "resource set"

type_synonym socks_result = "(socks_client \<times> socks_effect list) option"

text \<open>The elements the client looks at, \<open>None\<close> when it would read past the array.\<close>

definition auth_array :: "auth_info list \<Rightarrow> socks_client \<Rightarrow> auth_info list option" where
  "auth_array auths cl =
     (if sc_num_auth_info cl \<le> length auths then Some (take (sc_num_auth_info cl) auths) else None)"

definition acquire :: "resource \<Rightarrow> socks_client \<Rightarrow> socks_client option" where
  "acquire r cl = (if r \<in> sc_held cl then None else Some (cl\<lparr>sc_held := insert r (sc_held cl)\<rparr>))"

definition release :: "resource \<Rightarrow> socks_client \<Rightarrow> socks_client option" where
  "release r cl = (if r \<in> sc_held cl then Some (cl\<lparr>sc_held := sc_held cl - {r}\<rparr>) else None)"

definition report_error :: "socks_client \<Rightarrow> socks_event \<Rightarrow> socks_result" where
  "report_error cl event = Some (cl, [Report event])"

definition init_control_io :: "socks_client \<Rightarrow> socks_client option" where
  "init_control_io cl = do {
     cl \<leftarrow> acquire Recv_async cl;
     cl \<leftarrow> acquire Send_async cl;
     acquire Stream_sender cl }"

definition free_control_io :: "socks_client \<Rightarrow> socks_client option" where
  "free_control_io cl = do {
     cl \<leftarrow> release Stream_sender cl;
     cl \<leftarrow> release Send_async cl;
     release Recv_async cl }"

definition init_up_io :: "socks_client \<Rightarrow> socks_client option" where
  "init_up_io cl = do { cl \<leftarrow> acquire Recv_async cl; acquire Send_async cl }"

definition free_up_io :: "socks_client \<Rightarrow> socks_client option" where
  "free_up_io cl = do { cl \<leftarrow> release Send_async cl; release Recv_async cl }"

section \<open>Buffer and receiving\<close>

type_synonym realloc = "(nat \<Rightarrow> byte) option"

text \<open>\<open>None\<close> is the failure the code reports; the buffer keeps its old bytes and is extended.\<close>

definition reserve_buffer :: "realloc \<Rightarrow> socks_client \<Rightarrow> u64 bsize_t \<Rightarrow> socks_client option" where
  "reserve_buffer mem cl sz =
     (if is_overflow sz then None
      else case mem of
        None \<Rightarrow> None
      | Some g \<Rightarrow>
          let old = (case sc_buffer cl of None \<Rightarrow> [] | Some b \<Rightarrow> b) in
          Some (cl\<lparr>sc_buffer := Some (map (\<lambda>i. if i < length old then old ! i else g i)
                                      [0..<unat (bs_value sz)])\<rparr>))"

definition do_receive :: "socks_client \<Rightarrow> socks_result" where
  "do_receive cl =
     (if sc_recv_len cl < sc_recv_total cl
      then Some (cl, [Sock_recv (sc_recv_dest cl + sc_recv_len cl) (sc_recv_total cl - sc_recv_len cl)])
      else None)"

definition start_receive :: "socks_client \<Rightarrow> nat \<Rightarrow> nat \<Rightarrow> socks_result" where
  "start_receive cl dest tot =
     (if tot > 0 then do_receive (cl\<lparr>sc_recv_dest := dest, sc_recv_len := 0, sc_recv_total := tot\<rparr>) else None)"

text \<open>\<open>memcpy\<close> into the buffer and out of it; a copy that leaves the buffer is \<open>None\<close>.\<close>

definition write_buffer :: "nat \<Rightarrow> byte list \<Rightarrow> socks_client \<Rightarrow> socks_client option" where
  "write_buffer at bytes cl =
     (case sc_buffer cl of
        None \<Rightarrow> None
      | Some b \<Rightarrow>
          if at + length bytes \<le> length b then Some (cl\<lparr>sc_buffer := Some (overwrite at bytes b)\<rparr>) else None)"

definition read_buffer :: "nat \<Rightarrow> socks_client \<Rightarrow> byte list option" where
  "read_buffer n cl =
     (case sc_buffer cl of None \<Rightarrow> None | Some b \<Rightarrow> if n \<le> length b then Some (take n b) else None)"

text \<open>Handing the first \<open>sz\<close> bytes of the buffer to the sender.\<close>

definition send_buffer :: "u64 bsize_t \<Rightarrow> socks_client \<Rightarrow> socks_effect option" where
  "send_buffer sz cl = map_option Sock_send (read_buffer (unat (bs_value sz)) cl)"

section \<open>Handlers\<close>

text \<open>The loop that writes the methods of the greeting; \<open>i\<close> counts the elements.\<close>

fun hello_methods :: "auth_info list \<Rightarrow> nat \<Rightarrow> socks_client \<Rightarrow> socks_client option" where
  "hello_methods [] i cl = Some cl"
| "hello_methods (ai # ais) i cl = do {
     cl \<leftarrow> write_buffer (2 + i) [hton8 (word_of_int (auth_type ai))] cl;
     hello_methods ais (i + 1) cl }"

definition connector_handler :: "auth_info list \<Rightarrow> realloc \<Rightarrow> bool \<Rightarrow> bool \<Rightarrow> socks_client \<Rightarrow> socks_result" where
  "connector_handler auths mem con_ok is_error cl =
     (if is_error then report_error cl Event_error
      else if \<not> con_ok then report_error cl Event_error
      else do {
        cl \<leftarrow> acquire Connection cl;
        cl \<leftarrow> init_control_io cl;
        let n = sc_num_auth_info cl;
        let fail1 = do { cl \<leftarrow> free_control_io cl; cl \<leftarrow> release Connection cl; report_error cl Event_error };
        let sz = bsize_add (bsize_fromsize 2) (bsize_mul (bsize_fromsize (of_nat n)) (bsize_fromsize 1));
        (if n = 0 \<or> n > 255 then fail1
         else case reserve_buffer mem cl sz of
           None \<Rightarrow> fail1
         | Some cl \<Rightarrow> do {
             cl \<leftarrow> write_buffer 0 [hton8 SOCKS_VERSION, hton8 (of_nat n)] cl;
             ais \<leftarrow> auth_array auths cl;
             cl \<leftarrow> hello_methods ais 0 cl;
             eff \<leftarrow> send_buffer sz cl;
             Some (cl\<lparr>sc_state := Sending_hello\<rparr>, [eff]) })
      })"

definition connection_handler :: "bool \<Rightarrow> socks_client \<Rightarrow> socks_result" where
  "connection_handler recv_closed cl =
     (if sc_state cl = Up \<and> recv_closed then report_error cl Event_error_closed
      else report_error cl Event_error)"

definition auth_finished :: "realloc \<Rightarrow> socks_client \<Rightarrow> socks_result" where
  "auth_finished mem cl =
     (let sz = bsize_fromsize 4;
          sz = (case sc_dest_addr cl of
                    Addr_V4 _ _ \<Rightarrow> bsize_add sz (bsize_fromsize 6)
                  | Addr_V6 _ _ \<Rightarrow> bsize_add sz (bsize_fromsize 18)
                  | Addr_None \<Rightarrow> sz)
      in case reserve_buffer mem cl sz of
           None \<Rightarrow> report_error cl Event_error
         | Some cl \<Rightarrow> do {
             (atyp, cl) \<leftarrow> (case sc_dest_addr cl of
                Addr_V4 ip port \<Rightarrow> map_option (Pair SOCKS_ATYP_IPV4) (write_buffer 4 (mem32 ip @ mem16 port) cl)
              | Addr_V6 ip port \<Rightarrow> map_option (Pair SOCKS_ATYP_IPV6) (write_buffer 4 (ip @ mem16 port) cl)
              | Addr_None \<Rightarrow> None);
             cl \<leftarrow> write_buffer 0 [hton8 SOCKS_VERSION, hton8 SOCKS_CMD_CONNECT, hton8 0, hton8 atyp] cl;
             eff \<leftarrow> send_buffer sz cl;
             Some (cl\<lparr>sc_state := Sending_request\<rparr>, [eff]) })"

text \<open>The branches of \<open>recv_handler_done\<close> once everything asked for has arrived.\<close>

definition received_hello :: "auth_info list \<Rightarrow> realloc \<Rightarrow> socks_client \<Rightarrow> socks_result" where
  "received_hello auths mem cl = do {
     buf \<leftarrow> read_buffer 2 cl;
     (if ntoh8 (ld8 0 buf) \<noteq> SOCKS_VERSION then report_error cl Event_error
      else do {
        ais \<leftarrow> auth_array auths cl;
        (case find (\<lambda>ai. auth_type ai = uint (ntoh8 (ld8 1 buf))) ais of
           None \<Rightarrow> report_error cl Event_error
         | Some Auth_none \<Rightarrow> auth_finished mem cl
         | Some (Auth_password username password) \<Rightarrow>
             if length username = 0 \<or> length username > 255 \<or> length password = 0 \<or> length password > 255
             then report_error cl Event_error
             else
               let sz = bsize_fromsize (1 + 1 + of_nat (length username) + 1 + of_nat (length password)) in
               (case reserve_buffer mem cl sz of
                  None \<Rightarrow> report_error cl Event_error
                | Some cl \<Rightarrow> do {
                    cl \<leftarrow> write_buffer 0 [1] cl;
                    cl \<leftarrow> write_buffer 1 [of_nat (length username)] cl;
                    cl \<leftarrow> write_buffer 2 username cl;
                    cl \<leftarrow> write_buffer (2 + length username) [of_nat (length password)] cl;
                    cl \<leftarrow> write_buffer (3 + length username) password cl;
                    eff \<leftarrow> send_buffer sz cl;
                    Some (cl\<lparr>sc_state := Sending_password\<rparr>, [eff]) })
         | Some (Auth_freed n password) \<Rightarrow>
             if n = 0 \<or> n > 255 \<or> length password = 0 \<or> length password > 255 then report_error cl Event_error
             else (case reserve_buffer mem cl (bsize_fromsize (1 + 1 + of_nat n + 1 + of_nat (length password))) of
                     None \<Rightarrow> report_error cl Event_error
                   | Some cl \<Rightarrow> None)) }) }"

definition received_reply_header :: "socks_client \<Rightarrow> socks_result" where
  "received_reply_header cl = do {
     buf \<leftarrow> read_buffer 4 cl;
     (if ntoh8 (ld8 0 buf) \<noteq> SOCKS_VERSION then report_error cl Event_error
      else if ntoh8 (ld8 1 buf) \<noteq> SOCKS_REP_SUCCEEDED then report_error cl Event_error
      else
        let atyp = ntoh8 (ld8 3 buf);
            addr_len = (if atyp = SOCKS_ATYP_IPV4 then Some 6 else if atyp = SOCKS_ATYP_IPV6 then Some 18 else None)
        in case addr_len of
             None \<Rightarrow> report_error cl Event_error
           | Some n \<Rightarrow> map_option (apfst (\<lambda>cl. cl\<lparr>sc_state := Received_reply_header\<rparr>)) (start_receive cl 4 n)) }"

definition received_password_reply :: "realloc \<Rightarrow> socks_client \<Rightarrow> socks_result" where
  "received_password_reply mem cl = do {
     buf \<leftarrow> read_buffer 2 cl;
     (if ld8 0 buf \<noteq> 1 then report_error cl Event_error
      else if ld8 1 buf \<noteq> 0 then report_error cl Event_error
      else auth_finished mem cl) }"

definition received_reply_rest :: "socks_client \<Rightarrow> socks_result" where
  "received_reply_rest cl = do {
     cl \<leftarrow> Some (cl\<lparr>sc_buffer := None\<rparr>);
     cl \<leftarrow> free_control_io cl;
     cl \<leftarrow> init_up_io cl;
     Some (cl\<lparr>sc_state := Up\<rparr>, [Report Event_up]) }"

definition received_all :: "auth_info list \<Rightarrow> realloc \<Rightarrow> socks_client \<Rightarrow> socks_result" where
  "received_all auths mem cl =
     (case sc_state cl of
        Sent_hello \<Rightarrow> received_hello auths mem cl
      | Sent_request \<Rightarrow> received_reply_header cl
      | Sent_password \<Rightarrow> received_password_reply mem cl
      | Received_reply_header \<Rightarrow> received_reply_rest cl
      | _ \<Rightarrow> None)"

text \<open>\<open>data\<close> is what the stream interface has stored at the place it was given.\<close>

definition recv_handler_done :: "auth_info list \<Rightarrow> realloc \<Rightarrow> byte list \<Rightarrow> socks_client \<Rightarrow> socks_result" where
  "recv_handler_done auths mem data cl = do {
     cl \<leftarrow> write_buffer (sc_recv_dest cl + sc_recv_len cl) data cl;
     let cl = cl\<lparr>sc_recv_len := sc_recv_len cl + length data\<rparr>;
     (if sc_recv_len cl < sc_recv_total cl then do_receive cl
      else received_all auths mem cl) }"

definition send_handler_done :: "realloc \<Rightarrow> socks_client \<Rightarrow> socks_result" where
  "send_handler_done mem cl =
     (if sc_buffer cl = None then None else
      let receive = (\<lambda>sz tot st.
            case reserve_buffer mem cl sz of
              None \<Rightarrow> report_error cl Event_error
            | Some cl \<Rightarrow> map_option (apfst (\<lambda>cl. cl\<lparr>sc_state := st\<rparr>)) (start_receive cl 0 tot))
      in case sc_state cl of
        Sending_hello \<Rightarrow> receive (bsize_fromsize 2) 2 Sent_hello
      | Sending_request \<Rightarrow>
          receive (bsize_add (bsize_fromsize 4) (bsize_max (bsize_fromsize 6) (bsize_fromsize 18))) 4 Sent_request
      | Sending_password \<Rightarrow> receive (bsize_fromsize 2) 2 Sent_password
      | _ \<Rightarrow> None)"

section \<open>Initialisation and freeing\<close>

definition BSocksClient_Init :: "bool \<Rightarrow> nat \<Rightarrow> baddr \<Rightarrow> socks_client option" where
  "BSocksClient_Init connector_ok num_auth_info dest_addr =
     (if \<not> connector_ok then None
      else Some \<lparr>sc_num_auth_info = num_auth_info, sc_dest_addr = dest_addr, sc_state = Connecting, sc_buffer = None,
        sc_recv_dest = 0, sc_recv_len = 0, sc_recv_total = 0, sc_held = {Connector}\<rparr>)"

definition BSocksClient_Free :: "socks_client \<Rightarrow> socks_client option" where
  "BSocksClient_Free cl = do {
     cl \<leftarrow> (if sc_state cl \<noteq> Connecting
           then do { cl \<leftarrow> (if sc_state cl = Up then free_up_io cl else free_control_io cl);
                     release Connection cl }
           else Some cl);
     cl \<leftarrow> release Connector cl;
     Some (cl\<lparr>sc_buffer := None\<rparr>) }"

end
