(* ===== verification/Socks_Run.thy ===== *)
theory Socks_Run
  imports Socks_Client
begin

text \<open>
  The SOCKS5 client as a state machine: its inputs, the states reachable before an error is reported, the
  invariant over them, and complete handshakes with a server whose answers arrive in any pieces.
\<close>

section \<open>Inputs\<close>

datatype socks_input =
  In_connector realloc bool bool
| In_connection bool
| In_sent realloc
| In_received realloc "byte list"

definition receiving :: "socks_state \<Rightarrow> bool" where
  "receiving s \<longleftrightarrow> s \<in> {Sent_hello, Sent_password, Sent_request, Received_reply_header}"

definition sending :: "socks_state \<Rightarrow> bool" where
  "sending s \<longleftrightarrow> s \<in> {Sending_hello, Sending_password, Sending_request}"

fun socks_enabled :: "socks_input \<Rightarrow> socks_client \<Rightarrow> bool" where
  "socks_enabled (In_connector mem con_ok is_error) cl = (sc_state cl = Connecting)"
| "socks_enabled (In_connection recv_closed) cl = (sc_state cl \<noteq> Connecting)"
| "socks_enabled (In_sent mem) cl = sending (sc_state cl)"
| "socks_enabled (In_received mem data) cl =
     (receiving (sc_state cl) \<and> sc_recv_len cl + length data \<le> sc_recv_total cl)"

text \<open>The handler of an input, with what the caller's array of authentication data holds at that time.\<close>

fun socks_do :: "auth_info list \<Rightarrow> socks_input \<Rightarrow> socks_client \<Rightarrow> socks_result" where
  "socks_do auths (In_connector mem con_ok is_error) cl = connector_handler auths mem con_ok is_error cl"
| "socks_do auths (In_connection recv_closed) cl = connection_handler recv_closed cl"
| "socks_do auths (In_sent mem) cl = send_handler_done mem cl"
| "socks_do auths (In_received mem data) cl = recv_handler_done auths mem data cl"

text \<open>The array is as long as the client was told, and its user names have not been freed.\<close>

fun auth_live :: "auth_info \<Rightarrow> bool" where
  "auth_live (Auth_freed _ _) = False" | "auth_live _ = True"

definition auths_live :: "auth_info list \<Rightarrow> socks_client \<Rightarrow> bool" where
  "auths_live auths cl \<longleftrightarrow> sc_num_auth_info cl \<le> length auths \<and> list_all auth_live auths"

definition failed :: "socks_effect list \<Rightarrow> bool" where
  "failed effs \<longleftrightarrow> Report Event_error \<in> set effs \<or> Report Event_error_closed \<in> set effs"

text \<open>After an error is reported the object gets no more inputs; it can only be freed. The array may hold anything
  at each input.\<close>

inductive socks_reachable :: "socks_client \<Rightarrow> bool" where
  start: "addr_ok dest_addr \<Longrightarrow> BSocksClient_Init True num_auth_info dest_addr = Some cl \<Longrightarrow> socks_reachable cl"
| input: "socks_reachable cl \<Longrightarrow> socks_enabled i cl \<Longrightarrow> socks_do auths i cl = Some (cl', effs) \<Longrightarrow> \<not> failed effs \<Longrightarrow>
    socks_reachable cl'"

section \<open>Lemmas on the buffer\<close>

lemma reserve_cases:
  obtains "reserve_buffer mem cl sz = None"
  | b where "reserve_buffer mem cl sz = Some (cl\<lparr>sc_buffer := Some b\<rparr>)" "length b = unat (bs_value sz)"
proof (cases "is_overflow sz \<or> mem = None")
  case True
  then show ?thesis using that(1) by (auto simp: reserve_buffer_def)
next
  case False
  then obtain g where "mem = Some g" by auto
  then show ?thesis using False that(2) by (auto simp: reserve_buffer_def Let_def)
qed

lemma reserve_ok:
  assumes "\<not> is_overflow sz" "mem \<noteq> None"
  obtains b where "reserve_buffer mem cl sz = Some (cl\<lparr>sc_buffer := Some b\<rparr>)" "length b = unat (bs_value sz)"
  using assms by (auto simp: reserve_buffer_def Let_def)

lemma write_buffer_Some:
  "sc_buffer cl = Some b \<Longrightarrow> at + length bs \<le> length b \<Longrightarrow>
   write_buffer at bs cl = Some (cl\<lparr>sc_buffer := Some (overwrite at bs b)\<rparr>)"
  by (simp add: write_buffer_def)

lemma read_buffer_Some: "sc_buffer cl = Some b \<Longrightarrow> n \<le> length b \<Longrightarrow> read_buffer n cl = Some (take n b)"
  by (simp add: read_buffer_def)

lemma send_buffer_Some:
  "sc_buffer cl = Some b \<Longrightarrow> unat (bs_value sz) = length b \<Longrightarrow> send_buffer sz cl = Some (Sock_send b)"
  by (simp add: send_buffer_def read_buffer_def)

lemmas buffer_Some = write_buffer_Some read_buffer_Some send_buffer_Some

lemma write_buffer_fields:
  assumes "write_buffer at bs cl = Some cl'"
  shows "sc_num_auth_info cl' = sc_num_auth_info cl" "sc_state cl' = sc_state cl" "sc_recv_total cl' = sc_recv_total cl"
    "sc_recv_len cl' = sc_recv_len cl"
  using assms by (auto simp: write_buffer_def split: option.splits if_splits)

lemma send_buffer_shape: "send_buffer sz cl = Some e \<Longrightarrow> \<exists>bs. e = Sock_send bs"
  by (auto simp: send_buffer_def)

lemma overwrite_all: "length xs = length b \<Longrightarrow> overwrite 0 xs b = xs"
  by (simp add: overwrite_def)

lemma overwrite_two: "length xs = n \<Longrightarrow> length b = n + length ys \<Longrightarrow> overwrite 0 xs (overwrite n ys b) = xs @ ys"
  by (simp add: overwrite_def)

lemma overwrite_chain:
  "length xs = n \<Longrightarrow> n + length ys \<le> length b \<Longrightarrow> overwrite n ys (overwrite 0 xs b) = overwrite 0 (xs @ ys) b"
  by (simp add: overwrite_def ac_simps)

lemma password_written:
  assumes "length b = 3 + length u + length p"
  shows "overwrite (3 + length u) p (overwrite (2 + length u) [y] (overwrite 2 u (overwrite (Suc 0) [x] (overwrite 0 [w] b)))) =
    [w, x] @ u @ [y] @ p"
proof -
  have "overwrite (Suc 0) [x] (overwrite 0 [w] b) = overwrite 0 [w, x] b"
    using assms by (simp add: overwrite_chain)
  then show ?thesis using assms by (simp add: overwrite_chain overwrite_all)
qed

definition hello_size :: "nat \<Rightarrow> u64 bsize_t" where
  "hello_size n = bsize_add (bsize_fromsize 2) (bsize_mul (bsize_fromsize (of_nat n)) (bsize_fromsize 1))"

lemma hello_size: "n \<le> 255 \<Longrightarrow> \<not> is_overflow (hello_size n) \<and> unat (bs_value (hello_size n)) = 2 + n"
proof -
  assume n: "n \<le> 255"
  then have u: "unat (of_nat n :: u64) = n" by (simp add: unat_of_nat take_bit_nat_eq_self)
  have "bsize_num (hello_size n) = Some (2 + n)"
    using n by (simp add: hello_size_def bsize_num_add bsize_num_mul fits_def u)
  then show ?thesis by (simp add: bsize_num_def split: if_splits)
qed

lemma request_size:
  "\<not> is_overflow (bsize_add (bsize_fromsize 4) (bsize_fromsize 6) :: u64 bsize_t)"
  "unat (bs_value (bsize_add (bsize_fromsize 4) (bsize_fromsize 6) :: u64 bsize_t)) = 10"
  "\<not> is_overflow (bsize_add (bsize_fromsize 4) (bsize_fromsize 18) :: u64 bsize_t)"
  "unat (bs_value (bsize_add (bsize_fromsize 4) (bsize_fromsize 18) :: u64 bsize_t)) = 22"
  "\<not> is_overflow (bsize_add (bsize_fromsize 4) (bsize_max (bsize_fromsize 6) (bsize_fromsize 18)) :: u64 bsize_t)"
  "unat (bs_value (bsize_add (bsize_fromsize 4) (bsize_max (bsize_fromsize 6) (bsize_fromsize 18)) :: u64 bsize_t)) = 22"
  by (simp_all add: bsize_add_def bsize_max_def bsize_fromsize_def SIZE_MAX_def)

lemma password_size:
  assumes "u \<le> 255" "p \<le> 255"
  shows "unat (bs_value (bsize_fromsize (1 + 1 + of_nat u + 1 + of_nat p) :: u64 bsize_t)) = 3 + u + p"
    "\<not> is_overflow (bsize_fromsize (1 + 1 + of_nat u + 1 + of_nat p) :: u64 bsize_t)"
proof -
  have "(1 + 1 + of_nat u + 1 + of_nat p :: u64) = of_nat (3 + u + p)" by simp
  moreover have "unat (of_nat (3 + u + p) :: u64) = 3 + u + p"
    using assms by (simp only: unat_of_nat) (simp add: take_bit_nat_eq_self)
  ultimately show "unat (bs_value (bsize_fromsize (1 + 1 + of_nat u + 1 + of_nat p) :: u64 bsize_t)) = 3 + u + p"
    by (simp only: bsize_fromsize_def bsize_t.simps)
  show "\<not> is_overflow (bsize_fromsize (1 + 1 + of_nat u + 1 + of_nat p) :: u64 bsize_t)"
    by (simp add: bsize_fromsize_def)
qed

section \<open>What the client sends\<close>

definition socks_hello :: "auth_info list \<Rightarrow> byte list" where
  "socks_hello auths = [5, of_nat (length auths)] @ map (\<lambda>ai. word_of_int (auth_type ai)) auths"

definition socks_request :: "baddr \<Rightarrow> byte list" where
  "socks_request dest =
     (case dest of
        Addr_V4 ip port \<Rightarrow> [5, 1, 0, 1] @ mem32 ip @ mem16 port
      | Addr_V6 ip port \<Rightarrow> [5, 1, 0, 4] @ ip @ mem16 port
      | Addr_None \<Rightarrow> [])"

definition socks_password :: "byte list \<Rightarrow> byte list \<Rightarrow> byte list" where
  "socks_password username password =
     [1, of_nat (length username)] @ username @ [of_nat (length password)] @ password"

lemma hello_methods_written:
  assumes "sc_buffer cl = Some b" "2 + i + length ais \<le> length b"
  shows "hello_methods ais i cl =
    Some (cl\<lparr>sc_buffer := Some (take (2 + i) b @ map (\<lambda>ai. hton8 (word_of_int (auth_type ai))) ais @
                                 drop (2 + i + length ais) b)\<rparr>)"
  using assms
proof (induction ais arbitrary: i cl b)
  case (Cons ai ais)
  let ?x = "hton8 (word_of_int (auth_type ai))"
  let ?b = "overwrite (2 + i) [?x] b"
  have fits: "2 + i + length [?x] \<le> length b" using Cons.prems(2) by simp
  have b: "take (2 + (i + 1)) ?b = take (2 + i) b @ [?x]" "drop (2 + (i + 1) + length ais) ?b = drop (2 + i + length (ai # ais)) b"
    using fits by (simp_all add: overwrite_def ac_simps del: add_2_eq_Suc add_2_eq_Suc')
  have "2 + (i + 1) + length ais \<le> length ?b" using Cons.prems(2) fits by simp
  from Cons.IH [OF _ this, of "cl\<lparr>sc_buffer := Some ?b\<rparr>", unfolded b]
  show ?case using Cons.prems(1) fits by (simp add: write_buffer_Some del: add_2_eq_Suc add_2_eq_Suc')
qed simp

lemma hello_methods_fields:
  "hello_methods ais i cl = Some cl' \<Longrightarrow> sc_num_auth_info cl' = sc_num_auth_info cl \<and> sc_state cl' = sc_state cl"
proof (induction ais arbitrary: i cl)
  case (Cons ai ais)
  then show ?case by (fastforce simp: write_buffer_fields Option.bind_eq_Some_conv)
qed simp

lemma auth_finished_cases:
  assumes "addr_ok (sc_dest_addr cl)"
  obtains "auth_finished mem cl = Some (cl, [Report Event_error])" "mem = None"
  | "auth_finished mem cl = Some (cl\<lparr>sc_buffer := Some (socks_request (sc_dest_addr cl)), sc_state := Sending_request\<rparr>,
       [Sock_send (socks_request (sc_dest_addr cl))])"
proof (cases mem)
  case None
  then show ?thesis
    using that(1) assms
    by (cases "sc_dest_addr cl") (simp_all add: auth_finished_def reserve_buffer_def report_error_def Let_def)
next
  case (Some g)
  then have mem: "mem \<noteq> None" by simp
  show ?thesis
  proof (cases "sc_dest_addr cl")
    case Addr_None
    then show ?thesis using assms by simp
  next
    case (Addr_V4 ip port)
    obtain b where b: "reserve_buffer mem cl (bsize_add (bsize_fromsize 4) (bsize_fromsize 6)) = Some (cl\<lparr>sc_buffer := Some b\<rparr>)"
      "length b = 10"
      by (rule reserve_ok [OF request_size(1) mem, of cl]) (simp add: request_size)
    then show ?thesis
      using that(2) Addr_V4
      by (simp add: auth_finished_def Let_def b buffer_Some request_size overwrite_two
          socks_request_def hton8_def htol8_def socks_consts)
  next
    case (Addr_V6 ip port)
    obtain b where b: "reserve_buffer mem cl (bsize_add (bsize_fromsize 4) (bsize_fromsize 18)) = Some (cl\<lparr>sc_buffer := Some b\<rparr>)"
      "length b = 22"
      by (rule reserve_ok [OF request_size(3) mem, of cl]) (simp add: request_size)
    then show ?thesis
      using that(2) Addr_V6 assms
      by (simp add: auth_finished_def Let_def b buffer_Some request_size overwrite_two
          socks_request_def hton8_def htol8_def socks_consts)
  qed
qed

section \<open>The invariant\<close>

definition held_in :: "socks_state \<Rightarrow> resource set" where
  "held_in s =
     (case s of
        Connecting \<Rightarrow> {Connector}
      | Up \<Rightarrow> {Connector, Connection, Recv_async, Send_async}
      | _ \<Rightarrow> {Connector, Connection, Recv_async, Send_async, Stream_sender})"

text \<open>There is a buffer while a message is sent or received; the bytes asked for fit it, and are those of the answer
  awaited; a verified reply header stays in the buffer.\<close>

definition receive_ok :: "socks_client \<Rightarrow> bool" where
  "receive_ok cl \<longleftrightarrow>
     (case sc_buffer cl of
        None \<Rightarrow> \<not> receiving (sc_state cl) \<and> \<not> sending (sc_state cl)
      | Some b \<Rightarrow>
          (receiving (sc_state cl) \<longrightarrow>
             sc_recv_dest cl + sc_recv_total cl \<le> length b \<and> sc_recv_len cl < sc_recv_total cl) \<and>
          (sc_state cl \<in> {Sent_hello, Sent_password} \<longrightarrow> sc_recv_dest cl = 0 \<and> sc_recv_total cl = 2 \<and> length b = 2) \<and>
          (sc_state cl = Sent_request \<longrightarrow> sc_recv_dest cl = 0 \<and> sc_recv_total cl = 4 \<and> length b = 22) \<and>
          (sc_state cl = Received_reply_header \<longrightarrow>
             sc_recv_dest cl = 4 \<and> b ! 0 = SOCKS_VERSION \<and> b ! 1 = SOCKS_REP_SUCCEEDED \<and>
             (b ! 3 = SOCKS_ATYP_IPV4 \<and> sc_recv_total cl = 6 \<or> b ! 3 = SOCKS_ATYP_IPV6 \<and> sc_recv_total cl = 18)))"

definition held_ok :: "socks_client \<Rightarrow> bool" where
  "held_ok cl \<longleftrightarrow> addr_ok (sc_dest_addr cl) \<and> sc_held cl = held_in (sc_state cl)"

definition recv_within :: "socks_client \<Rightarrow> socks_effect \<Rightarrow> bool" where
  "recv_within cl e =
     (case e of
        Sock_recv at n \<Rightarrow> (case sc_buffer cl of None \<Rightarrow> False | Some b \<Rightarrow> at + n \<le> length b)
      | _ \<Rightarrow> True)"

definition step_ok :: "socks_client \<Rightarrow> socks_effect list \<Rightarrow> bool" where
  "step_ok cl effs \<longleftrightarrow> held_ok cl \<and> list_all (recv_within cl) effs \<and> (failed effs \<or> receive_ok cl)"

text \<open>A handler with the result \<open>r\<close>: what it returns is in order, and it returns if the array is \<open>live\<close>.\<close>

definition result_ok :: "bool \<Rightarrow> socks_result \<Rightarrow> bool" where
  "result_ok live r \<longleftrightarrow> (case r of None \<Rightarrow> \<not> live | Some (cl, effs) \<Rightarrow> step_ok cl effs)"

lemma result_okI: "\<exists>cl' effs. r = Some (cl', effs) \<and> step_ok cl' effs \<Longrightarrow> result_ok live r"
  by (auto simp: result_ok_def)

lemma result_okD: "result_ok live r \<Longrightarrow> live \<Longrightarrow> \<exists>cl' effs. r = Some (cl', effs) \<and> step_ok cl' effs"
  by (auto simp: result_ok_def split: option.splits)

lemma result_ok_None [simp]: "result_ok live None \<longleftrightarrow> \<not> live"
  by (simp add: result_ok_def)

lemmas socks_res_defs = acquire_def release_def init_control_io_def free_control_io_def init_up_io_def
  free_up_io_def

lemma report_ok: "held_ok cl \<Longrightarrow> step_ok cl [Report Event_error]"
  by (simp add: step_ok_def recv_within_def failed_def)

lemma sending_ok: "held_ok cl \<Longrightarrow> sc_buffer cl \<noteq> None \<Longrightarrow> sending (sc_state cl) \<Longrightarrow> step_ok cl [Sock_send bs]"
  by (auto simp: step_ok_def recv_within_def failed_def receive_ok_def sending_def receiving_def split: option.splits)

lemma connector_sends_hello:
  assumes h: "sc_held cl = {Connector}" and n: "auths \<noteq> []" "length auths \<le> 255"
    and num: "auth_array arr cl = Some auths" and mem: "mem \<noteq> None"
  shows "connector_handler arr mem True False cl =
    Some (cl\<lparr>sc_held := {Stream_sender, Send_async, Recv_async, Connection, Connector},
             sc_buffer := Some (socks_hello auths), sc_state := Sending_hello\<rparr>,
          [Sock_send (socks_hello auths)])"
proof -
  let ?n = "length auths"
  let ?held = "{Stream_sender, Send_async, Recv_async, Connection, Connector}"
  let ?cl1 = "cl\<lparr>sc_held := ?held\<rparr>"
  let ?head = "[hton8 SOCKS_VERSION, hton8 (of_nat ?n)]"
  have len: "sc_num_auth_info cl = ?n" using num by (auto simp: auth_array_def split: if_splits)
  have arr: "auth_array arr (cl\<lparr>sc_held := H, sc_buffer := B\<rparr>) = Some auths" for H B
    using num by (auto simp: auth_array_def split: if_splits)
  note sz = hello_size [OF n(2)]
  obtain b where b: "reserve_buffer mem ?cl1 (hello_size ?n) = Some (?cl1\<lparr>sc_buffer := Some b\<rparr>)"
    "length b = 2 + ?n"
    by (rule reserve_ok [of "hello_size ?n" mem ?cl1]) (use sz mem in auto)
  have w: "write_buffer 0 ?head (?cl1\<lparr>sc_buffer := Some b\<rparr>) = Some (?cl1\<lparr>sc_buffer := Some (overwrite 0 ?head b)\<rparr>)"
    by (simp add: write_buffer_Some b(2))
  have m: "hello_methods auths 0 (?cl1\<lparr>sc_buffer := Some (overwrite 0 ?head b)\<rparr>) =
      Some (?cl1\<lparr>sc_buffer := Some (socks_hello auths)\<rparr>)"
    using hello_methods_written [of "?cl1\<lparr>sc_buffer := Some (overwrite 0 ?head b)\<rparr>" "overwrite 0 ?head b" 0 auths] b(2)
    by (simp add: overwrite_def socks_hello_def hton8_def htol8_def SOCKS_VERSION_def)
  have "\<not> (?n = 0 \<or> ?n > 255)" using n by auto
  moreover have "unat (bs_value (hello_size ?n)) = length (socks_hello auths)" using sz by (simp add: socks_hello_def)
  ultimately show ?thesis
    using h b(1) w m len unfolding hello_size_def
    by (simp add: connector_handler_def socks_res_defs Let_def send_buffer_Some arr)
qed

lemma connector_ok:
  assumes "held_ok cl" "sc_state cl = Connecting"
  shows "result_ok (auths_live arr cl) (connector_handler arr mem con_ok is_error cl)"
proof -
  have h: "sc_held cl = {Connector}" "addr_ok (sc_dest_addr cl)" using assms by (simp_all add: held_ok_def held_in_def)
  let ?n = "sc_num_auth_info cl"
  let ?cl1 = "cl\<lparr>sc_held := {Stream_sender, Send_async, Recv_async, Connection, Connector}\<rparr>"
  show ?thesis
  proof (cases "is_error \<or> \<not> con_ok")
    case True
    then show ?thesis using report_ok [OF assms(1)] by (auto simp: connector_handler_def report_error_def result_ok_def)
  next
    case False
    have fail: "\<exists>cl' effs. (do { cl \<leftarrow> free_control_io ?cl1; cl \<leftarrow> release Connection cl; report_error cl Event_error }) =
        Some (cl', effs) \<and> step_ok cl' effs"
      using assms h report_ok [of "cl\<lparr>sc_held := {Connector}\<rparr>"]
      by (simp add: socks_res_defs report_error_def held_ok_def held_in_def insert_Diff_if)
    show ?thesis
    proof (cases "?n = 0 \<or> ?n > 255")
      case True
      then show ?thesis using fail False h by (intro result_okI) (simp add: connector_handler_def socks_res_defs)
    next
      case n: False
      show ?thesis
      proof (cases rule: reserve_cases [of mem ?cl1 "hello_size ?n"])
        case 1
        then show ?thesis
          using fail False n h by (intro result_okI) (simp add: connector_handler_def socks_res_defs hello_size_def)
      next
        case (2 b)
        then have mem: "mem \<noteq> None" by (cases mem) (simp_all add: reserve_buffer_def split: if_splits)
        show ?thesis
        proof (cases "auth_array arr cl")
          case None
          then have "auth_array arr (?cl1\<lparr>sc_buffer := B\<rparr>) = None" for B
            by (auto simp: auth_array_def split: if_splits)
          then have "connector_handler arr mem con_ok is_error cl = None"
            using False n h 2 by (auto simp: connector_handler_def socks_res_defs hello_size_def write_buffer_def
                Let_def split: bind_splits)
          then show ?thesis using None by (auto simp: auths_live_def auth_array_def split: if_splits)
        next
          case (Some auths)
          then have "auths \<noteq> []" "length auths \<le> 255" using n by (auto simp: auth_array_def split: if_splits)
          from connector_sends_hello [OF h(1) this Some mem] show ?thesis
            using False h(2) by (auto intro!: result_okI sending_ok simp: sending_def held_ok_def held_in_def)
        qed
      qed
    qed
  qed
qed

lemma auth_ok:
  assumes h: "sc_held cl = held_in Sending_request" and d: "addr_ok (sc_dest_addr cl)" and s: "sc_held cl = held_in (sc_state cl)"
  shows "\<exists>cl' effs. auth_finished mem cl = Some (cl', effs) \<and> step_ok cl' effs"
  using d
proof (cases rule: auth_finished_cases [of cl mem])
  case 1
  then show ?thesis using report_ok [of cl] d s by (simp add: held_ok_def)
next
  case 2
  then show ?thesis using h d by (auto intro!: sending_ok simp: held_ok_def sending_def)
qed

lemma held_control:
  "s \<noteq> Connecting \<Longrightarrow> s \<noteq> Up \<Longrightarrow> held_in s = {Connector, Connection, Recv_async, Send_async, Stream_sender}"
  by (cases s) (simp_all add: held_in_def)

lemma received_hello_password:
  assumes "sc_buffer cl = Some b0" "take 2 b0 = [SOCKS_VERSION, m]" "auth_array arr cl = Some auths"
    "find (\<lambda>ai. auth_type ai = uint m) auths = Some (Auth_password u p)"
    and len: "length u \<le> 255" "length p \<le> 255" "u \<noteq> []" "p \<noteq> []"
  shows "received_hello arr (Some g) cl = Some (cl\<lparr>sc_buffer := Some (socks_password u p), sc_state := Sending_password\<rparr>,
    [Sock_send (socks_password u p)])"
proof -
  let ?sz = "bsize_fromsize (1 + 1 + of_nat (length u) + 1 + of_nat (length p)) :: u64 bsize_t"
  obtain b where b: "reserve_buffer (Some g) cl ?sz = Some (cl\<lparr>sc_buffer := Some b\<rparr>)" "length b = 3 + length u + length p"
    by (rule reserve_ok [OF password_size(2) [OF len(1,2)], of "Some g" cl]) (use password_size(1) [OF len(1,2)] in auto)
  have "2 \<le> length b0" using arg_cong [OF assms(2), of length] by simp
  then have r: "read_buffer 2 cl = Some [SOCKS_VERSION, m]" using assms(1,2) by (simp add: read_buffer_def)
  have n: "\<not> (length u = 0 \<or> length u > 255 \<or> length p = 0 \<or> length p > 255)" using len by auto
  have sz: "unat (bs_value ?sz) = length (socks_password u p)"
    using password_size(1) [OF len(1,2)] by (simp add: socks_password_def)
  have w: "overwrite (3 + length u) p (overwrite (2 + length u) [of_nat (length p)]
      (overwrite 2 u (overwrite (Suc 0) [of_nat (length u)] (overwrite 0 [1] b)))) = socks_password u p"
    using password_written [OF b(2)] by (simp add: socks_password_def)
  have "received_hello arr (Some g) cl =
      (case reserve_buffer (Some g) cl ?sz of
         None \<Rightarrow> report_error cl Event_error
       | Some cl \<Rightarrow> do {
           cl \<leftarrow> write_buffer 0 [1] cl;
           cl \<leftarrow> write_buffer 1 [of_nat (length u)] cl;
           cl \<leftarrow> write_buffer 2 u cl;
           cl \<leftarrow> write_buffer (2 + length u) [of_nat (length p)] cl;
           cl \<leftarrow> write_buffer (3 + length u) p cl;
           eff \<leftarrow> send_buffer ?sz cl;
           Some (cl\<lparr>sc_state := Sending_password\<rparr>, [eff]) })"
    using assms(3,4) n by (simp add: received_hello_def r ld8_def ntoh8_def hton8_def htol8_def Let_def cong: option.case_cong)
  also have "\<dots> = Some (cl\<lparr>sc_buffer := Some (socks_password u p), sc_state := Sending_password\<rparr>,
      [Sock_send (socks_password u p)])"
    using b(2) w sz unfolding b(1) by (simp add: write_buffer_Some send_buffer_Some)
  finally show ?thesis .
qed

text \<open>A user name whose memory has been freed is not sent: the handler has no result.\<close>

lemma received_hello_freed:
  assumes "sc_buffer cl = Some b0" "take 2 b0 = [SOCKS_VERSION, m]" "auth_array arr cl = Some auths"
    "find (\<lambda>ai. auth_type ai = uint m) auths = Some (Auth_freed n p)" "0 < n" "n \<le> 255" "length p \<le> 255" "p \<noteq> []"
  shows "received_hello arr (Some g) cl = None"
proof -
  have "2 \<le> length b0" using arg_cong [OF assms(2), of length] by simp
  then have r: "read_buffer 2 cl = Some [SOCKS_VERSION, m]" using assms(1,2) by (simp add: read_buffer_def)
  obtain b where "reserve_buffer (Some g) cl (bsize_fromsize (1 + 1 + of_nat n + 1 + of_nat (length p))) = Some (cl\<lparr>sc_buffer := Some b\<rparr>)"
    by (rule reserve_ok [OF password_size(2) [OF assms(6,7)], of "Some g" cl]) auto
  then show ?thesis
    using assms(3-8) by (simp add: received_hello_def r ld8_def ntoh8_def hton8_def htol8_def Let_def)
qed

lemma received_hello_choice:
  assumes "held_ok cl" "sc_state cl = Sent_hello" "sc_buffer cl = Some b" "length b = 2"
    and b: "take 2 b = [SOCKS_VERSION, ld8 1 b]" and arr: "auth_array arr cl = Some auths"
    and find: "find (\<lambda>ai. auth_type ai = uint (ld8 1 b)) auths = Some ai"
    and a: "\<exists>cl' effs. auth_finished mem cl = Some (cl', effs) \<and> step_ok cl' effs"
    and e: "\<exists>cl' effs. report_error cl Event_error = Some (cl', effs) \<and> step_ok cl' effs"
  shows "result_ok (auths_live arr cl) (received_hello arr mem cl)"
proof -
  have r: "read_buffer 2 cl = Some b" using assms(3,4) by (simp add: read_buffer_def)
  have ver: "ld8 0 b = SOCKS_VERSION" using arg_cong [OF b, of "\<lambda>xs. xs ! 0"] by (simp add: ld8_def)
  note d = received_hello_def r arr find ntoh8_def hton8_def htol8_def ver
  show ?thesis
  proof (cases ai)
    case Auth_none
    then show ?thesis using a by (intro result_okI) (simp add: d del: One_nat_def)
  next
    case (Auth_freed n pw)
    have "ai \<in> set auths" using find by (auto simp: find_Some_iff)
    then have "\<not> auths_live arr cl"
      using arr Auth_freed by (auto simp: auths_live_def auth_array_def list_all_iff split: if_splits
          dest!: in_set_takeD intro!: bexI [of _ "Auth_freed n pw"])
    then show ?thesis
      using e Auth_freed by (auto simp: d result_ok_def simp del: One_nat_def split: option.splits)
  next
    case (Auth_password u pw)
    show ?thesis
    proof (cases "length u = 0 \<or> length u > 255 \<or> length pw = 0 \<or> length pw > 255 \<or> mem = None")
      case True
      then show ?thesis using Auth_password e by (intro result_okI) (auto simp: d reserve_buffer_def Let_def simp del: One_nat_def)
    next
      case False
      then obtain g where "mem = Some g" by auto
      moreover have "step_ok (cl\<lparr>sc_buffer := Some (socks_password u pw), sc_state := Sending_password\<rparr>) [Sock_send bs]" for bs
        using assms(1,2) by (intro sending_ok) (simp_all add: held_ok_def held_control sending_def)
      ultimately show ?thesis
        using received_hello_password [OF assms(3) b arr, of u pw g] find Auth_password False by (intro result_okI) auto
    qed
  qed
qed

lemma received_hello_ok:
  assumes "held_ok cl" "sc_state cl = Sent_hello" "sc_buffer cl = Some b" "length b = 2"
  shows "result_ok (auths_live arr cl) (received_hello arr mem cl)"
proof -
  have a: "\<exists>cl' effs. auth_finished mem cl = Some (cl', effs) \<and> step_ok cl' effs"
    using auth_ok [of cl mem] assms by (simp add: held_ok_def held_control)
  have e: "\<exists>cl' effs. report_error cl Event_error = Some (cl', effs) \<and> step_ok cl' effs"
    using report_ok [OF assms(1)] by (simp add: report_error_def)
  have r: "read_buffer 2 cl = Some b" using assms(3,4) by (simp add: read_buffer_def)
  let ?m = "ld8 1 b"
  show ?thesis
  proof (cases "ntoh8 (ld8 0 b) \<noteq> SOCKS_VERSION")
    case True
    then show ?thesis using e by (intro result_okI) (simp add: received_hello_def r)
  next
    case ver: False
    then have b: "take 2 b = [SOCKS_VERSION, ?m]"
      using assms(4) by (auto simp: ld8_def ntoh8_def hton8_def htol8_def numeral_2_eq_2 length_Suc_conv)
    show ?thesis
    proof (cases "auth_array arr cl")
      case None
      then show ?thesis using ver by (auto simp: received_hello_def r auths_live_def auth_array_def split: if_splits)
    next
      case arr: (Some auths)
      have find: "find (\<lambda>ai. auth_type ai = uint (ntoh8 ?m)) auths = find (\<lambda>ai. auth_type ai = uint ?m) auths"
        by (simp add: ntoh8_def hton8_def htol8_def)
      show ?thesis
      proof (cases "find (\<lambda>ai. auth_type ai = uint ?m) auths")
        case None
        then show ?thesis using e ver by (intro result_okI) (simp add: received_hello_def r arr find del: One_nat_def)
      next
        case (Some ai)
        show ?thesis using received_hello_choice [OF assms(1-4) b arr Some a e] by blast
      qed
    qed
  qed
qed

lemma received_reply_header_ok:
  assumes "held_ok cl" "sc_state cl = Sent_request" "sc_buffer cl = Some b" "length b = 22"
  shows "\<exists>cl' effs. received_reply_header cl = Some (cl', effs) \<and> step_ok cl' effs"
proof -
  have e: "\<exists>cl' effs. report_error cl Event_error = Some (cl', effs) \<and> step_ok cl' effs"
    using report_ok [OF assms(1)] by (simp add: report_error_def)
  let ?cl = "\<lambda>n. cl\<lparr>sc_recv_dest := 4, sc_recv_len := 0, sc_recv_total := n, sc_state := Received_reply_header\<rparr>"
  have ok: "step_ok (?cl n) [Sock_recv 4 n]"
    if "b ! 0 = SOCKS_VERSION" "b ! 1 = SOCKS_REP_SUCCEEDED"
      "b ! 3 = SOCKS_ATYP_IPV4 \<and> n = 6 \<or> b ! 3 = SOCKS_ATYP_IPV6 \<and> n = 18" for n
    using that assms
    by (auto simp: step_ok_def held_ok_def held_control recv_within_def receive_ok_def receiving_def failed_def)
  have "read_buffer 4 cl = Some (take 4 b)" using assms(3,4) by (simp add: read_buffer_def)
  moreover have "ld8 i (take 4 b) = b ! i" if "i < 4" for i using that assms(4) by (simp add: ld8_def)
  ultimately show ?thesis
    using e ok [of 6] ok [of 18]
    by (auto simp: received_reply_header_def start_receive_def do_receive_def ntoh8_def hton8_def htol8_def Let_def)
qed

lemma received_all_ok:
  assumes "held_ok cl" "receiving (sc_state cl)"
    "sc_state cl \<in> {Sent_hello, Sent_password} \<Longrightarrow> \<exists>b. sc_buffer cl = Some b \<and> length b = 2"
    "sc_state cl = Sent_request \<Longrightarrow> \<exists>b. sc_buffer cl = Some b \<and> length b = 22"
  shows "result_ok (auths_live arr cl) (received_all arr mem cl)"
proof -
  have up: "\<exists>cl' effs. received_reply_rest cl = Some (cl', effs) \<and> step_ok cl' effs" if "sc_state cl = Received_reply_header"
    using assms(1) that
    by (auto simp: received_reply_rest_def socks_res_defs held_ok_def held_control step_ok_def recv_within_def
        receive_ok_def receiving_def sending_def failed_def held_in_def)
  have pw: "\<exists>cl' effs. received_password_reply mem cl = Some (cl', effs) \<and> step_ok cl' effs" if s: "sc_state cl = Sent_password"
  proof -
    obtain b where "sc_buffer cl = Some b" "length b = 2" using assms(3) s by auto
    then have "read_buffer 2 cl = Some b" by (simp add: read_buffer_def)
    then show ?thesis
      using auth_ok [of cl mem] report_ok [OF assms(1)] assms(1) s
      by (auto simp: received_password_reply_def report_error_def held_ok_def held_control)
  qed
  have hello: "result_ok (auths_live arr cl) (received_hello arr mem cl)" if s: "sc_state cl = Sent_hello"
    using assms(3) s received_hello_ok [OF assms(1) s] by auto
  show ?thesis
    using assms(2,4) hello result_okI [OF received_reply_header_ok [OF assms(1)]] result_okI [OF up] result_okI [OF pw]
    by (auto simp: received_all_def receiving_def)
qed

lemma recv_ok:
  assumes h: "held_ok cl" and r: "receive_ok cl" and s: "receiving (sc_state cl)"
    and n: "sc_recv_len cl + length data \<le> sc_recv_total cl"
  shows "result_ok (auths_live arr cl) (recv_handler_done arr mem data cl)"
proof -
  obtain b where b: "sc_buffer cl = Some b" using r s by (cases "sc_buffer cl") (auto simp: receive_ok_def)
  let ?b = "overwrite (sc_recv_dest cl + sc_recv_len cl) data b"
  let ?cl = "cl\<lparr>sc_buffer := Some ?b, sc_recv_len := sc_recv_len cl + length data\<rparr>"
  have fit: "sc_recv_dest cl + sc_recv_total cl \<le> length b" using r s b by (simp add: receive_ok_def)
  then have len: "length ?b = length b" using n by simp
  have held: "held_ok ?cl" using h by (simp add: held_ok_def)
  have eq: "recv_handler_done arr mem data cl = (if sc_recv_len ?cl < sc_recv_total ?cl then do_receive ?cl else received_all arr mem ?cl)"
    using n fit by (simp add: recv_handler_done_def Let_def write_buffer_Some [OF b])
  have live: "auths_live arr ?cl = auths_live arr cl" by (simp add: auths_live_def)
  show ?thesis
  proof (cases "sc_recv_len ?cl < sc_recv_total ?cl")
    case True
    have keep: "i < 4 \<Longrightarrow> sc_recv_dest cl = 4 \<Longrightarrow> ?b ! i = b ! i" for i
      using fit by (simp add: overwrite_def nth_append)
    have "receive_ok ?cl"
      using r b s True fit len keep [of 0] keep [of 1] keep [of 3] by (auto simp: receive_ok_def)
    moreover have "recv_within ?cl (Sock_recv (sc_recv_dest ?cl + sc_recv_len ?cl) (sc_recv_total ?cl - sc_recv_len ?cl))"
      using True fit len by (simp add: recv_within_def)
    ultimately show ?thesis using True held unfolding eq by (simp add: do_receive_def step_ok_def result_ok_def)
  next
    case False
    then show ?thesis
      using received_all_ok [OF held, of arr mem] s r b len unfolding eq live by (auto simp: receive_ok_def)
  qed
qed

text \<open>Sending done: the buffer is made large enough for the answer and the answer asked for.\<close>

lemma receive_from_start:
  assumes "\<not> is_overflow sz" "mem \<noteq> None" "0 < n"
  obtains b where "length b = unat (bs_value sz)"
    "(case reserve_buffer mem cl sz of
        None \<Rightarrow> report_error cl Event_error
      | Some cl \<Rightarrow> map_option (apfst (\<lambda>cl. cl\<lparr>sc_state := st\<rparr>)) (start_receive cl 0 n)) =
     Some (cl\<lparr>sc_buffer := Some b, sc_recv_dest := 0, sc_recv_len := 0, sc_recv_total := n, sc_state := st\<rparr>,
       [Sock_recv 0 n])"
  by (rule reserve_ok [OF assms(1,2), of cl]) (use that assms(3) in \<open>auto simp: start_receive_def do_receive_def\<close>)

lemma reserve_fails: "reserve_buffer None cl sz = None"
  by (simp add: reserve_buffer_def)

lemma send_done_ok:
  assumes h: "held_ok cl" and s: "sending (sc_state cl)" and buf: "sc_buffer cl \<noteq> None"
  shows "\<exists>cl' effs. send_handler_done mem cl = Some (cl', effs) \<and> step_ok cl' effs"
proof (cases mem)
  case None
  then show ?thesis
    using report_ok [OF h] s buf by (auto simp: send_handler_done_def sending_def reserve_fails report_error_def)
next
  case (Some g)
  then have mem: "mem \<noteq> None" by simp
  have two: "\<not> is_overflow (bsize_fromsize 2 :: u64 bsize_t)" "unat (bs_value (bsize_fromsize 2 :: u64 bsize_t)) = 2"
    by (simp_all add: bsize_fromsize_def)
  have ok: "step_ok (cl\<lparr>sc_buffer := Some b, sc_recv_dest := 0, sc_recv_len := 0, sc_recv_total := n, sc_state := st\<rparr>)
      [Sock_recv 0 n]"
    if "receiving st" "st \<noteq> Received_reply_header" "0 < n" "n \<le> length b" "st = Sent_request \<Longrightarrow> n = 4 \<and> length b = 22"
      "st \<in> {Sent_hello, Sent_password} \<Longrightarrow> n = 2 \<and> length b = 2" for b st n
  proof -
    have ne: "st \<noteq> Connecting" "st \<noteq> Up" "sc_state cl \<noteq> Connecting" "sc_state cl \<noteq> Up"
      using that(1) s by (auto simp: receiving_def sending_def)
    have held: "sc_held cl = held_in st" "addr_ok (sc_dest_addr cl)"
      using h held_control [OF ne(1,2)] held_control [OF ne(3,4)] by (simp_all add: held_ok_def)
    then show ?thesis
      using that by (simp add: step_ok_def held_ok_def recv_within_def receive_ok_def)
  qed
  have answers: "length b = 2 \<Longrightarrow> step_ok (cl\<lparr>sc_buffer := Some b, sc_recv_dest := 0, sc_recv_len := 0, sc_recv_total := 2, sc_state := Sent_hello\<rparr>) [Sock_recv 0 2]"
    "length b = 2 \<Longrightarrow> step_ok (cl\<lparr>sc_buffer := Some b, sc_recv_dest := 0, sc_recv_len := 0, sc_recv_total := 2, sc_state := Sent_password\<rparr>) [Sock_recv 0 2]"
    "length b = 22 \<Longrightarrow> step_ok (cl\<lparr>sc_buffer := Some b, sc_recv_dest := 0, sc_recv_len := 0, sc_recv_total := 4, sc_state := Sent_request\<rparr>) [Sock_recv 0 4]" for b
    by (rule ok; simp add: receiving_def)+
  from s consider "sc_state cl = Sending_hello" | "sc_state cl = Sending_request" | "sc_state cl = Sending_password"
    by (auto simp: sending_def)
  then show ?thesis
  proof cases
    case 1
    show ?thesis
      by (rule receive_from_start [OF two(1) mem, of 2 cl Sent_hello])
        (use 1 answers two buf in \<open>auto simp: send_handler_done_def receiving_def\<close>)
  next
    case 2
    show ?thesis
      by (rule receive_from_start [OF request_size(5) mem, of 4 cl Sent_request])
        (use 2 answers request_size(6) buf in \<open>auto simp: send_handler_done_def receiving_def\<close>)
  next
    case 3
    show ?thesis
      by (rule receive_from_start [OF two(1) mem, of 2 cl Sent_password])
        (use 3 answers two buf in \<open>auto simp: send_handler_done_def receiving_def\<close>)
  qed
qed

lemma socks_do_ok:
  assumes "held_ok cl" "receive_ok cl" "socks_enabled i cl"
  shows "result_ok (auths_live arr cl) (socks_do arr i cl)"
proof (cases i)
  case (In_connection recv_closed)
  have "step_ok cl [Report Event_error_closed]" "step_ok cl [Report Event_error]"
    using assms(1) by (simp_all add: step_ok_def recv_within_def failed_def)
  then show ?thesis using In_connection by (simp add: connection_handler_def report_error_def result_ok_def)
next
  case (In_sent mem)
  then show ?thesis
    using assms(1-3) send_done_ok [of cl mem] by (auto intro!: result_okI simp: receive_ok_def split: option.splits)
qed (use assms connector_ok recv_ok in auto)

lemma socks_reachable_ok: "socks_reachable cl \<Longrightarrow> held_ok cl \<and> receive_ok cl"
proof (induction rule: socks_reachable.induct)
  case (start dest_addr num_auth_info cl)
  then show ?case
    by (auto simp: BSocksClient_Init_def held_ok_def held_in_def receive_ok_def receiving_def sending_def)
next
  case (input cl i auths cl' effs)
  then show ?case using socks_do_ok [of cl i auths] by (auto simp: step_ok_def result_ok_def)
qed

lemma free_ok:
  assumes "held_ok cl"
  shows "\<exists>cl'. BSocksClient_Free cl = Some cl' \<and> sc_held cl' = {} \<and> sc_buffer cl' = None"
proof -
  consider "sc_state cl = Connecting" | "sc_state cl = Up" | "sc_state cl \<noteq> Connecting" "sc_state cl \<noteq> Up" by blast
  then show ?thesis
    using assms
    by cases (simp_all add: BSocksClient_Free_def socks_res_defs held_ok_def held_control held_in_def [of Connecting]
        held_in_def [of Up] insert_Diff_if)
qed

section \<open>Properties\<close>

text \<open>A concrete client that has connected and sent its greeting.\<close>

definition ex_socks_init :: socks_client where
  "ex_socks_init = the (BSocksClient_Init True 1 (Addr_V4 0x08080808 0x5000))"

definition ex_socks :: socks_client where
  "ex_socks = fst (the (socks_do [Auth_none] (In_connector (Some (\<lambda>_. 0)) True False) ex_socks_init))"

lemma ex_socks_eq:
  "socks_do [Auth_none] (In_connector (Some (\<lambda>_. 0)) True False) ex_socks_init = Some (ex_socks, [Sock_send [5, 1, 0]])"
  "sc_state ex_socks = Sending_hello"
  using connector_sends_hello [of ex_socks_init "[Auth_none]" "[Auth_none]" "Some (\<lambda>_. 0)"]
  by (simp_all add: auth_array_def ex_socks_def ex_socks_init_def BSocksClient_Init_def socks_hello_def
      SOCKS_METHOD_NO_AUTHENTICATION_REQUIRED_def)

lemma ex_init_socks_reachable: "socks_reachable ex_socks_init"
  by (rule socks_reachable.start [of "Addr_V4 0x08080808 0x5000" 1])
    (simp_all add: ex_socks_init_def BSocksClient_Init_def)

lemma ex_socks_reachable: "socks_reachable ex_socks"
  by (rule socks_reachable.input [OF ex_init_socks_reachable _ ex_socks_eq(1)])
    (simp_all add: ex_socks_init_def BSocksClient_Init_def failed_def)

text \<open>C19. In every reachable state every handler of the SOCKS client runs to completion, whatever its array of
  authentication data holds, as long as that array has the length it was told and no freed user name: nothing is
  set up twice, nothing is freed that is not there, every byte written, sent or read lies within the buffer, every
  receive asked for lies within the buffer, and freeing the client afterwards, also after a reported error, releases
  everything it holds.\<close>

theorem socks_handlers_safe:
  assumes "socks_reachable cl" "socks_enabled i cl" "auths_live auths cl"
  shows "\<exists>cl' effs. socks_do auths i cl = Some (cl', effs) \<and> list_all (recv_within cl') effs \<and>
    (\<exists>cl''. BSocksClient_Free cl' = Some cl'' \<and> sc_held cl'' = {} \<and> sc_buffer cl'' = None)"
  using result_okD [OF socks_do_ok [OF _ _ assms(2)] assms(3)] socks_reachable_ok [OF assms(1)] free_ok
  by (fastforce simp: step_ok_def)

lemma ex_socks_live: "auths_live [Auth_none] ex_socks"
  using connector_sends_hello [of ex_socks_init "[Auth_none]" "[Auth_none]" "Some (\<lambda>_. 0)"]
  by (simp add: auths_live_def auth_array_def ex_socks_def ex_socks_init_def BSocksClient_Init_def)

lemma socks_handlers_safe_witness:
  "\<exists>cl' effs. socks_do [Auth_none] (In_sent (Some (\<lambda>_. 0))) ex_socks = Some (cl', effs) \<and> list_all (recv_within cl') effs \<and>
    (\<exists>cl''. BSocksClient_Free cl' = Some cl'' \<and> sc_held cl'' = {} \<and> sc_buffer cl'' = None)"
  by (rule socks_handlers_safe [OF ex_socks_reachable _ ex_socks_live]) (simp add: ex_socks_eq sending_def)

text \<open>Only the last handler of the handshake reports that the client is up.\<close>

text \<open>All other handlers leave the number of elements alone, have one effect, and do not report or reach \<open>Up\<close>
  or a closed connection.\<close>

definition quiet :: "socks_client \<Rightarrow> socks_client \<Rightarrow> socks_effect list \<Rightarrow> bool" where
  "quiet cl cl' effs \<longleftrightarrow>
     (\<exists>e. effs = [e] \<and> e \<noteq> Report Event_up \<and> e \<noteq> Report Event_error_closed) \<and> sc_state cl' \<noteq> Up \<and> sc_num_auth_info cl' = sc_num_auth_info cl"

definition same_fields :: "socks_client \<Rightarrow> socks_client \<Rightarrow> bool" where
  "same_fields cl cl' \<longleftrightarrow> sc_state cl' = sc_state cl \<and> sc_num_auth_info cl' = sc_num_auth_info cl"

lemma reserve_same: "reserve_buffer mem cl sz = Some cl' \<Longrightarrow> same_fields cl cl'"
  by (auto simp: reserve_buffer_def Let_def same_fields_def split: if_splits option.splits)

lemma write_same: "write_buffer at bs cl = Some cl' \<Longrightarrow> same_fields cl cl'"
  by (simp add: write_buffer_fields same_fields_def)

lemma methods_same: "hello_methods ais i cl = Some cl' \<Longrightarrow> same_fields cl cl'"
  by (simp add: hello_methods_fields same_fields_def)

lemma acquire_same: "acquire r cl = Some cl' \<Longrightarrow> same_fields cl cl'"
  by (auto simp: acquire_def same_fields_def split: if_splits)

lemma release_same: "release r cl = Some cl' \<Longrightarrow> same_fields cl cl'"
  by (auto simp: release_def same_fields_def split: if_splits)

lemma io_same:
  "init_control_io cl = Some cl' \<Longrightarrow> same_fields cl cl'" "free_control_io cl = Some cl' \<Longrightarrow> same_fields cl cl'"
  "init_up_io cl = Some cl' \<Longrightarrow> same_fields cl cl'"
  by (auto simp: init_control_io_def free_control_io_def init_up_io_def Option.bind_eq_Some_conv same_fields_def
      dest!: acquire_same release_same)

lemmas sames = reserve_same write_same methods_same acquire_same release_same io_same

lemmas quiet_splits = option.split_asm if_split_asm baddr.split_asm auth_info.split_asm

lemma auth_quiet: "auth_finished mem cl = Some (cl', effs) \<Longrightarrow> sc_state cl \<noteq> Up \<Longrightarrow> quiet cl cl' effs"
  by (auto simp: auth_finished_def report_error_def Let_def Option.bind_eq_Some_conv quiet_def same_fields_def
      split: quiet_splits dest!: sames send_buffer_shape)

lemma hello_quiet:
  assumes "received_hello auths mem cl = Some (cl', effs)" "sc_state cl \<noteq> Up"
  shows "quiet cl cl' effs"
  using assms unfolding received_hello_def report_error_def Let_def
  by (auto simp: quiet_def same_fields_def split: bind_split_asm quiet_splits
      dest!: sames send_buffer_shape auth_quiet)

lemma header_quiet: "received_reply_header cl = Some (cl', effs) \<Longrightarrow> sc_state cl \<noteq> Up \<Longrightarrow> quiet cl cl' effs"
  by (auto simp: received_reply_header_def report_error_def start_receive_def do_receive_def Let_def
      Option.bind_eq_Some_conv quiet_def split: option.split_asm if_split_asm)

lemma password_quiet: "received_password_reply mem cl = Some (cl', effs) \<Longrightarrow> sc_state cl \<noteq> Up \<Longrightarrow> quiet cl cl' effs"
  by (auto simp: received_password_reply_def report_error_def Option.bind_eq_Some_conv quiet_def
      split: if_split_asm dest!: auth_quiet)

lemma connector_quiet:
  assumes "connector_handler auths mem ok err cl = Some (cl', effs)" "sc_state cl \<noteq> Up"
  shows "quiet cl cl' effs"
  using assms unfolding connector_handler_def report_error_def Let_def
  by (auto simp: quiet_def same_fields_def split: bind_split_asm option.split_asm if_split_asm
      dest!: sames send_buffer_shape)

lemma send_quiet: "send_handler_done mem cl = Some (cl', effs) \<Longrightarrow> sc_state cl \<noteq> Up \<Longrightarrow> quiet cl cl' effs"
  by (auto simp: send_handler_done_def report_error_def start_receive_def do_receive_def Let_def quiet_def same_fields_def
      split: option.split_asm socks_state.split_asm if_split_asm dest!: sames)

lemma rest_up:
  "received_reply_rest cl = Some (cl', effs) \<Longrightarrow>
     effs = [Report Event_up] \<and> sc_state cl' = Up \<and> sc_num_auth_info cl' = sc_num_auth_info cl"
  by (auto simp: received_reply_rest_def Option.bind_eq_Some_conv same_fields_def dest!: sames)

lemma received_all_quiet:
  assumes "received_all auths mem cl = Some (cl', effs)" "sc_state cl \<noteq> Received_reply_header"
  shows "quiet cl cl' effs"
  using assms hello_quiet header_quiet password_quiet
  by (auto simp: received_all_def split: socks_state.split_asm)

text \<open>What an input does to the state, in one statement for the components that use the client.\<close>

definition up_shape :: "socks_client \<Rightarrow> socks_client \<Rightarrow> socks_effect list \<Rightarrow> bool" where
  "up_shape cl cl' effs \<longleftrightarrow>
     (\<exists>e. effs = [e] \<and> e \<noteq> Report Event_error_closed) \<and> (effs = [Report Event_up] \<longleftrightarrow> sc_state cl' = Up) \<and> sc_num_auth_info cl' = sc_num_auth_info cl"

lemma quiet_shape: "quiet cl cl' effs \<Longrightarrow> up_shape cl cl' effs"
  by (auto simp: quiet_def up_shape_def)

lemma recv_shape:
  assumes "recv_handler_done auths mem data cl = Some (cl', effs)" "sc_state cl \<noteq> Up"
  shows "up_shape cl cl' effs"
proof -
  obtain cl1 where w: "write_buffer (sc_recv_dest cl + sc_recv_len cl) data cl = Some cl1"
    using assms(1) by (auto simp: recv_handler_done_def Option.bind_eq_Some_conv)
  let ?cl = "cl1\<lparr>sc_recv_len := sc_recv_len cl1 + length data\<rparr>"
  have f: "up_shape cl = up_shape ?cl" using write_buffer_fields [OF w] by (simp add: up_shape_def fun_eq_iff)
  have st: "sc_state ?cl \<noteq> Up" using assms(2) write_buffer_fields [OF w] by simp
  show ?thesis
  proof (cases "sc_recv_len ?cl < sc_recv_total ?cl")
    case True
    then show ?thesis using assms(1) st w by (auto simp: f recv_handler_done_def do_receive_def up_shape_def)
  next
    case False
    then have all: "received_all auths mem ?cl = Some (cl', effs)" using assms(1) w by (simp add: recv_handler_done_def Let_def)
    then show ?thesis
      using quiet_shape [OF received_all_quiet [OF all]] rest_up [of ?cl cl' effs] unfolding f
      by (cases "sc_state ?cl = Received_reply_header") (auto simp: received_all_def up_shape_def)
  qed
qed

lemma socks_do_shape:
  assumes "socks_enabled i cl" "socks_do auths i cl = Some (cl', effs)"
  shows "if sc_state cl = Up then cl' = cl \<and> (effs = [Report Event_error] \<or> effs = [Report Event_error_closed])
    else up_shape cl cl' effs"
proof (cases "sc_state cl = Up")
  case True
  then show ?thesis
    using assms by (cases i) (auto simp: sending_def receiving_def connection_handler_def report_error_def split: if_splits)
next
  case False
  then show ?thesis
    using assms quiet_shape [OF connector_quiet] quiet_shape [OF send_quiet] recv_shape
    by (cases i) (auto simp: connection_handler_def report_error_def up_shape_def)
qed

lemma recv_up:
  assumes "recv_handler_done auths mem data cl = Some (cl', effs)" "Report Event_up \<in> set effs"
  shows "sc_state cl = Received_reply_header \<and> sc_recv_total cl \<le> sc_recv_len cl + length data"
proof -
  obtain cl1 where w: "write_buffer (sc_recv_dest cl + sc_recv_len cl) data cl = Some cl1"
    using assms(1) by (auto simp: recv_handler_done_def Option.bind_eq_Some_conv)
  note f = write_buffer_fields [OF w]
  have "received_all auths mem (cl1\<lparr>sc_recv_len := sc_recv_len cl1 + length data\<rparr>) = Some (cl', effs) \<and>
      sc_recv_total cl \<le> sc_recv_len cl + length data"
    using assms f by (auto simp: recv_handler_done_def w do_receive_def Let_def split: if_splits)
  then show ?thesis
    using received_all_quiet [of auths mem "cl1\<lparr>sc_recv_len := sc_recv_len cl1 + length data\<rparr>" cl' effs] assms(2) f
    by (cases "sc_state cl = Received_reply_header") (auto simp: quiet_def)
qed

text \<open>C20. The SOCKS client reports that it is up only when the server has accepted the request: the stored
  reply has the right version, the success code and a known address type, and exactly the address of that
  type has been received after it.\<close>

theorem socks_up_only_when_accepted:
  assumes "socks_reachable cl" "socks_enabled i cl" "socks_do auths i cl = Some (cl', effs)" "Report Event_up \<in> set effs"
  shows "sc_state cl = Received_reply_header \<and>
    (\<exists>b mem data. sc_buffer cl = Some b \<and> b ! 0 = SOCKS_VERSION \<and> b ! 1 = SOCKS_REP_SUCCEEDED \<and>
       i = In_received mem data \<and> sc_recv_len cl + length data = sc_recv_total cl \<and>
       (b ! 3 = SOCKS_ATYP_IPV4 \<and> sc_recv_total cl = 6 \<or> b ! 3 = SOCKS_ATYP_IPV6 \<and> sc_recv_total cl = 18))"
proof (cases i)
  case (In_received mem data)
  then have "sc_state cl = Received_reply_header" "sc_recv_len cl + length data = sc_recv_total cl"
    using recv_up [of auths mem data cl] assms(2-4) by auto
  moreover from this obtain b where "sc_buffer cl = Some b"
    using socks_reachable_ok [OF assms(1)] by (auto simp: receive_ok_def receiving_def split: option.splits)
  ultimately show ?thesis
    using socks_reachable_ok [OF assms(1)] In_received by (auto simp: receive_ok_def)
next
  case (In_connector mem con_ok is_error)
  then show ?thesis using connector_quiet [of auths mem con_ok is_error cl cl' effs] assms(2-4) by (auto simp: quiet_def)
next
  case (In_sent mem)
  then show ?thesis using send_quiet [of mem cl cl' effs] assms(2-4) by (auto simp: quiet_def sending_def)
qed (use assms(3,4) in \<open>auto simp: connection_handler_def report_error_def split: if_splits\<close>)

section \<open>A complete handshake\<close>

fun socks_run :: "auth_info list \<Rightarrow> socks_input list \<Rightarrow> socks_client \<Rightarrow> socks_result" where
  "socks_run auths [] cl = Some (cl, [])"
| "socks_run auths (i # is) cl = do {
     (cl, effs) \<leftarrow> (if socks_enabled i cl then socks_do auths i cl else None);
     (cl', effs') \<leftarrow> socks_run auths is cl;
     Some (cl', effs @ effs') }"

lemma socks_run_append:
  "socks_run auths is cl = Some (cl1, e1) \<Longrightarrow> socks_run auths js cl1 = Some (cl2, e2) \<Longrightarrow>
   socks_run auths (is @ js) cl = Some (cl2, e1 @ e2)"
proof (induction "is" arbitrary: cl e1)
  case (Cons i "is")
  then show ?case by (auto simp: Option.bind_eq_Some_conv split: if_splits)
qed simp

lemma socks_run_one: "socks_enabled i cl \<Longrightarrow> socks_do auths i cl = Some r \<Longrightarrow> socks_run auths [i] cl = Some r"
  by (cases r) simp

lemma overwrite_twice:
  "at + length xs + length ys \<le> length b \<Longrightarrow> overwrite (at + length xs) ys (overwrite at xs b) = overwrite at (xs @ ys) b"
  by (simp add: overwrite_def ac_simps)

text \<open>The bytes of one answer may arrive in any pieces: the client asks for the rest until it has them all.\<close>

lemma receive_pieces:
  assumes "receiving (sc_state cl)" "sc_buffer cl = Some b" "sc_recv_dest cl + sc_recv_total cl \<le> length b"
    "sc_recv_len cl + length (concat ps) = sc_recv_total cl" "ps \<noteq> []" "[] \<notin> set ps"
    "received_all auths mem (cl\<lparr>sc_buffer := Some (overwrite (sc_recv_dest cl + sc_recv_len cl) (concat ps) b),
       sc_recv_len := sc_recv_total cl\<rparr>) = Some (cl', effs)"
  shows "\<exists>asks. socks_run auths (map (In_received mem) ps) cl = Some (cl', asks @ effs) \<and> (\<forall>e\<in>set asks. \<exists>i n. e = Sock_recv i n)"
  using assms
proof (induction ps arbitrary: cl b)
  case (Cons p ps)
  let ?at = "sc_recv_dest cl + sc_recv_len cl"
  let ?cl = "cl\<lparr>sc_buffer := Some (overwrite ?at p b), sc_recv_len := sc_recv_len cl + length p\<rparr>"
  have fit: "?at + length p + length (concat ps) \<le> length b" using Cons.prems(3,4) by simp
  have res: "recv_handler_done auths mem p cl =
      (if sc_recv_len ?cl < sc_recv_total ?cl then do_receive ?cl else received_all auths mem ?cl)"
    using Cons.prems(2) fit by (simp add: recv_handler_done_def Let_def write_buffer_Some)
  have en: "socks_enabled (In_received mem p) cl" using Cons.prems(1,4) by simp
  show ?case
  proof (cases ps)
    case Nil
    then show ?thesis using res en Cons.prems(4,7) by (intro exI [of _ "[]"]) simp
  next
    case (Cons q qs)
    note ps = Cons
    have "length q > 0" using \<open>[] \<notin> set (p # ps)\<close> ps by auto
    moreover have "sc_recv_len cl + length p + length q + length (concat qs) = sc_recv_total cl"
      using Cons.prems(4) ps by simp
    ultimately have "sc_recv_len cl + length p < sc_recv_total cl" by linarith
    then have lt: "sc_recv_len ?cl < sc_recv_total ?cl" by simp
    have "received_all auths mem (?cl\<lparr>sc_buffer := Some (overwrite (sc_recv_dest ?cl + sc_recv_len ?cl) (concat ps) (overwrite ?at p b)),
        sc_recv_len := sc_recv_total ?cl\<rparr>) = Some (cl', effs)"
      using Cons.prems(7) overwrite_twice [OF fit] by (simp add: add.assoc)
    then obtain asks where "socks_run auths (map (In_received mem) ps) ?cl = Some (cl', asks @ effs)"
      "\<forall>e\<in>set asks. \<exists>i n. e = Sock_recv i n"
      using Cons.IH [of ?cl "overwrite ?at p b"] Cons.prems fit ps by auto
    moreover obtain r where "recv_handler_done auths mem p cl = Some (?cl, [Sock_recv (fst r) (snd r)])"
      using res lt by (auto simp: do_receive_def)
    ultimately show ?thesis using en by (intro exI [of _ "Sock_recv (fst r) (snd r) # asks"]) auto
  qed
qed simp

text \<open>The stages of a handshake, each from one state of the client to the next.\<close>

lemma two_size:
  "\<not> is_overflow (bsize_fromsize 2 :: u64 bsize_t)" "unat (bs_value (bsize_fromsize 2 :: u64 bsize_t)) = 2"
  by (simp_all add: bsize_fromsize_def)

lemma sent_hello:
  assumes "sc_state cl = Sending_hello" "sc_buffer cl \<noteq> None"
  obtains b where "length b = 2" "socks_run auths [In_sent (Some g)] cl =
    Some (cl\<lparr>sc_buffer := Some b, sc_recv_dest := 0, sc_recv_len := 0, sc_recv_total := 2, sc_state := Sent_hello\<rparr>,
      [Sock_recv 0 2])"
proof (rule receive_from_start [OF two_size(1), of "Some g" 2 cl Sent_hello])
  fix b assume "length b = unat (bs_value (bsize_fromsize 2 :: u64 bsize_t))"
    "(case reserve_buffer (Some g) cl (bsize_fromsize 2) of
        None \<Rightarrow> report_error cl Event_error
      | Some cl \<Rightarrow> map_option (apfst (\<lambda>cl. cl\<lparr>sc_state := Sent_hello\<rparr>)) (start_receive cl 0 2)) =
     Some (cl\<lparr>sc_buffer := Some b, sc_recv_dest := 0, sc_recv_len := 0, sc_recv_total := 2, sc_state := Sent_hello\<rparr>,
       [Sock_recv 0 2])"
  then show thesis
    using that [of b] assms two_size(2) by (auto simp: send_handler_done_def sending_def)
qed simp_all

lemma sent_password:
  assumes "sc_state cl = Sending_password" "sc_buffer cl \<noteq> None"
  obtains b where "length b = 2" "socks_run auths [In_sent (Some g)] cl =
    Some (cl\<lparr>sc_buffer := Some b, sc_recv_dest := 0, sc_recv_len := 0, sc_recv_total := 2, sc_state := Sent_password\<rparr>,
      [Sock_recv 0 2])"
proof (rule receive_from_start [OF two_size(1), of "Some g" 2 cl Sent_password])
  fix b assume "length b = unat (bs_value (bsize_fromsize 2 :: u64 bsize_t))"
    "(case reserve_buffer (Some g) cl (bsize_fromsize 2) of
        None \<Rightarrow> report_error cl Event_error
      | Some cl \<Rightarrow> map_option (apfst (\<lambda>cl. cl\<lparr>sc_state := Sent_password\<rparr>)) (start_receive cl 0 2)) =
     Some (cl\<lparr>sc_buffer := Some b, sc_recv_dest := 0, sc_recv_len := 0, sc_recv_total := 2, sc_state := Sent_password\<rparr>,
       [Sock_recv 0 2])"
  then show thesis
    using that [of b] assms two_size(2) by (auto simp: send_handler_done_def sending_def)
qed simp_all

lemma sent_request:
  assumes "sc_state cl = Sending_request" "sc_buffer cl \<noteq> None"
  obtains b where "length b = 22" "socks_run auths [In_sent (Some g)] cl =
    Some (cl\<lparr>sc_buffer := Some b, sc_recv_dest := 0, sc_recv_len := 0, sc_recv_total := 4, sc_state := Sent_request\<rparr>,
      [Sock_recv 0 4])"
proof (rule receive_from_start [OF request_size(5), of "Some g" 4 cl Sent_request])
  fix b assume "length b = unat (bs_value (bsize_add (bsize_fromsize 4) (bsize_max (bsize_fromsize 6) (bsize_fromsize 18)) :: u64 bsize_t))"
    "(case reserve_buffer (Some g) cl (bsize_add (bsize_fromsize 4) (bsize_max (bsize_fromsize 6) (bsize_fromsize 18))) of
        None \<Rightarrow> report_error cl Event_error
      | Some cl \<Rightarrow> map_option (apfst (\<lambda>cl. cl\<lparr>sc_state := Sent_request\<rparr>)) (start_receive cl 0 4)) =
     Some (cl\<lparr>sc_buffer := Some b, sc_recv_dest := 0, sc_recv_len := 0, sc_recv_total := 4, sc_state := Sent_request\<rparr>,
       [Sock_recv 0 4])"
  then show thesis
    using that [of b] assms request_size(6) by (auto simp: send_handler_done_def sending_def)
qed simp_all

fun auth_inputs :: "auth_info \<Rightarrow> (nat \<Rightarrow> byte) \<Rightarrow> byte list list \<Rightarrow> socks_input list" where
  "auth_inputs Auth_none g ps = []"
| "auth_inputs (Auth_freed _ _) g ps = []"
| "auth_inputs (Auth_password _ _) g ps = In_sent (Some g) # map (In_received (Some g)) ps"

fun auth_messages :: "auth_info \<Rightarrow> byte list list" where
  "auth_messages Auth_none = []"
| "auth_messages (Auth_freed _ _) = []"
| "auth_messages (Auth_password username password) = [socks_password username password]"

fun auth_valid :: "auth_info \<Rightarrow> bool" where
  "auth_valid Auth_none = True"
| "auth_valid (Auth_freed _ _) = False"
| "auth_valid (Auth_password username password) =
     (username \<noteq> [] \<and> length username \<le> 255 \<and> password \<noteq> [] \<and> length password \<le> 255)"

fun sent_messages :: "socks_effect list \<Rightarrow> byte list list" where
  "sent_messages [] = []"
| "sent_messages (Sock_send bs # es) = bs # sent_messages es"
| "sent_messages (_ # es) = sent_messages es"

lemma sent_append [simp]: "sent_messages (xs @ ys) = sent_messages xs @ sent_messages ys"
  by (induction xs rule: sent_messages.induct) simp_all

lemma sent_asks: "\<forall>e\<in>set asks. \<exists>i n. e = Sock_recv i n \<Longrightarrow> sent_messages asks = []"
  by (induction asks) auto

definition at_stage :: "socks_state \<Rightarrow> auth_info list \<Rightarrow> baddr \<Rightarrow> socks_client \<Rightarrow> bool" where
  "at_stage s auths dest cl \<longleftrightarrow>
     sc_state cl = s \<and> sc_num_auth_info cl = length auths \<and> sc_buffer cl \<noteq> None \<and> sc_dest_addr cl = dest \<and> sc_held cl = held_in Sending_hello"

text \<open>After a message: ask for the answer, receive it in pieces, and act on it.\<close>

lemma answer_received:
  assumes "length b = m" "receiving st" "length (concat ps) = n" "n \<le> m" "ps \<noteq> []" "[] \<notin> set ps"
    "received_all auths mem (cl\<lparr>sc_recv_dest := 0, sc_recv_total := n, sc_state := st,
       sc_buffer := Some (overwrite 0 (concat ps) b), sc_recv_len := n\<rparr>) = Some (cl', effs)"
  shows "\<exists>asks. socks_run auths (map (In_received mem) ps)
      (cl\<lparr>sc_buffer := Some b, sc_recv_dest := 0, sc_recv_len := 0, sc_recv_total := n, sc_state := st\<rparr>) =
        Some (cl', asks @ effs) \<and> sent_messages asks = []"
proof -
  let ?cl = "cl\<lparr>sc_buffer := Some b, sc_recv_dest := 0, sc_recv_len := 0, sc_recv_total := n, sc_state := st\<rparr>"
  have "\<exists>asks. socks_run auths (map (In_received mem) ps) ?cl = Some (cl', asks @ effs) \<and>
      (\<forall>e\<in>set asks. \<exists>i n. e = Sock_recv i n)"
    by (rule receive_pieces [of ?cl b]) (use assms in simp_all)
  then show ?thesis using sent_asks by blast
qed

lemma stage_answered:
  assumes dest: "addr_ok dest" and at: "at_stage Sending_hello auths dest cl" and ai: "auth_valid ai"
    and f: "find (\<lambda>ai. auth_type ai = uint m) auths = Some ai"
    and ps: "concat ps = [SOCKS_VERSION, m]" "[] \<notin> set ps"
  shows "\<exists>cl' effs. socks_run auths (In_sent (Some g) # map (In_received (Some g)) ps) cl = Some (cl', effs) \<and>
    at_stage (if ai = Auth_none then Sending_request else Sending_password) auths dest cl' \<and>
    sent_messages effs = (if ai = Auth_none then [socks_request dest] else auth_messages ai)"
proof (rule sent_hello [of cl auths g])
  show "sc_state cl = Sending_hello" "sc_buffer cl \<noteq> None" using at by (simp_all add: at_stage_def)
next
  fix b assume b: "length b = 2" and run: "socks_run auths [In_sent (Some g)] cl =
    Some (cl\<lparr>sc_buffer := Some b, sc_recv_dest := 0, sc_recv_len := 0, sc_recv_total := 2, sc_state := Sent_hello\<rparr>,
      [Sock_recv 0 2])"
  let ?cl = "cl\<lparr>sc_recv_dest := 0, sc_recv_total := 2, sc_state := Sent_hello,
    sc_buffer := Some [SOCKS_VERSION, m], sc_recv_len := 2\<rparr>"
  have ne: "ps \<noteq> []" using ps(1) by auto
  have "\<exists>cl' effs. received_all auths (Some g) ?cl = Some (cl', effs) \<and>
      at_stage (if ai = Auth_none then Sending_request else Sending_password) auths dest cl' \<and>
      sent_messages effs = (if ai = Auth_none then [socks_request dest] else auth_messages ai)"
  proof (cases ai)
    case Auth_none
    have "addr_ok (sc_dest_addr ?cl)" using dest at by (simp add: at_stage_def)
    then show ?thesis
      by (cases rule: auth_finished_cases [of ?cl "Some g"])
        (use at f Auth_none in \<open>auto simp: received_all_def received_hello_def read_buffer_def auth_array_def ld8_def at_stage_def ntoh8_def hton8_def htol8_def\<close>)
  next
    case (Auth_password u p)
    have len: "length u \<le> 255" "length p \<le> 255" "u \<noteq> []" "p \<noteq> []" using ai Auth_password by simp_all
    have "received_all auths (Some g) ?cl = Some (?cl\<lparr>sc_buffer := Some (socks_password u p), sc_state := Sending_password\<rparr>,
        [Sock_send (socks_password u p)])"
      using received_hello_password [of ?cl "[SOCKS_VERSION, m]" m auths auths u p g] at f Auth_password len
      by (simp add: received_all_def at_stage_def auth_array_def)
    then show ?thesis using at Auth_password by (simp add: at_stage_def)
  qed (use ai in simp)
  then obtain cl' effs where r: "received_all auths (Some g) ?cl = Some (cl', effs)" and
    fin: "at_stage (if ai = Auth_none then Sending_request else Sending_password) auths dest cl'"
      "sent_messages effs = (if ai = Auth_none then [socks_request dest] else auth_messages ai)" by blast
  obtain asks where "socks_run auths (map (In_received (Some g)) ps)
      (cl\<lparr>sc_buffer := Some b, sc_recv_dest := 0, sc_recv_len := 0, sc_recv_total := 2, sc_state := Sent_hello\<rparr>) =
        Some (cl', asks @ effs)" "sent_messages asks = []"
    using answer_received [OF b, of Sent_hello ps 2 auths "Some g" cl cl' effs] r ps ne b
    by (auto simp: receiving_def overwrite_all)
  then show ?thesis
    using socks_run_append [OF run] fin by fastforce
qed

lemma stage_password:
  assumes dest: "addr_ok dest" and at: "at_stage Sending_password auths dest cl"
    and ps: "concat ps = [1, 0]" "[] \<notin> set ps"
  shows "\<exists>cl' effs. socks_run auths (In_sent (Some g) # map (In_received (Some g)) ps) cl = Some (cl', effs) \<and>
    at_stage Sending_request auths dest cl' \<and> sent_messages effs = [socks_request dest]"
proof (rule sent_password [of cl auths g])
  show "sc_state cl = Sending_password" "sc_buffer cl \<noteq> None" using at by (simp_all add: at_stage_def)
next
  fix b assume b: "length b = 2" and run: "socks_run auths [In_sent (Some g)] cl =
    Some (cl\<lparr>sc_buffer := Some b, sc_recv_dest := 0, sc_recv_len := 0, sc_recv_total := 2, sc_state := Sent_password\<rparr>,
      [Sock_recv 0 2])"
  let ?cl = "cl\<lparr>sc_recv_dest := 0, sc_recv_total := 2, sc_state := Sent_password,
    sc_buffer := Some [1, 0], sc_recv_len := 2\<rparr>"
  have ne: "ps \<noteq> []" using ps(1) by auto
  have "addr_ok (sc_dest_addr ?cl)" using dest at by (simp add: at_stage_def)
  then obtain cl' where r: "received_all auths (Some g) ?cl = Some (cl', [Sock_send (socks_request dest)])"
    "at_stage Sending_request auths dest cl'"
    by (cases rule: auth_finished_cases [of ?cl "Some g"])
      (use at in \<open>auto simp: received_all_def received_password_reply_def read_buffer_def ld8_def at_stage_def\<close>)
  obtain asks where "socks_run auths (map (In_received (Some g)) ps)
      (cl\<lparr>sc_buffer := Some b, sc_recv_dest := 0, sc_recv_len := 0, sc_recv_total := 2, sc_state := Sent_password\<rparr>) =
        Some (cl', asks @ [Sock_send (socks_request dest)])" "sent_messages asks = []"
    using answer_received [OF b, of Sent_password ps 2 auths "Some g" cl cl'] r ps ne b
    by (auto simp: receiving_def overwrite_all)
  then show ?thesis using socks_run_append [OF run] r(2) by fastforce
qed

text \<open>The reply to the request: its header, then the address its type announces.\<close>

lemma stage_reply:
  assumes at: "at_stage Sending_request auths dest cl"
    and ps: "concat ps = [SOCKS_VERSION, SOCKS_REP_SUCCEEDED, rsv, atyp]" "[] \<notin> set ps"
    and qs: "[] \<notin> set qs" "atyp = SOCKS_ATYP_IPV4 \<and> length (concat qs) = 6 \<or> atyp = SOCKS_ATYP_IPV6 \<and> length (concat qs) = 18"
  shows "\<exists>cl' effs. socks_run auths (In_sent (Some g) # map (In_received (Some g)) ps @ map (In_received (Some g)) qs) cl =
      Some (cl', effs @ [Report Event_up]) \<and> sc_state cl' = Up \<and> sent_messages effs = []"
proof (rule sent_request [of cl auths g])
  show "sc_state cl = Sending_request" "sc_buffer cl \<noteq> None" using at by (simp_all add: at_stage_def)
next
  fix b assume b: "length b = 22" and run: "socks_run auths [In_sent (Some g)] cl =
    Some (cl\<lparr>sc_buffer := Some b, sc_recv_dest := 0, sc_recv_len := 0, sc_recv_total := 4, sc_state := Sent_request\<rparr>,
      [Sock_recv 0 4])"
  let ?b = "overwrite 0 [SOCKS_VERSION, SOCKS_REP_SUCCEEDED, rsv, atyp] b" and ?n = "length (concat qs)"
  let ?cl = "cl\<lparr>sc_recv_dest := 0, sc_recv_total := 4, sc_state := Sent_request, sc_buffer := Some ?b, sc_recv_len := 4\<rparr>"
  let ?cl1 = "?cl\<lparr>sc_recv_dest := 4, sc_recv_len := 0, sc_recv_total := ?n, sc_state := Received_reply_header\<rparr>"
  have ne: "ps \<noteq> []" "qs \<noteq> []" using ps(1) qs(2) by auto
  have h: "?b = [SOCKS_VERSION, SOCKS_REP_SUCCEEDED, rsv, atyp] @ drop 4 b" by (simp add: overwrite_def eval_nat_numeral)
  have r1: "received_all auths (Some g) ?cl = Some (?cl1, [Sock_recv 4 ?n])"
    using qs(2) unfolding h
    by (auto simp: received_all_def received_reply_header_def read_buffer_def ld8_def ntoh8_def hton8_def htol8_def Let_def
        start_receive_def do_receive_def socks_consts)
  obtain asks1 where run1: "socks_run auths (map (In_received (Some g)) ps)
      (cl\<lparr>sc_buffer := Some b, sc_recv_dest := 0, sc_recv_len := 0, sc_recv_total := 4, sc_state := Sent_request\<rparr>) =
        Some (?cl1, asks1 @ [Sock_recv 4 ?n])" "sent_messages asks1 = []"
    using answer_received [of b 22 Sent_request ps 4 auths "Some g" cl ?cl1 "[Sock_recv 4 ?n]"] r1 ps ne b
    by (auto simp: receiving_def)
  let ?cl2 = "?cl1\<lparr>sc_buffer := Some (overwrite 4 (concat qs) ?b), sc_recv_len := ?n\<rparr>"
  have "\<exists>cl'. received_all auths (Some g) ?cl2 = Some (cl', [Report Event_up]) \<and> sc_state cl' = Up"
    using at by (simp add: received_all_def received_reply_rest_def socks_res_defs at_stage_def held_in_def insert_Diff_if)
  then obtain cl' where r2: "received_all auths (Some g) ?cl2 = Some (cl', [Report Event_up])" "sc_state cl' = Up" by blast
  have "\<exists>asks. socks_run auths (map (In_received (Some g)) qs) ?cl1 = Some (cl', asks @ [Report Event_up]) \<and>
      (\<forall>e\<in>set asks. \<exists>i n. e = Sock_recv i n)"
    by (rule receive_pieces [of ?cl1 ?b]) (use r2 qs ne b in \<open>auto simp: receiving_def h\<close>)
  then obtain asks2 where run2: "socks_run auths (map (In_received (Some g)) qs) ?cl1 = Some (cl', asks2 @ [Report Event_up])"
    "sent_messages asks2 = []" using sent_asks by blast
  have "socks_run auths ([In_sent (Some g)] @ map (In_received (Some g)) ps @ map (In_received (Some g)) qs) cl =
      Some (cl', [Sock_recv 0 4] @ (asks1 @ [Sock_recv 4 ?n]) @ asks2 @ [Report Event_up])"
    by (rule socks_run_append [OF run socks_run_append [OF run1(1) run2(1)]])
  then show ?thesis
    using r2(2) run1(2) run2(2)
    by (intro exI [of _ cl'] exI [of _ "[Sock_recv 0 4] @ (asks1 @ [Sock_recv 4 ?n]) @ asks2"]) simp
qed

text \<open>C18. With a server that picks an offered method, accepts the password if one is needed and grants the
  request, the handshake completes however the answers are cut into pieces: the client sends exactly the
  greeting with its methods, the password message for the chosen method, and the connect request for the
  destination, takes not a byte more than the reply, and reports that it is up.\<close>

theorem socks_handshake:
  assumes init: "BSocksClient_Init True (length auths) dest = Some cl" and dest: "addr_ok dest"
    and auths: "auths \<noteq> []" "length auths \<le> 255"
    and choice: "find (\<lambda>ai. auth_type ai = uint m) auths = Some ai" "auth_valid ai"
    and answers: "concat p1 = [SOCKS_VERSION, m]" "concat p2 = [1, 0]"
      "concat p3 = [SOCKS_VERSION, SOCKS_REP_SUCCEEDED, rsv, atyp]"
      "atyp = SOCKS_ATYP_IPV4 \<and> length (concat p4) = 6 \<or> atyp = SOCKS_ATYP_IPV6 \<and> length (concat p4) = 18"
    and pieces: "[] \<notin> set (p1 @ p2 @ p3 @ p4)"
  shows "\<exists>cl' effs. socks_run auths ([In_connector (Some g) True False] @ (In_sent (Some g) # map (In_received (Some g)) p1) @
      auth_inputs ai g p2 @ (In_sent (Some g) # map (In_received (Some g)) p3 @ map (In_received (Some g)) p4)) cl =
        Some (cl', effs @ [Report Event_up]) \<and>
    sent_messages effs = [socks_hello auths] @ auth_messages ai @ [socks_request dest] \<and> sc_state cl' = Up"
proof -
  let ?cl1 = "cl\<lparr>sc_held := {Stream_sender, Send_async, Recv_async, Connection, Connector},
    sc_buffer := Some (socks_hello auths), sc_state := Sending_hello\<rparr>"
  have cl: "sc_held cl = {Connector}" "sc_num_auth_info cl = length auths" "sc_state cl = Connecting" "sc_dest_addr cl = dest"
    using init by (auto simp: BSocksClient_Init_def)
  have "auth_array auths cl = Some auths" using cl(2) by (simp add: auth_array_def)
  then have 1: "socks_run auths [In_connector (Some g) True False] cl = Some (?cl1, [Sock_send (socks_hello auths)])"
    using connector_sends_hello [OF cl(1) auths, of auths "Some g"] cl by simp
  have np: "[] \<notin> set p1" "[] \<notin> set p2" "[] \<notin> set p3" "[] \<notin> set p4" using pieces by simp_all
  have at1: "at_stage Sending_hello auths dest ?cl1" using cl by (auto simp: at_stage_def held_in_def)
  obtain cl2 e2 where 2: "socks_run auths (In_sent (Some g) # map (In_received (Some g)) p1) ?cl1 = Some (cl2, e2)"
    "at_stage (if ai = Auth_none then Sending_request else Sending_password) auths dest cl2"
    "sent_messages e2 = (if ai = Auth_none then [socks_request dest] else auth_messages ai)"
    using stage_answered [OF dest at1 choice(2,1) answers(1) np(1), of g] by blast
  have "\<exists>cl3 e3. socks_run auths (auth_inputs ai g p2) cl2 = Some (cl3, e3) \<and> at_stage Sending_request auths dest cl3 \<and>
      sent_messages (e2 @ e3) = auth_messages ai @ [socks_request dest]"
  proof (cases ai)
    case Auth_none
    then show ?thesis using 2(2,3) by simp
  next
    case (Auth_password u p)
    then have "at_stage Sending_password auths dest cl2" using 2(2) by simp
    from stage_password [OF dest this answers(2) np(2), of g]
    obtain cl3 e3 where "socks_run auths (In_sent (Some g) # map (In_received (Some g)) p2) cl2 = Some (cl3, e3)"
      "at_stage Sending_request auths dest cl3" "sent_messages e3 = [socks_request dest]" by blast
    then show ?thesis using Auth_password 2(3) by (simp del: socks_run.simps)
  qed (use choice(2) in simp)
  then obtain cl3 e3 where 3: "socks_run auths (auth_inputs ai g p2) cl2 = Some (cl3, e3)"
    "at_stage Sending_request auths dest cl3" "sent_messages (e2 @ e3) = auth_messages ai @ [socks_request dest]" by blast
  obtain cl4 e4 where 4: "socks_run auths (In_sent (Some g) # map (In_received (Some g)) p3 @ map (In_received (Some g)) p4) cl3 =
      Some (cl4, e4 @ [Report Event_up])" "sc_state cl4 = Up" "sent_messages e4 = []"
    using stage_reply [OF 3(2) answers(3) np(3,4) answers(4), of g] by blast
  show ?thesis
    using socks_run_append [OF 1 socks_run_append [OF 2(1) socks_run_append [OF 3(1) 4(1)]]] 3(3) 4(2,3)
    by (intro exI [of _ cl4] exI [of _ "[Sock_send (socks_hello auths)] @ e2 @ e3 @ e4"]) simp
qed

lemma socks_handshake_witness:
  "\<exists>cl' effs. socks_run [Auth_none, Auth_password [97] [98, 99]] ([In_connector (Some (\<lambda>_. 0)) True False] @
      (In_sent (Some (\<lambda>_. 0)) # map (In_received (Some (\<lambda>_. 0))) [[5], [2]]) @
      auth_inputs (Auth_password [97] [98, 99]) (\<lambda>_. 0) [[1, 0]] @
      (In_sent (Some (\<lambda>_. 0)) # map (In_received (Some (\<lambda>_. 0))) [[5, 0, 0], [1]] @
        map (In_received (Some (\<lambda>_. 0))) [[127, 0], [0, 1, 0, 80]]))
      (the (BSocksClient_Init True 2 (Addr_V4 0x08080808 0x5000))) =
        Some (cl', effs @ [Report Event_up]) \<and>
    sent_messages effs = [socks_hello [Auth_none, Auth_password [97] [98, 99]]] @
      auth_messages (Auth_password [97] [98, 99]) @ [socks_request (Addr_V4 0x08080808 0x5000)] \<and> sc_state cl' = Up"
  by (rule socks_handshake [of _ _ _ 2 _ _ _ _ 0 1])
    (simp_all add: BSocksClient_Init_def socks_consts)

text \<open>A client that has verified the reply header and waits for the address.\<close>

definition ex_reply_inputs :: "socks_input list" where
  "ex_reply_inputs =
     [In_connector (Some (\<lambda>_. 0)) True False, In_sent (Some (\<lambda>_. 0)), In_received (Some (\<lambda>_. 0)) [5, 0],
      In_sent (Some (\<lambda>_. 0)), In_received (Some (\<lambda>_. 0)) [5, 0, 0, 1]]"

definition ex_reply :: socks_client where "ex_reply = fst (the (socks_run [Auth_none] ex_reply_inputs ex_socks_init))"

lemma run_reachable:
  "socks_run auths is cl = Some (cl', effs) \<Longrightarrow> \<not> failed effs \<Longrightarrow> socks_reachable cl \<Longrightarrow> socks_reachable cl'"
proof (induction "is" arbitrary: cl effs)
  case (Cons i "is")
  then obtain cl1 e1 e2 where "socks_enabled i cl" "socks_do auths i cl = Some (cl1, e1)" "socks_run auths is cl1 = Some (cl', e2)"
    "effs = e1 @ e2" by (auto simp: Option.bind_eq_Some_conv split: if_splits)
  then show ?case using Cons socks_reachable.input by (auto simp: failed_def)
qed simp

lemma ex_reply_runs:
  "case socks_run [Auth_none] ex_reply_inputs ex_socks_init of None \<Rightarrow> False
   | Some (cl, effs) \<Rightarrow> \<not> failed effs \<and> socks_enabled (In_received None [1, 2, 3, 4, 0, 80]) cl \<and>
       (case socks_do [Auth_none] (In_received None [1, 2, 3, 4, 0, 80]) cl of None \<Rightarrow> False
        | Some (cl', effs') \<Rightarrow> Report Event_up \<in> set effs')"
  by code_simp

lemma socks_up_only_when_accepted_witness:
  "\<exists>b. socks_reachable ex_reply \<and> sc_buffer ex_reply = Some b \<and> b ! 0 = SOCKS_VERSION \<and> b ! 1 = SOCKS_REP_SUCCEEDED"
proof -
  obtain effs where run: "socks_run [Auth_none] ex_reply_inputs ex_socks_init = Some (ex_reply, effs)" "\<not> failed effs"
    using ex_reply_runs by (auto simp: ex_reply_def split: option.splits prod.splits)
  then have en: "socks_enabled (In_received None [1, 2, 3, 4, 0, 80]) ex_reply" and
    up: "case socks_do [Auth_none] (In_received None [1, 2, 3, 4, 0, 80]) ex_reply of None \<Rightarrow> False
        | Some (cl', effs') \<Rightarrow> Report Event_up \<in> set effs'"
    using ex_reply_runs by simp_all
  obtain cl' effs' where do: "socks_do [Auth_none] (In_received None [1, 2, 3, 4, 0, 80]) ex_reply = Some (cl', effs')" "Report Event_up \<in> set effs'"
    using up by (auto split: option.splits prod.splits simp del: socks_do.simps)
  have reach: "socks_reachable ex_reply" using run_reachable [OF run ex_init_socks_reachable] .
  show ?thesis using socks_up_only_when_accepted [OF reach en do] reach by blast
qed

end
