(* ===== verification/Device_Udp.thy ===== *)
theory Device_Udp
  imports Inet Addr
begin

text \<open>
  UDP between the TUN device and the relays (\<open>tun2socks/tun2socks.c\<close>): what \<open>device_read_handler_send\<close>
  does with a packet read from the device once DNS interception has declined it, \<open>process_device_udp_packet\<close>,
  and \<open>udpgw_client_handler_received\<close>, which writes a received datagram to the device. A packet sent to the
  device is the list of its bytes.
\<close>

section \<open>Configuration\<close>

text \<open>The options and globals these functions read. \<open>dnsgw\<close> is an IPv4 endpoint.\<close>

record tun_config =
  opt_dnsgw :: bool
  opt_udpgw :: bool
  opt_transparent_dns :: bool
  opt_ip6 :: bool
  netif_ip :: u32
  dnsgw_ip :: u32
  dnsgw_port :: u16
  device_mtu :: int
  cfg_udp_mtu :: int

section \<open>UDP packets from the device\<close>

definition ip_version :: "byte list \<Rightarrow> byte" where
  "ip_version data = (if data \<noteq> [] then drop_bit 4 (hd data) else 0)"

text \<open>The parsing the UDP and the DNS handler share, for IPv4 and for IPv6.\<close>

definition parse_udp4 :: "byte list \<Rightarrow> (ipv4_header \<times> udp_header \<times> byte list) option" where
  "parse_udp4 data =
     (if length data < 20 \<or> data ! 9 \<noteq> IPV4_PROTOCOL_UDP then None
      else case ipv4_check data of
        None \<Rightarrow> None
      | Some (iph, data) \<Rightarrow>
          (case udp_check data of
             None \<Rightarrow> None
           | Some (udph, data) \<Rightarrow>
               let checksum_in_packet = udp_csum udph;
                   udph = udph\<lparr>udp_csum := 0\<rparr>;
                   checksum_computed = udp_checksum udph data (of_nat (length data))
                     (source_address iph) (destination_address iph)
               in if checksum_in_packet \<noteq> checksum_computed then None else Some (iph, udph, data)))"

definition parse_udp6 :: "byte list \<Rightarrow> (ipv6_header \<times> udp_header \<times> byte list) option" where
  "parse_udp6 data =
     (if length data < 40 \<or> data ! 6 \<noteq> IPV6_NEXT_UDP then None
      else case ipv6_check data of
        None \<Rightarrow> None
      | Some (iph, data) \<Rightarrow>
          (case udp_check data of
             None \<Rightarrow> None
           | Some (udph, data) \<Rightarrow>
               let checksum_in_packet = udp_csum udph;
                   udph = udph\<lparr>udp_csum := 0\<rparr>;
                   checksum_computed = udp_ip6_checksum udph data (of_nat (length data))
                     (source_address6 iph) (destination_address6 iph)
               in if checksum_in_packet \<noteq> checksum_computed then None else Some (iph, udph, data)))"

text \<open>The submission to the udpgw client, or \<open>None\<close> when the packet is left to lwIP.\<close>

definition process_device_udp_packet :: "tun_config \<Rightarrow> byte list \<Rightarrow> (baddr \<times> baddr \<times> bool \<times> byte list) option" where
  "process_device_udp_packet cfg data =
     (if \<not> opt_udpgw cfg then None
      else case (if ip_version data = 4 then
                   (case parse_udp4 data of
                      None \<Rightarrow> None
                    | Some (iph, udph, data) \<Rightarrow>
                        Some (Addr_V4 (source_address iph) (source_port udph),
                              Addr_V4 (destination_address iph) (dest_port udph),
                              opt_transparent_dns cfg \<and> destination_address iph = netif_ip cfg \<and>
                                dest_port udph = hton16 53,
                              data))
                 else if ip_version data = 6 then
                   (if \<not> opt_ip6 cfg then None
                    else case parse_udp6 data of
                      None \<Rightarrow> None
                    | Some (iph, udph, data) \<Rightarrow>
                        Some (Addr_V6 (source_address6 iph) (source_port udph),
                              Addr_V6 (destination_address6 iph) (dest_port udph), False, data))
                 else None) of
        None \<Rightarrow> None
      | Some (local, remote, is_dns, data) \<Rightarrow>
          if int (length data) > cfg_udp_mtu cfg then None else Some (local, remote, is_dns, data))"

section \<open>Datagrams to the device\<close>

definition udpgw_client_handler_received :: "tun_config \<Rightarrow> baddr \<Rightarrow> baddr \<Rightarrow> byte list \<Rightarrow> byte list option" where
  "udpgw_client_handler_received cfg local remote data =
     (let data_len = int (length data) in
      case (local, remote) of
        (Addr_V4 lip lport, Addr_V4 rip rport) \<Rightarrow>
          if data_len > UINT16_MAX - (20 + 8) \<or> data_len > device_mtu cfg - (20 + 8) then None
          else
            let iph = \<lparr>version4_ihl4 = IPV4_MAKE_VERSION_IHL 20, ds = hton8 0,
                       total_length = hton16 (20 + 8 + of_nat (length data)), identification = hton16 0,
                       flags3_fragmentoffset13 = hton16 0, ttl = hton8 64, protocol = hton8 IPV4_PROTOCOL_UDP,
                       ip_checksum = hton16 0, source_address = rip, destination_address = lip\<rparr>;
                iph = iph\<lparr>ip_checksum := ipv4_checksum iph []\<rparr>;
                udph = \<lparr>source_port = rport, dest_port = lport, udp_len = hton16 (8 + of_nat (length data)),
                        udp_csum = hton16 0\<rparr>;
                udph = udph\<lparr>udp_csum := udp_checksum udph data (of_nat (length data))
                               (source_address iph) (destination_address iph)\<rparr>
            in Some (ipv4_enc iph @ udp_enc udph @ data)
      | (Addr_V6 lip lport, Addr_V6 rip rport) \<Rightarrow>
          if \<not> opt_ip6 cfg then None
          else if data_len > UINT16_MAX - 8 \<or> data_len > device_mtu cfg - (40 + 8) then None
          else
            let iph = \<lparr>version4_tc4 = hton8 (push_bit 4 6), tc4_fl4 = hton8 0, fl = hton16 0,
                       payload_length = hton16 (8 + of_nat (length data)), next_header = hton8 IPV6_NEXT_UDP,
                       hop_limit = hton8 64, source_address6 = rip, destination_address6 = lip\<rparr>;
                udph = \<lparr>source_port = rport, dest_port = lport, udp_len = hton16 (8 + of_nat (length data)),
                        udp_csum = hton16 0\<rparr>;
                udph = udph\<lparr>udp_csum := udp_ip6_checksum udph data (of_nat (length data))
                               (source_address6 iph) (destination_address6 iph)\<rparr>
            in Some (ipv6_enc iph @ udp_enc udph @ data)
      | _ \<Rightarrow> None)"

section \<open>A written packet parses back\<close>

lemma of_nat_u16: "n < 65536 \<Longrightarrow> unat (of_nat n :: u16) = n"
  by (simp add: unat_of_nat take_bit_nat_eq_self)

lemma ipv4_enc_protocol: "ipv4_enc h ! 9 = protocol h" "length (ipv4_enc h) = 20"
  by (simp_all add: ipv4_enc_def mem_bytes)

lemma written_udp4_parses:
  assumes "IPV4_GET_VERSION iph = 4" "IPV4_GET_IHL iph = 5" "protocol iph = IPV4_PROTOCOL_UDP"
    "unat (ntoh16 (total_length iph)) = 28 + length data" "unat (ntoh16 (udp_len udph)) = 8 + length data"
    "ip_checksum iph = ipv4_checksum (iph\<lparr>ip_checksum := 0\<rparr>) []"
    "udp_csum udph = udp_checksum (udph\<lparr>udp_csum := 0\<rparr>) data (of_nat (length data))
       (source_address iph) (destination_address iph)"
  shows "parse_udp4 (ipv4_enc iph @ udp_enc udph @ data) = Some (iph, udph\<lparr>udp_csum := 0\<rparr>, data)"
proof -
  have "ipv4_packet iph [] (udp_enc udph @ data)"
    using assms by (simp add: ipv4_packet_def)
  then have "ipv4_check (ipv4_enc iph @ udp_enc udph @ data) = Some (iph, udp_enc udph @ data)"
    unfolding ipv4_check_accepts by (intro exI [of _ "[]"]) simp
  moreover have "udp_check (udp_enc udph @ data) = Some (udph, data)"
    unfolding udp_check_accepts using assms(5) by (intro exI [of _ "[]"]) simp
  ultimately show ?thesis
    using assms(3,7) by (simp add: parse_udp4_def nth_append ipv4_enc_protocol Let_def)
qed

lemma written_udp6_parses:
  assumes "ipv6_ok iph" "drop_bit 4 (version4_tc4 iph) = 6" "next_header iph = IPV6_NEXT_UDP"
    "unat (ntoh16 (payload_length iph)) = 8 + length data" "unat (ntoh16 (udp_len udph)) = 8 + length data"
    "udp_csum udph = udp_ip6_checksum (udph\<lparr>udp_csum := 0\<rparr>) data (of_nat (length data))
       (source_address6 iph) (destination_address6 iph)"
  shows "parse_udp6 (ipv6_enc iph @ udp_enc udph @ data) = Some (iph, udph\<lparr>udp_csum := 0\<rparr>, data)"
proof -
  have "ipv6_check (ipv6_enc iph @ udp_enc udph @ data) = Some (iph, udp_enc udph @ data)"
    unfolding ipv6_check_accepts using assms by (intro exI [of _ "[]"]) simp
  moreover have "udp_check (udp_enc udph @ data) = Some (udph, data)"
    unfolding udp_check_accepts using assms(5) by (intro exI [of _ "[]"]) simp
  moreover have "ipv6_enc iph ! 6 = next_header iph" "length (ipv6_enc iph) = 40"
    using ipv6.enc_length [OF assms(1)] by (simp_all add: ipv6_enc_def mem_bytes)
  ultimately show ?thesis
    using assms(3,6) by (simp add: parse_udp6_def nth_append Let_def)
qed

text \<open>A datagram as its source, destination and data.\<close>

definition datagram_of :: "byte list \<Rightarrow> (baddr \<times> baddr \<times> byte list) option" where
  "datagram_of data =
     (if ip_version data = 4 then
        map_option (\<lambda>(iph, udph, d). (Addr_V4 (source_address iph) (source_port udph),
          Addr_V4 (destination_address iph) (dest_port udph), d)) (parse_udp4 data)
      else if ip_version data = 6 then
        map_option (\<lambda>(iph, udph, d). (Addr_V6 (source_address6 iph) (source_port udph),
          Addr_V6 (destination_address6 iph) (dest_port udph), d)) (parse_udp6 data)
      else None)"

lemma ip_version_ipv4: "IPV4_GET_VERSION iph = 4 \<Longrightarrow> ip_version (ipv4_enc iph @ r) = 4"
proof -
  assume v: "IPV4_GET_VERSION iph = 4"
  have "drop_bit 4 (version4_ihl4 iph AND 0xF0) = drop_bit 4 (version4_ihl4 iph)"
    by (rule bit_word_eqI) (auto simp: bit_simps bit_numeral_rec less_Suc_eq numeral_eq_Suc dest: bit_imp_le_length)
  then show ?thesis using v by (simp add: ip_version_def ipv4_enc_def IPV4_GET_VERSION_def)
qed

lemma make_version_ihl: "IPV4_MAKE_VERSION_IHL 20 = 0x45"
  by code_simp

lemma ipv4_head_20: "version4_ihl4 iph = 0x45 \<Longrightarrow> IPV4_GET_VERSION iph = 4 \<and> IPV4_GET_IHL iph = 5"
  by (simp add: IPV4_GET_VERSION_def IPV4_GET_IHL_def)

lemma received_datagram:
  assumes "udpgw_client_handler_received cfg local remote data = Some pkt" "addr_ok local" "addr_ok remote"
  shows "datagram_of pkt = Some (remote, local, data) \<and> int (length pkt) \<le> device_mtu cfg"
proof (cases local)
  case Addr_None
  then show ?thesis using assms(2) by simp
next
  case (Addr_V4 lip lport)
  then obtain rip rport where r: "remote = Addr_V4 rip rport" and n: "int (length data) \<le> 65507"
      "int (length data) + 28 \<le> device_mtu cfg"
    using assms(1) by (cases remote) (auto simp: udpgw_client_handler_received_def Let_def split: if_splits)
  define iph0 where "iph0 = \<lparr>version4_ihl4 = 0x45, ds = hton8 0,
    total_length = hton16 (20 + 8 + of_nat (length data)), identification = hton16 0,
    flags3_fragmentoffset13 = hton16 0, ttl = hton8 64, protocol = hton8 IPV4_PROTOCOL_UDP,
    ip_checksum = 0, source_address = rip, destination_address = lip\<rparr>"
  define iph where "iph = iph0\<lparr>ip_checksum := ipv4_checksum iph0 []\<rparr>"
  define udph0 where "udph0 = \<lparr>source_port = rport, dest_port = lport,
    udp_len = hton16 (8 + of_nat (length data)), udp_csum = 0\<rparr>"
  define udph where "udph = udph0\<lparr>udp_csum := udp_checksum udph0 data (of_nat (length data)) rip lip\<rparr>"
  have pkt: "pkt = ipv4_enc iph @ udp_enc udph @ data"
    using assms(1) Addr_V4 r
    by (simp add: udpgw_client_handler_received_def Let_def iph_def iph0_def udph_def udph0_def make_version_ihl
        hton16_0 split: if_splits)
  have len: "unat (20 + 8 + of_nat (length data) :: u16) = 28 + length data"
    "unat (8 + of_nat (length data) :: u16) = 8 + length data"
    using of_nat_u16 [of "28 + length data"] of_nat_u16 [of "8 + length data"] n(1) by simp_all
  have h: "IPV4_GET_VERSION iph = 4" "IPV4_GET_IHL iph = 5"
    using ipv4_head_20 [of iph] by (simp_all add: iph_def iph0_def)
  have "iph\<lparr>ip_checksum := 0\<rparr> = iph0" "udph\<lparr>udp_csum := 0\<rparr> = udph0"
    by (simp_all add: iph_def iph0_def udph_def udph0_def)
  then have "parse_udp4 pkt = Some (iph, udph0, data)"
    unfolding pkt
    by (subst written_udp4_parses) (use h len in \<open>simp_all add: iph_def iph0_def udph_def udph0_def hton8_def htol8_def\<close>)
  then show ?thesis
    using ip_version_ipv4 [OF h(1)] n(2) Addr_V4 r
    by (simp add: datagram_of_def pkt) (simp add: iph_def iph0_def udph0_def)
next
  case (Addr_V6 lip lport)
  then obtain rip rport where r: "remote = Addr_V6 rip rport" and n: "int (length data) \<le> 65527"
      "int (length data) + 48 \<le> device_mtu cfg"
    using assms(1) by (cases remote) (auto simp: udpgw_client_handler_received_def Let_def split: if_splits)
  define iph where "iph = \<lparr>version4_tc4 = hton8 (push_bit 4 6), tc4_fl4 = hton8 0, fl = hton16 0,
    payload_length = hton16 (8 + of_nat (length data)), next_header = hton8 IPV6_NEXT_UDP,
    hop_limit = hton8 64, source_address6 = rip, destination_address6 = lip\<rparr>"
  define udph0 where "udph0 = \<lparr>source_port = rport, dest_port = lport,
    udp_len = hton16 (8 + of_nat (length data)), udp_csum = 0\<rparr>"
  define udph where "udph = udph0\<lparr>udp_csum := udp_ip6_checksum udph0 data (of_nat (length data)) rip lip\<rparr>"
  have pkt: "pkt = ipv6_enc iph @ udp_enc udph @ data"
    using assms(1) Addr_V6 r
    by (simp add: udpgw_client_handler_received_def Let_def iph_def udph_def udph0_def hton16_0 split: if_splits)
  have len: "unat (8 + of_nat (length data) :: u16) = 8 + length data"
    using of_nat_u16 [of "8 + length data"] n(1) by simp
  have ok: "ipv6_ok iph" using assms(2,3) Addr_V6 r by (simp add: ipv6_ok_def iph_def)
  have v: "drop_bit 4 (version4_tc4 iph) = 6" "version4_tc4 iph = 0x60"
    by (simp_all add: iph_def hton8_def htol8_def push_bit_eq_mult drop_bit_eq_div)
  have "udph\<lparr>udp_csum := 0\<rparr> = udph0" by (simp add: udph_def udph0_def)
  then have "parse_udp6 pkt = Some (iph, udph0, data)"
    unfolding pkt
    by (subst written_udp6_parses) (use ok v len in \<open>simp_all add: iph_def udph_def udph0_def hton8_def htol8_def\<close>)
  moreover have "ip_version pkt = 6" using v by (simp add: pkt ip_version_def ipv6_enc_def)
  ultimately show ?thesis
    using n(2) Addr_V6 r ipv6.enc_length [OF ok]
    by (simp add: datagram_of_def pkt) (simp add: iph_def udph0_def)
qed

section \<open>Reading from the device\<close>

text \<open>
  \<open>device_read_handler_send\<close> after the DNS handler has declined: the udpgw client, lwIP through a buffer
  (\<open>pbuf_ok\<close> says whether one could be had, \<open>input_ok\<close> whether lwIP took it), or nothing.
\<close>

datatype device_action = To_device "byte list" | Submit_udpgw baddr baddr bool "byte list" | To_lwip "byte list" | Not_taken

definition device_read_rest :: "tun_config \<Rightarrow> bool \<Rightarrow> byte list \<Rightarrow> device_action" where
  "device_read_rest cfg pbuf_ok data =
     (case process_device_udp_packet cfg data of
        Some (local, remote, is_dns, d) \<Rightarrow> Submit_udpgw local remote is_dns d
      | None \<Rightarrow>
          if int (length data) > UINT16_MAX then Not_taken
          else if \<not> pbuf_ok then Not_taken
          else To_lwip data)"

text \<open>\<open>netif_input_func\<close>: which lwIP input function gets the packet, by version.\<close>

definition netif_input_func :: "tun_config \<Rightarrow> byte list \<Rightarrow> nat option" where
  "netif_input_func cfg payload =
     (if ip_version payload = 4 then Some 4
      else if ip_version payload = 6 \<and> opt_ip6 cfg then Some 6
      else None)"

text \<open>\<open>common_netif_output\<close> on the chunks of a packet: what is sent to the device.\<close>

fun gather_chunks :: "int \<Rightarrow> byte list \<Rightarrow> byte list list \<Rightarrow> byte list option" where
  "gather_chunks mtu buf [] = Some buf"
| "gather_chunks mtu buf (p # ps) =
     (if int (length p) > mtu - int (length buf) then None else gather_chunks mtu (buf @ p) ps)"

definition common_netif_output :: "tun_config \<Rightarrow> bool \<Rightarrow> byte list list \<Rightarrow> byte list option" where
  "common_netif_output cfg quitting chunks =
     (if quitting then None
      else case chunks of
        [p] \<Rightarrow> if int (length p) > device_mtu cfg then None else Some p
      | _ \<Rightarrow> gather_chunks (device_mtu cfg) [] chunks)"

lemma gather_chunks_exact:
  "int (length buf) \<le> mtu \<Longrightarrow> gather_chunks mtu buf ps =
     (if int (length (buf @ concat ps)) \<le> mtu then Some (buf @ concat ps) else None)"
  by (induction mtu buf ps rule: gather_chunks.induct) auto

section \<open>Properties\<close>

text \<open>C27. A datagram received for a local address is written to the device as a complete valid packet:
  it passes the header, length and checksum tests the program applies to packets it reads, and gives
  back exactly the remote address as source, the local address as destination, and the data, over IPv4
  and over IPv6. It never exceeds the device's MTU.\<close>

theorem device_datagram_roundtrip:
  assumes "udpgw_client_handler_received cfg local remote data = Some pkt" "addr_ok local" "addr_ok remote"
  shows "datagram_of pkt = Some (remote, local, data) \<and> int (length pkt) \<le> device_mtu cfg"
  using assms by (rule received_datagram)

definition ex_cfg :: tun_config where
  "ex_cfg = \<lparr>opt_dnsgw = True, opt_udpgw = True, opt_transparent_dns = False, opt_ip6 = True,
     netif_ip = 0x0100000A, dnsgw_ip = 0x0200000A, dnsgw_port = 0xD91F, device_mtu = 1500, cfg_udp_mtu = 1500\<rparr>"

lemma device_datagram_roundtrip_witness:
  "datagram_of (the (udpgw_client_handler_received ex_cfg (Addr_V6 (replicate 16 1) 5) (Addr_V6 (replicate 16 2) 7) [1, 2, 3])) =
     Some (Addr_V6 (replicate 16 2) 7, Addr_V6 (replicate 16 1) 5, [1, 2, 3])"
proof -
  have "\<exists>pkt. udpgw_client_handler_received ex_cfg (Addr_V6 (replicate 16 1) 5) (Addr_V6 (replicate 16 2) 7) [1, 2, 3] = Some pkt"
    by (simp add: udpgw_client_handler_received_def ex_cfg_def Let_def)
  then obtain pkt where pkt: "udpgw_client_handler_received ex_cfg (Addr_V6 (replicate 16 1) 5)
      (Addr_V6 (replicate 16 2) 7) [1, 2, 3] = Some pkt" by blast
  show ?thesis using device_datagram_roundtrip [OF pkt] pkt by simp
qed

text \<open>UDP packets are relayed exactly when they are valid datagrams of an enabled IP version that fit
  the datagram limit, and what is submitted is then the datagram itself: its source as the local and its
  destination as the remote address, and its data. Everything else is left to lwIP.\<close>

theorem device_udp_relayed_iff:
  "process_device_udp_packet cfg pkt = Some (local, remote, is_dns, data) \<longleftrightarrow>
     opt_udpgw cfg \<and> datagram_of pkt = Some (local, remote, data) \<and>
     (ip_version pkt = 4 \<or> opt_ip6 cfg) \<and> int (length data) \<le> cfg_udp_mtu cfg \<and>
     is_dns = (case remote of Addr_V4 ip port \<Rightarrow> opt_transparent_dns cfg \<and> ip = netif_ip cfg \<and> port = hton16 53
                            | _ \<Rightarrow> False)"
  by (auto simp: process_device_udp_packet_def datagram_of_def split: option.splits)

text \<open>A datagram whose checksum field is all ones, which is how a checksum of zero must be sent, is never
  relayed, however correct it is: the checksum the program compares with is never all ones.\<close>

theorem all_ones_checksum_not_relayed:
  assumes "ip_version pkt = 4" "ipv4_check pkt = Some (iph, p)" "udp_check p = Some (udph, data)"
    "udp_csum udph = 0xFFFF"
  shows "process_device_udp_packet cfg pkt = None"
proof -
  have "udp_checksum h d n s t \<noteq> 0xFFFF" for h d n s t
    unfolding udp_checksum_def using udp_finish_zero [OF udp_sum_pos] by blast
  then have "parse_udp4 pkt = None"
    using assms(2-4) by (auto simp: parse_udp4_def Let_def)
  then show ?thesis using assms(1) by (simp add: process_device_udp_packet_def)
qed

definition ex_iph :: ipv4_header where
  "ex_iph =
     (let h = \<lparr>version4_ihl4 = 0x45, ds = 0, total_length = hton16 28, identification = 0,
                flags3_fragmentoffset13 = 0, ttl = 64, protocol = IPV4_PROTOCOL_UDP, ip_checksum = 0,
                source_address = 0x0100000A, destination_address = 0x08080808\<rparr>
      in h\<lparr>ip_checksum := ipv4_checksum h []\<rparr>)"

definition ex_udph :: udp_header where
  "ex_udph = \<lparr>source_port = 1, dest_port = 2, udp_len = hton16 8, udp_csum = 0xFFFF\<rparr>"

lemma all_ones_checksum_not_relayed_witness:
  "process_device_udp_packet ex_cfg (ipv4_enc ex_iph @ udp_enc ex_udph) = None"
proof (rule all_ones_checksum_not_relayed)
  have h: "IPV4_GET_VERSION ex_iph = 4" "IPV4_GET_IHL ex_iph = 5"
    using ipv4_head_20 [of ex_iph] by (simp_all add: ex_iph_def Let_def)
  then show "ip_version (ipv4_enc ex_iph @ udp_enc ex_udph) = 4" using ip_version_ipv4 by blast
  have "ipv4_packet ex_iph [] (udp_enc ex_udph)"
    using h by (simp add: ipv4_packet_def) (simp add: ex_iph_def Let_def)
  then show "ipv4_check (ipv4_enc ex_iph @ udp_enc ex_udph) = Some (ex_iph, udp_enc ex_udph)"
    unfolding ipv4_check_accepts by (intro exI [of _ "[]"]) simp
  show "udp_check (udp_enc ex_udph) = Some (ex_udph, [])"
    unfolding udp_check_accepts by (intro exI [of _ "[]"]) (simp add: ex_udph_def)
  show "udp_csum ex_udph = 0xFFFF" by (simp add: ex_udph_def)
qed

end
