(* ===== verification/Dns_Nat.thy ===== *)
theory Dns_Nat
  imports Device_Udp Avl
begin

text \<open>
  DNS interception (\<open>process_device_dns_packet\<close> and the connection table at the top of
  \<open>tun2socks/tun2socks.c\<close>): requests to port 53 are readdressed to the local DNS gateway and its answers
  back, with a balanced tree of the requesters keyed by source port. Entries live at addresses of
  \<open>dt_heap\<close>, given by the parameter \<open>malloc\<close>, which the code does not check.
\<close>

section \<open>The table\<close>

record dns_con =
  dc_local :: baddr
  dc_remote :: baddr
  dc_port :: u16
  dc_count :: int

record dns_table =
  dt_heap :: "nat \<Rightarrow> dns_con option"
  dt_tree :: "nat avl_tree"
  dt_init :: bool

definition port_comparator :: "u16 \<Rightarrow> u16 \<Rightarrow> int" where
  "port_comparator v1 v2 = (if v1 = v2 then 0 else if v1 > v2 then 1 else - 1)"

definition port_at :: "dns_table \<Rightarrow> nat \<Rightarrow> u16" where
  "port_at t p = dc_port (the (dt_heap t p))"

definition find_connection :: "dns_table \<Rightarrow> u16 \<Rightarrow> nat option" where
  "find_connection t port = BAVL_LookupExact (port_at t) port_comparator (dt_tree t) port"

definition remove_connection :: "nat \<Rightarrow> dns_table \<Rightarrow> dns_table" where
  "remove_connection p t =
     (let con = the (dt_heap t p);
          con = con\<lparr>dc_count := dc_count con - 1\<rparr>;
          t = t\<lparr>dt_heap := (dt_heap t)(p \<mapsto> con)\<rparr>
      in if dc_count con \<le> 0
         then t\<lparr>dt_tree := BAVL_Remove (port_at t) port_comparator (dt_tree t) p, dt_heap := (dt_heap t)(p := None)\<rparr>
         else t)"

definition insert_connection :: "nat \<Rightarrow> baddr \<Rightarrow> baddr \<Rightarrow> u16 \<Rightarrow> dns_table \<Rightarrow> dns_table" where
  "insert_connection malloc local remote port t =
     (case find_connection t port of
        Some p \<Rightarrow>
          let con = the (dt_heap t p) in t\<lparr>dt_heap := (dt_heap t)(p \<mapsto> con\<lparr>dc_count := dc_count con + 1\<rparr>)\<rparr>
      | None \<Rightarrow>
          let t = t\<lparr>dt_heap := (dt_heap t)(malloc \<mapsto>
                      \<lparr>dc_local = local, dc_remote = remote, dc_port = port, dc_count = 1\<rparr>)\<rparr>
          in t\<lparr>dt_tree := fst (BAVL_Insert (port_at t) port_comparator (dt_tree t) malloc)\<rparr>)"

text \<open>The loop of \<open>free_connections\<close>; the entries it removes from the tree are not freed.\<close>

partial_function (option) free_dns_connections :: "dns_table \<Rightarrow> dns_table option" where
  "free_dns_connections t =
     (if BAVL_IsEmpty (dt_tree t) then Some t
      else case BAVL_GetLast (dt_tree t) of
        None \<Rightarrow> None
      | Some p \<Rightarrow> free_dns_connections (t\<lparr>dt_tree := BAVL_Remove (port_at t) port_comparator (dt_tree t) p\<rparr>))"

section \<open>The packet handler\<close>

fun v4_ip :: "baddr \<Rightarrow> u32" where
  "v4_ip (Addr_V4 ip port) = ip" | "v4_ip _ = 0"

fun v4_port :: "baddr \<Rightarrow> u16" where
  "v4_port (Addr_V4 ip port) = port" | "v4_port _ = 0"

text \<open>Recomputing both checksums and writing the packet.\<close>

definition dns_packet :: "ipv4_header \<Rightarrow> udp_header \<Rightarrow> byte list \<Rightarrow> byte list" where
  "dns_packet iph udph data =
     (let iph = iph\<lparr>ip_checksum := hton16 0\<rparr>;
          iph = iph\<lparr>ip_checksum := ipv4_checksum iph []\<rparr>;
          udph = udph\<lparr>udp_csum := hton16 0\<rparr>;
          udph = udph\<lparr>udp_csum := udp_checksum udph data (of_nat (length data))
                         (source_address iph) (destination_address iph)\<rparr>
      in ipv4_enc iph @ udp_enc udph @ data)"

text \<open>The packet sent to the device, or \<open>None\<close> when the handler declines; and the table.\<close>

definition process_device_dns_packet ::
  "tun_config \<Rightarrow> nat \<Rightarrow> byte list \<Rightarrow> dns_table \<Rightarrow> byte list option \<times> dns_table" where
  "process_device_dns_packet cfg malloc data t =
     (if \<not> opt_dnsgw cfg then (None, t)
      else if ip_version data \<noteq> 4 then (None, t)
      else case parse_udp4 data of
        None \<Rightarrow> (None, t)
      | Some (iph, udph, data) \<Rightarrow>
          let to_dns = (dest_port udph = hton16 53);
              from_dns = (source_port udph = dnsgw_port cfg)
          in if \<not> to_dns \<and> \<not> from_dns then (None, t)
             else if to_dns then
               let t = (if \<not> dt_init t then t\<lparr>dt_init := True, dt_tree := BAVL_Init\<rparr> else t);
                   local = Addr_V4 (source_address iph) (source_port udph);
                   remote = Addr_V4 (destination_address iph) (dest_port udph);
                   t = insert_connection malloc local remote (source_port udph) t;
                   iph = iph\<lparr>destination_address := dnsgw_ip cfg, source_address := netif_ip cfg\<rparr>;
                   udph = udph\<lparr>dest_port := dnsgw_port cfg\<rparr>
               in (Some (dns_packet iph udph data), t)
             else if \<not> dt_init t then (None, t)
             else case find_connection t (dest_port udph) of
               None \<Rightarrow> (None, t)
             | Some p \<Rightarrow>
                 let con = the (dt_heap t p);
                     iph = iph\<lparr>source_address := v4_ip (dc_remote con),
                               destination_address := v4_ip (dc_local con)\<rparr>;
                     udph = udph\<lparr>source_port := v4_port (dc_remote con)\<rparr>
                 in (Some (dns_packet iph udph data), remove_connection p t))"

definition device_read_handler_send ::
  "tun_config \<Rightarrow> nat \<Rightarrow> bool \<Rightarrow> byte list \<Rightarrow> dns_table \<Rightarrow> device_action \<times> dns_table" where
  "device_read_handler_send cfg malloc pbuf_ok data t =
     (case process_device_dns_packet cfg malloc data t of
        (Some pkt, t) \<Rightarrow> (To_device pkt, t)
      | (None, t) \<Rightarrow> (device_read_rest cfg pbuf_ok data, t))"

section \<open>The table as a map\<close>

interpretation port_order: comparator port_comparator
proof -
  have "port_comparator = B_COMPARE" by (auto simp: fun_eq_iff port_comparator_def B_COMPARE_if)
  then show "comparator port_comparator" by (simp add: comparator_B_COMPARE)
qed

lemma port_cmp_0: "port_comparator a b = 0 \<longleftrightarrow> a = b"
  by (simp add: port_comparator_def)

definition dns_inv :: "dns_table \<Rightarrow> bool" where
  "dns_inv t \<longleftrightarrow>
     port_order.bst (port_at t) (dt_tree t) \<and> set (inorder (dt_tree t)) = dom (dt_heap t) \<and>
     (\<forall>con\<in>ran (dt_heap t). 1 \<le> dc_count con) \<and> (\<not> dt_init t \<longrightarrow> dt_tree t = Leaf)"

lemma find_port_iff:
  "dns_inv t \<Longrightarrow> find_connection t port = Some p \<longleftrightarrow> p \<in> dom (dt_heap t) \<and> port_at t p = port"
  unfolding find_connection_def dns_inv_def
  by (auto simp: port_order.lookup_exact_iff port_cmp_0)

lemma port_at_inject:
  "dns_inv t \<Longrightarrow> p \<in> dom (dt_heap t) \<Longrightarrow> q \<in> dom (dt_heap t) \<Longrightarrow> port_at t p = port_at t q \<Longrightarrow> p = q"
  by (metis find_port_iff option.inject)

definition dns_map :: "dns_table \<Rightarrow> u16 \<Rightarrow> (baddr \<times> baddr \<times> int) option" where
  "dns_map t port =
     map_option (\<lambda>p. let con = the (dt_heap t p) in (dc_local con, dc_remote con, dc_count con))
       (find_connection t port)"

lemma dns_map_eqI:
  assumes "dns_inv t" "dns_inv t'"
    "\<And>p con. dt_heap t p = Some con \<Longrightarrow> dc_port con \<noteq> port \<Longrightarrow> dt_heap t' p = Some con"
    "\<And>p con. dt_heap t' p = Some con \<Longrightarrow> dc_port con \<noteq> port \<Longrightarrow> dt_heap t p = Some con"
    "k \<noteq> port"
  shows "dns_map t' k = dns_map t k"
proof (cases "find_connection t k")
  case (Some p)
  then obtain con where con: "dt_heap t p = Some con" "dc_port con = k"
    using find_port_iff [OF assms(1)] by (auto simp: port_at_def)
  then have "dt_heap t' p = Some con" using assms(3,5) by auto
  then have "find_connection t' k = Some p" using find_port_iff [OF assms(2), of k p] con by (auto simp: port_at_def)
  then show ?thesis using Some \<open>dt_heap t' p = Some con\<close> con by (simp add: dns_map_def)
next
  case None
  have "find_connection t' k = None"
  proof (rule ccontr)
    assume "find_connection t' k \<noteq> None"
    then obtain p where "find_connection t' k = Some p" by auto
    then obtain con where "dt_heap t' p = Some con" "dc_port con = k"
      using find_port_iff [OF assms(2)] by (auto simp: port_at_def)
    then have "find_connection t k = Some p"
      using assms(4,5) find_port_iff [OF assms(1), of k p] by (force simp: port_at_def)
    then show False using None by simp
  qed
  then show ?thesis using None by (simp add: dns_map_def)
qed

lemma inv_update_count:
  assumes "dns_inv t" "dt_heap t p = Some con" "1 \<le> n"
  shows "dns_inv (t\<lparr>dt_heap := (dt_heap t)(p \<mapsto> con\<lparr>dc_count := n\<rparr>)\<rparr>)"
proof -
  have "port_at (t\<lparr>dt_heap := (dt_heap t)(p \<mapsto> con\<lparr>dc_count := n\<rparr>)\<rparr>) = port_at t"
    using assms(2) by (auto simp: fun_eq_iff port_at_def)
  then show ?thesis using assms by (auto simp: dns_inv_def ran_def)
qed

lemma insert_map:
  assumes inv: "dns_inv t" and fresh: "dt_heap t m = None" and init: "dt_init t"
  shows "dns_inv (insert_connection m l r port t) \<and>
    dns_map (insert_connection m l r port t) =
      (dns_map t)(port \<mapsto> (case dns_map t port of None \<Rightarrow> (l, r, 1) | Some (l', r', n) \<Rightarrow> (l', r', n + 1)))"
proof (cases "find_connection t port")
  case (Some p)
  then obtain con where con: "dt_heap t p = Some con" "dc_port con = port"
    using find_port_iff [OF inv] by (auto simp: port_at_def)
  let ?t = "t\<lparr>dt_heap := (dt_heap t)(p \<mapsto> con\<lparr>dc_count := dc_count con + 1\<rparr>)\<rparr>"
  have t: "insert_connection m l r port t = ?t" using Some con by (simp add: insert_connection_def)
  have "1 \<le> dc_count con" using inv con(1) by (auto simp: dns_inv_def ran_def)
  then have inv': "dns_inv ?t" by (intro inv_update_count [OF inv con(1)]) simp
  have same: "find_connection ?t port = Some p"
    unfolding find_port_iff [OF inv'] using con by (auto simp: port_at_def)
  have "dns_map ?t k = dns_map t k" if "k \<noteq> port" for k
    by (rule dns_map_eqI [OF inv inv' _ _ that]) (use con in \<open>auto split: if_splits\<close>)
  then have "dns_map ?t = (dns_map t)(port \<mapsto> (dc_local con, dc_remote con, dc_count con + 1))"
    using same by (auto simp: fun_eq_iff dns_map_def [of ?t port])
  then show ?thesis using inv' t Some con by (simp add: dns_map_def [of t port])
next
  case None
  let ?con = "\<lparr>dc_local = l, dc_remote = r, dc_port = port, dc_count = 1\<rparr>"
  let ?h = "t\<lparr>dt_heap := (dt_heap t)(m \<mapsto> ?con)\<rparr>"
  let ?t = "?h\<lparr>dt_tree := fst (BAVL_Insert (port_at ?h) port_comparator (dt_tree t) m)\<rparr>"
  have t: "insert_connection m l r port t = ?t" using None by (simp add: insert_connection_def Let_def)
  have i: "port_order.bst (port_at t) (dt_tree t)" "set (inorder (dt_tree t)) = dom (dt_heap t)"
    using inv by (simp_all add: dns_inv_def)
  have old: "\<forall>p\<in>set (inorder (dt_tree t)). port_at t p = port_at ?h p"
    using fresh i(2) by (auto simp: port_at_def)
  then have b: "port_order.bst (port_at ?h) (dt_tree t)"
    using i(1) port_order.bst_cong [OF old] by simp
  have new: "\<forall>p\<in>set (inorder (dt_tree t)). port_comparator (port_at ?h m) (port_at ?h p) \<noteq> 0"
  proof
    fix p assume p: "p \<in> set (inorder (dt_tree t))"
    then have "port_at t p \<noteq> port" using None find_port_iff [OF inv, of port p] i(2) by auto
    moreover have "port_at ?h m = port" by (simp add: port_at_def)
    ultimately show "port_comparator (port_at ?h m) (port_at ?h p) \<noteq> 0"
      using old p by (simp add: port_cmp_0)
  qed
  have keys: "port_at ?t = port_at ?h" by (simp add: fun_eq_iff port_at_def)
  have cnt: "\<forall>con\<in>ran (dt_heap ?h). 1 \<le> dc_count con"
    using inv fresh by (simp add: dns_inv_def ran_map_upd)
  have inv': "dns_inv ?t"
    unfolding dns_inv_def keys
    using port_order.insert_fresh(1) [OF b new] port_order.insert_fresh(3) [OF b new] i(2) cnt init by simp
  have same: "find_connection ?t port = Some m"
    unfolding find_port_iff [OF inv'] by (auto simp: port_at_def)
  have "dns_map ?t k = dns_map t k" if "k \<noteq> port" for k
    by (rule dns_map_eqI [OF inv inv' _ _ that]) (use fresh in \<open>auto split: if_splits\<close>)
  then have "dns_map ?t = (dns_map t)(port \<mapsto> (l, r, 1))"
    using same by (auto simp: fun_eq_iff dns_map_def [of ?t port])
  then show ?thesis using inv' t None by (simp add: dns_map_def [of t port])
qed

lemma remove_map:
  assumes inv: "dns_inv t" and found: "find_connection t port = Some p" and m: "dns_map t port = Some (l, r, n)"
  shows "dns_inv (remove_connection p t) \<and>
    dns_map (remove_connection p t) = (dns_map t)(port := (if n \<le> 1 then None else Some (l, r, n - 1)))"
proof -
  obtain con where con: "dt_heap t p = Some con" "dc_port con = port"
    using found find_port_iff [OF inv] by (auto simp: port_at_def)
  have e: "dc_local con = l" "dc_remote con = r" "dc_count con = n"
    using m found con by (simp_all add: dns_map_def Let_def)
  let ?con = "con\<lparr>dc_count := n - 1\<rparr>"
  let ?h = "t\<lparr>dt_heap := (dt_heap t)(p \<mapsto> ?con)\<rparr>"
  have others: "port_at t q \<noteq> port" if "q \<noteq> p" "q \<in> dom (dt_heap t)" for q
    using that port_at_inject [OF inv, of q p] con by (auto simp: port_at_def)
  show ?thesis
  proof (cases "n \<le> 1")
    case False
    have t': "remove_connection p t = ?h" using False con e by (simp add: remove_connection_def Let_def)
    have inv': "dns_inv ?h" by (rule inv_update_count [OF inv con(1)]) (use False in simp)
    have same: "find_connection ?h port = Some p"
      unfolding find_port_iff [OF inv'] using con by (auto simp: port_at_def)
    have "dns_map ?h k = dns_map t k" if "k \<noteq> port" for k
      by (rule dns_map_eqI [OF inv inv' _ _ that]) (use con in \<open>auto split: if_splits\<close>)
    then have "dns_map ?h = (dns_map t)(port \<mapsto> (l, r, n - 1))"
      using same e by (auto simp: fun_eq_iff dns_map_def [of ?h port])
    then show ?thesis using inv' t' False by simp
  next
    case True
    let ?t = "t\<lparr>dt_tree := BAVL_Remove (port_at ?h) port_comparator (dt_tree t) p, dt_heap := (dt_heap t)(p := None)\<rparr>"
    have t': "remove_connection p t = ?t" using True con e by (simp add: remove_connection_def Let_def)
    have i: "port_order.bst (port_at t) (dt_tree t)" "set (inorder (dt_tree t)) = dom (dt_heap t)"
      "\<forall>con\<in>ran (dt_heap t). 1 \<le> dc_count con" "dt_init t \<or> dt_tree t = Leaf"
      using inv by (auto simp: dns_inv_def)
    have keys: "port_at ?h = port_at t" using con by (auto simp: fun_eq_iff port_at_def)
    have p: "p \<in> set (inorder (dt_tree t))" using i(2) con(1) by auto
    note r = port_order.remove_ok [OF i(1) p]
    have "\<forall>q\<in>set (inorder (dt_tree ?t)). port_at t q = port_at ?t q"
      using r(2) by (simp add: keys port_at_def)
    then have b: "port_order.bst (port_at ?t) (dt_tree ?t)"
      using r(1) port_order.bst_cong [of "dt_tree ?t" "port_at t" "port_at ?t"] keys by simp
    have d: "set (inorder (dt_tree ?t)) = dom (dt_heap ?t)" using r(2) i(2) keys by simp
    have c: "\<forall>con\<in>ran (dt_heap ?t). 1 \<le> dc_count con" using i(3) by (auto simp: ran_def)
    have "dt_tree t \<noteq> Leaf" using p by auto
    then have "dt_init ?t" using i(4) by simp
    then have inv': "dns_inv ?t" unfolding dns_inv_def using b d c by blast
    have gone: "find_connection ?t port = None"
    proof (rule ccontr)
      assume "find_connection ?t port \<noteq> None"
      then obtain q where "find_connection ?t port = Some q" by auto
      then have "q \<in> dom (dt_heap ?t)" "port_at ?t q = port" using find_port_iff [OF inv'] by auto
      then show False using others [of q] by (auto simp: port_at_def split: if_splits)
    qed
    have "dns_map ?t k = dns_map t k" if "k \<noteq> port" for k
      by (rule dns_map_eqI [OF inv inv' _ _ that]) (use con in \<open>auto split: if_splits\<close>)
    then have "dns_map ?t = (dns_map t)(port := None)"
      using gone by (auto simp: fun_eq_iff dns_map_def [of ?t port])
    then show ?thesis using inv' t' True by simp
  qed
qed

lemma init_map:
  "dns_inv t \<Longrightarrow> \<not> dt_init t \<Longrightarrow> dns_inv (t\<lparr>dt_init := True, dt_tree := BAVL_Init\<rparr>) \<and>
     dns_map (t\<lparr>dt_init := True, dt_tree := BAVL_Init\<rparr>) = dns_map t \<and> dns_map t = Map.empty"
  using port_order.bst_Init [of "port_at (t\<lparr>dt_init := True, dt_tree := BAVL_Init\<rparr>)"]
  by (auto simp: dns_inv_def BAVL_Init_def dns_map_def find_connection_def fun_eq_iff)

section \<open>The rewritten packet\<close>

lemma parse_udp4_parts:
  assumes "parse_udp4 q = Some (iph, udph, d)"
  shows "IPV4_GET_VERSION iph = 4" "protocol iph = IPV4_PROTOCOL_UDP" "udp_csum udph = 0"
    "unat (ntoh16 (udp_len udph)) = 8 + length d"
    "28 + length d \<le> unat (ntoh16 (total_length iph))" "unat (ntoh16 (total_length iph)) \<le> length q"
    "unat (ntoh16 (total_length iph)) = 28 + length d \<longrightarrow> IPV4_GET_IHL iph = 5"
proof -
  obtain p udph0 where c: "ipv4_check q = Some (iph, p)" "udp_check p = Some (udph0, d)"
    and u: "udph = udph0\<lparr>udp_csum := 0\<rparr>" and n: "20 \<le> length q" "q ! 9 = IPV4_PROTOCOL_UDP"
    using assms by (auto simp: parse_udp4_def Let_def split: if_splits option.splits prod.splits)
  obtain opts trail where q: "q = ipv4_enc iph @ opts @ p @ trail" and i: "ipv4_packet iph opts p"
    using c(1) unfolding ipv4_check_accepts by blast
  obtain rest where p: "p = udp_enc udph0 @ d @ rest" and l: "unat (ntoh16 (udp_len udph0)) = 8 + length d"
    using c(2) unfolding udp_check_accepts by blast
  have k: "length p = 8 + length d + length rest" using p by simp
  show "IPV4_GET_VERSION iph = 4" using i by (simp add: ipv4_packet_def)
  show "protocol iph = IPV4_PROTOCOL_UDP" using n(2) q by (simp add: nth_append ipv4_enc_protocol)
  show "udp_csum udph = 0" "unat (ntoh16 (udp_len udph)) = 8 + length d" using u l by simp_all
  have i4: "unat (IPV4_GET_IHL iph) * 4 = 20 + length opts"
    "unat (ntoh16 (total_length iph)) = 20 + length opts + length p"
    using i by (simp_all add: ipv4_packet_def)
  show "28 + length d \<le> unat (ntoh16 (total_length iph))" using i4(2) k by simp
  show "unat (ntoh16 (total_length iph)) \<le> length q" using i4(2) q by simp
  show "unat (ntoh16 (total_length iph)) = 28 + length d \<longrightarrow> IPV4_GET_IHL iph = 5"
  proof
    assume "unat (ntoh16 (total_length iph)) = 28 + length d"
    then have "unat (IPV4_GET_IHL iph) = unat (5 :: byte)" using i4 k by simp
    then show "IPV4_GET_IHL iph = 5" by (simp only: word_unat_eq_iff)
  qed
qed

lemma dns_packet_parses:
  assumes "parse_udp4 q = Some (iph0, udph0, d)"
    "version4_ihl4 iph = version4_ihl4 iph0" "total_length iph = total_length iph0" "protocol iph = protocol iph0"
    "udp_len udph = udp_len udph0"
  shows "parse_udp4 (dns_packet iph udph d) =
    (if unat (ntoh16 (total_length iph0)) = 28 + length d
     then Some (iph\<lparr>ip_checksum := ipv4_checksum (iph\<lparr>ip_checksum := 0\<rparr>) []\<rparr>, udph\<lparr>udp_csum := 0\<rparr>, d) else None)"
proof -
  note h = parse_udp4_parts [OF assms(1)]
  define i where "i = iph\<lparr>ip_checksum := ipv4_checksum (iph\<lparr>ip_checksum := 0\<rparr>) []\<rparr>"
  define u where "u = udph\<lparr>udp_csum := udp_checksum (udph\<lparr>udp_csum := 0\<rparr>) d (of_nat (length d))
    (source_address iph) (destination_address iph)\<rparr>"
  have pkt: "dns_packet iph udph d = ipv4_enc i @ udp_enc u @ d"
    by (simp add: dns_packet_def i_def u_def Let_def)
  have hv: "IPV4_GET_VERSION i = 4" "IPV4_GET_IHL i = IPV4_GET_IHL iph0" "total_length i = total_length iph0"
    using h(1) assms(2,3) by (simp_all add: i_def IPV4_GET_VERSION_def IPV4_GET_IHL_def)
  have sel: "i\<lparr>ip_checksum := 0\<rparr> = iph\<lparr>ip_checksum := 0\<rparr>" "u\<lparr>udp_csum := 0\<rparr> = udph\<lparr>udp_csum := 0\<rparr>"
    "source_address i = source_address iph" "destination_address i = destination_address iph"
    "udp_len u = udp_len udph0" "protocol i = IPV4_PROTOCOL_UDP"
    using assms(4,5) h(2) by (simp_all add: i_def u_def)
  show ?thesis
  proof (cases "unat (ntoh16 (total_length iph0)) = 28 + length d")
    case True
    have "parse_udp4 (ipv4_enc i @ udp_enc u @ d) = Some (i, u\<lparr>udp_csum := 0\<rparr>, d)"
      by (rule written_udp4_parses) (use True h hv sel in \<open>simp_all add: i_def u_def\<close>)
    then show ?thesis using True pkt sel by (simp add: i_def)
  next
    case False
    then have "28 + length d < unat (ntoh16 (total_length i))" using h(5) hv(3) by simp
    then have "ipv4_check (ipv4_enc i @ udp_enc u @ d) = None"
      by (simp add: ipv4_check_def ipv4.dec_enc Let_def)
    then show ?thesis using False pkt by (simp add: parse_udp4_def)
  qed
qed

section \<open>What the interception does to a datagram\<close>

text \<open>
  The interception on endpoints: where a datagram from \<open>src\<close> to \<open>dst\<close> is sent on, and the map from
  source ports to who asked whom and how many answers are awaited.
\<close>

definition nat_spec :: "tun_config \<Rightarrow> baddr \<Rightarrow> baddr \<Rightarrow> (u16 \<rightharpoonup> baddr \<times> baddr \<times> int) \<Rightarrow>
    (baddr \<times> baddr) option \<times> (u16 \<rightharpoonup> baddr \<times> baddr \<times> int)" where
  "nat_spec cfg src dst m =
     (if v4_port dst = hton16 53 then
        (Some (Addr_V4 (netif_ip cfg) (v4_port src), Addr_V4 (dnsgw_ip cfg) (dnsgw_port cfg)),
         m(v4_port src \<mapsto> (case m (v4_port src) of None \<Rightarrow> (src, dst, 1) | Some (l, r, n) \<Rightarrow> (l, r, n + 1))))
      else if v4_port src = dnsgw_port cfg then
        (case m (v4_port dst) of
           None \<Rightarrow> (None, m)
         | Some (l, r, n) \<Rightarrow>
             (Some (Addr_V4 (v4_ip r) (v4_port r), Addr_V4 (v4_ip l) (v4_port dst)),
              m(v4_port dst := (if n \<le> 1 then None else Some (l, r, n - 1)))))
      else (None, m))"

lemma datagram_of_dns_packet:
  assumes "parse_udp4 q = Some (iph0, udph0, d)" "unat (ntoh16 (total_length iph0)) = 28 + length d"
    "version4_ihl4 iph = version4_ihl4 iph0" "total_length iph = total_length iph0" "protocol iph = protocol iph0"
    "udp_len udph = udp_len udph0"
  shows "datagram_of (dns_packet iph udph d) = Some (Addr_V4 (source_address iph) (source_port udph),
    Addr_V4 (destination_address iph) (dest_port udph), d)"
proof -
  have "IPV4_GET_VERSION iph = 4"
    using parse_udp4_parts(1) [OF assms(1)] assms(3) by (simp add: IPV4_GET_VERSION_def)
  then have "ip_version (dns_packet iph udph d) = 4"
    by (simp add: dns_packet_def Let_def ip_version_ipv4 IPV4_GET_VERSION_def)
  then show ?thesis
    using dns_packet_parses [OF assms(1,3-6)] assms(2) by (simp add: datagram_of_def)
qed

lemma dns_refines:
  assumes inv: "dns_inv t" and fresh: "dt_heap t m = None" and gw: "opt_dnsgw cfg"
    and v4: "ip_version q = 4" and p: "parse_udp4 q = Some (iph, udph, d)"
    and src: "src = Addr_V4 (source_address iph) (source_port udph)"
    and dst: "dst = Addr_V4 (destination_address iph) (dest_port udph)"
    and run: "process_device_dns_packet cfg m q t = (out, t')"
  shows "dns_inv t' \<and> dns_map t' = snd (nat_spec cfg src dst (dns_map t)) \<and>
    (out = None \<longleftrightarrow> fst (nat_spec cfg src dst (dns_map t)) = None) \<and>
    (unat (ntoh16 (total_length iph)) = 28 + length d \<longrightarrow>
      rel_option (\<lambda>pkt (s, e). datagram_of pkt = Some (s, e, d)) out (fst (nat_spec cfg src dst (dns_map t))))"
proof (cases "dest_port udph = hton16 53")
  case True
  let ?t = "if \<not> dt_init t then t\<lparr>dt_init := True, dt_tree := BAVL_Init\<rparr> else t"
  have t: "dns_inv ?t" "dns_map ?t = dns_map t" "dt_heap ?t m = None" "dt_init ?t"
    using inv init_map [OF inv] fresh by auto
  note i = insert_map [OF t(1,3,4), of src dst "source_port udph", unfolded t(2)]
  have t': "t' = insert_connection m src dst (source_port udph) ?t"
    and out: "out = Some (dns_packet (iph\<lparr>destination_address := dnsgw_ip cfg, source_address := netif_ip cfg\<rparr>)
      (udph\<lparr>dest_port := dnsgw_port cfg\<rparr>) d)"
    using run True gw v4 p src dst by (auto simp: process_device_dns_packet_def Let_def)
  have spec: "nat_spec cfg src dst (dns_map t) =
      (Some (Addr_V4 (netif_ip cfg) (source_port udph), Addr_V4 (dnsgw_ip cfg) (dnsgw_port cfg)),
       (dns_map t)(source_port udph \<mapsto> (case dns_map t (source_port udph) of
          None \<Rightarrow> (src, dst, 1) | Some (l, r, n) \<Rightarrow> (l, r, n + 1))))"
    unfolding nat_spec_def src dst using True by simp
  show ?thesis
    unfolding spec out t' using i datagram_of_dns_packet [OF p] by simp
next
  case False
  show ?thesis
  proof (cases "source_port udph = dnsgw_port cfg \<and> dt_init t")
    case True
    show ?thesis
    proof (cases "find_connection t (dest_port udph)")
      case None
      then have "dns_map t (dest_port udph) = None" by (simp add: dns_map_def)
      moreover have "out = None" "t' = t"
        using run True False gw v4 p None by (auto simp: process_device_dns_packet_def Let_def)
      ultimately show ?thesis using True False src dst inv by (simp add: nat_spec_def)
    next
      case (Some a)
      define con where "con = the (dt_heap t a)"
      have e: "dns_map t (dest_port udph) = Some (dc_local con, dc_remote con, dc_count con)"
        using Some by (simp add: dns_map_def con_def Let_def)
      have "t' = remove_connection a t"
        and "out = Some (dns_packet (iph\<lparr>source_address := v4_ip (dc_remote con),
          destination_address := v4_ip (dc_local con)\<rparr>) (udph\<lparr>source_port := v4_port (dc_remote con)\<rparr>) d)"
        using run True False gw v4 p Some by (auto simp: process_device_dns_packet_def Let_def con_def)
      then show ?thesis
        using remove_map [OF inv Some e] e True False src dst datagram_of_dns_packet [OF p]
        by (simp add: nat_spec_def)
    qed
  next
    case declined: False
    then have "nat_spec cfg src dst (dns_map t) = (None, dns_map t)"
      using False src dst init_map [OF inv] by (auto simp: nat_spec_def)
    moreover have "out = None \<and> t' = t"
      using run declined False gw v4 p by (auto simp: process_device_dns_packet_def Let_def split: if_splits)
    ultimately show ?thesis using inv by simp
  qed
qed

text \<open>The tables the program gets to: a static, zeroed table, and the packets read from the device.\<close>

inductive dns_reach :: "tun_config \<Rightarrow> dns_table \<Rightarrow> bool" for cfg where
  start: "dns_reach cfg \<lparr>dt_heap = Map.empty, dt_tree = Leaf, dt_init = False\<rparr>"
| packet: "dns_reach cfg t \<Longrightarrow> dt_heap t m = None \<Longrightarrow> dns_reach cfg (snd (process_device_dns_packet cfg m q t))"

lemma dns_start_inv: "dns_inv \<lparr>dt_heap = Map.empty, dt_tree = Leaf, dt_init = False\<rparr>"
  using port_order.bst_Init by (simp add: dns_inv_def BAVL_Init_def)

lemma dns_reach_inv: "dns_reach cfg t \<Longrightarrow> dns_inv t"
proof (induction rule: dns_reach.induct)
  case (packet t m q)
  show ?case
  proof (cases "opt_dnsgw cfg \<and> ip_version q = 4 \<and> parse_udp4 q \<noteq> None")
    case True
    then obtain iph udph d where "parse_udp4 q = Some (iph, udph, d)" by auto
    then show ?thesis
      using dns_refines [OF packet.IH packet.hyps(2) _ _ _ refl refl, of cfg q iph udph d] True
      by (metis prod.collapse)
  next
    case False
    then show ?thesis using packet.IH by (auto simp: process_device_dns_packet_def split: option.splits)
  qed
qed (rule dns_start_inv)

lemma dns_refines_datagram:
  assumes "dns_reach cfg t" "dt_heap t m = None" "opt_dnsgw cfg" "ip_version q = 4"
    "datagram_of q = Some (src, dst, d)" "length q = 28 + length d"
    "process_device_dns_packet cfg m q t = (out, t')"
  shows "dns_reach cfg t' \<and> dns_map t' = snd (nat_spec cfg src dst (dns_map t)) \<and>
    rel_option (\<lambda>pkt (s, e). datagram_of pkt = Some (s, e, d)) out (fst (nat_spec cfg src dst (dns_map t)))"
proof -
  obtain iph udph where p: "parse_udp4 q = Some (iph, udph, d)"
    and src: "src = Addr_V4 (source_address iph) (source_port udph)"
    and dst: "dst = Addr_V4 (destination_address iph) (dest_port udph)"
    using assms(4,5) by (auto simp: datagram_of_def)
  have "unat (ntoh16 (total_length iph)) = 28 + length d"
    using parse_udp4_parts(5,6) [OF p] assms(6) by simp
  moreover have "dns_reach cfg t'" using packet [OF assms(1,2), of q] assms(7) by simp
  ultimately show ?thesis
    using dns_refines [OF dns_reach_inv [OF assms(1)] assms(2-4) p src dst assms(7)] by blast
qed

section \<open>Properties\<close>

text \<open>C25. DNS interception refines address translation on a finite map: in every reachable table, a datagram
  without IP options or trailing bytes that the handler takes leaves readdressed as the map prescribes
  with its data unchanged and all lengths and checksums correct, one it declines is declined by the map,
  and the tree of heap nodes keeps standing for the map.\<close>

theorem dns_nat_refines_map:
  assumes "dns_reach cfg t" "dt_heap t m = None" "opt_dnsgw cfg" "ip_version q = 4"
    "datagram_of q = Some (src, dst, d)" "length q = 28 + length d"
    "process_device_dns_packet cfg m q t = (out, t')"
  shows "dns_map t' = snd (nat_spec cfg src dst (dns_map t)) \<and>
    rel_option (\<lambda>pkt (s, e). datagram_of pkt = Some (s, e, d)) out (fst (nat_spec cfg src dst (dns_map t)))"
  using dns_refines_datagram [OF assms] by blast

text \<open>A request and an answer of the resolver, as the other side would write them.\<close>

definition ex_request :: "byte list" where
  "ex_request = the (udpgw_client_handler_received ex_cfg (Addr_V4 0x08080808 (hton16 53)) (Addr_V4 0x0300000A 7) [1, 2, 3])"

definition ex_answer :: "byte list" where
  "ex_answer = the (udpgw_client_handler_received ex_cfg (Addr_V4 0x0100000A 7) (Addr_V4 0x0200000A 0xD91F) [4])"

abbreviation dns_start :: dns_table where
  "dns_start \<equiv> \<lparr>dt_heap = Map.empty, dt_tree = Leaf, dt_init = False\<rparr>"

lemma written_v4:
  assumes "int (length d) + 28 \<le> device_mtu cfg" "length d \<le> 65507"
  shows "let q = the (udpgw_client_handler_received cfg (Addr_V4 a p) (Addr_V4 b r) d) in
    ip_version q = 4 \<and> length q = 28 + length d \<and> datagram_of q = Some (Addr_V4 b r, Addr_V4 a p, d)"
proof -
  obtain q where q: "udpgw_client_handler_received cfg (Addr_V4 a p) (Addr_V4 b r) d = Some q"
    using assms by (auto simp: udpgw_client_handler_received_def Let_def)
  have d: "datagram_of q = Some (Addr_V4 b r, Addr_V4 a p, d)" using received_datagram [OF q] by simp
  have l: "length q = 28 + length d"
    using q by (auto simp: udpgw_client_handler_received_def Let_def split: if_splits)
  have "ip_version q = 4" using d by (auto simp: datagram_of_def split: if_splits)
  then show ?thesis using d l q by simp
qed

lemma insert_heap:
  "dns_inv t \<Longrightarrow> dom (dt_heap (insert_connection m l r port t)) \<subseteq> insert m (dom (dt_heap t))"
  by (auto simp: insert_connection_def Let_def find_port_iff split: option.splits if_splits)

lemma remove_heap:
  "dns_inv t \<Longrightarrow> find_connection t port = Some p \<Longrightarrow> dom (dt_heap (remove_connection p t)) \<subseteq> dom (dt_heap t)"
  by (auto simp: remove_connection_def Let_def find_port_iff split: if_splits)

lemma dns_heap_grows:
  assumes "dns_reach cfg t" "process_device_dns_packet cfg m q t = (out, t')"
  shows "dom (dt_heap t') \<subseteq> insert m (dom (dt_heap t))"
proof -
  note inv = dns_reach_inv [OF assms(1)]
  have 1: "dom (dt_heap (insert_connection m l r port (t\<lparr>dt_init := True, dt_tree := BAVL_Init\<rparr>))) \<subseteq>
      insert m (dom (dt_heap t))" if "\<not> dt_init t" for l r port
    using insert_heap [OF conjunct1 [OF init_map [OF inv that]], of m l r port] by simp
  show ?thesis
  proof (cases "opt_dnsgw cfg \<and> ip_version q = 4 \<and> parse_udp4 q \<noteq> None")
    case True
    then obtain iph udph d where p: "opt_dnsgw cfg" "ip_version q = 4" "parse_udp4 q = Some (iph, udph, d)" by auto
    show ?thesis
    proof (cases "dest_port udph = hton16 53")
      case True
      then show ?thesis using assms(2) p 1 insert_heap [OF inv, of m]
        by (cases "dt_init t") (simp add: process_device_dns_packet_def Let_def, blast)+
    next
      case False
      then have "t' = t \<or> (\<exists>a. find_connection t (dest_port udph) = Some a \<and> t' = remove_connection a t)"
        using assms(2) p
        by (auto simp: process_device_dns_packet_def Let_def split: if_splits option.splits)
      then show ?thesis using remove_heap [OF inv] by blast
    qed
  next
    case False
    then show ?thesis using assms(2) by (auto simp: process_device_dns_packet_def split: if_splits option.splits)
  qed
qed

lemma ex_dns_packets:
  "ip_version ex_request = 4" "length ex_request = 28 + length ([1, 2, 3] :: byte list)"
  "datagram_of ex_request = Some (Addr_V4 0x0300000A 7, Addr_V4 0x08080808 (hton16 53), [1, 2, 3])"
  "ip_version ex_answer = 4" "length ex_answer = 28 + length ([4] :: byte list)"
  "datagram_of ex_answer = Some (Addr_V4 0x0200000A 0xD91F, Addr_V4 0x0100000A 7, [4])"
  using written_v4 [of "[1, 2, 3]" ex_cfg] written_v4 [of "[4]" ex_cfg]
  by (simp_all add: ex_request_def ex_answer_def ex_cfg_def Let_def)

lemma dns_nat_refines_map_witness:
  "\<exists>pkt t'. process_device_dns_packet ex_cfg 0 ex_request dns_start = (Some pkt, t') \<and>
     datagram_of pkt = Some (Addr_V4 0x0100000A 7, Addr_V4 0x0200000A 0xD91F, [1, 2, 3]) \<and>
     dns_map t' 7 = Some (Addr_V4 0x0300000A 7, Addr_V4 0x08080808 (hton16 53), 1)"
proof -
  obtain out t' where run: "process_device_dns_packet ex_cfg 0 ex_request dns_start = (out, t')" by fastforce
  have "dns_map dns_start = Map.empty" by (simp add: dns_map_def find_connection_def fun_eq_iff)
  then show ?thesis
    using dns_nat_refines_map [OF start _ _ ex_dns_packets(1,3,2) run] run
    by (cases out) (simp_all add: nat_spec_def ex_cfg_def)
qed

text \<open>C26. A DNS request and its answer: from any reachable table with no request outstanding on the port, a
  request is sent on to the DNS gateway from the program's own address, and the gateway's answer to that
  port comes back to the requester from the server and port it had asked, data unchanged both ways, after
  which the table holds what it held before. (Source port 53 is excepted: its answers count as requests.)\<close>

theorem dns_request_answered:
  assumes "dns_reach cfg t" "opt_dnsgw cfg" "lport \<noteq> hton16 53" "dns_map t lport = None"
    "ip_version q = 4" "datagram_of q = Some (Addr_V4 lip lport, Addr_V4 server (hton16 53), d)" "length q = 28 + length d"
    "ip_version a = 4" "datagram_of a = Some (Addr_V4 x (dnsgw_port cfg), Addr_V4 y lport, e)" "length a = 28 + length e"
    "dt_heap t m = None" "process_device_dns_packet cfg m q t = (out, t1)"
    "dt_heap t1 m' = None" "process_device_dns_packet cfg m' a t1 = (out', t2)"
  shows "\<exists>pkt pkt'. out = Some pkt \<and> out' = Some pkt' \<and> dns_map t2 = dns_map t \<and>
    datagram_of pkt = Some (Addr_V4 (netif_ip cfg) lport, Addr_V4 (dnsgw_ip cfg) (dnsgw_port cfg), d) \<and>
    datagram_of pkt' = Some (Addr_V4 server (hton16 53), Addr_V4 lip lport, e)"
proof -
  note 1 = dns_refines_datagram [OF assms(1,11,2,5,6,7,12)]
  then have "dns_reach cfg t1" by blast
  note 2 = dns_refines_datagram [OF this assms(13,2,8,9,10,14)]
  have m: "dns_map t1 = (dns_map t)(lport \<mapsto> (Addr_V4 lip lport, Addr_V4 server (hton16 53), 1))"
    using 1 assms(4) by (simp add: nat_spec_def)
  show ?thesis
    using 1 2 m assms(3,4) by (cases out; cases out') (auto simp: nat_spec_def fun_eq_iff)
qed

lemma dns_request_answered_witness:
  "\<exists>pkt pkt' t1 t2. process_device_dns_packet ex_cfg 0 ex_request dns_start = (Some pkt, t1) \<and>
     process_device_dns_packet ex_cfg 1 ex_answer t1 = (Some pkt', t2) \<and>
     datagram_of pkt' = Some (Addr_V4 0x08080808 (hton16 53), Addr_V4 0x0300000A 7, [4])"
proof -
  obtain out t1 where r1: "process_device_dns_packet ex_cfg 0 ex_request dns_start = (out, t1)" by fastforce
  obtain out' t2 where r2: "process_device_dns_packet ex_cfg 1 ex_answer t1 = (out', t2)" by fastforce
  have gw: "opt_dnsgw ex_cfg" "dnsgw_port ex_cfg = 0xD91F" by (simp_all add: ex_cfg_def)
  have "hton16 53 = 0x3500" by code_simp
  then have p: "(7 :: u16) \<noteq> hton16 53" by simp
  have none: "dns_map dns_start 7 = None" by (simp add: dns_map_def find_connection_def)
  have f: "dt_heap t1 1 = None" using dns_heap_grows [OF start r1] by auto
  show ?thesis
    using dns_request_answered [OF start gw(1) p none ex_dns_packets(1,3,2,4) ex_dns_packets(6) [folded gw(2)]
        ex_dns_packets(5) _ r1 f r2] r1 r2 by auto
qed

text \<open>C34. The rewritten packet keeps the received header but not what followed it: it is a valid packet exactly
  when the received one had neither IP options nor bytes after the datagram. Otherwise the packet sent
  announces more bytes than it has, and the checks the program applies to packets reject it.\<close>

theorem dns_rewrite_valid_iff:
  assumes "parse_udp4 q = Some (iph, udph, d)" "process_device_dns_packet cfg m q t = (Some pkt, t')"
  shows "length pkt = 28 + length d \<and>
    (parse_udp4 pkt \<noteq> None \<longleftrightarrow> unat (ntoh16 (total_length iph)) = length pkt)"
proof -
  obtain iph' udph' where pkt: "pkt = dns_packet iph' udph' d"
    and same: "version4_ihl4 iph' = version4_ihl4 iph" "total_length iph' = total_length iph"
      "protocol iph' = protocol iph" "udp_len udph' = udp_len udph"
    using assms(2) unfolding process_device_dns_packet_def assms(1) Let_def
    by (auto split: if_splits option.splits)
  have "length pkt = 28 + length d" by (simp add: pkt dns_packet_def Let_def)
  then show ?thesis using dns_packet_parses [OF assms(1) same] by (simp add: pkt)
qed

definition ex_opt_iph :: ipv4_header where
  "ex_opt_iph = (let h = \<lparr>version4_ihl4 = 0x46, ds = 0, total_length = hton16 32, identification = 0,
     flags3_fragmentoffset13 = 0, ttl = 64, protocol = IPV4_PROTOCOL_UDP, ip_checksum = 0,
     source_address = 0x0300000A, destination_address = 0x08080808\<rparr>
   in h\<lparr>ip_checksum := ipv4_checksum h [1, 1, 1, 1]\<rparr>)"

definition ex_opt_udph :: udp_header where
  "ex_opt_udph = \<lparr>source_port = 7, dest_port = hton16 53, udp_len = hton16 8, udp_csum = 0\<rparr>"

definition ex_opt_request :: "byte list" where
  "ex_opt_request = ipv4_enc ex_opt_iph @ [1, 1, 1, 1] @
     udp_enc (ex_opt_udph\<lparr>udp_csum := udp_checksum ex_opt_udph [] 0 0x0300000A 0x08080808\<rparr>)"

lemma ex_opt_parses: "parse_udp4 ex_opt_request = Some (ex_opt_iph, ex_opt_udph, [])" "ip_version ex_opt_request = 4"
proof -
  let ?u = "ex_opt_udph\<lparr>udp_csum := udp_checksum ex_opt_udph [] 0 0x0300000A 0x08080808\<rparr>"
  have v: "IPV4_GET_VERSION ex_opt_iph = 4" "unat (IPV4_GET_IHL ex_opt_iph) = 6"
    by (simp_all add: ex_opt_iph_def Let_def IPV4_GET_VERSION_def IPV4_GET_IHL_def)
  have "ipv4_packet ex_opt_iph [1, 1, 1, 1] (udp_enc ?u)"
    using v by (simp add: ipv4_packet_def) (simp add: ex_opt_iph_def Let_def)
  then have "ipv4_check ex_opt_request = Some (ex_opt_iph, udp_enc ?u)"
    unfolding ipv4_check_accepts ex_opt_request_def by (intro exI [of _ "[1, 1, 1, 1]"] exI [of _ "[]"]) simp
  moreover have "udp_check (udp_enc ?u) = Some (?u, [])"
    unfolding udp_check_accepts by (intro exI [of _ "[]"]) (simp add: ex_opt_udph_def)
  ultimately show "parse_udp4 ex_opt_request = Some (ex_opt_iph, ex_opt_udph, [])"
    by (simp add: parse_udp4_def nth_append ipv4_enc_protocol ex_opt_request_def Let_def)
      (simp add: ex_opt_iph_def ex_opt_udph_def Let_def)
  show "ip_version ex_opt_request = 4" unfolding ex_opt_request_def by (rule ip_version_ipv4 [OF v(1)])
qed

lemma dns_rewrite_valid_iff_witness:
  "\<exists>pkt t'. process_device_dns_packet ex_cfg 0 ex_opt_request dns_start = (Some pkt, t') \<and> parse_udp4 pkt = None"
proof -
  have "\<exists>pkt t'. process_device_dns_packet ex_cfg 0 ex_opt_request dns_start = (Some pkt, t')"
    using ex_opt_parses by (simp add: process_device_dns_packet_def Let_def ex_cfg_def ex_opt_udph_def)
  then obtain pkt t' where run: "process_device_dns_packet ex_cfg 0 ex_opt_request dns_start = (Some pkt, t')" by blast
  have "unat (ntoh16 (total_length ex_opt_iph)) = 32" by (simp add: ex_opt_iph_def Let_def)
  then have "parse_udp4 pkt = None" using dns_rewrite_valid_iff [OF ex_opt_parses(1) run] by (cases "parse_udp4 pkt") auto
  then show ?thesis using run by blast
qed

text \<open>C35. While a request is unanswered, its entry is what answers to its source port use, whoever asks next
  from that port: a second request to another server is answered in the name of the first one's server,
  and to the first one's address. Entries of requests that are never answered stay for good.\<close>

theorem dns_entry_outlives_request:
  assumes "dns_reach cfg t" "opt_dnsgw cfg" "lport \<noteq> hton16 53"
    "dns_map t lport = Some (Addr_V4 lip lport', Addr_V4 server sport, n)"
    "ip_version q = 4" "datagram_of q = Some (Addr_V4 lip2 lport, Addr_V4 server2 (hton16 53), d)" "length q = 28 + length d"
    "ip_version a = 4" "datagram_of a = Some (Addr_V4 x (dnsgw_port cfg), Addr_V4 y lport, e)" "length a = 28 + length e"
    "dt_heap t m = None" "process_device_dns_packet cfg m q t = (out, t1)"
    "dt_heap t1 m' = None" "process_device_dns_packet cfg m' a t1 = (out', t2)"
  shows "\<exists>pkt'. out' = Some pkt' \<and> datagram_of pkt' = Some (Addr_V4 server sport, Addr_V4 lip lport, e) \<and>
    dns_map t2 = dns_map t"
proof -
  note 1 = dns_refines_datagram [OF assms(1,11,2,5,6,7,12)]
  then have "dns_reach cfg t1" by blast
  note 2 = dns_refines_datagram [OF this assms(13,2,8,9,10,14)]
  have m: "dns_map t1 = (dns_map t)(lport \<mapsto> (Addr_V4 lip lport', Addr_V4 server sport, n + 1))"
    using 1 assms(4) by (simp add: nat_spec_def)
  have "1 \<le> n"
    using dns_reach_inv [OF assms(1)] assms(4) find_port_iff [OF dns_reach_inv [OF assms(1)]]
    by (fastforce simp: dns_map_def dns_inv_def ran_def Let_def)
  then show ?thesis
    using 2 m assms(3,4) by (cases out') (auto simp: nat_spec_def fun_eq_iff)
qed

definition ex_request2 :: "byte list" where
  "ex_request2 = the (udpgw_client_handler_received ex_cfg (Addr_V4 0x01010101 (hton16 53)) (Addr_V4 0x0300000A 7) [5])"

lemma dns_entry_outlives_request_witness:
  "let t = snd (process_device_dns_packet ex_cfg 0 ex_request dns_start);
       t1 = snd (process_device_dns_packet ex_cfg 1 ex_request2 t);
       out = fst (process_device_dns_packet ex_cfg 2 ex_answer t1)
   in \<exists>pkt. out = Some pkt \<and> datagram_of pkt = Some (Addr_V4 0x08080808 (hton16 53), Addr_V4 0x0300000A 7, [4])"
proof -
  obtain out t where r: "process_device_dns_packet ex_cfg 0 ex_request dns_start = (out, t)" by fastforce
  obtain out1 t1 where r1: "process_device_dns_packet ex_cfg 1 ex_request2 t = (out1, t1)" by fastforce
  obtain out2 t2 where r2: "process_device_dns_packet ex_cfg 2 ex_answer t1 = (out2, t2)" by fastforce
  have gw: "opt_dnsgw ex_cfg" "dnsgw_port ex_cfg = 0xD91F" by (simp_all add: ex_cfg_def)
  have "hton16 53 = 0x3500" by code_simp
  then have p: "(7 :: u16) \<noteq> hton16 53" by simp
  have q2: "ip_version ex_request2 = 4" "length ex_request2 = 28 + length ([5] :: byte list)"
    "datagram_of ex_request2 = Some (Addr_V4 0x0300000A 7, Addr_V4 0x01010101 (hton16 53), [5])"
    using written_v4 [of "[5]" ex_cfg] by (simp_all add: ex_request2_def ex_cfg_def Let_def)
  have "dns_map dns_start = Map.empty" by (simp add: dns_map_def find_connection_def fun_eq_iff)
  then have t: "dns_reach ex_cfg t" "dns_map t 7 = Some (Addr_V4 0x0300000A 7, Addr_V4 0x08080808 (hton16 53), 1)"
    using dns_refines_datagram [OF start _ gw(1) ex_dns_packets(1,3,2) r] by (simp_all add: nat_spec_def)
  have heap: "dt_heap t 1 = None" "dt_heap t1 2 = None"
    using dns_heap_grows [OF start r] dns_heap_grows [OF t(1) r1] by fastforce+
  show ?thesis
    using dns_entry_outlives_request [OF t(1) gw(1) p t(2) q2(1,3,2) ex_dns_packets(4) ex_dns_packets(6) [folded gw(2)]
        ex_dns_packets(5) heap(1) r1 heap(2) r2] r r1 r2 by auto
qed

end
