(* ===== verification/Tcp_Client.thy ===== *)
theory Tcp_Client
  imports Socks_Client
begin

text \<open>
  A TCP connection of the device relayed over SOCKS (\<open>struct tcp_client\<close> and its handlers in
  \<open>tun2socks/tun2socks.c\<close>). lwIP, which ends the device's connection, is outside: which callbacks are
  installed on its control block (pcb) and whether the pcb is still this client's are fields, the results
  of its functions are the parameter \<open>lwip\<close>, and what is handed to it is logged. A call on a pcb that is gone, an
  abort that would call back into the client, an assertion of the code that fails, and any use of a freed
  client is \<open>None\<close>. \<open>SYNC_COMMIT\<close> runs jobs that are handlers themselves; they are the handlers that follow,
  since after it the callers change nothing.
\<close>

section \<open>State\<close>

abbreviation TCP_WND :: nat where "TCP_WND \<equiv> 65535"
abbreviation CLIENT_SOCKS_RECV_BUF_SIZE :: nat where "CLIENT_SOCKS_RECV_BUF_SIZE \<equiv> 8192"

datatype lwip_err = ERR_OK | ERR_MEM | ERR_ABRT | ERR_other

datatype tcp_effect = Written "byte list" | Recved nat | Closed | Aborted | Socks_freed

text \<open>
  \<open>tc_buf\<close> and \<open>tc_recv_buf\<close> are the used parts of the two buffers. \<open>tc_sending\<close> is the length of the send
  in progress on the SOCKS connection (0 for none), \<open>tc_receiving\<close> whether a receive is.
\<close>

record tcp_client =
  tc_local_addr :: baddr
  tc_remote_addr :: baddr
  tc_client_closed :: bool
  tc_buf :: "byte list"
  tc_socks_up :: bool
  tc_socks_closed :: bool
  tc_recv_buf :: "byte list"
  tc_recv_used :: int
  tc_recv_sent :: int
  tc_recv_waiting :: bool
  tc_recv_pending :: int
  tc_pcb :: bool
  tc_cb_err :: bool
  tc_cb_recv :: bool
  tc_cb_sent :: bool
  tc_sending :: nat
  tc_receiving :: bool
  tc_freed :: bool
  tc_log :: "tcp_effect list"

text \<open>
  lwIP's answers during one handler: the free send buffer and the result of \<open>tcp_write\<close> when so many bytes of
  the buffer have been written, and the results of \<open>tcp_output\<close> and \<open>tcp_close\<close>.
\<close>

record lwip =
  lw_sndbuf :: "int \<Rightarrow> u16"
  lw_write :: "int \<Rightarrow> lwip_err"
  lw_output :: lwip_err
  lw_close :: lwip_err

definition assert_that :: "bool \<Rightarrow> unit option" where
  "assert_that b = (if b then Some () else None)"

definition logged :: "tcp_effect \<Rightarrow> tcp_client \<Rightarrow> tcp_client" where
  "logged e cl = cl\<lparr>tc_log := tc_log cl @ [e]\<rparr>"

section \<open>Calls to lwIP and to the SOCKS client\<close>

definition pcb_gone :: "tcp_client \<Rightarrow> tcp_client" where
  "pcb_gone cl = cl\<lparr>tc_pcb := False, tc_cb_err := False, tc_cb_recv := False, tc_cb_sent := False\<rparr>"

definition remove_callbacks :: "tcp_client \<Rightarrow> tcp_client option" where
  "remove_callbacks cl = do {
     assert_that (tc_pcb cl);
     Some (cl\<lparr>tc_cb_err := False, tc_cb_recv := False, tc_cb_sent := False\<rparr>) }"

text \<open>\<open>tcp_abort\<close> calls the error callback, if there is one.\<close>

definition tcp_abort :: "tcp_client \<Rightarrow> tcp_client option" where
  "tcp_abort cl = do {
     assert_that (tc_pcb cl \<and> \<not> tc_cb_err cl);
     Some (logged Aborted (pcb_gone cl)) }"

text \<open>After \<open>tcp_close\<close> lwIP keeps the pcb for a while, and would use callbacks left on it.\<close>

definition tcp_close :: "tcp_client \<Rightarrow> tcp_client option" where
  "tcp_close cl = do {
     assert_that (tc_pcb cl);
     Some (logged Closed (cl\<lparr>tc_pcb := False\<rparr>)) }"

definition tcp_recved :: "nat \<Rightarrow> tcp_client \<Rightarrow> tcp_client option" where
  "tcp_recved n cl = do { assert_that (tc_pcb cl); Some (logged (Recved n) cl) }"

definition socks_free :: "tcp_client \<Rightarrow> tcp_client" where
  "socks_free cl = logged Socks_freed (cl\<lparr>tc_sending := 0, tc_receiving := False\<rparr>)"

section \<open>Closing\<close>

definition client_dealloc :: "tcp_client \<Rightarrow> tcp_client option" where
  "client_dealloc cl = do {
     assert_that (tc_client_closed cl \<and> tc_socks_closed cl \<and> \<not> tc_freed cl);
     Some (cl\<lparr>tc_freed := True\<rparr>) }"

text \<open>
  \<open>client_free_socks\<close> and \<open>client_handle_freed_client\<close> call each other, each at most once; the first
  definitions are the case that the other side is already closed, when the object is deallocated.
\<close>

definition free_socks_closed :: "tcp_client \<Rightarrow> tcp_client option" where
  "free_socks_closed cl = do {
     assert_that (\<not> tc_socks_closed cl \<and> tc_client_closed cl);
     cl \<leftarrow> Some (socks_free cl);
     client_dealloc (cl\<lparr>tc_socks_closed := True\<rparr>) }"

definition client_handle_freed_client :: "tcp_client \<Rightarrow> tcp_client option" where
  "client_handle_freed_client cl = do {
     assert_that (\<not> tc_client_closed cl);
     cl \<leftarrow> Some (cl\<lparr>tc_client_closed := True\<rparr>);
     (if tc_buf cl \<noteq> [] \<and> \<not> tc_socks_closed cl then Some cl
      else if \<not> tc_socks_closed cl then free_socks_closed cl
      else client_dealloc cl) }"

definition client_free_client :: "lwip \<Rightarrow> tcp_client \<Rightarrow> tcp_client option" where
  "client_free_client lw cl = do {
     assert_that (\<not> tc_client_closed cl);
     cl \<leftarrow> remove_callbacks cl;
     cl \<leftarrow> (if lw_close lw = ERR_OK then tcp_close cl else tcp_abort cl);
     client_handle_freed_client cl }"

definition client_abort_client :: "tcp_client \<Rightarrow> tcp_client option" where
  "client_abort_client cl = do {
     assert_that (\<not> tc_client_closed cl);
     cl \<leftarrow> remove_callbacks cl;
     cl \<leftarrow> tcp_abort cl;
     client_handle_freed_client cl }"

definition client_free_socks :: "lwip \<Rightarrow> tcp_client \<Rightarrow> tcp_client option" where
  "client_free_socks lw cl = do {
     assert_that (\<not> tc_socks_closed cl);
     cl \<leftarrow> (if tc_socks_up cl \<and> \<not> tc_client_closed cl
           then do { assert_that (tc_pcb cl); Some (cl\<lparr>tc_cb_recv := False\<rparr>) } else Some cl);
     cl \<leftarrow> Some (socks_free cl);
     cl \<leftarrow> Some (cl\<lparr>tc_socks_closed := True\<rparr>);
     (if tc_socks_up cl \<and> (tc_recv_used cl \<ge> 0 \<or> tc_recv_pending cl > 0) \<and> \<not> tc_client_closed cl then Some cl
      else if \<not> tc_client_closed cl then client_free_client lw cl
      else client_dealloc cl) }"

definition client_murder :: "tcp_client \<Rightarrow> tcp_client option" where
  "client_murder cl = do {
     cl \<leftarrow> (if \<not> tc_client_closed cl then do {
             cl \<leftarrow> remove_callbacks cl;
             cl \<leftarrow> tcp_abort cl;
             Some (cl\<lparr>tc_client_closed := True\<rparr>) }
           else Some cl);
     cl \<leftarrow> (if \<not> tc_socks_closed cl then Some ((socks_free cl)\<lparr>tc_socks_closed := True\<rparr>) else Some cl);
     client_dealloc cl }"

definition client_err_func :: "tcp_client \<Rightarrow> tcp_client option" where
  "client_err_func cl = do { assert_that (\<not> tc_client_closed cl); client_handle_freed_client cl }"

lemma free_socks_closed: "tc_client_closed cl \<Longrightarrow> free_socks_closed cl = client_free_socks lw cl"
  by (simp add: free_socks_closed_def client_free_socks_def socks_free_def logged_def assert_that_def)

section \<open>From the device to SOCKS\<close>

definition client_send_to_socks :: "tcp_client \<Rightarrow> tcp_client option" where
  "client_send_to_socks cl = do {
     assert_that (\<not> tc_socks_closed cl \<and> tc_socks_up cl \<and> tc_buf cl \<noteq> [] \<and> tc_sending cl = 0);
     Some (cl\<lparr>tc_sending := length (tc_buf cl)\<rparr>) }"

text \<open>\<open>p\<close> is \<open>None\<close> when the device closed the connection. The result is the client and the error returned.\<close>

definition client_recv_func :: "lwip \<Rightarrow> byte list option \<Rightarrow> tcp_client \<Rightarrow> (tcp_client \<times> lwip_err) option" where
  "client_recv_func lw p cl = do {
     assert_that (\<not> tc_client_closed cl);
     (case p of
        None \<Rightarrow> do { cl \<leftarrow> client_free_client lw cl; Some (cl, ERR_ABRT) }
      | Some p \<Rightarrow> do {
          assert_that (p \<noteq> []);
          (if length p > TCP_WND - length (tc_buf cl) then Some (cl, ERR_MEM)
           else do {
             cl \<leftarrow> Some (cl\<lparr>tc_buf := tc_buf cl @ p\<rparr>);
             cl \<leftarrow> (if length (tc_buf cl) = length p \<and> tc_socks_up cl then client_send_to_socks cl else Some cl);
             Some (cl, ERR_OK) }) }) }"

definition client_socks_send_handler_done :: "lwip \<Rightarrow> nat \<Rightarrow> tcp_client \<Rightarrow> tcp_client option" where
  "client_socks_send_handler_done lw data_len cl = do {
     assert_that (\<not> tc_socks_closed cl \<and> tc_socks_up cl \<and> tc_buf cl \<noteq> [] \<and> 0 < data_len \<and> data_len \<le> length (tc_buf cl));
     cl \<leftarrow> Some (cl\<lparr>tc_buf := drop data_len (tc_buf cl)\<rparr>);
     cl \<leftarrow> (if \<not> tc_client_closed cl then tcp_recved data_len cl else Some cl);
     (if tc_buf cl \<noteq> [] then Some (cl\<lparr>tc_sending := length (tc_buf cl)\<rparr>)
      else if tc_client_closed cl then client_free_socks lw cl
      else Some cl) }"

section \<open>From SOCKS to the device\<close>

definition client_socks_recv_initiate :: "tcp_client \<Rightarrow> tcp_client option" where
  "client_socks_recv_initiate cl = do {
     assert_that (\<not> tc_client_closed cl \<and> \<not> tc_socks_closed cl \<and> tc_socks_up cl \<and> tc_recv_used cl = - 1 \<and> \<not> tc_receiving cl);
     Some (cl\<lparr>tc_receiving := True\<rparr>) }"

text \<open>The loop of \<open>client_socks_recv_send_out\<close>: the client, or \<open>Inl\<close> when a write failed for good.\<close>

function write_loop :: "lwip \<Rightarrow> tcp_client \<Rightarrow> tcp_client + tcp_client" where
  "write_loop lw cl =
     (let to_write = min (tc_recv_used cl - tc_recv_sent cl) (uint (lw_sndbuf lw (tc_recv_sent cl))) in
      if to_write = 0 then Inr cl
      else if lw_write lw (tc_recv_sent cl) = ERR_MEM then Inr cl
      else if lw_write lw (tc_recv_sent cl) \<noteq> ERR_OK then Inl cl
      else
        let cl = (logged (Written (take (nat to_write) (drop (nat (tc_recv_sent cl)) (tc_recv_buf cl)))) cl)
              \<lparr>tc_recv_sent := tc_recv_sent cl + to_write, tc_recv_pending := tc_recv_pending cl + to_write\<rparr>
        in if tc_recv_sent cl < tc_recv_used cl then write_loop lw cl else Inr cl)"
  by auto
termination
proof (relation "measure (\<lambda>(lw, cl). nat (tc_recv_used cl - tc_recv_sent cl))", goal_cases)
  case (2 lw cl n m)
  moreover obtain k where "uint (lw_sndbuf lw (tc_recv_sent cl)) = int k" by (rule nonneg_int_cases [OF uint_ge_0])
  ultimately show ?case by (auto simp: logged_def min_def split: if_splits)
qed simp

declare write_loop.simps [simp del]

text \<open>The boolean is whether the client was aborted (the code's \<open>-1\<close>).\<close>

definition client_socks_recv_send_out :: "lwip \<Rightarrow> tcp_client \<Rightarrow> (tcp_client \<times> bool) option" where
  "client_socks_recv_send_out lw cl = do {
     assert_that (\<not> tc_client_closed cl \<and> tc_socks_up cl \<and> tc_recv_used cl > 0 \<and>
       tc_recv_sent cl < tc_recv_used cl \<and> \<not> tc_recv_waiting cl \<and> tc_pcb cl);
     (case write_loop lw cl of
        Inl cl \<Rightarrow> map_option (\<lambda>cl. (cl, True)) (client_abort_client cl)
      | Inr cl \<Rightarrow>
          if lw_output lw \<noteq> ERR_OK then map_option (\<lambda>cl. (cl, True)) (client_abort_client cl)
          else if tc_recv_sent cl < tc_recv_used cl then
            (if tc_recv_pending cl = 0 then map_option (\<lambda>cl. (cl, True)) (client_abort_client cl)
             else Some (cl\<lparr>tc_recv_waiting := True\<rparr>, False))
          else Some (cl\<lparr>tc_recv_used := - 1\<rparr>, False)) }"

definition client_socks_recv_handler_done :: "lwip \<Rightarrow> byte list \<Rightarrow> tcp_client \<Rightarrow> tcp_client option" where
  "client_socks_recv_handler_done lw data cl = do {
     assert_that (0 < length data \<and> length data \<le> CLIENT_SOCKS_RECV_BUF_SIZE \<and> \<not> tc_socks_closed cl \<and> tc_socks_up cl \<and>
       tc_recv_used cl = - 1);
     (if tc_client_closed cl then Some cl
      else do {
        (cl, aborted) \<leftarrow> client_socks_recv_send_out lw
           (cl\<lparr>tc_recv_buf := data, tc_recv_used := int (length data), tc_recv_sent := 0, tc_recv_waiting := False\<rparr>);
        (if aborted then Some cl
         else if tc_recv_used cl = - 1 then client_socks_recv_initiate cl
         else Some cl) }) }"

definition client_sent_func :: "lwip \<Rightarrow> nat \<Rightarrow> tcp_client \<Rightarrow> (tcp_client \<times> lwip_err) option" where
  "client_sent_func lw len cl = do {
     assert_that (\<not> tc_client_closed cl \<and> tc_socks_up cl \<and> 0 < len \<and> int len \<le> tc_recv_pending cl);
     cl \<leftarrow> Some (cl\<lparr>tc_recv_pending := tc_recv_pending cl - int len\<rparr>);
     (if tc_recv_used cl > 0 then do {
        assert_that (tc_recv_waiting cl \<and> tc_recv_sent cl < tc_recv_used cl);
        (cl, aborted) \<leftarrow> client_socks_recv_send_out lw (cl\<lparr>tc_recv_waiting := False\<rparr>);
        (if aborted then Some (cl, ERR_ABRT)
         else do {
           assert_that (tc_recv_pending cl > 0);
           cl \<leftarrow> (if tc_recv_used cl = - 1 \<and> \<not> tc_socks_closed cl then client_socks_recv_initiate cl else Some cl);
           Some (cl, ERR_OK) }) }
      else if tc_socks_closed cl \<and> tc_recv_pending cl = 0 then do {
        cl \<leftarrow> client_free_client lw cl;
        Some (cl, ERR_ABRT) }
      else Some (cl, ERR_OK)) }"

definition client_socks_handler :: "lwip \<Rightarrow> socks_event \<Rightarrow> tcp_client \<Rightarrow> tcp_client option" where
  "client_socks_handler lw event cl = do {
     assert_that (\<not> tc_socks_closed cl);
     (case event of
        Event_error \<Rightarrow> client_free_socks lw cl
      | Event_up \<Rightarrow> do {
          assert_that (\<not> tc_socks_up cl);
          cl \<leftarrow> Some (cl\<lparr>tc_recv_used := - 1, tc_recv_pending := 0\<rparr>);
          cl \<leftarrow> (if \<not> tc_client_closed cl then do { assert_that (tc_pcb cl); Some (cl\<lparr>tc_cb_sent := True\<rparr>) } else Some cl);
          cl \<leftarrow> Some (cl\<lparr>tc_socks_up := True\<rparr>);
          cl \<leftarrow> (if tc_buf cl \<noteq> [] then client_send_to_socks cl else Some cl);
          (if \<not> tc_client_closed cl then client_socks_recv_initiate cl else Some cl) }
      | Event_error_closed \<Rightarrow> do {
          assert_that (tc_socks_up cl);
          client_free_socks lw cl }) }"

section \<open>Accepting\<close>

text \<open>\<open>raw\<close> is the allocated memory: what it holds in fields that are not set stays.\<close>

definition accepted_client :: "tcp_client \<Rightarrow> baddr \<Rightarrow> baddr \<Rightarrow> tcp_client" where
  "accepted_client raw local remote =
     raw\<lparr>tc_local_addr := local, tc_remote_addr := remote, tc_client_closed := False, tc_buf := [],
       tc_socks_up := False, tc_socks_closed := False, tc_pcb := True, tc_cb_err := True, tc_cb_recv := True,
       tc_cb_sent := False, tc_sending := 0, tc_receiving := False, tc_freed := False, tc_log := []\<rparr>"

end
