(* ===== verification/Tcp_Run.thy ===== *)
theory Tcp_Run
  imports Tcp_Client
begin

text \<open>
  A relayed TCP connection as a state machine: the calls that reach it from lwIP and from its SOCKS client,
  the history of the bytes that went in and out, the reachable states, and their invariant.
\<close>

section \<open>Inputs\<close>

datatype tcp_input =
  Tcp_err
| Tcp_recv lwip "byte list option"
| Tcp_sent lwip nat
| Socks_ev lwip socks_event
| Socks_sent lwip nat
| Socks_recvd lwip "byte list"
| Murder

text \<open>Bytes accepted from the device, taken by SOCKS, received from SOCKS; bytes acknowledged by the device.\<close>

record tcp_hist =
  h_up :: "byte list"
  h_taken :: "byte list"
  h_down :: "byte list"
  h_acked :: nat
  h_reported :: bool

fun written_by :: "tcp_effect \<Rightarrow> byte list" where
  "written_by (Written d) = d" | "written_by _ = []"

fun recved_by :: "tcp_effect \<Rightarrow> nat" where
  "recved_by (Recved n) = n" | "recved_by _ = 0"

definition written :: "tcp_client \<Rightarrow> byte list" where
  "written cl = concat (map written_by (tc_log cl))"

definition recved :: "tcp_client \<Rightarrow> nat" where
  "recved cl = sum_list (map recved_by (tc_log cl))"

text \<open>
  When an input can come: lwIP calls only installed callbacks, delivers no more than the window it was given
  back and acknowledges no more than was written; a SOCKS client reports that it is up once, a closed
  connection only then, and nothing after it was freed; its interfaces complete what was started.
\<close>

fun tcp_enabled :: "tcp_input \<Rightarrow> tcp_client \<Rightarrow> tcp_hist \<Rightarrow> bool" where
  "tcp_enabled Tcp_err cl h = tc_cb_err cl"
| "tcp_enabled (Tcp_recv lw p) cl h =
     (tc_cb_recv cl \<and> (case p of None \<Rightarrow> True
        | Some p \<Rightarrow> p \<noteq> [] \<and> length (h_up h) + length p \<le> recved cl + TCP_WND))"
| "tcp_enabled (Tcp_sent lw n) cl h = (tc_cb_sent cl \<and> 0 < n \<and> h_acked h + n \<le> length (written cl))"
| "tcp_enabled (Socks_ev lw ev) cl h =
     (Socks_freed \<notin> set (tc_log cl) \<and>
      (case ev of Event_error \<Rightarrow> True | Event_up \<Rightarrow> \<not> h_reported h | Event_error_closed \<Rightarrow> h_reported h))"
| "tcp_enabled (Socks_sent lw n) cl h = (0 < n \<and> n \<le> tc_sending cl)"
| "tcp_enabled (Socks_recvd lw d) cl h = (tc_receiving cl \<and> 0 < length d \<and> length d \<le> CLIENT_SOCKS_RECV_BUF_SIZE)"
| "tcp_enabled Murder cl h = (\<not> tc_freed cl)"

fun tcp_do :: "tcp_input \<Rightarrow> tcp_client \<Rightarrow> (tcp_client \<times> lwip_err) option" where
  "tcp_do Tcp_err cl = map_option (\<lambda>cl. (cl, ERR_OK)) (client_err_func (pcb_gone cl))"
| "tcp_do (Tcp_recv lw p) cl = client_recv_func lw p cl"
| "tcp_do (Tcp_sent lw n) cl = client_sent_func lw n cl"
| "tcp_do (Socks_ev lw ev) cl = map_option (\<lambda>cl. (cl, ERR_OK)) (client_socks_handler lw ev cl)"
| "tcp_do (Socks_sent lw n) cl =
     map_option (\<lambda>cl. (cl, ERR_OK)) (client_socks_send_handler_done lw n (cl\<lparr>tc_sending := 0\<rparr>))"
| "tcp_do (Socks_recvd lw d) cl =
     map_option (\<lambda>cl. (cl, ERR_OK)) (client_socks_recv_handler_done lw d (cl\<lparr>tc_receiving := False\<rparr>))"
| "tcp_do Murder cl = map_option (\<lambda>cl. (cl, ERR_OK)) (client_murder cl)"

fun hist_step :: "tcp_input \<Rightarrow> lwip_err \<Rightarrow> tcp_client \<Rightarrow> tcp_hist \<Rightarrow> tcp_hist" where
  "hist_step (Tcp_recv lw (Some p)) err cl h = (if err = ERR_OK then h\<lparr>h_up := h_up h @ p\<rparr> else h)"
| "hist_step (Tcp_sent lw n) err cl h = h\<lparr>h_acked := h_acked h + n\<rparr>"
| "hist_step (Socks_ev lw Event_up) err cl h = h\<lparr>h_reported := True\<rparr>"
| "hist_step (Socks_sent lw n) err cl h = h\<lparr>h_taken := h_taken h @ take n (tc_buf cl)\<rparr>"
| "hist_step (Socks_recvd lw d) err cl h = (if tc_client_closed cl then h else h\<lparr>h_down := h_down h @ d\<rparr>)"
| "hist_step _ err cl h = h"

definition hist0 :: tcp_hist where
  "hist0 = \<lparr>h_up = [], h_taken = [], h_down = [], h_acked = 0, h_reported = False\<rparr>"

inductive tcp_reach :: "tcp_client \<Rightarrow> tcp_hist \<Rightarrow> bool" where
  accept: "tcp_reach (accepted_client raw local remote) hist0"
| input: "tcp_reach cl h \<Longrightarrow> tcp_enabled i cl h \<Longrightarrow> tcp_do i cl = Some (cl', err) \<Longrightarrow>
    tcp_reach cl' (hist_step i err cl h)"

section \<open>The invariant\<close>

definition recv_state :: "tcp_client \<Rightarrow> bool" where
  "recv_state cl \<longleftrightarrow>
     tc_recv_used cl = - 1 \<and> (tc_receiving cl \<longleftrightarrow> \<not> tc_socks_closed cl) \<or>
     tc_recv_used cl = int (length (tc_recv_buf cl)) \<and> 0 \<le> tc_recv_sent cl \<and> tc_recv_sent cl < tc_recv_used cl \<and>
       tc_recv_waiting cl \<and> 0 < tc_recv_pending cl \<and> \<not> tc_receiving cl"

definition unwritten :: "tcp_client \<Rightarrow> byte list" where
  "unwritten cl = (if tc_recv_used cl > 0 then drop (nat (tc_recv_sent cl)) (tc_recv_buf cl) else [])"

text \<open>What holds whether or not the device's side is open.\<close>

definition tcp_core :: "tcp_client \<Rightarrow> tcp_hist \<Rightarrow> bool" where
  "tcp_core cl h \<longleftrightarrow>
     (Socks_freed \<in> set (tc_log cl) \<longleftrightarrow> tc_socks_closed cl) \<and> (h_reported h \<longleftrightarrow> tc_socks_up cl) \<and>
     length (tc_buf cl) \<le> TCP_WND \<and> tc_sending cl \<le> length (tc_buf cl) \<and>
     (0 < tc_sending cl \<longleftrightarrow> tc_socks_up cl \<and> \<not> tc_socks_closed cl \<and> tc_buf cl \<noteq> []) \<and>
     (tc_receiving cl \<longrightarrow> tc_socks_up cl \<and> \<not> tc_socks_closed cl \<and> tc_recv_used cl = - 1) \<and>
     h_up h = h_taken h @ tc_buf cl \<and> (\<exists>rest. h_down h = written cl @ rest) \<and>
     (\<not> tc_socks_up cl \<longrightarrow> written cl = [] \<and> h_acked h = 0 \<and> h_down h = [])"

definition tcp_flow :: "tcp_client \<Rightarrow> tcp_hist \<Rightarrow> bool" where
  "tcp_flow cl h \<longleftrightarrow>
     0 \<le> tc_recv_pending cl \<and> tc_recv_pending cl + int (h_acked h) = int (length (written cl)) \<and>
     h_down h = written cl @ unwritten cl"

definition tcp_open :: "tcp_client \<Rightarrow> tcp_hist \<Rightarrow> bool" where
  "tcp_open cl h \<longleftrightarrow>
     \<not> tc_freed cl \<and> tc_pcb cl \<and> tc_cb_err cl \<and> (tc_cb_recv cl \<longleftrightarrow> \<not> tc_socks_closed cl) \<and>
     (tc_cb_sent cl \<longleftrightarrow> tc_socks_up cl) \<and> recved cl = length (h_taken h) \<and>
     (tc_socks_up cl \<longrightarrow> recv_state cl \<and> tcp_flow cl h) \<and>
     (tc_socks_closed cl \<longrightarrow> tc_socks_up cl \<and> 0 < tc_recv_pending cl)"

definition tcp_closed :: "tcp_client \<Rightarrow> bool" where
  "tcp_closed cl \<longleftrightarrow>
     \<not> tc_pcb cl \<and> \<not> tc_cb_err cl \<and> \<not> tc_cb_recv cl \<and> \<not> tc_cb_sent cl \<and> (tc_freed cl \<longleftrightarrow> tc_socks_closed cl) \<and>
     (\<not> tc_socks_closed cl \<longrightarrow> tc_buf cl \<noteq> [])"

definition tcp_inv :: "tcp_client \<Rightarrow> tcp_hist \<Rightarrow> bool" where
  "tcp_inv cl h \<longleftrightarrow> tcp_core cl h \<and> (if tc_client_closed cl then tcp_closed cl else tcp_open cl h)"

lemmas tcp_calls = assert_that_def remove_callbacks_def tcp_abort_def tcp_close_def tcp_recved_def pcb_gone_def
  socks_free_def logged_def client_dealloc_def free_socks_closed_def
lemmas tcp_invs = tcp_inv_def tcp_core_def tcp_open_def tcp_closed_def
lemmas hist_defs = written_def recved_def unwritten_def

section \<open>Closing\<close>

lemma handle_freed_ok:
  assumes "tcp_core cl h" "\<not> tc_client_closed cl" "\<not> tc_freed cl" "\<not> tc_pcb cl"
    "\<not> tc_cb_err cl" "\<not> tc_cb_recv cl" "\<not> tc_cb_sent cl"
  shows "\<exists>cl'. client_handle_freed_client cl = Some cl' \<and> tcp_inv cl' h \<and> tc_client_closed cl'"
  using assms by (auto simp: client_handle_freed_client_def tcp_calls tcp_invs hist_defs)

lemma abort_client_ok:
  assumes "tcp_core cl h" "\<not> tc_client_closed cl" "\<not> tc_freed cl" "tc_pcb cl"
  shows "\<exists>cl'. client_abort_client cl = Some cl' \<and> tcp_inv cl' h \<and> tc_client_closed cl'"
proof -
  let ?cl = "cl\<lparr>tc_pcb := False, tc_cb_err := False, tc_cb_recv := False, tc_cb_sent := False, tc_log := tc_log cl @ [Aborted]\<rparr>"
  have "client_abort_client cl = client_handle_freed_client ?cl"
    using assms by (simp add: client_abort_client_def tcp_calls)
  moreover have "tcp_core ?cl h" using assms(1) by (simp add: tcp_core_def hist_defs)
  ultimately show ?thesis using handle_freed_ok [of ?cl h] assms by simp
qed

lemma free_client_ok:
  assumes "tcp_core cl h" "\<not> tc_client_closed cl" "\<not> tc_freed cl" "tc_pcb cl"
  shows "\<exists>cl'. client_free_client lw cl = Some cl' \<and> tcp_inv cl' h \<and> tc_client_closed cl'"
proof (cases "lw_close lw = ERR_OK")
  case True
  let ?cl = "cl\<lparr>tc_cb_err := False, tc_cb_recv := False, tc_cb_sent := False, tc_pcb := False, tc_log := tc_log cl @ [Closed]\<rparr>"
  have "client_free_client lw cl = client_handle_freed_client ?cl"
    using True assms by (simp add: client_free_client_def tcp_calls)
  moreover have "tcp_core ?cl h" using assms(1) by (simp add: tcp_core_def hist_defs)
  ultimately show ?thesis using handle_freed_ok [of ?cl h] assms by simp
next
  case False
  then have "client_free_client lw cl = client_abort_client cl"
    using assms by (simp add: client_free_client_def client_abort_client_def)
  then show ?thesis using abort_client_ok [OF assms] by simp
qed

lemma free_socks_ok:
  assumes "tcp_inv cl h" "\<not> tc_socks_closed cl"
  shows "\<exists>cl'. client_free_socks lw cl = Some cl' \<and> tcp_inv cl' h"
proof (cases "tc_client_closed cl")
  case True
  then show ?thesis
    using assms by (auto simp: client_free_socks_def tcp_calls tcp_invs hist_defs)
next
  case False
  note open_facts = assms False
  show ?thesis
  proof (cases "tc_socks_up cl \<and> (tc_recv_used cl \<ge> 0 \<or> tc_recv_pending cl > 0)")
    case True
    then have "0 < tc_recv_pending cl"
      using open_facts by (auto simp: tcp_inv_def tcp_open_def recv_state_def)
    then show ?thesis
      using open_facts True
      by (auto simp: client_free_socks_def tcp_calls tcp_invs hist_defs recv_state_def tcp_flow_def)
  next
    case stop: False
    let ?cl = "(if tc_socks_up cl then cl\<lparr>tc_cb_recv := False\<rparr> else cl)\<lparr>tc_sending := 0, tc_receiving := False,
      tc_log := tc_log cl @ [Socks_freed], tc_socks_closed := True\<rparr>"
    have "client_free_socks lw cl = client_free_client lw ?cl"
      using open_facts stop by (simp add: client_free_socks_def tcp_calls tcp_invs)
    moreover have "tcp_core ?cl h" "\<not> tc_client_closed ?cl" "\<not> tc_freed ?cl" "tc_pcb ?cl"
      using open_facts by (auto simp: tcp_invs hist_defs)
    ultimately show ?thesis using free_client_ok [of ?cl h lw] by auto
  qed
qed

lemma murder_ok:
  assumes "tcp_inv cl h" "\<not> tc_freed cl"
  shows "\<exists>cl'. client_murder cl = Some cl' \<and> tcp_inv cl' h \<and> tc_freed cl'"
proof (cases "tc_client_closed cl")
  case True
  then show ?thesis using assms by (auto simp: client_murder_def tcp_calls tcp_invs hist_defs)
next
  case False
  then show ?thesis using assms
    by (cases "tc_socks_closed cl") (auto simp: client_murder_def tcp_calls tcp_invs hist_defs)
qed

section \<open>Writing to the device\<close>

definition loop_client :: "tcp_client + tcp_client \<Rightarrow> tcp_client" where
  "loop_client r = (case r of Inl cl \<Rightarrow> cl | Inr cl \<Rightarrow> cl)"

lemma take_take_drop: "take n (drop k xs) @ take m (drop (n + k) xs) = take (n + m) (drop k xs)"
  by (simp add: take_add)

lemma write_loop_spec:
  "0 \<le> tc_recv_sent cl \<Longrightarrow> tc_recv_sent cl < tc_recv_used cl \<Longrightarrow> \<exists>n lg.
     loop_client (write_loop lw cl) = cl\<lparr>tc_log := tc_log cl @ lg, tc_recv_sent := tc_recv_sent cl + int n,
       tc_recv_pending := tc_recv_pending cl + int n\<rparr> \<and>
     concat (map written_by lg) = take n (drop (nat (tc_recv_sent cl)) (tc_recv_buf cl)) \<and>
     tc_recv_sent cl + int n \<le> tc_recv_used cl \<and> set lg \<subseteq> range Written"
proof (induction lw cl rule: write_loop.induct)
  case (1 lw cl)
  obtain s where s: "uint (lw_sndbuf lw (tc_recv_sent cl)) = int s" by (rule nonneg_int_cases [OF uint_ge_0])
  obtain u where u: "tc_recv_used cl - tc_recv_sent cl = int u" "0 < u"
    using 1(3) by (metis diff_gt_0_iff_gt zero_less_imp_eq_int)
  define w where "w = min u s"
  have w: "min (tc_recv_used cl - tc_recv_sent cl) (uint (lw_sndbuf lw (tc_recv_sent cl))) = int w"
    using s u by (simp add: w_def)
  let ?d = "take w (drop (nat (tc_recv_sent cl)) (tc_recv_buf cl))"
  let ?cl = "cl\<lparr>tc_log := tc_log cl @ [Written ?d], tc_recv_sent := tc_recv_sent cl + int w,
    tc_recv_pending := tc_recv_pending cl + int w\<rparr>"
  consider "w = 0 \<or> lw_write lw (tc_recv_sent cl) \<noteq> ERR_OK"
    | "w \<noteq> 0" "lw_write lw (tc_recv_sent cl) = ERR_OK" "\<not> tc_recv_sent cl + int w < tc_recv_used cl"
    | "w \<noteq> 0" "lw_write lw (tc_recv_sent cl) = ERR_OK" "tc_recv_sent cl + int w < tc_recv_used cl"
    by blast
  then show ?case
  proof cases
    case 1
    then have "loop_client (write_loop lw cl) = cl"
      by (subst write_loop.simps) (auto simp: loop_client_def w Let_def)
    then show ?thesis using \<open>tc_recv_sent cl < tc_recv_used cl\<close> by (intro exI [of _ 0] exI [of _ "[]"]) simp
  next
    case 2
    then have "loop_client (write_loop lw cl) = ?cl"
      by (subst write_loop.simps) (simp add: loop_client_def w Let_def logged_def)
    then show ?thesis using u by (intro exI [of _ w] exI [of _ "[Written ?d]"]) (simp add: w_def)
  next
    case 3
    then have step: "write_loop lw cl = write_loop lw ?cl"
      by (subst write_loop.simps) (simp add: w Let_def logged_def)
    have n: "nat (tc_recv_sent cl + int w) = w + nat (tc_recv_sent cl)" using 1(2) by simp
    obtain n lg where "loop_client (write_loop lw ?cl) = ?cl\<lparr>tc_log := tc_log ?cl @ lg,
        tc_recv_sent := tc_recv_sent ?cl + int n, tc_recv_pending := tc_recv_pending ?cl + int n\<rparr>"
      "concat (map written_by lg) = take n (drop (nat (tc_recv_sent ?cl)) (tc_recv_buf ?cl))"
      "tc_recv_sent ?cl + int n \<le> tc_recv_used ?cl" "set lg \<subseteq> range Written"
      using 1(1) [of "int w" ?cl] 3 1(2) by (auto simp: w logged_def)
    then show ?thesis
      using step n
      by (intro exI [of _ "w + n"] exI [of _ "Written ?d # lg"]) (simp add: add.assoc [symmetric] take_take_drop)
  qed
qed

lemma only_written: "set lg \<subseteq> range Written \<Longrightarrow> Socks_freed \<notin> set lg \<and> sum_list (map recved_by lg) = 0"
  by (induction lg) auto

text \<open>A client about to write out what it received from SOCKS.\<close>

definition about_to_write :: "tcp_client \<Rightarrow> tcp_hist \<Rightarrow> bool" where
  "about_to_write cl h \<longleftrightarrow>
     tcp_core cl h \<and> \<not> tc_client_closed cl \<and> \<not> tc_freed cl \<and> tc_pcb cl \<and> tc_cb_err cl \<and>
     (tc_cb_recv cl \<longleftrightarrow> \<not> tc_socks_closed cl) \<and> tc_cb_sent cl \<and> tc_socks_up cl \<and> recved cl = length (h_taken h) \<and>
     tc_recv_used cl = int (length (tc_recv_buf cl)) \<and> 0 \<le> tc_recv_sent cl \<and> tc_recv_sent cl < tc_recv_used cl \<and>
     \<not> tc_receiving cl \<and> tcp_flow cl h"

lemma tcp_write_keeps:
  assumes a: "about_to_write cl h" and lg: "set lg \<subseteq> range Written" "concat (map written_by lg) = take n (drop (nat (tc_recv_sent cl)) (tc_recv_buf cl))"
    and n: "tc_recv_sent cl + int n \<le> tc_recv_used cl"
    and cl': "cl' = cl\<lparr>tc_log := tc_log cl @ lg, tc_recv_sent := tc_recv_sent cl + int n, tc_recv_pending := tc_recv_pending cl + int n\<rparr>"
  shows "tcp_core cl' h" "recved cl' = length (h_taken h)" "tcp_flow cl' h"
proof -
  have k: "nat (tc_recv_sent cl + int n) = n + nat (tc_recv_sent cl)"
    using a by (simp add: about_to_write_def nat_add_distrib)
  have w: "written cl' = written cl @ take n (drop (nat (tc_recv_sent cl)) (tc_recv_buf cl))"
    using lg(2) by (simp add: cl' written_def)
  have down: "h_down h = written cl @ drop (nat (tc_recv_sent cl)) (tc_recv_buf cl)"
    using a by (simp add: about_to_write_def tcp_flow_def unwritten_def)
  then have d: "h_down h = written cl' @ drop (n + nat (tc_recv_sent cl)) (tc_recv_buf cl)"
    by (simp only: w append_assoc drop_drop [symmetric] append_take_drop_id)
  have len: "length (written cl') = length (written cl) + n"
  proof -
    have "n \<le> length (tc_recv_buf cl) - nat (tc_recv_sent cl)" using n a unfolding about_to_write_def by linarith
    then show ?thesis by (simp add: w)
  qed
  show "recved cl' = length (h_taken h)"
    using a only_written [OF lg(1)] by (simp add: cl' recved_def about_to_write_def)
  have "0 < tc_recv_used cl'" "tc_recv_sent cl' = tc_recv_sent cl + int n" "tc_recv_buf cl' = tc_recv_buf cl"
    "tc_recv_pending cl' = tc_recv_pending cl + int n"
    using a by (auto simp: cl' about_to_write_def)
  moreover have "0 \<le> tc_recv_pending cl" "tc_recv_pending cl + int (h_acked h) = int (length (written cl))"
    using a by (auto simp: about_to_write_def tcp_flow_def)
  ultimately show "tcp_flow cl' h"
    unfolding tcp_flow_def unwritten_def using d len k by simp
  show "tcp_core cl' h"
    using a d only_written [OF lg(1)] by (simp add: tcp_core_def about_to_write_def) (simp add: cl')
qed

lemma send_out_ok:
  assumes a: "about_to_write cl h" and "\<not> tc_recv_waiting cl"
  obtains cl' aborted where "client_socks_recv_send_out lw cl = Some (cl', aborted)"
    "aborted \<or> tc_recv_used cl' \<noteq> - 1 \<Longrightarrow> tcp_inv cl' h"
    "\<not> aborted \<Longrightarrow> 0 < tc_recv_pending cl' \<and> tc_socks_closed cl' = tc_socks_closed cl"
    "\<not> aborted \<Longrightarrow> tc_recv_used cl' = - 1 \<Longrightarrow> tcp_inv (cl'\<lparr>tc_receiving := \<not> tc_socks_closed cl'\<rparr>) h \<and>
      \<not> tc_receiving cl' \<and> \<not> tc_client_closed cl' \<and> tc_socks_up cl'"
proof -
  have s: "0 \<le> tc_recv_sent cl" "tc_recv_sent cl < tc_recv_used cl" "0 \<le> tc_recv_pending cl"
    using a by (simp_all add: about_to_write_def tcp_flow_def)
  obtain n lg where l: "loop_client (write_loop lw cl) = cl\<lparr>tc_log := tc_log cl @ lg, tc_recv_sent := tc_recv_sent cl + int n,
      tc_recv_pending := tc_recv_pending cl + int n\<rparr>"
    and w: "concat (map written_by lg) = take n (drop (nat (tc_recv_sent cl)) (tc_recv_buf cl))"
    and n: "tc_recv_sent cl + int n \<le> tc_recv_used cl" and lg: "set lg \<subseteq> range Written"
    using write_loop_spec [OF s(1,2), of lw] by blast
  define c where "c = cl\<lparr>tc_log := tc_log cl @ lg, tc_recv_sent := tc_recv_sent cl + int n, tc_recv_pending := tc_recv_pending cl + int n\<rparr>"
  note keep = tcp_write_keeps [OF a lg w n c_def]
  have f: "\<not> tc_client_closed c" "\<not> tc_freed c" "tc_pcb c" "tc_cb_err c" "tc_cb_recv c \<longleftrightarrow> \<not> tc_socks_closed c" "tc_cb_sent c"
    "tc_socks_up c" "tc_recv_used c = int (length (tc_recv_buf c))" "0 \<le> tc_recv_sent c" "tc_recv_sent c \<le> tc_recv_used c"
    "\<not> tc_receiving c" "tc_socks_closed c = tc_socks_closed cl" "0 < tc_recv_used c" "0 \<le> tc_recv_pending c"
    "tc_recv_sent c = tc_recv_used c \<Longrightarrow> 0 < tc_recv_pending c"
    using a n s by (auto simp: about_to_write_def c_def)
  have start: "client_socks_recv_send_out lw cl = (case write_loop lw cl of
        Inl cl \<Rightarrow> map_option (\<lambda>cl. (cl, True)) (client_abort_client cl)
      | Inr cl \<Rightarrow>
          if lw_output lw \<noteq> ERR_OK then map_option (\<lambda>cl. (cl, True)) (client_abort_client cl)
          else if tc_recv_sent cl < tc_recv_used cl then
            (if tc_recv_pending cl = 0 then map_option (\<lambda>cl. (cl, True)) (client_abort_client cl)
             else Some (cl\<lparr>tc_recv_waiting := True\<rparr>, False))
          else Some (cl\<lparr>tc_recv_used := - 1\<rparr>, False))"
    unfolding client_socks_recv_send_out_def
    using a assms(2) s by (subst assert_that_def, subst if_P) (auto simp: about_to_write_def)
  have r: "write_loop lw cl = Inl c \<or> write_loop lw cl = Inr c"
    using l by (cases "write_loop lw cl") (simp_all add: loop_client_def c_def)
  obtain ca where ca: "client_abort_client c = Some ca" "tcp_inv ca h" "tc_client_closed ca"
    using abort_client_ok [OF keep(1) f(1-3)] by blast
  consider "client_socks_recv_send_out lw cl = Some (ca, True)"
    | "client_socks_recv_send_out lw cl = Some (c\<lparr>tc_recv_waiting := True\<rparr>, False)" "tc_recv_sent c < tc_recv_used c" "tc_recv_pending c \<noteq> 0"
    | "client_socks_recv_send_out lw cl = Some (c\<lparr>tc_recv_used := - 1\<rparr>, False)" "tc_recv_sent c = tc_recv_used c"
    using start r ca(1) f(10) by (auto split: if_splits)
  then show ?thesis
  proof cases
    case 1
    then show ?thesis using ca(2) that [of ca True] by simp
  next
    case 2
    let ?c = "c\<lparr>tc_recv_waiting := True\<rparr>"
    have "tcp_core ?c h" "recved ?c = length (h_taken h)" "tcp_flow ?c h"
      using keep by (simp_all add: tcp_core_def tcp_flow_def hist_defs)
    then have "tcp_inv ?c h" using 2 f by (simp add: tcp_inv_def tcp_open_def recv_state_def)
    then show ?thesis using that [OF 2(1)] 2 f by simp
  next
    case 3
    let ?c = "c\<lparr>tc_recv_used := - 1\<rparr>" and ?d = "c\<lparr>tc_recv_used := - 1, tc_receiving := \<not> tc_socks_closed c\<rparr>"
    have "tcp_core ?d h" "recved ?d = length (h_taken h)" "tcp_flow ?d h"
      using keep f 3(2) by (simp_all add: tcp_core_def tcp_flow_def hist_defs)
    then have "tcp_inv ?d h" using 3 f by (simp add: tcp_inv_def tcp_open_def recv_state_def)
    then show ?thesis using that [OF 3(1)] 3 f by simp
  qed
qed

section \<open>Every handler keeps the invariant\<close>

lemma inv_core: "tcp_inv cl h \<Longrightarrow> tcp_core cl h"
  by (simp add: tcp_inv_def)

lemma inv_open: "tcp_inv cl h \<Longrightarrow> \<not> tc_client_closed cl \<Longrightarrow> tcp_open cl h"
  by (simp add: tcp_inv_def)

lemma inv_callbacks:
  assumes "tcp_inv cl h" "tc_cb_err cl \<or> tc_cb_recv cl \<or> tc_cb_sent cl"
  shows "tcp_core cl h" "tcp_open cl h" "\<not> tc_client_closed cl" "\<not> tc_freed cl" "tc_pcb cl"
  using assms by (auto simp: tcp_inv_def tcp_open_def tcp_closed_def split: if_splits)

lemma err_ok:
  assumes "tcp_inv cl h" "tc_cb_err cl"
  shows "\<exists>cl'. client_err_func (pcb_gone cl) = Some cl' \<and> tcp_inv cl' h"
proof -
  note f = inv_callbacks [OF assms(1) disjI1 [OF assms(2)]]
  have "tcp_core (pcb_gone cl) h" using f(1) by (simp add: tcp_core_def hist_defs pcb_gone_def)
  then show ?thesis
    using handle_freed_ok [of "pcb_gone cl" h] f(3,4) by (auto simp: client_err_func_def assert_that_def pcb_gone_def)
qed

lemma recv_window:
  assumes "tcp_inv cl h" "tcp_enabled (Tcp_recv lw (Some p)) cl h"
  shows "length p + length (tc_buf cl) \<le> TCP_WND"
  using assms inv_callbacks(2,1) [OF assms(1)] by (auto simp: tcp_open_def tcp_core_def)

lemma tcp_recv_ok:
  assumes "tcp_inv cl h" "tcp_enabled (Tcp_recv lw p) cl h"
  shows "\<exists>cl' err. client_recv_func lw p cl = Some (cl', err) \<and> tcp_inv cl' (hist_step (Tcp_recv lw p) err cl h) \<and>
    (p \<noteq> None \<longrightarrow> err = ERR_OK)"
proof -
  have "tc_cb_recv cl" using assms(2) by simp
  note f = inv_callbacks [OF assms(1) disjI2 [OF disjI1 [OF this]]]
  show ?thesis
  proof (cases p)
    case None
    then show ?thesis
      using free_client_ok [OF f(1,3,4,5), of lw] f(3) by (auto simp: client_recv_func_def assert_that_def)
  next
    case (Some d)
    note w = recv_window [OF assms(1) assms(2) [unfolded Some]]
    have d: "d \<noteq> []" "\<not> tc_socks_closed cl" using assms(2) Some f(2) by (auto simp: tcp_open_def)
    have s: "tc_buf cl = [] \<Longrightarrow> tc_sending cl = 0" using f(1) by (auto simp: tcp_core_def)
    show ?thesis
      using f d w s Some assms(1)
      by (auto simp: client_recv_func_def client_send_to_socks_def assert_that_def tcp_invs recv_state_def tcp_flow_def hist_defs)
  qed
qed

lemma socks_sent_ok:
  assumes "tcp_inv cl h" "tcp_enabled (Socks_sent lw n) cl h"
  shows "\<exists>cl'. client_socks_send_handler_done lw n (cl\<lparr>tc_sending := 0\<rparr>) = Some cl' \<and>
    tcp_inv cl' (hist_step (Socks_sent lw n) err cl h)"
proof -
  let ?h = "h\<lparr>h_taken := h_taken h @ take n (tc_buf cl)\<rparr>"
  have n: "0 < n" "n \<le> length (tc_buf cl)" "tc_socks_up cl" "\<not> tc_socks_closed cl" "tc_buf cl \<noteq> []"
    using assms by (auto simp: tcp_inv_def tcp_core_def)
  show ?thesis
  proof (cases "tc_client_closed cl")
    case False
    then show ?thesis
      using assms n
      by (auto simp: client_socks_send_handler_done_def tcp_calls tcp_invs recv_state_def tcp_flow_def hist_defs)
  next
    case closed: True
    show ?thesis
    proof (cases "n = length (tc_buf cl)")
      case True
      then show ?thesis
        using assms n closed
        by (auto simp: client_socks_send_handler_done_def client_free_socks_def tcp_calls tcp_invs hist_defs)
    next
      case False
      then show ?thesis
        using assms n closed
        by (auto simp: client_socks_send_handler_done_def tcp_calls tcp_invs hist_defs)
    qed
  qed
qed

lemma socks_recvd_ok:
  assumes "tcp_inv cl h" "tcp_enabled (Socks_recvd lw d) cl h"
  shows "\<exists>cl'. client_socks_recv_handler_done lw d (cl\<lparr>tc_receiving := False\<rparr>) = Some cl' \<and>
    tcp_inv cl' (hist_step (Socks_recvd lw d) err cl h)"
proof -
  have e: "tc_socks_up cl" "\<not> tc_socks_closed cl" "tc_recv_used cl = - 1" "0 < length d" "length d \<le> CLIENT_SOCKS_RECV_BUF_SIZE"
    using assms by (auto simp: tcp_inv_def tcp_core_def)
  show ?thesis
  proof (cases "tc_client_closed cl")
    case True
    then show ?thesis
      using assms e by (auto simp: client_socks_recv_handler_done_def assert_that_def tcp_invs hist_defs)
  next
    case False
    let ?h = "h\<lparr>h_down := h_down h @ d\<rparr>"
    let ?cl = "cl\<lparr>tc_receiving := False, tc_recv_buf := d, tc_recv_used := int (length d), tc_recv_sent := 0, tc_recv_waiting := False\<rparr>"
    have "about_to_write ?cl ?h"
      using assms(1) e False
      by (auto simp: about_to_write_def tcp_invs tcp_flow_def hist_defs)
    then obtain cl' ab where r: "client_socks_recv_send_out lw ?cl = Some (cl', ab)"
      "ab \<or> tc_recv_used cl' \<noteq> - 1 \<Longrightarrow> tcp_inv cl' ?h"
      "\<not> ab \<Longrightarrow> 0 < tc_recv_pending cl' \<and> tc_socks_closed cl' = tc_socks_closed ?cl"
      "\<not> ab \<Longrightarrow> tc_recv_used cl' = - 1 \<Longrightarrow> tcp_inv (cl'\<lparr>tc_receiving := \<not> tc_socks_closed cl'\<rparr>) ?h \<and>
        \<not> tc_receiving cl' \<and> \<not> tc_client_closed cl' \<and> tc_socks_up cl'"
      by (rule send_out_ok [of ?cl ?h lw]) simp_all
    have "client_socks_recv_handler_done lw d (cl\<lparr>tc_receiving := False\<rparr>) =
      (if ab then Some cl' else if tc_recv_used cl' = - 1 then client_socks_recv_initiate cl' else Some cl')"
      using e False r(1) by (simp add: client_socks_recv_handler_done_def assert_that_def)
    then show ?thesis
      using r(2-4) False e(2) by (auto simp: client_socks_recv_initiate_def assert_that_def)
  qed
qed

lemma sent_ok:
  assumes "tcp_inv cl h" "tcp_enabled (Tcp_sent lw n) cl h"
  shows "\<exists>cl' err. client_sent_func lw n cl = Some (cl', err) \<and> tcp_inv cl' (hist_step (Tcp_sent lw n) err cl h)"
proof -
  have "tc_cb_sent cl" using assms(2) by simp
  note f = inv_callbacks [OF assms(1) disjI2 [OF disjI2 [OF this]]]
  have up: "tc_socks_up cl" using f(2) \<open>tc_cb_sent cl\<close> by (simp add: tcp_open_def)
  have e: "0 < n" "int n \<le> tc_recv_pending cl"
    using assms(2) f(2) up by (auto simp: tcp_open_def tcp_flow_def)
  let ?h = "h\<lparr>h_acked := h_acked h + n\<rparr>"
  let ?c = "cl\<lparr>tc_recv_pending := tc_recv_pending cl - int n\<rparr>"
  have core: "tcp_core ?c ?h" using f(1) up by (simp add: tcp_core_def hist_defs)
  show ?thesis
  proof (cases "tc_recv_used cl > 0")
    case False
    then have rest: "tc_recv_used cl = - 1" using f(2) up by (auto simp: tcp_open_def recv_state_def)
    show ?thesis
    proof (cases "tc_socks_closed cl \<and> tc_recv_pending cl = int n")
      case True
      then show ?thesis
        using free_client_ok [OF core, of lw] f(3-5) up e rest by (auto simp: client_sent_func_def assert_that_def)
    next
      case open_still: False
      have "tcp_inv ?c ?h"
        using core f(2,3) up e rest open_still
        by (auto simp: tcp_inv_def tcp_open_def tcp_flow_def recv_state_def hist_defs)
      then show ?thesis using open_still f(3) up e rest by (auto simp: client_sent_func_def assert_that_def)
    qed
  next
    case True
    let ?d = "cl\<lparr>tc_recv_pending := tc_recv_pending cl - int n, tc_recv_waiting := False\<rparr>"
    have w: "tc_recv_waiting cl" "tc_recv_sent cl < tc_recv_used cl" using True f(2) up by (auto simp: tcp_open_def recv_state_def)
    have "about_to_write ?d ?h"
      using True f up e core
      by (auto simp: about_to_write_def tcp_open_def recv_state_def tcp_flow_def tcp_core_def hist_defs)
    then obtain cl' ab where r: "client_socks_recv_send_out lw ?d = Some (cl', ab)"
      "ab \<or> tc_recv_used cl' \<noteq> - 1 \<Longrightarrow> tcp_inv cl' ?h"
      "\<not> ab \<Longrightarrow> 0 < tc_recv_pending cl' \<and> tc_socks_closed cl' = tc_socks_closed ?d"
      "\<not> ab \<Longrightarrow> tc_recv_used cl' = - 1 \<Longrightarrow> tcp_inv (cl'\<lparr>tc_receiving := \<not> tc_socks_closed cl'\<rparr>) ?h \<and>
        \<not> tc_receiving cl' \<and> \<not> tc_client_closed cl' \<and> tc_socks_up cl'"
      by (rule send_out_ok [of ?d ?h lw]) simp_all
    have run: "client_sent_func lw n cl =
      (if ab then Some (cl', ERR_ABRT)
       else do { cl' \<leftarrow> (if tc_recv_used cl' = - 1 \<and> \<not> tc_socks_closed cl' then client_socks_recv_initiate cl' else Some cl');
              Some (cl', ERR_OK) })"
      using True f(3) up e w r(1,3) by (simp add: client_sent_func_def assert_that_def)
    show ?thesis
    proof (cases "ab \<or> tc_recv_used cl' \<noteq> - 1")
      case True
      then show ?thesis using run r(2) by auto
    next
      case False
      then have c: "tcp_inv (cl'\<lparr>tc_receiving := \<not> tc_socks_closed cl'\<rparr>) ?h" "\<not> tc_receiving cl'"
        "\<not> tc_client_closed cl'" "tc_socks_up cl'" "\<not> ab" "tc_recv_used cl' = - 1" using r(4) by auto
      have same: "cl'\<lparr>tc_receiving := False\<rparr> = cl'" using c(2) by simp
      have "tcp_inv cl' ?h" if "tc_socks_closed cl'"
      proof -
        have "(\<not> tc_socks_closed cl') = False" using that by simp
        then show ?thesis using c(1) by (simp only: same)
      qed
      then show ?thesis
        using c run by (cases "tc_socks_closed cl'") (auto simp: client_socks_recv_initiate_def assert_that_def)
    qed
  qed
qed

lemma socks_ev_ok:
  assumes "tcp_inv cl h" "tcp_enabled (Socks_ev lw ev) cl h"
  shows "\<exists>cl'. client_socks_handler lw ev cl = Some cl' \<and> tcp_inv cl' (hist_step (Socks_ev lw ev) err cl h)"
proof (cases ev)
  case Event_error
  then show ?thesis
    using free_socks_ok [OF assms(1), of lw] assms
    by (auto simp: client_socks_handler_def assert_that_def tcp_inv_def tcp_core_def)
next
  case Event_error_closed
  then show ?thesis
    using free_socks_ok [OF assms(1), of lw] assms
    by (auto simp: client_socks_handler_def assert_that_def tcp_inv_def tcp_core_def)
next
  case Event_up
  then have e: "\<not> tc_socks_up cl" "\<not> tc_socks_closed cl" using assms by (auto simp: tcp_inv_def tcp_core_def)
  show ?thesis
  proof (cases "tc_client_closed cl")
    case True
    then show ?thesis
      using Event_up e assms(1)
      by (auto simp: client_socks_handler_def client_send_to_socks_def assert_that_def tcp_invs hist_defs)
  next
    case False
    then show ?thesis
      using Event_up e assms(1)
      by (auto simp: client_socks_handler_def client_send_to_socks_def client_socks_recv_initiate_def assert_that_def
          tcp_invs recv_state_def tcp_flow_def hist_defs)
  qed
qed

lemma tcp_do_ok:
  assumes "tcp_inv cl h" "tcp_enabled i cl h"
  shows "\<exists>cl' err. tcp_do i cl = Some (cl', err) \<and> tcp_inv cl' (hist_step i err cl h)"
proof (cases i)
  case Tcp_err
  then show ?thesis using err_ok [OF assms(1)] assms(2) by auto
next
  case (Tcp_recv lw p)
  then show ?thesis using tcp_recv_ok [OF assms(1)] assms(2) by fastforce
next
  case (Tcp_sent lw n)
  then show ?thesis using sent_ok [OF assms(1)] assms(2) by fastforce
next
  case (Socks_ev lw ev)
  then show ?thesis using socks_ev_ok [OF assms(1), of lw ev ERR_OK] assms(2) by fastforce
next
  case (Socks_sent lw n)
  then show ?thesis using socks_sent_ok [OF assms(1), of lw n ERR_OK] assms(2) by fastforce
next
  case (Socks_recvd lw d)
  then show ?thesis using socks_recvd_ok [OF assms(1), of lw d ERR_OK] assms(2) by fastforce
next
  case Murder
  then show ?thesis using murder_ok [OF assms(1)] assms(2) by fastforce
qed

lemma accepted_inv: "tcp_inv (accepted_client raw l r) hist0"
  by (simp add: accepted_client_def hist0_def tcp_invs hist_defs)

lemma tcp_reach_inv: "tcp_reach cl h \<Longrightarrow> tcp_inv cl h"
proof (induction rule: tcp_reach.induct)
  case (input cl h i cl' err)
  then show ?case using tcp_do_ok [OF input.IH input.hyps(2)] by auto
qed (rule accepted_inv)

section \<open>A connection played out\<close>

fun tcp_play :: "tcp_input list \<Rightarrow> tcp_client \<Rightarrow> tcp_hist \<Rightarrow> (tcp_client \<times> tcp_hist) option" where
  "tcp_play [] cl h = Some (cl, h)"
| "tcp_play (i # is) cl h =
     (if tcp_enabled i cl h
      then case tcp_do i cl of None \<Rightarrow> None | Some (cl', err) \<Rightarrow> tcp_play is cl' (hist_step i err cl h)
      else None)"

lemma tcp_play_reach: "tcp_reach cl h \<Longrightarrow> tcp_play is cl h = Some (cl', h') \<Longrightarrow> tcp_reach cl' h'"
proof (induction "is" arbitrary: cl h)
  case (Cons i "is")
  then obtain c err where "tcp_enabled i cl h" "tcp_do i cl = Some (c, err)" "tcp_play is c (hist_step i err cl h) = Some (cl', h')"
    by (auto split: if_splits option.splits)
  then show ?case using Cons.IH tcp_reach.input [OF Cons.prems(1)] by blast
qed simp

definition ex_lwip :: lwip where
  "ex_lwip = \<lparr>lw_sndbuf = \<lambda>s. if s = 0 then 2 else 0, lw_write = \<lambda>s. ERR_OK, lw_output = ERR_OK, lw_close = ERR_OK\<rparr>"

definition ex_raw :: tcp_client where
  "ex_raw = \<lparr>tc_local_addr = Addr_None, tc_remote_addr = Addr_None, tc_client_closed = True, tc_buf = [], tc_socks_up = True,
     tc_socks_closed = True, tc_recv_buf = [], tc_recv_used = 77, tc_recv_sent = 5, tc_recv_waiting = True,
     tc_recv_pending = 3, tc_pcb = False, tc_cb_err = False, tc_cb_recv = False, tc_cb_sent = False, tc_sending = 0,
     tc_receiving = False, tc_freed = True, tc_log = []\<rparr>"

text \<open>Two bytes from the device of which SOCKS takes one, and three from SOCKS of which two can be written.\<close>

definition ex_inputs :: "tcp_input list" where
  "ex_inputs = [Socks_ev ex_lwip Event_up, Tcp_recv ex_lwip (Some [1, 2]), Socks_sent ex_lwip 1, Socks_recvd ex_lwip [7, 8, 9]]"

definition ex_end :: "tcp_client \<times> tcp_hist" where
  "ex_end = (\<lparr>tc_local_addr = Addr_V4 1 2, tc_remote_addr = Addr_V4 3 4, tc_client_closed = False, tc_buf = [2],
      tc_socks_up = True, tc_socks_closed = False, tc_recv_buf = [7, 8, 9], tc_recv_used = 3, tc_recv_sent = 2,
      tc_recv_waiting = True, tc_recv_pending = 2, tc_pcb = True, tc_cb_err = True, tc_cb_recv = True, tc_cb_sent = True,
      tc_sending = 1, tc_receiving = False, tc_freed = False, tc_log = [Recved 1, Written [7, 8]]\<rparr>,
    \<lparr>h_up = [1, 2], h_taken = [1], h_down = [7, 8, 9], h_acked = 0, h_reported = True\<rparr>)"

lemmas client_handlers = client_socks_handler_def client_send_to_socks_def client_socks_recv_initiate_def client_recv_func_def
  client_socks_send_handler_done_def client_socks_recv_handler_done_def client_socks_recv_send_out_def

lemma ex_end_reach: "tcp_reach (fst ex_end) (snd ex_end)"
proof -
  have "tcp_play ex_inputs (accepted_client ex_raw (Addr_V4 1 2) (Addr_V4 3 4)) hist0 = Some ex_end"
    by (simp add: ex_inputs_def ex_lwip_def accepted_client_def ex_raw_def hist0_def client_handlers tcp_calls
        write_loop.simps hist_defs ex_end_def)
  then show ?thesis using tcp_play_reach [OF tcp_reach.accept] by (metis prod.collapse)
qed

lemma ex_end_ok:
  "\<not> tc_freed (fst ex_end)" "tc_buf (fst ex_end) = [2]" "h_up (snd ex_end) = [1, 2]" "h_down (snd ex_end) = [7, 8, 9]"
  "written (fst ex_end) = [7, 8]" "h_acked (snd ex_end) = 0" "tc_cb_recv (fst ex_end)" "tc_cb_sent (fst ex_end)"
  "recved (fst ex_end) = 1" "tc_socks_up (fst ex_end)" "\<not> tc_client_closed (fst ex_end)" "\<not> tc_socks_closed (fst ex_end)"
  by (simp_all add: ex_end_def hist_defs)

section \<open>Properties\<close>

text \<open>C2. Whatever lwIP and the SOCKS client do within their contracts, every handler of a relayed connection
  runs to its end: no assertion fails, no call is made on a control block that is gone, no abort calls back
  into the client, no interface is used twice, and the client is freed at most once and never called after.\<close>

theorem tcp_handlers_safe:
  assumes "tcp_reach cl h" "tcp_enabled i cl h"
  shows "\<not> tc_freed cl \<and> (\<exists>cl' err. tcp_do i cl = Some (cl', err))"
proof -
  note inv = tcp_reach_inv [OF assms(1)]
  have "\<not> tc_freed cl"
    using inv assms(2)
    by (cases i) (auto simp: tcp_invs split: if_splits)
  then show ?thesis using tcp_do_ok [OF inv assms(2)] by blast
qed

lemma tcp_handlers_safe_witness:
  "\<not> tc_freed (fst ex_end) \<and> (\<exists>cl' err. tcp_do (Tcp_sent ex_lwip 2) (fst ex_end) = Some (cl', err))"
  by (rule tcp_handlers_safe [OF ex_end_reach]) (simp add: ex_end_ok)

text \<open>C1. The relay neither loses, repeats nor reorders bytes: at every moment what SOCKS has taken followed by
  what is buffered is what the device sent; what was written to the device is a prefix of what SOCKS
  sent, and while the device's side is open the two differ by exactly the bytes waiting in the buffer.\<close>

theorem tcp_relay_faithful:
  assumes "tcp_reach cl h"
  shows "h_up h = h_taken h @ tc_buf cl \<and>
    (if tc_client_closed cl \<or> \<not> tc_socks_up cl then \<exists>rest. h_down h = written cl @ rest
     else h_down h = written cl @ unwritten cl)"
  using tcp_reach_inv [OF assms] by (auto simp: tcp_invs tcp_flow_def split: if_splits)

lemma tcp_relay_faithful_witness:
  "h_up (snd ex_end) = h_taken (snd ex_end) @ [2] \<and> h_down (snd ex_end) = [7, 8] @ unwritten (fst ex_end)"
  using tcp_relay_faithful [OF ex_end_reach] by (simp add: ex_end_ok)

text \<open>C3. A connection never gets stuck. While it exists, whatever is left to do is under way: with the device's
  side closed, SOCKS is open and unsent data is being sent or waits only for SOCKS to come up; with SOCKS
  closed, bytes written to the device are still to be acknowledged, with the callback for it in place; with both
  open and SOCKS up, data is being received or an acknowledgement is due.\<close>

theorem tcp_never_stuck:
  assumes "tcp_reach cl h" "\<not> tc_freed cl"
  shows "(tc_client_closed cl \<longrightarrow> \<not> tc_socks_closed cl \<and> tc_buf cl \<noteq> []) \<and>
    (tc_socks_up cl \<and> \<not> tc_socks_closed cl \<and> tc_buf cl \<noteq> [] \<longrightarrow> 0 < tc_sending cl) \<and>
    (tc_socks_closed cl \<longrightarrow> tc_cb_sent cl \<and> h_acked h < length (written cl)) \<and>
    (tc_socks_up cl \<and> \<not> tc_socks_closed cl \<and> \<not> tc_client_closed cl \<longrightarrow>
       tc_receiving cl \<or> tc_cb_sent cl \<and> h_acked h < length (written cl))"
  using tcp_reach_inv [OF assms(1)] assms(2)
  by (auto simp: tcp_invs tcp_flow_def recv_state_def split: if_splits)

lemma tcp_never_stuck_witness: "0 < tc_sending (fst ex_end)"
  using tcp_never_stuck [OF ex_end_reach ex_end_ok(1)] by (simp add: ex_end_ok)

text \<open>Data from the device always fits the buffer as long as lwIP keeps to the receive window: the window is
  given back only for bytes that have left the buffer, so the handler takes the data and never answers
  that it has no memory.\<close>

theorem tcp_window_fits:
  assumes "tcp_reach cl h" "tcp_enabled (Tcp_recv lw (Some p)) cl h"
  shows "length (tc_buf cl) + length p \<le> TCP_WND \<and>
    (\<exists>cl'. client_recv_func lw (Some p) cl = Some (cl', ERR_OK) \<and> tc_buf cl' = tc_buf cl @ p)"
proof -
  note inv = tcp_reach_inv [OF assms(1)]
  obtain cl' err where r: "client_recv_func lw (Some p) cl = Some (cl', err)" "err = ERR_OK"
    using tcp_recv_ok [OF inv assms(2)] by blast
  have "length (tc_buf cl) + length p \<le> TCP_WND" using recv_window [OF inv assms(2)] by simp
  then show ?thesis using r
    by (auto simp: client_recv_func_def client_send_to_socks_def assert_that_def split: if_splits bind_splits)
qed

lemma tcp_window_fits_witness:
  "\<exists>cl'. client_recv_func ex_lwip (Some [3, 4]) (fst ex_end) = Some (cl', ERR_OK) \<and> tc_buf cl' = [2, 3, 4]"
proof -
  have "tcp_enabled (Tcp_recv ex_lwip (Some [3, 4])) (fst ex_end) (snd ex_end)" by (simp add: ex_end_ok)
  from tcp_window_fits [OF ex_end_reach this] show ?thesis by (simp add: ex_end_ok)
qed

end
