(* ===== verification/Tcp_Table.thy ===== *)
theory Tcp_Table
  imports Tcp_Run Socks_Run
begin

text \<open>
  The program's table of relayed connections (\<open>tcp_clients\<close>, \<open>num_clients\<close> and \<open>listener_accept_func\<close> in
  \<open>tun2socks/tun2socks.c\<close>), each with its SOCKS client and its user name, and the array of authentication data
  (\<open>socks_auth_info\<close>) that all SOCKS clients point to. Clients live at addresses of \<open>ts_heap\<close>; \<open>ts_socks\<close> holds the
  SOCKS client of each until it is freed, \<open>ts_names\<close> the memory of its \<open>socks_username\<close>. \<open>malloc\<close> gives an address
  and the memory found there, or fails, and the string concatenation and \<open>BSocksClient_Init\<close> can fail too. A SOCKS
  client's inputs run its handlers on what the array holds at that moment, and what it reports goes to
  \<open>client_socks_handler\<close>.
\<close>

section \<open>State and operations\<close>

text \<open>The user name an element of the array points to: the option of the command line, or the \<open>socks_username\<close> of the
  client at an address, whose length was taken when it was stored.\<close>

datatype user_name = Option_name "byte list" | Client_name nat nat

record tun_state =
  ts_heap :: "nat \<Rightarrow> tcp_client option"
  ts_socks :: "nat \<Rightarrow> socks_client option"
  ts_names :: "nat \<Rightarrow> byte list option"
  ts_clients :: "nat list"
  ts_num_clients :: int
  ts_auth :: "user_name auth_data list"

record auth_options =
  opt_username :: "byte list option"
  opt_append_source :: bool

fun read_name :: "(nat \<Rightarrow> byte list option) \<Rightarrow> user_name \<Rightarrow> nat + byte list" where
  "read_name names (Option_name u) = Inr u"
| "read_name names (Client_name p n) = (case names p of None \<Rightarrow> Inl n | Some u \<Rightarrow> Inr u)"

text \<open>What a SOCKS client reads in the array now.\<close>

definition socks_auth_info :: "tun_state \<Rightarrow> auth_info list" where
  "socks_auth_info s = map (load_auth (read_name (ts_names s))) (ts_auth s)"

definition baddr_from_lwip :: "bool \<Rightarrow> byte list \<Rightarrow> u32 \<Rightarrow> u16 \<Rightarrow> baddr" where
  "baddr_from_lwip is_ipv6 ip6 ip4 port_hostorder =
     (if is_ipv6 then Addr_V6 ip6 (hton16 port_hostorder) else Addr_V4 ip4 (hton16 port_hostorder))"

text \<open>\<open>username@address\<close>, as \<open>concat_strings\<close> makes it.\<close>

definition source_username :: "byte list \<Rightarrow> baddr \<Rightarrow> byte list" where
  "source_username username remote = username @ map of_char (''@'' @ BAddr_Print remote)"

fun set_username :: "user_name \<Rightarrow> user_name auth_data \<Rightarrow> user_name auth_data" where
  "set_username u (Password_data _ p) = Password_data u p" | "set_username u No_auth = No_auth"

definition listener_accept_func ::
  "auth_options \<Rightarrow> (nat \<times> tcp_client) option \<Rightarrow> bool \<Rightarrow> bool \<Rightarrow> baddr \<Rightarrow> baddr \<Rightarrow> tun_state \<Rightarrow> tun_state \<times> lwip_err" where
  "listener_accept_func opts malloc concat_ok socks_ok local remote s =
     (case malloc of
        None \<Rightarrow> (s, ERR_MEM)
      | Some (p, raw) \<Rightarrow>
          let add_source = (opt_username opts \<noteq> None \<and> opt_append_source opts) in
          if add_source \<and> \<not> concat_ok then (s, ERR_MEM)
          else
            let name = source_username (the (opt_username opts)) remote;
                s = (if add_source
                     then s\<lparr>ts_names := (ts_names s)(p \<mapsto> name),
                            ts_auth := (ts_auth s)[1 := set_username (Client_name p (length name)) (ts_auth s ! 1)]\<rparr>
                     else s)
            in case BSocksClient_Init socks_ok (length (ts_auth s)) local of
                 None \<Rightarrow> (s\<lparr>ts_names := (ts_names s)(p := None)\<rparr>, ERR_MEM)
               | Some c \<Rightarrow>
                   (s\<lparr>ts_heap := (ts_heap s)(p \<mapsto> accepted_client raw local remote), ts_socks := (ts_socks s)(p \<mapsto> c),
                      ts_clients := ts_clients s @ [p], ts_num_clients := ts_num_clients s + 1\<rparr>, ERR_OK))"

text \<open>\<open>BSocksClient_Free\<close> on the SOCKS client of the client at \<open>p\<close>.\<close>

definition free_socks_of :: "nat \<Rightarrow> tun_state \<Rightarrow> tun_state option" where
  "free_socks_of p s =
     (case ts_socks s p of
        None \<Rightarrow> None
      | Some c \<Rightarrow> map_option (\<lambda>_. s\<lparr>ts_socks := (ts_socks s)(p := None)\<rparr>) (BSocksClient_Free c))"

text \<open>A handler of the client at \<open>p\<close>, which frees the SOCKS client when it closes it; the last lines of
  \<open>client_dealloc\<close> take a freed client out of the table and free its user name.\<close>

definition client_step :: "nat \<Rightarrow> tcp_input \<Rightarrow> tun_state \<Rightarrow> tun_state option" where
  "client_step p i s =
     (case ts_heap s p of
        None \<Rightarrow> None
      | Some cl \<Rightarrow>
          (case tcp_do i cl of
             None \<Rightarrow> None
           | Some (cl', err) \<Rightarrow> do {
               s \<leftarrow> (if \<not> tc_socks_closed cl \<and> tc_socks_closed cl' then free_socks_of p s else Some s);
               Some (if tc_freed cl'
                     then s\<lparr>ts_num_clients := ts_num_clients s - 1, ts_clients := remove1 p (ts_clients s),
                            ts_names := (ts_names s)(p := None), ts_heap := (ts_heap s)(p := None)\<rparr>
                     else s\<lparr>ts_heap := (ts_heap s)(p \<mapsto> cl')\<rparr>) }))"

text \<open>An input of the SOCKS client of the client at \<open>p\<close>, with the handler it reports to. The result has the effects, for
  what is sent.\<close>

fun socks_reports :: "nat \<Rightarrow> lwip \<Rightarrow> socks_effect list \<Rightarrow> tun_state \<Rightarrow> tun_state option" where
  "socks_reports p lw [] s = Some s"
| "socks_reports p lw (e # es) s = do {
     s \<leftarrow> (case e of Report ev \<Rightarrow> client_step p (Socks_ev lw ev) s | _ \<Rightarrow> Some s);
     socks_reports p lw es s }"

definition socks_step :: "nat \<Rightarrow> lwip \<Rightarrow> socks_input \<Rightarrow> tun_state \<Rightarrow> (tun_state \<times> socks_effect list) option" where
  "socks_step p lw i s = do {
     c \<leftarrow> ts_socks s p;
     (c, effs) \<leftarrow> socks_do (socks_auth_info s) i c;
     s \<leftarrow> socks_reports p lw effs (s\<lparr>ts_socks := (ts_socks s)(p \<mapsto> c)\<rparr>);
     Some (s, effs) }"

text \<open>The loop at the end of \<open>main\<close> that frees the clients that are left.\<close>

partial_function (option) murder_all :: "tun_state \<Rightarrow> tun_state option" where
  "murder_all s =
     (case ts_clients s of
        [] \<Rightarrow> Some s
      | p # ps \<Rightarrow> Option.bind (client_step p Murder s) murder_all)"

text \<open>The authentication data of \<open>process_arguments\<close>.\<close>

definition process_auth :: "auth_options \<Rightarrow> byte list \<Rightarrow> user_name auth_data list" where
  "process_auth opts password =
     BSocksClient_auth_none #
       (case opt_username opts of None \<Rightarrow> [] | Some u \<Rightarrow> [BSocksClient_auth_password (Option_name u) password])"

section \<open>Reachable tables\<close>

definition from_socks :: "tcp_input \<Rightarrow> bool" where
  "from_socks i \<longleftrightarrow> (case i of Socks_ev _ _ \<Rightarrow> True | _ \<Rightarrow> False)"

definition report_hist :: "lwip \<Rightarrow> socks_effect list \<Rightarrow> tcp_client \<Rightarrow> tcp_hist \<Rightarrow> tcp_hist" where
  "report_hist lw effs cl h = (case effs of [Report ev] \<Rightarrow> hist_step (Socks_ev lw ev) ERR_OK cl h | _ \<Rightarrow> h)"

inductive tun_reach :: "auth_options \<Rightarrow> byte list \<Rightarrow> tun_state \<Rightarrow> (nat \<Rightarrow> tcp_hist) \<Rightarrow> bool" for opts password where
  tun_start: "tun_reach opts password
    \<lparr>ts_heap = Map.empty, ts_socks = Map.empty, ts_names = Map.empty, ts_clients = [], ts_num_clients = 0,
     ts_auth = process_auth opts password\<rparr> hs"
| tun_accept: "tun_reach opts password s hs \<Longrightarrow> ts_heap s p = None \<Longrightarrow> addr_ok local \<Longrightarrow>
    listener_accept_func opts (Some (p, raw)) concat_ok socks_ok local remote s = (s', err) \<Longrightarrow>
    tun_reach opts password s' (hs(p := hist0))"
| tun_input: "tun_reach opts password s hs \<Longrightarrow> ts_heap s p = Some cl \<Longrightarrow> tcp_enabled i cl (hs p) \<Longrightarrow> \<not> from_socks i \<Longrightarrow>
    tcp_do i cl = Some (cl', err) \<Longrightarrow> client_step p i s = Some s' \<Longrightarrow>
    tun_reach opts password s' (hs(p := hist_step i err cl (hs p)))"
| tun_socks: "tun_reach opts password s hs \<Longrightarrow> ts_heap s p = Some cl \<Longrightarrow> ts_socks s p = Some c \<Longrightarrow> socks_enabled i c \<Longrightarrow>
    socks_step p lw i s = Some (s', effs) \<Longrightarrow>
    tun_reach opts password s' (hs(p := report_hist lw effs cl (hs p)))"

text \<open>The list, the counter and each client by itself.\<close>

definition list_inv :: "tun_state \<Rightarrow> (nat \<Rightarrow> tcp_hist) \<Rightarrow> bool" where
  "list_inv s hs \<longleftrightarrow>
     distinct (ts_clients s) \<and> set (ts_clients s) = dom (ts_heap s) \<and> ts_num_clients s = int (length (ts_clients s)) \<and>
     (\<forall>p cl. ts_heap s p = Some cl \<longrightarrow> tcp_reach cl (hs p) \<and> \<not> tc_freed cl) \<and>
     (\<forall>p. ts_heap s p = None \<longrightarrow> ts_socks s p = None \<and> ts_names s p = None)"

text \<open>A client and its SOCKS client: there is one until it is closed, and it is up exactly when the client has been told.\<close>

definition socks_agrees :: "nat \<Rightarrow> socks_client option \<Rightarrow> tcp_client \<Rightarrow> tcp_hist \<Rightarrow> bool" where
  "socks_agrees n so cl h \<longleftrightarrow>
     (if tc_socks_closed cl then so = None
      else \<exists>c. so = Some c \<and> socks_reachable c \<and> sc_num_auth_info c = n \<and> (sc_state c = Up \<longleftrightarrow> h_reported h))"

definition table_inv :: "tun_state \<Rightarrow> (nat \<Rightarrow> tcp_hist) \<Rightarrow> bool" where
  "table_inv s hs \<longleftrightarrow> list_inv s hs \<and>
     (\<forall>p cl. ts_heap s p = Some cl \<longrightarrow> socks_agrees (length (ts_auth s)) (ts_socks s p) cl (hs p))"

lemma accept_inv:
  assumes "table_inv s hs" "ts_heap s p = None" "addr_ok local"
    "listener_accept_func opts (Some (p, raw)) concat_ok socks_ok local remote s = (s', err)"
  shows "table_inv s' (hs(p := hist0))"
proof -
  have a: "\<not> tc_freed (accepted_client raw local remote)" "\<not> tc_socks_closed (accepted_client raw local remote)"
    by (simp_all add: accepted_client_def)
  have c: "socks_agrees n (BSocksClient_Init True n local) (accepted_client raw local remote) hist0" for n
    using a socks_reachable.start [OF assms(3), of n]
    by (auto simp: socks_agrees_def BSocksClient_Init_def hist0_def)
  have t: "\<exists>c. BSocksClient_Init True n local = Some c" for n by (simp add: BSocksClient_Init_def)
  define s1 where "s1 = (if opt_username opts \<noteq> None \<and> opt_append_source opts
     then s\<lparr>ts_names := (ts_names s)(p \<mapsto> source_username (the (opt_username opts)) remote),
            ts_auth := (ts_auth s)[1 := set_username (Client_name p (length (source_username (the (opt_username opts)) remote)))
              (ts_auth s ! 1)]\<rparr> else s)"
  have f: "ts_heap s1 = ts_heap s" "ts_socks s1 = ts_socks s" "ts_clients s1 = ts_clients s"
    "ts_num_clients s1 = ts_num_clients s" "length (ts_auth s1) = length (ts_auth s)" "\<forall>q. q \<noteq> p \<longrightarrow> ts_names s1 q = ts_names s q"
    by (auto simp: s1_def)
  obtain c0 where c0: "BSocksClient_Init True (length (ts_auth s)) local = Some c0" using t by blast
  have p: "p \<notin> set (ts_clients s)" using assms(1,2) by (auto simp: table_inv_def list_inv_def)
  show ?thesis
  proof (cases "(opt_username opts \<noteq> None \<and> opt_append_source opts) \<and> \<not> concat_ok")
    case True
    then have "s' = s" using assms(4) by (auto simp: listener_accept_func_def)
    then show ?thesis using assms(1,2) by (auto simp: table_inv_def list_inv_def)
  next
    case False
    then have s': "s' = (if socks_ok
        then s1\<lparr>ts_heap := (ts_heap s)(p \<mapsto> accepted_client raw local remote), ts_socks := (ts_socks s)(p \<mapsto> c0),
                ts_clients := ts_clients s @ [p], ts_num_clients := ts_num_clients s + 1\<rparr>
        else s1\<lparr>ts_names := (ts_names s1)(p := None)\<rparr>)"
      using assms(4) c0
      by (cases socks_ok; cases "opt_username opts \<noteq> None \<and> opt_append_source opts")
        (auto simp: listener_accept_func_def Let_def s1_def BSocksClient_Init_def)
    show ?thesis
    proof (cases socks_ok)
      case True
      then show ?thesis
        using assms(1,2) p f a c [of "length (ts_auth s)"] tcp_reach.accept [of raw local remote] c0 s'
        by (auto simp: table_inv_def list_inv_def)
    next
      case False
      then show ?thesis using assms(1,2) f s' by (auto simp: table_inv_def list_inv_def)
    qed
  qed
qed

text \<open>A closed SOCKS client stays closed.\<close>

lemma write_loop_closed: "tc_socks_closed (loop_client (write_loop lw cl)) = tc_socks_closed cl"
proof (induction lw cl rule: write_loop.induct)
  case (1 lw cl)
  then show ?case
    by (subst write_loop.simps) (auto simp: Let_def loop_client_def logged_def)
qed

lemma send_out_closed:
  assumes "client_socks_recv_send_out lw cl = Some (cl', b)" "tc_socks_closed cl"
  shows "tc_socks_closed cl'"
  using assms write_loop_closed [of lw cl]
  by (auto simp: client_socks_recv_send_out_def client_abort_client_def client_handle_freed_client_def tcp_calls
      loop_client_def split: bind_split_asm sum.split_asm if_split_asm)

lemma stays_closed:
  assumes "tcp_do i cl = Some (cl', err)" "tc_socks_closed cl"
  shows "tc_socks_closed cl'"
proof (cases i)
  case (Tcp_sent lw n)
  then show ?thesis
    using assms
    by (auto simp: client_sent_func_def client_free_client_def client_handle_freed_client_def tcp_calls
        split: bind_split_asm if_split_asm dest: send_out_closed)
qed (use assms in \<open>auto simp: client_err_func_def client_recv_func_def client_free_client_def client_handle_freed_client_def
    client_socks_handler_def client_socks_send_handler_done_def client_socks_recv_handler_done_def client_murder_def
    client_send_to_socks_def tcp_calls split: bind_split_asm if_split_asm option.split_asm\<close>)

lemma free_socks_closes:
  "client_free_socks lw cl = Some cl' \<Longrightarrow> tc_socks_closed cl'"
  by (auto simp: client_free_socks_def client_free_client_def client_handle_freed_client_def tcp_calls
      split: bind_split_asm if_split_asm)

lemma error_closes:
  "client_socks_handler lw ev cl = Some cl' \<Longrightarrow> ev \<noteq> Event_up \<Longrightarrow> tc_socks_closed cl'"
  by (auto simp: client_socks_handler_def tcp_calls split: bind_split_asm if_split_asm socks_event.split_asm
      dest: free_socks_closes)

text \<open>A handler of one client, whose SOCKS client may have just moved.\<close>

lemma client_step_ok:
  assumes inv: "list_inv s hs"
    and others: "\<And>q cl. q \<noteq> p \<Longrightarrow> ts_heap s q = Some cl \<Longrightarrow> socks_agrees (length (ts_auth s)) (ts_socks s q) cl (hs q)"
    and p: "ts_heap s p = Some cl" and e: "tcp_enabled i cl (hs p)" and d: "tcp_do i cl = Some (cl', err)"
    and held: "if tc_socks_closed cl then ts_socks s p = None else \<exists>c. ts_socks s p = Some c \<and> held_ok c"
    and after: "\<not> tc_socks_closed cl' \<Longrightarrow> socks_agrees (length (ts_auth s)) (ts_socks s p) cl' (hist_step i err cl (hs p))"
  shows "\<exists>s'. client_step p i s = Some s' \<and> table_inv s' (hs(p := hist_step i err cl (hs p))) \<and>
    ts_clients s' = (if tc_freed cl' then remove1 p (ts_clients s) else ts_clients s) \<and> ts_auth s' = ts_auth s"
proof -
  have r: "tcp_reach cl' (hist_step i err cl (hs p))"
    using inv p e d tcp_reach.input [of cl "hs p" i cl' err] by (auto simp: list_inv_def)
  have fc: "tc_freed cl' \<Longrightarrow> tc_socks_closed cl'" using tcp_reach_inv [OF r] by (auto simp: tcp_invs split: if_splits)
  obtain s1 where s1: "(if \<not> tc_socks_closed cl \<and> tc_socks_closed cl' then free_socks_of p s else Some s) = Some s1"
    "s1 = s\<lparr>ts_socks := ts_socks s1\<rparr>" "ts_socks s1 p = (if tc_socks_closed cl' then None else ts_socks s p)"
    "\<forall>q. q \<noteq> p \<longrightarrow> ts_socks s1 q = ts_socks s q"
  proof (cases "\<not> tc_socks_closed cl \<and> tc_socks_closed cl'")
    case True
    then obtain c c' where "ts_socks s p = Some c" "BSocksClient_Free c = Some c'" using held free_ok by metis
    then show ?thesis
      using True that [of "s\<lparr>ts_socks := (ts_socks s)(p := None)\<rparr>"] by (simp add: free_socks_of_def)
  next
    case False
    then show ?thesis using that [of s] stays_closed [OF d] held by auto
  qed
  have mem: "p \<in> set (ts_clients s)" "0 < length (ts_clients s)"
    using inv p by (auto simp: list_inv_def intro: length_pos_if_in_set)
  let ?s = "if tc_freed cl'
     then s1\<lparr>ts_num_clients := ts_num_clients s1 - 1, ts_clients := remove1 p (ts_clients s1),
             ts_names := (ts_names s1)(p := None), ts_heap := (ts_heap s1)(p := None)\<rparr>
     else s1\<lparr>ts_heap := (ts_heap s1)(p \<mapsto> cl')\<rparr>"
  have step: "client_step p i s = Some ?s" using p d s1(1) by (simp add: client_step_def)
  have f: "ts_heap s1 = ts_heap s" "ts_names s1 = ts_names s" "ts_clients s1 = ts_clients s"
    "ts_num_clients s1 = ts_num_clients s" "ts_auth s1 = ts_auth s"
    by (subst s1(2), simp)+
  have "list_inv ?s (hs(p := hist_step i err cl (hs p)))"
    using inv p mem r fc s1(3,4) f
    by (auto simp: list_inv_def length_remove1 of_nat_diff Suc_le_eq)
  moreover have "socks_agrees (length (ts_auth ?s)) (ts_socks ?s q) cq ((hs(p := hist_step i err cl (hs p))) q)"
    if "ts_heap ?s q = Some cq" for q cq
  proof (cases "q = p")
    case True
    then have "\<not> tc_freed cl'" "cq = cl'" using that f by (auto split: if_splits)
    then show ?thesis using True after s1(3) f by (cases "tc_socks_closed cl'") (auto simp: socks_agrees_def)
  next
    case False
    then show ?thesis using that others [of q cq] s1(4) f by (auto split: if_splits)
  qed
  ultimately have "table_inv ?s (hs(p := hist_step i err cl (hs p)))" by (simp add: table_inv_def)
  then show ?thesis using step f by (intro exI [of _ ?s]) simp
qed

lemma not_from_socks_reported: "\<not> from_socks i \<Longrightarrow> h_reported (hist_step i err cl h) = h_reported h"
proof (cases i)
  case (Tcp_recv lw d)
  then show ?thesis by (cases d) auto
qed (auto simp: from_socks_def)

lemma input_ok:
  assumes inv: "table_inv s hs" and p: "ts_heap s p = Some cl" and e: "tcp_enabled i cl (hs p)"
    and i: "\<not> from_socks i" and d: "tcp_do i cl = Some (cl', err)"
  shows "\<exists>s'. client_step p i s = Some s' \<and> table_inv s' (hs(p := hist_step i err cl (hs p))) \<and>
    ts_clients s' = (if tc_freed cl' then remove1 p (ts_clients s) else ts_clients s) \<and> ts_auth s' = ts_auth s"
proof (rule client_step_ok [of s hs p cl i cl' err])
  have a: "socks_agrees (length (ts_auth s)) (ts_socks s p) cl (hs p)" using inv p by (simp add: table_inv_def)
  then show "if tc_socks_closed cl then ts_socks s p = None else \<exists>c. ts_socks s p = Some c \<and> held_ok c"
    using socks_reachable_ok by (auto simp: socks_agrees_def split: if_splits)
  show "socks_agrees (length (ts_auth s)) (ts_socks s p) cl' (hist_step i err cl (hs p))" if "\<not> tc_socks_closed cl'"
    using a that stays_closed [OF d] not_from_socks_reported [OF i] by (auto simp: socks_agrees_def split: if_splits)
qed (use inv p e d in \<open>auto simp: table_inv_def\<close>)

text \<open>An input of a SOCKS client keeps the table in order: an error it reports closes it, and being up is told to the
  client at once.\<close>

lemma socks_input_inv:
  assumes inv: "table_inv s hs" and p: "ts_heap s p = Some cl" and so: "ts_socks s p = Some c"
    and e: "socks_enabled i c" and st: "socks_step p lw i s = Some (s', effs)"
  shows "table_inv s' (hs(p := report_hist lw effs cl (hs p))) \<and> ts_auth s' = ts_auth s"
proof -
  obtain c' where d: "socks_do (socks_auth_info s) i c = Some (c', effs)"
    and rep: "socks_reports p lw effs (s\<lparr>ts_socks := (ts_socks s)(p \<mapsto> c')\<rparr>) = Some s'"
    using st so by (auto simp: socks_step_def split: bind_split_asm)
  let ?s = "s\<lparr>ts_socks := (ts_socks s)(p \<mapsto> c')\<rparr>"
  have a: "socks_agrees (length (ts_auth s)) (ts_socks s p) cl (hs p)" using inv p by (simp add: table_inv_def)
  then have open_: "\<not> tc_socks_closed cl" and c: "socks_reachable c" "sc_num_auth_info c = length (ts_auth s)"
    "sc_state c = Up \<longleftrightarrow> h_reported (hs p)"
    using so by (auto simp: socks_agrees_def split: if_splits)
  have step: "step_ok c' effs"
    using socks_do_ok [OF _ _ e, of "socks_auth_info s"] socks_reachable_ok [OF c(1)] d by (auto simp: result_ok_def)
  then have held: "held_ok c'" by (simp add: step_ok_def)
  have list: "list_inv ?s hs" using inv p by (auto simp: table_inv_def list_inv_def)
  have log: "Socks_freed \<notin> set (tc_log cl)"
    using inv p open_ tcp_reach_inv [of cl "hs p"] by (auto simp: table_inv_def list_inv_def tcp_invs)
  have others: "socks_agrees (length (ts_auth ?s)) (ts_socks ?s q) cq (hs q)" if "q \<noteq> p" "ts_heap ?s q = Some cq" for q cq
    using inv that by (simp add: table_inv_def)
  note shape = socks_do_shape [OF e d]
  obtain x where x: "effs = [x]" using shape by (auto simp: up_shape_def split: if_splits)
  show ?thesis
  proof (cases x)
    case (Report ev)
    have en: "tcp_enabled (Socks_ev lw ev) cl (hs p)"
      using shape log c(3) x Report by (cases ev) (auto simp: up_shape_def split: if_splits)
    obtain cl' where td: "tcp_do (Socks_ev lw ev) cl = Some (cl', ERR_OK)"
      using rep x Report p by (auto simp: client_step_def split: bind_split_asm option.split_asm)
    have after: "socks_agrees (length (ts_auth ?s)) (ts_socks ?s p) cl' (hist_step (Socks_ev lw ev) ERR_OK cl (hs p))"
      if "\<not> tc_socks_closed cl'"
    proof -
      have ev: "ev = Event_up" using td that error_closes by fastforce
      then have "\<not> failed effs" using x Report by (simp add: failed_def)
      then have "socks_reachable c'" using socks_reachable.input [OF c(1) e d] by blast
      moreover have "sc_state c' = Up \<and> sc_num_auth_info c' = length (ts_auth s)"
        using shape x Report ev c by (auto simp: up_shape_def split: if_splits)
      ultimately show ?thesis using that ev by (simp add: socks_agrees_def)
    qed
    have "client_step p (Socks_ev lw ev) ?s = Some s'"
      using rep x Report by (auto split: bind_split_asm)
    then show ?thesis
      using client_step_ok [of ?s hs p cl "Socks_ev lw ev" cl' ERR_OK, OF list others _ en td _ after] p open_ held x Report
      by (auto simp: report_hist_def)
  next
    case (Sock_send bs)
    then have "\<not> failed effs" using x by (simp add: failed_def)
    then have "socks_reachable c'" using socks_reachable.input [OF c(1) e d] by blast
    then have "socks_agrees (length (ts_auth s)) (Some c') cl (hs p)"
      using shape x Sock_send c open_ by (auto simp: socks_agrees_def up_shape_def split: if_splits)
    moreover have "s' = ?s" using rep x Sock_send by simp
    ultimately show ?thesis
      using list others p x Sock_send by (auto simp: table_inv_def report_hist_def fun_upd_idem)
  next
    case (Sock_recv n k)
    then have "\<not> failed effs" using x by (simp add: failed_def)
    then have "socks_reachable c'" using socks_reachable.input [OF c(1) e d] by blast
    then have "socks_agrees (length (ts_auth s)) (Some c') cl (hs p)"
      using shape x Sock_recv c open_ by (auto simp: socks_agrees_def up_shape_def split: if_splits)
    moreover have "s' = ?s" using rep x Sock_recv by simp
    ultimately show ?thesis
      using list others p x Sock_recv by (auto simp: table_inv_def report_hist_def fun_upd_idem)
  qed
qed

lemma tun_reach_inv: "tun_reach opts password s hs \<Longrightarrow> table_inv s hs"
proof (induction rule: tun_reach.induct)
  case (tun_accept s hs p local raw concat_ok socks_ok remote s' err)
  then show ?case by (intro accept_inv)
next
  case (tun_input s hs p cl i cl' err s')
  then show ?case using input_ok [of s hs p cl i cl' err] by (metis option.inject)
next
  case (tun_socks s hs p cl c i lw s' effs)
  then show ?case using socks_input_inv by blast
qed (simp add: table_inv_def list_inv_def)

lemma murder_step:
  assumes "table_inv s hs" "ts_clients s = p # ps"
  shows "\<exists>s' hs'. client_step p Murder s = Some s' \<and> table_inv s' hs' \<and> ts_clients s' = ps"
proof -
  have "p \<in> set (ts_clients s)" using assms(2) by simp
  then obtain cl where cl: "ts_heap s p = Some cl" "tcp_reach cl (hs p)" "\<not> tc_freed cl"
    using assms(1) unfolding table_inv_def list_inv_def by blast
  obtain cl' where m: "client_murder cl = Some cl'" "tc_freed cl'"
    using murder_ok [OF tcp_reach_inv [OF cl(2)] cl(3)] by blast
  show ?thesis
    using input_ok [OF assms(1) cl(1), of Murder cl' ERR_OK] cl(3) m assms(2) by (auto simp: from_socks_def)
qed

lemma murder_all_ok:
  "table_inv s hs \<Longrightarrow> \<exists>s'. murder_all s = Some s' \<and> ts_clients s' = [] \<and> ts_num_clients s' = 0 \<and> ts_heap s' = Map.empty"
proof (induction "ts_clients s" arbitrary: s hs)
  case Nil
  then show ?case by (subst murder_all.simps) (auto simp: table_inv_def list_inv_def)
next
  case (Cons p ps)
  obtain s1 hs1 where "client_step p Murder s = Some s1" "table_inv s1 hs1" "ts_clients s1 = ps"
    using murder_step [OF Cons.prems] Cons.hyps(2) by metis
  then show ?case
    using Cons.hyps(1) [of s1 hs1] Cons.hyps(2) by (subst murder_all.simps) (auto split: list.splits)
qed

section \<open>Properties\<close>

text \<open>C28. The table of relayed connections is exact: in every reachable state the list holds each live connection
  once and no freed one, the counter is their number, and shutting down frees every one of them: the loop
  of \<open>main\<close> ends with no client left and the counter at zero.\<close>

theorem tun_clients_exact:
  assumes "tun_reach opts password s hs"
  shows "distinct (ts_clients s) \<and> set (ts_clients s) = dom (ts_heap s) \<and> ts_num_clients s = int (length (ts_clients s)) \<and>
    (\<exists>s'. murder_all s = Some s' \<and> ts_clients s' = [] \<and> ts_num_clients s' = 0 \<and> ts_heap s' = Map.empty)"
  using tun_reach_inv [OF assms] murder_all_ok by (auto simp: table_inv_def list_inv_def)

definition ex_opts :: auth_options where
  "ex_opts = \<lparr>opt_username = Some [0x75], opt_append_source = True\<rparr>"

definition ex_tun0 :: tun_state where
  "ex_tun0 = \<lparr>ts_heap = Map.empty, ts_socks = Map.empty, ts_names = Map.empty, ts_clients = [], ts_num_clients = 0,
     ts_auth = process_auth ex_opts [0x70]\<rparr>"

definition ex_tun1 :: tun_state where
  "ex_tun1 = fst (listener_accept_func ex_opts (Some (1, ex_raw)) True True (Addr_V4 9 9) (Addr_V4 0x0100000A 0x0100) ex_tun0)"

definition ex_tun2 :: tun_state where
  "ex_tun2 = fst (listener_accept_func ex_opts (Some (2, ex_raw)) True True (Addr_V4 9 9) (Addr_V4 0x0200000A 0x0200) ex_tun1)"

lemmas ex_tun_defs = ex_tun2_def ex_tun1_def ex_tun0_def ex_opts_def listener_accept_func_def Let_def BSocksClient_Init_def

lemma ex_tun_reach: "tun_reach ex_opts [0x70] ex_tun1 (\<lambda>_. hist0)" "tun_reach ex_opts [0x70] ex_tun2 (\<lambda>_. hist0)"
proof -
  have "tun_reach ex_opts [0x70] ex_tun0 (\<lambda>_. hist0)" unfolding ex_tun0_def by (rule tun_start)
  then have "tun_reach ex_opts [0x70] ex_tun1 ((\<lambda>_. hist0)(1 := hist0))"
    by (rule tun_accept [where p = 1 and raw = ex_raw and concat_ok = True and socks_ok = True and local = "Addr_V4 9 9"
          and remote = "Addr_V4 0x0100000A 0x0100" and err = ERR_OK]) (simp_all add: ex_tun_defs)
  then show 1: "tun_reach ex_opts [0x70] ex_tun1 (\<lambda>_. hist0)" by (simp add: fun_upd_idem)
  then have "tun_reach ex_opts [0x70] ex_tun2 ((\<lambda>_. hist0)(2 := hist0))"
    by (rule tun_accept [where p = 2 and raw = ex_raw and concat_ok = True and socks_ok = True and local = "Addr_V4 9 9"
          and remote = "Addr_V4 0x0200000A 0x0200" and err = ERR_OK]) (simp_all add: ex_tun_defs)
  then show "tun_reach ex_opts [0x70] ex_tun2 (\<lambda>_. hist0)" by (simp add: fun_upd_idem)
qed

lemma tun_clients_exact_witness:
  "ts_clients ex_tun2 = [1, 2] \<and> ts_num_clients ex_tun2 = int (length (ts_clients ex_tun2)) \<and> (\<exists>s'. murder_all ex_tun2 = Some s')"
  using tun_clients_exact [OF ex_tun_reach(2)] by (auto simp: ex_tun_defs)

lemma socks_step_auth:
  assumes "tun_reach opts password s hs" "ts_heap s p = Some cl" "ts_socks s p = Some c" "socks_enabled i c"
    "socks_step p lw i s = Some (s', effs)"
  shows "ts_auth s' = ts_auth s"
  using socks_input_inv [OF tun_reach_inv [OF assms(1)] assms(2-5)] by simp

lemma tun_reach_auth:
  "tun_reach opts password s hs \<Longrightarrow> opt_username opts = Some u \<Longrightarrow> \<exists>n. ts_auth s = [No_auth, Password_data n password]"
proof (induction rule: tun_reach.induct)
  case (tun_accept s hs p local raw concat_ok socks_ok remote s' err)
  then show ?case by (auto simp: listener_accept_func_def Let_def split: if_splits option.splits)
next
  case (tun_input s hs p cl i cl' err s')
  then show ?case
    by (auto simp: client_step_def free_socks_of_def split: if_splits option.splits bind_split_asm)
next
  case (tun_socks s hs p cl c i lw s' effs)
  then show ?case using socks_step_auth [OF tun_socks.hyps(1-5)] by simp
qed (simp add: process_auth_def BSocksClient_auth_none_def BSocksClient_auth_password_def)

text \<open>The answer to the greeting, in a table where the SOCKS client waits for it.\<close>

lemma hello_answered:
  assumes c: "ts_socks s q = Some c" "sc_state c = Sent_hello" "sc_recv_len c = 0" "receive_ok c"
    "sc_num_auth_info c = length (ts_auth s)"
    and auth: "socks_auth_info s = [Auth_none, ai]"
    and pw: "password \<noteq> []" "length password \<le> 255"
  shows "ai = Auth_password name password \<Longrightarrow> name \<noteq> [] \<Longrightarrow> length name \<le> 255 \<Longrightarrow>
      \<exists>s'. socks_step q lw (In_received (Some g) [SOCKS_VERSION, 2]) s = Some (s', [Sock_send (socks_password name password)])"
    "ai = Auth_freed n password \<Longrightarrow> 0 < n \<Longrightarrow> n \<le> 255 \<Longrightarrow>
      socks_step q lw (In_received (Some g) [SOCKS_VERSION, 2]) s = None"
proof -
  obtain b where b: "sc_buffer c = Some b" "sc_recv_dest c = 0" "sc_recv_total c = 2" "length b = 2"
    using c(2,4) by (auto simp: receive_ok_def receiving_def split: option.splits)
  let ?c = "c\<lparr>sc_buffer := Some [SOCKS_VERSION, 2], sc_recv_len := 2\<rparr>"
  have "length (ts_auth s) = 2" using arg_cong [OF auth, of length] by (simp add: socks_auth_info_def)
  then have arr: "auth_array (socks_auth_info s) ?c = Some [Auth_none, ai]" using c(5) auth by (simp add: auth_array_def)
  have do: "socks_do (socks_auth_info s) (In_received (Some g) [SOCKS_VERSION, 2]) c =
      received_hello (socks_auth_info s) (Some g) ?c"
    using b c(2,3) by (simp add: recv_handler_done_def write_buffer_Some Let_def received_all_def overwrite_all numeral_2_eq_2)
  have two: "uint (2 :: byte) = SOCKS_METHOD_USERNAME_PASSWORD" by (simp add: socks_consts)
  have none: "auth_type Auth_none \<noteq> SOCKS_METHOD_USERNAME_PASSWORD" by (simp add: socks_consts)
  {
    assume a: "ai = Auth_password name password" "name \<noteq> []" "length name \<le> 255"
    then have "find (\<lambda>ai. auth_type ai = uint (2 :: byte)) [Auth_none, ai] = Some (Auth_password name password)"
      unfolding two using none by simp
    from received_hello_password [of ?c _ 2, OF _ _ arr this a(3) pw(2) a(2) pw(1), of "[SOCKS_VERSION, 2]" g]
    show "\<exists>s'. socks_step q lw (In_received (Some g) [SOCKS_VERSION, 2]) s =
        Some (s', [Sock_send (socks_password name password)])"
      using c(1) do by (simp add: socks_step_def)
  next
    assume a: "ai = Auth_freed n password" "0 < n" "n \<le> 255"
    then have "find (\<lambda>ai. auth_type ai = uint (2 :: byte)) [Auth_none, ai] = Some (Auth_freed n password)"
      unfolding two using none by simp
    from received_hello_freed [of ?c _ 2, OF _ _ arr this a(2,3) pw(2,1), of "[SOCKS_VERSION, 2]" g]
    show "socks_step q lw (In_received (Some g) [SOCKS_VERSION, 2]) s = None"
      using c(1) do by (simp add: socks_step_def)
  }
qed

text \<open>C36. With the source address appended to the user name, accepting a connection \<open>p\<close> changes the name every other
  connection authenticates with. In any reachable table, let \<open>q\<close> be a relayed connection whose SOCKS client waits for
  the answer to its greeting. If \<open>p\<close> is accepted now and the server then picks the password method, \<open>q\<close> sends the name made
  for \<open>p\<close>, not its own. If \<open>p\<close> is also freed before the answer comes, or \<open>BSocksClient_Init\<close> failed for it, the name is
  read from freed memory, which is no result here.\<close>

theorem accept_changes_username_of_others:
  assumes "tun_reach opts password s hs" "opt_username opts = Some u" "opt_append_source opts"
    "ts_socks s q = Some c" "sc_state c = Sent_hello" "sc_recv_len c = 0"
    "ts_heap s p = None" "addr_ok local"
    "length (source_username u remote) \<le> 255" "password \<noteq> []" "length password \<le> 255"
  shows "\<exists>s1 s2. listener_accept_func opts (Some (p, raw)) True True local remote s = (s1, ERR_OK) \<and>
    socks_step q lw (In_received (Some g) [SOCKS_VERSION, 2]) s1 =
      Some (s2, [Sock_send (socks_password (source_username u remote) password)]) \<and>
    (\<forall>i s3. client_step p i s1 = Some s3 \<and> ts_heap s3 p = None \<longrightarrow>
       socks_step q lw (In_received (Some g) [SOCKS_VERSION, 2]) s3 = None) \<and>
    socks_step q lw (In_received (Some g) [SOCKS_VERSION, 2])
      (fst (listener_accept_func opts (Some (p, raw)) True False local remote s)) = None"
proof -
  let ?name = "source_username u remote" and ?in = "In_received (Some g) [SOCKS_VERSION, 2]"
  have inv: "table_inv s hs" using assms(1) by (rule tun_reach_inv)
  obtain n where auth: "ts_auth s = [No_auth, Password_data n password]" using tun_reach_auth [OF assms(1,2)] by blast
  obtain cl where "ts_heap s q = Some cl" using inv assms(4) by (cases "ts_heap s q") (auto simp: table_inv_def list_inv_def)
  then have "socks_agrees (length (ts_auth s)) (Some c) cl (hs q)" and qp: "q \<noteq> p"
    using inv assms(4,7) unfolding table_inv_def by (metis, metis option.simps(3))
  then have num: "sc_num_auth_info c = 2" and "socks_reachable c"
    using auth by (auto simp: socks_agrees_def split: if_splits)
  then have r: "receive_ok c" using socks_reachable_ok by blast
  let ?auth = "[No_auth, Password_data (Client_name p (length ?name)) password]"
  obtain c1 where c1: "BSocksClient_Init True 2 local = Some c1" by (simp add: BSocksClient_Init_def)
  let ?s1 = "s\<lparr>ts_names := (ts_names s)(p \<mapsto> ?name), ts_auth := ?auth, ts_heap := (ts_heap s)(p \<mapsto> accepted_client raw local remote),
      ts_socks := (ts_socks s)(p \<mapsto> c1), ts_clients := ts_clients s @ [p], ts_num_clients := ts_num_clients s + 1\<rparr>"
  have acc: "listener_accept_func opts (Some (p, raw)) True True local remote s = (?s1, ERR_OK)"
    "fst (listener_accept_func opts (Some (p, raw)) True False local remote s) =
       s\<lparr>ts_auth := ?auth, ts_names := (ts_names s)(p := None)\<rparr>"
    using assms(2,3) auth c1 by (simp_all add: listener_accept_func_def BSocksClient_Init_def Let_def numeral_2_eq_2)
  have ne: "?name \<noteq> []" "0 < length ?name" by (simp_all add: source_username_def)
  have freed: "socks_step q lw ?in s3 = None"
    if "ts_socks s3 q = Some c" "ts_auth s3 = ?auth" "ts_names s3 p = None" for s3
    by (rule hello_answered(2) [of s3 q c "Auth_freed (length ?name) password", OF _ assms(5,6) r])
      (use that num ne assms(9-11) in \<open>simp_all add: socks_auth_info_def\<close>)
  have "\<exists>s2. socks_step q lw ?in ?s1 = Some (s2, [Sock_send (socks_password ?name password)])"
    by (rule hello_answered(1) [of ?s1 q c "Auth_password ?name password", OF _ assms(5,6) r])
      (use assms(4,9-11) qp num ne in \<open>simp_all add: socks_auth_info_def\<close>)
  moreover have "socks_step q lw ?in s3 = None" if st: "client_step p i ?s1 = Some s3" "ts_heap s3 p = None" for i s3
    by (rule freed) (use st assms(4) qp in \<open>auto simp: client_step_def free_socks_of_def
        split: bind_split_asm if_split_asm option.split_asm\<close>)
  moreover have "socks_step q lw ?in (fst (listener_accept_func opts (Some (p, raw)) True False local remote s)) = None"
    unfolding acc(2) by (rule freed) (use assms(4) in simp_all)
  ultimately show ?thesis using acc(1) by blast
qed

text \<open>The first connection's SOCKS client has sent its greeting and waits, while the second connection is accepted.\<close>

definition ex_greeting :: "socks_input list" where
  "ex_greeting = [In_connector (Some (\<lambda>_. 0)) True False, In_sent (Some (\<lambda>_. 0))]"

fun socks_steps :: "nat \<Rightarrow> lwip \<Rightarrow> socks_input list \<Rightarrow> tun_state \<Rightarrow> tun_state option" where
  "socks_steps p lw [] s = Some s"
| "socks_steps p lw (i # is) s =
     (case (ts_heap s p, ts_socks s p) of
        (Some cl, Some c) \<Rightarrow>
          if socks_enabled i c then Option.bind (socks_step p lw i s) (\<lambda>(s, _). socks_steps p lw is s) else None
      | _ \<Rightarrow> None)"

lemma socks_steps_reach:
  "socks_steps p lw is s = Some s' \<Longrightarrow> tun_reach opts password s hs \<Longrightarrow> \<exists>hs'. tun_reach opts password s' hs'"
proof (induction "is" arbitrary: s hs)
  case (Cons i "is")
  then obtain cl c s1 effs where "ts_heap s p = Some cl" "ts_socks s p = Some c" "socks_enabled i c"
    "socks_step p lw i s = Some (s1, effs)" "socks_steps p lw is s1 = Some s'"
    by (auto split: option.split_asm if_split_asm bind_split_asm)
  then show ?case using Cons tun_reach.tun_socks by blast
qed auto

definition ex_waiting :: tun_state where
  "ex_waiting = the (socks_steps 1 ex_lwip ex_greeting ex_tun1)"

lemma ex_waiting_runs:
  "case socks_steps 1 ex_lwip ex_greeting ex_tun1 of None \<Rightarrow> False
   | Some s \<Rightarrow> Option.is_none (ts_heap s 2) \<and>
       (case ts_socks s 1 of None \<Rightarrow> False | Some c \<Rightarrow> sc_state c = Sent_hello \<and> sc_recv_len c = 0)"
  by code_simp

lemma accept_changes_username_of_others_witness:
  "\<exists>s1 s2. listener_accept_func ex_opts (Some (2, ex_raw)) True True (Addr_V4 9 9) (Addr_V4 0x0200000A 0x0200) ex_waiting =
       (s1, ERR_OK) \<and>
     socks_step 1 ex_lwip (In_received (Some (\<lambda>_. 0)) [SOCKS_VERSION, 2]) s1 =
       Some (s2, [Sock_send (socks_password (source_username [0x75] (Addr_V4 0x0200000A 0x0200)) [0x70])])"
proof -
  obtain c where w: "socks_steps 1 ex_lwip ex_greeting ex_tun1 = Some ex_waiting" "ts_heap ex_waiting 2 = None"
    "ts_socks ex_waiting 1 = Some c" "sc_state c = Sent_hello" "sc_recv_len c = 0"
    using ex_waiting_runs by (auto simp: ex_waiting_def Option.is_none_def split: option.splits)
  obtain hs where "tun_reach ex_opts [0x70] ex_waiting hs" using socks_steps_reach [OF w(1) ex_tun_reach(1)] by blast
  moreover have "length (source_username [0x75] (Addr_V4 0x0200000A 0x0200)) \<le> 255" unfolding source_username_def by code_simp
  moreover have "opt_username ex_opts = Some [0x75]" "opt_append_source ex_opts" "addr_ok (Addr_V4 9 9)"
    by (simp_all add: ex_opts_def)
  ultimately show ?thesis
    using accept_changes_username_of_others [of ex_opts "[0x70]" ex_waiting hs "[0x75]" 1 c 2 "Addr_V4 9 9"
        "Addr_V4 0x0200000A 0x0200" ex_raw ex_lwip "\<lambda>_. 0"] w(2-5) by auto
qed

end
