(* ===== verification/Socks_Udpgw.thy ===== *)
theory Socks_Udpgw
  imports Udpgw_Run Socks_Run
begin

text \<open>
  The udpgw client over SOCKS (\<open>tun2socks/SocksUdpGwClient.c\<close>, the branches of the build, which does not
  define \<open>ANDROID_UDP\<close>): it keeps a udpgw client for good and a SOCKS client to the udpgw server while there
  is one, and a timer that tries to connect again. Both clients are the models of those components, so a
  step here runs theirs: what the SOCKS client reports and the server errors the udpgw client reports are
  handled by this object. Failed assertions are \<open>None\<close>.
\<close>

section \<open>State and handlers\<close>

record socks_udpgw =
  su_udpgw :: udpgw_client
  su_timer :: bool
  su_have_socks :: bool
  su_socks :: socks_client
  su_socks_up :: bool
  su_num_auth_info :: nat
  su_remote :: baddr

definition su_assert :: "bool \<Rightarrow> unit option" where
  "su_assert b = (if b then Some () else None)"

definition free_socks :: "socks_udpgw \<Rightarrow> socks_udpgw option" where
  "free_socks su = do {
     su_assert (su_have_socks su);
     su \<leftarrow> (if su_socks_up su
           then do { su_assert (uc_have_server (su_udpgw su));
                     Some (su\<lparr>su_udpgw := UdpGwClient_DisconnectServer (su_udpgw su)\<rparr>) }
           else Some su);
     cl \<leftarrow> BSocksClient_Free (su_socks su);
     Some (su\<lparr>su_socks := cl, su_have_socks := False\<rparr>) }"

definition set_timer :: "socks_udpgw \<Rightarrow> socks_udpgw" where
  "set_timer su = su\<lparr>su_timer := True\<rparr>"

definition try_connect :: "bool \<Rightarrow> socks_udpgw \<Rightarrow> socks_udpgw option" where
  "try_connect connector_ok su = do {
     su_assert (\<not> su_have_socks su \<and> \<not> su_timer su);
     (case BSocksClient_Init connector_ok (su_num_auth_info su) (su_remote su) of
        None \<Rightarrow> Some (set_timer su)
      | Some cl \<Rightarrow> Some (su\<lparr>su_socks := cl, su_have_socks := True, su_socks_up := False\<rparr>)) }"

definition reconnect_timer_handler :: "bool \<Rightarrow> socks_udpgw \<Rightarrow> socks_udpgw option" where
  "reconnect_timer_handler connector_ok su = do {
     su_assert (\<not> su_have_socks su);
     try_connect connector_ok su }"

definition socks_client_handler :: "bool \<Rightarrow> socks_event \<Rightarrow> socks_udpgw \<Rightarrow> socks_udpgw option" where
  "socks_client_handler decoder_ok event su = do {
     su_assert (su_have_socks su);
     (case event of
        Event_up \<Rightarrow> do {
          su_assert (\<not> su_socks_up su \<and> \<not> uc_have_server (su_udpgw su));
          (let (ok, cl) = UdpGwClient_ConnectServer decoder_ok (su_udpgw su);
               su = su\<lparr>su_udpgw := cl\<rparr>
           in if ok then Some (su\<lparr>su_socks_up := True\<rparr>)
              else map_option set_timer (free_socks su)) }
      | _ \<Rightarrow> map_option set_timer (free_socks su)) }"

definition udpgw_handler_servererror :: "socks_udpgw \<Rightarrow> socks_udpgw option" where
  "udpgw_handler_servererror su = do {
     su_assert (su_have_socks su \<and> su_socks_up su);
     map_option set_timer (free_socks su) }"

definition SocksUdpGwClient_Init ::
  "int \<Rightarrow> int \<Rightarrow> bool \<Rightarrow> bool \<Rightarrow> nat \<Rightarrow> baddr \<Rightarrow> socks_client \<Rightarrow> bool \<Rightarrow> socks_udpgw option" where
  "SocksUdpGwClient_Init udp_mtu max_connections queue_ok connector_ok num_auth_info remote raw raw_up = do {
     cl \<leftarrow> UdpGwClient_Init TYPE(64) udp_mtu max_connections queue_ok;
     try_connect connector_ok
       \<lparr>su_udpgw = cl, su_timer = False, su_have_socks = False, su_socks = raw, su_socks_up = raw_up,
        su_num_auth_info = num_auth_info, su_remote = remote\<rparr> }"

definition SocksUdpGwClient_Free :: "socks_udpgw \<Rightarrow> socks_udpgw option" where
  "SocksUdpGwClient_Free su = do {
     su \<leftarrow> (if su_have_socks su then free_socks su else Some su);
     su \<leftarrow> Some (su\<lparr>su_timer := False\<rparr>);
     Some (su\<lparr>su_udpgw := UdpGwClient_Free (su_udpgw su)\<rparr>) }"

definition SocksUdpGwClient_SubmitPacket ::
  "nat option \<Rightarrow> bool \<Rightarrow> baddr \<Rightarrow> baddr \<Rightarrow> bool \<Rightarrow> byte list \<Rightarrow> socks_udpgw \<Rightarrow> (socks_udpgw \<times> client_effect list) option" where
  "SocksUdpGwClient_SubmitPacket malloc flow_ok local remote is_dns data su =
     map_option (apfst (\<lambda>cl. su\<lparr>su_udpgw := cl\<rparr>))
       (UdpGwClient_SubmitPacket malloc flow_ok local remote is_dns data (su_udpgw su))"

section \<open>Running both clients\<close>

text \<open>An input of the SOCKS client comes with what the array of authentication data holds then: it is the caller's array,
  the same for all SOCKS clients of the program.\<close>

datatype su_input = Su_socks bool "auth_info list" socks_input | Su_timer bool | Su_udpgw client_event

fun su_effects :: "bool \<Rightarrow> socks_effect list \<Rightarrow> socks_udpgw \<Rightarrow> socks_udpgw option" where
  "su_effects decoder_ok [] su = Some su"
| "su_effects decoder_ok (e # es) su =
     Option.bind (case e of Report ev \<Rightarrow> socks_client_handler decoder_ok ev su | _ \<Rightarrow> Some su) (su_effects decoder_ok es)"

fun su_enabled :: "su_input \<Rightarrow> socks_udpgw \<Rightarrow> bool" where
  "su_enabled (Su_socks decoder_ok auths i) su =
     (su_have_socks su \<and> socks_enabled i (su_socks su) \<and> auths_live auths (su_socks su))"
| "su_enabled (Su_timer connector_ok) su = su_timer su"
| "su_enabled (Su_udpgw ev) su =
     ((case ev of Connect _ \<Rightarrow> False | Disconnect \<Rightarrow> False | _ \<Rightarrow> True) \<and> client_enabled ev (su_udpgw su))"

fun su_do :: "su_input \<Rightarrow> socks_udpgw \<Rightarrow> (socks_udpgw \<times> client_effect list) option" where
  "su_do (Su_socks decoder_ok auths i) su = do {
     (cl, effs) \<leftarrow> socks_do auths i (su_socks su);
     su \<leftarrow> su_effects decoder_ok effs (su\<lparr>su_socks := cl\<rparr>);
     Some (su, []) }"
| "su_do (Su_timer connector_ok) su =
     map_option (\<lambda>su. (su, [])) (reconnect_timer_handler connector_ok (su\<lparr>su_timer := False\<rparr>))"
| "su_do (Su_udpgw ev) su = do {
     (cl, effs) \<leftarrow> client_do ev (su_udpgw su);
     su \<leftarrow> Some (su\<lparr>su_udpgw := cl\<rparr>);
     su \<leftarrow> (if Server_error \<in> set effs then udpgw_handler_servererror su else Some su);
     Some (su, effs) }"

inductive su_reach :: "socks_udpgw \<Rightarrow> bool" where
  su_start: "0 \<le> udp_mtu \<Longrightarrow> 0 < max_connections \<Longrightarrow> addr_ok remote \<Longrightarrow>
    SocksUdpGwClient_Init udp_mtu max_connections queue_ok connector_ok num_auth_info remote raw raw_up = Some su \<Longrightarrow> su_reach su"
| su_step: "su_reach su \<Longrightarrow> su_enabled i su \<Longrightarrow> su_do i su = Some (su', effs) \<Longrightarrow> su_reach su'"

section \<open>The invariant\<close>

definition su_inv :: "socks_udpgw \<Rightarrow> bool" where
  "su_inv su \<longleftrightarrow>
     client_reachable (su_udpgw su) \<and> addr_ok (su_remote su) \<and> (su_timer su \<longleftrightarrow> \<not> su_have_socks su) \<and>
     (su_have_socks su \<longrightarrow> socks_reachable (su_socks su) \<and> (su_socks_up su \<longleftrightarrow> sc_state (su_socks su) = Up)) \<and>
     (uc_have_server (su_udpgw su) \<longleftrightarrow> su_have_socks su \<and> su_socks_up su)"

text \<open>Freeing the SOCKS client leaves a state to which only the timer has to be added.\<close>

lemma free_socks_retry:
  assumes "client_reachable (su_udpgw su)" "addr_ok (su_remote su)" "su_have_socks su" "held_ok (su_socks su)"
    "uc_have_server (su_udpgw su) \<longleftrightarrow> su_socks_up su"
  shows "\<exists>su'. map_option set_timer (free_socks su) = Some su' \<and> su_inv su' \<and> \<not> su_have_socks su'"
proof -
  obtain cl where cl: "BSocksClient_Free (su_socks su) = Some cl" using free_ok [OF assms(4)] by blast
  show ?thesis
  proof (cases "su_socks_up su")
    case True
    have "client_reachable (UdpGwClient_DisconnectServer (su_udpgw su))"
      by (rule client_reachable.handle [OF assms(1), of Disconnect]) (use assms(5) True in simp_all)
    then show ?thesis
      using assms cl True by (auto simp: free_socks_def su_assert_def su_inv_def set_timer_def UdpGwClient_DisconnectServer_def)
  next
    case False
    then show ?thesis using assms cl by (auto simp: free_socks_def su_assert_def su_inv_def set_timer_def)
  qed
qed

lemma try_connect_ok:
  assumes "client_reachable (su_udpgw su)" "addr_ok (su_remote su)" "\<not> su_have_socks su" "\<not> su_timer su"
    "\<not> uc_have_server (su_udpgw su)"
  shows "\<exists>su'. try_connect connector_ok su = Some su' \<and> su_inv su'"
proof (cases "BSocksClient_Init connector_ok (su_num_auth_info su) (su_remote su)")
  case None
  then show ?thesis using assms by (simp add: try_connect_def su_assert_def su_inv_def set_timer_def)
next
  case (Some cl)
  have "connector_ok" using Some by (auto simp: BSocksClient_Init_def split: if_splits)
  then have "socks_reachable cl" using Some assms(2) socks_reachable.start by simp
  moreover have "sc_state cl = Connecting" using Some by (auto simp: BSocksClient_Init_def split: if_splits)
  ultimately show ?thesis using Some assms by (simp add: try_connect_def su_assert_def su_inv_def)
qed

lemma socks_input_ok:
  assumes inv: "su_inv su" and e: "su_have_socks su" "socks_enabled i (su_socks su)" "auths_live auths (su_socks su)"
  shows "\<exists>su'. su_do (Su_socks decoder_ok auths i) su = Some (su', []) \<and> su_inv su'"
proof -
  have r: "socks_reachable (su_socks su)" "su_socks_up su \<longleftrightarrow> sc_state (su_socks su) = Up" using inv e(1) by (auto simp: su_inv_def)
  obtain cl effs where d: "socks_do auths i (su_socks su) = Some (cl, effs)" "step_ok cl effs"
    using result_okD [OF socks_do_ok [OF _ _ e(2)] e(3)] socks_reachable_ok [OF r(1)] by blast
  have held: "held_ok cl" using d(2) by (simp add: step_ok_def)
  let ?su = "su\<lparr>su_socks := cl\<rparr>"
  obtain su1 where retry: "map_option set_timer (free_socks ?su) = Some su1" "su_inv su1"
    using free_socks_retry [of ?su] inv e(1) held by (auto simp: su_inv_def)
  note shape = socks_do_shape [OF e(2) d(1)]
  consider "effs = [Report Event_error] \<or> effs = [Report Event_error_closed]"
    | "effs = [Report Event_up]" "sc_state cl = Up" "\<not> su_socks_up su"
    | x where "effs = [x]" "\<And>ev. x \<noteq> Report ev" "sc_state cl \<noteq> Up" "\<not> su_socks_up su"
  proof (cases "sc_state (su_socks su) = Up")
    case True
    then show ?thesis using shape that(1) by simp
  next
    case False
    then obtain x where x: "effs = [x]" "effs = [Report Event_up] \<longleftrightarrow> sc_state cl = Up" using shape by (auto simp: up_shape_def)
    show ?thesis
    proof (cases x)
      case (Report ev)
      then show ?thesis using x False r(2) that(1,2) by (cases ev) auto
    qed (use x False r(2) that(3) in auto)
  qed
  then show ?thesis
  proof cases
    case 1
    then have "su_do (Su_socks decoder_ok auths i) su = Some (su1, [])"
      using d(1) retry(1) e(1) by (auto simp: socks_client_handler_def su_assert_def)
    then show ?thesis using retry(2) by blast
  next
    case 2
    have up: "socks_reachable cl"
      by (rule socks_reachable.input [OF r(1) e(2) d(1)]) (use 2 in \<open>simp add: failed_def\<close>)
    have "client_reachable (snd (UdpGwClient_ConnectServer True (su_udpgw su)))"
      by (rule client_reachable.handle [of "su_udpgw su" "Connect True" _ "[]"]) (use inv 2 in \<open>simp_all add: su_inv_def\<close>)
    then have c: "client_reachable ((su_udpgw su)\<lparr>uc_have_server := True\<rparr>)" by (simp add: UdpGwClient_ConnectServer_def)
    have same: "su\<lparr>su_socks := cl, su_udpgw := su_udpgw su\<rparr> = ?su" by simp
    have h: "\<not> uc_have_server (su_udpgw su)" using inv 2(3) by (simp add: su_inv_def)
    show ?thesis
    proof (cases decoder_ok)
      case True
      then show ?thesis
        using d(1) 2 e(1) h inv up c
        by (simp add: socks_client_handler_def su_assert_def UdpGwClient_ConnectServer_def) (simp add: su_inv_def)
    next
      case False
      then have "su_do (Su_socks decoder_ok auths i) su = Some (su1, [])"
        using d(1) 2 e(1) h retry(1) by (auto simp: socks_client_handler_def su_assert_def UdpGwClient_ConnectServer_def same)
      then show ?thesis using retry(2) by blast
    qed
  next
    case 3
    have "\<not> failed effs" using 3(1) 3(2) [of Event_error] 3(2) [of Event_error_closed] by (auto simp: failed_def)
    then have "socks_reachable cl" using socks_reachable.input [OF r(1) e(2) d(1)] by blast
    moreover have "su_do (Su_socks decoder_ok auths i) su = Some (?su, [])" using d(1) 3(1,2) by (cases x) auto
    ultimately show ?thesis using inv e(1) 3 by (auto simp: su_inv_def)
  qed
qed

lemma send_server:
  "connection_send p f d cl = (cl', effs) \<Longrightarrow> uc_have_server cl' = uc_have_server cl \<and> Server_error \<notin> set effs"
  by (auto simp: connection_send_def update_con_def Let_def split: if_splits)

lemmas udpgw_state_defs = insert_by_conaddr_def remove_by_conaddr_def insert_by_conid_def update_con_def touch_def

lemma submit_server:
  assumes "UdpGwClient_SubmitPacket malloc flow_ok l r is_dns data cl = Some (cl', effs)"
  shows "uc_have_server cl' = uc_have_server cl \<and> Server_error \<notin> set effs"
proof -
  have init: "connection_init m f c a fl d = Some c' \<Longrightarrow> uc_have_server c' = uc_have_server c" for m f c a fl d c'
    by (auto simp: connection_init_def find_unused_conid_def udpgw_state_defs Let_def split: option.splits if_splits)
  have reuse: "reuse_connection c a = Some (p, c') \<Longrightarrow> uc_have_server c' = uc_have_server c" for c a p c'
    by (auto simp: reuse_connection_def udpgw_state_defs Let_def split: list.splits)
  have touch: "uc_have_server (touch p c) = uc_have_server c" for p c by (simp add: touch_def)
  show ?thesis
    using assms unfolding UdpGwClient_SubmitPacket_def Let_def
    by (auto simp: touch split: option.splits if_splits dest!: send_server init reuse)
qed

lemma udpgw_event_server:
  assumes "case ev of Connect _ \<Rightarrow> False | Disconnect \<Rightarrow> False | _ \<Rightarrow> True" "client_do ev cl = Some (cl', effs)"
  shows "uc_have_server cl' = uc_have_server cl \<and> (Server_error \<in> set effs \<longrightarrow> ev = Decoder_error)"
proof (cases ev)
  case (Submit malloc flow_ok l r is_dns data)
  then show ?thesis using assms(2) submit_server by auto
next
  case (First_job p)
  then have "connection_first_job_handler p cl = (cl', effs)" using assms(2) by simp
  from send_server [OF this [unfolded connection_first_job_handler_def Let_def]]
  show ?thesis by (simp add: update_con_def)
qed (use assms in \<open>auto simp: bw_output_handler_recv_def update_con_def recv_interface_handler_send_def touch_def Let_def
    send_monitor_handler_def keepalive_if_handler_done_def decoder_handler_error_def split: sum.splits option.splits if_splits\<close>)

lemma udpgw_input_ok:
  assumes inv: "su_inv su" and e: "su_enabled (Su_udpgw ev) su"
  shows "\<exists>su' effs. su_do (Su_udpgw ev) su = Some (su', effs) \<and> su_inv su'"
proof -
  have en: "case ev of Connect _ \<Rightarrow> False | Disconnect \<Rightarrow> False | _ \<Rightarrow> True" "client_enabled ev (su_udpgw su)" using e by simp_all
  have reach: "client_reachable (su_udpgw su)" using inv by (simp add: su_inv_def)
  obtain cl effs where d: "client_do ev (su_udpgw su) = Some (cl, effs)"
    using do_ok [OF client_reachable_inv [OF reach] en(2)] by blast
  have cl: "client_reachable cl" by (rule client_reachable.handle [OF reach en(2) d])
  note s = udpgw_event_server [OF en(1) d]
  let ?su = "su\<lparr>su_udpgw := cl\<rparr>"
  have inv': "su_inv ?su" using inv cl s by (simp add: su_inv_def)
  show ?thesis
  proof (cases "Server_error \<in> set effs")
    case False
    then show ?thesis using d inv' by simp
  next
    case True
    then have "uc_have_server (su_udpgw su)" using s en(2) by simp
    then have up: "su_have_socks su" "su_socks_up su" using inv by (auto simp: su_inv_def)
    have "held_ok (su_socks su)" using inv up(1) socks_reachable_ok by (auto simp: su_inv_def)
    then obtain su1 where "map_option set_timer (free_socks ?su) = Some su1" "su_inv su1"
      using free_socks_retry [of ?su] inv' up by (auto simp: su_inv_def)
    then show ?thesis using d True up by (auto simp: udpgw_handler_servererror_def su_assert_def)
  qed
qed

lemma su_do_ok:
  assumes "su_inv su" "su_enabled i su"
  shows "\<exists>su' effs. su_do i su = Some (su', effs) \<and> su_inv su'"
proof (cases i)
  case (Su_socks decoder_ok auths j)
  then show ?thesis using socks_input_ok [OF assms(1)] assms(2) by fastforce
next
  case (Su_timer connector_ok)
  then show ?thesis
    using try_connect_ok [of "su\<lparr>su_timer := False\<rparr>" connector_ok] assms
    by (auto simp: su_inv_def reconnect_timer_handler_def su_assert_def)
next
  case (Su_udpgw ev)
  then show ?thesis using udpgw_input_ok [OF assms(1)] assms(2) by fastforce
qed

lemma su_reach_inv: "su_reach su \<Longrightarrow> su_inv su"
proof (induction rule: su_reach.induct)
  case (su_start udp_mtu max_connections remote queue_ok connector_ok num_auth_info raw raw_up su)
  then obtain cl where cl: "UdpGwClient_Init TYPE(64) udp_mtu max_connections queue_ok = Some cl"
    and t: "try_connect connector_ok \<lparr>su_udpgw = cl, su_timer = False, su_have_socks = False, su_socks = raw, su_socks_up = raw_up,
        su_num_auth_info = num_auth_info, su_remote = remote\<rparr> = Some su"
    by (auto simp: SocksUdpGwClient_Init_def split: bind_splits)
  have "\<not> uc_have_server cl" using cl by (auto simp: UdpGwClient_Init_def Let_def split: if_splits)
  then show ?case
    using try_connect_ok [OF _ _ _ _ _, of "\<lparr>su_udpgw = cl, su_timer = False, su_have_socks = False, su_socks = raw,
        su_socks_up = raw_up, su_num_auth_info = num_auth_info, su_remote = remote\<rparr>" connector_ok] t
      client_reachable.start [OF su_start(1,2) cl] su_start(3) by simp
next
  case (su_step su i su' effs)
  then show ?case using su_do_ok [OF su_step.IH su_step.hyps(2)] by auto
qed

section \<open>Properties\<close>

text \<open>C24. The link to the udpgw server is always up, being set up, or waiting to be retried: in every reachable
  state there is either a SOCKS client or a running reconnect timer and never both, the udpgw client has a server
  exactly while that SOCKS client is up, and every input, whatever fails and whatever live authentication data the
  shared array holds, is handled to the end into such a state.\<close>

theorem udpgw_link_maintained:
  assumes "su_reach su" "su_enabled i su"
  shows "(su_timer su \<longleftrightarrow> \<not> su_have_socks su) \<and>
    (uc_have_server (su_udpgw su) \<longleftrightarrow> su_have_socks su \<and> sc_state (su_socks su) = Up) \<and>
    (\<exists>su' effs. su_do i su = Some (su', effs) \<and> (su_timer su' \<longleftrightarrow> \<not> su_have_socks su'))"
proof -
  note inv = su_reach_inv [OF assms(1)]
  show ?thesis using su_do_ok [OF inv assms(2)] inv unfolding su_inv_def by blast
qed

definition ex_su :: socks_udpgw where
  "ex_su = the (SocksUdpGwClient_Init 1500 4 True True 1 (Addr_V4 1 2) ex_socks_init False)"

lemma ex_su_reach: "su_reach ex_su"
  by (rule su_start [of 1500 4 "Addr_V4 1 2" True True 1 ex_socks_init False])
    (simp_all add: ex_su_def SocksUdpGwClient_Init_def UdpGwClient_Init_def try_connect_def su_assert_def BSocksClient_Init_def Let_def)

lemma ex_su_state:
  "su_have_socks ex_su" "sc_state (su_socks ex_su) = Connecting" "sc_num_auth_info (su_socks ex_su) = 1"
  by (simp_all add: ex_su_def SocksUdpGwClient_Init_def UdpGwClient_Init_def try_connect_def su_assert_def BSocksClient_Init_def Let_def)

lemma udpgw_link_maintained_witness:
  "\<not> su_timer ex_su \<and> (\<exists>su' effs. su_do (Su_socks True [Auth_none] (In_connector None True True)) ex_su = Some (su', effs) \<and>
     (su_timer su' \<longleftrightarrow> \<not> su_have_socks su'))"
  using udpgw_link_maintained [OF ex_su_reach, of "Su_socks True [Auth_none] (In_connector None True True)"] ex_su_state by (simp add: auths_live_def)

end
