(* ===== verification/Rhn.thy ===== *)
theory Rhn
  imports Prelude
begin

text \<open>
  Domain names in transport notation, from pdnsd's \<open>helpers.h\<close>, \<open>helpers.c\<close> and \<open>domain_match\<close>
  of \<open>dns.c\<close>: a sequence of labels, each preceded by its length byte, ended by a zero length byte.

  A \<open>const unsigned char *\<close> is the list of the bytes from the pointer to the end of the object it
  points into; the result \<open>None\<close> says that the code would read past that end, write past the end of
  its target buffer, or fail an assertion. \<open>enc_name\<close> is the image of a list of labels, and each
  routine is characterised on such images: lengths and positions, equality up to case, and the longest
  common suffix of labels.
\<close>

named_theorems rhn_simps "the routines on the image of a name"

text \<open>\<open>DNSNAMEBUFSIZE\<close>\<close>

abbreviation (input) DNSNAMEBUFSIZE :: nat where "DNSNAMEBUFSIZE \<equiv> 256"

type_synonym label = "byte list"

section \<open>Characters\<close>

text \<open>\<open>tolower\<close> and \<open>toupper\<close> of the C locale.\<close>

definition tolower :: "byte \<Rightarrow> byte" where
  "tolower c = (if 65 \<le> c \<and> c \<le> 90 then c + 32 else c)"

definition toupper :: "byte \<Rightarrow> byte" where
  "toupper c = (if 97 \<le> c \<and> c \<le> 122 then c - 32 else c)"

abbreviation lower :: "label \<Rightarrow> label" where "lower \<equiv> map tolower"

section \<open>The routines of helpers.h\<close>

text \<open>\<open>rhnlen\<close>: the length of a name, the final zero byte included.\<close>

function (sequential) rhnlen :: "byte list \<Rightarrow> nat option" where
  "rhnlen [] = None"
| "rhnlen (lb # rhn) =
     (if lb = 0 then Some 1 else map_option (\<lambda>i. i + 1 + unat lb) (rhnlen (drop (unat lb) rhn)))"
  by pat_completeness auto
termination by (relation "measure length") auto

text \<open>\<open>skipsegs\<close> and \<open>skiprhn\<close> return the advanced pointer: here, how far it was advanced.\<close>

fun skipsegs :: "byte list \<Rightarrow> nat \<Rightarrow> nat option" where
  "skipsegs nm 0 = Some 0"
| "skipsegs nm (Suc k) =
     (case nm of
        [] \<Rightarrow> None
      | lb # r \<Rightarrow>
          if lb = 0 then Some 0
          else map_option (\<lambda>i. i + 1 + unat lb) (skipsegs (drop (unat lb) r) k))"

function (sequential) skiprhn :: "byte list \<Rightarrow> nat option" where
  "skiprhn [] = None"
| "skiprhn (lb # rhn) =
     (if lb = 0 then Some 1 else map_option (\<lambda>i. i + 1 + unat lb) (skiprhn (drop (unat lb) rhn)))"
  by pat_completeness auto
termination by (relation "measure length") auto

function (sequential) rhnsegcnt :: "byte list \<Rightarrow> nat option" where
  "rhnsegcnt [] = None"
| "rhnsegcnt (lb # rhn) =
     (if lb = 0 then Some 0 else map_option Suc (rhnsegcnt (drop (unat lb) rhn)))"
  by pat_completeness auto
termination by (relation "measure length") auto

text \<open>
  \<open>rhnicmp\<close>: the \<open>do\<close> loop over one label (\<open>Some None\<close> when it returns 0, else the advanced
  pointers), and the loop over the labels.
\<close>

fun rhnicmp_label :: "nat \<Rightarrow> byte list \<Rightarrow> byte list \<Rightarrow> (byte list \<times> byte list) option option" where
  "rhnicmp_label 0 a b = Some (Some (a, b))"
| "rhnicmp_label (Suc n) (x # a) (y # b) =
     (if tolower x \<noteq> tolower y then Some None else rhnicmp_label n a b)"
| "rhnicmp_label (Suc n) a b = None"

lemma rhnicmp_label_shrinks:
  "rhnicmp_label n a b = Some (Some (a', b')) \<Longrightarrow> length a' \<le> length a"
  by (induction n a b rule: rhnicmp_label.induct) (auto split: if_splits)

function (sequential) rhnicmp :: "byte list \<Rightarrow> byte list \<Rightarrow> bool option" where
  "rhnicmp (lb # a) (lb' # b) =
     (if lb \<noteq> lb' then Some False
      else if lb = 0 then Some True
      else case rhnicmp_label (unat lb) a b of
             None \<Rightarrow> None
           | Some None \<Rightarrow> Some False
           | Some (Some (a', b')) \<Rightarrow> rhnicmp a' b')"
| "rhnicmp a b = None"
  by pat_completeness auto
termination by (relation "measure (length \<circ> fst)") (auto dest: rhnicmp_label_shrinks)

section \<open>The routines of helpers.c\<close>

text \<open>\<open>rhncpy\<close>: the number of bytes and the bytes copied to \<open>dst\<close>.\<close>

definition rhncpy :: "byte list \<Rightarrow> (nat \<times> byte list) option" where
  "rhncpy src =
     (case rhnlen src of
        None \<Rightarrow> None
      | Some len \<Rightarrow> if len \<le> DNSNAMEBUFSIZE then Some (len, take len src) else None)"

text \<open>\<open>isnormalencdomname\<close>, with \<open>i\<close> the index the loop is at.\<close>

function isnormalencdomname_loop :: "byte list \<Rightarrow> nat \<Rightarrow> nat \<Rightarrow> bool option" where
  "isnormalencdomname_loop rhn maxlen i =
     (if i \<ge> maxlen then Some False
      else if i \<ge> length rhn then None
      else let lb = rhn ! i in
        if lb = 0 then Some True
        else if lb > 0x3f then Some False
        else isnormalencdomname_loop rhn maxlen (i + 1 + unat lb))"
  by pat_completeness auto
termination by (relation "measure (\<lambda>(rhn, maxlen, i). maxlen - i)") auto

definition isnormalencdomname :: "byte list \<Rightarrow> nat \<Rightarrow> bool option" where
  "isnormalencdomname rhn maxlen =
     isnormalencdomname_loop rhn (if maxlen > DNSNAMEBUFSIZE then DNSNAMEBUFSIZE else maxlen) 0"

section \<open>domain\_match\<close>

text \<open>
  The first two loops collect the length bytes (at most 128, by the assertion); their result is the
  array of length bytes and the index of the final zero byte.
\<close>

function collect_lengths :: "byte list \<Rightarrow> nat \<Rightarrow> byte list \<Rightarrow> (byte list \<times> nat) option" where
  "collect_lengths ms i ls =
     (if i \<ge> length ms then None
      else if ms ! i = 0 then Some (ls, i)
      else if length ls < 128 then collect_lengths ms (i + unat (ms ! i) + 1) (ls @ [ms ! i])
      else None)"
  by pat_completeness auto
termination by (relation "measure (\<lambda>(ms, i, ls). length ms - i)") auto

text \<open>The inner loop: compare \<open>lb\<close> bytes backwards from \<open>i\<close> and \<open>j\<close>.\<close>

fun cmp_back :: "byte list \<Rightarrow> byte list \<Rightarrow> nat \<Rightarrow> nat \<Rightarrow> nat \<Rightarrow> bool option" where
  "cmp_back ms md 0 i j = Some True"
| "cmp_back ms md (Suc lb) i j =
     (if i = 0 \<or> j = 0 \<or> i > length ms \<or> j > length md then None
      else if tolower (ms ! (i - 1)) \<noteq> tolower (md ! (j - 1)) then Some False
      else cmp_back ms md lb (i - 1) (j - 1))"

function match_loop ::
  "byte list \<Rightarrow> byte list \<Rightarrow> byte list \<Rightarrow> byte list \<Rightarrow> nat \<Rightarrow> nat \<Rightarrow> nat \<Rightarrow> nat \<Rightarrow>
     (nat \<times> nat \<times> nat) option" where
  "match_loop ms md ls ld n k i j =
     (if k \<le> n then
        let lb = ls ! (length ls - k) in
        if lb \<noteq> ld ! (length ld - k) then Some (k - 1, i, j)
        else case cmp_back ms md (unat lb) i j of
               None \<Rightarrow> None
             | Some False \<Rightarrow> Some (k - 1, i, j)
             | Some True \<Rightarrow>
                 if i \<le> unat lb \<or> j \<le> unat lb then None
                 else match_loop ms md ls ld n (k + 1) (i - unat lb - 1) (j - unat lb - 1)
      else Some (k - 1, i, j))"
  by pat_completeness auto
termination by (relation "measure (\<lambda>(ms, md, ls, ld, n, k, i, j). Suc n - k)") auto

text \<open>The result: the number of matching labels and the offsets of the match in \<open>ms\<close> and \<open>md\<close>.\<close>

definition domain_match :: "byte list \<Rightarrow> byte list \<Rightarrow> (nat \<times> nat \<times> nat) option" where
  "domain_match ms md =
     (case (collect_lengths ms 0 [], collect_lengths md 0 []) of
        (Some (ls, i), Some (ld, j)) \<Rightarrow>
          match_loop ms md ls ld (if length ls > length ld then length ld else length ls) 1 i j
      | _ \<Rightarrow> None)"

declare isnormalencdomname_loop.simps [simp del] collect_lengths.simps [simp del]
  match_loop.simps [simp del]

section \<open>The image of a name\<close>

text \<open>\<open>enc_labels\<close> is the image of some labels without the final zero byte.\<close>

definition enc_labels :: "label list \<Rightarrow> byte list" where
  "enc_labels ls = concat (map (\<lambda>l. of_nat (length l) # l) ls)"

definition enc_name :: "label list \<Rightarrow> byte list" where
  "enc_name ls = enc_labels ls @ [0]"

definition label_ok :: "label \<Rightarrow> bool" where
  "label_ok l \<longleftrightarrow> l \<noteq> [] \<and> length l \<le> 63"

definition labels_ok :: "label list \<Rightarrow> bool" where
  "labels_ok ls \<longleftrightarrow> list_all label_ok ls"

definition name_ok :: "label list \<Rightarrow> bool" where
  "name_ok ls \<longleftrightarrow> labels_ok ls \<and> length (enc_name ls) \<le> DNSNAMEBUFSIZE"

text \<open>Equality of names up to case, and the number of labels two names have in common at their end.\<close>

definition lower_name :: "label list \<Rightarrow> label list" where
  "lower_name ls = map lower ls"

fun common_prefix :: "'a list \<Rightarrow> 'a list \<Rightarrow> nat" where
  "common_prefix (x # xs) (y # ys) = (if x = y then Suc (common_prefix xs ys) else 0)"
| "common_prefix xs ys = 0"

definition matching :: "label list \<Rightarrow> label list \<Rightarrow> nat" where
  "matching ls ld = common_prefix (rev (lower_name ls)) (rev (lower_name ld))"

lemma enc_labels_simps [simp]:
  "enc_labels [] = []"
  "enc_labels (l # ls) = of_nat (length l) # l @ enc_labels ls"
  "enc_labels (ls @ ms) = enc_labels ls @ enc_labels ms"
  by (simp_all add: enc_labels_def)

lemma enc_name_simps [simp]:
  "enc_name [] = [0]"
  "enc_name (l # ls) = of_nat (length l) # l @ enc_name ls"
  by (simp_all add: enc_name_def)

lemma length_enc_name: "length (enc_name ls) = Suc (length (enc_labels ls))"
  by (simp add: enc_name_def)

lemma labels_ok_simps [simp]:
  "labels_ok []"
  "labels_ok (l # ls) \<longleftrightarrow> label_ok l \<and> labels_ok ls"
  "labels_ok (ls @ ms) \<longleftrightarrow> labels_ok ls \<and> labels_ok ms"
  by (simp_all add: labels_ok_def)

lemma labels_ok_drop: "labels_ok ls \<Longrightarrow> labels_ok (drop k ls)"
  by (metis append_take_drop_id labels_ok_simps(3))

lemma labels_ok_take: "labels_ok ls \<Longrightarrow> labels_ok (take k ls)"
  by (metis append_take_drop_id labels_ok_simps(3))

lemma labels_ok_nth: "labels_ok ls \<Longrightarrow> i < length ls \<Longrightarrow> label_ok (ls ! i)"
  by (simp add: labels_ok_def list_all_length)

lemma name_okD: "name_ok ls \<Longrightarrow> labels_ok ls"
  by (simp add: name_ok_def)

text \<open>The length byte of a label reads back as its length, and is not a pointer or the end mark.\<close>

lemma unat_length_byte: "length l < 256 \<Longrightarrow> unat (of_nat (length l) :: byte) = length l"
  by (simp add: unsigned_of_nat take_bit_nat_eq_self)

lemma length_byte [simp]:
  assumes "label_ok l"
  shows "unat (of_nat (length l) :: byte) = length l" "(of_nat (length l) :: byte) \<noteq> 0"
    "\<not> (63 :: byte) < of_nat (length l)"
proof -
  show u: "unat (of_nat (length l) :: byte) = length l"
    using assms by (simp add: label_ok_def unat_length_byte)
  show "(of_nat (length l) :: byte) \<noteq> 0"
    using u assms by (metis label_ok_def length_0_conv unsigned_0)
  show "\<not> (63 :: byte) < of_nat (length l)"
    using u assms by (simp add: word_less_nat_alt label_ok_def)
qed

lemma length_byte_eq_iff:
  "label_ok l \<Longrightarrow> label_ok m \<Longrightarrow>
     (of_nat (length l) :: byte) = of_nat (length m) \<longleftrightarrow> length l = length m"
  by (metis length_byte(1))

lemma label_of_byte:
  assumes "(lb :: byte) \<noteq> 0" "\<not> 63 < lb" "unat lb \<le> length r"
  shows "label_ok (take (unat lb) r)" "of_nat (length (take (unat lb) r)) = lb"
  using assms unat_gt_0 [of lb]
  by (auto simp: label_ok_def min_absorb2 of_nat_unat_self word_less_nat_alt)

lemma enc_labels_length_ge: "labels_ok ls \<Longrightarrow> 2 * length ls \<le> length (enc_labels ls)"
proof (induction ls)
  case (Cons l ls)
  then have "Suc 0 \<le> length l" by (cases l) (simp_all add: label_ok_def)
  then show ?case using Cons by simp
qed simp

lemma name_ok_few_labels: "name_ok ls \<Longrightarrow> length ls < 128"
  using enc_labels_length_ge [of ls] by (simp add: name_ok_def length_enc_name)

section \<open>Case folding\<close>

lemma tolower_idem [simp]: "tolower (tolower c) = tolower c"
  by (auto simp: tolower_def word_le_nat_alt unat_word_ariths(1))

lemma lower_name_simps [simp]:
  "lower_name [] = []"
  "lower_name (l # ls) = lower l # lower_name ls"
  "lower_name (ls @ ms) = lower_name ls @ lower_name ms"
  "length (lower_name ls) = length ls"
  by (simp_all add: lower_name_def)

lemma lower_name_drop: "lower_name (drop k ls) = drop k (lower_name ls)"
  by (simp add: lower_name_def drop_map)

lemma lower_name_take: "lower_name (take k ls) = take k (lower_name ls)"
  by (simp add: lower_name_def take_map)

lemma lower_name_nth: "i < length ls \<Longrightarrow> lower_name ls ! i = lower (ls ! i)"
  by (simp add: lower_name_def)

lemma lower_name_lower [simp]: "lower_name (lower_name ls) = lower_name ls"
  by (simp add: lower_name_def)

lemma lower_enc_labels_length:
  "lower_name ls = lower_name ms \<Longrightarrow> length (enc_labels ls) = length (enc_labels ms)"
proof (induction ls arbitrary: ms)
  case Nil
  then show ?case by (cases ms) simp_all
next
  case (Cons l ls)
  then obtain m ms' where "ms = m # ms'" by (cases ms) simp_all
  with Cons show ?case by (auto dest: map_eq_imp_length_eq)
qed

lemma labels_ok_lower: "lower_name ls = lower_name ms \<Longrightarrow> labels_ok ls \<longleftrightarrow> labels_ok ms"
proof (induction ls arbitrary: ms)
  case Nil
  then show ?case by (cases ms) simp_all
next
  case (Cons l ls)
  then obtain m ms' where "ms = m # ms'" by (cases ms) simp_all
  with Cons have "length l = length m" "labels_ok ls \<longleftrightarrow> labels_ok ms'"
    by (auto dest: map_eq_imp_length_eq)
  moreover have "l = [] \<longleftrightarrow> m = []" using \<open>length l = length m\<close> by auto
  ultimately show ?case using \<open>ms = m # ms'\<close> by (simp add: label_ok_def)
qed

section \<open>The helpers on the image of a name\<close>

lemma rhnlen_enc [rhn_simps]:
  "labels_ok ls \<Longrightarrow> rhnlen (enc_name ls @ rest) = Some (length (enc_name ls))"
  by (induction ls) simp_all

lemma skiprhn_enc [rhn_simps]:
  "labels_ok ls \<Longrightarrow> skiprhn (enc_name ls @ rest) = Some (length (enc_name ls))"
  by (induction ls) simp_all

lemma rhnsegcnt_enc [rhn_simps]:
  "labels_ok ls \<Longrightarrow> rhnsegcnt (enc_name ls @ rest) = Some (length ls)"
  by (induction ls) simp_all

lemma skipsegs_enc [rhn_simps]:
  "labels_ok ls \<Longrightarrow> skipsegs (enc_name ls @ rest) k = Some (length (enc_labels (take k ls)))"
proof (induction ls arbitrary: k)
  case Nil
  then show ?case by (cases k) simp_all
next
  case (Cons l ls)
  then show ?case by (cases k) simp_all
qed

lemma rhncpy_enc [rhn_simps]:
  "name_ok ls \<Longrightarrow> rhncpy (enc_name ls @ rest) = Some (length (enc_name ls), enc_name ls)"
  by (simp add: rhncpy_def rhnlen_enc name_ok_def)

lemma rhnicmp_label_enc:
  "length l = n \<Longrightarrow> length m = n \<Longrightarrow>
     rhnicmp_label n (l @ a) (m @ b) = Some (if lower l = lower m then Some (a, b) else None)"
proof (induction n arbitrary: l m)
  case (Suc n)
  then obtain x l' y m' where "l = x # l'" "m = y # m'" by (metis length_Suc_conv)
  with Suc show ?case by simp
qed simp

lemma rhnicmp_enc [rhn_simps]:
  "labels_ok ls \<Longrightarrow> labels_ok ms \<Longrightarrow>
     rhnicmp (enc_name ls @ a) (enc_name ms @ b) = Some (lower_name ls = lower_name ms)"
proof (induction ls arbitrary: ms)
  case Nil
  then show ?case by (cases ms) (auto dest: length_byte(2) [THEN not_sym])
next
  case (Cons l ls)
  show ?case
  proof (cases ms)
    case Nil
    then show ?thesis using Cons.prems by simp
  next
    case (Cons m ms')
    show ?thesis
    proof (cases "length l = length m")
      case True
      then show ?thesis using Cons Cons.IH Cons.prems
        by (simp add: rhnicmp_label_enc)
    next
      case False
      then show ?thesis using Cons Cons.prems
        by (auto simp: length_byte_eq_iff dest: map_eq_imp_length_eq)
    qed
  qed
qed

text \<open>\<open>isnormalencdomname\<close> accepts exactly the images of names of legal labels within the limit.\<close>

definition name_within :: "byte list \<Rightarrow> nat \<Rightarrow> bool" where
  "name_within bs n \<longleftrightarrow>
     (\<exists>ls rest. labels_ok ls \<and> bs = enc_name ls @ rest \<and> length (enc_name ls) \<le> n)"

lemma name_within_0 [simp]: "\<not> name_within bs 0"
  by (simp add: name_within_def length_enc_name)

lemma name_within_Cons:
  "n \<le> Suc (length bs) \<Longrightarrow> name_within (lb # bs) n \<longleftrightarrow>
     0 < n \<and> (lb = 0 \<or> \<not> 63 < lb \<and> name_within (drop (unat lb) bs) (n - 1 - unat lb))"
  (is "?len \<Longrightarrow> ?l \<longleftrightarrow> ?r")
proof
  assume ?l
  then obtain ls rest where ls: "labels_ok ls" "lb # bs = enc_name ls @ rest" "length (enc_name ls) \<le> n"
    by (auto simp: name_within_def)
  show ?r
  proof (cases ls)
    case Nil
    then show ?thesis using ls by simp
  next
    case (Cons l ls')
    then have "lb = of_nat (length l)" "bs = l @ enc_name ls' @ rest" "label_ok l" "labels_ok ls'"
        "length (enc_name ls') \<le> n - 1 - length l" "0 < n"
      using ls by auto
    then show ?thesis by (auto simp: name_within_def)
  qed
next
  assume len: ?len and r: ?r
  show ?l
  proof (cases "lb = 0")
    case True
    then show ?thesis using r by (auto simp: name_within_def intro: exI [of _ "[]"])
  next
    case False
    then obtain ls rest where ls: "\<not> 63 < lb" "labels_ok ls" "drop (unat lb) bs = enc_name ls @ rest"
        "length (enc_name ls) \<le> n - 1 - unat lb"
      using r by (auto simp: name_within_def)
    have "0 < length (enc_name ls)" by (simp add: length_enc_name)
    then have "unat lb < n - 1" using ls(4) by linarith
    then have le: "unat lb \<le> length bs" "1 + unat lb + length (enc_name ls) \<le> n"
      using len ls(4) by linarith+
    have "lb # bs = enc_name (take (unat lb) bs # ls) @ rest"
      using ls(3) label_of_byte(2) [OF False ls(1) le(1)]
      by (simp add: append_take_drop_id flip: ls(3))
    then show ?thesis unfolding name_within_def using ls(2) label_of_byte [OF False ls(1) le(1)] le
      by (intro exI [of _ "take (unat lb) bs # ls"] exI [of _ rest]) (simp add: min_absorb2)
  qed
qed

lemma isnormalencdomname_loop_iff:
  "maxlen \<le> length rhn \<Longrightarrow>
     isnormalencdomname_loop rhn maxlen i = Some (name_within (drop i rhn) (maxlen - i))"
proof (induction rhn maxlen i rule: isnormalencdomname_loop.induct)
  case (1 rhn maxlen i)
  show ?case
  proof (cases "i \<ge> maxlen")
    case True
    then show ?thesis by (simp add: isnormalencdomname_loop.simps)
  next
    case False
    then have i: "i < maxlen" "i < length rhn" using 1 by auto
    then have eq: "drop i rhn = rhn ! i # drop (Suc i) rhn" by (simp add: Cons_nth_drop_Suc)
    have "name_within (drop i rhn) (maxlen - i) \<longleftrightarrow>
        rhn ! i = 0 \<or> \<not> 63 < rhn ! i \<and>
        name_within (drop (i + 1 + unat (rhn ! i)) rhn) (maxlen - (i + 1 + unat (rhn ! i)))"
      unfolding eq using i 1(2) by (subst name_within_Cons) (auto simp: add.commute add.left_commute)
    then show ?thesis using i 1
      by (subst isnormalencdomname_loop.simps) (auto simp: Let_def)
  qed
qed

lemma isnormalencdomname_iff:
  assumes "min maxlen DNSNAMEBUFSIZE \<le> length rhn"
  shows "isnormalencdomname rhn maxlen = Some (name_within rhn (min maxlen DNSNAMEBUFSIZE))"
proof -
  have "(if DNSNAMEBUFSIZE < maxlen then DNSNAMEBUFSIZE else maxlen) = min maxlen DNSNAMEBUFSIZE"
    by (simp add: min_def)
  then show ?thesis
    using isnormalencdomname_loop_iff [OF assms, of 0] by (simp add: isnormalencdomname_def)
qed

section \<open>The longest common suffix\<close>

lemma common_prefix_le: "common_prefix xs ys \<le> length xs" "common_prefix xs ys \<le> length ys"
  by (induction xs ys rule: common_prefix.induct) auto

lemma le_common_prefix:
  "k \<le> common_prefix xs ys \<longleftrightarrow> k \<le> length xs \<and> k \<le> length ys \<and> take k xs = take k ys"
proof (induction xs ys arbitrary: k rule: common_prefix.induct)
  case (1 x xs y ys)
  then show ?case by (cases k) auto
qed auto

lemma matching_le: "matching ls ms \<le> length ls" "matching ls ms \<le> length ms"
  using common_prefix_le [of "rev (lower_name ls)" "rev (lower_name ms)"] by (simp_all add: matching_def)

lemma le_matching:
  "k \<le> matching ls ms \<longleftrightarrow>
     k \<le> length ls \<and> k \<le> length ms \<and>
     lower_name (drop (length ls - k) ls) = lower_name (drop (length ms - k) ms)"
  unfolding matching_def le_common_prefix
  by (auto simp: lower_name_drop take_rev)

lemma matching_sym: "matching ls ms = matching ms ls"
proof -
  have "matching ls ms \<le> matching ms ls" for ls ms
    using le_matching [of "matching ls ms" ls ms] le_matching [of "matching ls ms" ms ls] by auto
  then show ?thesis by (simp add: antisym)
qed

text \<open>Labels that two names share with a third one at their end they share with each other.\<close>

lemma matching_trans: "k \<le> matching ls ms \<Longrightarrow> k \<le> matching ms ns \<Longrightarrow> k \<le> matching ls ns"
  by (simp add: le_matching)

lemma matching_min: "min (matching ls ms) (matching ms ns) \<le> matching ls ns"
  by (rule matching_trans [where ms = ms]) simp_all

text \<open>\<open>offset_of ls m\<close>: the offset of label \<open>m\<close> in the image of \<open>ls\<close>.\<close>

definition offset_of :: "label list \<Rightarrow> nat \<Rightarrow> nat" where
  "offset_of ls m = length (enc_labels (take m ls))"

lemma offset_of_Suc:
  "m < length ls \<Longrightarrow> offset_of ls (Suc m) = offset_of ls m + 1 + length (ls ! m)"
  by (simp add: offset_of_def take_Suc_conv_app_nth)

lemma offset_of_0 [simp]: "offset_of ls 0 = 0"
  by (simp add: offset_of_def)

lemma offset_of_length: "offset_of ls (length ls) = length (enc_labels ls)"
  by (simp add: offset_of_def)

lemma enc_name_split: "enc_name ls = enc_labels (take m ls) @ enc_name (drop m ls)"
  by (simp add: enc_name_def flip: enc_labels_simps(3))

lemma drop_offset: "drop (offset_of ls m) (enc_name ls @ r) = enc_name (drop m ls) @ r"
  by (subst enc_name_split [of ls m]) (simp add: offset_of_def)

lemma offset_of_mono: "m \<le> n \<Longrightarrow> offset_of ls m \<le> offset_of ls n"
  by (simp add: offset_of_def le_iff_add)
    (metis add.commute append_take_drop_id enc_labels_simps(3) length_append min.absorb1
      le_add2 take_take)

lemma offset_of_less: "offset_of ls m < length (enc_name ls)"
  by (subst enc_name_split [of ls m]) (simp add: offset_of_def length_enc_name)

lemma segment_label:
  "m < length ls \<Longrightarrow> segment (Suc (offset_of ls m)) (length (ls ! m)) (enc_name ls @ r) = ls ! m"
proof -
  assume m: "m < length ls"
  have "drop (Suc (offset_of ls m)) (enc_name ls @ r) = drop 1 (drop (offset_of ls m) (enc_name ls @ r))"
    by (simp only: drop_drop) simp
  also have "\<dots> = ls ! m @ enc_name (drop (Suc m) ls) @ r"
    unfolding drop_offset by (simp add: m flip: Cons_nth_drop_Suc)
  finally show ?thesis by (simp add: segment_def)
qed

lemma collect_lengths_enc:
  assumes "labels_ok ls" "length acc + length ls \<le> 128"
  shows "collect_lengths (pre @ enc_name ls @ rest) (length pre) acc =
      Some (acc @ map (\<lambda>l. of_nat (length l)) ls, length pre + length (enc_labels ls))"
  using assms
proof (induction ls arbitrary: pre acc)
  case Nil
  then show ?case by (simp add: collect_lengths.simps nth_append)
next
  case (Cons l ls)
  have "collect_lengths ((pre @ of_nat (length l) # l) @ enc_name ls @ rest)
      (length (pre @ of_nat (length l) # l)) (acc @ [of_nat (length l)]) =
      Some ((acc @ [of_nat (length l)]) @ map (\<lambda>l. of_nat (length l)) ls,
        length (pre @ of_nat (length l) # l) + length (enc_labels ls))"
    by (rule Cons.IH) (use Cons.prems in simp_all)
  then show ?case using Cons.prems
    by (subst collect_lengths.simps) (simp add: nth_append add_ac)
qed

lemma segment_snoc:
  "Suc n \<le> i \<Longrightarrow> i \<le> length xs \<Longrightarrow>
     segment (i - Suc n) (Suc n) xs = segment (i - 1 - n) n xs @ [xs ! (i - 1)]"
  by (simp add: segment_def take_Suc_conv_app_nth)

lemma cmp_back_eq:
  "n \<le> i \<Longrightarrow> n \<le> j \<Longrightarrow> i \<le> length ms \<Longrightarrow> j \<le> length md \<Longrightarrow>
     cmp_back ms md n i j = Some (lower (segment (i - n) n ms) = lower (segment (j - n) n md))"
proof (induction n arbitrary: i j)
  case 0
  then show ?case by (simp add: segment_def)
next
  case (Suc n)
  have "cmp_back ms md n (i - 1) (j - 1) =
      Some (lower (segment (i - 1 - n) n ms) = lower (segment (j - 1 - n) n md))"
    by (rule Suc.IH) (use Suc.prems in auto)
  then show ?case using Suc.prems segment_snoc [of n i ms] segment_snoc [of n j md] by auto
qed

text \<open>One more label matches when the labels before the common suffix are equal up to case.\<close>

lemma matching_step:
  assumes "k \<le> matching ls ms" "k < length ls" "k < length ms"
  shows "Suc k \<le> matching ls ms \<longleftrightarrow> lower (ls ! (length ls - Suc k)) = lower (ms ! (length ms - Suc k))"
proof -
  have "drop (length xs - Suc k) xs = xs ! (length xs - Suc k) # drop (length xs - k) xs"
    if "k < length xs" for xs :: "label list"
    using that Cons_nth_drop_Suc [of "length xs - Suc k" xs] by (simp add: Suc_diff_Suc)
  then show ?thesis using assms by (simp add: le_matching)
qed

lemma cmp_back_label:
  assumes "m < length ls" "n < length ms" "length (ls ! m) = length (ms ! n)"
  shows "cmp_back (enc_name ls @ r) (enc_name ms @ r') (length (ls ! m))
      (offset_of ls (Suc m)) (offset_of ms (Suc n)) = Some (lower (ls ! m) = lower (ms ! n))"
proof -
  have "offset_of ls (Suc m) \<le> length (enc_name ls @ r)" "offset_of ms (Suc n) \<le> length (enc_name ms @ r')"
    using offset_of_less [of ls "Suc m"] offset_of_less [of ms "Suc n"] by simp_all
  then have "cmp_back (enc_name ls @ r) (enc_name ms @ r') (length (ls ! m))
      (offset_of ls (Suc m)) (offset_of ms (Suc n)) =
      Some (lower (segment (Suc (offset_of ls m)) (length (ls ! m)) (enc_name ls @ r)) =
            lower (segment (Suc (offset_of ms n)) (length (ms ! n)) (enc_name ms @ r')))"
    using assms by (subst cmp_back_eq) (simp_all add: offset_of_Suc)
  then show ?thesis unfolding segment_label [OF assms(1)] segment_label [OF assms(2)] .
qed

lemma match_loop_enc:
  assumes "labels_ok ls" "labels_ok ms" "0 < k" "k - 1 \<le> matching ls ms"
    "n = min (length ls) (length ms)"
    "i = offset_of ls (length ls - (k - 1))" "j = offset_of ms (length ms - (k - 1))"
  shows "match_loop (enc_name ls @ r) (enc_name ms @ r') (map (\<lambda>l. of_nat (length l)) ls)
      (map (\<lambda>l. of_nat (length l)) ms) n k i j =
      Some (matching ls ms, offset_of ls (length ls - matching ls ms),
        offset_of ms (length ms - matching ls ms))"
  using assms
proof (induction "Suc n - k" arbitrary: k i j)
  case 0
  then have "\<not> k \<le> n" by linarith
  moreover have "k - 1 = matching ls ms" using 0 matching_le [of ls ms] by simp
  ultimately show ?case using "0.prems"(6,7) by (subst match_loop.simps) (simp only: if_False)
next
  case (Suc d)
  have k: "k \<le> n" "k - 1 < length ls" "k - 1 < length ms"
    using Suc.hyps(2) Suc.prems(3,5) by linarith+
  let ?m = "length ls - k" and ?n = "length ms - k"
  have mn: "?m < length ls" "?n < length ms" "length ls - (k - 1) = Suc ?m"
    "length ms - (k - 1) = Suc ?n" using k Suc.prems(3) by linarith+
  have ok: "label_ok (ls ! ?m)" "label_ok (ms ! ?n)"
    using Suc.prems(1,2) mn labels_ok_nth by blast+
  have step: "k \<le> matching ls ms \<longleftrightarrow> lower (ls ! ?m) = lower (ms ! ?n)"
    using matching_step [OF Suc.prems(4) k(2,3)] Suc.prems(3) by simp
  have ij: "i = offset_of ls (Suc ?m)" "j = offset_of ms (Suc ?n)" using Suc.prems(6,7) mn by simp_all
  show ?case
  proof (cases "lower (ls ! ?m) = lower (ms ! ?n)")
    case True
    then have len: "length (ls ! ?m) = length (ms ! ?n)" by (rule map_eq_imp_length_eq)
    have cmp: "cmp_back (enc_name ls @ r) (enc_name ms @ r') (length (ms ! ?n)) i j = Some True"
      using cmp_back_label [OF mn(1,2) len, of r r'] True by (simp add: ij len)
    have lt: "length (ms ! ?n) < i" "length (ms ! ?n) < j"
      "i - length (ms ! ?n) - 1 = offset_of ls (length ls - k)"
      "j - length (ms ! ?n) - 1 = offset_of ms (length ms - k)"
      using mn len by (simp_all add: ij offset_of_Suc)
    have d: "d = Suc n - (k + 1)" using Suc.hyps(2) by linarith
    have "match_loop (enc_name ls @ r) (enc_name ms @ r') (map (\<lambda>l. of_nat (length l)) ls)
      (map (\<lambda>l. of_nat (length l)) ms) n (k + 1) (offset_of ls (length ls - k)) (offset_of ms (length ms - k)) =
      Some (matching ls ms, offset_of ls (length ls - matching ls ms),
        offset_of ms (length ms - matching ls ms))"
      by (rule Suc.hyps(1) [OF d]) (use Suc.prems True step in simp_all)
    then show ?thesis using k(1) mn ok cmp lt len
      by (subst match_loop.simps) simp
  next
    case False
    then have "matching ls ms = k - 1" using step Suc.prems(4) by simp
    moreover have "cmp_back (enc_name ls @ r) (enc_name ms @ r') (length (ms ! ?n)) i j = Some False"
      if "length (ls ! ?m) = length (ms ! ?n)"
      using cmp_back_label [OF mn(1,2) that, of r r'] False that by (simp add: ij)
    ultimately show ?thesis using k(1) mn ok Suc.prems(6,7)
      by (subst match_loop.simps) (simp add: Let_def length_byte_eq_iff)
  qed
qed

lemma domain_match_enc [rhn_simps]:
  assumes "name_ok ls" "name_ok ms"
  shows "domain_match (enc_name ls @ r) (enc_name ms @ r') =
      Some (matching ls ms, offset_of ls (length ls - matching ls ms),
        offset_of ms (length ms - matching ls ms))"
proof -
  have "collect_lengths (enc_name xs @ r) 0 [] =
      Some (map (\<lambda>l. of_nat (length l)) xs, offset_of xs (length xs))" if "name_ok xs" for xs r
    using collect_lengths_enc [OF name_okD [OF that], of "[]" "[]" r] name_ok_few_labels [OF that]
    by (simp add: offset_of_length)
  then show ?thesis using assms
    by (simp add: domain_match_def min_def) (auto intro!: match_loop_enc simp: name_okD min_def)
qed

section \<open>Correctness\<close>

text \<open>\<open>domain_match\<close> on two legal names, whatever follows them in memory, returns the number of labels
  the names have in common at their end, ignoring case, and the offsets at which the common part starts
  in each: no longer suffix is common. No byte outside the names is read and no assertion fails.\<close>

theorem domain_match_longest_suffix:
  assumes "name_ok ls" "name_ok ms"
  shows "\<exists>k. domain_match (enc_name ls @ r) (enc_name ms @ r') =
      Some (k, length (enc_labels (take (length ls - k) ls)), length (enc_labels (take (length ms - k) ms))) \<and>
    k \<le> length ls \<and> k \<le> length ms \<and>
    lower_name (drop (length ls - k) ls) = lower_name (drop (length ms - k) ms) \<and>
    (\<nexists>j. k < j \<and> j \<le> length ls \<and> j \<le> length ms \<and>
       lower_name (drop (length ls - j) ls) = lower_name (drop (length ms - j) ms))"
proof (intro exI conjI)
  let ?k = "matching ls ms"
  show "domain_match (enc_name ls @ r) (enc_name ms @ r') =
      Some (?k, length (enc_labels (take (length ls - ?k) ls)), length (enc_labels (take (length ms - ?k) ms)))"
    using domain_match_enc [OF assms] by (simp add: offset_of_def)
  show "?k \<le> length ls" "?k \<le> length ms" by (rule matching_le)+
  show "lower_name (drop (length ls - ?k) ls) = lower_name (drop (length ms - ?k) ms)"
    using le_matching [of ?k ls ms] by simp
  show "\<nexists>j. ?k < j \<and> j \<le> length ls \<and> j \<le> length ms \<and>
       lower_name (drop (length ls - j) ls) = lower_name (drop (length ms - j) ms)"
    using le_matching [of _ ls ms] by (meson not_le)
qed

theorem domain_match_longest_suffix_witness:
  "\<exists>k x y. domain_match (enc_name [[119, 119, 119], [69, 120], [111]]) (enc_name [[101, 88], [79]] @ [7]) =
      Some (k, x, y) \<and> k \<le> 2"
proof -
  have "name_ok [[119, 119, 119], [69, 120], [111]]" "name_ok [[101, 88], [79]]"
    by (simp_all add: name_ok_def label_ok_def)
  from domain_match_longest_suffix [OF this, of "[]" "[7]"] show ?thesis
    by (auto simp del: enc_name_simps simp: numeral_2_eq_2)
qed

text \<open>Given at least the smaller of \<open>maxlen\<close> and \<open>DNSNAMEBUFSIZE\<close> bytes, \<open>isnormalencdomname\<close> reads no
  byte beyond them and accepts exactly those that start with an uncompressed name of legal labels which
  ends within them.\<close>

theorem isnormalencdomname_exact:
  assumes "min maxlen DNSNAMEBUFSIZE \<le> length rhn"
  shows "isnormalencdomname rhn maxlen = Some (\<exists>ls rest. labels_ok ls \<and> rhn = enc_name ls @ rest \<and>
      length (enc_name ls) \<le> min maxlen DNSNAMEBUFSIZE)"
  using isnormalencdomname_iff [OF assms] by (simp add: name_within_def)

theorem isnormalencdomname_exact_witness:
  "isnormalencdomname [1, 97, 0xc0, 12] 4 = Some (\<exists>ls rest. labels_ok ls \<and> [1, 97, 0xc0, 12] = enc_name ls @ rest \<and>
      length (enc_name ls) \<le> min 4 DNSNAMEBUFSIZE)"
  by (rule isnormalencdomname_exact) simp

end
