(* ===== verification/Dns_Name.thy ===== *)
theory Dns_Name
  imports Rhn
begin

text \<open>
  Reading compressed names out of a DNS message, from pdnsd's \<open>dns.c\<close>: \<open>decompress_name\<close>.

  The relation \<open>name_at\<close> is the meaning of the wire format: which labels a position of a message
  stands for, and through how many pointers. \<open>decompress_name\<close> reads no byte outside the message,
  writes none outside its buffer, ends on every message, and returns exactly what \<open>name_at\<close> says.
\<close>

section \<open>decompress\_name\<close>

datatype dec_error = RC_TRUNC | RC_FORMAT

text \<open>\<open>((lb&0x3f)<<8)|(*lptr)\<close>\<close>

definition pointer_offset :: "byte \<Rightarrow> byte \<Rightarrow> nat" where
  "pointer_offset lb b = unat (push_bit 8 (ucast (lb AND 0x3f)) OR ucast b :: u32)"

text \<open>
  The target buffer is the list of the bytes written so far, \<open>tpos\<close> its length; writing at
  \<open>DNSNAMEBUFSIZE\<close> or reading past the message is \<open>None\<close>.
\<close>

fun copy_label :: "byte list \<Rightarrow> nat \<Rightarrow> nat \<Rightarrow> byte list \<Rightarrow> byte list option" where
  "copy_label msg p 0 tgt = Some tgt"
| "copy_label msg p (Suc n) tgt =
     (if p < length msg \<and> length tgt < DNSNAMEBUFSIZE
      then copy_label msg (Suc p) n (tgt @ [msg ! p]) else None)"

lemma copy_label_length: "copy_label msg p n tgt = Some t \<Longrightarrow> length t = length tgt + n"
  by (induction msg p n tgt rule: copy_label.induct) (auto split: if_splits)

text \<open>
  The second loop (label \<open>jumped\<close>), entered where a length byte is about to be read. \<open>p\<close> is
  \<open>lptr - msg\<close>.
\<close>

function dec_jumped :: "byte list \<Rightarrow> nat \<Rightarrow> nat \<Rightarrow> byte list \<Rightarrow> (dec_error + byte list) option" where
  "dec_jumped msg p hops tgt =
     (if p \<ge> length msg then None
      else let lb = msg ! p in
        if lb > 0x3f then
          if lb < 0xc0 then Some (Inl RC_FORMAT)
          else if p + 1 \<ge> length msg then Some (Inl RC_FORMAT)
          else if hops + 1 > 255 then Some (Inl RC_FORMAT)
          else let offs = pointer_offset lb (msg ! (p + 1)) in
            if offs \<ge> length msg then Some (Inl RC_FORMAT)
            else dec_jumped msg offs (hops + 1) tgt
        else if length tgt \<ge> DNSNAMEBUFSIZE then None
        else if lb = 0 then Some (Inr (tgt @ [lb]))
        else if p + 1 + unat lb \<ge> length msg then Some (Inl RC_FORMAT)
        else if length tgt + 1 + unat lb > DNSNAMEBUFSIZE - 1 then Some (Inl RC_FORMAT)
        else case copy_label msg (p + 1) (unat lb) (tgt @ [lb]) of
               None \<Rightarrow> None
             | Some t \<Rightarrow> dec_jumped msg (p + 1 + unat lb) hops t)"
  by pat_completeness auto
termination
  by (relation "measure (\<lambda>(msg, p, hops, tgt). (256 - hops) + (256 - length tgt))")
    (auto dest: copy_label_length)

text \<open>The first loop; \<open>sz\<close> is \<open>newsz\<close>. The result carries the remaining size.\<close>

function dec_direct ::
  "byte list \<Rightarrow> nat \<Rightarrow> nat \<Rightarrow> byte list \<Rightarrow> (dec_error + byte list \<times> nat) option" where
  "dec_direct msg p sz tgt =
     (if p \<ge> length msg \<or> sz = 0 then None
      else let lb = msg ! p; newsz = sz - 1 in
        if lb > 0x3f then
          if lb < 0xc0 then Some (Inl RC_FORMAT)
          else if newsz = 0 then Some (Inl RC_TRUNC)
          else if p + 1 \<ge> length msg then Some (Inl RC_FORMAT)
          else let offs = pointer_offset lb (msg ! (p + 1)) in
            if offs \<ge> length msg then Some (Inl RC_FORMAT)
            else map_option (map_sum id (\<lambda>t. (t, newsz - 1))) (dec_jumped msg offs 1 tgt)
        else if length tgt \<ge> DNSNAMEBUFSIZE then None
        else if lb = 0 then Some (Inr (tgt @ [lb], newsz))
        else if newsz \<le> unat lb then Some (Inl RC_TRUNC)
        else if p + 1 + unat lb \<ge> length msg then Some (Inl RC_FORMAT)
        else if length tgt + 1 + unat lb > DNSNAMEBUFSIZE - 1 then Some (Inl RC_FORMAT)
        else case copy_label msg (p + 1) (unat lb) (tgt @ [lb]) of
               None \<Rightarrow> None
             | Some t \<Rightarrow> dec_direct msg (p + 1 + unat lb) (newsz - unat lb) t)"
  by pat_completeness auto
termination by (relation "measure (\<lambda>(msg, p, sz, tgt). sz)") auto

text \<open>
  \<open>decompress_name\<close> for a source pointer \<open>msg + p\<close> and \<open>*sz = sz\<close>: an error code, or the
  name, the new \<open>*sz\<close> (the source pointer advances by the difference) and \<open>*len\<close>.
\<close>

definition decompress_name ::
  "byte list \<Rightarrow> nat \<Rightarrow> nat \<Rightarrow> (dec_error + byte list \<times> nat \<times> nat) option" where
  "decompress_name msg p sz =
     (if sz = 0 then Some (Inl RC_TRUNC)
      else if p \<ge> length msg then Some (Inl RC_FORMAT)
      else map_option (map_sum id (\<lambda>(t, newsz). (t, newsz, length t))) (dec_direct msg p sz []))"

declare dec_jumped.simps [simp del] dec_direct.simps [simp del]

section \<open>The meaning of a position\<close>

text \<open>\<open>name_at msg p ls h\<close>: the name starting at \<open>p\<close> is \<open>ls\<close>, read through \<open>h\<close> pointers.\<close>

inductive name_at :: "byte list \<Rightarrow> nat \<Rightarrow> label list \<Rightarrow> nat \<Rightarrow> bool" for msg where
  Root: "p < length msg \<Longrightarrow> msg ! p = 0 \<Longrightarrow> name_at msg p [] 0"
| Label: "p < length msg \<Longrightarrow> label_ok l \<Longrightarrow> msg ! p = of_nat (length l) \<Longrightarrow>
    segment (p + 1) (length l) msg = l \<Longrightarrow> name_at msg (p + 1 + length l) ls h \<Longrightarrow>
    name_at msg p (l # ls) h"
| Pointer: "p + 1 < length msg \<Longrightarrow> 0xc0 \<le> msg ! p \<Longrightarrow>
    name_at msg (pointer_offset (msg ! p) (msg ! (p + 1))) ls h \<Longrightarrow> name_at msg p ls (Suc h)"

lemma name_at_inside: "name_at msg p ls h \<Longrightarrow> p < length msg"
  by (induction rule: name_at.induct) auto

lemma name_at_labels_ok: "name_at msg p ls h \<Longrightarrow> labels_ok ls"
  by (induction rule: name_at.induct) auto

lemma segment_append_left: "p + n \<le> length xs \<Longrightarrow> segment p n (xs @ ys) = segment p n xs"
  by (simp add: segment_def)

text \<open>Appending to a message keeps what its positions mean.\<close>

lemma name_at_append: "name_at msg p ls h \<Longrightarrow> name_at (msg @ post) p ls h"
proof (induction rule: name_at.induct)
  case (Root p)
  then show ?case by (intro name_at.Root) (simp_all add: nth_append)
next
  case (Label p l ls h)
  then show ?case using name_at_inside [OF Label.hyps(5)]
    by (intro name_at.Label) (simp_all add: nth_append segment_append_left)
next
  case (Pointer p ls h)
  then show ?case by (intro name_at.Pointer) (simp_all add: nth_append)
qed

text \<open>\<open>name_span msg p n\<close>: the name at \<open>p\<close> takes up \<open>n\<close> bytes there, a pointer ending it.\<close>

inductive name_span :: "byte list \<Rightarrow> nat \<Rightarrow> nat \<Rightarrow> bool" for msg where
  Root: "p < length msg \<Longrightarrow> msg ! p = 0 \<Longrightarrow> name_span msg p 1"
| Label: "p < length msg \<Longrightarrow> msg ! p \<noteq> 0 \<Longrightarrow> msg ! p \<le> 0x3f \<Longrightarrow>
    name_span msg (p + 1 + unat (msg ! p)) n \<Longrightarrow> name_span msg p (n + 1 + unat (msg ! p))"
| Pointer: "p + 1 < length msg \<Longrightarrow> 0xc0 \<le> msg ! p \<Longrightarrow> name_span msg p 2"

inductive_cases name_span_Label: "name_span msg p n"

lemma name_span_inside: "name_span msg p n \<Longrightarrow> 0 < n \<and> p + n \<le> length msg"
  by (induction rule: name_span.induct) auto

section \<open>decompress\_name is safe, ends, and returns what the position means\<close>

lemma copy_label_eq:
  "p + n \<le> length msg \<Longrightarrow> length tgt + n \<le> DNSNAMEBUFSIZE \<Longrightarrow>
     copy_label msg p n tgt = Some (tgt @ segment p n msg)"
proof (induction n arbitrary: p tgt)
  case 0
  then show ?case by (simp add: segment_def)
next
  case (Suc n)
  have "segment p (Suc n) msg = msg ! p # segment (Suc p) n msg"
    using Suc.prems by (simp add: segment_def Cons_nth_drop_Suc [symmetric])
  then show ?case using Suc by simp
qed

text \<open>The step both loops take over a label.\<close>

lemma label_step:
  assumes "msg ! p \<noteq> 0" "\<not> 0x3f < msg ! p" "p + 1 + unat (msg ! p) < length msg"
    and l: "l = segment (p + 1) (unat (msg ! p)) msg"
  shows "label_ok l" "length l = unat (msg ! p)" "msg ! p = of_nat (length l)"
    "segment (p + 1) (length l) msg = l"
    "length (enc_labels us) + 1 + unat (msg ! p) \<le> 255 \<Longrightarrow>
       copy_label msg (p + 1) (unat (msg ! p)) (enc_labels us @ [msg ! p]) = Some (enc_labels (us @ [l]))"
proof -
  have l': "l = take (unat (msg ! p)) (drop (p + 1) msg)" by (simp add: l segment_def)
  then show ok: "label_ok l" "length l = unat (msg ! p)" "msg ! p = of_nat (length l)"
    using label_of_byte [OF assms(1,2), of "drop (p + 1) msg"] assms(3) by simp_all
  show "segment (p + 1) (length l) msg = l" using ok(2) l by simp
  assume "length (enc_labels us) + 1 + unat (msg ! p) \<le> 255"
  then show "copy_label msg (p + 1) (unat (msg ! p)) (enc_labels us @ [msg ! p]) = Some (enc_labels (us @ [l]))"
    using assms(3) ok(3) [symmetric] l [symmetric] by (subst copy_label_eq) simp_all
qed

text \<open>
  What a correct run that has written the labels \<open>us\<close> and followed \<open>hops\<close> pointers does from
  position \<open>p\<close>: it fails, or completes \<open>us\<close> with the name at \<open>p\<close>.
\<close>

definition reads_name ::
  "byte list \<Rightarrow> nat \<Rightarrow> nat \<Rightarrow> label list \<Rightarrow> (dec_error + byte list) option \<Rightarrow> bool" where
  "reads_name msg p hops us r \<longleftrightarrow> (\<exists>e. r = Some (Inl e)) \<or>
     (\<exists>ls h. r = Some (Inr (enc_name (us @ ls))) \<and> name_at msg p ls h \<and>
        (h = 0 \<or> hops + h \<le> 255) \<and> name_ok (us @ ls))"

lemma reads_name_error [simp]: "reads_name msg p hops us (Some (Inl e))"
  by (simp add: reads_name_def)

lemma reads_name_root:
  assumes "p < length msg" "msg ! p = 0" "labels_ok us" "length (enc_labels us) \<le> 255"
  shows "reads_name msg p hops us (Some (Inr (enc_name us)))"
proof -
  have "name_at msg p [] 0" by (rule name_at.Root) (use assms in simp_all)
  moreover have "name_ok (us @ [])" using assms by (simp add: name_ok_def length_enc_name)
  ultimately show ?thesis unfolding reads_name_def by (metis append.right_neutral)
qed

lemma reads_name_pointer:
  assumes "reads_name msg (pointer_offset (msg ! p) (msg ! (p + 1))) (hops + 1) us r"
    and "p + 1 < length msg" "0xc0 \<le> msg ! p" "hops + 1 \<le> 255"
  shows "reads_name msg p hops us r"
proof (cases "\<exists>e. r = Some (Inl e)")
  case False
  then obtain ls h where ls: "r = Some (Inr (enc_name (us @ ls)))"
      "name_at msg (pointer_offset (msg ! p) (msg ! (p + 1))) ls h"
      "h = 0 \<or> hops + 1 + h \<le> 255" "name_ok (us @ ls)"
    using assms(1) unfolding reads_name_def by blast
  then have "name_at msg p ls (Suc h)" "hops + Suc h \<le> 255"
    using assms by (auto intro: name_at.Pointer)
  then show ?thesis using ls unfolding reads_name_def by blast
qed (auto simp: reads_name_def)

lemma reads_name_label:
  assumes "reads_name msg (p + 1 + length l) hops (us @ [l]) r"
    and "p < length msg" "label_ok l" "msg ! p = of_nat (length l)" "segment (p + 1) (length l) msg = l"
  shows "reads_name msg p hops us r"
proof (cases "\<exists>e. r = Some (Inl e)")
  case False
  then obtain ls h where ls: "r = Some (Inr (enc_name ((us @ [l]) @ ls)))"
      "name_at msg (p + 1 + length l) ls h" "h = 0 \<or> hops + h \<le> 255" "name_ok ((us @ [l]) @ ls)"
    using assms(1) unfolding reads_name_def by blast
  then have "name_at msg p (l # ls) h" using assms by (auto intro: name_at.Label)
  moreover have "(us @ [l]) @ ls = us @ l # ls" by simp
  ultimately show ?thesis using ls unfolding reads_name_def by metis
qed (auto simp: reads_name_def)

text \<open>The kinds of length byte.\<close>

lemma length_byte_cases:
  obtains (pointer) "0x3f < (lb :: byte)" | (root) "lb = 0" | (label) "lb \<noteq> 0" "\<not> 0x3f < lb"
  by blast

lemma dec_jumped_sound:
  assumes "p < length msg" "tgt = enc_labels us" "labels_ok us" "length tgt \<le> 255"
  shows "reads_name msg p hops us (dec_jumped msg p hops tgt)"
  using assms
proof (induction msg p hops tgt arbitrary: us rule: dec_jumped.induct)
  case (1 msg p hops tgt)
  let ?lb = "msg ! p" and ?offs = "pointer_offset (msg ! p) (msg ! (p + 1))"
  show ?case
  proof (cases ?lb rule: length_byte_cases)
    case pointer
    show ?thesis
    proof (cases "?lb < 0xc0 \<or> p + 1 \<ge> length msg \<or> hops + 1 > 255 \<or> ?offs \<ge> length msg")
      case True
      then show ?thesis using pointer 1(3) by (subst dec_jumped.simps) (auto simp: Let_def)
    next
      case False
      then have "dec_jumped msg p hops tgt = dec_jumped msg ?offs (hops + 1) tgt"
        using pointer 1(3) by (subst dec_jumped.simps) (simp add: Let_def)
      moreover have "reads_name msg ?offs (hops + 1) us (dec_jumped msg ?offs (hops + 1) tgt)"
        by (rule 1(1)) (use False pointer 1(3-) in simp_all)
      ultimately show ?thesis using False by (auto intro: reads_name_pointer simp: not_less)
    qed
  next
    case root
    then show ?thesis
      using 1(3-) reads_name_root by (subst dec_jumped.simps) (simp add: flip: enc_name_def)
  next
    case label
    show ?thesis
    proof (cases "p + 1 + unat ?lb \<ge> length msg \<or> length tgt + 1 + unat ?lb > 255")
      case True
      then show ?thesis using label 1(3-) by (subst dec_jumped.simps) (auto simp: Let_def)
    next
      case False
      then have in_msg: "p + 1 + unat ?lb < length msg" by simp
      define l where "l = segment (p + 1) (unat ?lb) msg"
      note step = label_step [OF label in_msg l_def]
      have copy: "copy_label msg (p + 1) (unat ?lb) (tgt @ [?lb]) = Some (enc_labels (us @ [l]))"
        using step(5) [of us] False 1(4) by simp
      then have "dec_jumped msg p hops tgt =
          dec_jumped msg (p + 1 + unat ?lb) hops (enc_labels (us @ [l]))"
        using label 1(3-) False by (subst dec_jumped.simps) (simp add: Let_def)
      moreover have "reads_name msg (p + 1 + unat ?lb) hops (us @ [l])
          (dec_jumped msg (p + 1 + unat ?lb) hops (enc_labels (us @ [l])))"
        by (rule 1(2)) (use False label step(1,2) copy 1(3-) in simp_all)
      ultimately show ?thesis
        using reads_name_label [OF _ 1(3) step(1,3,4)] by (simp only: step(2))
    qed
  qed
qed

lemma pointer_byte: "0xc0 \<le> (b :: byte) \<Longrightarrow> 0x3f < b \<and> b \<noteq> 0 \<and> \<not> b < 0xc0"
  by (auto simp: word_le_nat_alt word_less_nat_alt)

lemma name_ok_prefix_fits: "name_ok (us @ l # ls) \<Longrightarrow> length (enc_labels us) + 1 + length l \<le> 255"
  by (simp add: name_ok_def length_enc_name)

lemma dec_jumped_complete:
  "name_at msg p ls h \<Longrightarrow> hops + h \<le> 255 \<Longrightarrow> name_ok (us @ ls) \<Longrightarrow>
     dec_jumped msg p hops (enc_labels us) = Some (Inr (enc_name (us @ ls)))"
proof (induction arbitrary: hops us rule: name_at.induct)
  case (Root p)
  then show ?case
    by (subst dec_jumped.simps) (simp add: enc_name_def name_ok_def)
next
  case (Label p l ls h)
  have "dec_jumped msg (p + 1 + length l) hops (enc_labels (us @ [l])) = Some (Inr (enc_name ((us @ [l]) @ ls)))"
    by (rule Label.IH) (use Label.prems in simp_all)
  moreover have "copy_label msg (p + 1) (length l) (enc_labels us @ [msg ! p]) = Some (enc_labels (us @ [l]))"
    using Label.hyps(3,4) name_ok_prefix_fits [OF Label.prems(2)] name_at_inside [OF Label.hyps(5)]
    by (subst copy_label_eq) simp_all
  ultimately show ?case
    using Label.hyps(1-3) name_at_inside [OF Label.hyps(5)] name_ok_prefix_fits [OF Label.prems(2)]
    by (subst dec_jumped.simps) (simp add: Let_def)
next
  case (Pointer p ls h)
  have "dec_jumped msg (pointer_offset (msg ! p) (msg ! (p + 1))) (hops + 1) (enc_labels us) =
      Some (Inr (enc_name (us @ ls)))"
    by (rule Pointer.IH) (use Pointer.prems in simp_all)
  then show ?case
    using Pointer.hyps(1,2) Pointer.prems(1) name_at_inside [OF Pointer.hyps(3)] pointer_byte [of "msg ! p"]
    by (subst dec_jumped.simps) (simp add: Let_def)
qed

text \<open>The same for the first loop, with the number of bytes the name takes up.\<close>

definition reads_span ::
  "byte list \<Rightarrow> nat \<Rightarrow> nat \<Rightarrow> label list \<Rightarrow> (dec_error + byte list \<times> nat) option \<Rightarrow> bool" where
  "reads_span msg p sz us r \<longleftrightarrow> (\<exists>e. r = Some (Inl e)) \<or>
     (\<exists>ls h n. r = Some (Inr (enc_name (us @ ls), sz - n)) \<and> name_at msg p ls h \<and>
        h \<le> 255 \<and> name_ok (us @ ls) \<and> name_span msg p n \<and> n \<le> sz)"

lemma reads_span_error [simp]: "reads_span msg p sz us (Some (Inl e))"
  by (simp add: reads_span_def)

lemma reads_span_root:
  assumes "p < length msg" "msg ! p = 0" "labels_ok us" "length (enc_labels us) \<le> 255" "0 < sz"
  shows "reads_span msg p sz us (Some (Inr (enc_name us, sz - 1)))"
proof -
  have "name_at msg p [] 0" "name_span msg p 1"
    using assms name_at.Root name_span.Root by blast+
  moreover have "name_ok (us @ [])" using assms by (simp add: name_ok_def length_enc_name)
  moreover have "1 \<le> sz" using assms by simp
  ultimately show ?thesis unfolding reads_span_def by (metis append.right_neutral le0)
qed

lemma reads_span_pointer:
  assumes "reads_name msg (pointer_offset (msg ! p) (msg ! (p + 1))) 1 us r"
    and "p + 1 < length msg" "0xc0 \<le> msg ! p" "2 \<le> sz"
  shows "reads_span msg p sz us (map_option (map_sum id (\<lambda>t. (t, sz - 2))) r)"
proof (cases "\<exists>e. r = Some (Inl e)")
  case False
  then obtain ls h where ls: "r = Some (Inr (enc_name (us @ ls)))"
      "name_at msg (pointer_offset (msg ! p) (msg ! (p + 1))) ls h" "h = 0 \<or> 1 + h \<le> 255" "name_ok (us @ ls)"
    using assms(1) unfolding reads_name_def by blast
  then have "name_at msg p ls (Suc h)" "Suc h \<le> 255" "name_span msg p 2"
    using assms by (auto intro: name_at.Pointer name_span.Pointer)
  moreover have "map_option (map_sum id (\<lambda>t. (t, sz - 2))) r = Some (Inr (enc_name (us @ ls), sz - 2))"
    by (simp add: ls(1))
  ultimately show ?thesis using ls(4) assms(4) unfolding reads_span_def by blast
qed (auto simp: reads_span_def)

lemma reads_span_label:
  assumes "reads_span msg (p + 1 + length l) (sz - 1 - length l) (us @ [l]) r"
    and "p < length msg" "label_ok l" "msg ! p = of_nat (length l)" "segment (p + 1) (length l) msg = l"
    and "1 + length l \<le> sz"
  shows "reads_span msg p sz us r"
proof (cases "\<exists>e. r = Some (Inl e)")
  case False
  then obtain ls h n where ls: "r = Some (Inr (enc_name ((us @ [l]) @ ls), sz - 1 - length l - n))"
      "name_at msg (p + 1 + length l) ls h" "h \<le> 255" "name_ok ((us @ [l]) @ ls)"
      "name_span msg (p + 1 + length l) n" "n \<le> sz - 1 - length l"
    using assms(1) unfolding reads_span_def by blast
  then have "name_at msg p (l # ls) h" using assms by (auto intro: name_at.Label)
  moreover have "name_span msg p (n + 1 + length l)"
    using name_span.Label [of p msg n] assms(2-4) ls(5) length_byte [OF assms(3)] by (simp del: length_byte add: not_less)
  moreover have "(us @ [l]) @ ls = us @ l # ls" "sz - 1 - length l - n = sz - (n + 1 + length l)"
      "n + 1 + length l \<le> sz"
    using ls(6) assms(6) by simp_all
  ultimately show ?thesis using ls(1,3,4) unfolding reads_span_def by metis
qed (auto simp: reads_span_def)

lemma dec_direct_sound:
  assumes "p < length msg" "0 < sz" "tgt = enc_labels us" "labels_ok us" "length tgt \<le> 255"
  shows "reads_span msg p sz us (dec_direct msg p sz tgt)"
  using assms
proof (induction msg p sz tgt arbitrary: us rule: dec_direct.induct)
  case (1 msg p sz tgt)
  let ?lb = "msg ! p" and ?offs = "pointer_offset (msg ! p) (msg ! (p + 1))"
  show ?case
  proof (cases ?lb rule: length_byte_cases)
    case pointer
    show ?thesis
    proof (cases "?lb < 0xc0 \<or> sz - 1 = 0 \<or> p + 1 \<ge> length msg \<or> ?offs \<ge> length msg")
      case True
      then show ?thesis using pointer 1(2-) by (subst dec_direct.simps) (auto simp: Let_def)
    next
      case False
      then have "dec_direct msg p sz tgt =
          map_option (map_sum id (\<lambda>t. (t, sz - 2))) (dec_jumped msg ?offs 1 tgt)"
        using pointer 1(2-) by (subst dec_direct.simps) (simp add: Let_def numeral_2_eq_2)
      moreover have "reads_name msg ?offs 1 us (dec_jumped msg ?offs 1 tgt)"
        using False 1(4-) by (intro dec_jumped_sound) simp_all
      ultimately show ?thesis using False reads_span_pointer [of msg p us _ sz] by (simp add: not_less)
    qed
  next
    case root
    then show ?thesis
      using 1(2-) reads_span_root by (subst dec_direct.simps) (simp add: flip: enc_name_def)
  next
    case label
    show ?thesis
    proof (cases "sz - 1 \<le> unat ?lb \<or> p + 1 + unat ?lb \<ge> length msg \<or> length tgt + 1 + unat ?lb > 255")
      case True
      then show ?thesis using label 1(2-) by (subst dec_direct.simps) (auto simp: Let_def)
    next
      case False
      then have in_msg: "p + 1 + unat ?lb < length msg" "1 + unat ?lb \<le> sz" "1 + unat ?lb < sz" by linarith+
      define l where "l = segment (p + 1) (unat ?lb) msg"
      note step = label_step [OF label in_msg(1) l_def]
      have copy: "copy_label msg (p + 1) (unat ?lb) (tgt @ [?lb]) = Some (enc_labels (us @ [l]))"
        using step(5) [of us] False 1(4) by simp
      then have "dec_direct msg p sz tgt =
          dec_direct msg (p + 1 + unat ?lb) (sz - 1 - unat ?lb) (enc_labels (us @ [l]))"
        using label 1(2-) False by (subst dec_direct.simps) (simp add: Let_def)
      moreover have "reads_span msg (p + 1 + unat ?lb) (sz - 1 - unat ?lb) (us @ [l])
          (dec_direct msg (p + 1 + unat ?lb) (sz - 1 - unat ?lb) (enc_labels (us @ [l])))"
        by (rule 1(1)) (use False in_msg label step(1,2) copy 1(2-) in simp_all)
      ultimately show ?thesis
        using reads_span_label [OF _ 1(2) step(1,3,4)] in_msg(2) by (simp only: step(2))
    qed
  qed
qed

lemma dec_direct_complete:
  "name_at msg p ls h \<Longrightarrow> h \<le> 255 \<Longrightarrow> name_ok (us @ ls) \<Longrightarrow> name_span msg p n \<Longrightarrow> n \<le> sz \<Longrightarrow>
     dec_direct msg p sz (enc_labels us) = Some (Inr (enc_name (us @ ls), sz - n))"
proof (induction arbitrary: us n sz rule: name_at.induct)
  case (Root p)
  from Root.prems(3) have "n = 1" by cases (use Root.hyps in auto)
  then show ?case using Root by (subst dec_direct.simps) (simp add: enc_name_def name_ok_def)
next
  case (Label p l ls h)
  from Label.prems(3) obtain n' where n: "n = n' + 1 + length l" "name_span msg (p + 1 + length l) n'"
  proof cases
    case Root
    then show ?thesis using Label.hyps(2,3) by simp
  next
    case (Label n')
    then show ?thesis using that [of n'] Label.hyps(2,3) by simp
  next
    case Pointer
    then show ?thesis using Label.hyps(2,3) pointer_byte [of "msg ! p"] by simp
  qed
  have sz: "0 < sz" "length l < sz - 1" using n Label.prems(4) name_span_inside [OF n(2)] by linarith+
  have "dec_direct msg (p + 1 + length l) (sz - 1 - length l) (enc_labels (us @ [l])) =
      Some (Inr (enc_name ((us @ [l]) @ ls), sz - 1 - length l - n'))"
    by (rule Label.IH) (use Label.prems n in simp_all)
  moreover have "copy_label msg (p + 1) (length l) (enc_labels us @ [msg ! p]) = Some (enc_labels (us @ [l]))"
    using Label.hyps(3,4) name_ok_prefix_fits [OF Label.prems(2)] name_at_inside [OF Label.hyps(5)]
    by (subst copy_label_eq) simp_all
  ultimately show ?case
    using Label.hyps(1-3) name_at_inside [OF Label.hyps(5)] name_ok_prefix_fits [OF Label.prems(2)] n(1) sz
    by (subst dec_direct.simps) (simp add: Let_def)
next
  case (Pointer p ls h)
  from Pointer.prems(3) have n: "n = 2" by cases (use Pointer.hyps(2) pointer_byte [of "msg ! p"] in auto)
  have "dec_jumped msg (pointer_offset (msg ! p) (msg ! (p + 1))) 1 (enc_labels us) =
      Some (Inr (enc_name (us @ ls)))"
    by (rule dec_jumped_complete) (use Pointer in simp_all)
  then show ?case
    using Pointer.hyps(1,2) Pointer.prems(4) name_at_inside [OF Pointer.hyps(3)]
      pointer_byte [of "msg ! p"] n
    by (subst dec_direct.simps) (simp add: Let_def)
qed

lemma decompress_name_sound:
  "(\<exists>e. decompress_name msg p sz = Some (Inl e)) \<or>
   (\<exists>ls h n. decompress_name msg p sz = Some (Inr (enc_name ls, sz - n, length (enc_name ls))) \<and>
      name_at msg p ls h \<and> h \<le> 255 \<and> name_ok ls \<and> name_span msg p n \<and> n \<le> sz)"
proof (cases "sz = 0 \<or> p \<ge> length msg")
  case True
  then show ?thesis by (auto simp: decompress_name_def)
next
  case False
  then have "reads_span msg p sz [] (dec_direct msg p sz [])" by (intro dec_direct_sound) simp_all
  then show ?thesis using False unfolding reads_span_def decompress_name_def by fastforce
qed

lemma decompress_name_complete:
  assumes "name_at msg p ls h" "h \<le> 255" "name_ok ls" "name_span msg p n" "n \<le> sz"
  shows "decompress_name msg p sz = Some (Inr (enc_name ls, sz - n, length (enc_name ls)))"
proof -
  have "dec_direct msg p sz [] = Some (Inr (enc_name ls, sz - n))"
    using dec_direct_complete [of msg p ls h "[]" n sz] assms by simp
  moreover have "\<not> sz = 0" "\<not> p \<ge> length msg"
    using name_span_inside [OF assms(4)] assms(5) by linarith+
  ultimately show ?thesis by (simp add: decompress_name_def)
qed

section \<open>Correctness\<close>

text \<open>C6. On every message, from every position and for every size limit, \<open>decompress_name\<close> ends, reads only
  bytes of the message and writes only bytes of its buffer; a result other than an error code is the image
  of a legal name of at most \<open>DNSNAMEBUFSIZE\<close> bytes together with its length, and the source pointer has
  moved forward over bytes of the message within the limit.\<close>

theorem decompress_name_safe:
  "(\<exists>e. decompress_name msg p sz = Some (Inl e)) \<or>
   (\<exists>ls n. decompress_name msg p sz = Some (Inr (enc_name ls, sz - n, length (enc_name ls))) \<and>
      name_ok ls \<and> 0 < n \<and> n \<le> sz \<and> p + n \<le> length msg)"
  using decompress_name_sound [of msg p sz] name_span_inside by fast

text \<open>C38. \<open>decompress_name\<close> returns a name exactly when the position means that name through at most 255
  pointers, the name fits the buffer and its bytes up to the first pointer are within the limit.\<close>

theorem decompress_name_exact:
  "decompress_name msg p sz = Some (Inr (nm, newsz, len)) \<longleftrightarrow>
   (\<exists>ls h n. name_at msg p ls h \<and> h \<le> 255 \<and> name_ok ls \<and> name_span msg p n \<and> n \<le> sz \<and>
      nm = enc_name ls \<and> newsz = sz - n \<and> len = length nm)"
proof
  assume l: "decompress_name msg p sz = Some (Inr (nm, newsz, len))"
  then obtain ls h n where
    "decompress_name msg p sz = Some (Inr (enc_name ls, sz - n, length (enc_name ls)))"
    "name_at msg p ls h" "h \<le> 255" "name_ok ls" "name_span msg p n" "n \<le> sz"
    using decompress_name_sound [of msg p sz] by auto
  then show "\<exists>ls h n. name_at msg p ls h \<and> h \<le> 255 \<and> name_ok ls \<and> name_span msg p n \<and> n \<le> sz \<and>
      nm = enc_name ls \<and> newsz = sz - n \<and> len = length nm"
    using l by (intro exI [of _ ls] exI [of _ h] exI [of _ n]) simp
qed (use decompress_name_complete in blast)

end
