(* ===== verification/Dns_Compress.thy ===== *)
theory Dns_Compress
  imports Dns_Name
begin

text \<open>
  Writing compressed names into a DNS message, from pdnsd's \<open>dns.c\<close>: \<open>compress_name\<close> with its
  list of the names already written (\<open>compel_t\<close>, \<open>dlist\<close>).

  \<open>compress_name\<close> may point only into the part of an earlier name that was written out in full, and
  only below offset 0x4000; it relies on finding the first occurrence of a suffix before any later
  one. The invariant \<open>compress_inv\<close> makes that argument precise, and with it every name put into a
  message decompresses to itself, up to the case of its letters.
\<close>

section \<open>compress\_name\<close>

text \<open>A \<open>compel_t\<close>: the offset of a name in the message and the name.\<close>

record compel =
  ci_index :: nat
  ci_s :: "byte list"

text \<open>\<open>dlist_grow(*cb,sizeof(compel_t)+ilen)\<close> and the stores that fill the new element.\<close>

definition add_compel :: "compel list \<Rightarrow> nat \<Rightarrow> byte list \<Rightarrow> compel list" where
  "add_compel cb offs nm = cb @ [\<lparr>ci_index = offs, ci_s = nm\<rparr>]"

text \<open>Part 1: the loop over the list, with \<open>longest\<close>, \<open>lrem\<close> and \<open>coffs\<close>.\<close>

fun longest_match ::
  "byte list \<Rightarrow> compel list \<Rightarrow> nat \<times> nat \<times> nat \<Rightarrow> (nat \<times> nat \<times> nat) option" where
  "longest_match inn [] acc = Some acc"
| "longest_match inn (ci # cb) (longest, lrem, coffs) =
     (case domain_match inn (ci_s ci) of
        None \<Rightarrow> None
      | Some (rv, rem, to) \<Rightarrow>
          let newoffs = ci_index ci + to in
          longest_match inn cb
            (if rv > longest \<and> newoffs \<le> 0x3fff then (rv, rem, newoffs) else (longest, lrem, coffs)))"

text \<open>The two bytes of a pointer, \<open>0xc0|((coffs&0x3f00)>>8)\<close> and \<open>coffs&0xff\<close>.\<close>

definition pointer_bytes :: "nat \<Rightarrow> byte list" where
  "pointer_bytes coffs =
     [0xc0 OR ucast (drop_bit 8 ((of_nat coffs :: u32) AND 0x3f00)), ucast ((of_nat coffs :: u32) AND 0xff)]"

text \<open>
  The name \<open>inn\<close> is put at \<open>offs\<close>. \<open>grow\<close> says whether the allocation of \<open>dlist_grow\<close>
  succeeds: \<open>Some None\<close> is the return value 0, otherwise the bytes written (as many as the return
  value) and the list. An assertion that fails is \<open>None\<close>.
\<close>

definition compress_name ::
  "bool \<Rightarrow> byte list \<Rightarrow> nat \<Rightarrow> compel list \<Rightarrow> (byte list \<times> compel list) option option" where
  "compress_name grow inn offs cb =
     (case rhnlen inn of
        None \<Rightarrow> None
      | Some ilen \<Rightarrow>
          if ilen > DNSNAMEBUFSIZE then None
          else case longest_match inn cb (0, 0, 0) of
            None \<Rightarrow> None
          | Some (longest, lrem, coffs) \<Rightarrow>
              if longest > 0 \<and> \<not> lrem + 2 \<le> ilen then None
              else
                let out = (if longest > 0 then take lrem inn @ pointer_bytes coffs else take ilen inn);
                    add = (longest > 0 \<longrightarrow> lrem \<noteq> 0) in
                Some (if add then
                        if grow then Some (out, add_compel cb offs (take ilen inn)) else None
                      else Some (out, cb)))"

section \<open>Pointers\<close>

lemma pointer_bits:
  assumes "take_bit 14 c = (c :: u32)"
  shows "push_bit 8 (ucast ((0xc0 OR ucast (drop_bit 8 (c AND 0x3f00)) :: byte) AND 0x3f)) OR
    ucast (ucast (c AND 0xff) :: byte) = c"
proof -
  have masks: "(0x3f :: byte) = mask 6" "(0xff :: u32) = mask 8" "(0x3f00 :: u32) = push_bit 8 (mask 6)"
    "(0xc0 :: byte) = push_bit 6 (mask 2)"
    by (simp_all add: mask_eq_exp_minus_1 push_bit_eq_mult)
  have "push_bit 8 (ucast ((0xc0 OR ucast (drop_bit 8 (c AND 0x3f00)) :: byte) AND 0x3f)) OR
    ucast (ucast (c AND 0xff) :: byte) = take_bit 14 c"
    unfolding masks by (rule bit_word_eqI) (auto simp: bit_simps)
  then show ?thesis by (simp add: assms)
qed

lemma pointer_bytes_read:
  assumes "coffs \<le> 0x3fff"
  obtains hi lo where "pointer_bytes coffs = [hi, lo]" "0xc0 \<le> hi" "pointer_offset hi lo = coffs"
proof
  let ?c = "of_nat coffs :: u32"
  have u: "unat ?c = coffs" using assms by (simp add: unsigned_of_nat take_bit_nat_eq_self)
  have "take_bit 14 ?c = ?c"
    using assms by (simp add: word_eq_iff_unsigned [where ?'a = nat] unsigned_take_bit_eq u take_bit_nat_eq_self)
  then show "pointer_offset (0xc0 OR ucast (drop_bit 8 (?c AND 0x3f00))) (ucast (?c AND 0xff)) = coffs"
    unfolding pointer_offset_def using pointer_bits u by simp
  have "x \<le> x OR y" for x y :: byte
    by (simp add: word_le_def unsigned_or_eq or_greater_eq)
  then show "0xc0 \<le> (0xc0 OR ucast (drop_bit 8 (?c AND 0x3f00)) :: byte)" .
qed (simp add: pointer_bytes_def)

section \<open>What is on the wire after a run of literal labels\<close>

lemma literal_labels_name:
  "labels_ok us \<Longrightarrow>
     name_at (pre @ enc_labels us @ post) (length pre + length (enc_labels us)) ls h \<Longrightarrow>
     name_at (pre @ enc_labels us @ post) (length pre) (us @ ls) h"
proof (induction us arbitrary: pre)
  case (Cons l us)
  have "name_at ((pre @ of_nat (length l) # l) @ enc_labels us @ post)
      (length (pre @ of_nat (length l) # l)) (us @ ls) h"
    by (rule Cons.IH) (use Cons.prems in \<open>simp_all add: add_ac\<close>)
  then show ?case using Cons.prems(1) unfolding append_Cons
    by (intro name_at.Label) (simp_all add: segment_def add_ac)
qed simp

lemma literal_labels_span:
  "labels_ok us \<Longrightarrow>
     name_span (pre @ enc_labels us @ post) (length pre + length (enc_labels us)) n \<Longrightarrow>
     name_span (pre @ enc_labels us @ post) (length pre) (length (enc_labels us) + n)"
proof (induction us arbitrary: pre)
  case (Cons l us)
  have "name_span ((pre @ of_nat (length l) # l) @ enc_labels us @ post)
      (length (pre @ of_nat (length l) # l)) (length (enc_labels us) + n)"
    by (rule Cons.IH) (use Cons.prems in \<open>simp_all add: add_ac\<close>)
  then show ?case
    using name_span.Label [of "length pre" "pre @ enc_labels (l # us) @ post" "length (enc_labels us) + n"]
      Cons.prems(1) length_byte [of l]
    by (simp del: length_byte add: not_less add_ac)
qed simp

section \<open>Ghost state: what was written where\<close>

text \<open>
  For each element of the list, its offset, the labels of the name and how many of them were written
  out before a pointer (all of them if there is no pointer).
\<close>

record written =
  w_index :: nat
  w_labels :: "label list"
  w_lits :: nat

definition compel_of :: "written \<Rightarrow> compel" where
  "compel_of e = \<lparr>ci_index = w_index e, ci_s = enc_name (w_labels e)\<rparr>"

text \<open>Position \<open>p\<close> means \<open>ls\<close> up to case, through fewer pointers than labels.\<close>

definition means :: "byte list \<Rightarrow> nat \<Rightarrow> label list \<Rightarrow> bool" where
  "means msg p ls \<longleftrightarrow> (\<exists>xs h. name_at msg p xs h \<and> lower_name xs = lower_name ls \<and> h < length xs)"

definition literal_positions :: "byte list \<Rightarrow> written \<Rightarrow> bool" where
  "literal_positions msg e \<longleftrightarrow>
     (\<forall>d < w_lits e. means msg (w_index e + offset_of (w_labels e) d) (drop d (w_labels e)))"

definition lies_before :: "written \<Rightarrow> nat \<Rightarrow> bool" where
  "lies_before e p \<longleftrightarrow>
     w_index e \<le> p \<and> (\<forall>d < w_lits e. w_index e + offset_of (w_labels e) d < p)"

text \<open>
  The invariant of a message and the list: names are legal and their literal positions mean what
  they should; a name that ends in a pointer shares at least the labels behind the pointer with an
  earlier name; names are listed in the order of their offsets.
\<close>

definition compress_inv :: "byte list \<Rightarrow> written list \<Rightarrow> bool" where
  "compress_inv msg es \<longleftrightarrow>
     (\<forall>b < length es. name_ok (w_labels (es ! b)) \<and> literal_positions msg (es ! b) \<and>
        (w_lits (es ! b) < length (w_labels (es ! b)) \<longrightarrow>
           (\<exists>a < b. length (w_labels (es ! b)) - w_lits (es ! b) \<le>
              matching (w_labels (es ! a)) (w_labels (es ! b)))) \<and>
        (\<forall>a < b. lies_before (es ! a) (w_index (es ! b))) \<and>
        lies_before (es ! b) (length msg))"

lemma compress_inv_Nil [simp]: "compress_inv msg []"
  by (simp add: compress_inv_def)

lemma means_append: "means msg p ls \<Longrightarrow> means (msg @ post) p ls"
  unfolding means_def using name_at_append by blast

lemma lies_before_mono: "lies_before e p \<Longrightarrow> p \<le> q \<Longrightarrow> lies_before e q"
  unfolding lies_before_def by (meson le_trans less_le_trans)

lemma compress_inv_append: "compress_inv msg es \<Longrightarrow> compress_inv (msg @ post) es"
  unfolding compress_inv_def literal_positions_def
  by (auto intro: means_append lies_before_mono)

section \<open>The match that compress\_name takes\<close>

text \<open>The offset a pointer from the name \<open>nm\<close> into \<open>e\<close> would have.\<close>

definition target :: "label list \<Rightarrow> written \<Rightarrow> nat" where
  "target nm e = w_index e + offset_of (w_labels e) (length (w_labels e) - matching nm (w_labels e))"

definition best_match :: "label list \<Rightarrow> written list \<Rightarrow> nat \<times> nat \<times> nat \<Rightarrow> bool" where
  "best_match nm es = (\<lambda>(longest, lrem, coffs).
     (\<forall>a < length es. target nm (es ! a) \<le> 0x3fff \<longrightarrow> matching nm (w_labels (es ! a)) \<le> longest) \<and>
     (0 < longest \<longrightarrow> lrem = offset_of nm (length nm - longest) \<and> coffs \<le> 0x3fff \<and>
       (\<exists>b < length es. longest = matching nm (w_labels (es ! b)) \<and> coffs = target nm (es ! b) \<and>
          (\<forall>a < b. target nm (es ! a) \<le> 0x3fff \<longrightarrow> matching nm (w_labels (es ! a)) < longest))))"

lemma longest_match_append:
  "longest_match inn (xs @ ys) acc = Option.bind (longest_match inn xs acc) (longest_match inn ys)"
  by (induction inn xs acc rule: longest_match.induct) (auto split: option.splits simp: Let_def)

lemma longest_match_best:
  assumes "name_ok nm" "\<And>e. e \<in> set es \<Longrightarrow> name_ok (w_labels e)"
  obtains acc where "longest_match (enc_name nm @ rest) (map compel_of es) (0, 0, 0) = Some acc"
    "best_match nm es acc"
proof -
  have "\<exists>acc. longest_match (enc_name nm @ rest) (map compel_of es) (0, 0, 0) = Some acc \<and> best_match nm es acc"
    using assms(2)
  proof (induction es rule: rev_induct)
    case Nil
    then show ?case by (simp add: best_match_def)
  next
    case (snoc e es)
    then obtain longest lrem coffs where
      IH: "longest_match (enc_name nm @ rest) (map compel_of es) (0, 0, 0) = Some (longest, lrem, coffs)"
        "best_match nm es (longest, lrem, coffs)" by auto
    let ?rv = "matching nm (w_labels e)"
    have dm: "domain_match (enc_name nm @ rest) (enc_name (w_labels e)) =
        Some (?rv, offset_of nm (length nm - ?rv), offset_of (w_labels e) (length (w_labels e) - ?rv))"
      using domain_match_enc [OF assms(1), of "w_labels e" rest "[]"] snoc.prems by simp
    let ?acc = "if ?rv > longest \<and> target nm e \<le> 0x3fff
      then (?rv, offset_of nm (length nm - ?rv), target nm e) else (longest, lrem, coffs)"
    have "longest_match (enc_name nm @ rest) (map compel_of (es @ [e])) (0, 0, 0) = Some ?acc"
      using IH(1) dm by (simp add: longest_match_append compel_of_def target_def Let_def)
    moreover have "best_match nm (es @ [e]) ?acc"
    proof (cases "?rv > longest \<and> target nm e \<le> 0x3fff")
      case True
      then show ?thesis using IH(2)
        by (auto simp: best_match_def nth_append less_Suc_eq intro!: exI [of _ "length es"])
    next
      case False
      then show ?thesis using IH(2)
        by (fastforce simp: best_match_def nth_append less_Suc_eq)
    qed
    ultimately show ?case by blast
  qed
  then show ?thesis using that by blast
qed

lemma compress_invD:
  assumes "compress_inv msg es" "b < length es"
  shows "name_ok (w_labels (es ! b))" "literal_positions msg (es ! b)"
    "w_lits (es ! b) < length (w_labels (es ! b)) \<Longrightarrow>
       \<exists>a < b. length (w_labels (es ! b)) - w_lits (es ! b) \<le> matching (w_labels (es ! a)) (w_labels (es ! b))"
    "a < b \<Longrightarrow> lies_before (es ! a) (w_index (es ! b))"
    "lies_before (es ! b) (length msg)"
  using assms unfolding compress_inv_def by blast+

text \<open>
  If the last \<open>r\<close> labels of an entry were not written out, an earlier entry offers them to the
  name \<open>nm\<close>, unless the entry lies beyond the reach of a pointer.
\<close>

lemma earlier_occurrence:
  assumes "compress_inv msg es" "b < length es" "0 < r" "r \<le> matching nm (w_labels (es ! b))"
    "w_lits (es ! b) \<le> length (w_labels (es ! b)) - r"
  shows "(\<exists>a < b. r \<le> matching nm (w_labels (es ! a)) \<and> target nm (es ! a) \<le> 0x3fff) \<or>
    0x3fff < w_index (es ! b)"
  using assms(2-)
proof (induction b arbitrary: r rule: less_induct)
  case (less b)
  have r: "r \<le> length (w_labels (es ! b))" using less.prems(3) matching_le(2) le_trans by blast
  then have "w_lits (es ! b) < length (w_labels (es ! b))" using less.prems by linarith
  then obtain a where a: "a < b"
      "length (w_labels (es ! b)) - w_lits (es ! b) \<le> matching (w_labels (es ! a)) (w_labels (es ! b))"
    using compress_invD(3) [OF assms(1) less.prems(1)] by blast
  then have "r \<le> matching (w_labels (es ! b)) (w_labels (es ! a))"
    using less.prems(4) r by (subst matching_sym) linarith
  then have ra: "r \<le> matching nm (w_labels (es ! a))" using matching_trans less.prems(3) by blast
  note before = compress_invD(4) [OF assms(1) less.prems(1) a(1)]
  let ?rf = "matching nm (w_labels (es ! a))"
  consider "target nm (es ! a) \<le> 0x3fff"
    | (lit) "0x3fff < target nm (es ! a)" "length (w_labels (es ! a)) - ?rf < w_lits (es ! a)"
    | (ptr) "w_lits (es ! a) \<le> length (w_labels (es ! a)) - ?rf" by linarith
  then show ?case
  proof cases
    case 1
    then show ?thesis using a(1) ra by blast
  next
    case lit
    then have "target nm (es ! a) < w_index (es ! b)"
      using before by (simp add: lies_before_def target_def)
    then show ?thesis using lit(1) by linarith
  next
    case ptr
    have "(\<exists>c < a. ?rf \<le> matching nm (w_labels (es ! c)) \<and> target nm (es ! c) \<le> 0x3fff) \<or>
        0x3fff < w_index (es ! a)"
      by (rule less.IH) (use a less.prems ra ptr in auto)
    moreover have "w_index (es ! a) \<le> w_index (es ! b)" using before by (simp add: lies_before_def)
    ultimately show ?thesis using a(1) ra by (meson less_trans le_trans less_le_trans)
  qed
qed

lemma means_lower: "means msg p ls \<Longrightarrow> lower_name ls = lower_name ms \<Longrightarrow> means msg p ms"
  by (simp add: means_def)

text \<open>So the pointer that \<open>compress_name\<close> writes leads to the rest of the name.\<close>

lemma best_match_target:
  assumes "compress_inv msg es" "best_match nm es (longest, lrem, coffs)" "0 < longest"
  shows "means msg coffs (drop (length nm - longest) nm)"
proof -
  obtain b where b: "b < length es" "longest = matching nm (w_labels (es ! b))"
      "coffs = target nm (es ! b)" "coffs \<le> 0x3fff"
    and first: "\<And>a. a < b \<Longrightarrow> target nm (es ! a) \<le> 0x3fff \<Longrightarrow> matching nm (w_labels (es ! a)) < longest"
    using assms(2,3) unfolding best_match_def by blast
  let ?ls = "w_labels (es ! b)"
  have "w_index (es ! b) \<le> 0x3fff" using b(3,4) by (simp add: target_def)
  then have "length ?ls - longest < w_lits (es ! b)"
    using earlier_occurrence [OF assms(1) b(1) assms(3), of nm] b(2) first by (meson not_le order_refl)
  then have "means msg coffs (drop (length ?ls - longest) ?ls)"
    using compress_invD(2) [OF assms(1) b(1)] b(2,3) by (simp add: literal_positions_def target_def)
  moreover have "lower_name (drop (length ?ls - longest) ?ls) = lower_name (drop (length nm - longest) nm)"
    using le_matching [of longest nm ?ls] b(2) by simp
  ultimately show ?thesis by (rule means_lower)
qed

section \<open>Putting a name into a message\<close>

text \<open>The name \<open>ls\<close>, up to case, stands at \<open>p\<close> and takes up \<open>n\<close> bytes there.\<close>

definition holds_name :: "byte list \<Rightarrow> nat \<Rightarrow> nat \<Rightarrow> label list \<Rightarrow> bool" where
  "holds_name msg p n ls \<longleftrightarrow>
     name_span msg p n \<and>
     (\<exists>xs h. name_at msg p xs h \<and> lower_name xs = lower_name ls \<and> h \<le> length xs)"

lemma name_span_append: "name_span msg p n \<Longrightarrow> name_span (msg @ post) p n"
proof (induction rule: name_span.induct)
  case (Label p n)
  then show ?case using name_span.Label [of p "msg @ post" n] by (simp add: nth_append)
qed (auto simp: nth_append intro: name_span.Root name_span.Pointer simp del: One_nat_def)

lemma holds_name_append: "holds_name msg p n ls \<Longrightarrow> holds_name (msg @ post) p n ls"
  unfolding holds_name_def using name_span_append name_at_append by blast

lemma name_ok_lower: "lower_name ls = lower_name ms \<Longrightarrow> name_ok ls \<longleftrightarrow> name_ok ms"
  using lower_enc_labels_length labels_ok_lower by (metis length_enc_name name_ok_def)

lemma holds_name_decompress:
  assumes "holds_name msg p n ls" "name_ok ls" "n \<le> sz"
  shows "\<exists>xs. lower_name xs = lower_name ls \<and>
    decompress_name msg p sz = Some (Inr (enc_name xs, sz - n, length (enc_name ls)))"
proof -
  obtain xs h where xs: "name_span msg p n" "name_at msg p xs h" "lower_name xs = lower_name ls" "h \<le> length xs"
    using assms(1) unfolding holds_name_def by blast
  have ok: "name_ok xs" using name_ok_lower [OF xs(3)] assms(2) by simp
  then have "h \<le> 255" using xs(4) name_ok_few_labels [OF ok] by simp
  then have "decompress_name msg p sz = Some (Inr (enc_name xs, sz - n, length (enc_name xs)))"
    using decompress_name_complete xs(1,2) ok assms(3) by blast
  then show ?thesis using xs(3) lower_enc_labels_length [OF xs(3)] by (auto simp: length_enc_name)
qed

lemma name_at_within_labels:
  assumes "labels_ok us"
    and "name_at (msg @ enc_labels us @ post) (length msg + length (enc_labels us)) xs h"
  shows "name_at (msg @ enc_labels us @ post) (length msg + offset_of us d) (drop d us @ xs) h"
proof -
  let ?pre = "msg @ enc_labels (take d us)"
  have split: "enc_labels us = enc_labels (take d us) @ enc_labels (drop d us)"
    by (simp flip: enc_labels_simps(3))
  have "name_at (?pre @ enc_labels (drop d us) @ post) (length ?pre) (drop d us @ xs) h"
    by (rule literal_labels_name) (use assms split labels_ok_drop in \<open>simp_all add: add_ac\<close>)
  then show ?thesis using split by (simp add: offset_of_def)
qed

lemma means_inside: "means msg p ls \<Longrightarrow> p < length msg"
  unfolding means_def using name_at_inside by blast

lemma offset_of_take: "d \<le> m \<Longrightarrow> offset_of (take m ls) d = offset_of ls d"
  by (simp add: offset_of_def min_absorb1)

lemma compress_inv_snoc:
  assumes inv: "compress_inv msg es" and ok: "name_ok nm"
    and lits: "\<And>d. d < m \<Longrightarrow> means (msg @ out) (length msg + offset_of nm d) (drop d nm)"
    and rest: "m < length nm \<Longrightarrow> \<exists>a < length es. length nm - m \<le> matching (w_labels (es ! a)) nm"
  shows "compress_inv (msg @ out) (es @ [\<lparr>w_index = length msg, w_labels = nm, w_lits = m\<rparr>])"
proof -
  let ?e = "\<lparr>w_index = length msg, w_labels = nm, w_lits = m\<rparr>"
  have new: "lies_before ?e (length (msg @ out))" "literal_positions (msg @ out) ?e"
    using means_inside [OF lits] lits by (simp_all add: lies_before_def literal_positions_def)
  note inv' = compress_inv_append [OF inv, of out]
  show ?thesis unfolding compress_inv_def
  proof (intro allI impI)
    fix b assume "b < length (es @ [?e])"
    then consider (old) "b < length es" | (last) "b = length es" by (auto simp: less_Suc_eq)
    then show "name_ok (w_labels ((es @ [?e]) ! b)) \<and> literal_positions (msg @ out) ((es @ [?e]) ! b) \<and>
        (w_lits ((es @ [?e]) ! b) < length (w_labels ((es @ [?e]) ! b)) \<longrightarrow>
           (\<exists>a < b. length (w_labels ((es @ [?e]) ! b)) - w_lits ((es @ [?e]) ! b) \<le>
              matching (w_labels ((es @ [?e]) ! a)) (w_labels ((es @ [?e]) ! b)))) \<and>
        (\<forall>a < b. lies_before ((es @ [?e]) ! a) (w_index ((es @ [?e]) ! b))) \<and>
        lies_before ((es @ [?e]) ! b) (length (msg @ out))"
    proof cases
      case old
      then have "(es @ [?e]) ! a = es ! a" if "a \<le> b" for a using that by (simp add: nth_append)
      then show ?thesis using compress_invD [OF inv' old] by (metis less_imp_le order_refl)
    next
      case last
      then show ?thesis using new ok rest compress_invD(5) [OF inv] by (auto simp: nth_append)
    qed
  qed
qed

text \<open>A name written out in full.\<close>

lemma put_full:
  assumes inv: "compress_inv msg es" and ok: "name_ok nm"
  shows "compress_inv (msg @ enc_name nm) (es @ [\<lparr>w_index = length msg, w_labels = nm, w_lits = length nm\<rparr>])"
    "holds_name (msg @ enc_name nm) (length msg) (length (enc_name nm)) nm"
proof -
  have M: "msg @ enc_name nm = msg @ enc_labels nm @ [0]" by (simp add: enc_name_def)
  have root: "name_at (msg @ enc_labels nm @ [0]) (length msg + length (enc_labels nm)) [] 0"
    by (rule name_at.Root) (simp_all add: nth_append)
  note at = name_at_within_labels [OF name_okD [OF ok] root]
  have "means (msg @ enc_name nm) (length msg + offset_of nm d) (drop d nm)" if "d < length nm" for d
    unfolding means_def M using at [of d] that by (intro exI [of _ "drop d nm"] exI [of _ 0]) simp
  then show "compress_inv (msg @ enc_name nm) (es @ [\<lparr>w_index = length msg, w_labels = nm, w_lits = length nm\<rparr>])"
    by (rule compress_inv_snoc [OF inv ok]) simp_all
  have "name_span (msg @ enc_labels nm @ [0]) (length msg + length (enc_labels nm)) 1"
    by (rule name_span.Root) (simp_all add: nth_append)
  then have "name_span (msg @ enc_labels nm @ [0]) (length msg) (length (enc_labels nm) + 1)"
    by (rule literal_labels_span [OF name_okD [OF ok]])
  then show "holds_name (msg @ enc_name nm) (length msg) (length (enc_name nm)) nm"
    unfolding holds_name_def M using at [of 0] by (auto simp: length_enc_name)
qed

text \<open>A name that ends in a pointer after \<open>m\<close> labels.\<close>

lemma put_pointer:
  assumes inv: "compress_inv msg es" and ok: "name_ok nm" and coffs: "coffs \<le> 0x3fff"
    and target: "means msg coffs (drop m nm)" and m: "m < length nm"
    and out: "out = enc_labels (take m nm) @ pointer_bytes coffs"
    and a: "a < length es" "length nm - m \<le> matching (w_labels (es ! a)) nm"
  shows "compress_inv (msg @ out) (es @ [\<lparr>w_index = length msg, w_labels = nm, w_lits = m\<rparr>])"
    "holds_name (msg @ out) (length msg) (length out) nm"
proof -
  let ?us = "take m nm"
  have us: "labels_ok ?us" using name_okD [OF ok] by (rule labels_ok_take)
  obtain hi lo where p: "pointer_bytes coffs = [hi, lo]" "0xc0 \<le> hi" "pointer_offset hi lo = coffs"
    using pointer_bytes_read [OF coffs] by blast
  have M: "msg @ out = msg @ enc_labels ?us @ [hi, lo]" using out p by simp
  obtain xs h where xs: "name_at msg coffs xs h" "lower_name xs = lower_name (drop m nm)" "h < length xs"
    using target unfolding means_def by blast
  have "name_at (msg @ out) coffs xs h" using name_at_append xs(1) by blast
  then have "name_at (msg @ out) (length msg + length (enc_labels ?us)) xs (Suc h)"
    unfolding M using p by (intro name_at.Pointer) (simp_all add: nth_append)
  then have at: "name_at (msg @ out) (length msg + offset_of nm d) (drop d ?us @ xs) (Suc h)"
    if "d \<le> m" for d
    using name_at_within_labels [OF us, of msg "[hi, lo]" xs "Suc h" d] that
    unfolding M by (simp add: offset_of_take)
  have lower: "lower_name (drop d ?us @ xs) = lower_name (drop d nm)" if "d \<le> m" for d
    using xs(2) that m
    by (metis append_take_drop_id drop_append drop_0 diff_is_0_eq length_take lower_name_simps(3)
        min.absorb4)
  have "means (msg @ out) (length msg + offset_of nm d) (drop d nm)" if "d < m" for d
    unfolding means_def using at [of d] lower [of d] that xs(3) m
    by (intro exI [of _ "drop d ?us @ xs"] exI [of _ "Suc h"]) simp
  then show "compress_inv (msg @ out) (es @ [\<lparr>w_index = length msg, w_labels = nm, w_lits = m\<rparr>])"
    by (rule compress_inv_snoc [OF inv ok]) (use a in auto)
  have "name_span (msg @ enc_labels ?us @ [hi, lo]) (length msg + length (enc_labels ?us)) 2"
    using p(2) by (intro name_span.Pointer) (simp_all add: nth_append)
  then have "name_span (msg @ enc_labels ?us @ [hi, lo]) (length msg) (length (enc_labels ?us) + 2)"
    by (rule literal_labels_span [OF us])
  moreover have "length out = length (enc_labels ?us) + 2" by (simp add: out p)
  moreover have "Suc h \<le> length (?us @ xs)" using xs(3) by simp
  ultimately show "holds_name (msg @ out) (length msg) (length out) nm"
    unfolding holds_name_def using at [of 0] lower [of 0] M by (metis drop_0 le0 add_0_right offset_of_0)
qed

lemma offset_of_eq_0: "m \<le> length ls \<Longrightarrow> offset_of ls m = 0 \<longleftrightarrow> m = 0"
  by (cases ls; cases m) (simp_all add: offset_of_def)

lemma take_offset: "take (offset_of nm m) (enc_name nm) = enc_labels (take m nm)"
  by (subst enc_name_split [of nm m]) (simp add: offset_of_def)

lemma pointer_shortens:
  assumes "labels_ok nm" "m < length nm"
  shows "offset_of nm m + 2 \<le> length (enc_name nm)"
proof -
  have "label_ok (nm ! m)" using assms by (rule labels_ok_nth)
  then have "0 < length (nm ! m)" by (simp add: label_ok_def)
  moreover have "offset_of nm (Suc m) < length (enc_name nm)" by (rule offset_of_less)
  ultimately show ?thesis using offset_of_Suc [OF assms(2)] by linarith
qed

text \<open>The whole name is in the list, where a pointer can reach it.\<close>

definition known_name :: "written list \<Rightarrow> label list \<Rightarrow> bool" where
  "known_name es nm \<longleftrightarrow> nm \<noteq> [] \<and>
     (\<exists>a < length es. matching nm (w_labels (es ! a)) = length nm \<and> target nm (es ! a) \<le> 0x3fff)"

lemma best_match_known:
  "known_name es nm \<Longrightarrow> best_match nm es (longest, lrem, coffs) \<Longrightarrow> 0 < longest \<and> length nm \<le> longest"
  unfolding known_name_def best_match_def by (auto simp: Suc_le_eq) (metis length_greater_0_conv less_le_trans)

text \<open>
  One call of \<open>compress_name\<close> for the next free offset of a message. It never fails an assertion;
  it fails only for want of memory, and only if it has to extend the list.
\<close>

lemma compress_name_step:
  assumes inv: "compress_inv msg es" and ok: "name_ok nm"
  shows "\<exists>out es'. compress_name grow (enc_name nm @ rest) (length msg) (map compel_of es) =
        Some (if grow \<or> es' = es then Some (out, map compel_of es') else None) \<and>
      compress_inv (msg @ out) es' \<and> holds_name (msg @ out) (length msg) (length out) nm \<and>
      length out \<le> length (enc_name nm) \<and> (known_name es nm \<longrightarrow> es' = es)"
proof -
  have "name_ok (w_labels e)" if "e \<in> set es" for e
    using that compress_invD(1) [OF inv] by (metis in_set_conv_nth)
  then obtain longest lrem coffs where
    lm: "longest_match (enc_name nm @ rest) (map compel_of es) (0, 0, 0) = Some (longest, lrem, coffs)"
    and best: "best_match nm es (longest, lrem, coffs)"
    using longest_match_best [OF ok, of es rest] by (metis prod_cases3)
  have len: "rhnlen (enc_name nm @ rest) = Some (length (enc_name nm))" "length (enc_name nm) \<le> 256"
    using ok by (simp_all add: rhnlen_enc name_ok_def)
  have new: "compel_of \<lparr>w_index = length msg, w_labels = nm, w_lits = m\<rparr> =
      \<lparr>ci_index = length msg, ci_s = enc_name nm\<rparr>" for m by (simp add: compel_of_def)
  show ?thesis
  proof (cases "longest = 0")
    case True
    let ?es = "es @ [\<lparr>w_index = length msg, w_labels = nm, w_lits = length nm\<rparr>]"
    have "compress_name grow (enc_name nm @ rest) (length msg) (map compel_of es) =
        Some (if grow \<or> ?es = es then Some (enc_name nm, map compel_of ?es) else None)"
      using lm len True by (simp add: compress_name_def add_compel_def new)
    moreover have "\<not> known_name es nm" using best_match_known [OF _ best] True by blast
    ultimately show ?thesis using put_full [OF inv ok] by blast
  next
    case False
    define m where "m = length nm - longest"
    obtain a where a: "a < length es" "longest = matching nm (w_labels (es ! a))"
      and coffs: "coffs \<le> 0x3fff" and lrem: "lrem = offset_of nm m"
      using best False unfolding best_match_def m_def by auto
    have m: "m < length nm" "length nm - m = longest"
      using a(2) False matching_le(1) [of nm "w_labels (es ! a)"] by (simp_all add: m_def)
    have target: "means msg coffs (drop m nm)"
      unfolding m_def by (rule best_match_target [OF inv best]) (use False in simp)
    define out where "out = enc_labels (take m nm) @ pointer_bytes coffs"
    have "length nm - m \<le> matching (w_labels (es ! a)) nm" using a(2) m(2) matching_sym by simp
    note put = put_pointer [OF inv ok coffs target m(1) out_def a(1) this]
    let ?es = "if m = 0 then es else es @ [\<lparr>w_index = length msg, w_labels = nm, w_lits = m\<rparr>]"
    have short: "lrem + 2 \<le> length (enc_name nm)"
      unfolding lrem using name_okD [OF ok] m(1) by (rule pointer_shortens)
    have "lrem = 0 \<longleftrightarrow> m = 0" unfolding lrem using m(1) by (simp add: offset_of_eq_0)
    then have "compress_name grow (enc_name nm @ rest) (length msg) (map compel_of es) =
        Some (if grow \<or> ?es = es then Some (out, map compel_of ?es) else None)"
      using lm len False short
      by (simp add: compress_name_def add_compel_def new out_def take_offset lrem Let_def
          offset_of_less less_imp_le)
    moreover have "compress_inv (msg @ out) ?es" using put(1) compress_inv_append [OF inv] by simp
    moreover have "length out \<le> length (enc_name nm)"
      using short lrem by (simp add: out_def offset_of_def pointer_bytes_def)
    moreover have "known_name es nm \<longrightarrow> ?es = es"
      using best_match_known [OF _ best] by (auto simp: m_def)
    ultimately show ?thesis using put(2) by blast
  qed
qed

section \<open>A message built name by name\<close>

text \<open>
  The way a message is put together: names go through \<open>compress_name\<close> at the current end of the
  message, everything else is copied. \<open>compose_parts\<close> returns the message, the compression list and,
  for every name, its position, the number of bytes it took and its labels.
\<close>

datatype part = Domain "label list" | Other "byte list"

fun compose_parts ::
  "part list \<Rightarrow> byte list \<times> compel list \<Rightarrow> (byte list \<times> compel list \<times> (nat \<times> nat \<times> label list) list) option"
where
  "compose_parts [] (msg, cb) = Some (msg, cb, [])"
| "compose_parts (Other bs # ps) (msg, cb) = compose_parts ps (msg @ bs, cb)"
| "compose_parts (Domain nm # ps) (msg, cb) =
     (case compress_name True (enc_name nm) (length msg) cb of
        Some (Some (out, cb')) \<Rightarrow>
          map_option (\<lambda>(m, c, places). (m, c, (length msg, length out, nm) # places))
            (compose_parts ps (msg @ out, cb'))
      | _ \<Rightarrow> None)"

fun names_of :: "part list \<Rightarrow> label list list" where
  "names_of [] = []"
| "names_of (Domain nm # ps) = nm # names_of ps"
| "names_of (Other bs # ps) = names_of ps"

lemma compose_parts_places:
  assumes "compress_inv msg es" "list_all name_ok (names_of ps)"
  shows "\<exists>msg' es' places post. compose_parts ps (msg, map compel_of es) = Some (msg', map compel_of es', places) \<and>
    msg' = msg @ post \<and> map (snd \<circ> snd) places = names_of ps \<and>
    list_all (\<lambda>(p, n, nm). holds_name msg' p n nm \<and> n \<le> length (enc_name nm)) places"
  using assms
proof (induction ps arbitrary: msg es)
  case (Cons p ps)
  show ?case
  proof (cases p)
    case (Other bs)
    then have ok: "list_all name_ok (names_of ps)" using Cons.prems(2) by simp
    obtain msg' es' places post where rest:
      "compose_parts ps (msg @ bs, map compel_of es) = Some (msg', map compel_of es', places)"
      "msg' = (msg @ bs) @ post" "map (snd \<circ> snd) places = names_of ps"
      "list_all (\<lambda>(p, n, nm). holds_name msg' p n nm \<and> n \<le> length (enc_name nm)) places"
      using Cons.IH [OF compress_inv_append [OF Cons.prems(1), of bs] ok] by blast
    then show ?thesis using Other by (simp add: comp_def) blast
  next
    case (Domain nm)
    then have ok: "name_ok nm" "list_all name_ok (names_of ps)" using Cons.prems by simp_all
    obtain out es1 where one: "compress_name True (enc_name nm) (length msg) (map compel_of es) =
        Some (Some (out, map compel_of es1))"
      "compress_inv (msg @ out) es1" "holds_name (msg @ out) (length msg) (length out) nm"
      "length out \<le> length (enc_name nm)"
      using compress_name_step [OF Cons.prems(1) ok(1), of True "[]"] by auto
    obtain msg' es' places post where rest:
      "compose_parts ps (msg @ out, map compel_of es1) = Some (msg', map compel_of es', places)"
      "msg' = (msg @ out) @ post" "map (snd \<circ> snd) places = names_of ps"
      "list_all (\<lambda>(p, n, nm). holds_name msg' p n nm \<and> n \<le> length (enc_name nm)) places"
      using Cons.IH [OF one(2) ok(2)] by blast
    have "holds_name msg' (length msg) (length out) nm"
      unfolding rest(2) by (rule holds_name_append [OF one(3)])
    then show ?thesis using Domain one(1,4) rest by (simp add: comp_def) blast
  qed
qed auto

lemma names_survive:
  assumes "list_all name_ok (names_of ps)"
  shows "\<exists>msg cb places. compose_parts ps ([], []) = Some (msg, cb, places) \<and>
    map (snd \<circ> snd) places = names_of ps \<and>
    list_all (\<lambda>(p, n, nm). n \<le> length (enc_name nm) \<and> p + n \<le> length msg \<and>
      (\<exists>xs. lower_name xs = lower_name nm \<and>
        decompress_name msg p (length msg - p) =
          Some (Inr (enc_name xs, length msg - (p + n), length (enc_name nm))))) places"
proof -
  obtain msg es places where c: "compose_parts ps ([], []) = Some (msg, map compel_of es, places)"
    "map (snd \<circ> snd) places = names_of ps"
    "list_all (\<lambda>(p, n, nm). holds_name msg p n nm \<and> n \<le> length (enc_name nm)) places"
    using compose_parts_places [OF compress_inv_Nil, of ps "[]" ] assms by auto
  have "n \<le> length (enc_name nm) \<and> p + n \<le> length msg \<and>
      (\<exists>xs. lower_name xs = lower_name nm \<and> decompress_name msg p (length msg - p) =
          Some (Inr (enc_name xs, length msg - (p + n), length (enc_name nm))))"
    if pl: "(p, n, nm) \<in> set places" for p n nm
  proof -
    have h: "holds_name msg p n nm" "n \<le> length (enc_name nm)" using c(3) pl by (auto simp: list_all_iff)
    have "nm \<in> set (names_of ps)" using c(2) pl by (metis comp_apply image_eqI list.set_map snd_conv)
    then have ok: "name_ok nm" using assms by (simp add: list_all_iff)
    have "name_span msg p n" using h(1) by (simp add: holds_name_def)
    then have fits: "p + n \<le> length msg" using name_span_inside by blast
    then show ?thesis using h(2) holds_name_decompress [OF h(1) ok, of "length msg - p"] by auto
  qed
  then show ?thesis using c(1,2) by (auto simp: list_all_iff)
qed

section \<open>Correctness\<close>

text \<open>C5. However a message is put together out of legal names and other bytes, every name can be written, takes
  no more bytes than its uncompressed image, and decompresses in the finished message, at the position it was
  written to, to itself up to the case of its letters, leaving the source pointer right behind it.\<close>

theorem names_survive_compression:
  assumes "list_all name_ok (names_of ps)"
  shows "\<exists>msg cb places. compose_parts ps ([], []) = Some (msg, cb, places) \<and>
    map (snd \<circ> snd) places = names_of ps \<and>
    list_all (\<lambda>(p, n, nm). n \<le> length (enc_name nm) \<and> p + n \<le> length msg \<and>
      (\<exists>xs. lower_name xs = lower_name nm \<and>
        decompress_name msg p (length msg - p) =
          Some (Inr (enc_name xs, length msg - (p + n), length (enc_name nm))))) places"
  using assms by (rule names_survive)

theorem names_survive_compression_witness:
  "\<exists>msg cb places. compose_parts [Other [0, 1], Domain [[119], [97, 98], [99]], Domain [[97, 98], [67]], Other [5],
      Domain [[120], [119], [65, 66], [99]]] ([], []) = Some (msg, cb, places) \<and>
    map (snd \<circ> snd) places = [[[119], [97, 98], [99]], [[97, 98], [67]], [[120], [119], [65, 66], [99]]]"
proof -
  have "list_all name_ok (names_of [Other [0, 1], Domain [[119], [97, 98], [99]], Domain [[97, 98], [67]], Other [5],
      Domain [[120], [119], [65, 66], [99]]])"
    by (simp add: name_ok_def label_ok_def)
  from names_survive_compression [OF this] show ?thesis by auto
qed

end
