(* ===== verification/Dns_Cent.thy ===== *)
theory Dns_Cent
  imports Rhn
begin

text \<open>
  Cache entries of pdnsd, from \<open>cache.h\<close> and \<open>cache.c\<close>: a \<open>dns_cent_t\<close> holds either the time data
  of a negatively cached domain or the RR sets of a name, the frequent types in the array \<open>rrmu\<close>
  and the others in the array \<open>rrext\<close>, which exists only when needed. Each entry counts its RR sets
  (\<open>num_rrs\<close>) and the memory it takes (\<open>cs\<close>).

  The union is a datatype whose constructor the flag \<open>DF_NEGATIVE\<close> has to agree with; the linked list
  of the records of an RR set is the list of their data. \<open>time_t\<close> and sizes are unbounded integers.
  The sizes of the C structs are a parameter, as is the outcome of each allocation. An assertion that
  fails is \<open>None\<close>. The pointers \<open>lent\<close> into the list of all cached RR sets are not part of an entry:
  the entries here are not in the cache, where those pointers are NULL.
\<close>

named_theorems cent_simps "effects of the operations on cache entries"

section \<open>Constants and types\<close>

abbreviation (input) T_MIN :: nat where "T_MIN \<equiv> 1"
abbreviation (input) T_NUM :: nat where "T_NUM \<equiv> 51"
abbreviation (input) NRRMU :: nat where "NRRMU \<equiv> 8"
abbreviation (input) NRREXT :: nat where "NRREXT \<equiv> 39"
abbreviation (input) NRRTOT :: nat where "NRRTOT \<equiv> 47"

text \<open>Flags of RR sets and of entries: the number of the bit.\<close>

definition CF_NEGATIVE :: u16 where "CF_NEGATIVE = 1"
definition CF_LOCAL :: u16 where "CF_LOCAL = 2"
definition CF_AUTH :: u16 where "CF_AUTH = 4"
definition CF_NOCACHE :: u16 where "CF_NOCACHE = 8"
definition CF_ADDITIONAL :: u16 where "CF_ADDITIONAL = 16"
definition CF_NOPURGE :: u16 where "CF_NOPURGE = 32"
definition CF_ROOTSERV :: u16 where "CF_ROOTSERV = 64"
definition DF_NEGATIVE :: u16 where "DF_NEGATIVE = 1"
definition DF_LOCAL :: u16 where "DF_LOCAL = 2"
definition DF_AUTH :: u16 where "DF_AUTH = 4"
definition DF_NOCACHE :: u16 where "DF_NOCACHE = 8"
definition DF_WILD :: u16 where "DF_WILD = 16"
definition cundef :: byte where "cundef = 0xff"

text \<open>\<open>flags & F\<close> as a condition.\<close>

definition has_flag :: "u16 \<Rightarrow> u16 \<Rightarrow> bool" where
  "has_flag fl f \<longleftrightarrow> fl AND f \<noteq> 0"

text \<open>\<open>rrlkuptab\<close>: from RR types to indices.\<close>

definition rrlkuptab :: "nat list" where
  "rrlkuptab =
     [0, 1, 8, 9, 2, 3, 10, 11, 12, 13, 14, 4, 15, 16, 5, 6, 17, 18, 19, 20, 21, 22, 23, 24, 25, 26, 27,
      7, 28, 29, 30, 31, 32, 33, 34, 35, 36, 47, 48, 49, 50, 37, 38, 39, 40, 41, 42, 43, 44, 45, 46]"

text \<open>\<open>rr_set_t\<close>\<close>

record rr_set =
  rs_ttl :: int
  rs_ts :: int
  rs_flags :: u16
  rs_rrs :: "byte list list"

text \<open>\<open>dns_cent_t\<close>\<close>

datatype cent_body =
    Neg (neg_ttl: int) (neg_ts: int)
  | Rr (rrmu: "rr_set option list") (rrext: "rr_set option list option")

record dns_cent =
  qname :: "byte list"
  cs :: int
  num_rrs :: u16
  ce_flags :: u16
  body :: cent_body
  c_ns :: byte
  c_soa :: byte

text \<open>\<open>sizeof\<close> of the structs, and the outcomes of the allocations of one call.\<close>

record sizes =
  sz_cent :: int
  sz_rrset :: int
  sz_rr :: int
  sz_ptr :: int

datatype site = At_name | At_rr | At_rrext | At_rrset

type_synonym memory = "site \<Rightarrow> bool"

section \<open>Reading an entry\<close>

definition negative :: "dns_cent \<Rightarrow> bool" where
  "negative c \<longleftrightarrow> has_flag (ce_flags c) DF_NEGATIVE"

text \<open>\<open>RRARR_LEN\<close> and \<open>RRARR_INDEX_TESTEXT\<close>\<close>

definition rrarr_len :: "dns_cent \<Rightarrow> nat" where
  "rrarr_len c = (if negative c then 0 else case rrext (body c) of None \<Rightarrow> NRRMU | Some _ \<Rightarrow> NRRTOT)"

definition rrarr_index :: "dns_cent \<Rightarrow> nat \<Rightarrow> rr_set option" where
  "rrarr_index c i =
     (if negative c then None
      else if i < NRRMU then rrmu (body c) ! i
      else case rrext (body c) of None \<Rightarrow> None | Some ext \<Rightarrow> ext ! (i - NRRMU))"

text \<open>\<open>getrrset\<close> and \<open>have_rr\<close>\<close>

definition getrrset :: "dns_cent \<Rightarrow> int \<Rightarrow> rr_set option" where
  "getrrset c tp =
     (let tpi = tp - int T_MIN in
      if 0 \<le> tpi \<and> tpi < int T_NUM \<and> rrlkuptab ! nat tpi < NRRTOT
      then rrarr_index c (rrlkuptab ! nat tpi) else None)"

definition have_rr :: "dns_cent \<Rightarrow> nat \<Rightarrow> bool" where
  "have_rr c tp =
     (let idx = rrlkuptab ! (tp - T_MIN) in
      idx < NRRTOT \<and> (case rrarr_index c idx of None \<Rightarrow> False | Some rs \<Rightarrow> rs_rrs rs \<noteq> []))"

section \<open>Operations\<close>

definition no_sets :: cent_body where
  "no_sets = Rr (replicate NRRMU None) None"

definition init_cent :: "sizes \<Rightarrow> memory \<Rightarrow> byte list \<Rightarrow> int \<Rightarrow> int \<Rightarrow> u16 \<Rightarrow> dns_cent option option" where
  "init_cent sz mem nm ttl ts flags =
     (case rhnlen nm of
        None \<Rightarrow> None
      | Some namesz \<Rightarrow>
          Some (if mem At_name then
            Some \<lparr>qname = take namesz nm, cs = sz_cent sz + int namesz, num_rrs = 0, ce_flags = flags,
                  body = (if has_flag flags DF_NEGATIVE then Neg ttl ts else no_sets),
                  c_ns = cundef, c_soa = cundef\<rparr>
            else None))"

text \<open>\<open>*rrsetpa = rrset\<close>, for the address \<open>RRARR_INDEX_PA\<close>.\<close>

definition store_set :: "nat \<Rightarrow> rr_set option \<Rightarrow> cent_body \<Rightarrow> cent_body" where
  "store_set i rs b =
     (if i < NRRMU then Rr ((rrmu b)[i := rs]) (rrext b)
      else Rr (rrmu b) (map_option (\<lambda>ext. ext[i - NRRMU := rs]) (rrext b)))"

text \<open>
  \<open>add_cent_rrset_by_index\<close>: the result says whether the RR set was added. A negative entry
  becomes an ordinary one first; the array of the less frequent types is allocated when needed.
\<close>

definition make_positive :: "dns_cent \<Rightarrow> dns_cent" where
  "make_positive c =
     (if negative c then c\<lparr>ce_flags := ce_flags c AND NOT DF_NEGATIVE, body := no_sets\<rparr> else c)"

definition add_cent_rrset_by_index ::
  "sizes \<Rightarrow> memory \<Rightarrow> dns_cent \<Rightarrow> nat \<Rightarrow> int \<Rightarrow> int \<Rightarrow> u16 \<Rightarrow> (bool \<times> dns_cent) option" where
  "add_cent_rrset_by_index sz mem c idx ttl ts flags =
     (let c1 = make_positive c in
      if idx \<ge> NRRMU \<and> idx - NRRMU \<ge> NRREXT then None
      else if idx \<ge> NRRMU \<and> rrext (body c1) = None \<and> \<not> mem At_rrext then Some (False, c1)
      else
        let c2 = (if idx \<ge> NRRMU \<and> rrext (body c1) = None
                  then c1\<lparr>cs := cs c1 + sz_ptr sz * int NRREXT,
                          body := Rr (rrmu (body c1)) (Some (replicate NRREXT None))\<rparr>
                  else c1) in
        if \<not> mem At_rrset then Some (False, c2\<lparr>body := store_set idx None (body c2)\<rparr>)
        else Some (True,
          c2\<lparr>cs := cs c2 + sz_rrset sz, num_rrs := num_rrs c2 + 1,
             body := store_set idx (Some \<lparr>rs_ttl = ttl, rs_ts = ts, rs_flags = flags, rs_rrs = []\<rparr>) (body c2)\<rparr>))"

definition add_cent_rrset_by_type ::
  "sizes \<Rightarrow> memory \<Rightarrow> dns_cent \<Rightarrow> int \<Rightarrow> int \<Rightarrow> int \<Rightarrow> u16 \<Rightarrow> (bool \<times> dns_cent) option" where
  "add_cent_rrset_by_type sz mem c tp ttl ts flags =
     (let tpi = tp - int T_MIN in
      if 0 \<le> tpi \<and> tpi < int T_NUM
      then add_cent_rrset_by_index sz mem c (rrlkuptab ! nat tpi) ttl ts flags else None)"

text \<open>
  \<open>add_cent_rr_int\<close>: \<open>rtail\<close> is NULL or points to a record of the RR set, here its position; the
  new record goes before all others, or after that one.
\<close>

definition link_rr :: "nat option \<Rightarrow> byte list \<Rightarrow> byte list list \<Rightarrow> byte list list" where
  "link_rr rtail data rrs =
     (case rtail of None \<Rightarrow> data # rrs | Some k \<Rightarrow> take (Suc k) rrs @ data # drop (Suc k) rrs)"

definition next_tail :: "nat option \<Rightarrow> nat option" where
  "next_tail rtail = (case rtail of None \<Rightarrow> Some 0 | Some k \<Rightarrow> Some (Suc k))"

definition add_cent_rr_int ::
  "sizes \<Rightarrow> memory \<Rightarrow> dns_cent \<Rightarrow> nat \<Rightarrow> int \<Rightarrow> int \<Rightarrow> u16 \<Rightarrow> byte list \<Rightarrow> nat option \<Rightarrow>
     (bool \<times> dns_cent \<times> nat option) option" where
  "add_cent_rr_int sz mem c idx ttl ts flags data rtail =
     (if \<not> mem At_rr then Some (False, c, rtail)
      else
        case (if rtail = None \<and> rrarr_index c idx = None
              then add_cent_rrset_by_index sz mem c idx ttl ts flags else Some (True, c)) of
          None \<Rightarrow> None
        | Some (False, c1) \<Rightarrow> Some (False, c1, rtail)
        | Some (True, c1) \<Rightarrow>
            (case rrarr_index c1 idx of
               None \<Rightarrow> None
             | Some rs \<Rightarrow>
                 Some (True,
                   c1\<lparr>cs := cs c1 + (sz_rr sz + int (length data)),
                      body := store_set idx (Some (rs\<lparr>rs_rrs := link_rr rtail data (rs_rrs rs)\<rparr>)) (body c1)\<rparr>,
                   next_tail rtail)))"

text \<open>
  \<open>add_cent_rr\<close>: a record the RR set already has is not added again, and the RR set keeps the
  smallest TTL.
\<close>

definition last_index :: "'a list \<Rightarrow> nat option" where
  "last_index xs = (if xs = [] then None else Some (length xs - 1))"

definition add_cent_rr ::
  "sizes \<Rightarrow> memory \<Rightarrow> dns_cent \<Rightarrow> int \<Rightarrow> int \<Rightarrow> int \<Rightarrow> u16 \<Rightarrow> byte list \<Rightarrow> (bool \<times> dns_cent) option" where
  "add_cent_rr sz mem c tp ttl ts flags data =
     (if has_flag (ce_flags c) DF_LOCAL \<and> \<not> has_flag flags CF_LOCAL then Some (True, c)
      else let tpi = tp - int T_MIN in
      if \<not> (0 \<le> tpi \<and> tpi < int T_NUM) then None
      else let idx = rrlkuptab ! nat tpi in
      if \<not> idx < NRRTOT then None
      else case rrarr_index c idx of
        None \<Rightarrow> map_option (\<lambda>(r, c', _). (r, c')) (add_cent_rr_int sz mem c idx ttl ts flags data None)
      | Some rs \<Rightarrow>
          let rs1 = (if ttl < rs_ttl rs then rs\<lparr>rs_ttl := ttl\<rparr> else rs);
              c1 = c\<lparr>body := store_set idx (Some rs1) (body c)\<rparr> in
          if data \<in> set (rs_rrs rs1) then Some (True, c1)
          else map_option (\<lambda>(r, c', _). (r, c'))
                 (add_cent_rr_int sz mem c1 idx ttl ts flags data (last_index (rs_rrs rs1))))"

text \<open>\<open>del_rrset\<close> returns the size it frees; \<open>del_cent_rrset_by_index\<close> subtracts it.\<close>

definition del_rrset :: "sizes \<Rightarrow> rr_set \<Rightarrow> int" where
  "del_rrset sz rs = sz_rrset sz + sum_list (map (\<lambda>d. sz_rr sz + int (length d)) (rs_rrs rs))"

definition del_cent_rrset_by_index :: "sizes \<Rightarrow> dns_cent \<Rightarrow> nat \<Rightarrow> int \<times> dns_cent" where
  "del_cent_rrset_by_index sz c i =
     (case rrarr_index c i of
        None \<Rightarrow> (0, c)
      | Some rs \<Rightarrow>
          let rv = del_rrset sz rs in
          (rv, c\<lparr>cs := cs c - rv, num_rrs := num_rrs c - 1, ce_flags := ce_flags c AND NOT DF_AUTH,
                 body := store_set i None (body c)\<rparr>))"

text \<open>\<open>negate_cent\<close>\<close>

definition freed_sets :: "sizes \<Rightarrow> rr_set option list \<Rightarrow> int" where
  "freed_sets sz rss = sum_list (map (case_option 0 (del_rrset sz)) rss)"

definition negate_cent :: "sizes \<Rightarrow> dns_cent \<Rightarrow> int \<Rightarrow> int \<Rightarrow> dns_cent" where
  "negate_cent sz c ttl ts =
     (if negative c then c\<lparr>body := Neg ttl ts\<rparr>
      else
        let freed = freed_sets sz (rrmu (body c)) +
              (case rrext (body c) of None \<Rightarrow> 0 | Some ext \<Rightarrow> freed_sets sz ext + sz_ptr sz * int NRREXT) in
        c\<lparr>cs := cs c - freed, num_rrs := 0, ce_flags := ce_flags c OR DF_NEGATIVE, body := Neg ttl ts\<rparr>)"

text \<open>
  \<open>copy_cent\<close> and \<open>copy_rrset\<close> copy field by field; a failed allocation frees what was copied.
\<close>

definition copy_rrset :: "bool \<Rightarrow> rr_set \<Rightarrow> rr_set option" where
  "copy_rrset mem rs =
     (if mem then Some \<lparr>rs_ttl = rs_ttl rs, rs_ts = rs_ts rs, rs_flags = rs_flags rs, rs_rrs = rs_rrs rs\<rparr>
      else None)"

definition copy_cent :: "bool \<Rightarrow> dns_cent \<Rightarrow> dns_cent option option" where
  "copy_cent mem c =
     (case rhnlen (qname c) of
        None \<Rightarrow> None
      | Some namesz \<Rightarrow>
          Some (if mem then
            Some \<lparr>qname = take namesz (qname c), cs = cs c, num_rrs = num_rrs c, ce_flags = ce_flags c,
                  body = (if negative c then Neg (neg_ttl (body c)) (neg_ts (body c))
                          else Rr (rrmu (body c)) (rrext (body c))),
                  c_ns = c_ns c, c_soa = c_soa c\<rparr>
            else None))"

section \<open>The invariant\<close>

text \<open>Sums over the RR sets of an entry.\<close>

definition weigh :: "(rr_set \<Rightarrow> int) \<Rightarrow> rr_set option list \<Rightarrow> int" where
  "weigh f rss = sum_list (map (case_option 0 f) rss)"

fun body_weight :: "(rr_set \<Rightarrow> int) \<Rightarrow> cent_body \<Rightarrow> int" where
  "body_weight f (Neg ttl ts) = 0"
| "body_weight f (Rr mu None) = weigh f mu"
| "body_weight f (Rr mu (Some ext)) = weigh f mu + weigh f ext"

fun body_size :: "sizes \<Rightarrow> cent_body \<Rightarrow> int" where
  "body_size sz (Rr mu (Some ext)) = body_weight (del_rrset sz) (Rr mu (Some ext)) + sz_ptr sz * int NRREXT"
| "body_size sz b = body_weight (del_rrset sz) b"

fun body_shape :: "cent_body \<Rightarrow> bool" where
  "body_shape (Neg ttl ts) = True"
| "body_shape (Rr mu ext) =
     (length mu = NRRMU \<and> (case ext of None \<Rightarrow> True | Some e \<Rightarrow> length e = NRREXT))"

definition rr_set_ok :: "rr_set \<Rightarrow> bool" where
  "rr_set_ok rs \<longleftrightarrow> distinct (rs_rrs rs)"

text \<open>
  A well-formed entry: the flag \<open>DF_NEGATIVE\<close> and the union agree, the arrays have their sizes, the
  name is the image of a legal name, \<open>num_rrs\<close> is the number of RR sets, \<open>cs\<close> is the memory the entry
  takes, and no RR set holds a record twice.
\<close>

definition cent_ok :: "sizes \<Rightarrow> dns_cent \<Rightarrow> bool" where
  "cent_ok sz c \<longleftrightarrow>
     (negative c \<longleftrightarrow> is_Neg (body c)) \<and> body_shape (body c) \<and>
     (\<exists>ls. name_ok ls \<and> qname c = enc_name ls) \<and>
     num_rrs c = of_int (body_weight (\<lambda>_. 1) (body c)) \<and>
     cs c = sz_cent sz + int (length (qname c)) + body_size sz (body c) \<and>
     (\<forall>i rs. i < NRRTOT \<longrightarrow> rrarr_index c i = Some rs \<longrightarrow> rr_set_ok rs)"

lemma freed_sets_weigh: "freed_sets sz rss = weigh (del_rrset sz) rss"
  by (simp add: freed_sets_def weigh_def)

lemma weigh_update:
  "i < length rss \<Longrightarrow>
     weigh f (rss[i := v]) = weigh f rss - case_option 0 f (rss ! i) + case_option 0 f v"
proof (induction rss arbitrary: i)
  case (Cons a rss)
  then show ?case by (cases i) (simp_all add: weigh_def)
qed simp

lemma weigh_replicate_None [simp]: "weigh f (replicate n None) = 0"
  by (induction n) (simp_all add: weigh_def)

lemma body_weight_no_sets [simp]: "body_weight f no_sets = 0" "body_size sz no_sets = 0"
  "body_shape no_sets" "\<not> is_Neg no_sets"
  by (simp_all add: no_sets_def)

text \<open>The RR set at an index of the union.\<close>

definition body_index :: "cent_body \<Rightarrow> nat \<Rightarrow> rr_set option" where
  "body_index b i =
     (if i < NRRMU then rrmu b ! i else case rrext b of None \<Rightarrow> None | Some ext \<Rightarrow> ext ! (i - NRRMU))"

text \<open>An index at which \<open>store_set\<close> stores.\<close>

definition storable :: "cent_body \<Rightarrow> nat \<Rightarrow> bool" where
  "storable b i \<longleftrightarrow> \<not> is_Neg b \<and> body_shape b \<and> (i < NRRMU \<or> i < NRRTOT \<and> rrext b \<noteq> None)"

lemma rrarr_index_body: "rrarr_index c i = (if negative c then None else body_index (body c) i)"
  by (simp add: rrarr_index_def body_index_def)

lemma store_set_shape [simp]:
  "storable b i \<Longrightarrow> body_shape (store_set i v b)"
  "storable b i \<Longrightarrow> \<not> is_Neg (store_set i v b)"
  "storable b i \<Longrightarrow> storable (store_set i v b) j \<longleftrightarrow> storable b j"
  by (cases b; auto simp: storable_def store_set_def split: option.splits)+

lemma store_set_weight:
  "storable b i \<Longrightarrow>
     body_weight f (store_set i v b) =
       body_weight f b - case_option 0 f (body_index b i) + case_option 0 f v"
  "storable b i \<Longrightarrow>
     body_size sz (store_set i v b) =
       body_size sz b - case_option 0 (del_rrset sz) (body_index b i) + case_option 0 (del_rrset sz) v"
  by (cases b; cases "rrext b"; auto simp: storable_def store_set_def body_index_def weigh_update)+

lemma body_index_store:
  "storable b i \<Longrightarrow> j < NRRTOT \<Longrightarrow> body_index (store_set i v b) j = (if j = i then v else body_index b j)"
  by (cases b; cases "rrext b") (auto simp: storable_def store_set_def body_index_def nth_list_update)

lemma storable_index: "body_shape b \<Longrightarrow> \<not> is_Neg b \<Longrightarrow> i < NRRTOT \<Longrightarrow> body_index b i = Some rs \<Longrightarrow> storable b i"
  by (cases b) (auto simp: storable_def body_index_def split: if_splits option.splits)

lemma del_rrset_new [simp]: "del_rrset sz \<lparr>rs_ttl = ttl, rs_ts = ts, rs_flags = fl, rs_rrs = []\<rparr> = sz_rrset sz"
  by (simp add: del_rrset_def)

lemma rr_set_ok_new [simp]: "rr_set_ok \<lparr>rs_ttl = ttl, rs_ts = ts, rs_flags = fl, rs_rrs = []\<rparr>"
  by (simp add: rr_set_ok_def)

lemma not_negative_clear: "\<not> has_flag (fl AND NOT DF_NEGATIVE) DF_NEGATIVE"
  by (simp add: has_flag_def and.assoc)

lemma negative_keep_auth: "has_flag (fl AND NOT DF_AUTH) DF_NEGATIVE = has_flag fl DF_NEGATIVE"
  by (simp add: has_flag_def DF_AUTH_def DF_NEGATIVE_def and.assoc)

lemma negative_set: "has_flag (fl OR DF_NEGATIVE) DF_NEGATIVE"
proof -
  have "(fl OR DF_NEGATIVE) AND DF_NEGATIVE = DF_NEGATIVE"
    by (rule bit_word_eqI) (auto simp: bit_simps)
  then show ?thesis by (simp add: has_flag_def DF_NEGATIVE_def)
qed

section \<open>The operations keep an entry well formed\<close>

lemma cent_okD:
  assumes "cent_ok sz c"
  shows "negative c \<longleftrightarrow> is_Neg (body c)" "body_shape (body c)"
    "num_rrs c = of_int (body_weight (\<lambda>_. 1) (body c))"
    "cs c = sz_cent sz + int (length (qname c)) + body_size sz (body c)"
    "i < NRRTOT \<Longrightarrow> rrarr_index c i = Some rs \<Longrightarrow> rr_set_ok rs"
  using assms unfolding cent_ok_def by blast+

text \<open>Storing an RR set, with the counters adjusted.\<close>

lemma cent_ok_store:
  assumes ok: "cent_ok sz c" and pos: "\<not> negative c" and st: "storable (body c) i" and i: "i < NRRTOT"
    and v: "\<And>rs. v = Some rs \<Longrightarrow> rr_set_ok rs"
    and c': "qname c' = qname c" "has_flag (ce_flags c') DF_NEGATIVE = has_flag (ce_flags c) DF_NEGATIVE"
      "body c' = store_set i v (body c)"
      "num_rrs c' = num_rrs c - of_int (case_option 0 (\<lambda>_. 1) (body_index (body c) i)) +
         of_int (case_option 0 (\<lambda>_. 1) v)"
      "cs c' = cs c - case_option 0 (del_rrset sz) (body_index (body c) i) + case_option 0 (del_rrset sz) v"
  shows "cent_ok sz c'" "j < NRRTOT \<Longrightarrow> rrarr_index c' j = (if j = i then v else rrarr_index c j)"
    "\<not> negative c'"
proof -
  show neg: "\<not> negative c'" using pos c'(2) by (simp add: negative_def)
  show idx: "rrarr_index c' j = (if j = i then v else rrarr_index c j)" if "j < NRRTOT" for j
    using that neg pos c'(3) by (simp add: rrarr_index_body body_index_store [OF st])
  show "cent_ok sz c'"
    unfolding cent_ok_def
  proof (intro conjI allI impI)
    show "\<exists>ls. name_ok ls \<and> qname c' = enc_name ls" using ok c'(1) by (simp add: cent_ok_def)
    show "num_rrs c' = of_int (body_weight (\<lambda>_. 1) (body c'))"
      using c'(3,4) cent_okD(3) [OF ok] by (simp add: store_set_weight(1) [OF st])
    show "cs c' = sz_cent sz + int (length (qname c')) + body_size sz (body c')"
      using c'(1,3,5) cent_okD(4) [OF ok] by (simp add: store_set_weight(2) [OF st])
    fix k rs assume "k < NRRTOT" "rrarr_index c' k = Some rs"
    then show "rr_set_ok rs" using idx v cent_okD(5) [OF ok] by (auto split: if_splits)
  qed (use neg c'(3) st in simp_all)
qed

lemma init_cent_ok:
  assumes "name_ok ls"
  obtains c where
    "init_cent sz mem (enc_name ls @ rest) ttl ts flags = Some (if mem At_name then Some c else None)"
    "cent_ok sz c" "qname c = enc_name ls" "\<And>i. i < NRRTOT \<Longrightarrow> rrarr_index c i = None" "ce_flags c = flags"
    "c_ns c = cundef" "c_soa c = cundef" "num_rrs c = 0"
proof
  let ?c = "\<lparr>qname = enc_name ls, cs = sz_cent sz + int (length (enc_name ls)), num_rrs = 0, ce_flags = flags,
     body = (if has_flag flags DF_NEGATIVE then Neg ttl ts else no_sets), c_ns = cundef, c_soa = cundef\<rparr>"
  show "init_cent sz mem (enc_name ls @ rest) ttl ts flags = Some (if mem At_name then Some ?c else None)"
    using name_okD [OF assms] by (simp add: init_cent_def rhnlen_enc)
  show idx: "rrarr_index ?c i = None" if "i < NRRTOT" for i
    using that by (simp add: rrarr_index_def negative_def no_sets_def)
  show "cent_ok sz ?c"
    unfolding cent_ok_def using assms idx by (auto simp: negative_def)
qed simp_all

lemma make_positive_ok:
  assumes ok: "cent_ok sz c"
  shows "cent_ok sz (make_positive c)" "\<not> negative (make_positive c)"
    "i < NRRTOT \<Longrightarrow> rrarr_index (make_positive c) i = rrarr_index c i"
    "qname (make_positive c) = qname c"
proof -
  let ?c = "make_positive c"
  show pos: "\<not> negative ?c" by (simp add: make_positive_def negative_def not_negative_clear)
  show idx: "rrarr_index ?c i = rrarr_index c i" if "i < NRRTOT" for i
    using that pos by (auto simp: make_positive_def rrarr_index_def no_sets_def)
  show q: "qname ?c = qname c" by (simp add: make_positive_def)
  show "cent_ok sz ?c"
  proof (cases "negative c")
    case True
    then obtain ttl ts where b: "body c = Neg ttl ts"
      using cent_okD(1) [OF ok] by (cases "body c") auto
    have c: "?c = c\<lparr>ce_flags := ce_flags c AND NOT DF_NEGATIVE, body := no_sets\<rparr>"
      using True by (simp add: make_positive_def)
    have "rrarr_index ?c i = None" if "i < NRRTOT" for i
      using idx [OF that] True by (simp add: rrarr_index_def)
    then show ?thesis
      using ok pos b c by (auto simp: cent_ok_def)
  qed (use ok in \<open>simp add: make_positive_def\<close>)
qed

text \<open>Allocating the array of the less frequent types changes no RR set.\<close>

lemma alloc_rrext_ok:
  assumes ok: "cent_ok sz c" and pos: "\<not> negative c" and none: "rrext (body c) = None"
    and c': "c' = c\<lparr>cs := cs c + sz_ptr sz * int NRREXT,
      body := Rr (rrmu (body c)) (Some (replicate NRREXT None))\<rparr>"
  shows "cent_ok sz c'" "\<not> negative c'" "i < NRRTOT \<Longrightarrow> rrarr_index c' i = rrarr_index c i"
    "i < NRRTOT \<Longrightarrow> storable (body c') i"
proof -
  obtain mu where b: "body c = Rr mu None" using cent_okD(1) [OF ok] pos none by (cases "body c") auto
  show neg: "\<not> negative c'" using pos c' by (simp add: negative_def)
  show idx: "rrarr_index c' i = rrarr_index c i" if "i < NRRTOT" for i
    using that pos neg c' b by (simp add: rrarr_index_def)
  show "storable (body c') i" if "i < NRRTOT"
    using that c' b cent_okD(2) [OF ok] by (simp add: storable_def)
  show "cent_ok sz c'"
    unfolding cent_ok_def
  proof (intro conjI allI impI)
    fix k rs assume "k < NRRTOT" "rrarr_index c' k = Some rs"
    then show "rr_set_ok rs" using idx cent_okD(5) [OF ok] by auto
  qed (use c' b ok neg in \<open>auto simp: cent_ok_def\<close>)
qed

text \<open>What the operations that add to an entry keep of it.\<close>

definition same_but :: "nat \<Rightarrow> dns_cent \<Rightarrow> dns_cent \<Rightarrow> bool" where
  "same_but idx c c' \<longleftrightarrow> qname c' = qname c \<and>
     (\<forall>j. j < NRRTOT \<longrightarrow> j \<noteq> idx \<longrightarrow> rrarr_index c' j = rrarr_index c j)"

lemma same_but_refl [simp]: "same_but idx c c"
  by (simp add: same_but_def)

lemma same_but_trans: "same_but idx a b \<Longrightarrow> same_but idx b c \<Longrightarrow> same_but idx a c"
  by (simp add: same_but_def)

text \<open>The first half of \<open>add_cent_rrset_by_index\<close>: afterwards the address exists.\<close>

lemma prepared_ok:
  assumes ok: "cent_ok sz c" and idx: "idx < NRRTOT"
    and c2: "c2 = (if idx \<ge> NRRMU \<and> rrext (body (make_positive c)) = None
      then (make_positive c)\<lparr>cs := cs (make_positive c) + sz_ptr sz * int NRREXT,
        body := Rr (rrmu (body (make_positive c))) (Some (replicate NRREXT None))\<rparr>
      else make_positive c)"
  shows "cent_ok sz c2" "\<not> negative c2" "storable (body c2) idx" "qname c2 = qname c"
    "j < NRRTOT \<Longrightarrow> rrarr_index c2 j = rrarr_index c j"
proof -
  note mp = make_positive_ok [OF ok]
  have "cent_ok sz c2 \<and> \<not> negative c2 \<and> storable (body c2) idx \<and> qname c2 = qname c \<and>
      (\<forall>j. j < NRRTOT \<longrightarrow> rrarr_index c2 j = rrarr_index c j)"
  proof (cases "idx \<ge> NRRMU \<and> rrext (body (make_positive c)) = None")
    case True
    then show ?thesis using alloc_rrext_ok [OF mp(1,2)] mp(3,4) c2 idx by auto
  next
    case False
    then have c2': "c2 = make_positive c" unfolding c2 by (rule if_not_P)
    have "storable (body c2) idx"
      using False idx cent_okD(1,2) [OF mp(1)] mp(2) by (auto simp: c2' storable_def)
    then show ?thesis using mp c2' by simp
  qed
  then show "cent_ok sz c2" "\<not> negative c2" "storable (body c2) idx" "qname c2 = qname c"
    "j < NRRTOT \<Longrightarrow> rrarr_index c2 j = rrarr_index c j" by blast+
qed

lemma add_cent_rrset_by_index_ok:
  assumes ok: "cent_ok sz c" and idx: "idx < NRRTOT" and none: "rrarr_index c idx = None"
  obtains r c' where "add_cent_rrset_by_index sz mem c idx ttl ts flags = Some (r, c')"
    "cent_ok sz c'" "same_but idx c c'" "(\<forall>a. mem a) \<longrightarrow> r"
    "rrarr_index c' idx =
       (if r then Some \<lparr>rs_ttl = ttl, rs_ts = ts, rs_flags = flags, rs_rrs = []\<rparr> else None)"
proof -
  define c1 where "c1 = make_positive c"
  define c2 where "c2 = (if idx \<ge> NRRMU \<and> rrext (body c1) = None
      then c1\<lparr>cs := cs c1 + sz_ptr sz * int NRREXT,
        body := Rr (rrmu (body c1)) (Some (replicate NRREXT None))\<rparr> else c1)"
  note c2 = prepared_ok [OF ok idx c2_def [unfolded c1_def]]
  have none2: "body_index (body c2) idx = None" using c2(2) c2(5) [OF idx] none by (simp add: rrarr_index_body)
  have range: "\<not> (idx \<ge> NRRMU \<and> idx - NRRMU \<ge> NRREXT)" using idx by linarith
  consider (noext) "idx \<ge> NRRMU" "rrext (body c1) = None" "\<not> mem At_rrext"
    | (noset) "\<not> (idx \<ge> NRRMU \<and> rrext (body c1) = None \<and> \<not> mem At_rrext)" "\<not> mem At_rrset"
    | (new) "\<not> (idx \<ge> NRRMU \<and> rrext (body c1) = None \<and> \<not> mem At_rrext)" "mem At_rrset" by argo
  then show ?thesis
  proof cases
    case noext
    then have "add_cent_rrset_by_index sz mem c idx ttl ts flags = Some (False, c1)"
      using range by (simp add: add_cent_rrset_by_index_def c1_def)
    then show ?thesis
      using that [of False c1] make_positive_ok [OF ok] none noext(3) idx by (auto simp: c1_def same_but_def)
  next
    case noset
    let ?c = "c2\<lparr>body := store_set idx None (body c2)\<rparr>"
    have "add_cent_rrset_by_index sz mem c idx ttl ts flags = Some (False, ?c)"
      using noset range unfolding add_cent_rrset_by_index_def Let_def c1_def [symmetric] c2_def [symmetric]
      by auto
    moreover note st = cent_ok_store [OF c2(1-3) idx, of None ?c]
    have "cent_ok sz ?c" by (rule st(1)) (simp_all add: none2)
    moreover have "rrarr_index ?c j = (if j = idx then None else rrarr_index c2 j)" if "j < NRRTOT" for j
      by (rule st(2)) (use that in \<open>simp_all add: none2\<close>)
    ultimately show ?thesis using that [of False ?c] noset(2) c2(4,5) idx by (auto simp: same_but_def)
  next
    case new
    let ?rs = "\<lparr>rs_ttl = ttl, rs_ts = ts, rs_flags = flags, rs_rrs = []\<rparr>"
    let ?c = "c2\<lparr>cs := cs c2 + sz_rrset sz, num_rrs := num_rrs c2 + 1, body := store_set idx (Some ?rs) (body c2)\<rparr>"
    have "add_cent_rrset_by_index sz mem c idx ttl ts flags = Some (True, ?c)"
      using new range unfolding add_cent_rrset_by_index_def Let_def c1_def [symmetric] c2_def [symmetric]
      by auto
    moreover note st = cent_ok_store [OF c2(1-3) idx, of "Some ?rs" ?c]
    have "cent_ok sz ?c" by (rule st(1)) (simp_all add: none2)
    moreover have "rrarr_index ?c j = (if j = idx then Some ?rs else rrarr_index c2 j)" if "j < NRRTOT" for j
      by (rule st(2)) (use that in \<open>simp_all add: none2\<close>)
    ultimately show ?thesis using that [of True ?c] c2(4,5) idx by (auto simp: same_but_def)
  qed
qed

text \<open>The records at an index.\<close>

definition rrs_at :: "dns_cent \<Rightarrow> nat \<Rightarrow> byte list list" where
  "rrs_at c i = (case rrarr_index c i of None \<Rightarrow> [] | Some rs \<Rightarrow> rs_rrs rs)"

lemma link_rr_sum:
  "sum_list (map f (link_rr t d rrs)) = sum_list (map f rrs) + (f d :: int)"
proof (cases t)
  case (Some k)
  have "sum_list (map f rrs) = sum_list (map f (take (Suc k) rrs)) + sum_list (map f (drop (Suc k) rrs))"
    by (metis append_take_drop_id map_append sum_list_append)
  then show ?thesis using Some by (simp add: link_rr_def)
qed (simp add: link_rr_def)

lemma link_rr_distinct: "distinct rrs \<Longrightarrow> d \<notin> set rrs \<Longrightarrow> distinct (link_rr t d rrs)"
  unfolding link_rr_def
  by (auto split: option.splits dest: in_set_takeD in_set_dropD simp: set_take_disj_set_drop_if_distinct)

lemma link_rr_last: "link_rr (last_index rrs) d rrs = rrs @ [d]"
  by (simp add: link_rr_def last_index_def)

lemma del_rrset_link: "del_rrset sz (rs\<lparr>rs_rrs := link_rr t d (rs_rrs rs)\<rparr>) = del_rrset sz rs + (sz_rr sz + int (length d))"
  by (simp add: del_rrset_def link_rr_sum)

lemma add_cent_rr_int_ok:
  assumes ok: "cent_ok sz c" and idx: "idx < NRRTOT" and tail: "rtail \<noteq> None \<longrightarrow> rrarr_index c idx \<noteq> None"
    and fresh: "data \<notin> set (rrs_at c idx)"
  obtains r c' t where "add_cent_rr_int sz mem c idx ttl ts flags data rtail = Some (r, c', t)"
    "cent_ok sz c'" "same_but idx c c'" "(\<forall>a. mem a) \<longrightarrow> r"
    "rrs_at c' idx = (if r then link_rr rtail data (rrs_at c idx) else rrs_at c idx)"
    "r \<longrightarrow> rrarr_index c' idx \<noteq> None \<and> t = next_tail rtail"
proof (cases "mem At_rr")
  case False
  then show ?thesis
    using that [of False c rtail] ok by (auto simp: add_cent_rr_int_def)
next
  case rr: True
  define pre where "pre = (if rtail = None \<and> rrarr_index c idx = None
      then add_cent_rrset_by_index sz mem c idx ttl ts flags else Some (True, c))"
  obtain r c1 where c1: "pre = Some (r, c1)" "cent_ok sz c1" "same_but idx c c1" "(\<forall>a. mem a) \<longrightarrow> r"
      "rrs_at c1 idx = rrs_at c idx" "r \<longrightarrow> rrarr_index c1 idx \<noteq> None"
  proof (cases "rrarr_index c idx")
    case None
    then obtain r c1 where "add_cent_rrset_by_index sz mem c idx ttl ts flags = Some (r, c1)"
        "cent_ok sz c1" "same_but idx c c1" "(\<forall>a. mem a) \<longrightarrow> r" "rrarr_index c1 idx =
         (if r then Some \<lparr>rs_ttl = ttl, rs_ts = ts, rs_flags = flags, rs_rrs = []\<rparr> else None)"
      using add_cent_rrset_by_index_ok [OF ok idx None, of mem ttl ts flags] by metis
    then show ?thesis using that [of r c1] None tail by (auto simp: pre_def rrs_at_def)
  next
    case (Some rs)
    then show ?thesis using that [of True c] ok by (simp add: pre_def)
  qed
  show ?thesis
  proof (cases r)
    case False
    then have "add_cent_rr_int sz mem c idx ttl ts flags data rtail = Some (False, c1, rtail)"
      using rr c1(1) by (simp add: add_cent_rr_int_def flip: pre_def)
    then show ?thesis using that [of False c1 rtail] c1 False by auto
  next
    case True
    then obtain rs where rs: "rrarr_index c1 idx = Some rs" using c1(6) by auto
    let ?rs = "rs\<lparr>rs_rrs := link_rr rtail data (rs_rrs rs)\<rparr>"
    let ?c = "c1\<lparr>cs := cs c1 + (sz_rr sz + int (length data)), body := store_set idx (Some ?rs) (body c1)\<rparr>"
    have eq: "add_cent_rr_int sz mem c idx ttl ts flags data rtail = Some (True, ?c, next_tail rtail)"
      using rr c1(1) True rs by (simp add: add_cent_rr_int_def flip: pre_def)
    have pos: "\<not> negative c1" and bi: "body_index (body c1) idx = Some rs"
      using rs by (auto simp: rrarr_index_body split: if_splits)
    have st: "storable (body c1) idx"
      by (rule storable_index) (use cent_okD(1,2) [OF c1(2)] pos idx bi in simp_all)
    have fresh1: "data \<notin> set (rs_rrs rs)" using fresh c1(5) rs by (simp add: rrs_at_def)
    have new: "rr_set_ok ?rs"
      using cent_okD(5) [OF c1(2) idx rs] fresh1 by (simp add: rr_set_ok_def link_rr_distinct)
    note store = cent_ok_store [OF c1(2) pos st idx, of "Some ?rs" ?c]
    have "cent_ok sz ?c" by (rule store(1)) (use new in \<open>simp_all add: bi del_rrset_link\<close>)
    moreover have ri: "rrarr_index ?c j = (if j = idx then Some ?rs else rrarr_index c1 j)" if "j < NRRTOT" for j
      by (rule store(2)) (use new that in \<open>simp_all add: bi del_rrset_link\<close>)
    then have "same_but idx c ?c" using c1(3) by (simp add: same_but_def)
    moreover have "rrs_at ?c idx = link_rr rtail data (rrs_at c idx)"
      using ri [OF idx] c1(5) rs by (simp add: rrs_at_def)
    ultimately show ?thesis using that [OF eq] ri [OF idx] by simp
  qed
qed

definition cacheable :: "int \<Rightarrow> bool" where
  "cacheable tp \<longleftrightarrow> 1 \<le> tp \<and> tp \<le> 51 \<and> rrlkuptab ! nat (tp - 1) < NRRTOT"

text \<open>Lowering the TTL of an RR set.\<close>

lemma set_ttl_ok:
  assumes ok: "cent_ok sz c" and idx: "idx < NRRTOT" and rs: "rrarr_index c idx = Some rs"
    and c': "c' = c\<lparr>body := store_set idx (Some (rs\<lparr>rs_ttl := ttl\<rparr>)) (body c)\<rparr>"
  shows "cent_ok sz c'" "same_but idx c c'" "rrarr_index c' idx = Some (rs\<lparr>rs_ttl := ttl\<rparr>)"
proof -
  have pos: "\<not> negative c" and bi: "body_index (body c) idx = Some rs"
    using rs by (auto simp: rrarr_index_body split: if_splits)
  have st: "storable (body c) idx"
    by (rule storable_index) (use cent_okD(1,2) [OF ok] pos idx bi in simp_all)
  have new: "rr_set_ok (rs\<lparr>rs_ttl := ttl\<rparr>)" using cent_okD(5) [OF ok idx rs] by (simp add: rr_set_ok_def)
  note store = cent_ok_store [OF ok pos st idx, of "Some (rs\<lparr>rs_ttl := ttl\<rparr>)" c']
  show "cent_ok sz c'" by (rule store(1)) (use new c' in \<open>simp_all add: bi del_rrset_def\<close>)
  have "rrarr_index c' j = (if j = idx then Some (rs\<lparr>rs_ttl := ttl\<rparr>) else rrarr_index c j)" if "j < NRRTOT" for j
    by (rule store(2)) (use new c' that in \<open>simp_all add: bi del_rrset_def\<close>)
  then show "same_but idx c c'" "rrarr_index c' idx = Some (rs\<lparr>rs_ttl := ttl\<rparr>)"
    using c' idx by (simp_all add: same_but_def)
qed

text \<open>
  \<open>add_cent_rr\<close> fails no assertion for a cacheable type, and when no allocation fails the RR set of
  the type then holds the record exactly once, after those it held before.
\<close>

lemma add_cent_rr_ok:
  assumes ok: "cent_ok sz c" and tp: "cacheable tp"
  obtains r c' where "add_cent_rr sz mem c tp ttl ts flags data = Some (r, c')"
    "cent_ok sz c'" "same_but (rrlkuptab ! nat (tp - 1)) c c'" "(\<forall>a. mem a) \<longrightarrow> r"
    "rrs_at c' (rrlkuptab ! nat (tp - 1)) =
       (if r \<and> \<not> (has_flag (ce_flags c) DF_LOCAL \<and> \<not> has_flag flags CF_LOCAL) \<and>
           data \<notin> set (rrs_at c (rrlkuptab ! nat (tp - 1)))
        then rrs_at c (rrlkuptab ! nat (tp - 1)) @ [data] else rrs_at c (rrlkuptab ! nat (tp - 1)))"
proof -
  define idx where "idx = rrlkuptab ! nat (tp - 1)"
  have range: "0 \<le> tp - 1" "tp - 1 < 51" "idx < NRRTOT" using tp by (auto simp: cacheable_def idx_def)
  consider (local) "has_flag (ce_flags c) DF_LOCAL" "\<not> has_flag flags CF_LOCAL"
    | (none) "\<not> (has_flag (ce_flags c) DF_LOCAL \<and> \<not> has_flag flags CF_LOCAL)" "rrarr_index c idx = None"
    | (some) rs where "\<not> (has_flag (ce_flags c) DF_LOCAL \<and> \<not> has_flag flags CF_LOCAL)" "rrarr_index c idx = Some rs"
    by (cases "rrarr_index c idx") auto
  then show ?thesis unfolding idx_def [symmetric]
  proof cases
    case local
    then show ?thesis using that [of True c, folded idx_def] ok by (simp add: add_cent_rr_def)
  next
    case none
    have fresh: "data \<notin> set (rrs_at c idx)" using none by (simp add: rrs_at_def)
    obtain r c' t where c': "add_cent_rr_int sz mem c idx ttl ts flags data None = Some (r, c', t)"
      "cent_ok sz c'" "same_but idx c c'" "(\<forall>a. mem a) \<longrightarrow> r"
      "rrs_at c' idx = (if r then link_rr None data (rrs_at c idx) else rrs_at c idx)"
      "r \<longrightarrow> rrarr_index c' idx \<noteq> None \<and> t = next_tail None"
      by (rule add_cent_rr_int_ok [OF ok range(3) _ fresh, of None mem ttl ts flags]) simp
    have "add_cent_rr sz mem c tp ttl ts flags data = Some (r, c')"
      using none range c'(1) unfolding add_cent_rr_def Let_def by (auto simp flip: idx_def)
    then show ?thesis using that [of r c', folded idx_def] c' none fresh
      by (simp add: link_rr_def rrs_at_def)
  next
    case some
    define c1 where "c1 = c\<lparr>body := store_set idx (Some (rs\<lparr>rs_ttl := min ttl (rs_ttl rs)\<rparr>)) (body c)\<rparr>"
    note c1 = set_ttl_ok [OF ok range(3) some(2) c1_def]
    have rs1: "(if ttl < rs_ttl rs then rs\<lparr>rs_ttl := ttl\<rparr> else rs) = rs\<lparr>rs_ttl := min ttl (rs_ttl rs)\<rparr>"
      by (simp add: min_def)
    have old: "rrs_at c idx = rs_rrs rs" "rrs_at c1 idx = rs_rrs rs" using some c1(3) by (simp_all add: rrs_at_def)
    have step: "add_cent_rr sz mem c tp ttl ts flags data =
        (if data \<in> set (rs_rrs rs) then Some (True, c1)
         else map_option (\<lambda>(r, c', _). (r, c'))
           (add_cent_rr_int sz mem c1 idx ttl ts flags data (last_index (rs_rrs rs))))"
      using some range unfolding add_cent_rr_def Let_def by (auto simp: rs1 simp flip: idx_def c1_def)
    show ?thesis
    proof (cases "data \<in> set (rs_rrs rs)")
      case True
      then show ?thesis using that [of True c1, folded idx_def] step c1 old by simp
    next
      case False
      then have fresh: "data \<notin> set (rrs_at c1 idx)" by (simp add: old)
      have tail: "last_index (rs_rrs rs) \<noteq> None \<longrightarrow> rrarr_index c1 idx \<noteq> None" using c1(3) by simp
      obtain r c' t where c': "add_cent_rr_int sz mem c1 idx ttl ts flags data (last_index (rs_rrs rs)) = Some (r, c', t)"
        "cent_ok sz c'" "same_but idx c1 c'" "(\<forall>a. mem a) \<longrightarrow> r"
        "rrs_at c' idx = (if r then link_rr (last_index (rs_rrs rs)) data (rrs_at c1 idx) else rrs_at c1 idx)"
        "r \<longrightarrow> rrarr_index c' idx \<noteq> None \<and> t = next_tail (last_index (rs_rrs rs))"
        by (rule add_cent_rr_int_ok [OF c1(1) range(3) tail fresh])
      then show ?thesis
        using that [of r c', folded idx_def] step c1(2) same_but_trans some(1) False old
        by (auto simp: link_rr_last)
    qed
  qed
qed

lemma del_cent_rrset_ok:
  assumes ok: "cent_ok sz c" and i: "i < NRRTOT"
  shows "cent_ok sz (snd (del_cent_rrset_by_index sz c i))"
    "same_but i c (snd (del_cent_rrset_by_index sz c i))"
    "rrarr_index (snd (del_cent_rrset_by_index sz c i)) i = None"
    "cs (snd (del_cent_rrset_by_index sz c i)) = cs c - fst (del_cent_rrset_by_index sz c i)"
proof -
  have "cent_ok sz c' \<and> same_but i c c' \<and> rrarr_index c' i = None \<and> cs c' = cs c - rv"
    if "del_cent_rrset_by_index sz c i = (rv, c')" for rv c'
  proof (cases "rrarr_index c i")
    case None
    then show ?thesis using that ok by (simp add: del_cent_rrset_by_index_def)
  next
    case (Some rs)
    then have c': "rv = del_rrset sz rs" "c' = c\<lparr>cs := cs c - rv, num_rrs := num_rrs c - 1,
        ce_flags := ce_flags c AND NOT DF_AUTH, body := store_set i None (body c)\<rparr>"
      using that by (auto simp: del_cent_rrset_by_index_def Let_def)
    have pos: "\<not> negative c" and bi: "body_index (body c) i = Some rs"
      using Some by (auto simp: rrarr_index_body split: if_splits)
    have st: "storable (body c) i"
      by (rule storable_index) (use cent_okD(1,2) [OF ok] pos i bi in simp_all)
    note store = cent_ok_store [OF ok pos st i, of None c']
    have "cent_ok sz c'" by (rule store(1)) (use c' bi in \<open>simp_all add: negative_keep_auth\<close>)
    moreover have "rrarr_index c' j = (if j = i then None else rrarr_index c j)" if "j < NRRTOT" for j
      by (rule store(2)) (use c' bi that in \<open>simp_all add: negative_keep_auth\<close>)
    ultimately show ?thesis using c' i by (simp add: same_but_def)
  qed
  then show "cent_ok sz (snd (del_cent_rrset_by_index sz c i))"
    "same_but i c (snd (del_cent_rrset_by_index sz c i))"
    "rrarr_index (snd (del_cent_rrset_by_index sz c i)) i = None"
    "cs (snd (del_cent_rrset_by_index sz c i)) = cs c - fst (del_cent_rrset_by_index sz c i)"
    by (metis prod.collapse)+
qed

lemma negate_cent_ok:
  assumes ok: "cent_ok sz c"
  shows "cent_ok sz (negate_cent sz c ttl ts)" "negative (negate_cent sz c ttl ts)"
proof -
  show neg: "negative (negate_cent sz c ttl ts)"
    by (simp add: negate_cent_def Let_def negative_def negative_set)
  have "cs (negate_cent sz c ttl ts) = sz_cent sz + int (length (qname c))"
  proof (cases "body c")
    case (Neg a b)
    then show ?thesis using cent_okD(1,4) [OF ok] by (simp add: negate_cent_def)
  next
    case (Rr mu ext)
    then show ?thesis using cent_okD(1,4) [OF ok]
      by (cases ext) (simp_all add: negate_cent_def freed_sets_weigh)
  qed
  moreover have "num_rrs (negate_cent sz c ttl ts) = 0"
    using cent_okD(1,3) [OF ok] by (cases "body c") (simp_all add: negate_cent_def)
  moreover have "body (negate_cent sz c ttl ts) = Neg ttl ts" "qname (negate_cent sz c ttl ts) = qname c"
    by (simp_all add: negate_cent_def Let_def)
  ultimately show "cent_ok sz (negate_cent sz c ttl ts)"
    using ok neg by (simp add: cent_ok_def rrarr_index_def)
qed

lemma copy_cent_ok: "cent_ok sz c \<Longrightarrow> copy_cent mem c = Some (if mem then Some c else None)"
  by (cases "body c") (auto simp: copy_cent_def cent_ok_def rhnlen_enc [where rest = "[]", simplified] name_okD)

section \<open>Correctness\<close>

text \<open>The entries the code can build: initialised, then changed by the operations, allocations failing or not.\<close>

inductive cent_reachable :: "sizes \<Rightarrow> dns_cent \<Rightarrow> bool" for sz where
  init: "name_ok ls \<Longrightarrow> init_cent sz mem (enc_name ls @ rest) ttl ts flags = Some (Some c) \<Longrightarrow> cent_reachable sz c"
| add_rr: "cent_reachable sz c \<Longrightarrow> add_cent_rr sz mem c tp ttl ts flags data = Some (r, c') \<Longrightarrow> cent_reachable sz c'"
| add_set: "cent_reachable sz c \<Longrightarrow> rrarr_index c idx = None \<Longrightarrow>
    add_cent_rrset_by_index sz mem c idx ttl ts flags = Some (r, c') \<Longrightarrow> cent_reachable sz c'"
| del_set: "cent_reachable sz c \<Longrightarrow> i < NRRTOT \<Longrightarrow> del_cent_rrset_by_index sz c i = (rv, c') \<Longrightarrow> cent_reachable sz c'"
| negate: "cent_reachable sz c \<Longrightarrow> cent_reachable sz (negate_cent sz c ttl ts)"

lemma reachable_ok: "cent_reachable sz c \<Longrightarrow> cent_ok sz c"
proof (induction rule: cent_reachable.induct)
  case (init ls mem rest ttl ts flags c)
  show ?case by (rule init_cent_ok [OF init(1), of sz mem rest ttl ts flags]) (use init(2) in \<open>auto split: if_splits\<close>)
next
  case (add_rr c mem tp ttl ts flags data r c')
  show ?case
  proof (cases "has_flag (ce_flags c) DF_LOCAL \<and> \<not> has_flag flags CF_LOCAL")
    case True
    then show ?thesis using add_rr by (simp add: add_cent_rr_def)
  next
    case False
    then have "cacheable tp" using add_rr.hyps(2) by (auto simp: add_cent_rr_def cacheable_def Let_def split: if_splits)
    then show ?thesis using add_cent_rr_ok [OF add_rr.IH, of tp mem ttl ts flags data] add_rr.hyps(2) by auto
  qed
next
  case (add_set c idx mem ttl ts flags r c')
  then have "idx < NRRTOT" by (auto simp: add_cent_rrset_by_index_def Let_def split: if_splits)
  then show ?case
    using add_cent_rrset_by_index_ok [OF add_set.IH _ add_set.hyps(2), of mem ttl ts flags] add_set.hyps(3) by auto
next
  case (del_set c i rv c')
  then show ?case using del_cent_rrset_ok(1) [OF del_set.IH, of i] by simp
qed (rule negate_cent_ok)

text \<open>The sizes on a 64-bit machine, for the examples below.\<close>

definition ex_sizes :: sizes where
  "ex_sizes = \<lparr>sz_cent = 72, sz_rrset = 24, sz_rr = 16, sz_ptr = 8\<rparr>"

text \<open>C17. Whatever records are added to an entry, RR sets added or deleted and the entry negated, with any
  allocation failing, \<open>num_rrs\<close> counts its RR sets, \<open>cs\<close> is exactly the memory it takes, the flag
  \<open>DF_NEGATIVE\<close> says which member of the union is in use, and no RR set holds a record twice.\<close>

theorem cache_entry_accounting:
  assumes "cent_reachable sz c"
  shows "num_rrs c = of_int (body_weight (\<lambda>_. 1) (body c)) \<and>
    cs c = sz_cent sz + int (length (qname c)) + body_size sz (body c) \<and>
    negative c = is_Neg (body c) \<and> body_shape (body c) \<and>
    (\<nexists>i rs. i < NRRTOT \<and> rrarr_index c i = Some rs \<and> \<not> distinct (rs_rrs rs))"
  using reachable_ok [OF assms] by (auto simp: cent_ok_def rr_set_ok_def)

theorem cache_entry_accounting_witness:
  "num_rrs (negate_cent ex_sizes \<lparr>qname = [0], cs = sz_cent ex_sizes + 1, num_rrs = 0, ce_flags = 0, body = no_sets,
      c_ns = cundef, c_soa = cundef\<rparr> 5 6) = 0"
proof -
  have "init_cent ex_sizes (\<lambda>_. True) (enc_name [] @ []) 0 0 0 =
      Some (Some \<lparr>qname = [0], cs = sz_cent ex_sizes + 1, num_rrs = 0, ce_flags = 0, body = no_sets,
        c_ns = cundef, c_soa = cundef\<rparr>)"
    by (simp add: init_cent_def has_flag_def)
  then have "cent_reachable ex_sizes (negate_cent ex_sizes \<lparr>qname = [0], cs = sz_cent ex_sizes + 1, num_rrs = 0, ce_flags = 0,
      body = no_sets, c_ns = cundef, c_soa = cundef\<rparr> 5 6)"
    by (intro cent_reachable.negate cent_reachable.init [of "[]"]) (simp_all add: name_ok_def)
  from cache_entry_accounting [OF this] show ?thesis by (simp add: negate_cent_def negative_def has_flag_def Let_def)
qed

text \<open>Adding a record of a cacheable type to a well-formed entry fails no assertion; unless the entry is local
  and the record is not, and if no allocation fails, the RR set of the type then holds the record once, behind
  the records it held before, and no other RR set changes.\<close>

theorem cache_entry_holds_record:
  assumes "cent_ok sz c" "cacheable tp" "\<not> has_flag (ce_flags c) DF_LOCAL"
  shows "\<exists>c'. add_cent_rr sz (\<lambda>_. True) c tp ttl ts flags data = Some (True, c') \<and> cent_ok sz c' \<and> qname c' = qname c \<and>
    rrs_at c' (rrlkuptab ! nat (tp - 1)) =
      (let old = rrs_at c (rrlkuptab ! nat (tp - 1)) in if data \<in> set old then old else old @ [data]) \<and>
    (\<nexists>j. j < NRRTOT \<and> j \<noteq> rrlkuptab ! nat (tp - 1) \<and> rrarr_index c' j \<noteq> rrarr_index c j)"
proof -
  obtain r c' where "add_cent_rr sz (\<lambda>_. True) c tp ttl ts flags data = Some (r, c')"
    "cent_ok sz c'" "same_but (rrlkuptab ! nat (tp - 1)) c c'" "(\<forall>a. (\<lambda>_. True) (a :: site)) \<longrightarrow> r"
    "rrs_at c' (rrlkuptab ! nat (tp - 1)) =
       (if r \<and> \<not> (has_flag (ce_flags c) DF_LOCAL \<and> \<not> has_flag flags CF_LOCAL) \<and>
           data \<notin> set (rrs_at c (rrlkuptab ! nat (tp - 1)))
        then rrs_at c (rrlkuptab ! nat (tp - 1)) @ [data] else rrs_at c (rrlkuptab ! nat (tp - 1)))"
    by (rule add_cent_rr_ok [OF assms(1,2)])
  then show ?thesis using assms(3) by (auto simp: same_but_def Let_def)
qed

theorem cache_entry_holds_record_witness:
  "\<exists>c'. add_cent_rr ex_sizes (\<lambda>_. True) \<lparr>qname = [0], cs = sz_cent ex_sizes + 1, num_rrs = 0, ce_flags = 0, body = no_sets,
      c_ns = cundef, c_soa = cundef\<rparr> 1 300 1000 0 [127, 0, 0, 1] = Some (True, c') \<and> rrs_at c' 0 = [[127, 0, 0, 1]]"
proof -
  let ?c = "\<lparr>qname = [0], cs = sz_cent ex_sizes + 1, num_rrs = 0, ce_flags = 0, body = no_sets, c_ns = cundef, c_soa = cundef\<rparr>"
  have idx: "rrarr_index ?c i = None" if "i < NRRTOT" for i
    using that by (simp add: rrarr_index_def negative_def has_flag_def no_sets_def)
  have "cent_ok ex_sizes ?c"
    unfolding cent_ok_def using idx
    by (auto simp: negative_def has_flag_def name_ok_def intro!: exI [of _ "[]"])
  moreover have "cacheable 1" by (simp add: cacheable_def rrlkuptab_def)
  moreover have "\<not> has_flag (ce_flags ?c) DF_LOCAL" by (simp add: has_flag_def)
  ultimately show ?thesis
    using cache_entry_holds_record [of ex_sizes ?c 1 300 1000 0 "[127, 0, 0, 1]"] idx [of 0]
    by (auto simp: rrlkuptab_def rrs_at_def)
qed

end
