(* ===== verification/Dns_Hash.thy ===== *)
theory Dns_Hash
  imports Dns_Cent
begin

text \<open>
  The hash table of pdnsd's cache, from \<open>hash.c\<close>: 1024 chains of entries, each chain ordered by a
  second hash value of the width of \<open>unsigned long\<close> (a type parameter here), names compared without
  regard to case.

  A location (\<open>dns_hash_loc_t\<close>) is a position in a chain, a position specification of the iteration
  (\<open>dns_hash_pos_t\<close>) a chain and the position of the next entry in it. The table implements a finite
  map from names, up to case, to cache entries; the contract a client relies on is the locale
  \<open>name_table\<close>.
\<close>

section \<open>The hash function\<close>

abbreviation (input) HASH_NUM_BUCKETS :: nat where "HASH_NUM_BUCKETS \<equiv> 1024"

text \<open>\<open>s+=c<<(i%(HASH_SZ-5))\<close> and \<open>r+=((unsigned long)c)<<(i%(8*sizeof(unsigned long)-7))\<close>\<close>

definition mix_s :: "byte \<Rightarrow> nat \<Rightarrow> u32 \<Rightarrow> u32" where
  "mix_s c i s = s + push_bit (i mod 5) (ucast c)"

definition mix_r :: "byte \<Rightarrow> nat \<Rightarrow> 'l::len word \<Rightarrow> 'l word" where
  "mix_r c i r = r + push_bit (i mod (LENGTH('l) - 7)) (ucast c)"

text \<open>The inner loop over one label, and the outer loop; \<open>str\<close> is the rest of the name from index \<open>i\<close> on.\<close>

fun hash_label :: "nat \<Rightarrow> byte list \<Rightarrow> nat \<Rightarrow> u32 \<Rightarrow> 'l::len word \<Rightarrow> (byte list \<times> nat \<times> u32 \<times> 'l word) option"
where
  "hash_label 0 str i s r = Some (str, i, s, r)"
| "hash_label (Suc lb) [] i s r = None"
| "hash_label (Suc lb) (ch # str) i s r =
     (let c = toupper ch in hash_label lb str (Suc i) (mix_s c i s) (mix_r c i r))"

lemma hash_label_shrinks: "hash_label n str i s r = Some (str', i', s', r') \<Longrightarrow> length str' \<le> length str"
  by (induction n str i s r rule: hash_label.induct) (auto simp: Let_def)

function (sequential) dns_hash_loop :: "byte list \<Rightarrow> nat \<Rightarrow> u32 \<Rightarrow> 'l::len word \<Rightarrow> (u32 \<times> 'l word) option" where
  "dns_hash_loop [] i s r = None"
| "dns_hash_loop (lb # str) i s r =
     (if lb = 0 then Some (s, r)
      else case hash_label (unat lb) str (Suc i) (mix_s lb i s) (mix_r lb i r) of
             None \<Rightarrow> None
           | Some (str', i', s', r') \<Rightarrow> dns_hash_loop str' i' s' r')"
  by pat_completeness auto
termination
  by (relation "measure (\<lambda>(str, i, s, r). length str)") (auto dest: hash_label_shrinks)

definition fold_hash :: "u32 \<Rightarrow> u32" where
  "fold_hash s = (s AND 0x3ff) + drop_bit 10 (s AND NOT 0x3ff)"

definition dns_hash :: "byte list \<Rightarrow> (nat \<times> 'l::len word) option" where
  "dns_hash str =
     map_option (\<lambda>(s, r). (unat (fold_hash (fold_hash s) AND 0x3ff), r)) (dns_hash_loop str 0 0 0)"

section \<open>The table\<close>

record 'r hash_ent =
  rhash :: 'r
  ent_data :: dns_cent

type_synonym 'r hash_table = "'r hash_ent list list"

record 'r hash_loc =
  loc_bucket :: nat
  loc_pos :: nat
  loc_rhash :: 'r

definition mk_dns_hash :: "'r hash_table" where
  "mk_dns_hash = replicate HASH_NUM_BUCKETS []"

text \<open>The loop of \<open>dns_lookup\<close> and \<open>del_dns_hash\<close> over a chain: the position it stops at, and whether it found the key.\<close>

fun find_in_chain :: "byte list \<Rightarrow> 'l::len word \<Rightarrow> 'l word hash_ent list \<Rightarrow> nat \<Rightarrow> (dns_cent option \<times> nat) option" where
  "find_in_chain key rh [] pos = Some (None, pos)"
| "find_in_chain key rh (he # hes) pos =
     (if rhash he \<le> rh then
        if rhash he = rh then
          case rhnicmp key (qname (ent_data he)) of
            None \<Rightarrow> None
          | Some True \<Rightarrow> Some (Some (ent_data he), pos)
          | Some False \<Rightarrow> find_in_chain key rh hes (Suc pos)
        else find_in_chain key rh hes (Suc pos)
      else Some (None, pos))"

definition dns_lookup :: "'l::len word hash_table \<Rightarrow> byte list \<Rightarrow> (dns_cent option \<times> 'l word hash_loc) option" where
  "dns_lookup hb key =
     (case dns_hash key of
        None \<Rightarrow> None
      | Some (idx, rh) \<Rightarrow>
          map_option (\<lambda>(ret, pos). (ret, \<lparr>loc_bucket = idx, loc_pos = pos, loc_rhash = rh\<rparr>))
            (find_in_chain key rh (hb ! idx) 0))"

definition add_dns_hash :: "bool \<Rightarrow> 'r hash_table \<Rightarrow> dns_cent \<Rightarrow> 'r hash_loc \<Rightarrow> bool \<times> 'r hash_table" where
  "add_dns_hash mem hb data loc =
     (if \<not> mem then (False, hb)
      else
        let ch = hb ! loc_bucket loc; k = loc_pos loc in
        (True, hb[loc_bucket loc := take k ch @ \<lparr>rhash = loc_rhash loc, ent_data = data\<rparr> # drop k ch]))"

definition unlink_ent :: "'r hash_table \<Rightarrow> nat \<Rightarrow> nat \<Rightarrow> 'r hash_table" where
  "unlink_ent hb idx k = hb[idx := take k (hb ! idx) @ drop (Suc k) (hb ! idx)]"

text \<open>\<open>None\<close>: the location is the end of a chain, where \<open>he\<close> is NULL.\<close>

definition del_dns_hash_ent :: "'r hash_table \<Rightarrow> 'r hash_loc \<Rightarrow> (dns_cent \<times> 'r hash_table) option" where
  "del_dns_hash_ent hb loc =
     (if loc_pos loc < length (hb ! loc_bucket loc)
      then Some (ent_data (hb ! loc_bucket loc ! loc_pos loc), unlink_ent hb (loc_bucket loc) (loc_pos loc))
      else None)"

definition del_dns_hash :: "'l::len word hash_table \<Rightarrow> byte list \<Rightarrow> (dns_cent option \<times> 'l word hash_table) option" where
  "del_dns_hash hb key =
     (case dns_hash key of
        None \<Rightarrow> None
      | Some (idx, rh) \<Rightarrow>
          map_option (\<lambda>(ret, pos). (ret, if ret = None then hb else unlink_ent hb idx pos))
            (find_in_chain key rh (hb ! idx) 0))"

text \<open>
  Freeing: the new table and the entries handed to \<open>del_cent\<close>, in that order.
\<close>

definition free_dns_hash_bucket :: "'r hash_table \<Rightarrow> nat \<Rightarrow> 'r hash_table \<times> dns_cent list" where
  "free_dns_hash_bucket hb i = (hb[i := []], map ent_data (hb ! i))"

fun free_dns_hash_from :: "'r hash_table \<Rightarrow> nat \<Rightarrow> nat \<Rightarrow> 'r hash_table \<times> dns_cent list" where
  "free_dns_hash_from hb i 0 = (hb, [])"
| "free_dns_hash_from hb i (Suc n) =
     (let (hb', del) = free_dns_hash_bucket hb i; (hb'', del') = free_dns_hash_from hb' (Suc i) n
      in (hb'', del @ del'))"

definition free_dns_hash :: "'r hash_table \<Rightarrow> 'r hash_table \<times> dns_cent list" where
  "free_dns_hash hb = free_dns_hash_from hb 0 HASH_NUM_BUCKETS"

text \<open>An element of an include/exclude list, and the loop that applies such a list to a name.\<close>

record slist =
  sl_exact :: bool
  sl_included :: bool
  sl_domain :: "byte list"

fun selected :: "byte list \<Rightarrow> slist list \<Rightarrow> bool option" where
  "selected name [] = Some False"
| "selected name (sl # sla) =
     (case domain_match name (sl_domain sl) of
        None \<Rightarrow> None
      | Some (_, nrem, lrem) \<Rightarrow>
          if lrem = 0 \<and> (\<not> sl_exact sl \<or> nrem = 0) then Some (sl_included sl) else selected name sla)"

fun free_selected_chain :: "'r hash_ent list \<Rightarrow> slist list \<Rightarrow> ('r hash_ent list \<times> dns_cent list) option" where
  "free_selected_chain [] sla = Some ([], [])"
| "free_selected_chain (he # hes) sla =
     (case (selected (qname (ent_data he)) sla, free_selected_chain hes sla) of
        (Some True, Some (ch, del)) \<Rightarrow> Some (ch, ent_data he # del)
      | (Some False, Some (ch, del)) \<Rightarrow> Some (he # ch, del)
      | _ \<Rightarrow> None)"

definition free_dns_hash_selected :: "'r hash_table \<Rightarrow> nat \<Rightarrow> slist list \<Rightarrow> ('r hash_table \<times> dns_cent list) option" where
  "free_dns_hash_selected hb i sla =
     map_option (\<lambda>(ch, del). (hb[i := ch], del)) (free_selected_chain (hb ! i) sla)"

text \<open>
  The iteration: the entry returned and the position for the next call, which is the chain and the
  position in it after the entry.
\<close>

fun first_from :: "'r hash_table \<Rightarrow> nat \<Rightarrow> nat \<Rightarrow> (dns_cent \<times> nat \<times> nat) option" where
  "first_from hb i 0 = None"
| "first_from hb i (Suc n) =
     (case hb ! i of [] \<Rightarrow> first_from hb (Suc i) n | he # _ \<Rightarrow> Some (ent_data he, i, 1))"

definition fetch_first :: "'r hash_table \<Rightarrow> (dns_cent \<times> nat \<times> nat) option" where
  "fetch_first hb = first_from hb 0 HASH_NUM_BUCKETS"

definition fetch_next :: "'r hash_table \<Rightarrow> nat \<times> nat \<Rightarrow> (dns_cent \<times> nat \<times> nat) option" where
  "fetch_next hb = (\<lambda>(bucket, ent).
     if ent < length (hb ! bucket) then Some (ent_data (hb ! bucket ! ent), bucket, Suc ent)
     else first_from hb (Suc bucket) (HASH_NUM_BUCKETS - Suc bucket))"

section \<open>The hash does not depend on case\<close>

lemma toupper_tolower [simp]: "toupper (tolower c) = toupper c"
  by (auto simp: tolower_def toupper_def word_le_nat_alt unat_word_ariths(1))

lemma tolower_toupper: "tolower c = tolower d \<Longrightarrow> toupper c = toupper d"
  by (metis toupper_tolower)

lemma hash_label_cong:
  "lower l = lower m \<Longrightarrow>
     \<exists>i' s' r'. hash_label (length l) (l @ a) i s r = Some (a, i', s', r') \<and>
       hash_label (length l) (m @ b) i s r = Some (b, i', s', r')"
proof (induction l arbitrary: m i s r)
  case (Cons c l)
  then obtain d m' where m: "m = d # m'" "tolower c = tolower d" "lower l = lower m'" by (cases m) auto
  then show ?case using Cons.IH [OF m(3)] tolower_toupper [OF m(2)] by (simp add: Let_def)
qed simp

lemma dns_hash_loop_cong:
  "labels_ok ls \<Longrightarrow> lower_name ls = lower_name ms \<Longrightarrow>
     \<exists>s' r'. dns_hash_loop (enc_name ls @ a) i s r = Some (s', r') \<and>
       dns_hash_loop (enc_name ms @ b) i s r = Some (s', r')"
proof (induction ls arbitrary: ms i s r)
  case Nil
  then show ?case by (cases ms) simp_all
next
  case (Cons l ls)
  then obtain m ms' where ms: "ms = m # ms'" "lower l = lower m" "lower_name ls = lower_name ms'"
    by (cases ms) auto
  have len: "length m = length l" using ms(2) by (metis length_map)
  obtain i' s' r' where
    "hash_label (length l) (l @ enc_name ls @ a) (Suc i) (mix_s (of_nat (length l)) i s) (mix_r (of_nat (length l)) i r) =
       Some (enc_name ls @ a, i', s', r')"
    "hash_label (length l) (m @ enc_name ms' @ b) (Suc i) (mix_s (of_nat (length l)) i s) (mix_r (of_nat (length l)) i r) =
       Some (enc_name ms' @ b, i', s', r')"
    using hash_label_cong [OF ms(2)] by blast
  then show ?case using Cons.IH [OF _ ms(3)] Cons.prems(1) ms(1) len by simp
qed

text \<open>Every name has a hash; names equal up to case have the same one; the bucket exists.\<close>

lemma dns_hash_enc:
  assumes "labels_ok ls"
  obtains idx and r :: "'l::len word" where "dns_hash (enc_name ls @ a) = Some (idx, r)" "idx < HASH_NUM_BUCKETS"
    "\<And>ms b. lower_name ls = lower_name ms \<Longrightarrow> dns_hash (enc_name ms @ b) = Some (idx, r)"
proof -
  obtain s and r :: "'l word" where "dns_hash_loop (enc_name ls @ a) 0 0 0 = Some (s, r)"
      and cong: "\<And>ms b. lower_name ls = lower_name ms \<Longrightarrow> dns_hash_loop (enc_name ms @ b) 0 0 0 = Some (s, r)"
    using dns_hash_loop_cong [OF assms] by (metis option.inject prod.inject)
  moreover have "unat (fold_hash (fold_hash s) AND 0x3ff) < HASH_NUM_BUCKETS"
  proof -
    have "fold_hash (fold_hash s) AND 0x3ff = take_bit 10 (fold_hash (fold_hash s))"
      by (simp add: take_bit_eq_mask mask_eq_exp_minus_1)
    then show ?thesis
      using take_bit_nat_less_exp [of 10 "unat (fold_hash (fold_hash s))"] by (simp add: unsigned_take_bit_eq)
  qed
  ultimately show ?thesis
    by (intro that [of "unat (fold_hash (fold_hash s) AND 0x3ff)" r]) (simp_all add: dns_hash_def)
qed

section \<open>The table as a finite map\<close>

text \<open>The labels of an image, and the key of an entry.\<close>

function (sequential) labels_of :: "byte list \<Rightarrow> label list" where
  "labels_of [] = []"
| "labels_of (lb # bs) = (if lb = 0 then [] else take (unat lb) bs # labels_of (drop (unat lb) bs))"
  by pat_completeness auto
termination by (relation "measure length") auto

lemma labels_of_enc [simp]: "labels_ok ls \<Longrightarrow> labels_of (enc_name ls @ rest) = ls"
  by (induction ls) simp_all

lemma labels_of_enc_name [simp]: "labels_ok ls \<Longrightarrow> labels_of (enc_name ls) = ls"
  using labels_of_enc [of ls "[]"] by simp

definition key_of :: "dns_cent \<Rightarrow> label list" where
  "key_of c = lower_name (labels_of (qname c))"

definition named :: "dns_cent \<Rightarrow> bool" where
  "named c \<longleftrightarrow> (\<exists>ls. name_ok ls \<and> qname c = enc_name ls)"

definition pairs :: "'r hash_ent list \<Rightarrow> (label list \<times> dns_cent) list" where
  "pairs ch = map (\<lambda>e. (key_of (ent_data e), ent_data e)) ch"

text \<open>What the table holds under a name (in lower case).\<close>

definition table_map :: "'r hash_table \<Rightarrow> label list \<Rightarrow> dns_cent option" where
  "table_map hb k = map_of (pairs (concat hb)) k"

definition chain_ok :: "nat \<Rightarrow> 'l::len word hash_ent list \<Rightarrow> bool" where
  "chain_ok b ch \<longleftrightarrow>
     sorted (map rhash ch) \<and> distinct (map fst (pairs ch)) \<and>
     (\<forall>e \<in> set ch. named (ent_data e) \<and> dns_hash (qname (ent_data e)) = Some (b, rhash e))"

definition hash_ok :: "'l::len word hash_table \<Rightarrow> bool" where
  "hash_ok hb \<longleftrightarrow> length hb = HASH_NUM_BUCKETS \<and> (\<forall>b < HASH_NUM_BUCKETS. chain_ok b (hb ! b))"

lemma mk_dns_hash_ok: "hash_ok (mk_dns_hash :: 'l::len word hash_table)"
  "table_map (mk_dns_hash :: 'l::len word hash_table) = Map.empty"
  by (auto simp: hash_ok_def mk_dns_hash_def chain_ok_def pairs_def table_map_def)

lemma pairs_simps [simp]:
  "pairs [] = []" "pairs (e # ch) = (key_of (ent_data e), ent_data e) # pairs ch"
  "pairs (ch @ ch') = pairs ch @ pairs ch'"
  by (simp_all add: pairs_def)

text \<open>An entry whose name is the key, up to case, has the key's hash.\<close>

lemma named_hash:
  assumes "named c" "labels_ok nm" "key_of c = lower_name nm" "dns_hash (enc_name nm @ rest) = Some (b, rh)"
  shows "dns_hash (qname c) = Some (b, rh)"
proof -
  obtain ls where ls: "name_ok ls" "qname c = enc_name ls" using assms(1) by (auto simp: named_def)
  then have "lower_name nm = lower_name ls" using assms(3) by (simp add: key_of_def name_okD)
  then show ?thesis
    using dns_hash_enc [OF assms(2), of rest] assms(4) ls(2)
    by (metis append.right_neutral option.inject)
qed

lemma rhnicmp_named:
  assumes "named c" "labels_ok nm"
  shows "rhnicmp (enc_name nm @ rest) (qname c) = Some (lower_name nm = key_of c)"
proof -
  obtain ls where ls: "name_ok ls" "qname c = enc_name ls" using assms(1) by (auto simp: named_def)
  then show ?thesis
    using rhnicmp_enc [OF assms(2), of ls rest "[]"] by (simp add: key_of_def name_okD)
qed

lemma key_in_pairs: "k \<in> fst ` set (pairs ch) \<longleftrightarrow> (\<exists>e \<in> set ch. key_of (ent_data e) = k)"
  by (auto simp: pairs_def image_image)

text \<open>The search of a chain: what it returns, and where it stops.\<close>

lemma find_in_chain_ok:
  assumes nm: "labels_ok nm" and hash: "dns_hash (enc_name nm @ rest) = Some (b, rh)"
  shows "chain_ok b ch \<Longrightarrow> \<exists>k \<le> length ch.
    find_in_chain (enc_name nm @ rest) rh ch pos = Some (map_of (pairs ch) (lower_name nm), pos + k) \<and>
    (\<forall>e \<in> set (take k ch). rhash e \<le> rh) \<and>
    (case map_of (pairs ch) (lower_name nm) of
       None \<Rightarrow> \<forall>e \<in> set (drop k ch). rh \<le> rhash e
     | Some c \<Rightarrow> k < length ch \<and> ent_data (ch ! k) = c \<and> key_of c = lower_name nm)"
proof (induction ch arbitrary: pos)
  case Nil
  then show ?case by simp
next
  case (Cons e ch)
  have tail: "chain_ok b ch" and e: "named (ent_data e)" "dns_hash (qname (ent_data e)) = Some (b, rhash e)"
    using Cons.prems by (auto simp: chain_ok_def)
  have cmp: "rhnicmp (enc_name nm @ rest) (qname (ent_data e)) = Some (lower_name nm = key_of (ent_data e))"
    by (rule rhnicmp_named [OF e(1) nm])
  have same: "rhash e = rh" if "key_of (ent_data e) = lower_name nm"
    using named_hash [OF e(1) nm that hash] e(2) by simp
  consider (found) "key_of (ent_data e) = lower_name nm" | (past) "rh < rhash e"
    | (more) "key_of (ent_data e) \<noteq> lower_name nm" "rhash e \<le> rh" by fastforce
  then show ?case
  proof cases
    case found
    then show ?thesis using same cmp by (intro exI [of _ 0]) simp
  next
    case past
    have "lower_name nm \<notin> fst ` set (pairs ch)"
    proof
      assume "lower_name nm \<in> fst ` set (pairs ch)"
      then obtain f where f: "f \<in> set ch" "key_of (ent_data f) = lower_name nm" by (auto simp: key_in_pairs)
      then have "rhash f = rh" using tail named_hash [OF _ nm f(2) hash] by (auto simp: chain_ok_def)
      moreover have "rhash e \<le> rhash f" using Cons.prems f(1) by (auto simp: chain_ok_def)
      ultimately show False using past by simp
    qed
    then have none: "map_of (pairs (e # ch)) (lower_name nm) = None"
      using past same by (auto simp: map_of_eq_None_iff)
    have "\<forall>f \<in> set (e # ch). rh \<le> rhash f" using Cons.prems past by (force simp: chain_ok_def)
    then show ?thesis using past none by (intro exI [of _ 0]) auto
  next
    case more
    obtain k where "k \<le> length ch"
      "find_in_chain (enc_name nm @ rest) rh ch (Suc pos) = Some (map_of (pairs ch) (lower_name nm), Suc pos + k)"
      "\<forall>e \<in> set (take k ch). rhash e \<le> rh"
      "case map_of (pairs ch) (lower_name nm) of
         None \<Rightarrow> \<forall>e \<in> set (drop k ch). rh \<le> rhash e
       | Some c \<Rightarrow> k < length ch \<and> ent_data (ch ! k) = c \<and> key_of c = lower_name nm"
      using Cons.IH [OF tail, of "Suc pos"] by blast
    then show ?thesis using more cmp by (intro exI [of _ "Suc k"]) (auto split: option.splits)
  qed
qed

text \<open>A name can only be in the chain of its hash.\<close>

lemma table_map_chain:
  assumes ok: "hash_ok hb" and nm: "labels_ok nm"
    and hash: "dns_hash (enc_name nm @ rest) = Some (b, rh :: 'l::len word)" and b: "b < HASH_NUM_BUCKETS"
  shows "table_map (hb :: 'l word hash_table) (lower_name nm) = map_of (pairs (hb ! b)) (lower_name nm)"
proof -
  have len: "length hb = HASH_NUM_BUCKETS" and ch: "\<And>j. j < HASH_NUM_BUCKETS \<Longrightarrow> chain_ok j (hb ! j)"
    using ok by (auto simp: hash_ok_def)
  have split: "hb = take b hb @ hb ! b # drop (Suc b) hb" using b len by (simp add: id_take_nth_drop)
  have other: "lower_name nm \<notin> fst ` set (pairs (hb ! j))" if "j < HASH_NUM_BUCKETS" "j \<noteq> b" for j
  proof
    assume "lower_name nm \<in> fst ` set (pairs (hb ! j))"
    then obtain e where e: "e \<in> set (hb ! j)" "key_of (ent_data e) = lower_name nm" by (auto simp: key_in_pairs)
    then show False using ch [OF that(1)] named_hash [OF _ nm e(2) hash] that(2) by (auto simp: chain_ok_def)
  qed
  have none: "map_of (pairs (concat xs)) (lower_name nm) = None"
    if "\<And>c. c \<in> set xs \<Longrightarrow> \<exists>j < HASH_NUM_BUCKETS. j \<noteq> b \<and> c = hb ! j" for xs
    using that
  proof (induction xs)
    case (Cons c xs)
    then obtain j where "j < HASH_NUM_BUCKETS" "j \<noteq> b" "c = hb ! j" by auto
    then have "map_of (pairs c) (lower_name nm) = None" using other by (simp add: map_of_eq_None_iff)
    moreover have "map_of (pairs (concat xs)) (lower_name nm) = None" using Cons by simp
    ultimately show ?case by (simp add: map_add_def)
  qed simp
  have "map_of (pairs (concat (take b hb))) (lower_name nm) = None"
    by (rule none) (use b len in \<open>auto simp: in_set_conv_nth intro: less_trans\<close>)
  moreover have "map_of (pairs (concat (drop (Suc b) hb))) (lower_name nm) = None"
  proof (rule none)
    fix c assume "c \<in> set (drop (Suc b) hb)"
    then obtain i where "i < length hb - Suc b" "c = hb ! (Suc b + i)" by (auto simp: in_set_conv_nth)
    then show "\<exists>j < HASH_NUM_BUCKETS. j \<noteq> b \<and> c = hb ! j" using len by (intro exI [of _ "Suc b + i"]) auto
  qed
  moreover have "concat hb = concat (take b hb) @ hb ! b @ concat (drop (Suc b) hb)"
    by (metis concat.simps(2) concat_append split)
  ultimately show ?thesis by (simp add: table_map_def map_add_def split: option.splits)
qed

text \<open>A location that belongs to a name, as \<open>dns_lookup\<close> fills it in.\<close>

definition loc_for :: "'l::len word hash_table \<Rightarrow> label list \<Rightarrow> 'l word hash_loc \<Rightarrow> bool" where
  "loc_for hb nm loc \<longleftrightarrow>
     (let ch = hb ! loc_bucket loc; k = loc_pos loc in
      loc_bucket loc < HASH_NUM_BUCKETS \<and> k \<le> length ch \<and>
      dns_hash (enc_name nm) = Some (loc_bucket loc, loc_rhash loc) \<and>
      (\<forall>e \<in> set (take k ch). rhash e \<le> loc_rhash loc) \<and>
      (case table_map hb (lower_name nm) of
         None \<Rightarrow> \<forall>e \<in> set (drop k ch). loc_rhash loc \<le> rhash e
       | Some c \<Rightarrow> k < length ch \<and> ent_data (ch ! k) = c \<and> key_of c = lower_name nm))"

lemma dns_lookup_ok:
  fixes hb :: "'l::len word hash_table"
  assumes ok: "hash_ok hb" and nm: "labels_ok nm"
  obtains loc where "dns_lookup hb (enc_name nm @ rest) = Some (table_map hb (lower_name nm), loc)"
    "loc_for hb nm loc"
proof -
  obtain b and rh :: "'l word" where h: "dns_hash (enc_name nm @ rest) = Some (b, rh)" "b < HASH_NUM_BUCKETS"
    "dns_hash (enc_name nm) = Some (b, rh)"
    using dns_hash_enc [OF nm, of rest] by (metis append.right_neutral)
  have ch: "chain_ok b (hb ! b)" using ok h(2) by (simp add: hash_ok_def)
  note tm = table_map_chain [OF ok nm h(1,2)]
  obtain k where k: "k \<le> length (hb ! b)"
    "find_in_chain (enc_name nm @ rest) rh (hb ! b) 0 = Some (table_map hb (lower_name nm), 0 + k)"
    "\<forall>e \<in> set (take k (hb ! b)). rhash e \<le> rh"
    "case table_map hb (lower_name nm) of
       None \<Rightarrow> \<forall>e \<in> set (drop k (hb ! b)). rh \<le> rhash e
     | Some c \<Rightarrow> k < length (hb ! b) \<and> ent_data (hb ! b ! k) = c \<and> key_of c = lower_name nm"
    using find_in_chain_ok [OF nm h(1) ch, of 0] unfolding tm by blast
  let ?loc = "\<lparr>loc_bucket = b, loc_pos = k, loc_rhash = rh\<rparr>"
  have "dns_lookup hb (enc_name nm @ rest) = Some (table_map hb (lower_name nm), ?loc)"
    using h(1) k(2) by (simp add: dns_lookup_def)
  moreover have "loc_for hb nm ?loc"
    using h(2,3) k(1,3,4) by (simp add: loc_for_def Let_def split: option.splits)
  ultimately show ?thesis by (rule that)
qed

lemma table_map_dom:
  assumes "hash_ok hb" "table_map hb k = Some c"
  shows "\<exists>nm. name_ok nm \<and> k = lower_name nm \<and> qname c = enc_name nm" "c \<in> ent_data ` set (concat hb)"
proof -
  have mem: "(k, c) \<in> set (pairs (concat hb))" using assms(2) by (simp add: table_map_def map_of_SomeD)
  then obtain e where e: "e \<in> set (concat hb)" "k = key_of (ent_data e)" "c = ent_data e"
    by (auto simp: pairs_def)
  then show "c \<in> ent_data ` set (concat hb)" by blast
  obtain ch where ch: "ch \<in> set hb" "e \<in> set ch" using e(1) by auto
  then obtain b where "b < length hb" "ch = hb ! b" by (metis in_set_conv_nth)
  then have "named (ent_data e)" using assms(1) ch(2) by (auto simp: hash_ok_def chain_ok_def)
  then show "\<exists>nm. name_ok nm \<and> k = lower_name nm \<and> qname c = enc_name nm"
    using e by (auto simp: named_def key_of_def name_okD)
qed

lemma hash_ok_update:
  "hash_ok hb \<Longrightarrow> b < HASH_NUM_BUCKETS \<Longrightarrow> chain_ok b ch \<Longrightarrow> hash_ok (hb[b := ch])"
  by (simp add: hash_ok_def nth_list_update)

text \<open>Replacing the chain of a name by one that differs in that name only.\<close>

lemma table_map_update:
  fixes hb :: "'l::len word hash_table"
  assumes ok: "hash_ok hb" and b: "b < HASH_NUM_BUCKETS" and ch: "chain_ok b ch"
    and nm: "labels_ok nm" and hash: "dns_hash (enc_name nm) = Some (b, rh :: 'l word)"
    and upd: "map_of (pairs ch) = (map_of (pairs (hb ! b)))(lower_name nm := v)"
  shows "table_map (hb[b := ch]) = (table_map hb)(lower_name nm := v)"
proof
  fix k
  have ok': "hash_ok (hb[b := ch])" using ok b ch by (rule hash_ok_update)
  have len: "length hb = HASH_NUM_BUCKETS" using ok by (simp add: hash_ok_def)
  show "table_map (hb[b := ch]) k = ((table_map hb)(lower_name nm := v)) k"
  proof (cases "\<exists>ls. labels_ok ls \<and> k = lower_name ls")
    case True
    then obtain ls where ls: "labels_ok ls" "k = lower_name ls" by blast
    obtain bk and rk :: "'l word" where hk: "dns_hash (enc_name ls @ []) = Some (bk, rk)" "bk < HASH_NUM_BUCKETS"
      "\<And>ms b. lower_name ls = lower_name ms \<Longrightarrow> dns_hash (enc_name ms @ b) = Some (bk, rk)"
      using dns_hash_enc [where ?'l = 'l, OF ls(1), of "[]"] by blast
    have tm: "table_map hb k = map_of (pairs (hb ! bk)) k"
      "table_map (hb[b := ch]) k = map_of (pairs (hb[b := ch] ! bk)) k"
      using table_map_chain [OF ok ls(1) hk(1,2)] table_map_chain [OF ok' ls(1) hk(1,2)] ls(2) by simp_all
    show ?thesis
    proof (cases "bk = b")
      case True
      then show ?thesis using tm upd b len by simp
    next
      case False
      then have "k \<noteq> lower_name nm" using hk(3) [of nm "[]"] hash ls(2) by auto
      then show ?thesis using tm False by simp
    qed
  next
    case False
    then have "k \<noteq> lower_name nm" using nm by blast
    moreover have "table_map hb k = None"
      using False table_map_dom(1) [OF ok] name_okD by (metis not_Some_eq)
    moreover have "table_map (hb[b := ch]) k = None"
      using False table_map_dom(1) [OF ok'] name_okD by (metis not_Some_eq)
    ultimately show ?thesis by simp
  qed
qed

lemma map_of_insert_new:
  "fst p \<notin> fst ` set (xs @ ys) \<Longrightarrow> map_of (xs @ p # ys) = (map_of (xs @ ys))(fst p := Some (snd p))"
  by (induction xs) (auto simp: fun_upd_twist)

lemma map_of_remove:
  "distinct (map fst (xs @ p # ys)) \<Longrightarrow> map_of (xs @ ys) = (map_of (xs @ p # ys))(fst p := None)"
proof (induction xs)
  case Nil
  then have "map_of ys (fst p) = None" by (simp add: map_of_eq_None_iff)
  then show ?case by (auto simp: fun_eq_iff)
next
  case (Cons x xs)
  then show ?case by (auto simp: fun_upd_twist)
qed

lemma sorted_insert_at:
  "sorted xs \<Longrightarrow> (\<And>x. x \<in> set (take k xs) \<Longrightarrow> x \<le> v) \<Longrightarrow> (\<And>x. x \<in> set (drop k xs) \<Longrightarrow> v \<le> x) \<Longrightarrow>
     sorted (take k xs @ v # drop k xs)"
  by (auto simp: sorted_append sorted_wrt_take sorted_wrt_drop intro: order_trans)

lemma sorted_remove: "sorted (xs @ x # ys) \<Longrightarrow> sorted (xs @ ys)"
  by (simp add: sorted_append)

lemma add_dns_hash_ok:
  fixes hb :: "'l::len word hash_table"
  assumes ok: "hash_ok hb" and loc: "loc_for hb nm loc" and none: "table_map hb (lower_name nm) = None"
    and c: "named c" "key_of c = lower_name nm" and nm: "labels_ok nm"
  shows "hash_ok (snd (add_dns_hash True hb c loc))"
    "table_map (snd (add_dns_hash True hb c loc)) = (table_map hb)(lower_name nm \<mapsto> c)"
proof -
  let ?b = "loc_bucket loc" and ?k = "loc_pos loc" and ?ch = "hb ! loc_bucket loc"
  let ?e = "\<lparr>rhash = loc_rhash loc, ent_data = c\<rparr>"
  let ?ch' = "take ?k ?ch @ ?e # drop ?k ?ch"
  have l: "?b < HASH_NUM_BUCKETS" "dns_hash (enc_name nm) = Some (?b, loc_rhash loc)"
      "\<forall>e \<in> set (take ?k ?ch). rhash e \<le> loc_rhash loc" "\<forall>e \<in> set (drop ?k ?ch). loc_rhash loc \<le> rhash e"
    using loc none by (auto simp: loc_for_def Let_def)
  have ch: "chain_ok ?b ?ch" using ok l(1) by (simp add: hash_ok_def)
  have h: "dns_hash (enc_name nm @ []) = Some (?b, loc_rhash loc)" using l(2) by simp
  have fresh: "lower_name nm \<notin> fst ` set (pairs ?ch)"
    using table_map_chain [OF ok nm h l(1)] none by (metis map_of_eq_None_iff)
  have parts: "pairs (take ?k ?ch) @ pairs (drop ?k ?ch) = pairs ?ch" by (simp flip: pairs_simps(3))
  have hc: "dns_hash (qname c) = Some (?b, loc_rhash loc)" using named_hash [OF c(1) nm c(2) h] .
  have "sorted (map rhash ?ch')"
    using sorted_insert_at [of "map rhash ?ch" ?k "loc_rhash loc"] ch l(3,4)
    by (auto simp: chain_ok_def take_map drop_map)
  moreover have "distinct (map fst (pairs ?ch'))"
  proof -
    have "distinct (map fst (pairs (take ?k ?ch) @ pairs (drop ?k ?ch)))"
      using ch by (simp only: parts chain_ok_def)
    moreover have "lower_name nm \<notin> fst ` set (pairs (take ?k ?ch) @ pairs (drop ?k ?ch))"
      using fresh unfolding parts .
    ultimately show ?thesis using c(2) by auto
  qed
  ultimately have ch': "chain_ok ?b ?ch'"
    using ch c(1) hc by (auto simp: chain_ok_def dest: in_set_takeD in_set_dropD)
  have "pairs ?ch' = pairs (take ?k ?ch) @ (lower_name nm, c) # pairs (drop ?k ?ch)" using c(2) by simp
  then have upd: "map_of (pairs ?ch') = (map_of (pairs ?ch))(lower_name nm := Some c)"
    using map_of_insert_new [of "(lower_name nm, c)" "pairs (take ?k ?ch)" "pairs (drop ?k ?ch)"] fresh
    unfolding parts fst_conv snd_conv by metis
  show "hash_ok (snd (add_dns_hash True hb c loc))"
    using hash_ok_update [OF ok l(1) ch'] by (simp add: add_dns_hash_def Let_def)
  show "table_map (snd (add_dns_hash True hb c loc)) = (table_map hb)(lower_name nm \<mapsto> c)"
    using table_map_update [OF ok l(1) ch' nm l(2) upd] by (simp add: add_dns_hash_def Let_def)
qed

lemma unlink_ent_ok:
  fixes hb :: "'l::len word hash_table"
  assumes ok: "hash_ok hb" and loc: "loc_for hb nm loc" and some: "table_map hb (lower_name nm) = Some c"
    and nm: "labels_ok nm"
  shows "hash_ok (unlink_ent hb (loc_bucket loc) (loc_pos loc))"
    "table_map (unlink_ent hb (loc_bucket loc) (loc_pos loc)) = (table_map hb)(lower_name nm := None)"
proof -
  let ?b = "loc_bucket loc" and ?k = "loc_pos loc" and ?ch = "hb ! loc_bucket loc"
  let ?ch' = "take ?k ?ch @ drop (Suc ?k) ?ch"
  have l: "?b < HASH_NUM_BUCKETS" "dns_hash (enc_name nm) = Some (?b, loc_rhash loc)"
      "?k < length ?ch" "key_of (ent_data (?ch ! ?k)) = lower_name nm"
    using loc some by (auto simp: loc_for_def Let_def)
  have ch: "chain_ok ?b ?ch" using ok l(1) by (simp add: hash_ok_def)
  have split: "?ch = take ?k ?ch @ ?ch ! ?k # drop (Suc ?k) ?ch" using l(3) by (simp add: id_take_nth_drop)
  then have p: "pairs ?ch = pairs (take ?k ?ch) @ (lower_name nm, ent_data (?ch ! ?k)) # pairs (drop (Suc ?k) ?ch)"
    using l(4) by (metis pairs_simps(2,3))
  have "sorted (map rhash ?ch')"
    using sorted_remove [of "map rhash (take ?k ?ch)" "rhash (?ch ! ?k)" "map rhash (drop (Suc ?k) ?ch)"]
      ch split by (metis chain_ok_def list.simps(9) map_append)
  moreover have "distinct (map fst (pairs ?ch'))"
    using ch p by (simp add: chain_ok_def)
  ultimately have ch': "chain_ok ?b ?ch'"
    using ch by (auto simp: chain_ok_def dest: in_set_takeD in_set_dropD)
  have upd: "map_of (pairs ?ch') = (map_of (pairs ?ch))(lower_name nm := None)"
    using map_of_remove [of "pairs (take ?k ?ch)" "(lower_name nm, ent_data (?ch ! ?k))"
        "pairs (drop (Suc ?k) ?ch)"] ch p by (simp add: chain_ok_def)
  show "hash_ok (unlink_ent hb ?b ?k)"
    using hash_ok_update [OF ok l(1) ch'] by (simp add: unlink_ent_def)
  show "table_map (unlink_ent hb ?b ?k) = (table_map hb)(lower_name nm := None)"
    using table_map_update [OF ok l(1) ch' nm l(2) upd] by (simp add: unlink_ent_def)
qed

lemma del_dns_hash_ent_ok:
  fixes hb :: "'l::len word hash_table"
  assumes "hash_ok hb" "loc_for hb nm loc" "table_map hb (lower_name nm) = Some c" "labels_ok nm"
  shows "\<exists>hb'. del_dns_hash_ent hb loc = Some (c, hb') \<and> hash_ok hb' \<and>
    table_map hb' = (table_map hb)(lower_name nm := None)"
  using unlink_ent_ok [OF assms] assms(2,3) by (auto simp: del_dns_hash_ent_def loc_for_def Let_def)

lemma del_dns_hash_ok:
  fixes hb :: "'l::len word hash_table"
  assumes ok: "hash_ok hb" and nm: "labels_ok nm"
  shows "\<exists>hb'. del_dns_hash hb (enc_name nm @ rest) = Some (table_map hb (lower_name nm), hb') \<and> hash_ok hb' \<and>
    table_map hb' = (table_map hb)(lower_name nm := None)"
proof -
  obtain loc where l: "dns_lookup hb (enc_name nm @ rest) = Some (table_map hb (lower_name nm), loc)"
    "loc_for hb nm loc" by (rule dns_lookup_ok [OF ok nm])
  then have eq: "del_dns_hash hb (enc_name nm @ rest) = Some (table_map hb (lower_name nm),
      if table_map hb (lower_name nm) = None then hb else unlink_ent hb (loc_bucket loc) (loc_pos loc))"
    by (auto simp: dns_lookup_def del_dns_hash_def split: option.splits prod.splits)
  show ?thesis
  proof (cases "table_map hb (lower_name nm)")
    case None
    then show ?thesis using eq ok by (simp add: fun_upd_idem)
  next
    case (Some c)
    then show ?thesis using eq unlink_ent_ok [OF ok l(2) Some nm] by simp
  qed
qed

section \<open>The contract of the table\<close>

text \<open>
  What the cache relies on: a search returns what the table holds under a key and a location that
  belongs to the key; adding at the location of a missing key and removing at the location of a present
  one change the table for that key only.
\<close>

locale name_table =
  fixes ok :: "'t \<Rightarrow> bool"
    and contents :: "'t \<Rightarrow> 'k \<Rightarrow> 'v option"
    and key_of_bytes :: "'b \<Rightarrow> 'k"
    and legal :: "'b \<Rightarrow> bool"
    and fits_key :: "'k \<Rightarrow> 'v \<Rightarrow> bool"
    and at_key :: "'t \<Rightarrow> 'b \<Rightarrow> 'loc \<Rightarrow> bool"
    and lookup :: "'t \<Rightarrow> 'b \<Rightarrow> ('v option \<times> 'loc) option"
    and insert_at :: "'t \<Rightarrow> 'v \<Rightarrow> 'loc \<Rightarrow> 't"
    and remove_at :: "'t \<Rightarrow> 'loc \<Rightarrow> ('v \<times> 't) option"
  assumes lookup_law: "ok t \<Longrightarrow> legal b \<Longrightarrow>
      \<exists>loc. lookup t b = Some (contents t (key_of_bytes b), loc) \<and> at_key t b loc"
    and insert_law: "ok t \<Longrightarrow> legal b \<Longrightarrow> at_key t b loc \<Longrightarrow> contents t (key_of_bytes b) = None \<Longrightarrow>
      fits_key (key_of_bytes b) v \<Longrightarrow>
      ok (insert_at t v loc) \<and> contents (insert_at t v loc) = (contents t)(key_of_bytes b \<mapsto> v)"
    and remove_law: "ok t \<Longrightarrow> legal b \<Longrightarrow> at_key t b loc \<Longrightarrow> contents t (key_of_bytes b) = Some v \<Longrightarrow>
      \<exists>t'. remove_at t loc = Some (v, t') \<and> ok t' \<and> contents t' = (contents t)(key_of_bytes b := None)"
begin

lemma lookup_total: "ok t \<Longrightarrow> legal b \<Longrightarrow> \<exists>r loc. lookup t b = Some (r, loc)"
  using lookup_law by blast

lemma lookup_contents:
  "ok t \<Longrightarrow> legal b \<Longrightarrow> lookup t b = Some (r, loc) \<Longrightarrow> r = contents t (key_of_bytes b) \<and> at_key t b loc"
  using lookup_law by fastforce

lemma insert_then_lookup:
  assumes "ok t" "legal b" "legal b'" "lookup t b = Some (None, loc)" "fits_key (key_of_bytes b) v"
  shows "\<exists>loc'. lookup (insert_at t v loc) b' =
      Some (if key_of_bytes b' = key_of_bytes b then Some v else contents t (key_of_bytes b'), loc')"
proof -
  have "contents t (key_of_bytes b) = None" "at_key t b loc" using lookup_contents assms by metis+
  then have "ok (insert_at t v loc)" "contents (insert_at t v loc) = (contents t)(key_of_bytes b \<mapsto> v)"
    using insert_law assms by blast+
  then show ?thesis using lookup_law [OF _ assms(3)] by fastforce
qed

text \<open>Replacing an entry, as the cache does: search, remove, search again, add.\<close>

lemma replace_entry:
  assumes "ok t" "legal b" "lookup t b = Some (Some v, loc)" "fits_key (key_of_bytes b) v'"
  shows "\<exists>t' loc'. remove_at t loc = Some (v, t') \<and> lookup t' b = Some (None, loc') \<and>
    ok (insert_at t' v' loc') \<and> contents (insert_at t' v' loc') = (contents t)(key_of_bytes b \<mapsto> v')"
proof -
  have c: "contents t (key_of_bytes b) = Some v" "at_key t b loc" using lookup_contents assms by metis+
  then obtain t' where t': "remove_at t loc = Some (v, t')" "ok t'"
      "contents t' = (contents t)(key_of_bytes b := None)"
    using remove_law assms by blast
  then obtain loc' where "lookup t' b = Some (None, loc')" "at_key t' b loc'"
    using lookup_law [OF t'(2) assms(2)] by auto
  then show ?thesis using t' insert_law [OF t'(2) assms(2), of loc' v'] assms(4) by auto
qed

end

definition legal_key :: "byte list \<Rightarrow> bool" where
  "legal_key b \<longleftrightarrow> (\<exists>nm rest. labels_ok nm \<and> b = enc_name nm @ rest)"

lemma legal_key_enc [simp]: "labels_ok nm \<Longrightarrow> legal_key (enc_name nm @ rest)" "labels_ok nm \<Longrightarrow> legal_key (enc_name nm)"
  unfolding legal_key_def by (blast, metis append.right_neutral)

interpretation ht: name_table
  "hash_ok :: 'l::len word hash_table \<Rightarrow> bool" table_map "\<lambda>b. lower_name (labels_of b)" legal_key
  "\<lambda>k c. named c \<and> key_of c = k" "\<lambda>hb b loc. loc_for hb (labels_of b) loc" dns_lookup
  "\<lambda>hb c loc. snd (add_dns_hash True hb c loc)" del_dns_hash_ent
proof unfold_locales
  fix t :: "'l word hash_table" and b
  assume t: "hash_ok t" and "legal_key b"
  then obtain nm rest where nm: "labels_ok nm" "b = enc_name nm @ rest" by (auto simp: legal_key_def)
  then obtain loc where "dns_lookup t b = Some (table_map t (lower_name nm), loc)" "loc_for t nm loc"
    using dns_lookup_ok [OF t nm(1), of rest] by metis
  then show "\<exists>loc. dns_lookup t b = Some (table_map t (lower_name (labels_of b)), loc) \<and> loc_for t (labels_of b) loc"
    using nm by auto
next
  fix t :: "'l word hash_table" and b loc v
  assume "hash_ok t" "legal_key b" "loc_for t (labels_of b) loc" "table_map t (lower_name (labels_of b)) = None"
    "named v \<and> key_of v = lower_name (labels_of b)"
  then show "hash_ok (snd (add_dns_hash True t v loc)) \<and>
      table_map (snd (add_dns_hash True t v loc)) = (table_map t)(lower_name (labels_of b) \<mapsto> v)"
    using add_dns_hash_ok by (metis labels_of_enc legal_key_def)
next
  fix t :: "'l word hash_table" and b loc v
  assume "hash_ok t" "legal_key b" "loc_for t (labels_of b) loc" "table_map t (lower_name (labels_of b)) = Some v"
  then show "\<exists>t'. del_dns_hash_ent t loc = Some (v, t') \<and> hash_ok t' \<and>
      table_map t' = (table_map t)(lower_name (labels_of b) := None)"
    using del_dns_hash_ent_ok by (metis labels_of_enc legal_key_def)
qed

section \<open>The iteration visits every entry once\<close>

lemma first_from_bounds:
  "first_from hb i n = Some (c, j, e) \<Longrightarrow>
     i \<le> j \<and> j < i + n \<and> e = 1 \<and> (\<exists>he hes. hb ! j = he # hes \<and> c = ent_data he) \<and>
     (\<forall>k. i \<le> k \<longrightarrow> k < j \<longrightarrow> hb ! k = [])"
proof (induction hb i n rule: first_from.induct)
  case (2 hb i n)
  show ?case
  proof (cases "hb ! i")
    case Nil
    then have IH: "Suc i \<le> j \<and> j < Suc i + n \<and> e = 1 \<and> (\<exists>he hes. hb ! j = he # hes \<and> c = ent_data he) \<and>
        (\<forall>k. Suc i \<le> k \<longrightarrow> k < j \<longrightarrow> hb ! k = [])" using 2 by simp
    moreover have "hb ! k = []" if "i \<le> k" "k < j" for k
      using IH Nil that by (cases "k = i") auto
    ultimately show ?thesis by auto
  qed (use 2 in auto)
qed simp

lemma first_from_None: "first_from hb i n = None \<Longrightarrow> i \<le> k \<Longrightarrow> k < i + n \<Longrightarrow> hb ! k = []"
proof (induction hb i n rule: first_from.induct)
  case (2 hb i n)
  then show ?case by (cases "k = i") (auto split: list.splits)
qed simp

text \<open>The calls a client makes: \<open>fetch_first\<close>, then \<open>fetch_next\<close> until it returns NULL.\<close>

function fetch_rest :: "'r hash_table \<Rightarrow> nat \<times> nat \<Rightarrow> dns_cent list" where
  "fetch_rest hb pos = (case fetch_next hb pos of None \<Rightarrow> [] | Some (c, pos') \<Rightarrow> c # fetch_rest hb pos')"
  by pat_completeness auto
termination
proof (relation "measures [\<lambda>(hb, b, e). HASH_NUM_BUCKETS - b, \<lambda>(hb, b, e). length (hb ! b) - e]")
  fix hb :: "'r hash_table" and pos pos' p c
  assume a: "fetch_next hb pos = Some p" "(c, pos') = p"
  obtain b e b' e' where pos: "pos = (b, e)" "pos' = (b', e')" by (metis surj_pair)
  show "((hb, pos'), (hb, pos)) \<in>
      measures [\<lambda>(hb, b, e). HASH_NUM_BUCKETS - b, \<lambda>(hb, b, e). length (hb ! b) - e]"
  proof (cases "e < length (hb ! b)")
    case True
    then show ?thesis using a pos by (auto simp: fetch_next_def)
  next
    case False
    then have "first_from hb (Suc b) (HASH_NUM_BUCKETS - Suc b) = Some (c, b', e')"
      using a pos by (simp add: fetch_next_def)
    then have "Suc b \<le> b'" "b' < Suc b + (HASH_NUM_BUCKETS - Suc b)" using first_from_bounds by blast+
    then show ?thesis using pos by auto
  qed
qed simp

declare fetch_rest.simps [simp del]

lemma concat_skip:
  "(\<And>k. i \<le> k \<Longrightarrow> k < j \<Longrightarrow> hb ! k = []) \<Longrightarrow> i \<le> j \<Longrightarrow> j \<le> length hb \<Longrightarrow>
     concat (drop i hb) = concat (drop j hb)"
proof (induction "j - i" arbitrary: i)
  case (Suc d)
  then have "i < length hb" "hb ! i = []" by simp_all
  then have "drop i hb = [] # drop (Suc i) hb" by (metis Cons_nth_drop_Suc)
  then show ?case using Suc by simp
qed simp

lemma fetch_rest_all:
  assumes "length hb = HASH_NUM_BUCKETS" "b < HASH_NUM_BUCKETS"
  shows "fetch_rest hb (b, e) = map ent_data (drop e (hb ! b) @ concat (drop (Suc b) hb))"
  using assms
proof (induction hb "(b, e)" arbitrary: b e rule: fetch_rest.induct)
  case (1 hb b e)
  show ?case
  proof (cases "e < length (hb ! b)")
    case True
    then have n: "fetch_next hb (b, e) = Some (ent_data (hb ! b ! e), b, Suc e)" by (simp add: fetch_next_def)
    then show ?thesis using 1(1) [OF n refl 1(2,3)] True
      by (subst fetch_rest.simps) (simp add: Cons_nth_drop_Suc [symmetric])
  next
    case False
    show ?thesis
    proof (cases "first_from hb (Suc b) (HASH_NUM_BUCKETS - Suc b)")
      case None
      have "concat (drop (Suc b) hb) = concat (drop HASH_NUM_BUCKETS hb)"
        by (rule concat_skip) (use first_from_None [OF None] 1(2,3) in auto)
      then show ?thesis using None False 1(2) by (subst fetch_rest.simps) (simp add: fetch_next_def)
    next
      case (Some p)
      obtain c j k where p: "p = (c, j, k)" by (metis surj_pair)
      note ff = first_from_bounds [OF Some [unfolded p]]
      obtain he hes where he: "hb ! j = he # hes" "c = ent_data he" "k = 1" "Suc b \<le> j" "j < HASH_NUM_BUCKETS"
        using ff 1(3) by auto
      have n: "fetch_next hb (b, e) = Some (c, j, k)" using False Some p by (simp add: fetch_next_def)
      have "concat (drop (Suc b) hb) = concat (drop j hb)"
        by (rule concat_skip) (use ff he 1(2) in auto)
      also have "\<dots> = hb ! j @ concat (drop (Suc j) hb)"
        using he(5) 1(2) by (simp add: Cons_nth_drop_Suc [symmetric])
      finally show ?thesis using 1(1) [OF n refl 1(2) he(5)] he False
        by (subst fetch_rest.simps) (simp add: n)
    qed
  qed
qed

lemma fetch_all:
  assumes "length hb = HASH_NUM_BUCKETS"
  shows "(case fetch_first hb of None \<Rightarrow> [] | Some (c, pos) \<Rightarrow> c # fetch_rest hb pos) = map ent_data (concat hb)"
proof (cases "fetch_first hb")
  case None
  have "concat (drop 0 hb) = concat (drop HASH_NUM_BUCKETS hb)"
    by (rule concat_skip) (use first_from_None [OF None [unfolded fetch_first_def]] assms in auto)
  then show ?thesis using None assms by simp
next
  case (Some p)
  obtain c j k where p: "p = (c, j, k)" by (metis surj_pair)
  note ff = first_from_bounds [OF Some [unfolded fetch_first_def p]]
  have "concat (drop 0 hb) = concat (drop j hb)"
    by (rule concat_skip) (use ff assms in auto)
  then have "concat hb = hb ! j @ concat (drop (Suc j) hb)"
    using ff assms by (simp add: Cons_nth_drop_Suc [symmetric])
  then show ?thesis using Some p ff fetch_rest_all [of hb j 1] assms by auto
qed

section \<open>Selecting entries by name\<close>

text \<open>When an element of an include/exclude list applies to a name.\<close>

definition rule_applies :: "label list \<Rightarrow> slist \<Rightarrow> bool" where
  "rule_applies nm sl \<longleftrightarrow>
     (let dm = labels_of (sl_domain sl) in
      matching nm dm = length dm \<and> (sl_exact sl \<longrightarrow> length nm = length dm))"

definition slist_ok :: "slist \<Rightarrow> bool" where
  "slist_ok sl \<longleftrightarrow> (\<exists>dm rest. name_ok dm \<and> sl_domain sl = enc_name dm @ rest)"

text \<open>The first element that applies decides.\<close>

definition chosen :: "label list \<Rightarrow> slist list \<Rightarrow> bool" where
  "chosen nm sla = (case find (rule_applies nm) sla of None \<Rightarrow> False | Some sl \<Rightarrow> sl_included sl)"

lemma offset_of_zero: "m \<le> length ls \<Longrightarrow> offset_of ls m = 0 \<longleftrightarrow> m = 0"
  by (cases ls; cases m) (simp_all add: offset_of_def)

lemma selected_chosen:
  assumes "name_ok nm" "list_all slist_ok sla"
  shows "selected (enc_name nm @ rest) sla = Some (chosen nm sla)"
  using assms(2)
proof (induction sla)
  case (Cons sl sla)
  then obtain dm r where dm: "name_ok dm" "sl_domain sl = enc_name dm @ r" by (auto simp: slist_ok_def)
  let ?k = "matching nm dm"
  have m: "domain_match (enc_name nm @ rest) (sl_domain sl) =
      Some (?k, offset_of nm (length nm - ?k), offset_of dm (length dm - ?k))"
    using domain_match_enc [OF assms(1) dm(1)] dm(2) by simp
  have "offset_of dm (length dm - ?k) = 0 \<longleftrightarrow> ?k = length dm" "offset_of nm (length nm - ?k) = 0 \<longleftrightarrow> ?k = length nm"
    using matching_le [of nm dm] by (auto simp: offset_of_zero)
  then have "(offset_of dm (length dm - ?k) = 0 \<and> (\<not> sl_exact sl \<or> offset_of nm (length nm - ?k) = 0)) =
      rule_applies nm sl"
    using dm name_okD by (auto simp: rule_applies_def Let_def)
  then show ?case using m Cons by (simp add: chosen_def)
qed (simp add: chosen_def)

definition picks :: "slist list \<Rightarrow> 'r hash_ent \<Rightarrow> bool" where
  "picks sla e = chosen (labels_of (qname (ent_data e))) sla"

lemma free_selected_chain_eq:
  assumes "\<forall>e \<in> set ch. named (ent_data e)" "list_all slist_ok sla"
  shows "free_selected_chain ch sla =
      Some (filter (\<lambda>e. \<not> picks sla e) ch, map ent_data (filter (picks sla) ch))"
  using assms(1)
proof (induction ch)
  case (Cons e ch)
  then obtain nm where nm: "name_ok nm" "qname (ent_data e) = enc_name nm" by (auto simp: named_def)
  then have "selected (qname (ent_data e)) sla = Some (picks sla e)"
    using selected_chosen [OF nm(1) assms(2), of "[]"] by (simp add: picks_def name_okD)
  then show ?case using Cons by (auto split: bool.splits)
qed simp

lemma pairs_filter_distinct: "distinct (map fst (pairs ch)) \<Longrightarrow> distinct (map fst (pairs (filter P ch)))"
  by (induction ch) (auto simp: key_in_pairs)

lemma chain_ok_filter: "chain_ok b ch \<Longrightarrow> chain_ok b (filter P ch)"
  unfolding chain_ok_def using pairs_filter_distinct by (auto simp: sorted_filter)

section \<open>Correctness\<close>

text \<open>
  A client of the table: it stores an entry, replacing the one it has for the name, the way \<open>add_cache\<close>
  does; it deletes by name; it searches.
\<close>

datatype table_op = Put dns_cent | Remove "byte list" | Find "byte list"

definition table_step :: "table_op \<Rightarrow> 'l::len word hash_table \<Rightarrow> (dns_cent option \<times> 'l word hash_table) option" where
  "table_step act hb =
     (case act of
        Put c \<Rightarrow>
          (case dns_lookup hb (qname c) of
             None \<Rightarrow> None
           | Some (None, loc) \<Rightarrow> Some (None, snd (add_dns_hash True hb c loc))
           | Some (Some _, loc) \<Rightarrow>
               (case del_dns_hash_ent hb loc of
                  None \<Rightarrow> None
                | Some (old, hb1) \<Rightarrow>
                    (case dns_lookup hb1 (qname c) of
                       Some (None, loc1) \<Rightarrow> Some (Some old, snd (add_dns_hash True hb1 c loc1))
                     | _ \<Rightarrow> None)))
      | Remove key \<Rightarrow> del_dns_hash hb key
      | Find key \<Rightarrow> map_option (\<lambda>(r, _). (r, hb)) (dns_lookup hb key))"

fun table_run :: "table_op list \<Rightarrow> 'l::len word hash_table \<Rightarrow> (dns_cent option list \<times> 'l word hash_table) option" where
  "table_run [] hb = Some ([], hb)"
| "table_run (act # acts) hb =
     (case table_step act hb of
        None \<Rightarrow> None
      | Some (r, hb') \<Rightarrow> map_option (\<lambda>(rs, t). (r # rs, t)) (table_run acts hb'))"

text \<open>The same on a finite map from names in lower case.\<close>

fun map_step :: "table_op \<Rightarrow> (label list \<Rightarrow> dns_cent option) \<Rightarrow> dns_cent option \<times> (label list \<Rightarrow> dns_cent option)" where
  "map_step (Put c) m = (m (key_of c), m(key_of c \<mapsto> c))"
| "map_step (Remove key) m = (m (lower_name (labels_of key)), m(lower_name (labels_of key) := None))"
| "map_step (Find key) m = (m (lower_name (labels_of key)), m)"

fun map_run :: "table_op list \<Rightarrow> (label list \<Rightarrow> dns_cent option) \<Rightarrow> dns_cent option list \<times> (label list \<Rightarrow> dns_cent option)" where
  "map_run [] m = ([], m)"
| "map_run (act # acts) m = (let (r, m') = map_step act m; (rs, m'') = map_run acts m' in (r # rs, m''))"

fun op_ok :: "table_op \<Rightarrow> bool" where
  "op_ok (Put c) = named c"
| "op_ok (Remove key) = legal_key key"
| "op_ok (Find key) = legal_key key"

lemma table_step_map:
  assumes ok: "hash_ok hb" and op: "op_ok act"
  shows "\<exists>hb'. table_step act hb = Some (fst (map_step act (table_map hb)), hb') \<and> hash_ok hb' \<and>
    table_map hb' = snd (map_step act (table_map hb))"
proof (cases act)
  case (Put c)
  then have c: "legal_key (qname c)" "named c \<and> key_of c = lower_name (labels_of (qname c))"
    using op by (auto simp: named_def key_of_def name_okD)
  obtain r loc where look: "dns_lookup hb (qname c) = Some (r, loc)" using ht.lookup_total [OF ok c(1)] by blast
  note cont = ht.lookup_contents [OF ok c(1) look]
  show ?thesis
  proof (cases r)
    case None
    then show ?thesis using ht.insert_law [OF ok c(1), of loc c] cont c(2) look Put by (simp add: table_step_def)
  next
    case (Some v)
    obtain hb1 loc1 where "del_dns_hash_ent hb loc = Some (v, hb1)" "dns_lookup hb1 (qname c) = Some (None, loc1)"
        "hash_ok (snd (add_dns_hash True hb1 c loc1))"
        "table_map (snd (add_dns_hash True hb1 c loc1)) = (table_map hb)(lower_name (labels_of (qname c)) \<mapsto> c)"
      using ht.replace_entry [OF ok c(1) look [unfolded Some] c(2)] by blast
    then show ?thesis using Put look Some c(2) cont by (simp add: table_step_def)
  qed
next
  case (Remove key)
  then obtain nm rest where "labels_ok nm" "key = enc_name nm @ rest" using op by (auto simp: legal_key_def)
  then show ?thesis using del_dns_hash_ok [OF ok, of nm rest] Remove by (simp add: table_step_def)
next
  case (Find key)
  then have "legal_key key" using op by simp
  then show ?thesis using ht.lookup_law [OF ok, of key] ok Find by (auto simp: table_step_def)
qed

lemma table_run_map:
  assumes "hash_ok hb" "list_all op_ok acts"
  shows "\<exists>hb'. table_run acts hb = Some (fst (map_run acts (table_map hb)), hb') \<and> hash_ok hb' \<and>
    table_map hb' = snd (map_run acts (table_map hb))"
  using assms
proof (induction acts arbitrary: hb)
  case (Cons act acts)
  obtain hb1 where one: "table_step act hb = Some (fst (map_step act (table_map hb)), hb1)" "hash_ok hb1"
      "table_map hb1 = snd (map_step act (table_map hb))"
    using table_step_map [OF Cons.prems(1)] Cons.prems(2) by auto
  then show ?case using Cons.IH [OF one(2)] Cons.prems(2) by (auto simp: case_prod_beta Let_def)
qed simp

text \<open>C16. Any sequence of stores, deletions and searches on the empty table returns what the same sequence returns
  on a finite map whose keys are the names without regard to case, and leaves a table that holds exactly that
  map; no search reads outside a name and none misses an entry because of the order of a chain.\<close>

theorem hash_table_refines_map:
  assumes "list_all op_ok acts"
  shows "\<exists>hb. table_run acts (mk_dns_hash :: 'l::len word hash_table) = Some (fst (map_run acts Map.empty), hb) \<and>
    table_map hb = snd (map_run acts Map.empty)"
  using table_run_map [OF mk_dns_hash_ok(1) [where ?'l = 'l] assms] unfolding mk_dns_hash_ok(2) by blast

definition ex_cent :: dns_cent where
  "ex_cent = \<lparr>qname = enc_name [[65]], cs = 75, num_rrs = 0, ce_flags = 0, body = no_sets, c_ns = cundef, c_soa = cundef\<rparr>"

lemma ex_cent_key: "named ex_cent" "key_of ex_cent = [[97]]"
proof -
  have ok: "name_ok [[65]]" by (simp add: name_ok_def label_ok_def)
  then show "named ex_cent" by (auto simp: named_def ex_cent_def)
  show "key_of ex_cent = [[97]]"
    using name_okD [OF ok] by (simp add: key_of_def ex_cent_def tolower_def del: enc_name_simps)
qed

theorem hash_table_refines_map_witness:
  "\<exists>hb. table_run [Put ex_cent, Find (enc_name [[97]] @ [1]), Remove (enc_name [[65]] @ [2]), Find (enc_name [[97]])]
      (mk_dns_hash :: 64 word hash_table) = Some ([None, Some ex_cent, Some ex_cent, None], hb)"
proof -
  have nm: "labels_ok [[97]]" "labels_ok [[65]]" by (simp_all add: label_ok_def)
  have lab: "lower_name (labels_of (enc_name [[97]] @ [1])) = [[97]]" "lower_name (labels_of (enc_name [[65]] @ [2])) = [[97]]"
      "lower_name (labels_of (enc_name [[97]])) = [[97]]"
    using nm by (simp_all add: tolower_def del: enc_name_simps)
  have "op_ok (Put ex_cent)" using ex_cent_key(1) by (auto simp: named_def)
  then have "list_all op_ok [Put ex_cent, Find (enc_name [[97]] @ [1]), Remove (enc_name [[65]] @ [2]), Find (enc_name [[97]])]"
    using legal_key_enc [OF nm(1)] legal_key_enc [OF nm(2)] by (simp del: enc_name_simps)
  from hash_table_refines_map [OF this, where ?'l = 64] show ?thesis
    using ex_cent_key(2) lab by (auto simp del: enc_name_simps)
qed

text \<open>The keys of a table are distinct.\<close>

lemma same_key_same_hash:
  assumes "named c" "named d" "key_of c = key_of d"
  shows "(dns_hash (qname c) :: (nat \<times> 'l::len word) option) = dns_hash (qname d)"
proof -
  obtain ls where ls: "name_ok ls" "qname c = enc_name ls" using assms(1) by (auto simp: named_def)
  obtain b and r :: "'l word" where h: "dns_hash (enc_name ls @ []) = Some (b, r)"
    using dns_hash_enc [where ?'l = 'l, OF name_okD [OF ls(1)], of "[]"] by metis
  moreover have "key_of d = lower_name ls" using assms(3) ls by (simp add: key_of_def name_okD)
  ultimately show ?thesis using named_hash [OF assms(2) name_okD [OF ls(1)] _ h] ls(2) by simp
qed

lemma distinct_keys:
  assumes ok: "hash_ok (hb :: 'l::len word hash_table)"
  shows "n \<le> HASH_NUM_BUCKETS \<Longrightarrow> distinct (map fst (pairs (concat (take n hb))))"
proof (induction n)
  case (Suc n)
  have len: "n < length hb" and ch: "\<And>j. j < HASH_NUM_BUCKETS \<Longrightarrow> chain_ok j (hb ! j)"
    using ok Suc.prems by (auto simp: hash_ok_def)
  have "fst ` set (pairs (concat (take n hb))) \<inter> fst ` set (pairs (hb ! n)) = {}"
  proof (rule ccontr)
    assume "fst ` set (pairs (concat (take n hb))) \<inter> fst ` set (pairs (hb ! n)) \<noteq> {}"
    then obtain k where "k \<in> fst ` set (pairs (concat (take n hb)))" "k \<in> fst ` set (pairs (hb ! n))" by blast
    then obtain e f where e: "e \<in> set (concat (take n hb))" "f \<in> set (hb ! n)" "key_of (ent_data e) = key_of (ent_data f)"
      unfolding key_in_pairs by metis
    then obtain c where "c \<in> set (take n hb)" "e \<in> set c" by auto
    then obtain j where j: "j < n" "e \<in> set (hb ! j)" by (metis in_set_conv_nth length_take min_less_iff_conj nth_take)
    have "named (ent_data e)" "named (ent_data f)" "dns_hash (qname (ent_data e)) = Some (j, rhash e)"
      "dns_hash (qname (ent_data f)) = Some (n, rhash f)"
      using ch [of j] ch [of n] j e(2) Suc.prems by (auto simp: chain_ok_def)
    then show False using same_key_same_hash [where ?'l = 'l, OF _ _ e(3)] j(1) by simp
  qed
  moreover have "distinct (map fst (pairs (hb ! n)))" using ch [of n] Suc.prems by (simp add: chain_ok_def)
  ultimately show ?case using Suc len by (simp add: take_Suc_conv_app_nth)
qed simp

text \<open>Iterating with \<open>fetch_first\<close> and \<open>fetch_next\<close> until NULL ends and yields every entry of the table
  exactly once: the names of the entries are distinct, ignoring case, and the entries are those the table
  holds.\<close>

theorem iteration_visits_all:
  assumes "hash_ok (hb :: 'l::len word hash_table)"
  shows "\<exists>ents. (case fetch_first hb of None \<Rightarrow> [] | Some (c, pos) \<Rightarrow> c # fetch_rest hb pos) = ents \<and>
    distinct (map key_of ents) \<and> set ents = ran (table_map hb)"
proof -
  have len: "length hb = HASH_NUM_BUCKETS" using assms by (simp add: hash_ok_def)
  have dist: "distinct (map fst (pairs (concat hb)))"
    using distinct_keys [OF assms, of HASH_NUM_BUCKETS] len by simp
  have "map fst (pairs (concat hb)) = map key_of (map ent_data (concat hb))" by (simp add: pairs_def)
  moreover have "ran (table_map hb) = snd ` set (pairs (concat hb))"
    unfolding table_map_def by (rule ran_distinct [OF dist])
  moreover have "snd ` set (pairs (concat hb)) = set (map ent_data (concat hb))"
    by (auto simp: pairs_def image_image)
  ultimately show ?thesis using fetch_all [OF len] dist by (metis (no_types, lifting))
qed

theorem iteration_visits_all_witness:
  "\<exists>hb ents. table_run [Put ex_cent] (mk_dns_hash :: 32 word hash_table) = Some ([None], hb) \<and>
    (case fetch_first hb of None \<Rightarrow> [] | Some (c, pos) \<Rightarrow> c # fetch_rest hb pos) = ents \<and>
    distinct (map key_of ents) \<and> set ents = {ex_cent}"
proof -
  have op: "list_all op_ok [Put ex_cent]" using ex_cent_key(1) by (auto simp: named_def)
  obtain hb :: "32 word hash_table" where "table_run [Put ex_cent] mk_dns_hash = Some ([None], hb)" "hash_ok hb"
      "table_map hb = [[[97]] \<mapsto> ex_cent]"
    using table_run_map [OF mk_dns_hash_ok(1) [where ?'l = 32] op] ex_cent_key(2) by (auto simp: mk_dns_hash_ok(2))
  then show ?thesis using iteration_visits_all [of hb] by auto
qed

end
