(* ===== verification/Dns_Record.thy ===== *)
theory Dns_Record
  imports Dns_Compress Dns_Hash
begin

text \<open>
  Reading the resource records of a DNS message into cache entries, from pdnsd's \<open>dns_query.c\<close>:
  \<open>rrs2cent\<close>, one definition for each group of cases of its \<open>switch\<close>, and \<open>rr_to_cache\<close>.

  The reference is a table of layouts: the data of a record type is a sequence of fields, and the relation
  \<open>fields_at\<close> says what the fields at a position of a message are. The code accepts exactly the records that
  have the layout of their type, and what it stores is their fields with the names decompressed. It reads no byte
  outside the message and writes none outside the buffers it has on the stack.
\<close>

section \<open>Integers in a message\<close>

text \<open>\<open>GETINT16\<close>, \<open>GETINT32\<close>, \<open>PUTINT16\<close>, \<open>PUTINT32\<close>\<close>

definition getint16 :: "byte list \<Rightarrow> nat \<Rightarrow> u16" where
  "getint16 cp i = push_bit 8 (ucast (cp ! i)) OR ucast (cp ! (i + 1))"

definition getint32 :: "byte list \<Rightarrow> nat \<Rightarrow> u32" where
  "getint32 cp i = push_bit 24 (ucast (cp ! i)) OR push_bit 16 (ucast (cp ! (i + 1))) OR
     push_bit 8 (ucast (cp ! (i + 2))) OR ucast (cp ! (i + 3))"

definition putint16 :: "u16 \<Rightarrow> byte list" where
  "putint16 s = [ucast (drop_bit 8 s), ucast s]"

definition putint32 :: "u32 \<Rightarrow> byte list" where
  "putint32 l = [ucast (drop_bit 24 l), ucast (drop_bit 16 l), ucast (drop_bit 8 l), ucast l]"

lemma length_putint [simp]: "length (putint16 s) = 2" "length (putint32 l) = 4"
  by (simp_all add: putint16_def putint32_def)

lemma getint16_put: "getint16 (pre @ putint16 s @ post) (length pre) = s"
  by (simp add: getint16_def putint16_def nth_append) (rule bit_word_eqI, auto simp: bit_simps)

lemma getint32_put: "getint32 (pre @ putint32 l @ post) (length pre) = l"
proof -
  have "push_bit 24 (ucast (ucast (drop_bit 24 l) :: byte)) OR push_bit 16 (ucast (ucast (drop_bit 16 l) :: byte)) OR
      push_bit 8 (ucast (ucast (drop_bit 8 l) :: byte)) OR ucast (ucast l :: byte) = l" (is "?v = l")
  proof (rule bit_word_eqI)
    fix n assume "n < LENGTH(32)"
    then consider "n < 8" | "8 \<le> n" "n < 16" | "16 \<le> n" "n < 24" | "24 \<le> n" "n < 32" by fastforce
    then show "bit ?v n \<longleftrightarrow> bit l n" by cases (auto simp: bit_simps)
  qed
  then show ?thesis by (simp add: getint32_def putint32_def nth_append)
qed

section \<open>Types of records\<close>

abbreviation (input) T_A :: nat where "T_A \<equiv> 1"
abbreviation (input) T_NS :: nat where "T_NS \<equiv> 2"
abbreviation (input) T_MD :: nat where "T_MD \<equiv> 3"
abbreviation (input) T_MF :: nat where "T_MF \<equiv> 4"
abbreviation (input) T_CNAME :: nat where "T_CNAME \<equiv> 5"
abbreviation (input) T_SOA :: nat where "T_SOA \<equiv> 6"
abbreviation (input) T_MB :: nat where "T_MB \<equiv> 7"
abbreviation (input) T_MG :: nat where "T_MG \<equiv> 8"
abbreviation (input) T_MR :: nat where "T_MR \<equiv> 9"
abbreviation (input) T_PTR :: nat where "T_PTR \<equiv> 12"
abbreviation (input) T_MINFO :: nat where "T_MINFO \<equiv> 14"
abbreviation (input) T_MX :: nat where "T_MX \<equiv> 15"
abbreviation (input) T_RP :: nat where "T_RP \<equiv> 17"
abbreviation (input) T_AFSDB :: nat where "T_AFSDB \<equiv> 18"
abbreviation (input) T_RT :: nat where "T_RT \<equiv> 21"
abbreviation (input) T_PX :: nat where "T_PX \<equiv> 26"
abbreviation (input) T_AAAA :: nat where "T_AAAA \<equiv> 28"
abbreviation (input) T_NXT :: nat where "T_NXT \<equiv> 30"
abbreviation (input) T_SRV :: nat where "T_SRV \<equiv> 33"
abbreviation (input) T_NAPTR :: nat where "T_NAPTR \<equiv> 35"
abbreviation (input) T_KX :: nat where "T_KX \<equiv> 36"
abbreviation (input) T_OPT :: nat where "T_OPT \<equiv> 41"
abbreviation (input) T_IPSECKEY :: nat where "T_IPSECKEY \<equiv> 45"
abbreviation (input) T_RRSIG :: nat where "T_RRSIG \<equiv> 46"
abbreviation (input) T_NSEC :: nat where "T_NSEC \<equiv> 47"
abbreviation (input) C_IN :: u16 where "C_IN \<equiv> 1"
abbreviation (input) sizeof_rr_hdr_t :: nat where "sizeof_rr_hdr_t \<equiv> 10"

section \<open>The data of a record\<close>

text \<open>
  The return values other than \<open>RC_OK\<close>. A computation returns \<open>None\<close> for a read outside the message or a
  write outside a buffer, an error, or a value.
\<close>

datatype rr_error = Dec dec_error | RC_FATALERR

type_synonym 'a run = "(rr_error + 'a) option"

definition and_then :: "'a run \<Rightarrow> ('a \<Rightarrow> 'b run) \<Rightarrow> 'b run" where
  "and_then r f = (case r of None \<Rightarrow> None | Some (Inl e) \<Rightarrow> Some (Inl e) | Some (Inr x) \<Rightarrow> f x)"

abbreviation (input) format_error :: "'a run" where "format_error \<equiv> Some (Inl (Dec RC_FORMAT))"

text \<open>
  A cursor: the bytes in \<open>db\<close> up to \<open>nptr\<close>, \<open>bptr - msg\<close> and \<open>blcnt\<close>. \<open>cap\<close> is \<open>sizeof(db)\<close>.
\<close>

type_synonym cursor = "byte list \<times> nat \<times> nat"

text \<open>A call of \<open>decompress_name\<close> into \<open>db\<close>; a truncated name is a format error.\<close>

definition copy_name :: "nat \<Rightarrow> byte list \<Rightarrow> cursor \<Rightarrow> cursor run" where
  "copy_name cap msg = (\<lambda>(db, bptr, blcnt).
     case decompress_name msg bptr blcnt of
       None \<Rightarrow> None
     | Some (Inl e) \<Rightarrow> Some (Inl (Dec (if e = RC_TRUNC then RC_FORMAT else e)))
     | Some (Inr (nm, blcnt', len)) \<Rightarrow>
         if length db + len > cap then None else Some (Inr (db @ nm, bptr + (blcnt - blcnt'), blcnt')))"

text \<open>A \<open>memcpy\<close> of \<open>k\<close> bytes behind a test that the record has them.\<close>

definition copy_bytes :: "nat \<Rightarrow> byte list \<Rightarrow> nat \<Rightarrow> cursor \<Rightarrow> cursor run" where
  "copy_bytes cap msg k = (\<lambda>(db, bptr, blcnt).
     if blcnt < k then format_error
     else if length db + k > cap \<or> bptr + k > length msg then None
     else Some (Inr (db @ segment bptr k msg, bptr + k, blcnt - k)))"

text \<open>\<open>if (blcnt!=0) goto trailing_junk\<close>\<close>

definition no_junk :: "cursor \<Rightarrow> byte list run" where
  "no_junk = (\<lambda>(db, bptr, blcnt). if blcnt \<noteq> 0 then format_error else Some (Inr db))"

text \<open>The label \<open>default_case\<close>: the data as it is.\<close>

definition rdata_default :: "byte list \<Rightarrow> nat \<Rightarrow> nat \<Rightarrow> byte list run" where
  "rdata_default msg p n = (if p + n > length msg then None else Some (Inr (segment p n msg)))"

text \<open>The cases of the \<open>switch\<close>, for data of \<open>n\<close> bytes at \<open>p\<close>.\<close>

definition rdata_name :: "byte list \<Rightarrow> nat \<Rightarrow> nat \<Rightarrow> byte list run" where
  "rdata_name msg p n = and_then (copy_name DNSNAMEBUFSIZE msg ([], p, n)) no_junk"

definition rdata_minfo :: "byte list \<Rightarrow> nat \<Rightarrow> nat \<Rightarrow> byte list run" where
  "rdata_minfo msg p n =
     and_then (and_then (copy_name (DNSNAMEBUFSIZE + DNSNAMEBUFSIZE) msg ([], p, n))
       (copy_name (DNSNAMEBUFSIZE + DNSNAMEBUFSIZE) msg)) no_junk"

definition rdata_mx :: "byte list \<Rightarrow> nat \<Rightarrow> nat \<Rightarrow> byte list run" where
  "rdata_mx msg p n =
     and_then (and_then (copy_bytes (2 + DNSNAMEBUFSIZE) msg 2 ([], p, n))
       (copy_name (2 + DNSNAMEBUFSIZE) msg)) no_junk"

definition rdata_soa :: "byte list \<Rightarrow> nat \<Rightarrow> nat \<Rightarrow> byte list run" where
  "rdata_soa msg p n =
     (let cap = DNSNAMEBUFSIZE + DNSNAMEBUFSIZE + 20 in
      and_then (and_then (and_then (copy_name cap msg ([], p, n)) (copy_name cap msg)) (copy_bytes cap msg 20))
        no_junk)"

definition rdata_px :: "byte list \<Rightarrow> nat \<Rightarrow> nat \<Rightarrow> byte list run" where
  "rdata_px msg p n =
     (let cap = 2 + DNSNAMEBUFSIZE + DNSNAMEBUFSIZE in
      and_then (and_then (and_then (copy_bytes cap msg 2 ([], p, n)) (copy_name cap msg)) (copy_name cap msg))
        no_junk)"

definition rdata_srv :: "byte list \<Rightarrow> nat \<Rightarrow> nat \<Rightarrow> byte list run" where
  "rdata_srv msg p n =
     and_then (and_then (copy_bytes (6 + DNSNAMEBUFSIZE) msg 6 ([], p, n))
       (copy_name (6 + DNSNAMEBUFSIZE) msg)) no_junk"

definition rdata_nxt :: "byte list \<Rightarrow> nat \<Rightarrow> nat \<Rightarrow> byte list run" where
  "rdata_nxt msg p n =
     and_then (copy_name 1040 msg ([], p, n)) (\<lambda>(db, bptr, blcnt).
       let slen = length db + blcnt in
       if slen > 1040 then format_error
       else and_then (copy_bytes 1040 msg blcnt (db, bptr, blcnt)) no_junk)"

text \<open>The loop over the three strings of a NAPTR record computes \<open>len\<close>.\<close>

fun naptr_len :: "nat \<Rightarrow> byte list \<Rightarrow> nat \<Rightarrow> nat \<Rightarrow> nat \<Rightarrow> nat run" where
  "naptr_len 0 msg bptr blcnt len = Some (Inr len)"
| "naptr_len (Suc j) msg bptr blcnt len =
     (if len \<ge> blcnt then format_error
      else if bptr + len \<ge> length msg then None
      else naptr_len j msg bptr blcnt (len + (unat (msg ! (bptr + len)) + 1)))"

definition rdata_naptr :: "byte list \<Rightarrow> nat \<Rightarrow> nat \<Rightarrow> byte list run" where
  "rdata_naptr msg p n =
     (let cap = 4 + 3 * 256 + DNSNAMEBUFSIZE in
      and_then (naptr_len 3 msg p n 4) (\<lambda>len.
        and_then (and_then (copy_bytes cap msg len ([], p, n)) (copy_name cap msg)) no_junk))"

text \<open>
  The types whose names should not be compressed. If the name behind the first \<open>k\<close> bytes is not compressed the
  data is taken as it is, otherwise it is copied with the name decompressed into a buffer from \<open>malloc\<close>.
\<close>

definition rdata_unpacked :: "bool \<Rightarrow> nat \<Rightarrow> byte list \<Rightarrow> nat \<Rightarrow> nat \<Rightarrow> byte list run" where
  "rdata_unpacked buf k msg p n =
     (let bptr = p + k; blcnt = n - k in
      case isnormalencdomname (drop bptr msg) blcnt of
        None \<Rightarrow> None
      | Some True \<Rightarrow> rdata_default msg p n
      | Some False \<Rightarrow>
          and_then (copy_name DNSNAMEBUFSIZE msg ([], bptr, blcnt)) (\<lambda>(nmbuf, bptr, blcnt).
            if \<not> buf then Some (Inl RC_FATALERR)
            else and_then (rdata_default msg p k) (\<lambda>first.
              and_then (rdata_default msg bptr blcnt) (\<lambda>rest. Some (Inr (first @ nmbuf @ rest))))))"

definition rdata_ipseckey :: "bool \<Rightarrow> byte list \<Rightarrow> nat \<Rightarrow> nat \<Rightarrow> byte list run" where
  "rdata_ipseckey buf msg p n =
     (if n < 3 then format_error
      else if p + 1 \<ge> length msg then None
      else let gwtp = msg ! (p + 1); blcnt = n - 3 in
        if gwtp = 0 then rdata_default msg p n
        else if gwtp = 1 then if blcnt < 4 then format_error else rdata_default msg p n
        else if gwtp = 2 then if blcnt < 16 then format_error else rdata_default msg p n
        else if gwtp = 3 then rdata_unpacked buf 3 msg p n
        else format_error)"

definition rdata_rrsig :: "bool \<Rightarrow> byte list \<Rightarrow> nat \<Rightarrow> nat \<Rightarrow> byte list run" where
  "rdata_rrsig buf msg p n = (if n < 18 then format_error else rdata_unpacked buf 18 msg p n)"

definition rdata_nsec :: "bool \<Rightarrow> byte list \<Rightarrow> nat \<Rightarrow> nat \<Rightarrow> byte list run" where
  "rdata_nsec buf msg p n = rdata_unpacked buf 0 msg p n"

definition record_data :: "bool \<Rightarrow> byte list \<Rightarrow> nat \<Rightarrow> nat \<Rightarrow> nat \<Rightarrow> byte list run" where
  "record_data buf msg tp p n =
     (if tp = T_A then if n \<noteq> 4 then format_error else rdata_default msg p n
      else if tp \<in> {T_CNAME, T_MB, T_MD, T_MF, T_MG, T_MR, T_NS, T_PTR} then rdata_name msg p n
      else if tp \<in> {T_MINFO, T_RP} then rdata_minfo msg p n
      else if tp \<in> {T_MX, T_AFSDB, T_RT, T_KX} then rdata_mx msg p n
      else if tp = T_SOA then rdata_soa msg p n
      else if tp = T_AAAA then if n \<noteq> 16 then format_error else rdata_default msg p n
      else if tp = T_PX then rdata_px msg p n
      else if tp = T_SRV then rdata_srv msg p n
      else if tp = T_NXT then rdata_nxt msg p n
      else if tp = T_NAPTR then rdata_naptr msg p n
      else if tp = T_IPSECKEY then rdata_ipseckey buf msg p n
      else if tp = T_RRSIG then rdata_rrsig buf msg p n
      else if tp = T_NSEC then rdata_nsec buf msg p n
      else rdata_default msg p n)"

section \<open>Records into entries\<close>

text \<open>The outcomes of the allocations for one record: the array of entries, an entry, and \<open>rbuf\<close>.\<close>

record alloc =
  al_grow :: bool
  al_mem :: memory
  al_buf :: bool

text \<open>The loop of \<open>rr_to_cache\<close> over the entries: the index of the entry with the name.\<close>

fun find_cent :: "dns_cent list \<Rightarrow> byte list \<Rightarrow> nat \<Rightarrow> nat option option" where
  "find_cent [] oname i = Some None"
| "find_cent (cent # centa) oname i =
     (case rhnicmp (qname cent) oname of
        None \<Rightarrow> None
      | Some True \<Rightarrow> Some (Some i)
      | Some False \<Rightarrow> find_cent centa oname (Suc i))"

text \<open>
  \<open>rr_to_cache\<close>: the error, if any, and the array. When the array cannot grow, \<open>DA_GROW1_F\<close> frees it with
  its entries; when the entry cannot be initialised, the array shrinks back.
\<close>

definition rr_to_cache ::
  "sizes \<Rightarrow> alloc \<Rightarrow> dns_cent list \<Rightarrow> byte list \<Rightarrow> nat \<Rightarrow> u32 \<Rightarrow> byte list \<Rightarrow> u16 \<Rightarrow> int \<Rightarrow>
     (rr_error option \<times> dns_cent list) option" where
  "rr_to_cache sz al centa oname tp ttl data flags queryts =
     (case find_cent centa oname 0 of
        None \<Rightarrow> None
      | Some (Some i) \<Rightarrow>
          map_option (\<lambda>(ok, cent). (if ok then None else Some RC_FATALERR, centa[i := cent]))
            (add_cent_rr sz (al_mem al) (centa ! i) (int tp) (uint ttl) queryts flags data)
      | Some None \<Rightarrow>
          if \<not> al_grow al then Some (Some RC_FATALERR, [])
          else case init_cent sz (al_mem al) oname 0 0 0 of
            None \<Rightarrow> None
          | Some None \<Rightarrow> Some (Some RC_FATALERR, centa)
          | Some (Some cent) \<Rightarrow>
              map_option (\<lambda>(ok, cent'). (if ok then None else Some RC_FATALERR, centa @ [cent']))
                (add_cent_rr sz (al_mem al) cent (int tp) (uint ttl) queryts flags data))"

text \<open>\<open>edns_info_t\<close>, and the state of \<open>rrs2cent\<close>: \<open>*centa\<close>, \<open>*numopt\<close>, \<open>*ep\<close>.\<close>

record edns_info =
  ei_udpsize :: u16
  ei_rcode :: u16
  ei_version :: u16
  ei_do_flg :: byte

record rr_state =
  centa :: "dns_cent list"
  numopt :: nat
  edns :: edns_info

text \<open>An OPT record: \<open>ttlp\<close> is the position of its TTL field, \<open>rcode\<close> the low half of the fourth byte.\<close>

definition opt_info :: "byte list \<Rightarrow> u16 \<Rightarrow> nat \<Rightarrow> edns_info" where
  "opt_info msg cls ttlp =
     \<lparr>ei_udpsize = cls, ei_rcode = push_bit 4 (ucast (msg ! ttlp)) OR ucast (msg ! 3 AND 0xf),
      ei_version = ucast (msg ! (ttlp + 1)), ei_do_flg = drop_bit 7 (msg ! (ttlp + 2)) AND 1\<rparr>"

definition take_opt :: "byte list \<Rightarrow> u16 \<Rightarrow> nat \<Rightarrow> rr_state \<Rightarrow> rr_state" where
  "take_opt msg cls ttlp st =
     (if numopt st = 0 then st\<lparr>numopt := 1, edns := opt_info msg cls ttlp\<rparr>
      else st\<lparr>numopt := numopt st + 1\<rparr>)"

text \<open>\<open>PDNSD_NOT_CACHED_TYPE\<close>\<close>

definition not_cached_type :: "nat \<Rightarrow> bool" where
  "not_cached_type tp \<longleftrightarrow> tp < T_MIN \<or> tp > 51 \<or> rrlkuptab ! (tp - T_MIN) \<ge> NRRTOT"

text \<open>The name and the header of a record: the name, type, class, TTL, \<open>rdlength\<close>, \<open>*ptr\<close> and \<open>*lcnt\<close>.\<close>

definition rr_header ::
  "byte list \<Rightarrow> nat \<Rightarrow> nat \<Rightarrow> (byte list \<times> u16 \<times> u16 \<times> u32 \<times> nat \<times> nat \<times> nat) run" where
  "rr_header msg ptr lcnt =
     (case decompress_name msg ptr lcnt of
        None \<Rightarrow> None
      | Some (Inl e) \<Rightarrow> Some (Inl (Dec e))
      | Some (Inr (oname, lcnt1, len)) \<Rightarrow>
          let ptr1 = ptr + (lcnt - lcnt1) in
          if lcnt1 < sizeof_rr_hdr_t then Some (Inl (Dec RC_TRUNC))
          else if ptr1 + sizeof_rr_hdr_t > length msg then None
          else
            let lcnt2 = lcnt1 - sizeof_rr_hdr_t; rdlength = unat (getint16 msg (ptr1 + 8)) in
            if lcnt2 < rdlength then Some (Inl (Dec RC_TRUNC))
            else Some (Inr (oname, getint16 msg ptr1, getint16 msg (ptr1 + 2), getint32 msg (ptr1 + 4), rdlength,
                   ptr1 + sizeof_rr_hdr_t, lcnt2)))"

text \<open>The body of the loop: the error or the new \<open>*ptr\<close> and \<open>*lcnt\<close>, and the state.\<close>

definition rr2cent ::
  "sizes \<Rightarrow> alloc \<Rightarrow> byte list \<Rightarrow> u16 \<Rightarrow> int \<Rightarrow> nat \<Rightarrow> nat \<Rightarrow> rr_state \<Rightarrow>
     ((rr_error + nat \<times> nat) \<times> rr_state) option" where
  "rr2cent sz al msg flags queryts ptr lcnt st =
     (case rr_header msg ptr lcnt of
        None \<Rightarrow> None
      | Some (Inl e) \<Rightarrow> Some (Inl e, st)
      | Some (Inr (oname, tp, cls, ttl, rdlength, ptr1, lcnt1)) \<Rightarrow>
          let after = Inr (ptr1 + rdlength, lcnt1 - rdlength) in
          if unat tp = T_OPT then
            if length msg \<le> 3 then None else Some (after, take_opt msg cls (ptr1 - 6) st)
          else if not_cached_type (unat tp) \<or> cls \<noteq> C_IN then Some (after, st)
          else case record_data (al_buf al) msg (unat tp) ptr1 rdlength of
            None \<Rightarrow> None
          | Some (Inl e) \<Rightarrow> Some (Inl e, st)
          | Some (Inr data) \<Rightarrow>
              (case rr_to_cache sz al (centa st) oname (unat tp) ttl data flags queryts of
                 None \<Rightarrow> None
               | Some (Some e, ca) \<Rightarrow> Some (Inl e, st\<lparr>centa := ca\<rparr>)
               | Some (None, ca) \<Rightarrow> Some (after, st\<lparr>centa := ca\<rparr>)))"

fun rrs2cent ::
  "sizes \<Rightarrow> (nat \<Rightarrow> alloc) \<Rightarrow> byte list \<Rightarrow> u16 \<Rightarrow> int \<Rightarrow> nat \<Rightarrow> nat \<Rightarrow> nat \<Rightarrow> rr_state \<Rightarrow>
     ((rr_error + nat \<times> nat) \<times> rr_state) option" where
  "rrs2cent sz al msg flags queryts ptr lcnt 0 st = Some (Inr (ptr, lcnt), st)"
| "rrs2cent sz al msg flags queryts ptr lcnt (Suc recnum) st =
     (case rr2cent sz (al recnum) msg flags queryts ptr lcnt st of
        None \<Rightarrow> None
      | Some (Inl e, st') \<Rightarrow> Some (Inl e, st')
      | Some (Inr (ptr', lcnt'), st') \<Rightarrow> rrs2cent sz al msg flags queryts ptr' lcnt' recnum st')"

section \<open>Layouts\<close>

text \<open>A field: some bytes, a string with a length byte, a name, or all that is left.\<close>

datatype field = Bytes nat | Str | Name | Rest

datatype fval = Raw "byte list" | Nm "label list"

fun enc_val :: "fval \<Rightarrow> byte list" where
  "enc_val (Raw bs) = bs"
| "enc_val (Nm ls) = enc_name ls"

definition enc_vals :: "fval list \<Rightarrow> byte list" where
  "enc_vals vs = concat (map enc_val vs)"

text \<open>\<open>field_at msg e f p v q\<close>: of the data that ends at \<open>e\<close>, the field \<open>f\<close> lies from \<open>p\<close> to \<open>q\<close> and is \<open>v\<close>.\<close>

fun field_at :: "byte list \<Rightarrow> nat \<Rightarrow> field \<Rightarrow> nat \<Rightarrow> fval \<Rightarrow> nat \<Rightarrow> bool" where
  "field_at msg e (Bytes k) p v q \<longleftrightarrow> q = p + k \<and> q \<le> e \<and> v = Raw (segment p k msg)"
| "field_at msg e Str p v q \<longleftrightarrow>
     p < e \<and> q = p + 1 + unat (msg ! p) \<and> q \<le> e \<and> v = Raw (segment p (q - p) msg)"
| "field_at msg e Name p v q \<longleftrightarrow>
     (\<exists>ls h n. name_at msg p ls h \<and> h \<le> 255 \<and> name_ok ls \<and> name_span msg p n \<and> q = p + n \<and> q \<le> e \<and> v = Nm ls)"
| "field_at msg e Rest p v q \<longleftrightarrow> p \<le> e \<and> q = e \<and> v = Raw (segment p (e - p) msg)"

fun fields_at :: "byte list \<Rightarrow> nat \<Rightarrow> field list \<Rightarrow> nat \<Rightarrow> fval list \<Rightarrow> bool" where
  "fields_at msg e [] p vs \<longleftrightarrow> p = e \<and> vs = []"
| "fields_at msg e (f # fs) p vs \<longleftrightarrow>
     (\<exists>v q ws. vs = v # ws \<and> field_at msg e f p v q \<and> fields_at msg e fs q ws)"

text \<open>The layout of a type; that of IPSECKEY depends on its second byte, and may not exist.\<close>

definition rr_layout :: "nat \<Rightarrow> byte list \<Rightarrow> field list option" where
  "rr_layout tp raw =
     (if tp = T_A then Some [Bytes 4]
      else if tp \<in> {T_CNAME, T_MB, T_MD, T_MF, T_MG, T_MR, T_NS, T_PTR} then Some [Name]
      else if tp \<in> {T_MINFO, T_RP} then Some [Name, Name]
      else if tp \<in> {T_MX, T_AFSDB, T_RT, T_KX} then Some [Bytes 2, Name]
      else if tp = T_SOA then Some [Name, Name, Bytes 20]
      else if tp = T_AAAA then Some [Bytes 16]
      else if tp = T_PX then Some [Bytes 2, Name, Name]
      else if tp = T_SRV then Some [Bytes 6, Name]
      else if tp = T_NXT then Some [Name, Rest]
      else if tp = T_NAPTR then Some [Bytes 4, Str, Str, Str, Name]
      else if tp = T_IPSECKEY then
        if length raw < 3 then None
        else if raw ! 1 = 0 then Some [Bytes 3, Rest]
        else if raw ! 1 = 1 then Some [Bytes 3, Bytes 4, Rest]
        else if raw ! 1 = 2 then Some [Bytes 3, Bytes 16, Rest]
        else if raw ! 1 = 3 then Some [Bytes 3, Name, Rest]
        else None
      else if tp = T_RRSIG then Some [Bytes 18, Name, Rest]
      else if tp = T_NSEC then Some [Name, Rest]
      else Some [Rest])"

section \<open>The reader accepts exactly the layouts\<close>

lemma and_then_simps [simp]:
  "and_then None f = None"
  "and_then (Some (Inl e)) f = Some (Inl e)"
  "and_then (Some (Inr x)) f = f x"
  by (simp_all add: and_then_def)

lemma and_then_assoc: "and_then (and_then r f) g = and_then r (\<lambda>x. and_then (f x) g)"
  by (auto simp: and_then_def split: option.splits sum.splits)

lemma enc_vals_simps [simp]:
  "enc_vals [] = []"
  "enc_vals (v # vs) = enc_val v @ enc_vals vs"
  by (simp_all add: enc_vals_def)

text \<open>Names are determined by their image.\<close>

lemma enc_name_inj: "labels_ok ls \<Longrightarrow> labels_ok ms \<Longrightarrow> enc_name ls @ xs = enc_name ms @ ys \<Longrightarrow> ls = ms \<and> xs = ys"
proof (induction ls arbitrary: ms)
  case Nil
  then show ?case by (cases ms) (auto dest: length_byte(2))
next
  case (Cons l ls)
  then obtain m ms' where ms: "ms = m # ms'" by (cases ms) (auto dest: length_byte(2))
  then have "length l = length m" using Cons.prems by (auto simp: length_byte_eq_iff)
  then show ?case using Cons ms by auto
qed

lemma name_at_enc:
  assumes "labels_ok ls"
  shows "name_at (pre @ enc_name ls @ post) (length pre) ls 0"
    "name_span (pre @ enc_name ls @ post) (length pre) (length (enc_name ls))"
proof -
  have eq: "pre @ enc_name ls @ post = pre @ enc_labels ls @ (0 # post)" by (simp add: enc_name_def)
  have "name_at (pre @ enc_labels ls @ 0 # post) (length pre + length (enc_labels ls)) [] 0"
    "name_span (pre @ enc_labels ls @ 0 # post) (length pre + length (enc_labels ls)) 1"
    by (rule name_at.Root name_span.Root; simp add: nth_append)+
  then show "name_at (pre @ enc_name ls @ post) (length pre) ls 0"
    "name_span (pre @ enc_name ls @ post) (length pre) (length (enc_name ls))"
    unfolding eq using literal_labels_name [OF assms] literal_labels_span [OF assms]
    by (force simp: length_enc_name)+
qed

text \<open>The name at a position is unique.\<close>

lemma name_field_unique:
  assumes "field_at msg e Name p v q" "field_at msg e Name p v' q'"
  shows "v' = v \<and> q' = q"
proof -
  obtain ls h n where l: "name_at msg p ls h" "h \<le> 255" "name_ok ls" "name_span msg p n" "q = p + n" "p + n \<le> e" "v = Nm ls"
    using assms(1) by auto
  obtain ms i m where m: "name_at msg p ms i" "i \<le> 255" "name_ok ms" "name_span msg p m" "q' = p + m" "p + m \<le> e" "v' = Nm ms"
    using assms(2) by auto
  have "decompress_name msg p (n + m) = Some (Inr (enc_name ls, n + m - n, length (enc_name ls)))"
    "decompress_name msg p (n + m) = Some (Inr (enc_name ms, n + m - m, length (enc_name ms)))"
    by (rule decompress_name_complete [OF l(1-4)] decompress_name_complete [OF m(1-4)], simp)+
  then have "enc_name ls = enc_name ms" "n = m" by auto
  then have "ls = ms" using enc_name_inj [of ls ms "[]" "[]"] name_okD l(3) m(3) by auto
  then show ?thesis using l m \<open>n = m\<close> by simp
qed

lemma field_unique: "field_at msg e f p v q \<Longrightarrow> field_at msg e f p v' q' \<Longrightarrow> v' = v \<and> q' = q"
  using name_field_unique by (cases f) (auto simp del: field_at.simps(3))

lemma fields_unique: "fields_at msg e fs p vs \<Longrightarrow> fields_at msg e fs p ws \<Longrightarrow> ws = vs"
proof (induction fs arbitrary: p vs ws)
  case (Cons f fs)
  then obtain v q vs' v' q' ws' where "vs = v # vs'" "ws = v' # ws'" "field_at msg e f p v q" "field_at msg e f p v' q'"
      "fields_at msg e fs q vs'" "fields_at msg e fs q' ws'" by auto
  then show ?case using field_unique Cons.IH by metis
qed simp

text \<open>What a step of the reader does, by the field it reads.\<close>

fun run_field :: "nat \<Rightarrow> byte list \<Rightarrow> field \<Rightarrow> cursor \<Rightarrow> cursor run" where
  "run_field cap msg (Bytes k) cur = copy_bytes cap msg k cur"
| "run_field cap msg Name cur = copy_name cap msg cur"
| "run_field cap msg Str (db, p, n) =
     (if n = 0 then format_error else if p \<ge> length msg then None
      else copy_bytes cap msg (unat (msg ! p) + 1) (db, p, n))"
| "run_field cap msg Rest (db, p, n) = copy_bytes cap msg n (db, p, n)"

fun field_room :: "nat \<Rightarrow> field \<Rightarrow> nat" where
  "field_room n (Bytes k) = k"
| "field_room n Str = 256"
| "field_room n Name = DNSNAMEBUFSIZE"
| "field_room n Rest = n"

definition read_ok :: "byte list \<Rightarrow> nat \<Rightarrow> field \<Rightarrow> nat \<Rightarrow> nat \<Rightarrow> byte list \<Rightarrow> cursor run \<Rightarrow> bool" where
  "read_ok msg e f p room db r \<longleftrightarrow>
     r = format_error \<and> (\<nexists>v q. field_at msg e f p v q) \<or>
     (\<exists>v q. r = Some (Inr (db @ enc_val v, q, e - q)) \<and> field_at msg e f p v q \<and> q \<le> e \<and>
        length (enc_val v) \<le> room)"

lemma copy_bytes_ok:
  assumes "p + n \<le> length msg" "length db + k \<le> cap"
  shows "copy_bytes cap msg k (db, p, n) =
    (if n < k then format_error else Some (Inr (db @ segment p k msg, p + k, p + n - (p + k))))"
  using assms by (simp add: copy_bytes_def)

lemma copy_name_ok:
  assumes "p + n \<le> length msg" "length db + DNSNAMEBUFSIZE \<le> cap"
  shows "read_ok msg (p + n) Name p DNSNAMEBUFSIZE db (copy_name cap msg (db, p, n))"
  using decompress_name_sound [of msg p n]
proof
  assume "\<exists>e. decompress_name msg p n = Some (Inl e)"
  then obtain e where e: "decompress_name msg p n = Some (Inl e)" by blast
  then have "copy_name cap msg (db, p, n) = format_error" by (cases e) (simp_all add: copy_name_def)
  moreover have "\<nexists>v q. field_at msg (p + n) Name p v q"
    using e by (auto dest: decompress_name_complete [where sz = n])
  ultimately show ?thesis by (auto simp: read_ok_def simp del: field_at.simps)
next
  assume "\<exists>ls h k. decompress_name msg p n = Some (Inr (enc_name ls, n - k, length (enc_name ls))) \<and>
    name_at msg p ls h \<and> h \<le> 255 \<and> name_ok ls \<and> name_span msg p k \<and> k \<le> n"
  then obtain ls h k where d: "decompress_name msg p n = Some (Inr (enc_name ls, n - k, length (enc_name ls)))"
    "name_at msg p ls h" "h \<le> 255" "name_ok ls" "name_span msg p k" "k \<le> n" by blast
  then have "field_at msg (p + n) Name p (Nm ls) (p + k)" by auto
  moreover have "copy_name cap msg (db, p, n) = Some (Inr (db @ enc_val (Nm ls), p + k, p + n - (p + k)))"
    using d assms by (auto simp: copy_name_def name_ok_def)
  moreover have "length (enc_val (Nm ls)) \<le> DNSNAMEBUFSIZE" using d(4) by (simp add: name_ok_def)
  ultimately show ?thesis unfolding read_ok_def using d(6) by (metis add_left_mono)
qed

lemma byte_room: "unat (b :: byte) + 1 \<le> 256"
  using unsigned_less [of b, where ?'a = nat] by simp

lemma run_field_ok:
  assumes "p + n \<le> length msg" "length db + field_room n f \<le> cap"
  shows "read_ok msg (p + n) f p (field_room n f) db (run_field cap msg f (db, p, n))"
proof (cases f)
  case Name
  then show ?thesis using copy_name_ok assms by simp
next
  case Str
  then have "length db + (unat (msg ! p) + 1) \<le> cap" using assms(2) byte_room [of "msg ! p"] by simp
  note c = copy_bytes_ok [OF assms(1) this]
  show ?thesis
  proof (cases "n < unat (msg ! p) + 1")
    case True
    then show ?thesis using Str assms c by (auto simp: read_ok_def)
  next
    case False
    then have "field_at msg (p + n) Str p (Raw (segment p (unat (msg ! p) + 1) msg)) (p + (unat (msg ! p) + 1))" by simp
    moreover have "length (segment p (unat (msg ! p) + 1) msg) \<le> 256"
      using byte_room [of "msg ! p"] by (simp add: segment_def)
    ultimately show ?thesis using Str assms c False unfolding read_ok_def
      by (auto simp del: field_at.simps) (metis enc_val.simps(1))
  qed
qed (use assms in \<open>auto simp: read_ok_def copy_bytes_ok length_segment\<close>)

fun run_fields :: "nat \<Rightarrow> byte list \<Rightarrow> field list \<Rightarrow> cursor \<Rightarrow> byte list run" where
  "run_fields cap msg [] cur = no_junk cur"
| "run_fields cap msg (f # fs) cur = and_then (run_field cap msg f cur) (run_fields cap msg fs)"

lemma run_fields_eta:
  "run_fields cap msg [] = no_junk"
  "run_fields cap msg (f # fs) = (\<lambda>cur. and_then (run_field cap msg f cur) (run_fields cap msg fs))"
  by (simp_all add: fun_eq_iff)

definition data_ok :: "byte list \<Rightarrow> nat \<Rightarrow> field list \<Rightarrow> nat \<Rightarrow> byte list \<Rightarrow> byte list run \<Rightarrow> bool" where
  "data_ok msg e fs p db r \<longleftrightarrow>
     r = format_error \<and> (\<nexists>vs. fields_at msg e fs p vs) \<or>
     (\<exists>vs. r = Some (Inr (db @ enc_vals vs)) \<and> fields_at msg e fs p vs)"

text \<open>A step and the rest.\<close>

lemma data_ok_step:
  assumes r: "read_ok msg e f p room db r"
    and rest: "\<And>v q. field_at msg e f p v q \<Longrightarrow> q \<le> e \<Longrightarrow> length (enc_val v) \<le> room \<Longrightarrow>
      data_ok msg e fs q (db @ enc_val v) (g (db @ enc_val v, q, e - q))"
  shows "data_ok msg e (f # fs) p db (and_then r g)"
proof (cases "r = format_error")
  case True
  then have "\<nexists>v q. field_at msg e f p v q" using r by (auto simp: read_ok_def)
  then have "\<nexists>vs. fields_at msg e (f # fs) p vs" by auto
  then show ?thesis using True unfolding data_ok_def by simp
next
  case False
  then obtain v q where v: "r = Some (Inr (db @ enc_val v, q, e - q))" "field_at msg e f p v q" "q \<le> e"
      "length (enc_val v) \<le> room"
    using r unfolding read_ok_def by blast
  note d = rest [OF v(2-4)]
  show ?thesis
  proof (cases "\<exists>vs. fields_at msg e fs q vs")
    case True
    then obtain vs where "g (db @ enc_val v, q, e - q) = Some (Inr ((db @ enc_val v) @ enc_vals vs))" "fields_at msg e fs q vs"
      using d unfolding data_ok_def by blast
    then have "and_then r g = Some (Inr (db @ enc_vals (v # vs)))" "fields_at msg e (f # fs) p (v # vs)"
      using v(1,2) by (simp, auto simp del: field_at.simps)
    then show ?thesis unfolding data_ok_def by blast
  next
    case F: False
    then have "\<nexists>vs. fields_at msg e (f # fs) p vs" using field_unique [OF v(2)] by auto
    then show ?thesis using d v(1) F unfolding data_ok_def by simp
  qed
qed

lemma run_fields_ok:
  "p + n \<le> length msg \<Longrightarrow> length db + sum_list (map (field_room n) fs) \<le> cap \<Longrightarrow> Rest \<notin> set fs \<Longrightarrow>
     data_ok msg (p + n) fs p db (run_fields cap msg fs (db, p, n))"
proof (induction fs arbitrary: db p n)
  case Nil
  then show ?case by (auto simp: data_ok_def no_junk_def)
next
  case (Cons f fs)
  show ?case unfolding run_fields.simps
  proof (rule data_ok_step [OF run_field_ok])
    fix v q assume v: "field_at msg (p + n) f p v q" "q \<le> p + n" "length (enc_val v) \<le> field_room n f"
    have room: "map (field_room (p + n - q)) fs = map (field_room n) fs"
    proof (rule map_cong [OF refl])
      fix g assume "g \<in> set fs"
      then have "g \<noteq> Rest" using Cons.prems(3) by auto
      then show "field_room (p + n - q) g = field_room n g" by (cases g rule: field.exhaust) auto
    qed
    show "data_ok msg (p + n) fs q (db @ enc_val v) (run_fields cap msg fs (db @ enc_val v, q, p + n - q))"
      using Cons.IH [of q "p + n - q" "db @ enc_val v"] Cons.prems v room by auto
  qed (use Cons.prems in auto)
qed

text \<open>A name and everything behind it.\<close>

lemma fields_at_Rest: "q \<le> e \<Longrightarrow> fields_at msg e [Rest] q vs \<longleftrightarrow> vs = [Raw (segment q (e - q) msg)]"
  by auto

lemma data_ok_default:
  "p + n \<le> length msg \<Longrightarrow> data_ok msg (p + n) [Rest] p [] (rdata_default msg p n)"
  by (simp add: data_ok_def rdata_default_def)

lemma data_ok_Bytes_Rest:
  "p + n \<le> length msg \<Longrightarrow> k \<le> n \<Longrightarrow> data_ok msg (p + n) [Bytes k, Rest] p [] (rdata_default msg p n)"
  by (auto simp: data_ok_def rdata_default_def segment_append)

lemma segment_three:
  "j + k \<le> n \<Longrightarrow> segment p j msg @ segment (p + j) k msg @ segment (p + j + k) (n - j - k) msg = segment p n msg"
  using segment_append [of "p + j" k msg "n - j - k"] segment_append [of p j msg "n - j"] by (simp add: add.assoc)

lemma data_ok_Bytes2_Rest:
  assumes "p + n \<le> length msg"
  shows "data_ok msg (p + n) [Bytes j, Bytes k, Rest] p [] (if n < j + k then format_error else rdata_default msg p n)"
proof (cases "n < j + k")
  case True
  then show ?thesis by (auto simp: data_ok_def)
next
  case False
  then have "segment p j msg @ segment (p + j) k msg @ segment (p + j + k) (n - j - k) msg = segment p n msg"
    by (intro segment_three) linarith
  then show ?thesis using False assms by (auto simp: data_ok_def rdata_default_def)
qed

lemma data_ok_prefix:
  assumes "data_ok msg (p + n) fs (p + k) [] r" "k \<le> n"
  shows "data_ok msg (p + n) (Bytes k # fs) p [] (and_then r (\<lambda>d. Some (Inr (segment p k msg @ d))))"
proof -
  have first: "fields_at msg (p + n) (Bytes k # fs) p vs \<longleftrightarrow>
      (\<exists>ws. vs = Raw (segment p k msg) # ws \<and> fields_at msg (p + n) fs (p + k) ws)" for vs
    using assms(2) by auto
  from assms(1) consider "r = format_error" "\<nexists>vs. fields_at msg (p + n) fs (p + k) vs"
    | vs where "r = Some (Inr (enc_vals vs))" "fields_at msg (p + n) fs (p + k) vs"
    unfolding data_ok_def by auto
  then show ?thesis
  proof cases
    case 1
    then show ?thesis unfolding data_ok_def first by simp
  next
    case (2 vs)
    then have "and_then r (\<lambda>d. Some (Inr (segment p k msg @ d))) = Some (Inr ([] @ enc_vals (Raw (segment p k msg) # vs)))" by simp
    then show ?thesis unfolding data_ok_def first using 2(2) by blast
  qed
qed

lemma unpacked_ok:
  assumes "p + n \<le> length msg" "k \<le> n" "buf"
  shows "data_ok msg (p + n) [Bytes k, Name, Rest] p [] (rdata_unpacked buf k msg p n)"
proof -
  let ?p = "p + k" and ?n = "n - k"
  have e: "?p + ?n = p + n" using assms by simp
  have len: "min ?n DNSNAMEBUFSIZE \<le> length (drop ?p msg)" using assms by simp
  note norm = isnormalencdomname_iff [OF len]
  have first: "fields_at msg (p + n) [Bytes k, Name, Rest] p vs \<longleftrightarrow>
      (\<exists>ws. vs = Raw (segment p k msg) # ws \<and> fields_at msg (p + n) [Name, Rest] ?p ws)" for vs
    using assms(2) by (auto simp del: field_at.simps(2-))
  show ?thesis
  proof (cases "name_within (drop ?p msg) (min ?n DNSNAMEBUFSIZE)")
    case True
    then obtain ls rest where ls: "labels_ok ls" "drop ?p msg = enc_name ls @ rest" "length (enc_name ls) \<le> min ?n DNSNAMEBUFSIZE"
      unfolding name_within_def by blast
    let ?q = "?p + length (enc_name ls)"
    have msg: "msg = take ?p msg @ enc_name ls @ rest" "length (take ?p msg) = ?p"
      using assms ls(2) by (auto simp flip: ls(2))
    have "name_at msg ?p ls 0" "name_span msg ?p (length (enc_name ls))"
      using name_at_enc [OF ls(1), of "take ?p msg" rest] msg by auto
    then have "field_at msg (p + n) Name ?p (Nm ls) ?q"
      using ls assms by (auto simp: name_ok_def)
    then have "fields_at msg (p + n) [Bytes k, Name, Rest] p [Raw (segment p k msg), Nm ls, Raw (segment ?q (p + n - ?q) msg)]"
      unfolding first using ls(3) assms(2) by (auto simp del: field_at.simps(3) intro!: exI [of _ ?q])
    moreover have "segment ?p (length (enc_name ls)) msg = enc_name ls" using ls(2) by (simp add: segment_def)
    then have "enc_vals [Raw (segment p k msg), Nm ls, Raw (segment ?q (p + n - ?q) msg)] = segment p n msg"
      using segment_three [of k "length (enc_name ls)" n p msg] ls(3) assms(2) by (simp add: le_diff_conv2 add.commute)
    moreover have "rdata_unpacked buf k msg p n = Some (Inr (segment p n msg))"
      using norm True assms by (simp add: rdata_unpacked_def rdata_default_def Let_def)
    ultimately show ?thesis unfolding data_ok_def by (metis append_Nil)
  next
    case False
    have "read_ok msg (p + n) Name ?p DNSNAMEBUFSIZE [] (copy_name DNSNAMEBUFSIZE msg ([], ?p, ?n))"
      using copy_name_ok [of ?p ?n msg "[]" DNSNAMEBUFSIZE] assms by simp
    then have "data_ok msg (p + n) [Name, Rest] ?p [] (and_then (copy_name DNSNAMEBUFSIZE msg ([], ?p, ?n))
        (\<lambda>(nmbuf, bptr, blcnt). and_then (rdata_default msg bptr blcnt) (\<lambda>rest. Some (Inr (nmbuf @ rest)))))"
      by (rule data_ok_step) (use assms in \<open>auto simp: data_ok_def rdata_default_def\<close>)
    moreover have "rdata_unpacked buf k msg p n = and_then (and_then (copy_name DNSNAMEBUFSIZE msg ([], ?p, ?n))
        (\<lambda>(nmbuf, bptr, blcnt). and_then (rdata_default msg bptr blcnt) (\<lambda>rest. Some (Inr (nmbuf @ rest)))))
        (\<lambda>d. Some (Inr (segment p k msg @ d)))"
      using norm False assms by (auto simp: rdata_unpacked_def rdata_default_def Let_def and_then_def split: option.splits sum.splits)
    ultimately show ?thesis using data_ok_prefix assms(2) by simp
  qed
qed

lemma nxt_ok:
  assumes "p + n \<le> length msg"
  shows "(\<exists>vs. rdata_nxt msg p n = Some (Inr (enc_vals vs)) \<and> fields_at msg (p + n) [Name, Rest] p vs \<and>
      length (enc_vals vs) \<le> 1040) \<or>
    rdata_nxt msg p n = format_error \<and> (\<nexists>vs. fields_at msg (p + n) [Name, Rest] p vs \<and> length (enc_vals vs) \<le> 1040)"
proof -
  have r: "read_ok msg (p + n) Name p DNSNAMEBUFSIZE [] (copy_name 1040 msg ([], p, n))"
    by (rule copy_name_ok [OF assms]) simp
  show ?thesis
  proof (cases "copy_name 1040 msg ([], p, n) = format_error")
    case True
    then have "\<nexists>v q. field_at msg (p + n) Name p v q" using r unfolding read_ok_def by auto
    then show ?thesis using True by (auto simp: rdata_nxt_def simp del: field_at.simps)
  next
    case False
    then obtain v q where v: "copy_name 1040 msg ([], p, n) = Some (Inr (enc_val v, q, p + n - q))"
        "field_at msg (p + n) Name p v q" "q \<le> p + n"
      using r unfolding read_ok_def by (auto simp del: field_at.simps)
    have "fields_at msg (p + n) [Name, Rest] p [v, Raw (segment q (p + n - q) msg)]"
      using v(2,3) by (auto simp del: field_at.simps(3) intro!: exI [of _ q])
    then have f: "fields_at msg (p + n) [Name, Rest] p vs \<longleftrightarrow> vs = [v, Raw (segment q (p + n - q) msg)]" for vs
      using fields_unique by blast
    have "length (segment q (p + n - q) msg) = p + n - q" using v(3) assms by (simp add: length_segment)
    moreover have "rdata_nxt msg p n = (if length (enc_val v) + (p + n - q) > 1040 then format_error
        else Some (Inr (enc_val v @ segment q (p + n - q) msg)))"
      using v assms by (simp add: rdata_nxt_def copy_bytes_def no_junk_def)
    ultimately show ?thesis unfolding f by auto
  qed
qed

text \<open>The loop over the strings of a NAPTR record is a run of string fields.\<close>

lemma naptr_len_bounds:
  "naptr_len j msg p n len = Some (Inr l) \<Longrightarrow> len \<le> l \<and> l \<le> len + j * 256"
proof (induction j msg p n len rule: naptr_len.induct)
  case (2 j msg p n len)
  then show ?case using byte_room [of "msg ! (p + len)"] by (auto split: if_splits)
qed simp

lemma and_then_cong: "(\<And>x. r = Some (Inr x) \<Longrightarrow> f x = g x) \<Longrightarrow> and_then r f = and_then r g"
  by (auto simp: and_then_def split: option.splits sum.splits)

lemma naptr_strings:
  assumes "p + n \<le> length msg" "length db + j * 256 \<le> cap" "len \<le> n"
  shows "run_fields cap msg (replicate j Str @ fs) (db, p + len, n - len) =
    and_then (naptr_len j msg p n len) (\<lambda>len'.
      if n < len' then format_error
      else run_fields cap msg fs (db @ segment (p + len) (len' - len) msg, p + len', n - len'))"
  using assms(2,3)
proof (induction j arbitrary: db len)
  case 0
  then show ?case by (simp add: segment_def)
next
  case (Suc j)
  define b where "b = unat (msg ! (p + len)) + 1"
  have b: "length db + b \<le> cap" "length db + b + j * 256 \<le> cap" using Suc.prems byte_room [of "msg ! (p + len)"] by (simp_all add: b_def)
  show ?case
  proof (cases "len < n")
    case True
    have step: "naptr_len (Suc j) msg p n len = naptr_len j msg p n (len + b)" using True assms(1) by (simp add: b_def)
    have field: "run_field cap msg Str (db, p + len, n - len) =
        (if n - len < b then format_error else Some (Inr (db @ segment (p + len) b msg, p + (len + b), n - (len + b))))"
      using True assms(1) copy_bytes_ok [OF _ b(1), of "p + len" "n - len" msg] by (simp add: b_def add.assoc)
    show ?thesis
    proof (cases "n - len < b")
      case True
      then have stop: "and_then (naptr_len j msg p n (len + b)) (\<lambda>len'. if n < len' then format_error else g len') = format_error" for g
        by (cases j) auto
      show ?thesis unfolding step stop using True by (simp add: field del: naptr_len.simps run_field.simps)
    next
      case False
      then have "len + b \<le> n" "length (db @ segment (p + len) b msg) + j * 256 \<le> cap"
        using b(2) assms(1) \<open>len < n\<close> by (auto simp: segment_def)
      note IH = Suc.IH [OF this(2,1)]
      have join: "segment (p + len) b msg @ segment (p + (len + b)) (l - (len + b)) msg = segment (p + len) (l - len) msg"
        if "naptr_len j msg p n (len + b) = Some (Inr l)" for l
        using naptr_len_bounds [OF that] segment_append [of "p + len" b msg "l - (len + b)"] by (simp add: add.assoc)
      show ?thesis unfolding step using False IH join
        by (auto simp: field and_then_def simp del: naptr_len.simps run_field.simps split: option.splits sum.splits)
    qed
  next
    case False
    then show ?thesis using Suc.prems by simp
  qed
qed

lemma rdata_run:
  "rdata_name msg p n = run_fields DNSNAMEBUFSIZE msg [Name] ([], p, n)"
  "rdata_minfo msg p n = run_fields (DNSNAMEBUFSIZE + DNSNAMEBUFSIZE) msg [Name, Name] ([], p, n)"
  "rdata_mx msg p n = run_fields (2 + DNSNAMEBUFSIZE) msg [Bytes 2, Name] ([], p, n)"
  "rdata_soa msg p n = run_fields (DNSNAMEBUFSIZE + DNSNAMEBUFSIZE + 20) msg [Name, Name, Bytes 20] ([], p, n)"
  "rdata_px msg p n = run_fields (2 + DNSNAMEBUFSIZE + DNSNAMEBUFSIZE) msg [Bytes 2, Name, Name] ([], p, n)"
  "rdata_srv msg p n = run_fields (6 + DNSNAMEBUFSIZE) msg [Bytes 6, Name] ([], p, n)"
  by (simp_all add: rdata_name_def rdata_minfo_def rdata_mx_def rdata_soa_def rdata_px_def rdata_srv_def Let_def and_then_assoc
      run_fields_eta)

lemma naptr_run:
  assumes "p + n \<le> length msg"
  shows "rdata_naptr msg p n = run_fields 1028 msg [Bytes 4, Str, Str, Str, Name] ([], p, n)"
proof (cases "n < 4")
  case True
  then show ?thesis using assms by (simp add: rdata_naptr_def copy_bytes_def Let_def eval_nat_numeral)
next
  case False
  let ?db = "segment p 4 msg"
  have db: "length ?db = 4" using False assms by (simp add: length_segment)
  have "run_fields 1028 msg [Bytes 4, Str, Str, Str, Name] ([], p, n) =
      run_fields 1028 msg (replicate 3 Str @ [Name]) (?db, p + 4, n - 4)"
    using False assms by (simp add: copy_bytes_def eval_nat_numeral)
  also have "\<dots> = and_then (naptr_len 3 msg p n 4) (\<lambda>len. if n < len then format_error
      else run_fields 1028 msg [Name] (?db @ segment (p + 4) (len - 4) msg, p + len, n - len))"
    by (rule naptr_strings [OF assms]) (use db False in simp_all)
  also have "\<dots> = rdata_naptr msg p n"
    unfolding rdata_naptr_def Let_def
  proof (rule and_then_cong)
    fix len assume "naptr_len 3 msg p n 4 = Some (Inr len)"
    then have "4 \<le> len" "len \<le> 1028" using naptr_len_bounds [of 3 msg p n 4 len] by simp_all
    moreover have "?db @ segment (p + 4) (len - 4) msg = segment p len msg"
      using segment_append [of p 4 msg "len - 4"] calculation(1) by simp
    ultimately show "(if n < len then format_error
        else run_fields 1028 msg [Name] (?db @ segment (p + 4) (len - 4) msg, p + len, n - len)) =
      and_then (and_then (copy_bytes (4 + 3 * 256 + DNSNAMEBUFSIZE) msg len ([], p, n))
        (copy_name (4 + 3 * 256 + DNSNAMEBUFSIZE) msg)) no_junk"
      using copy_bytes_ok [OF assms, of "[]" len 1028] by (simp add: run_fields_eta)
  qed
  finally show ?thesis by simp
qed

text \<open>So the data is read as the layout of the type says, and for NXT only if it fits the buffer.\<close>

definition layout_at :: "byte list \<Rightarrow> nat \<Rightarrow> nat \<Rightarrow> nat \<Rightarrow> fval list \<Rightarrow> bool" where
  "layout_at msg tp p n vs \<longleftrightarrow>
     (\<exists>fs. rr_layout tp (segment p n msg) = Some fs \<and> fields_at msg (p + n) fs p vs) \<and>
     (tp = T_NXT \<longrightarrow> length (enc_vals vs) \<le> 1040)"

lemma data_ok_short: "n < k \<Longrightarrow> data_ok msg (p + n) (Bytes k # fs) p [] format_error"
  by (auto simp: data_ok_def)

lemma data_ok_no_bytes:
  assumes "data_ok msg (p + n) (Bytes 0 # fs) p [] r"
  shows "data_ok msg (p + n) fs p [] r"
proof -
  have z: "fields_at msg (p + n) (Bytes 0 # fs) p vs \<longleftrightarrow> (\<exists>ws. vs = Raw [] # ws \<and> fields_at msg (p + n) fs p ws)" for vs
    by (auto simp: segment_def)
  from assms show ?thesis unfolding data_ok_def z by auto
qed

lemma record_data_data_ok:
  assumes "p + n \<le> length msg" "rr_layout tp (segment p n msg) = Some fs" "tp \<noteq> T_NXT"
  shows "data_ok msg (p + n) fs p [] (record_data True msg tp p n)"
proof -
  note run = run_fields_ok [OF assms(1), of "[]"]
  have gw: "segment p n msg ! 1 = msg ! (p + 1)" if "\<not> n < 3" using that assms(1) by (simp add: segment_def)
  have fixed: "data_ok msg (p + n) [Bytes k] p [] (if n \<noteq> k then format_error else rdata_default msg p n)" for k
    using assms(1) by (auto simp: data_ok_def rdata_default_def)
  note unp = unpacked_ok [OF assms(1) _ TrueI]
  consider "tp = T_A" | "tp \<in> {T_CNAME, T_MB, T_MD, T_MF, T_MG, T_MR, T_NS, T_PTR}" | "tp \<in> {T_MINFO, T_RP}"
    | "tp \<in> {T_MX, T_AFSDB, T_RT, T_KX}" | "tp = T_SOA" | "tp = T_AAAA" | "tp = T_PX" | "tp = T_SRV" | "tp = T_NAPTR"
    | "tp = T_IPSECKEY" | "tp = T_RRSIG" | "tp = T_NSEC"
    | "tp \<notin> {1, 2, 3, 4, 5, 6, 7, 8, 9, 12, 14, 15, 17, 18, 21, 26, 28, 30, 33, 35, 36, 45, 46, 47}"
    using assms(3) by auto
  then show ?thesis
  proof cases
    case 1
    then show ?thesis using assms(2) fixed [of 4] by (simp add: rr_layout_def record_data_def)
  next
    case 6
    then show ?thesis using assms(2) fixed [of 16] by (simp add: rr_layout_def record_data_def)
  next
    case 10
    then have n: "\<not> n < 3" using assms by (auto simp: rr_layout_def length_segment split: if_splits)
    then show ?thesis using 10 assms(1,2) gw unp [of 3] data_ok_Bytes_Rest [OF assms(1), of 3]
        data_ok_Bytes2_Rest [OF assms(1), of 3 4] data_ok_Bytes2_Rest [OF assms(1), of 3 16]
      by (auto simp: rr_layout_def record_data_def rdata_ipseckey_def length_segment less_diff_conv split: if_splits)
  next
    case 11
    then show ?thesis using assms(2) data_ok_short [of n 18 msg p "[Name, Rest]"] unp [of 18]
      by (auto simp: rr_layout_def record_data_def rdata_rrsig_def)
  next
    case 12
    then show ?thesis using assms(2) data_ok_no_bytes unp [of 0] by (simp add: rr_layout_def record_data_def rdata_nsec_def)
  next
    case 13
    then show ?thesis using assms(2) data_ok_default [OF assms(1)] by (auto simp: rr_layout_def record_data_def)
  qed (use assms(1,2) run fixed in \<open>auto simp: rr_layout_def record_data_def rdata_run naptr_run simp del: run_fields.simps\<close>)
qed

lemma layout_none:
  assumes "p + n \<le> length msg" "rr_layout tp (segment p n msg) = None"
  shows "record_data buf msg tp p n = format_error"
  using assms
  by (auto simp: rr_layout_def record_data_def rdata_ipseckey_def length_segment segment_def Let_def split: if_splits)

text \<open>
  With memory for \<open>rbuf\<close>, reading the data succeeds exactly for data of the type's layout, and is a format error
  otherwise.
\<close>

lemma record_data_cases:
  assumes "p + n \<le> length msg"
  obtains (data) vs where "record_data True msg tp p n = Some (Inr (enc_vals vs))" "layout_at msg tp p n vs"
    | (bad) "record_data True msg tp p n = format_error" "\<nexists>vs. layout_at msg tp p n vs"
proof (cases "rr_layout tp (segment p n msg)")
  case None
  then show ?thesis using bad layout_none [OF assms] by (simp add: layout_at_def)
next
  case (Some fs)
  show ?thesis
  proof (cases "tp = T_NXT")
    case True
    then have "fs = [Name, Rest]" "record_data True msg tp p n = rdata_nxt msg p n"
      using Some by (auto simp: rr_layout_def record_data_def)
    then show ?thesis using nxt_ok [OF assms] Some True data bad unfolding layout_at_def by (auto simp del: fields_at.simps)
  next
    case False
    then show ?thesis using record_data_data_ok [OF assms Some] data bad Some unfolding data_ok_def layout_at_def by auto
  qed
qed

lemma layout_at_unique: "layout_at msg tp p n vs \<Longrightarrow> layout_at msg tp p n ws \<Longrightarrow> ws = vs"
  unfolding layout_at_def using fields_unique by (metis option.inject)

lemma record_data_buf:
  "record_data buf msg tp p n = record_data True msg tp p n \<or> record_data buf msg tp p n = Some (Inl RC_FATALERR)"
proof (cases buf)
  case False
  have "rdata_unpacked False k msg p n = rdata_unpacked True k msg p n \<or> rdata_unpacked False k msg p n = Some (Inl RC_FATALERR)" for k
    by (auto simp: rdata_unpacked_def Let_def and_then_def split: option.splits bool.splits sum.splits prod.splits)
  then show ?thesis using False
    by (simp add: record_data_def rdata_ipseckey_def rdata_rrsig_def rdata_nsec_def Let_def)
qed simp

section \<open>A section of records\<close>

text \<open>The records an array of entries holds: for a name, without regard to case, and an index, a list.\<close>

type_synonym rr_view = "label list \<Rightarrow> nat \<Rightarrow> byte list list"

definition records :: "dns_cent \<Rightarrow> nat \<Rightarrow> byte list list" where
  "records c i = (if i < NRRTOT then rrs_at c i else [])"

definition view :: "dns_cent list \<Rightarrow> rr_view" where
  "view ca k i = (case map_of (map (\<lambda>c. (key_of c, c)) ca) k of None \<Rightarrow> [] | Some c \<Rightarrow> records c i)"

definition add_view :: "label list \<times> nat \<times> byte list \<Rightarrow> rr_view \<Rightarrow> rr_view" where
  "add_view = (\<lambda>(k, tp, d) vw.
     let i = rrlkuptab ! (tp - 1) in
     if d \<in> set (vw k i) then vw else vw(k := (vw k)(i := vw k i @ [d])))"

definition cents_ok :: "sizes \<Rightarrow> dns_cent list \<Rightarrow> bool" where
  "cents_ok sz ca \<longleftrightarrow>
     list_all (\<lambda>c. cent_ok sz c \<and> \<not> has_flag (ce_flags c) DF_LOCAL) ca \<and> distinct (map key_of ca)"

lemma cents_ok_Nil [simp]: "cents_ok sz []"
  by (simp add: cents_ok_def)

lemma find_cent_ok:
  assumes "cents_ok sz ca" "labels_ok ls"
  shows "case find_cent ca (enc_name ls @ rest) j of
      None \<Rightarrow> False
    | Some None \<Rightarrow> lower_name ls \<notin> key_of ` set ca
    | Some (Some i) \<Rightarrow> j \<le> i \<and> i - j < length ca \<and> key_of (ca ! (i - j)) = lower_name ls"
  using assms(1)
proof (induction ca arbitrary: j)
  case (Cons c ca)
  then obtain ms where "labels_ok ms" "qname c = enc_name ms" by (auto simp: cents_ok_def cent_ok_def dest: name_okD)
  then have cmp: "rhnicmp (qname c) (enc_name ls @ rest) = Some (key_of c = lower_name ls)"
    using rhnicmp_enc [of ms ls "[]" rest] assms(2) by (simp add: key_of_def)
  have "cents_ok sz ca" using Cons.prems by (simp add: cents_ok_def)
  note IH = Cons.IH [OF this, of "Suc j"]
  show ?case
  proof (cases "key_of c = lower_name ls")
    case False
    then have find: "find_cent (c # ca) (enc_name ls @ rest) j = find_cent ca (enc_name ls @ rest) (Suc j)" by (simp add: cmp)
    then show ?thesis using IH False by (auto split: option.splits simp: nth_Cons' Suc_le_eq)
  qed (simp add: cmp)
qed simp

lemma add_cent_rr_local:
  assumes "add_cent_rr sz mem c tp ttl ts flags data = Some (r, c')"
  shows "has_flag (ce_flags c') DF_LOCAL = has_flag (ce_flags c) DF_LOCAL"
proof -
  have pos: "has_flag (ce_flags (make_positive d)) DF_LOCAL = has_flag (ce_flags d) DF_LOCAL" for d
    by (simp add: make_positive_def has_flag_def DF_LOCAL_def DF_NEGATIVE_def and.assoc)
  have set: "has_flag (ce_flags c') DF_LOCAL = has_flag (ce_flags d) DF_LOCAL"
    if "add_cent_rrset_by_index sz mem d idx ttl ts flags = Some (r, c')" for d idx r c'
    using that by (auto simp: add_cent_rrset_by_index_def Let_def pos split: if_splits)
  have int: "has_flag (ce_flags c') DF_LOCAL = has_flag (ce_flags d) DF_LOCAL"
    if "add_cent_rr_int sz mem d idx ttl ts flags data rt = Some (r, c', t)" for d idx rt r c' t
    using that by (auto simp: add_cent_rr_int_def split: if_splits option.splits bool.splits dest!: set)
  show ?thesis using assms by (auto simp: add_cent_rr_def Let_def split: if_splits option.splits dest!: int)
qed

lemma view_nth: "distinct (map key_of ca) \<Longrightarrow> i < length ca \<Longrightarrow> view ca (key_of (ca ! i)) = records (ca ! i)"
proof -
  assume d: "distinct (map key_of ca)" "i < length ca"
  then have "map_of (map (\<lambda>c. (key_of c, c)) ca) (key_of (ca ! i)) = Some (ca ! i)"
    by (intro map_of_is_SomeI) (auto simp: comp_def)
  then show ?thesis by (simp add: view_def fun_eq_iff)
qed

lemma view_none: "k \<notin> key_of ` set ca \<Longrightarrow> view ca k = (\<lambda>_. [])"
proof -
  assume "k \<notin> key_of ` set ca"
  then have "map_of (map (\<lambda>c. (key_of c, c)) ca) k = None" by (auto simp: map_of_eq_None_iff)
  then show ?thesis by (simp add: view_def fun_eq_iff)
qed

lemma view_update:
  assumes "distinct (map key_of ca)" "i < length ca" "key_of c' = key_of (ca ! i)"
  shows "view (ca[i := c']) = (view ca)(key_of (ca ! i) := records c')"
proof (rule ext)
  fix k
  have keys: "map key_of (ca[i := c']) = map key_of ca"
    using assms by (simp add: map_update) (metis assms(2) list_update_id nth_map)
  then have d: "distinct (map key_of (ca[i := c']))" "key_of ` set (ca[i := c']) = key_of ` set ca"
    using assms(1) by (simp, metis list.set_map)
  show "view (ca[i := c']) k = ((view ca)(key_of (ca ! i) := records c')) k"
  proof (cases "k \<in> key_of ` set ca")
    case True
    then obtain j where j: "j < length ca" "k = key_of (ca ! j)" by (auto simp: in_set_conv_nth)
    then have "view (ca[i := c']) k = records (ca[i := c'] ! j)"
      using view_nth [OF d(1), of j] keys by (metis length_list_update nth_map)
    moreover have "key_of (ca ! j) = key_of (ca ! i) \<longleftrightarrow> j = i"
      using assms(1,2) j(1) by (metis distinct_conv_nth length_map nth_map)
    ultimately show ?thesis using j assms view_nth [OF assms(1) j(1)] by (auto simp: nth_list_update)
  next
    case False
    then show ?thesis using view_none [of k ca] view_none [of k "ca[i := c']"] d(2) assms(2) by auto
  qed
qed

lemma view_snoc:
  assumes "distinct (map key_of (ca @ [c]))"
  shows "view (ca @ [c]) = (view ca)(key_of c := records c)"
proof (rule ext)
  fix k
  have "map_of (map (\<lambda>c. (key_of c, c)) ca) (key_of c) = None" using assms by (auto simp: map_of_eq_None_iff)
  then show "view (ca @ [c]) k = ((view ca)(key_of c := records c)) k"
    by (cases "k = key_of c") (auto simp: view_def map_add_def fun_eq_iff split: option.splits)
qed

lemma not_cached_type: "\<not> not_cached_type tp \<longleftrightarrow> cacheable (int tp)"
  by (auto simp: not_cached_type_def cacheable_def nat_diff_distrib)

lemma add_cent_rr_view:
  assumes "cent_ok sz c" "\<not> has_flag (ce_flags c) DF_LOCAL" "\<not> not_cached_type tp"
  obtains r c' where "add_cent_rr sz mem c (int tp) ttl ts flags data = Some (r, c')"
    "cent_ok sz c'" "\<not> has_flag (ce_flags c') DF_LOCAL" "key_of c' = key_of c" "(\<forall>a. mem a) \<longrightarrow> r"
    "r \<Longrightarrow> vw k = records c \<Longrightarrow> vw(k := records c') = add_view (k, tp, data) vw"
proof -
  let ?i = "rrlkuptab ! (tp - 1)"
  have tp: "cacheable (int tp)" using assms(3) by (simp add: not_cached_type)
  have "nat (int tp - 1) = tp - 1" by linarith
  then have i: "rrlkuptab ! nat (int tp - 1) = ?i" "?i < NRRTOT" using tp by (simp_all add: cacheable_def)
  obtain r c' where c': "add_cent_rr sz mem c (int tp) ttl ts flags data = Some (r, c')"
    "cent_ok sz c'" "same_but ?i c c'" "(\<forall>a. mem a) \<longrightarrow> r"
    "rrs_at c' ?i = (if r \<and> data \<notin> set (rrs_at c ?i) then rrs_at c ?i @ [data] else rrs_at c ?i)"
    using add_cent_rr_ok [OF assms(1) tp, of mem ttl ts flags data, unfolded i(1)] assms(2) by auto
  have other: "records c' j = records c j" if "j \<noteq> ?i" for j
    using c'(3) that by (simp add: records_def rrs_at_def same_but_def)
  have here: "records c' ?i = (if r \<and> data \<notin> set (records c ?i) then records c ?i @ [data] else records c ?i)"
    using c'(5) i(2) by (simp add: records_def)
  have "vw(k := records c') = add_view (k, tp, data) vw" if "r" "vw k = records c"
  proof (cases "data \<in> set (records c ?i)")
    case True
    then have "records c' = records c" using other here by (metis ext)
    then show ?thesis using True that by (auto simp: add_view_def Let_def)
  next
    case False
    then have "records c' = (records c)(?i := records c ?i @ [data])" using other here that by (auto simp: fun_eq_iff)
    then show ?thesis using False that by (simp add: add_view_def Let_def)
  qed
  then show ?thesis using that [OF c'(1,2)] add_cent_rr_local [OF c'(1)] assms(2) c'(3,4) by (simp add: key_of_def same_but_def)
qed

lemma cents_okD: "cents_ok sz ca \<Longrightarrow> i < length ca \<Longrightarrow> cent_ok sz (ca ! i) \<and> \<not> has_flag (ce_flags (ca ! i)) DF_LOCAL"
  by (simp add: cents_ok_def list_all_length)

lemma cents_ok_update:
  assumes "cents_ok sz ca" "i < length ca" "cent_ok sz c" "\<not> has_flag (ce_flags c) DF_LOCAL" "key_of c = key_of (ca ! i)"
  shows "cents_ok sz (ca[i := c])"
proof -
  have "map key_of (ca[i := c]) = map key_of ca"
    using assms(2,5) by (simp add: map_update) (metis assms(2) list_update_id nth_map)
  then show ?thesis using assms by (simp add: cents_ok_def list_all_length nth_list_update)
qed

lemma rr_to_cache_ok:
  assumes ok: "cents_ok sz ca" and tp: "\<not> not_cached_type tp" and nm: "name_ok ls"
  obtains r ca' where "rr_to_cache sz al ca (enc_name ls) tp ttl data flags queryts = Some (r, ca')" "cents_ok sz ca'"
    "r = None \<Longrightarrow> view ca' = add_view (lower_name ls, tp, data) (view ca)"
    "al_grow al \<Longrightarrow> (\<forall>a. al_mem al a) \<Longrightarrow> r = None" "r = None \<or> r = Some RC_FATALERR"
proof -
  let ?nm = "enc_name ls"
  note find = find_cent_ok [OF ok name_okD [OF nm], where rest = "[]" and j = 0, unfolded append_Nil2]
  have d: "distinct (map key_of ca)" using ok by (simp add: cents_ok_def)
  obtain f where f: "find_cent ca ?nm 0 = Some f" using find by (cases "find_cent ca ?nm 0") auto
  show ?thesis
  proof (cases f)
    case (Some i)
    then have i: "i < length ca" "key_of (ca ! i) = lower_name ls" using find f by auto
    obtain r c' where c': "add_cent_rr sz (al_mem al) (ca ! i) (int tp) (uint ttl) queryts flags data = Some (r, c')"
      "cent_ok sz c'" "\<not> has_flag (ce_flags c') DF_LOCAL" "key_of c' = key_of (ca ! i)" "(\<forall>a. al_mem al a) \<longrightarrow> r"
      "r \<Longrightarrow> view ca (lower_name ls) = records (ca ! i) \<Longrightarrow>
         (view ca)(lower_name ls := records c') = add_view (lower_name ls, tp, data) (view ca)"
      by (rule add_cent_rr_view [where mem = "al_mem al" and ttl = "uint ttl" and ts = queryts and flags = flags
          and data = data and vw = "view ca" and k = "lower_name ls"])
        (use cents_okD [OF ok i(1)] tp in blast)+
    have "view (ca[i := c']) = add_view (lower_name ls, tp, data) (view ca)" if r
      using c'(6) [OF that] view_update [OF d i(1) c'(4)] view_nth [OF d i(1)] i(2) by simp
    then show ?thesis
      by (intro that [of "if r then None else Some RC_FATALERR" "ca[i := c']"])
        (use cents_ok_update [OF ok i(1) c'(2-4)] c'(1,5) f Some in \<open>auto simp: rr_to_cache_def split: if_splits\<close>)
  next
    case None
    then have new: "lower_name ls \<notin> key_of ` set ca" using find f by simp
    show ?thesis
    proof (cases "al_grow al \<and> al_mem al At_name")
      case False
      have "init_cent sz (al_mem al) ?nm 0 0 0 = Some None" if "\<not> al_mem al At_name"
        using that name_okD [OF nm] rhnlen_enc [of ls "[]"] by (simp add: init_cent_def)
      then show ?thesis
        by (intro that [of "Some RC_FATALERR" "if al_grow al then ca else []"])
          (use ok f None False in \<open>auto simp: rr_to_cache_def\<close>)
    next
      case True
      then obtain c where c: "init_cent sz (al_mem al) ?nm 0 0 0 = Some (Some c)" "cent_ok sz c" "qname c = ?nm"
        "\<And>i. i < NRRTOT \<Longrightarrow> rrarr_index c i = None" "ce_flags c = 0"
        using init_cent_ok [OF nm, of sz "al_mem al" "[]" 0 0 0] by auto
      have key: "key_of c = lower_name ls" using c(3) name_okD [OF nm] by (simp add: key_of_def)
      have "records c = (\<lambda>_. [])" using c(4) by (auto simp: records_def rrs_at_def fun_eq_iff)
      then have vw: "view ca (lower_name ls) = records c" using view_none [OF new] by simp
      have "\<not> has_flag (ce_flags c) DF_LOCAL" by (simp add: c(5) has_flag_def)
      then obtain r c' where c': "add_cent_rr sz (al_mem al) c (int tp) (uint ttl) queryts flags data = Some (r, c')"
        "cent_ok sz c'" "\<not> has_flag (ce_flags c') DF_LOCAL" "key_of c' = key_of c" "(\<forall>a. al_mem al a) \<longrightarrow> r"
        "r \<Longrightarrow> view ca (lower_name ls) = records c \<Longrightarrow>
           (view ca)(lower_name ls := records c') = add_view (lower_name ls, tp, data) (view ca)"
        by (rule add_cent_rr_view [OF c(2) _ tp, where mem = "al_mem al" and ttl = "uint ttl" and ts = queryts
            and flags = flags and data = data and vw = "view ca" and k = "lower_name ls"]) blast
      have d': "distinct (map key_of (ca @ [c']))" using d new c'(4) key by auto
      then have "cents_ok sz (ca @ [c'])" using ok c'(2,3) by (simp add: cents_ok_def)
      moreover have "view (ca @ [c']) = add_view (lower_name ls, tp, data) (view ca)" if r
        using c'(6) [OF that vw] view_snoc [OF d'] c'(4) key by simp
      ultimately show ?thesis
        by (intro that [of "if r then None else Some RC_FATALERR" "ca @ [c']"])
          (use c'(1,5) f None True c(1) in \<open>auto simp: rr_to_cache_def split: if_splits\<close>)
    qed
  qed
qed

text \<open>
  What a position of a message holds as a record: nothing that is cached (a type or class that is not, or an OPT
  record), or a name, a type and data. \<open>q\<close> is where the next one starts.
\<close>

type_synonym stored = "(label list \<times> nat \<times> byte list) option"

definition rr_at :: "byte list \<Rightarrow> nat \<Rightarrow> nat \<Rightarrow> stored \<Rightarrow> nat \<Rightarrow> bool" where
  "rr_at msg e p s q \<longleftrightarrow>
     (\<exists>ls h n. name_at msg p ls h \<and> h \<le> 255 \<and> name_ok ls \<and> name_span msg p n \<and>
        (let tp = unat (getint16 msg (p + n)); cls = getint16 msg (p + n + 2); len = unat (getint16 msg (p + n + 8));
             d = p + n + sizeof_rr_hdr_t in
         q = d + len \<and> q \<le> e \<and>
         (if not_cached_type tp \<or> cls \<noteq> C_IN then s = None
          else \<exists>vs. layout_at msg tp d len vs \<and> s = Some (lower_name ls, tp, enc_vals vs))))"

fun rrs_at_from :: "byte list \<Rightarrow> nat \<Rightarrow> nat \<Rightarrow> stored list \<Rightarrow> nat \<Rightarrow> bool" where
  "rrs_at_from msg e p [] q \<longleftrightarrow> q = p"
| "rrs_at_from msg e p (s # ss) q \<longleftrightarrow> (\<exists>p'. rr_at msg e p s p' \<and> rrs_at_from msg e p' ss q)"

definition add_stored :: "stored \<Rightarrow> rr_view \<Rightarrow> rr_view" where
  "add_stored s vw = (case s of None \<Rightarrow> vw | Some x \<Rightarrow> add_view x vw)"

lemma opt_not_cached: "not_cached_type T_OPT"
  by (simp add: not_cached_type_def rrlkuptab_def)

lemma name_span_unique:
  assumes "name_at msg p ls h" "h \<le> 255" "name_ok ls" "name_span msg p k"
    "name_at msg p ms i" "i \<le> 255" "name_ok ms" "name_span msg p j"
  shows "j = k"
  using name_field_unique [of msg "p + k + j" p "Nm ls" "p + k" "Nm ms" "p + j"] assms by auto

lemma rr_header_cases:
  assumes "p + n \<le> length msg"
  obtains (bad) e where "rr_header msg p n = Some (Inl e)" "\<nexists>s q. rr_at msg (p + n) p s q"
  | (good) ls h k where "name_at msg p ls h" "h \<le> 255" "name_ok ls" "name_span msg p k"
      "rr_header msg p n = Some (Inr (enc_name ls, getint16 msg (p + k), getint16 msg (p + k + 2), getint32 msg (p + k + 4),
         unat (getint16 msg (p + k + 8)), p + k + 10, n - k - 10))"
      "p + k + 10 + unat (getint16 msg (p + k + 8)) \<le> p + n"
proof (cases "\<exists>e. decompress_name msg p n = Some (Inl e)")
  case True
  then obtain e where e: "decompress_name msg p n = Some (Inl e)" by blast
  have "\<not> rr_at msg (p + n) p s q" for s q
  proof
    assume "rr_at msg (p + n) p s q"
    then obtain ls h k where "name_at msg p ls h" "h \<le> 255" "name_ok ls" "name_span msg p k" "k \<le> n"
      by (auto simp: rr_at_def Let_def)
    from decompress_name_complete [OF this] e show False by simp
  qed
  then show ?thesis using e bad by (auto simp: rr_header_def)
next
  case False
  then obtain ls h k where d: "decompress_name msg p n = Some (Inr (enc_name ls, n - k, length (enc_name ls)))"
    "name_at msg p ls h" "h \<le> 255" "name_ok ls" "name_span msg p k" "k \<le> n"
    using decompress_name_sound [of msg p n] by blast
  let ?len = "unat (getint16 msg (p + k + 8))"
  have step: "rr_header msg p n =
      (if n - k < 10 then Some (Inl (Dec RC_TRUNC))
       else if n - k - 10 < ?len then Some (Inl (Dec RC_TRUNC))
       else Some (Inr (enc_name ls, getint16 msg (p + k), getint16 msg (p + k + 2), getint32 msg (p + k + 4), ?len,
         p + k + 10, n - k - 10)))"
    using d(1,6) assms by (simp add: rr_header_def Let_def) linarith
  show ?thesis
  proof (cases "n - k < 10 \<or> n - k - 10 < ?len")
    case True
    have "\<not> rr_at msg (p + n) p s q" for s q
    proof
      assume "rr_at msg (p + n) p s q"
      then obtain ms i j where m: "name_at msg p ms i" "i \<le> 255" "name_ok ms" "name_span msg p j"
        "p + j + 10 + unat (getint16 msg (p + j + 8)) \<le> p + n" by (auto simp: rr_at_def Let_def)
      then have "j \<le> n" by linarith
      from decompress_name_complete [OF m(1-4) this] d(1,6) \<open>j \<le> n\<close> have "j = k" by auto
      show False using m(5) True unfolding \<open>j = k\<close> by linarith
    qed
    then show ?thesis using bad step True by auto
  next
    case False
    then have "p + k + 10 + ?len \<le> p + n" by linarith
    moreover have "rr_header msg p n = Some (Inr (enc_name ls, getint16 msg (p + k), getint16 msg (p + k + 2),
        getint32 msg (p + k + 4), ?len, p + k + 10, n - k - 10))" unfolding step using False by (simp del: diff_diff_left)
    ultimately show ?thesis by (rule good [OF d(2-5), rotated])
  qed
qed

lemma rr_at_next: "rr_at msg e p s q \<Longrightarrow> rr_at msg e p s' q' \<Longrightarrow> q = q'"
proof -
  assume a: "rr_at msg e p s q" "rr_at msg e p s' q'"
  obtain ls h k where l: "name_at msg p ls h" "h \<le> 255" "name_ok ls" "name_span msg p k"
    "q = p + k + 10 + unat (getint16 msg (p + k + 8))" using a(1) by (auto simp: rr_at_def Let_def)
  obtain ms i j where m: "name_at msg p ms i" "i \<le> 255" "name_ok ms" "name_span msg p j"
    "q' = p + j + 10 + unat (getint16 msg (p + j + 8))" using a(2) by (auto simp: rr_at_def Let_def)
  show ?thesis using name_span_unique [OF l(1-4) m(1-4)] l(5) m(5) by simp
qed

text \<open>One record: read exactly when there is one, and then put into the entries.\<close>

definition plenty :: alloc where
  "plenty = \<lparr>al_grow = True, al_mem = \<lambda>_. True, al_buf = True\<rparr>"

lemma rr2cent_ok:
  assumes len: "p + n \<le> length msg" "3 < length msg" and ok: "cents_ok sz (centa st)"
  obtains r st' where "rr2cent sz al msg flags queryts p n st = Some (r, st')" "cents_ok sz (centa st')"
    "\<And>p' n'. r = Inr (p', n') \<Longrightarrow> p' + n' = p + n \<and> p < p' \<and>
       (\<exists>s. rr_at msg (p + n) p s p' \<and> view (centa st') = add_stored s (view (centa st)))"
    "\<And>e. al = plenty \<Longrightarrow> r = Inl e \<Longrightarrow> \<nexists>s q. rr_at msg (p + n) p s q"
  using len(1)
proof (cases rule: rr_header_cases)
  case (bad e)
  then show ?thesis using that [of "Inl e" st] ok by (simp add: rr2cent_def)
next
  case (good ls h k)
  let ?tp = "getint16 msg (p + k)" and ?cls = "getint16 msg (p + k + 2)" and ?len = "unat (getint16 msg (p + k + 8))"
  let ?d = "p + k + 10"
  let ?after = "Inr (?d + ?len, n - k - 10 - ?len) :: rr_error + nat \<times> nat"
  have sum: "?d + ?len + (n - k - 10 - ?len) = p + n" using good(6) by linarith
  have skip: "rr_at msg (p + n) p None (?d + ?len)" if "not_cached_type (unat ?tp) \<or> ?cls \<noteq> C_IN"
    using good that unfolding rr_at_def Let_def by auto
  consider (opt) "unat ?tp = T_OPT" | (skip) "unat ?tp \<noteq> T_OPT" "not_cached_type (unat ?tp) \<or> ?cls \<noteq> C_IN"
    | (take) "\<not> not_cached_type (unat ?tp)" "?cls = C_IN" "unat ?tp \<noteq> T_OPT"
    using opt_not_cached by metis
  then show ?thesis
  proof cases
    case opt
    show ?thesis
      by (rule that [of ?after "take_opt msg ?cls (?d - 6) st"])
        (use opt good(5) len(2) ok sum skip opt_not_cached in \<open>auto simp: rr2cent_def Let_def take_opt_def add_stored_def intro!: exI [of _ None]\<close>)
  next
    case skip': skip
    show ?thesis
      by (rule that [of ?after st])
        (use skip' good(5) ok sum skip in \<open>auto simp: rr2cent_def Let_def add_stored_def intro!: exI [of _ None]\<close>)
  next
    case take
    have room: "?d + ?len \<le> length msg" using good(6) len(1) by linarith
    have none: "\<nexists>s q. rr_at msg (p + n) p s q" if "\<nexists>vs. layout_at msg (unat ?tp) ?d ?len vs"
    proof
      assume "\<exists>s q. rr_at msg (p + n) p s q"
      then obtain s q where "rr_at msg (p + n) p s q" by blast
      then obtain ms i j where m: "name_at msg p ms i" "i \<le> 255" "name_ok ms" "name_span msg p j"
        "not_cached_type (unat (getint16 msg (p + j))) \<or> getint16 msg (p + j + 2) \<noteq> C_IN \<or>
           (\<exists>vs. layout_at msg (unat (getint16 msg (p + j))) (p + j + 10) (unat (getint16 msg (p + j + 8))) vs)"
        unfolding rr_at_def Let_def by (metis (no_types, lifting))
      then have "j = k" using name_span_unique [OF good(1-4)] by blast
      then show False using m(5) that take by simp
    qed
    show ?thesis
    proof (cases "record_data (al_buf al) msg (unat ?tp) ?d ?len = Some (Inl RC_FATALERR)")
      case True
      have "record_data True msg (unat ?tp) ?d ?len \<noteq> Some (Inl RC_FATALERR)"
        by (rule record_data_cases [OF room, of "unat ?tp"]) simp_all
      then have "al \<noteq> plenty" using True by (auto simp: plenty_def)
      then show ?thesis
        by (intro that [of "Inl RC_FATALERR" st]) (use take good(5) ok True in \<open>auto simp: rr2cent_def\<close>)
    next
      case False
      then have same: "record_data (al_buf al) msg (unat ?tp) ?d ?len = record_data True msg (unat ?tp) ?d ?len"
        using record_data_buf by blast
      from room show ?thesis
      proof (cases rule: record_data_cases [of _ _ _ "unat ?tp"])
        case bad
        then show ?thesis
          by (intro that [of "Inl (Dec RC_FORMAT)" st]) (use take good(5) ok same none in \<open>auto simp: rr2cent_def\<close>)
      next
        case (data vs)
        obtain r ca where c: "rr_to_cache sz al (centa st) (enc_name ls) (unat ?tp) (getint32 msg (p + k + 4)) (enc_vals vs) flags queryts =
            Some (r, ca)" "cents_ok sz ca" "r = None \<Longrightarrow> view ca = add_view (lower_name ls, unat ?tp, enc_vals vs) (view (centa st))"
            "al_grow al \<Longrightarrow> (\<forall>a. al_mem al a) \<Longrightarrow> r = None" "r = None \<or> r = Some RC_FATALERR"
          by (rule rr_to_cache_ok [OF ok take(1) good(3), of al "getint32 msg (p + k + 4)" "enc_vals vs" flags queryts]) blast
        have rr: "rr_at msg (p + n) p (Some (lower_name ls, unat ?tp, enc_vals vs)) (?d + ?len)"
          unfolding rr_at_def Let_def using good(1-4,6) take data(2) by auto
        have eq: "rr2cent sz al msg flags queryts p n st =
            Some (case r of None \<Rightarrow> ?after | Some e \<Rightarrow> Inl e, st\<lparr>centa := ca\<rparr>)"
          using c(1) take good(5) data(1) same by (simp add: rr2cent_def Let_def split: option.splits)
        show ?thesis
        proof (cases r)
          case None
          then have vw: "view (centa (st\<lparr>centa := ca\<rparr>)) =
              add_stored (Some (lower_name ls, unat ?tp, enc_vals vs)) (view (centa st))"
            using c(3) by (simp add: add_stored_def)
          have "rr2cent sz al msg flags queryts p n st = Some (?after, st\<lparr>centa := ca\<rparr>)" using eq None by simp
          then show ?thesis
          proof (rule that)
            fix p' n' assume "?after = Inr (p', n')"
            then have "p' = ?d + ?len" "n' = n - k - 10 - ?len" by blast+
            then show "p' + n' = p + n \<and> p < p' \<and>
              (\<exists>s. rr_at msg (p + n) p s p' \<and> view (centa (st\<lparr>centa := ca\<rparr>)) = add_stored s (view (centa st)))"
              using sum rr vw by auto
          qed (use c(2) in simp_all)
        next
          case (Some e)
          then have "al \<noteq> plenty" using c(4) by (auto simp: plenty_def)
          then show ?thesis using that [OF eq] c(2) Some by simp
        qed
      qed
    qed
  qed
qed

lemma rrs2cent_ok:
  assumes "p + n \<le> length msg" "3 < length msg" "cents_ok sz (centa st)"
  shows "\<exists>r st'. rrs2cent sz al msg flags queryts p n recnum st = Some (r, st') \<and> cents_ok sz (centa st') \<and>
    (case r of
       Inr (p', n') \<Rightarrow> p' + n' = p + n \<and> p \<le> p' \<and>
         (\<exists>ss. length ss = recnum \<and> rrs_at_from msg (p + n) p ss p' \<and>
            view (centa st') = fold add_stored ss (view (centa st)))
     | Inl e \<Rightarrow> (\<forall>i. al i = plenty) \<longrightarrow> (\<nexists>ss q. length ss = recnum \<and> rrs_at_from msg (p + n) p ss q))"
  using assms
proof (induction recnum arbitrary: p n st)
  case 0
  then show ?case by simp
next
  case (Suc recnum)
  obtain r st1 where one: "rr2cent sz (al recnum) msg flags queryts p n st = Some (r, st1)" "cents_ok sz (centa st1)"
    "\<And>p' n'. r = Inr (p', n') \<Longrightarrow> p' + n' = p + n \<and> p < p' \<and>
       (\<exists>s. rr_at msg (p + n) p s p' \<and> view (centa st1) = add_stored s (view (centa st)))"
    "\<And>e. al recnum = plenty \<Longrightarrow> r = Inl e \<Longrightarrow> \<nexists>s q. rr_at msg (p + n) p s q"
    by (rule rr2cent_ok [OF Suc.prems, of "al recnum" flags queryts]) blast
  show ?case
  proof (cases r)
    case (Inl e)
    have "\<nexists>ss q. length ss = Suc recnum \<and> rrs_at_from msg (p + n) p ss q" if "\<forall>i. al i = plenty"
      using one(4) [OF _ Inl] that by (auto simp: length_Suc_conv)
    then show ?thesis using one(1,2) Inl by auto
  next
    case (Inr x)
    then obtain p1 n1 where x: "r = Inr (p1, n1)" by (cases x) simp
    then obtain s where s: "p1 + n1 = p + n" "p < p1" "rr_at msg (p + n) p s p1"
      "view (centa st1) = add_stored s (view (centa st))" using one(3) by blast
    have "p1 + n1 \<le> length msg" using s(1) Suc.prems(1) by simp
    from Suc.IH [OF this Suc.prems(2) one(2), unfolded s(1)] obtain r' st' where
      rest: "rrs2cent sz al msg flags queryts p1 n1 recnum st1 = Some (r', st')" "cents_ok sz (centa st')"
      "case r' of
         Inr (p', n') \<Rightarrow> p' + n' = p + n \<and> p1 \<le> p' \<and>
           (\<exists>ss. length ss = recnum \<and> rrs_at_from msg (p + n) p1 ss p' \<and>
              view (centa st') = fold add_stored ss (view (centa st1)))
       | Inl e \<Rightarrow> (\<forall>i. al i = plenty) \<longrightarrow> (\<nexists>ss q. length ss = recnum \<and> rrs_at_from msg (p + n) p1 ss q)" by blast
    have eq: "rrs2cent sz al msg flags queryts p n (Suc recnum) st = Some (r', st')" using one(1) x rest(1) by simp
    show ?thesis
    proof (cases r')
      case (Inr y)
      then obtain p' n' where y: "r' = Inr (p', n')" by (cases y) simp
      then obtain ss where ss: "p' + n' = p + n" "p1 \<le> p'" "length ss = recnum" "rrs_at_from msg (p + n) p1 ss p'"
        "view (centa st') = fold add_stored ss (view (centa st1))" using rest(3) by auto
      have "rrs_at_from msg (p + n) p (s # ss) p'" "length (s # ss) = Suc recnum"
        "view (centa st') = fold add_stored (s # ss) (view (centa st))"
        using s ss by auto
      then have "\<exists>ts. length ts = Suc recnum \<and> rrs_at_from msg (p + n) p ts p' \<and>
          view (centa st') = fold add_stored ts (view (centa st))" by blast
      then show ?thesis using eq rest(2) y ss(1,2) s(2) by (intro exI [of _ r'] exI [of _ st']) simp
    next
      case (Inl e)
      have "\<nexists>ss q. length ss = Suc recnum \<and> rrs_at_from msg (p + n) p ss q" if all: "\<forall>i. al i = plenty"
      proof
        assume "\<exists>ss q. length ss = Suc recnum \<and> rrs_at_from msg (p + n) p ss q"
        then obtain t ts q p2 where t: "length ts = recnum" "rr_at msg (p + n) p t p2" "rrs_at_from msg (p + n) p2 ts q"
          by (auto simp: length_Suc_conv)
        have "p2 = p1" using rr_at_next [OF t(2) s(3)] by simp
        then show False using rest(3) t all Inl by auto
      qed
      then show ?thesis using eq rest(2) Inl by auto
    qed
  qed
qed

section \<open>Claims\<close>

text \<open>C8. The data of a record that lies within the message is accepted exactly when it has the layout of its type,
  whichever of the twelve layouts that is, and the result is the fields with all names decompressed; everything
  else is a format error, never an access outside the message or a buffer.\<close>

theorem record_data_exact:
  assumes "p + n \<le> length msg"
  shows "(record_data True msg tp p n = Some (Inr d) \<longleftrightarrow> (\<exists>vs. layout_at msg tp p n vs \<and> d = enc_vals vs)) \<and>
    (record_data True msg tp p n = Some (Inl (Dec RC_FORMAT)) \<longleftrightarrow> (\<nexists>vs. layout_at msg tp p n vs))"
proof (cases rule: record_data_cases [OF assms, of tp])
  case (1 vs)
  then have "layout_at msg tp p n ws \<longleftrightarrow> ws = vs" for ws using layout_at_unique by blast
  then show ?thesis using 1(1) by auto
next
  case 2
  then show ?thesis by simp
qed

definition ex_msg :: "byte list" where
  "ex_msg = replicate 12 0 @ [1, 97, 0] @ [0, 15, 0, 1, 0, 0, 1, 44, 0, 6] @ [0, 10, 1, 98, 0xc0, 12]"

theorem record_data_exact_witness:
  "record_data True ex_msg T_MX 25 6 = Some (Inr [0, 10, 1, 98, 1, 97, 0]) \<and>
   (\<exists>vs. layout_at ex_msg T_MX 25 6 vs \<and> enc_vals vs = [0, 10, 1, 98, 1, 97, 0])"
proof -
  have "record_data True ex_msg T_MX 25 6 = Some (Inr [0, 10, 1, 98, 1, 97, 0])" by code_simp
  then show ?thesis using record_data_exact [of 25 6 ex_msg T_MX "[0, 10, 1, 98, 1, 97, 0]"] by (auto simp: ex_msg_def)
qed

text \<open>C7. Reading a section of records from any bytes, whatever allocations fail, stays within the message and
  leaves well-formed entries with distinct names. If it succeeds, the section is a sequence of records as the
  message format defines them, and the entries hold for each name, without regard to case, and type exactly the
  records they held before and those of the section, each once and in order; if it fails although memory is
  plenty, the section is no such sequence.\<close>

theorem rrs2cent_reads_section:
  assumes "p + n \<le> length msg" "3 < length msg" "cents_ok sz (centa st)"
  shows "\<exists>r st'. rrs2cent sz al msg flags queryts p n recnum st = Some (r, st') \<and> cents_ok sz (centa st') \<and>
    (case r of
       Inr (p', n') \<Rightarrow> p' + n' = p + n \<and> p \<le> p' \<and>
         (\<exists>ss. length ss = recnum \<and> rrs_at_from msg (p + n) p ss p' \<and>
            view (centa st') = fold add_stored ss (view (centa st)))
     | Inl e \<Rightarrow> (\<forall>i. al i = plenty) \<longrightarrow> (\<nexists>ss q. length ss = recnum \<and> rrs_at_from msg (p + n) p ss q))"
  using assms by (rule rrs2cent_ok)

definition ex_state :: rr_state where
  "ex_state = \<lparr>centa = [], numopt = 0,
     edns = \<lparr>ei_udpsize = 0, ei_rcode = 0, ei_version = 0, ei_do_flg = 0\<rparr>\<rparr>"

theorem rrs2cent_reads_section_witness:
  "\<exists>st' s. rrs2cent ex_sizes (\<lambda>_. plenty) ex_msg 0 1000 12 19 1 ex_state = Some (Inr (31, 0), st') \<and>
     cents_ok ex_sizes (centa st') \<and> rr_at ex_msg 31 12 s 31 \<and> view (centa st') = add_stored s (\<lambda>_ _. [])"
proof -
  have len: "length ex_msg = 31" by (simp add: ex_msg_def)
  have run: "map_option fst (rrs2cent ex_sizes (\<lambda>_. plenty) ex_msg 0 1000 12 19 1 ex_state) = Some (Inr (31, 0))"
    by code_simp
  have empty: "view (centa ex_state) = (\<lambda>_ _. [])" by (simp add: ex_state_def view_def fun_eq_iff)
  have "cents_ok ex_sizes (centa ex_state)" by (simp add: ex_state_def)
  from rrs2cent_reads_section [OF _ _ this, of 12 19 ex_msg "\<lambda>_. plenty" 0 1000 1] run show ?thesis
    unfolding empty by (fastforce simp: len length_Suc_conv simp del: rrs2cent.simps)
qed

end
