(* ===== verification/Dns_Answer.thy ===== *)
theory Dns_Answer
  imports Dns_Record
begin

text \<open>
  Writing resource records into an answer, from pdnsd's \<open>dns_answer.c\<close>: \<open>add_rr\<close> with one definition for each
  group of cases of its \<open>switch\<close>, and the OPT pseudo record.

  An answer is the bytes written so far, the allocated size, the list of \<open>compress_name\<close>, and the lists of what has
  been added and of what is to be added. A write behind the allocated size, a read outside the data of a record and
  an assertion that fails are \<open>None\<close>; the return value 0 is \<open>Some None\<close>. The outcomes of the allocations, in the
  order in which they are made, are a parameter. A record is dropped only where the code drops it, and what is
  written is what \<open>rrs2cent\<close> reads back, up to the case of the letters of names: the lemmas follow the list of
  names through the writer functions, give one lemma to each case, and compare the written bytes with the relations
  \<open>name_at\<close> and \<open>rr_at\<close> of the message format. The bytes of the header are masked there, because the counts change
  while names are matched.
\<close>

section \<open>The state\<close>

abbreviation (input) dnsmsghdroffset :: nat where "dnsmsghdroffset \<equiv> 2"
abbreviation (input) sizeof_dns_hdr_t :: nat where "sizeof_dns_hdr_t \<equiv> 12"

datatype sect = S_ANSWER | S_AUTHORITY | S_ADDITIONAL

text \<open>\<open>sva_t\<close>: type, name and data; \<open>rr_ext_t\<close>: type, TTL, \<open>tnm\<close> and \<open>nm\<close>.\<close>

record sva_t =
  sv_tp :: nat
  sv_nm :: "byte list"
  sv_data :: "byte list"

record rr_ext_t =
  re_tp :: nat
  re_ttl :: u32
  re_tnm :: "byte list"
  re_nm :: "byte list"

record answer =
  a_msg :: "byte list"
  a_alloc :: nat
  a_cb :: "compel list"
  a_sva :: "sva_t list"
  a_ar :: "rr_ext_t list"
  a_calls :: nat

type_synonym 'a outcome = "'a option option"

definition and_next :: "'a outcome \<Rightarrow> ('a \<Rightarrow> 'b outcome) \<Rightarrow> 'b outcome" where
  "and_next r f = (case r of None \<Rightarrow> None | Some None \<Rightarrow> Some None | Some (Some x) \<Rightarrow> f x)"

abbreviation (input) return_0 :: "'a outcome" where "return_0 \<equiv> Some None"
abbreviation (input) go_on :: "'a \<Rightarrow> 'a outcome" where "go_on x \<equiv> Some (Some x)"

section \<open>The data of a record\<close>

text \<open>
  The bytes written from \<open>base\<close> on, the list of \<open>compress_name\<close>, and the number of allocations made. \<open>cap\<close> is
  \<open>allocsz\<close>.
\<close>

type_synonym writer = "byte list \<times> compel list \<times> nat"

definition w_name :: "(nat \<Rightarrow> bool) \<Rightarrow> nat \<Rightarrow> nat \<Rightarrow> byte list \<Rightarrow> writer \<Rightarrow> writer outcome" where
  "w_name mem cap base nm = (\<lambda>(out, cb, calls).
     case compress_name (mem calls) nm (base + length out) cb of
       None \<Rightarrow> None
     | Some None \<Rightarrow> return_0
     | Some (Some (bs, cb')) \<Rightarrow>
         if dnsmsghdroffset + base + length out + length bs > cap then None
         else go_on (out @ bs, cb', calls + 1))"

definition w_bytes :: "nat \<Rightarrow> nat \<Rightarrow> byte list \<Rightarrow> writer \<Rightarrow> writer outcome" where
  "w_bytes cap base bs = (\<lambda>(out, cb, calls).
     if dnsmsghdroffset + base + length out + length bs > cap then None else go_on (out @ bs, cb, calls))"

text \<open>\<open>memcpy\<close> of \<open>k\<close> bytes of \<open>data\<close>.\<close>

definition w_copy :: "nat \<Rightarrow> nat \<Rightarrow> byte list \<Rightarrow> nat \<Rightarrow> nat \<Rightarrow> writer \<Rightarrow> writer outcome" where
  "w_copy cap base data i k w = (if i + k > length data then None else w_bytes cap base (segment i k data) w)"

text \<open>\<open>PDNSD_ASSERT\<close>; \<open>rdlen\<close> is the number of bytes written.\<close>

definition w_assert :: "(nat \<Rightarrow> bool) \<Rightarrow> writer \<Rightarrow> writer outcome" where
  "w_assert P = (\<lambda>(out, cb, calls). if P (length out) then go_on (out, cb, calls) else None)"

definition with_rhnlen :: "byte list \<Rightarrow> (nat \<Rightarrow> 'a outcome) \<Rightarrow> 'a outcome" where
  "with_rhnlen nm f = (case rhnlen nm of None \<Rightarrow> None | Some l \<Rightarrow> f l)"

text \<open>The cases of the \<open>switch\<close>.\<close>

definition add_name :: "(nat \<Rightarrow> bool) \<Rightarrow> nat \<Rightarrow> nat \<Rightarrow> byte list \<Rightarrow> writer \<Rightarrow> writer outcome" where
  "add_name mem cap base data w =
     and_next (w_name mem cap base data w) (w_assert (\<lambda>rdlen. rdlen \<le> length data))"

definition add_minfo :: "(nat \<Rightarrow> bool) \<Rightarrow> nat \<Rightarrow> nat \<Rightarrow> byte list \<Rightarrow> writer \<Rightarrow> writer outcome" where
  "add_minfo mem cap base data w =
     and_next (w_name mem cap base data w) (\<lambda>w.
       with_rhnlen data (\<lambda>ilen.
         and_next (and_next (w_assert (\<lambda>rdlen. rdlen \<le> ilen) w) (w_name mem cap base (drop ilen data)))
           (w_assert (\<lambda>rdlen. rdlen \<le> length data))))"

definition add_mx :: "(nat \<Rightarrow> bool) \<Rightarrow> nat \<Rightarrow> nat \<Rightarrow> byte list \<Rightarrow> writer \<Rightarrow> writer outcome" where
  "add_mx mem cap base data w =
     (if \<not> length data > 2 then None
      else and_next (and_next (w_copy cap base data 0 2 w) (w_name mem cap base (drop 2 data)))
        (w_assert (\<lambda>rdlen. rdlen \<le> length data)))"

definition add_soa :: "(nat \<Rightarrow> bool) \<Rightarrow> nat \<Rightarrow> nat \<Rightarrow> byte list \<Rightarrow> writer \<Rightarrow> writer outcome" where
  "add_soa mem cap base data w =
     and_next (w_name mem cap base data w) (\<lambda>w.
       with_rhnlen data (\<lambda>ilen.
         and_next (and_next (w_assert (\<lambda>rdlen. rdlen \<le> ilen) w) (w_name mem cap base (drop ilen data))) (\<lambda>w.
           with_rhnlen (drop ilen data) (\<lambda>l.
             let ilen = ilen + l in
             and_next (and_next (w_assert (\<lambda>rdlen. rdlen \<le> ilen) w) (w_copy cap base data ilen 20))
               (w_assert (\<lambda>rdlen. rdlen \<le> length data))))))"

definition add_px :: "(nat \<Rightarrow> bool) \<Rightarrow> nat \<Rightarrow> nat \<Rightarrow> byte list \<Rightarrow> writer \<Rightarrow> writer outcome" where
  "add_px mem cap base data w =
     (if \<not> length data > 2 then None
      else and_next (and_next (w_copy cap base data 0 2 w) (w_name mem cap base (drop 2 data))) (\<lambda>w.
        with_rhnlen (drop 2 data) (\<lambda>l.
          let ilen = 2 + l in
          and_next (and_next (w_assert (\<lambda>rdlen. rdlen \<le> ilen) w) (w_name mem cap base (drop ilen data)))
            (w_assert (\<lambda>rdlen. rdlen \<le> length data)))))"

definition add_srv :: "(nat \<Rightarrow> bool) \<Rightarrow> nat \<Rightarrow> nat \<Rightarrow> byte list \<Rightarrow> writer \<Rightarrow> writer outcome" where
  "add_srv mem cap base data w =
     (if \<not> length data > 6 then None
      else and_next (and_next (w_copy cap base data 0 6 w) (w_name mem cap base (drop 6 data)))
        (w_assert (\<lambda>rdlen. rdlen \<le> length data)))"

definition add_nxt :: "(nat \<Rightarrow> bool) \<Rightarrow> nat \<Rightarrow> nat \<Rightarrow> byte list \<Rightarrow> writer \<Rightarrow> writer outcome" where
  "add_nxt mem cap base data w =
     and_next (w_name mem cap base data w) (\<lambda>w.
       with_rhnlen data (\<lambda>ilen.
         and_next (w_assert (\<lambda>rdlen. rdlen \<le> ilen) w) (\<lambda>w.
           if \<not> length data \<ge> ilen then None
           else if length data > ilen then w_copy cap base data ilen (length data - ilen) w
           else go_on w)))"

text \<open>The loop over the strings of a NAPTR record.\<close>

fun naptr_ilen :: "nat \<Rightarrow> byte list \<Rightarrow> nat \<Rightarrow> nat option" where
  "naptr_ilen 0 data ilen = Some ilen"
| "naptr_ilen (Suc j) data ilen =
     (if ilen \<ge> length data then None
      else let ilen' = ilen + (unat (data ! ilen) + 1) in
        if length data > ilen' then naptr_ilen j data ilen' else None)"

definition add_naptr :: "(nat \<Rightarrow> bool) \<Rightarrow> nat \<Rightarrow> nat \<Rightarrow> byte list \<Rightarrow> writer \<Rightarrow> writer outcome" where
  "add_naptr mem cap base data w =
     (if \<not> length data > 4 then None
      else case naptr_ilen 3 data 4 of
        None \<Rightarrow> None
      | Some ilen \<Rightarrow>
          and_next (and_next (w_copy cap base data 0 ilen w) (w_name mem cap base (drop ilen data)))
            (w_assert (\<lambda>rdlen. rdlen \<le> length data)))"

definition add_data :: "(nat \<Rightarrow> bool) \<Rightarrow> nat \<Rightarrow> nat \<Rightarrow> nat \<Rightarrow> byte list \<Rightarrow> writer \<Rightarrow> writer outcome" where
  "add_data mem cap base tp data w =
     (if tp \<in> {T_CNAME, T_MB, T_MD, T_MF, T_MG, T_MR, T_NS, T_PTR} then add_name mem cap base data w
      else if tp \<in> {T_MINFO, T_RP} then add_minfo mem cap base data w
      else if tp \<in> {T_MX, T_AFSDB, T_RT, T_KX} then add_mx mem cap base data w
      else if tp = T_SOA then add_soa mem cap base data w
      else if tp = T_PX then add_px mem cap base data w
      else if tp = T_SRV then add_srv mem cap base data w
      else if tp = T_NXT then add_nxt mem cap base data w
      else if tp = T_NAPTR then add_naptr mem cap base data w
      else w_bytes cap base data w)"

section \<open>add\_rr\<close>

text \<open>The growth of the buffer to a multiple of 128 bytes.\<close>

definition ensure_room :: "(nat \<Rightarrow> bool) \<Rightarrow> nat \<Rightarrow> answer \<Rightarrow> answer outcome" where
  "ensure_room mem need st =
     (let newsz = dnsmsghdroffset + length (a_msg st) + need in
      if newsz > a_alloc st then
        if mem (a_calls st) then go_on (st\<lparr>a_alloc := (newsz + 127) div 128 * 128, a_calls := a_calls st + 1\<rparr>)
        else return_0
      else go_on st)"

text \<open>\<open>htons(ntohs(x)+1)\<close> for the 16-bit field of the header at \<open>i\<close>.\<close>

definition bump_count :: "nat \<Rightarrow> byte list \<Rightarrow> byte list" where
  "bump_count i msg = overwrite i (putint16 (getint16 msg i + 1)) msg"

definition count_field :: "sect \<Rightarrow> nat" where
  "count_field s = (case s of S_ANSWER \<Rightarrow> 6 | S_AUTHORITY \<Rightarrow> 8 | S_ADDITIONAL \<Rightarrow> 10)"

definition rr_hdr :: "nat \<Rightarrow> u32 \<Rightarrow> nat \<Rightarrow> byte list" where
  "rr_hdr tp ttl rdlen = putint16 (of_nat tp) @ putint16 C_IN @ putint32 ttl @ putint16 (of_nat rdlen)"

text \<open>
  The name goes through the buffer \<open>nbuf\<close>. The data is written behind the place of the header, which is filled in
  last; if the record makes an additional section exceed the size for UDP, the size is set back and the bytes
  written are dropped, but the list of \<open>compress_name\<close> stays.
\<close>

definition add_rr ::
  "(nat \<Rightarrow> bool) \<Rightarrow> byte list \<Rightarrow> nat \<Rightarrow> u32 \<Rightarrow> byte list \<Rightarrow> sect \<Rightarrow> nat option \<Rightarrow> answer \<Rightarrow> answer outcome" where
  "add_rr mem rrn tp ttl data section udp st =
     (case compress_name (mem (a_calls st)) rrn (length (a_msg st)) (a_cb st) of
        None \<Rightarrow> None
      | Some None \<Rightarrow> return_0
      | Some (Some (nbuf, cb)) \<Rightarrow>
          if length nbuf > DNSNAMEBUFSIZE then None
          else and_next (ensure_room mem (length nbuf + sizeof_rr_hdr_t + length data)
                           (st\<lparr>a_cb := cb, a_calls := a_calls st + 1\<rparr>)) (\<lambda>st1.
            let base = length (a_msg st1) + length nbuf + sizeof_rr_hdr_t in
            if dnsmsghdroffset + base > a_alloc st1 then None
            else and_next (add_data mem (a_alloc st1) base tp data ([], a_cb st1, a_calls st1)) (\<lambda>(out, cb, calls).
              let sz = base + length out; st2 = st1\<lparr>a_cb := cb, a_calls := calls\<rparr> in
              if (case udp of None \<Rightarrow> False | Some u \<Rightarrow> sz > u) \<and> section = S_ADDITIONAL then go_on st2
              else go_on (st2\<lparr>a_msg :=
                     bump_count (count_field section) (a_msg st1) @ nbuf @ rr_hdr tp ttl (length out) @ out\<rparr>))))"

section \<open>The OPT pseudo record\<close>

definition opt_rr :: "u16 \<Rightarrow> u16 \<Rightarrow> u16 \<Rightarrow> u16 \<Rightarrow> byte list" where
  "opt_rr udpsize rcode ednsver Zflags =
     [0] @ putint16 (of_nat T_OPT) @ putint16 udpsize @ [ucast (drop_bit 4 rcode), ucast ednsver] @ putint16 Zflags @
     putint16 0"

definition add_opt_pseudo_rr ::
  "(nat \<Rightarrow> bool) \<Rightarrow> u16 \<Rightarrow> u16 \<Rightarrow> u16 \<Rightarrow> u16 \<Rightarrow> answer \<Rightarrow> answer outcome" where
  "add_opt_pseudo_rr mem udpsize rcode ednsver Zflags st =
     and_next (ensure_room mem (1 + sizeof_rr_hdr_t) st) (\<lambda>st1.
       if dnsmsghdroffset + length (a_msg st1) + (1 + sizeof_rr_hdr_t) > a_alloc st1 then None
       else go_on (st1\<lparr>a_msg := bump_count 10 (a_msg st1) @ opt_rr udpsize rcode ednsver Zflags\<rparr>))"

text \<open>\<open>remove_opt_pseudo_rr\<close>: the new message, or \<open>Some None\<close> for the return value 0.\<close>

definition remove_opt_pseudo_rr :: "byte list \<Rightarrow> byte list outcome" where
  "remove_opt_pseudo_rr msg =
     (if length msg < sizeof_dns_hdr_t then None
      else let acnt = getint16 msg 10 in
      if \<not> (acnt > 0 \<and> length msg \<ge> sizeof_dns_hdr_t + (1 + sizeof_rr_hdr_t)) then return_0
      else let sz = length msg - (1 + sizeof_rr_hdr_t) in
      if msg ! sz \<noteq> 0 then return_0
      else if getint16 msg (sz + 1) \<noteq> of_nat T_OPT then return_0
      else go_on (take sz (overwrite 10 (putint16 (acnt - 1)) msg)))"

section \<open>Results that are safe\<close>

text \<open>\<open>safe r P\<close>: no assertion fails, and the value, if there is one, satisfies \<open>P\<close>.\<close>

definition safe :: "'a outcome \<Rightarrow> ('a \<Rightarrow> bool) \<Rightarrow> bool" where
  "safe r P \<longleftrightarrow> (\<exists>x. r = Some x \<and> (case x of None \<Rightarrow> True | Some y \<Rightarrow> P y))"

lemma safe_simps [simp]:
  "safe None P \<longleftrightarrow> False"
  "safe return_0 P \<longleftrightarrow> True"
  "safe (go_on x) P \<longleftrightarrow> P x"
  by (simp_all add: safe_def)

lemma and_next_simps [simp]:
  "and_next None f = None"
  "and_next return_0 f = return_0"
  "and_next (go_on x) f = f x"
  by (simp_all add: and_next_def)

lemma safe_next: "safe r P \<Longrightarrow> (\<And>x. P x \<Longrightarrow> safe (f x) Q) \<Longrightarrow> safe (and_next r f) Q"
  by (cases r; cases "the r") (force simp: safe_def)+

lemma safe_mono: "safe r P \<Longrightarrow> (\<And>x. P x \<Longrightarrow> Q x) \<Longrightarrow> safe r Q"
  by (auto simp: safe_def split: option.splits)

section \<open>The list of written names\<close>

text \<open>
  Elements of the list that no match can use: those beyond the reach of a pointer, and the root. \<open>add_rr\<close> may
  leave such elements behind when it drops a record, which is why they do not count.
\<close>

definition alive :: "compel \<Rightarrow> bool" where
  "alive ci \<longleftrightarrow> ci_index ci \<le> 0x3fff \<and> ci_s ci \<noteq> [0]"

definition legal_ci :: "compel \<Rightarrow> bool" where
  "legal_ci ci \<longleftrightarrow> (\<exists>ls. name_ok ls \<and> ci_s ci = enc_name ls)"

definition names_inv :: "byte list \<Rightarrow> compel list \<Rightarrow> bool" where
  "names_inv msg cb \<longleftrightarrow>
     (\<exists>es. compress_inv msg es \<and> filter alive cb = filter alive (map compel_of es)) \<and>
     list_all (\<lambda>ci. ci_index ci \<le> length msg \<and> legal_ci ci) cb"

text \<open>A name that ends one of the names listed.\<close>

definition listed :: "compel list \<Rightarrow> label list \<Rightarrow> bool" where
  "listed cb nm \<longleftrightarrow> nm = [] \<or>
     list_ex (\<lambda>ci. \<exists>ls. name_ok ls \<and> ci_s ci = enc_name ls \<and> matching nm ls = length nm) cb"

lemma names_inv_Nil [simp]: "names_inv msg []"
  by (auto simp: names_inv_def intro: exI [of _ "[]"])

lemma names_inv_append: "names_inv msg cb \<Longrightarrow> names_inv (msg @ post) cb"
  unfolding names_inv_def list_all_iff by (auto intro: compress_inv_append)

lemma listed_append: "listed cb nm \<Longrightarrow> listed (cb @ ext) nm"
  by (auto simp: listed_def)

lemma enc_name_root [simp]: "enc_name ls = [0] \<longleftrightarrow> ls = []"
  by (cases ls) (auto simp: enc_name_def)

lemma matching_self [simp]: "matching nm nm = length nm"
proof -
  have "common_prefix xs xs = length xs" for xs :: "label list" by (induction xs) auto
  then show ?thesis by (simp add: matching_def)
qed

lemma longest_match_alive:
  assumes "name_ok nm"
  shows "list_all legal_ci cb \<Longrightarrow>
    longest_match (enc_name nm @ rest) cb acc = longest_match (enc_name nm @ rest) (filter alive cb) acc"
proof (induction cb arbitrary: acc)
  case (Cons ci cb)
  obtain longest lrem coffs where acc: "acc = (longest, lrem, coffs)" by (cases acc)
  from Cons.prems obtain ls where ls: "name_ok ls" "ci_s ci = enc_name ls" by (auto simp: legal_ci_def)
  have d: "domain_match (enc_name nm @ rest) (ci_s ci) =
      Some (matching nm ls, offset_of nm (length nm - matching nm ls), offset_of ls (length ls - matching nm ls))"
    using domain_match_enc [OF assms ls(1), of rest "[]"] ls(2) by simp
  have "\<not> alive ci \<Longrightarrow> ci_index ci \<le> 0x3fff \<Longrightarrow> matching nm ls = 0"
    using matching_le(2) [of nm ls] ls(2) by (auto simp: alive_def)
  then show ?case using Cons acc d by (auto simp: Let_def)
qed simp

lemma compress_name_list:
  assumes "longest_match inn cb (0, 0, 0) = longest_match inn cb0 (0, 0, 0)"
  shows "compress_name g inn offs cb =
    map_option (map_option (\<lambda>(out, c). (out, cb @ drop (length cb0) c))) (compress_name g inn offs cb0)"
  using assms by (auto simp: compress_name_def add_compel_def Let_def split: option.splits)

lemma compress_name_ext:
  assumes "compress_name g (enc_name nm @ rest) offs cb = Some (Some (out, cb'))" "name_ok nm"
  shows "cb' = cb \<or> cb' = cb @ [\<lparr>ci_index = offs, ci_s = enc_name nm\<rparr>]"
  using assms name_okD [OF assms(2)]
  by (auto simp: compress_name_def add_compel_def rhnlen_enc name_ok_def Let_def split: option.splits if_splits prod.splits)

lemma listed_known:
  assumes inv: "compress_inv msg es" and al: "filter alive cb = filter alive (map compel_of es)"
    and cb: "list_all (\<lambda>ci. ci_index ci \<le> length msg \<and> legal_ci ci) cb"
    and lis: "listed cb nm" "nm \<noteq> []" and reach: "length msg \<le> 0x3fff"
  shows "known_name es nm"
proof -
  obtain ci ls where ci: "ci \<in> set cb" "name_ok ls" "ci_s ci = enc_name ls" "matching nm ls = length nm"
    using lis by (auto simp: listed_def list_ex_iff)
  have "ls \<noteq> []" using ci(4) lis(2) matching_le(2) [of nm ls] by auto
  then have "alive ci" using ci cb reach by (force simp: alive_def list_all_iff)
  then have "ci \<in> set (filter alive (map compel_of es))" using ci(1) al unfolding al [symmetric] by simp
  then obtain b where b: "b < length es" "compel_of (es ! b) = ci" by (auto simp: in_set_conv_nth)
  let ?e = "es ! b"
  have "labels_ok (w_labels ?e)" using compress_invD(1) [OF inv b(1)] by (rule name_okD)
  then have w: "w_labels ?e = ls" "w_index ?e = ci_index ci"
    using b(2) ci(3) enc_name_inj [of "w_labels ?e" ls "[]" "[]"] name_okD [OF ci(2)] by (auto simp: compel_of_def)
  let ?d = "length ls - length nm"
  show ?thesis
  proof (cases "w_lits ?e \<le> ?d")
    case True
    have "0 < length nm" using lis(2) by simp
    moreover have "\<not> 0x3fff < w_index ?e" using w(2) ci(1) cb reach by (force simp: list_all_iff)
    ultimately obtain a where "a < b" "length nm \<le> matching nm (w_labels (es ! a))" "target nm (es ! a) \<le> 0x3fff"
      using earlier_occurrence [OF inv b(1), of "length nm" nm] True w(1) ci(4) by auto
    then show ?thesis using b(1) lis(2) matching_le(1) [of nm "w_labels (es ! a)"]
      unfolding known_name_def by (metis le_antisym less_trans)
  next
    case False
    then have "w_index ?e + offset_of ls ?d < length msg"
      using compress_invD(5) [OF inv b(1)] w(1) by (auto simp: lies_before_def)
    then have "target nm ?e \<le> 0x3fff" using reach w(1) ci(4) by (simp add: target_def)
    then show ?thesis using b(1) lis(2) w(1) ci(4) unfolding known_name_def by auto
  qed
qed

lemma matched_entry:
  assumes inv: "compress_inv msg es" and ok: "name_ok nm"
    and run: "compress_name g (enc_name nm @ rest) offs (map compel_of es) = Some (Some (out, cb'))"
    and same: "cb' = map compel_of es"
  shows "\<exists>b < length es. matching nm (w_labels (es ! b)) = length nm \<and> target nm (es ! b) \<le> 0x3fff \<and> nm \<noteq> []"
proof -
  have "name_ok (w_labels e)" if "e \<in> set es" for e
    using that compress_invD(1) [OF inv] by (metis in_set_conv_nth)
  then obtain longest lrem coffs where
    lm: "longest_match (enc_name nm @ rest) (map compel_of es) (0, 0, 0) = Some (longest, lrem, coffs)"
    and best: "best_match nm es (longest, lrem, coffs)"
    using longest_match_best [OF ok, of es rest] by (metis prod_cases3)
  have "0 < longest \<and> lrem = 0"
    using run same lm by (auto simp: compress_name_def add_compel_def Let_def split: option.splits if_splits)
  then obtain b where b: "b < length es" "longest = matching nm (w_labels (es ! b))" "coffs = target nm (es ! b)" "coffs \<le> 0x3fff"
      "offset_of nm (length nm - longest) = 0" "0 < longest"
    using best unfolding best_match_def by auto
  then have "length nm - longest = 0" using offset_of_eq_0 [of "length nm - longest" nm] by simp
  then have "longest = length nm" using b(2) matching_le(1) [of nm "w_labels (es ! b)"] by simp
  then show ?thesis using b by (intro exI [of _ b]) auto
qed

text \<open>A call of \<open>compress_name\<close> for the next free offset.\<close>

lemma cb_step:
  assumes inv: "names_inv msg cb" and ok: "name_ok nm"
  shows "safe (compress_name g (enc_name nm @ rest) (length msg) cb) (\<lambda>(out, cb').
    names_inv (msg @ out) cb' \<and> holds_name (msg @ out) (length msg) (length out) nm \<and>
    length out \<le> length (enc_name nm) \<and> (\<exists>ext. cb' = cb @ ext) \<and> listed cb' nm \<and>
    (listed cb nm \<longrightarrow> names_inv msg cb'))"
proof -
  obtain es where es: "compress_inv msg es" "filter alive cb = filter alive (map compel_of es)"
    and cb: "list_all (\<lambda>ci. ci_index ci \<le> length msg \<and> legal_ci ci) cb"
    using inv unfolding names_inv_def by blast
  let ?inn = "enc_name nm @ rest" and ?cb0 = "map compel_of es"
  obtain out es' where step: "compress_name g ?inn (length msg) ?cb0 =
        Some (if g \<or> es' = es then Some (out, map compel_of es') else None)"
      "compress_inv (msg @ out) es'" "holds_name (msg @ out) (length msg) (length out) nm"
      "length out \<le> length (enc_name nm)" "known_name es nm \<longrightarrow> es' = es"
    using compress_name_step [OF es(1) ok] by blast
  have "legal_ci ci" if "ci \<in> set ?cb0" for ci
    using that compress_invD(1) [OF es(1)] unfolding legal_ci_def compel_of_def in_set_conv_nth by fastforce
  then have "list_all legal_ci cb" "list_all legal_ci ?cb0" using cb by (auto simp: list_all_iff)
  then have "longest_match ?inn cb (0, 0, 0) = longest_match ?inn ?cb0 (0, 0, 0)"
    using longest_match_alive [OF ok] es(2) by metis
  note cong = compress_name_list [OF this, of g "length msg"]
  show ?thesis
  proof (cases "g \<or> es' = es")
    case False
    then show ?thesis using cong step(1) by simp
  next
    case True
    then have r0: "compress_name g ?inn (length msg) ?cb0 = Some (Some (out, map compel_of es'))" using step(1) by simp
    define cb' where "cb' = cb @ drop (length ?cb0) (map compel_of es')"
    have r: "compress_name g ?inn (length msg) cb = Some (Some (out, cb'))" using cong r0 by (simp add: cb'_def)
    let ?new = "\<lparr>ci_index = length msg, ci_s = enc_name nm\<rparr>"
    from compress_name_ext [OF r0 ok] consider (same) "map compel_of es' = ?cb0" | (added) "map compel_of es' = ?cb0 @ [?new]"
      by auto
    then have res: "filter alive cb' = filter alive (map compel_of es') \<and>
      list_all (\<lambda>ci. ci_index ci \<le> length msg \<and> legal_ci ci) cb' \<and> listed cb' nm \<and>
      (listed cb nm \<longrightarrow> filter alive cb' = filter alive cb)"
    proof cases
      case same
      from matched_entry [OF es(1) ok r0 same] obtain b where
        b: "b < length es" "matching nm (w_labels (es ! b)) = length nm" "target nm (es ! b) \<le> 0x3fff" "nm \<noteq> []" by blast
      then have "alive (compel_of (es ! b))"
        using matching_le(2) [of nm "w_labels (es ! b)"] by (auto simp: alive_def compel_of_def target_def)
      then have "compel_of (es ! b) \<in> set (filter alive (map compel_of es))" using b(1) by simp
      then have "compel_of (es ! b) \<in> set cb" unfolding es(2) [symmetric] by simp
      moreover have "name_ok (w_labels (es ! b))" by (rule compress_invD(1) [OF es(1) b(1)])
      ultimately have "listed cb nm" using b(2) by (auto simp: listed_def list_ex_iff compel_of_def)
      then show ?thesis using same es(2) cb by (auto simp: cb'_def list_all_iff listed_def)
    next
      case added
      then have cb': "cb' = cb @ [?new]" by (simp add: cb'_def)
      have "\<not> alive ?new" if "listed cb nm"
      proof
        assume "alive ?new"
        then have "nm \<noteq> []" "length msg \<le> 0x3fff" by (auto simp: alive_def)
        then have "es' = es" using listed_known [OF es cb that] step(5) by blast
        then show False using added by simp
      qed
      moreover have "listed cb' nm" using ok by (auto simp: cb' listed_def intro!: exI [of _ nm])
      ultimately show ?thesis using added es(2) cb cb' ok by (auto simp: list_all_iff legal_ci_def)
    qed
    then have "names_inv msg cb'" if "listed cb nm" using that es unfolding names_inv_def by metis
    moreover have "names_inv (msg @ out) cb'"
      using res step(2) unfolding names_inv_def list_all_iff by (auto intro: trans_le_add1)
    ultimately show ?thesis using r res step(3,4) by (auto simp: cb'_def)
  qed
qed

section \<open>What has been written\<close>

text \<open>Values at a position, names compressed and up to case.\<close>

fun val_at :: "byte list \<Rightarrow> nat \<Rightarrow> fval \<Rightarrow> nat \<Rightarrow> bool" where
  "val_at m p (Raw bs) q \<longleftrightarrow> q = p + length bs \<and> q \<le> length m \<and> segment p (length bs) m = bs"
| "val_at m p (Nm ls) q \<longleftrightarrow> name_ok ls \<and> (\<exists>n. holds_name m p n ls \<and> q = p + n \<and> q \<le> length m)"

fun vals_at :: "byte list \<Rightarrow> nat \<Rightarrow> fval list \<Rightarrow> nat \<Rightarrow> bool" where
  "vals_at m p [] q \<longleftrightarrow> q = p"
| "vals_at m p (v # vs) q \<longleftrightarrow> (\<exists>p'. val_at m p v p' \<and> vals_at m p' vs q)"

lemma val_at_append: "val_at m p v q \<Longrightarrow> val_at (m @ post) p v q"
  by (cases v) (auto simp: segment_append_left intro: holds_name_append)

lemma vals_at_append: "vals_at m p vs q \<Longrightarrow> vals_at (m @ post) p vs q"
  by (induction vs arbitrary: p) (auto intro: val_at_append)

lemma vals_at_snoc: "vals_at m p vs q \<Longrightarrow> val_at m q v q' \<Longrightarrow> vals_at m p (vs @ [v]) q'"
  by (induction vs arbitrary: p) auto

lemma enc_vals_append [simp]: "enc_vals (vs @ ws) = enc_vals vs @ enc_vals ws"
  by (simp add: enc_vals_def)

definition names_listed :: "compel list \<Rightarrow> fval list \<Rightarrow> bool" where
  "names_listed cb vs \<longleftrightarrow> (\<forall>ls. Nm ls \<in> set vs \<longrightarrow> listed cb ls)"

lemma names_listed_simps [simp]:
  "names_listed cb []"
  "names_listed cb (vs @ ws) \<longleftrightarrow> names_listed cb vs \<and> names_listed cb ws"
  "names_listed cb [Raw bs]"
  "names_listed cb [Nm ls] \<longleftrightarrow> listed cb ls"
  by (auto simp: names_listed_def)

lemma names_listed_append: "names_listed cb vs \<Longrightarrow> names_listed (cb @ ext) vs"
  by (simp add: names_listed_def listed_append)

text \<open>The state of a writer behind the bytes \<open>M\<close> after the values \<open>vs\<close>.\<close>

definition wrote :: "byte list \<Rightarrow> nat \<Rightarrow> compel list \<Rightarrow> fval list \<Rightarrow> writer \<Rightarrow> bool" where
  "wrote M cap cb0 vs = (\<lambda>(out, cb, calls).
     names_inv (M @ out) cb \<and> vals_at (M @ out) (length M) vs (length (M @ out)) \<and>
     length out \<le> length (enc_vals vs) \<and> 2 + length M + length out \<le> cap \<and> (\<exists>ext. cb = cb0 @ ext) \<and>
     names_listed cb vs \<and> ((\<forall>ls. Nm ls \<notin> set vs) \<longrightarrow> cb = cb0))"

lemma wrote_start: "names_inv M cb \<Longrightarrow> 2 + length M \<le> cap \<Longrightarrow> wrote M cap cb [] ([], cb, calls)"
  by (simp add: wrote_def)

lemma wrote_length: "wrote M cap cb0 vs (out, cb, calls) \<Longrightarrow> length out \<le> length (enc_vals vs)"
  by (simp add: wrote_def)

lemma w_assert_ok:
  "wrote M cap cb0 vs w \<Longrightarrow> length (enc_vals vs) \<le> k \<Longrightarrow> safe (w_assert (\<lambda>rdlen. rdlen \<le> k) w) (wrote M cap cb0 vs)"
  by (cases w) (auto simp: w_assert_def dest: wrote_length)

lemma w_name_ok:
  assumes w: "wrote M cap cb0 vs w" and ok: "name_ok ls"
    and room: "2 + length M + length (enc_vals vs) + length (enc_name ls) \<le> cap"
  shows "safe (w_name mem cap (length M) (enc_name ls @ rest) w) (wrote M cap cb0 (vs @ [Nm ls]))"
proof -
  obtain out cb calls where w': "w = (out, cb, calls)" by (cases w)
  note W = w [unfolded w' wrote_def prod.case]
  have inv: "names_inv (M @ out) cb" using W by blast
  have len: "length (M @ out) = length M + length out" by simp
  have "safe (compress_name (mem calls) (enc_name ls @ rest) (length M + length out) cb) (\<lambda>(bs, cb').
    names_inv (M @ out @ bs) cb' \<and> holds_name (M @ out @ bs) (length M + length out) (length bs) ls \<and>
    length bs \<le> length (enc_name ls) \<and> (\<exists>ext. cb' = cb @ ext) \<and> listed cb' ls)"
    using cb_step [OF inv ok, of "mem calls" rest] unfolding len append_assoc by (rule safe_mono) auto
  then show ?thesis
  proof (cases "compress_name (mem calls) (enc_name ls @ rest) (length M + length out) cb = return_0")
    case True
    then show ?thesis by (simp add: w_name_def w')
  next
    case False
    then obtain bs cb' where c: "compress_name (mem calls) (enc_name ls @ rest) (length M + length out) cb = go_on (bs, cb')"
      "names_inv (M @ out @ bs) cb'" "holds_name (M @ out @ bs) (length M + length out) (length bs) ls"
      "length bs \<le> length (enc_name ls)" "\<exists>ext. cb' = cb @ ext" "listed cb' ls"
      using \<open>safe _ _\<close> unfolding safe_def by (auto split: option.splits)
    have "val_at (M @ out @ bs) (length (M @ out)) (Nm ls) (length (M @ out @ bs))" using c(3) ok by auto
    moreover have "vals_at ((M @ out) @ bs) (length M) vs (length (M @ out))" using W by (blast intro: vals_at_append)
    ultimately have "vals_at (M @ out @ bs) (length M) (vs @ [Nm ls]) (length (M @ out @ bs))"
      using vals_at_snoc by (metis append_assoc)
    moreover have "names_listed cb' (vs @ [Nm ls])" using W c(5,6) by (auto intro: names_listed_append)
    moreover have "\<exists>ext. cb' = cb0 @ ext" using W c(5) by auto
    moreover have "length (out @ bs) \<le> length (enc_vals (vs @ [Nm ls]))" using W c(4) by simp
    moreover have "2 + length M + length (out @ bs) \<le> cap" using W c(4) room by simp
    ultimately show ?thesis using c(1,2) by (auto simp: w_name_def w' wrote_def)
  qed
qed

lemma w_bytes_ok:
  assumes w: "wrote M cap cb0 vs w" and room: "2 + length M + length (enc_vals vs) + length bs \<le> cap"
  shows "safe (w_bytes cap (length M) bs w) (wrote M cap cb0 (vs @ [Raw bs]))"
proof -
  obtain out cb calls where w': "w = (out, cb, calls)" by (cases w)
  note W = w [unfolded w' wrote_def prod.case]
  have "val_at (M @ out @ bs) (length (M @ out)) (Raw bs) (length (M @ out @ bs))" by (simp add: segment_def)
  moreover have "vals_at ((M @ out) @ bs) (length M) vs (length (M @ out))" using W by (blast intro: vals_at_append)
  ultimately have "vals_at (M @ out @ bs) (length M) (vs @ [Raw bs]) (length (M @ out @ bs))"
    using vals_at_snoc by (metis append_assoc)
  moreover have "names_inv (M @ out @ bs) cb" using W names_inv_append [of "M @ out" cb bs] by simp
  ultimately show ?thesis using W room by (auto simp: w_bytes_def w' wrote_def)
qed

lemma w_copy_ok:
  assumes "wrote M cap cb0 vs w" "2 + length M + length (enc_vals vs) + k \<le> cap" "i + k \<le> length data"
    "segment i k data = bs"
  shows "safe (w_copy cap (length M) data i k w) (wrote M cap cb0 (vs @ [Raw bs]))"
  using w_bytes_ok [OF assms(1), of bs] assms by (auto simp: w_copy_def length_segment)

section \<open>Data that fits the layout of its type\<close>

fun field_fits :: "field \<Rightarrow> fval \<Rightarrow> bool" where
  "field_fits (Bytes k) v \<longleftrightarrow> (\<exists>bs. v = Raw bs \<and> length bs = k)"
| "field_fits Str v \<longleftrightarrow> (\<exists>b bs. v = Raw (b # bs) \<and> length bs = unat b)"
| "field_fits Name v \<longleftrightarrow> (\<exists>ls. v = Nm ls \<and> name_ok ls)"
| "field_fits Rest v \<longleftrightarrow> (\<exists>bs. v = Raw bs)"

text \<open>
  What the cache holds as the data of a record: the image of values that fit the layout. The length is limited by
  the field of the message that holds it.
\<close>

definition data_fits :: "nat \<Rightarrow> byte list \<Rightarrow> fval list \<Rightarrow> bool" where
  "data_fits tp data vs \<longleftrightarrow>
     (\<exists>fs. rr_layout tp data = Some fs \<and> list_all2 field_fits fs vs) \<and> data = enc_vals vs \<and>
     length data < 65536 \<and> (tp = T_NXT \<longrightarrow> length data \<le> 1040)"

lemma with_rhnlen_enc: "labels_ok ls \<Longrightarrow> with_rhnlen (enc_name ls @ rest) f = f (length (enc_name ls))"
  by (simp add: with_rhnlen_def rhnlen_enc)

lemma w_name_next:
  assumes "wrote M cap cb0 vs w" "name_ok ls" "2 + length M + length (enc_vals vs) + length (enc_name ls) \<le> cap"
    "\<And>w'. wrote M cap cb0 (vs @ [Nm ls]) w' \<Longrightarrow> safe (f w') Q"
  shows "safe (and_next (w_name mem cap (length M) (enc_name ls @ rest) w) f) Q"
  by (rule safe_next [OF w_name_ok [OF assms(1-3)] assms(4)])

lemma w_name_next0:
  assumes "wrote M cap cb0 vs w" "name_ok ls" "2 + length M + length (enc_vals vs) + length (enc_name ls) \<le> cap"
    "\<And>w'. wrote M cap cb0 (vs @ [Nm ls]) w' \<Longrightarrow> safe (f w') Q"
  shows "safe (and_next (w_name mem cap (length M) (enc_name ls) w) f) Q"
  using w_name_next [where rest = "[]", OF assms] by simp

lemma w_copy_next:
  assumes "wrote M cap cb0 vs w" "data = pre @ bs @ post" "length pre = i" "length bs = k"
    "2 + length M + length (enc_vals vs) + k \<le> cap"
    "\<And>w'. wrote M cap cb0 (vs @ [Raw bs]) w' \<Longrightarrow> safe (f w') Q"
  shows "safe (and_next (w_copy cap (length M) data i k w) f) Q"
  by (rule safe_next [OF w_copy_ok assms(6)]) (use assms in \<open>simp_all add: segment_def\<close>)

lemma w_assert_next:
  assumes "wrote M cap cb0 vs w" "length (enc_vals vs) \<le> k" "safe (f w) Q"
  shows "safe (and_next (w_assert (\<lambda>rdlen. rdlen \<le> k) w) f) Q"
proof -
  have "w_assert (\<lambda>rdlen. rdlen \<le> k) w = go_on w"
    using assms(1,2) by (cases w) (auto simp: w_assert_def dest: wrote_length)
  then show ?thesis using assms(3) by simp
qed

lemma and_next_assoc: "and_next (and_next r f) g = and_next r (\<lambda>x. and_next (f x) g)"
  by (cases r; cases "the r") auto

lemma length_enc_name_pos: "0 < length (enc_name ls)"
  by (simp add: length_enc_name)

lemma drop_exact: "drop (length xs) (xs @ ys) = ys"
  by simp

lemma w_assert_last:
  assumes "wrote M cap cb0 us w" "length (enc_vals us) \<le> k" "us = vs"
  shows "safe (w_assert (\<lambda>rdlen. rdlen \<le> k) w) (wrote M cap cb0 vs)"
  using w_assert_ok assms by blast

lemmas writer_rules = w_name_next w_name_next0 w_assert_next w_assert_last

lemma add_name_ok:
  assumes "name_ok a" "2 + length M + length (enc_name a) \<le> cap"
  shows "wrote M cap cb [] w \<Longrightarrow> safe (add_name mem cap (length M) (enc_name a) w) (wrote M cap cb [Nm a])"
  unfolding add_name_def by (((rule writer_rules, assumption) | (use assms in simp; fail))+)

lemma add_minfo_ok:
  assumes "name_ok a" "name_ok b" "2 + length M + length (enc_name a @ enc_name b) \<le> cap"
  shows "wrote M cap cb [] w \<Longrightarrow>
    safe (add_minfo mem cap (length M) (enc_name a @ enc_name b) w) (wrote M cap cb [Nm a, Nm b])"
  unfolding add_minfo_def and_next_assoc with_rhnlen_enc [OF name_okD [OF assms(1)]] drop_exact
  by (((rule writer_rules, assumption) | (use assms in simp; fail))+)

lemma add_mx_ok:
  assumes "length p = 2" "name_ok a" "2 + length M + length (p @ enc_name a) \<le> cap"
  shows "wrote M cap cb [] w \<Longrightarrow>
    safe (add_mx mem cap (length M) (p @ enc_name a) w) (wrote M cap cb [Raw p, Nm a])"
  unfolding add_mx_def and_next_assoc drop_exact [of p, unfolded assms(1)]
  by (((rule writer_rules, assumption) | (rule w_copy_next [where pre = "[]" and bs = p], assumption) |
     (use assms length_enc_name_pos [of a] in simp; fail) | (subst if_not_P))+)

lemma add_soa_ok:
  assumes "name_ok a" "name_ok b" "length t = 20" "2 + length M + length (enc_name a @ enc_name b @ t) \<le> cap"
  shows "wrote M cap cb [] w \<Longrightarrow>
    safe (add_soa mem cap (length M) (enc_name a @ enc_name b @ t) w) (wrote M cap cb [Nm a, Nm b, Raw t])"
  unfolding add_soa_def and_next_assoc with_rhnlen_enc [OF name_okD [OF assms(1)]] drop_exact
    with_rhnlen_enc [OF name_okD [OF assms(2)]] Let_def
  by (((rule writer_rules, assumption) | (rule w_copy_next [where pre = "enc_name a @ enc_name b" and post = "[]" and bs = t], assumption) |
     (use assms in simp; fail))+)

lemma add_px_ok:
  assumes "length p = 2" "name_ok a" "name_ok b" "2 + length M + length (p @ enc_name a @ enc_name b) \<le> cap"
  shows "wrote M cap cb [] w \<Longrightarrow>
    safe (add_px mem cap (length M) (p @ enc_name a @ enc_name b) w) (wrote M cap cb [Raw p, Nm a, Nm b])"
proof -
  have d: "drop (2 + length (enc_name a)) (p @ enc_name a @ enc_name b) = enc_name b" using assms(1) by simp
  show "wrote M cap cb [] w \<Longrightarrow> ?thesis"
    unfolding add_px_def and_next_assoc drop_exact [of p, unfolded assms(1)] with_rhnlen_enc [OF name_okD [OF assms(2)]] Let_def d
    by (((rule writer_rules, assumption) | (rule w_copy_next [where pre = "[]" and bs = p], assumption) |
       (use assms length_enc_name_pos [of a] in simp; fail) | (subst if_not_P))+)
qed

lemma add_srv_ok:
  assumes "length p = 6" "name_ok a" "2 + length M + length (p @ enc_name a) \<le> cap"
  shows "wrote M cap cb [] w \<Longrightarrow>
    safe (add_srv mem cap (length M) (p @ enc_name a) w) (wrote M cap cb [Raw p, Nm a])"
  unfolding add_srv_def and_next_assoc drop_exact [of p, unfolded assms(1)]
  by (((rule writer_rules, assumption) | (rule w_copy_next [where pre = "[]" and bs = p], assumption) |
     (use assms length_enc_name_pos [of a] in simp; fail) | (subst if_not_P))+)

lemma add_nxt_ok:
  assumes "name_ok a" "2 + length M + length (enc_name a @ t) \<le> cap"
  shows "wrote M cap cb [] w \<Longrightarrow>
    safe (add_nxt mem cap (length M) (enc_name a @ t) w) (\<lambda>w. wrote M cap cb [Nm a, Raw t] w \<or> t = [] \<and> wrote M cap cb [Nm a] w)"
  unfolding add_nxt_def and_next_assoc with_rhnlen_enc [OF name_okD [OF assms(1)]]
proof (rule w_name_next, assumption)
  fix w' assume w': "wrote M cap cb ([] @ [Nm a]) w'"
  then show "safe (and_next (w_assert (\<lambda>rdlen. rdlen \<le> length (enc_name a)) w') (\<lambda>w.
      if \<not> length (enc_name a) \<le> length (enc_name a @ t) then None
      else if length (enc_name a) < length (enc_name a @ t)
        then w_copy cap (length M) (enc_name a @ t) (length (enc_name a)) (length (enc_name a @ t) - length (enc_name a)) w
      else go_on w)) (\<lambda>w. wrote M cap cb [Nm a, Raw t] w \<or> t = [] \<and> wrote M cap cb [Nm a] w)"
  proof (rule w_assert_next)
    have "safe (w_copy cap (length M) (enc_name a @ t) (length (enc_name a)) (length t) w') (wrote M cap cb (([] @ [Nm a]) @ [Raw t]))"
      by (rule w_copy_ok [OF w']) (use assms in \<open>simp_all add: segment_def\<close>)
    then show "safe (if \<not> length (enc_name a) \<le> length (enc_name a @ t) then None
      else if length (enc_name a) < length (enc_name a @ t)
        then w_copy cap (length M) (enc_name a @ t) (length (enc_name a)) (length (enc_name a @ t) - length (enc_name a)) w'
      else go_on w') (\<lambda>w. wrote M cap cb [Nm a, Raw t] w \<or> t = [] \<and> wrote M cap cb [Nm a] w)"
      using w' by (auto elim: safe_mono)
  qed simp
qed (use assms in simp_all)

lemma naptr_ilen_ok:
  assumes "length a = unat x" "length b = unat y" "length c = unat z" "length p = 4" "0 < length r"
  shows "naptr_ilen 3 (p @ (x # a) @ (y # b) @ (z # c) @ r) 4 = Some (7 + length a + length b + length c)"
  using assms by (simp add: numeral_3_eq_3 nth_append Let_def)

lemma add_naptr_ok:
  assumes "length p = 4" "length a = unat x" "length b = unat y" "length c = unat z" "name_ok n"
    and data: "data = p @ (x # a) @ (y # b) @ (z # c) @ enc_name n" and room: "2 + length M + length data \<le> cap"
  shows "wrote M cap cb [] w \<Longrightarrow>
    safe (add_naptr mem cap (length M) data w) (wrote M cap cb [Raw (p @ (x # a) @ (y # b) @ (z # c)), Nm n])"
proof -
  let ?t = "p @ (x # a) @ (y # b) @ (z # c)"
  have t: "data = ?t @ enc_name n" "length ?t = 7 + length a + length b + length c" using data assms(1) by simp_all
  have il: "naptr_ilen 3 data 4 = Some (length ?t)"
    using naptr_ilen_ok [OF assms(2-4,1) length_enc_name_pos] data t(2) by simp
  have len: "4 < length data" using t by simp
  show "wrote M cap cb [] w \<Longrightarrow> ?thesis"
    unfolding add_naptr_def il option.case and_next_assoc unfolding t(1) drop_exact
    by (subst if_not_P, use len data in simp, rule w_copy_next [where pre = "[]" and bs = ?t and post = "enc_name n"], assumption,
        simp, simp, simp, use room data assms(5) in simp, rule writer_rules, assumption, rule assms,
        use room data in simp, rule writer_rules, assumption, use data in simp, simp)
qed

text \<open>Values that stand there as they are.\<close>

lemma vals_at_literal:
  assumes "list_all (\<lambda>v. case v of Nm ls \<Rightarrow> name_ok ls | Raw bs \<Rightarrow> True) vs"
  shows "vals_at (pre @ enc_vals vs @ post) (length pre) vs (length pre + length (enc_vals vs))"
  using assms
proof (induction vs arbitrary: pre)
  case (Cons v vs)
  have IH: "vals_at ((pre @ enc_val v) @ enc_vals vs @ post) (length (pre @ enc_val v)) vs
      (length (pre @ enc_val v) + length (enc_vals vs))"
    by (rule Cons.IH) (use Cons.prems in simp)
  have "val_at (pre @ enc_val v @ enc_vals vs @ post) (length pre) v (length (pre @ enc_val v))"
  proof (cases v)
    case (Nm ls)
    then have "holds_name (pre @ enc_name ls @ enc_vals vs @ post) (length pre) (length (enc_name ls)) ls"
      unfolding holds_name_def using name_at_enc [of ls pre "enc_vals vs @ post"] Cons.prems by (auto dest: name_okD)
    then show ?thesis using Nm Cons.prems by simp
  qed (simp add: segment_def)
  then show ?case using IH by (auto simp: add.assoc)
qed simp

definition legal_vals :: "fval list \<Rightarrow> bool" where
  "legal_vals vs \<longleftrightarrow> list_all (\<lambda>v. case v of Nm ls \<Rightarrow> name_ok ls | Raw bs \<Rightarrow> True) vs"

lemma field_fits_legal: "list_all2 field_fits fs vs \<Longrightarrow> legal_vals vs"
proof (induction rule: list_all2_induct)
  case (Cons f fs v vs)
  then show ?case by (cases f; cases v) (auto simp: legal_vals_def)
qed (simp add: legal_vals_def)

lemma vals_at_Raw:
  assumes "vals_at m p [Raw (enc_vals vs)] q" "legal_vals vs"
  shows "vals_at m p vs q"
proof -
  have q: "q = p + length (enc_vals vs)" "q \<le> length m" "segment p (length (enc_vals vs)) m = enc_vals vs"
    using assms(1) by auto
  then have "m = take p m @ enc_vals vs @ drop q m" "length (take p m) = p"
    by (auto simp: segment_def) (metis append_take_drop_id drop_drop add.commute)
  then show ?thesis using vals_at_literal [of vs "take p m" "drop q m"] assms(2) q(1) by (auto simp: legal_vals_def)
qed

lemma vals_at_split: "vals_at m p (Raw (a @ b) # vs) q \<Longrightarrow> vals_at m p (Raw a # Raw b # vs) q"
proof -
  assume h: "vals_at m p (Raw (a @ b) # vs) q"
  then have s: "segment p (length a + length b) m = a @ b" "p + (length a + length b) \<le> length m"
    "vals_at m (p + (length a + length b)) vs q" by auto
  have "segment p (length a) m @ segment (p + length a) (length b) m = a @ b"
    using s(1) segment_append [of p "length a" m "length b"] by simp
  then have "segment p (length a) m = a" "segment (p + length a) (length b) m = b"
    using s(2) by (simp_all add: append_eq_append_conv length_segment)
  then show ?thesis using s(2,3) by (auto simp: add.assoc)
qed

text \<open>The types whose names \<open>add_rr\<close> compresses.\<close>

definition packed_type :: "nat \<Rightarrow> bool" where
  "packed_type tp \<longleftrightarrow> tp \<in> {2, 3, 4, 5, 6, 7, 8, 9, 12, 14, 15, 17, 18, 21, 26, 30, 33, 35, 36}"

text \<open>Writing the data of a record.\<close>

lemma add_data_ok:
  assumes fit: "data_fits tp data vs" and inv: "names_inv M cb" and room: "2 + length M + length data \<le> cap"
  shows "safe (add_data mem cap (length M) tp data ([], cb, calls)) (\<lambda>(out, cb', calls').
    names_inv (M @ out) cb' \<and> vals_at (M @ out) (length M) vs (length (M @ out)) \<and> length out \<le> length data \<and>
    2 + length M + length out \<le> cap \<and> (\<exists>ext. cb' = cb @ ext) \<and>
    (tp \<in> {T_A, T_AAAA} \<longrightarrow> cb' = cb) \<and> (packed_type tp \<longrightarrow> names_listed cb' vs))"
proof -
  obtain fs where fs: "rr_layout tp data = Some fs" "list_all2 field_fits fs vs" and data: "data = enc_vals vs"
    using fit by (auto simp: data_fits_def)
  have start: "wrote M cap cb [] ([], cb, calls)" using inv room by (simp add: wrote_start)
  have legal: "legal_vals vs" by (rule field_fits_legal [OF fs(2)])
  let ?P = "\<lambda>w. \<exists>us. wrote M cap cb us w \<and> enc_vals us = data \<and>
      (\<forall>m p q. vals_at m p us q \<longrightarrow> vals_at m p vs q) \<and> (tp \<in> {T_A, T_AAAA} \<longrightarrow> us = [Raw data]) \<and>
      (packed_type tp \<longrightarrow> (\<forall>c. names_listed c us \<longrightarrow> names_listed c vs))"
  have same: "safe r ?P" if "safe r (wrote M cap cb us)" "us = vs" "tp \<notin> {T_A, T_AAAA}" for r us
    using that data by (auto elim!: safe_mono)
  have "safe (add_data mem cap (length M) tp data ([], cb, calls)) ?P"
  proof -
    consider (name) "tp \<in> {T_CNAME, T_MB, T_MD, T_MF, T_MG, T_MR, T_NS, T_PTR}" | (minfo) "tp \<in> {T_MINFO, T_RP}"
      | (mx) "tp \<in> {T_MX, T_AFSDB, T_RT, T_KX}" | (soa) "tp = T_SOA" | (px) "tp = T_PX" | (srv) "tp = T_SRV"
      | (nxt) "tp = T_NXT" | (naptr) "tp = T_NAPTR"
      | (other) "tp \<notin> {2, 3, 4, 5, 6, 7, 8, 9, 12, 14, 15, 17, 18, 21, 26, 30, 33, 35, 36}" by auto
    then show ?thesis
    proof cases
      case name
      then have "fs = [Name]" using fs(1) by (auto simp: rr_layout_def)
      then obtain a where "vs = [Nm a]" "name_ok a" using fs(2) by (auto simp: list_all2_Cons1)
      then show ?thesis
        using same [OF add_name_ok [of a M cap cb _ mem]] start name room data by (auto simp: add_data_def)
    next
      case minfo
      then have "fs = [Name, Name]" using fs(1) by (auto simp: rr_layout_def)
      then obtain a b where "vs = [Nm a, Nm b]" "name_ok a" "name_ok b" using fs(2) by (auto simp: list_all2_Cons1)
      then show ?thesis
        using same [OF add_minfo_ok [of a b M cap cb _ mem]] start minfo room data by (auto simp: add_data_def)
    next
      case mx
      then have "fs = [Bytes 2, Name]" using fs(1) by (auto simp: rr_layout_def)
      then obtain b a where "vs = [Raw b, Nm a]" "length b = 2" "name_ok a" using fs(2) by (auto simp: list_all2_Cons1)
      then show ?thesis
        using same [OF add_mx_ok [of b a M cap cb _ mem]] start mx room data by (auto simp: add_data_def)
    next
      case soa
      then have "fs = [Name, Name, Bytes 20]" using fs(1) by (auto simp: rr_layout_def)
      then obtain a b c where "vs = [Nm a, Nm b, Raw c]" "name_ok a" "name_ok b" "length c = 20"
        using fs(2) by (auto simp: list_all2_Cons1)
      then show ?thesis
        using same [OF add_soa_ok [of a b c M cap cb _ mem]] start soa room data by (auto simp: add_data_def)
    next
      case px
      then have "fs = [Bytes 2, Name, Name]" using fs(1) by (auto simp: rr_layout_def)
      then obtain c a b where "vs = [Raw c, Nm a, Nm b]" "length c = 2" "name_ok a" "name_ok b"
        using fs(2) by (auto simp: list_all2_Cons1)
      then show ?thesis
        using same [OF add_px_ok [of c a b M cap cb _ mem]] start px room data by (auto simp: add_data_def)
    next
      case srv
      then have "fs = [Bytes 6, Name]" using fs(1) by (auto simp: rr_layout_def)
      then obtain b a where "vs = [Raw b, Nm a]" "length b = 6" "name_ok a" using fs(2) by (auto simp: list_all2_Cons1)
      then show ?thesis
        using same [OF add_srv_ok [of b a M cap cb _ mem]] start srv room data by (auto simp: add_data_def)
    next
      case nxt
      then have "fs = [Name, Rest]" using fs(1) by (auto simp: rr_layout_def)
      then obtain a t where vs: "vs = [Nm a, Raw t]" "name_ok a" using fs(2) by (auto simp: list_all2_Cons1)
      have eq: "add_data mem cap (length M) tp data ([], cb, calls) = add_nxt mem cap (length M) (enc_name a @ t) ([], cb, calls)"
        using nxt data vs(1) by (simp add: add_data_def)
      have "2 + length M + length (enc_name a @ t) \<le> cap" using room data vs(1) by simp
      from add_nxt_ok [OF vs(2) this start, of mem] show ?thesis unfolding eq
      proof (rule safe_mono)
        fix w assume "wrote M cap cb [Nm a, Raw t] w \<or> t = [] \<and> wrote M cap cb [Nm a] w"
        then show "?P w"
        proof
          assume "wrote M cap cb [Nm a, Raw t] w"
          then show ?thesis using vs(1) data nxt by (intro exI [of _ vs]) auto
        next
          assume "t = [] \<and> wrote M cap cb [Nm a] w"
          then show ?thesis using vs(1) data nxt by (intro exI [of _ "[Nm a]"]) (auto simp: segment_def names_listed_def)
        qed
      qed
    next
      case naptr
      then have "fs = [Bytes 4, Str, Str, Str, Name]" using fs(1) by (auto simp: rr_layout_def)
      then obtain c x a y b z d n where vs: "vs = [Raw c, Raw (x # a), Raw (y # b), Raw (z # d), Nm n]" "length c = 4"
        "length a = unat x" "length b = unat y" "length d = unat z" "name_ok n"
        using fs(2) by (auto simp: list_all2_Cons1)
      then have d: "data = c @ (x # a) @ (y # b) @ (z # d) @ enc_name n" using data by simp
      let ?us = "[Raw (c @ (x # a) @ (y # b) @ (z # d)), Nm n]"
      have eq: "add_data mem cap (length M) tp data ([], cb, calls) = add_naptr mem cap (length M) data ([], cb, calls)"
        using naptr by (simp add: add_data_def)
      have "vals_at m p vs q" if "vals_at m p ?us q" for m p q
        using that vals_at_split [of m p c "(x # a) @ (y # b) @ (z # d)" "[Nm n]" q]
          vals_at_split [of m _ "x # a" "(y # b) @ (z # d)" "[Nm n]" q] vals_at_split [of m _ "y # b" "z # d" "[Nm n]" q]
        unfolding vs(1) vals_at.simps(2) by blast
      moreover have "\<forall>c. names_listed c ?us \<longrightarrow> names_listed c vs" by (simp add: names_listed_def vs(1))
      moreover have "enc_vals ?us = data" using d by simp
      ultimately have "?P w" if "wrote M cap cb ?us w" for w
        using that naptr by (intro exI [of _ ?us] conjI) (blast | (rule impI, assumption) | (simp; fail))+
      then show ?thesis unfolding eq by (rule safe_mono [OF add_naptr_ok [OF vs(2-6) d room start, of mem]])
    next
      case other
      have eq: "add_data mem cap (length M) tp data ([], cb, calls) = w_bytes cap (length M) data ([], cb, calls)"
        using other by (simp add: add_data_def)
      have "safe (w_bytes cap (length M) data ([], cb, calls)) (wrote M cap cb ([] @ [Raw data]))"
        by (rule w_bytes_ok [OF start]) (use room in simp)
      then show ?thesis unfolding eq
        by (rule safe_mono) (use data other vals_at_Raw [OF _ legal] in \<open>auto intro!: exI [of _ "[Raw data]"] simp: packed_type_def simp del: vals_at.simps\<close>)
    qed
  qed
  then show ?thesis
  proof (rule safe_mono)
    fix w assume "?P w"
    then obtain us where us: "wrote M cap cb us w" "enc_vals us = data" "\<And>m p q. vals_at m p us q \<Longrightarrow> vals_at m p vs q"
      "tp \<in> {T_A, T_AAAA} \<longrightarrow> us = [Raw data]" "packed_type tp \<longrightarrow> (\<forall>c. names_listed c us \<longrightarrow> names_listed c vs)" by blast
    obtain out cb' calls' where w: "w = (out, cb', calls')" by (cases w)
    have "tp \<in> {T_A, T_AAAA} \<longrightarrow> (\<forall>ls. Nm ls \<notin> set us)" using us(4) by auto
    then have "tp \<in> {T_A, T_AAAA} \<longrightarrow> cb' = cb" using us(1) unfolding w wrote_def by blast
    then show "case w of (out, cb', calls') \<Rightarrow>
      names_inv (M @ out) cb' \<and> vals_at (M @ out) (length M) vs (length (M @ out)) \<and> length out \<le> length data \<and>
      2 + length M + length out \<le> cap \<and> (\<exists>ext. cb' = cb @ ext) \<and>
      (tp \<in> {T_A, T_AAAA} \<longrightarrow> cb' = cb) \<and> (packed_type tp \<longrightarrow> names_listed cb' vs)"
      using us(1,2,5) us(3) [of "M @ out" "length M" "length (M @ out)"] unfolding w wrote_def prod.case by metis
  qed
qed

section \<open>add\_rr writes what rrs2cent reads\<close>

text \<open>The header of a message with its bytes out of the way: no name can start there.\<close>

definition masked :: "byte list \<Rightarrow> byte list" where
  "masked msg = replicate sizeof_dns_hdr_t 0x80 @ drop sizeof_dns_hdr_t msg"

lemma length_masked [simp]: "12 \<le> length msg \<Longrightarrow> length (masked msg) = length msg"
  by (simp add: masked_def)

lemma masked_append [simp]: "12 \<le> length msg \<Longrightarrow> masked (msg @ x) = masked msg @ x"
  by (simp add: masked_def)

lemma bump_count [simp]:
  assumes "12 \<le> length msg"
  shows "length (bump_count (count_field s) msg) = length msg" "masked (bump_count (count_field s) msg) = masked msg"
  using assms by (cases s; simp add: bump_count_def count_field_def masked_def overwrite_def)+

text \<open>A record in a message: its name, type, TTL and the values of its data.\<close>

type_synonym rr_spec = "label list \<times> nat \<times> u32 \<times> fval list"

definition rr_written :: "byte list \<Rightarrow> nat \<Rightarrow> rr_spec \<Rightarrow> nat \<Rightarrow> bool" where
  "rr_written m p = (\<lambda>(nm, tp, ttl, vs) q. name_ok nm \<and>
     (\<exists>n. holds_name m p n nm \<and> getint16 m (p + n) = of_nat tp \<and> getint16 m (p + n + 2) = C_IN \<and>
        getint32 m (p + n + 4) = ttl \<and> q = p + n + 10 + unat (getint16 m (p + n + 8)) \<and> q \<le> length m \<and>
        vals_at m (p + n + 10) vs q))"

fun rrs_written :: "byte list \<Rightarrow> nat \<Rightarrow> rr_spec list \<Rightarrow> nat \<Rightarrow> bool" where
  "rrs_written m p [] q \<longleftrightarrow> q = p"
| "rrs_written m p (r # rs) q \<longleftrightarrow> (\<exists>p'. rr_written m p r p' \<and> rrs_written m p' rs q)"

lemma getint_append:
  "i + 2 \<le> length m \<Longrightarrow> getint16 (m @ x) i = getint16 m i"
  "i + 4 \<le> length m \<Longrightarrow> getint32 (m @ x) i = getint32 m i"
  by (simp_all add: getint16_def getint32_def nth_append)

lemma rr_written_append: "rr_written m p r q \<Longrightarrow> rr_written (m @ x) p r q"
proof -
  obtain nm tp ttl vs where r: "r = (nm, tp, ttl, vs)" by (cases r)
  assume "rr_written m p r q"
  then obtain n where n: "name_ok nm" "holds_name m p n nm" "getint16 m (p + n) = of_nat tp"
    "getint16 m (p + n + 2) = C_IN" "getint32 m (p + n + 4) = ttl" "q = p + n + 10 + unat (getint16 m (p + n + 8))"
    "q \<le> length m" "vals_at m (p + n + 10) vs q" by (auto simp: rr_written_def r)
  have "p + n + 8 + 2 \<le> length m" using n(6,7) by linarith
  then have "getint16 (m @ x) (p + n) = getint16 m (p + n)" "getint16 (m @ x) (p + n + 2) = getint16 m (p + n + 2)"
    "getint32 (m @ x) (p + n + 4) = getint32 m (p + n + 4)" "getint16 (m @ x) (p + n + 8) = getint16 m (p + n + 8)"
    by (intro getint_append; linarith)+
  then show ?thesis unfolding rr_written_def r prod.case
    using n holds_name_append [OF n(2), of x] vals_at_append [OF n(8), of x] by (intro conjI exI [of _ n]) auto
qed

lemma rrs_written_append: "rrs_written m p rs q \<Longrightarrow> rrs_written (m @ x) p rs q"
  by (induction rs arbitrary: p) (auto intro: rr_written_append)

lemma rrs_written_snoc: "rrs_written m p rs q \<Longrightarrow> rr_written m q r q' \<Longrightarrow> rrs_written m p (rs @ [r]) q'"
  by (induction rs arbitrary: p) auto

definition ans_inv :: "answer \<Rightarrow> bool" where
  "ans_inv st \<longleftrightarrow> 12 \<le> length (a_msg st) \<and> 2 + length (a_msg st) \<le> a_alloc st \<and> names_inv (masked (a_msg st)) (a_cb st)"

lemma ensure_room_ok:
  "safe (ensure_room mem need st) (\<lambda>st'. a_msg st' = a_msg st \<and> a_cb st' = a_cb st \<and> a_sva st' = a_sva st \<and> a_ar st' = a_ar st \<and>
     2 + length (a_msg st) + need \<le> a_alloc st')"
proof -
  have "n \<le> (n + 127) div 128 * 128" for n :: nat
    using div_mult_mod_eq [of "n + 127" 128] mod_less_divisor [of 128 "n + 127"] by linarith
  then show ?thesis by (auto simp: ensure_room_def Let_def)
qed

text \<open>The record that the written bytes hold.\<close>

lemma rr_written_new:
  assumes m: "12 \<le> length M" and name: "holds_name (M @ nbuf) (length M) (length nbuf) nm" "name_ok nm"
    and len: "length out < 65536" "tp < 65536"
    and vals: "vals_at (M @ nbuf @ rr_hdr tp ttl (length out) @ out) (length (M @ nbuf @ rr_hdr tp ttl (length out))) vs
      (length (M @ nbuf @ rr_hdr tp ttl (length out) @ out))"
  shows "rr_written (M @ nbuf @ rr_hdr tp ttl (length out) @ out) (length M) (nm, tp, ttl, vs)
    (length (M @ nbuf @ rr_hdr tp ttl (length out) @ out))"
proof -
  let ?m = "M @ nbuf @ rr_hdr tp ttl (length out) @ out" and ?p = "M @ nbuf"
  have g: "getint16 ?m (length ?p) = of_nat tp" "getint16 ?m (length ?p + 2) = C_IN" "getint32 ?m (length ?p + 4) = ttl"
    "getint16 ?m (length ?p + 8) = of_nat (length out)"
    using getint16_put [of ?p "of_nat tp"] getint16_put [of "?p @ putint16 (of_nat tp)" C_IN]
      getint32_put [of "?p @ putint16 (of_nat tp) @ putint16 C_IN" ttl]
      getint16_put [of "?p @ putint16 (of_nat tp) @ putint16 C_IN @ putint32 ttl" "of_nat (length out)"]
    by (simp_all add: rr_hdr_def add.assoc)
  have l: "length (rr_hdr tp ttl (length out)) = 10" by (simp add: rr_hdr_def)
  have "unat (of_nat (length out) :: u16) = length out" using len(1) by (simp add: unsigned_of_nat take_bit_nat_eq_self)
  then show ?thesis unfolding rr_written_def prod.case
    using name g vals l holds_name_append [OF name(1), of "rr_hdr tp ttl (length out) @ out"]
    by (intro conjI exI [of _ "length nbuf"]) (simp_all add: add.assoc)
qed

text \<open>
  One call: nothing fails, and if the record is not dropped it stands at the end of the message. A record of the
  additional section that exceeds the size for UDP is dropped; that leaves the list of names sound because its
  name is one the message already has.
\<close>

lemma add_rr_ok:
  assumes inv: "ans_inv st" and nm: "name_ok nm" and fit: "data_fits tp data vs" and tp: "tp < 65536"
    and extra: "section = S_ADDITIONAL \<Longrightarrow> udp \<noteq> None \<Longrightarrow> listed (a_cb st) nm \<and> tp \<in> {T_A, T_AAAA}"
  shows "safe (add_rr mem (enc_name nm @ rest) tp ttl data section udp st) (\<lambda>st'.
    ans_inv st' \<and> a_sva st' = a_sva st \<and> a_ar st' = a_ar st \<and> (\<exists>ext. a_cb st' = a_cb st @ ext) \<and>
    (packed_type tp \<longrightarrow> names_listed (a_cb st') vs) \<and>
    ((\<exists>bytes. a_msg st' = bump_count (count_field section) (a_msg st) @ bytes \<and>
        rr_written (masked (a_msg st')) (length (a_msg st)) (nm, tp, ttl, vs) (length (a_msg st'))) \<and>
        (section = S_ADDITIONAL \<longrightarrow> (\<forall>u. udp = Some u \<longrightarrow> length (a_msg st') \<le> u)) \<or>
     a_msg st' = a_msg st \<and> section = S_ADDITIONAL \<and> udp \<noteq> None))"
proof -
  let ?M = "masked (a_msg st)" and ?L = "length (a_msg st)"
  have m: "12 \<le> ?L" and cb: "names_inv ?M (a_cb st)" using inv by (simp_all add: ans_inv_def)
  then have L: "length ?M = ?L" by simp
  have dl: "length data < 65536" using fit by (auto simp: data_fits_def)
  have name: "safe (compress_name (mem (a_calls st)) (enc_name nm @ rest) ?L (a_cb st)) (\<lambda>(nbuf, cb').
    names_inv (?M @ nbuf) cb' \<and> holds_name (?M @ nbuf) ?L (length nbuf) nm \<and>
    length nbuf \<le> length (enc_name nm) \<and> (\<exists>ext. cb' = a_cb st @ ext) \<and> listed cb' nm \<and>
    (listed (a_cb st) nm \<longrightarrow> names_inv ?M cb'))" using cb_step [OF cb nm] unfolding L .
  show ?thesis
  proof (cases "compress_name (mem (a_calls st)) (enc_name nm @ rest) ?L (a_cb st) = return_0")
    case True
    then show ?thesis by (simp add: add_rr_def)
  next
    case False
    then obtain nbuf cb where n: "compress_name (mem (a_calls st)) (enc_name nm @ rest) ?L (a_cb st) = go_on (nbuf, cb)"
      "names_inv (?M @ nbuf) cb" "holds_name (?M @ nbuf) ?L (length nbuf) nm" "length nbuf \<le> length (enc_name nm)"
      "\<exists>ext. cb = a_cb st @ ext" "listed (a_cb st) nm \<longrightarrow> names_inv ?M cb"
      using name unfolding safe_def by (auto split: option.splits)
    let ?st0 = "st\<lparr>a_cb := cb, a_calls := a_calls st + 1\<rparr>"
    have nb: "\<not> length nbuf > DNSNAMEBUFSIZE" using n(4) nm by (simp add: name_ok_def)
    show ?thesis unfolding add_rr_def n(1) option.case prod.case if_not_P [OF nb]
    proof (rule safe_next [OF ensure_room_ok])
      fix st1 :: answer
      assume "a_msg st1 = a_msg ?st0 \<and> a_cb st1 = a_cb ?st0 \<and> a_sva st1 = a_sva ?st0 \<and> a_ar st1 = a_ar ?st0 \<and>
        2 + length (a_msg ?st0) + (length nbuf + 10 + length data) \<le> a_alloc st1"
      then have st1: "a_msg st1 = a_msg st" "a_cb st1 = cb" "a_sva st1 = a_sva st" "a_ar st1 = a_ar st"
        "2 + ?L + (length nbuf + 10 + length data) \<le> a_alloc st1" by simp_all
      let ?base = "length (a_msg st1) + length nbuf + 10"
      let ?hdr = "\<lambda>k. rr_hdr tp ttl k"
      have base: "length (?M @ nbuf @ ?hdr k) = ?base" for k using L st1(1) by (simp add: rr_hdr_def)
      have room: "2 + length (?M @ nbuf @ ?hdr k) + length data \<le> a_alloc st1" for k
        using st1(1,5) unfolding base by simp
      have inv1: "names_inv (?M @ nbuf @ ?hdr k) cb" for k using names_inv_append [OF n(2), of "?hdr k"] by simp
      note data = add_data_ok [OF fit inv1 room, where mem = mem and calls = "a_calls st1", unfolded base]
      have fits_buf: "\<not> dnsmsghdroffset + ?base > a_alloc st1" using st1(1,5) by simp
      show "safe (let base = length (a_msg st1) + length nbuf + sizeof_rr_hdr_t in
          if dnsmsghdroffset + base > a_alloc st1 then None
          else and_next (add_data mem (a_alloc st1) base tp data ([], a_cb st1, a_calls st1)) (\<lambda>(out, cb, calls).
            let sz = base + length out; st2 = st1\<lparr>a_cb := cb, a_calls := calls\<rparr> in
            if (case udp of None \<Rightarrow> False | Some u \<Rightarrow> sz > u) \<and> section = S_ADDITIONAL then go_on st2
            else go_on (st2\<lparr>a_msg :=
                   bump_count (count_field section) (a_msg st1) @ nbuf @ rr_hdr tp ttl (length out) @ out\<rparr>)))
        (\<lambda>st'. ans_inv st' \<and> a_sva st' = a_sva st \<and> a_ar st' = a_ar st \<and> (\<exists>ext. a_cb st' = a_cb st @ ext) \<and>
          (packed_type tp \<longrightarrow> names_listed (a_cb st') vs) \<and>
          ((\<exists>bytes. a_msg st' = bump_count (count_field section) (a_msg st) @ bytes \<and>
              rr_written (masked (a_msg st')) (length (a_msg st)) (nm, tp, ttl, vs) (length (a_msg st'))) \<and>
            (section = S_ADDITIONAL \<longrightarrow> (\<forall>u. udp = Some u \<longrightarrow> length (a_msg st') \<le> u)) \<or>
           a_msg st' = a_msg st \<and> section = S_ADDITIONAL \<and> udp \<noteq> None))"
        (is "safe ?r ?Q")
      proof (cases "add_data mem (a_alloc st1) ?base tp data ([], cb, a_calls st1) = return_0")
        case True
        then show ?thesis using fits_buf st1(2) by (simp add: Let_def)
      next
        case False
        then obtain out cb2 calls2 where d: "add_data mem (a_alloc st1) ?base tp data ([], cb, a_calls st1) = go_on (out, cb2, calls2)"
          using data [of 0] unfolding safe_def by (auto split: option.splits)
        have D: "names_inv ((?M @ nbuf @ ?hdr k) @ out) cb2" "vals_at ((?M @ nbuf @ ?hdr k) @ out) ?base vs (length ((?M @ nbuf @ ?hdr k) @ out))"
          "length out \<le> length data" "2 + ?base + length out \<le> a_alloc st1" "\<exists>ext. cb2 = cb @ ext"
          "tp \<in> {T_A, T_AAAA} \<longrightarrow> cb2 = cb" "packed_type tp \<longrightarrow> names_listed cb2 vs" for k
          using data [of k] unfolding d by simp_all
        have ext: "\<exists>ext. cb2 = a_cb st @ ext" using D(5) n(5) by auto
        let ?st2 = "st1\<lparr>a_cb := cb2, a_calls := calls2\<rparr>"
        let ?bytes = "nbuf @ ?hdr (length out) @ out"
        let ?st3 = "?st2\<lparr>a_msg := bump_count (count_field section) (a_msg st) @ ?bytes\<rparr>"
        let ?C = "(case udp of None \<Rightarrow> False | Some u \<Rightarrow> ?base + length out > u) \<and> section = S_ADDITIONAL"
        have res: "?r = (if ?C then go_on ?st2 else go_on ?st3)"
          using d fits_buf st1(2) unfolding st1(1) by (simp add: Let_def)
        show ?thesis
        proof (cases ?C)
          case True
          note r = res [unfolded if_P [OF True]]
          have drop: "section = S_ADDITIONAL" "udp \<noteq> None" using True by (auto split: option.splits)
          then have "cb2 = cb" "names_inv ?M cb" using extra D(6) n(6) by blast+
          then have "ans_inv ?st2" using m st1 by (simp add: ans_inv_def)
          then show ?thesis unfolding r using st1 ext D(7) drop by simp
        next
          case False
          note r = res [unfolded if_not_P [OF False]]
          have msk: "masked (a_msg ?st3) = ?M @ ?bytes" using m by simp
          have len: "length (a_msg ?st3) = length (?M @ ?bytes)" using m L by simp
          have "ans_inv ?st3"
            unfolding ans_inv_def msk using m L st1(1) D(1) [of "length out"] D(4) by (simp add: rr_hdr_def)
          moreover have "rr_written (masked (a_msg ?st3)) ?L (nm, tp, ttl, vs) (length (a_msg ?st3))"
            unfolding msk len L [symmetric]
          proof (rule rr_written_new)
            show "holds_name (?M @ nbuf) (length ?M) (length nbuf) nm" using n(3) L by simp
            show "vals_at (?M @ ?bytes) (length (?M @ nbuf @ ?hdr (length out))) vs (length (?M @ ?bytes))"
              using D(2) [of "length out"] unfolding base [of "length out"] by simp
          qed (use m L nm tp D(3) dl in simp_all)
          moreover have "length (a_msg ?st3) = ?base + length out" using m st1(1) by (simp add: rr_hdr_def)
          then have "section = S_ADDITIONAL \<longrightarrow> (\<forall>u. udp = Some u \<longrightarrow> length (a_msg ?st3) \<le> u)" using False by auto
          ultimately show ?thesis unfolding r using st1(3,4) ext D(7) by auto
        qed
      qed
    qed
  qed
qed

section \<open>Reading it back\<close>

lemma masked_nth: "12 \<le> p \<Longrightarrow> p < length msg \<Longrightarrow> masked msg ! p = msg ! p"
  by (simp add: masked_def nth_append)

lemma masked_low: "p < 12 \<Longrightarrow> masked msg ! p = 0x80"
  by (simp add: masked_def nth_append)

lemma masked_segment: "12 \<le> p \<Longrightarrow> segment p k (masked msg) = segment p k msg"
  by (simp add: masked_def segment_def)

lemma masked_byte_label: "label_ok l \<Longrightarrow> (0x80 :: byte) \<noteq> of_nat (length l)"
  using length_byte(1) [of l] by (auto simp: label_ok_def dest: arg_cong [of _ _ unat])

lemma name_at_masked:
  assumes "name_at (masked msg) p ls h" "12 \<le> length msg"
  shows "12 \<le> p \<and> name_at msg p ls h"
  using assms(1)
proof (induction rule: name_at.induct)
  case (Root p)
  then have "12 \<le> p" using masked_low [of p msg] by (cases "p < 12") auto
  then show ?case using Root assms(2) by (auto intro!: name_at.Root simp: masked_nth)
next
  case (Label p l ls h)
  have "12 \<le> p" using Label.hyps(2,3) masked_low [of p msg] masked_byte_label [of l] by (cases "p < 12") auto
  then show ?case using Label assms(2) by (auto intro!: name_at.Label simp: masked_nth masked_segment)
next
  case (Pointer p ls h)
  have "12 \<le> p" using Pointer.hyps(2) masked_low [of p msg] by (cases "p < 12") (auto simp: word_le_nat_alt)
  then show ?case using Pointer assms(2) by (auto intro!: name_at.Pointer simp: masked_nth)
qed

lemma name_span_masked:
  assumes "name_span (masked msg) p n" "12 \<le> length msg" "12 \<le> p"
  shows "name_span msg p n"
  using assms(1,3)
proof (induction rule: name_span.induct)
  case (Root p)
  then show ?case using assms(2) name_span.Root [of p msg] by (simp add: masked_nth)
next
  case (Label p n)
  then show ?case using assms(2) name_span.Label [of p msg n] by (simp add: masked_nth)
next
  case (Pointer p)
  then show ?case using assms(2) name_span.Pointer [of p msg] by (simp add: masked_nth)
qed

lemma holds_name_masked: "holds_name (masked msg) p n ls \<Longrightarrow> 12 \<le> length msg \<Longrightarrow> 12 \<le> p \<and> holds_name msg p n ls"
  unfolding holds_name_def using name_at_masked name_span_masked by blast

text \<open>Values up to the case of names.\<close>

fun same_val :: "fval \<Rightarrow> fval \<Rightarrow> bool" where
  "same_val (Raw a) v \<longleftrightarrow> v = Raw a"
| "same_val (Nm ls) v \<longleftrightarrow> (\<exists>ms. v = Nm ms \<and> lower_name ms = lower_name ls)"

lemma same_vals_length: "list_all2 same_val vs ws \<Longrightarrow> length (enc_vals ws) = length (enc_vals vs)"
proof (induction rule: list_all2_induct)
  case (Cons v vs w ws)
  then show ?case by (cases v) (auto simp: length_enc_name dest: lower_enc_labels_length)
qed simp

lemma val_at_field:
  assumes "val_at (masked msg) p v q" "field_fits f v" "12 \<le> length msg" "12 \<le> p" "q \<le> e" "e \<le> length msg" "f = Rest \<Longrightarrow> q = e"
  shows "\<exists>w. field_at msg e f p w q \<and> same_val v w"
proof (cases v)
  case (Raw bs)
  have seg: "q = p + length bs" "segment p (length bs) msg = bs" using assms(1,3,4) Raw by (auto simp: masked_segment)
  show ?thesis
  proof (cases f)
    case Str
    then obtain b cs where b: "bs = b # cs" "length cs = unat b" using assms(2) Raw by auto
    have "p < length msg" using seg(1) b(1) assms(5,6) by simp
    then have "segment p (length bs) msg ! 0 = msg ! p" using b(1) by (simp add: segment_def)
    then have "msg ! p = b" using seg(2) b(1) by simp
    then show ?thesis using Str Raw seg b assms(5) by auto
  qed (use Raw seg assms(2,5,7) in auto)
next
  case (Nm ls)
  then obtain n where n: "name_ok ls" "holds_name (masked msg) p n ls" "q = p + n" using assms(1) by auto
  then obtain ms h where ms: "name_span msg p n" "name_at msg p ms h" "lower_name ms = lower_name ls" "h \<le> length ms"
    using holds_name_masked [OF n(2) assms(3)] unfolding holds_name_def by blast
  have "name_ok ms" using name_ok_lower [OF ms(3)] n(1) by simp
  then have "h \<le> 255" using ms(4) name_ok_few_labels [of ms] by simp
  then show ?thesis using Nm ms n(3) \<open>name_ok ms\<close> assms(2,5) by (cases f) auto
qed

lemma vals_at_le: "vals_at m p vs q \<Longrightarrow> p \<le> q"
proof (induction vs arbitrary: p)
  case (Cons v vs)
  then show ?case by (cases v) (auto, fastforce+)
qed simp

lemma vals_at_fields:
  "vals_at (masked msg) p vs e \<Longrightarrow> list_all2 field_fits fs vs \<Longrightarrow> Rest \<notin> set (butlast fs) \<Longrightarrow> 12 \<le> length msg \<Longrightarrow> 12 \<le> p \<Longrightarrow>
     e \<le> length msg \<Longrightarrow> \<exists>ws. fields_at msg e fs p ws \<and> list_all2 same_val vs ws"
proof (induction vs arbitrary: p fs)
  case (Cons v vs)
  then obtain f gs where fs: "fs = f # gs" "field_fits f v" "list_all2 field_fits gs vs" by (auto simp: list_all2_Cons2)
  obtain p' where p': "val_at (masked msg) p v p'" "vals_at (masked msg) p' vs e" using Cons.prems(1) by auto
  have le: "p' \<le> e" by (rule vals_at_le [OF p'(2)])
  have "f = Rest \<Longrightarrow> gs = []" using Cons.prems(3) fs(1) by (cases gs) auto
  then have "f = Rest \<Longrightarrow> p' = e" using fs(3) p'(2) by auto
  then obtain w where w: "field_at msg e f p w p'" "same_val v w"
    using val_at_field [OF p'(1) fs(2) Cons.prems(4,5) le Cons.prems(6)] by blast
  have "p \<le> p'" using p'(1) by (cases v) auto
  moreover have "Rest \<notin> set (butlast gs)" using Cons.prems(3) fs(1) by (auto split: if_splits)
  ultimately obtain ws where "fields_at msg e gs p' ws" "list_all2 same_val vs ws"
    using Cons.IH [OF p'(2) fs(3)] Cons.prems(4-6) by auto
  then show ?case using w fs(1) by (intro exI [of _ "w # ws"]) (auto simp del: field_at.simps)
qed simp

lemma layout_Rest_last: "rr_layout tp raw = Some fs \<Longrightarrow> Rest \<notin> set (butlast fs)"
  by (auto simp: rr_layout_def split: if_splits)

lemma layout_same_raw:
  assumes "rr_layout tp raw = Some fs" "list_all2 field_fits fs vs" "raw = enc_vals vs"
    "vals_at m p vs e" "e \<le> length m"
  shows "rr_layout tp (segment p (e - p) m) = Some fs"
proof (cases "tp = T_IPSECKEY")
  case True
  then obtain gs where "fs = Bytes 3 # gs" using assms(1) by (auto simp: rr_layout_def split: if_splits)
  then obtain bs ws where vs: "vs = Raw bs # ws" "length bs = 3" using assms(2) by (auto simp: list_all2_Cons1)
  then have s: "segment p 3 m = bs" "vals_at m (p + 3) ws e" using assms(4) by auto
  have le: "p + 3 \<le> e" by (rule vals_at_le [OF s(2)])
  have "segment p (e - p) m ! 1 = segment p 3 m ! 1" using le assms(5) by (simp add: segment_def)
  moreover have "raw ! 1 = bs ! 1" using assms(3) vs by (simp add: nth_append)
  ultimately have eq: "segment p (e - p) m ! 1 = raw ! 1" using s(1) by simp
  have "3 \<le> length raw" "3 \<le> length (segment p (e - p) m)"
    using assms(3,5) vs le by (simp_all add: length_segment)
  then show ?thesis using assms(1) True unfolding rr_layout_def eq by (auto split: if_splits)
next
  case False
  then show ?thesis using assms(1) unfolding rr_layout_def by (simp only: if_False)
qed

text \<open>What reading a written record yields.\<close>

definition reads_as :: "rr_spec \<Rightarrow> stored \<Rightarrow> bool" where
  "reads_as = (\<lambda>(nm, tp, ttl, vs) s.
     if not_cached_type tp then s = None
     else \<exists>ws. s = Some (lower_name nm, tp, enc_vals ws) \<and> list_all2 same_val vs ws)"

lemma rr_written_reads:
  assumes w: "rr_written (masked msg) p (nm, tp, ttl, vs) q" and len: "12 \<le> length msg"
    and fit: "data_fits tp (enc_vals vs) vs" and tp: "tp < 65536"
  shows "12 \<le> p \<and> p < q \<and> q \<le> length msg \<and> (\<exists>s. reads_as (nm, tp, ttl, vs) s \<and> rr_at msg (length msg) p s q)"
proof -
  let ?m = "masked msg"
  obtain n where n: "name_ok nm" "holds_name ?m p n nm" "getint16 ?m (p + n) = of_nat tp" "getint16 ?m (p + n + 2) = C_IN"
    "q = p + n + 10 + unat (getint16 ?m (p + n + 8))" "q \<le> length msg" "vals_at ?m (p + n + 10) vs q"
    using w len by (auto simp: rr_written_def)
  have p: "12 \<le> p" "holds_name msg p n nm" using holds_name_masked [OF n(2) len] by simp_all
  then obtain ms h where ms: "name_span msg p n" "name_at msg p ms h" "lower_name ms = lower_name nm" "h \<le> length ms"
    unfolding holds_name_def by blast
  have nmok: "name_ok ms" using name_ok_lower [OF ms(3)] n(1) by simp
  then have h: "h \<le> 255" using ms(4) name_ok_few_labels [of ms] by simp
  have g: "getint16 ?m i = getint16 msg i" if "12 \<le> i" "i + 2 \<le> length msg" for i
    using that by (simp add: getint16_def masked_nth)
  have "getint16 msg (p + n) = of_nat tp" "getint16 msg (p + n + 2) = C_IN"
    "q = p + n + 10 + unat (getint16 msg (p + n + 8))"
    using n(3-5) n(6) p(1) by (simp_all add: g)
  note gets = this
  have tpu: "unat (of_nat tp :: u16) = tp" using tp by (simp add: unsigned_of_nat take_bit_nat_eq_self)
  have lt: "p < q" using gets(3) by linarith
  show ?thesis
  proof (cases "not_cached_type tp")
    case True
    have "rr_at msg (length msg) p None q"
      unfolding rr_at_def Let_def
      by (intro exI [of _ ms] exI [of _ h] exI [of _ n]) (use ms nmok h gets tpu True n(6) in simp)
    then show ?thesis using p(1) lt n(6) True by (auto simp: reads_as_def)
  next
    case False
    obtain fs where fs: "rr_layout tp (enc_vals vs) = Some fs" "list_all2 field_fits fs vs" "tp = T_NXT \<longrightarrow> length (enc_vals vs) \<le> 1040"
      using fit by (auto simp: data_fits_def)
    have d: "12 \<le> p + n + 10" using p(1) by simp
    obtain ws where ws: "fields_at msg q fs (p + n + 10) ws" "list_all2 same_val vs ws"
      using vals_at_fields [OF n(7) fs(2) layout_Rest_last [OF fs(1)] len d n(6)] by blast
    have "rr_layout tp (segment (p + n + 10) (q - (p + n + 10)) ?m) = Some fs"
      by (rule layout_same_raw [OF fs(1,2) refl n(7)]) (use n(6) len in simp)
    then have "rr_layout tp (segment (p + n + 10) (q - (p + n + 10)) msg) = Some fs" unfolding masked_segment [OF d] .
    moreover have "q - (p + n + 10) = unat (getint16 msg (p + n + 8))" using gets(3) by simp
    ultimately have "layout_at msg tp (p + n + 10) (unat (getint16 msg (p + n + 8))) ws"
      unfolding layout_at_def using ws(1) fs(3) same_vals_length [OF ws(2)] gets(3) by (metis add.assoc)
    then have "rr_at msg (length msg) p (Some (lower_name nm, tp, enc_vals ws)) q"
      unfolding rr_at_def Let_def
      by (intro exI [of _ ms] exI [of _ h] exI [of _ n]) (use ms nmok h gets tpu False n(6) in auto)
    then show ?thesis using p(1) lt n(6) False ws(2) by (auto simp: reads_as_def)
  qed
qed

lemma rrs_written_read:
  assumes "rrs_written (masked msg) p rs q" "12 \<le> length msg" "q \<le> length msg" "12 \<le> p"
    and "list_all (\<lambda>(nm, tp, ttl, vs). data_fits tp (enc_vals vs) vs \<and> tp < 65536) rs"
  shows "\<exists>ss. list_all2 reads_as rs ss \<and> rrs_at_from msg (length msg) p ss q"
  using assms(1,4,5)
proof (induction rs arbitrary: p)
  case (Cons r rs)
  obtain nm tp ttl vs where r: "r = (nm, tp, ttl, vs)" by (cases r)
  obtain p' where p': "rr_written (masked msg) p r p'" "rrs_written (masked msg) p' rs q" using Cons.prems(1) by auto
  obtain s where s: "12 \<le> p" "p < p'" "reads_as r s" "rr_at msg (length msg) p s p'"
    using rr_written_reads [OF p'(1) [unfolded r] assms(2)] Cons.prems(3) r by auto
  then obtain ss where "list_all2 reads_as rs ss" "rrs_at_from msg (length msg) p' ss q"
    using Cons.IH [OF p'(2)] Cons.prems(3) by auto
  then show ?case using s by (intro exI [of _ "s # ss"]) auto
qed auto

text \<open>The return value 0 needs an allocation that fails.\<close>

definition proceeds :: "'a outcome \<Rightarrow> bool" where
  "proceeds r \<longleftrightarrow> r \<noteq> return_0"

lemma proceeds_simps [simp]: "proceeds None" "proceeds (go_on x)" "\<not> proceeds return_0"
  by (simp_all add: proceeds_def)

lemma proceeds_next [intro]: "proceeds r \<Longrightarrow> (\<And>x. proceeds (f x)) \<Longrightarrow> proceeds (and_next r f)"
  by (simp add: and_next_def proceeds_def split: option.split)

lemma proceeds_rhnlen [intro]: "(\<And>l. proceeds (f l)) \<Longrightarrow> proceeds (with_rhnlen nm f)"
  by (simp add: with_rhnlen_def split: option.split)

lemma proceeds_compress [simp]: "proceeds (compress_name True inn offs cb)"
  by (auto simp: compress_name_def add_compel_def Let_def split: option.split prod.split)

lemma proceeds_writer [simp]:
  "proceeds (w_bytes cap base bs w)" "proceeds (w_copy cap base data i k w)" "proceeds (w_assert P w)"
  by (simp_all add: w_bytes_def w_copy_def w_assert_def split: prod.split)

lemma proceeds_name:
  assumes "\<And>i. mem i"
  shows "proceeds (w_name mem cap base nm w)" "proceeds (ensure_room mem need st)"
proof -
  obtain out cb calls where w: "w = (out, cb, calls)" by (cases w)
  show "proceeds (w_name mem cap base nm w)"
    using proceeds_compress [of nm "base + length out" cb] assms
    by (auto simp: w_name_def w proceeds_def split: option.splits)
  show "proceeds (ensure_room mem need st)" using assms by (simp add: ensure_room_def Let_def)
qed

lemma proceeds_data:
  assumes "\<And>i. mem i"
  shows "proceeds (add_data mem cap base tp data w)"
  unfolding add_data_def add_name_def add_minfo_def add_mx_def add_soa_def add_px_def add_srv_def add_nxt_def
    add_naptr_def Let_def
  by (simp split: option.split; intro conjI impI allI proceeds_next proceeds_rhnlen proceeds_name assms; simp;
      intro conjI impI allI proceeds_next proceeds_rhnlen proceeds_name assms; simp)

lemma proceeds_add_rr:
  assumes "\<And>i. mem i"
  shows "proceeds (add_rr mem rrn tp ttl data section udp st)"
proof -
  obtain r where r: "compress_name (mem (a_calls st)) rrn (length (a_msg st)) (a_cb st) = r" "proceeds r"
    using assms by simp
  show ?thesis
  proof (cases r)
    case (Some x)
    then obtain nbuf cb where "r = go_on (nbuf, cb)" using r(2) by (cases x) auto
    then show ?thesis
      unfolding add_rr_def Let_def r(1)
      by (auto intro!: proceeds_next proceeds_name proceeds_data assms split: prod.split)
  qed (simp add: add_rr_def r(1))
qed

text \<open>Any number of calls. A message is empty but for its header at first.\<close>

definition new_answer :: "byte list \<Rightarrow> nat \<Rightarrow> answer" where
  "new_answer hdr alloc = \<lparr>a_msg = hdr, a_alloc = alloc, a_cb = [], a_sva = [], a_ar = [], a_calls = 0\<rparr>"

fun add_rrs :: "(nat \<Rightarrow> bool) \<Rightarrow> nat option \<Rightarrow> (sect \<times> rr_spec) list \<Rightarrow> answer \<Rightarrow> answer outcome" where
  "add_rrs mem udp [] st = go_on st"
| "add_rrs mem udp ((s, nm, tp, ttl, vs) # rs) st =
     and_next (add_rr mem (enc_name nm) tp ttl (enc_vals vs) s udp st) (add_rrs mem udp rs)"

definition rr_fits :: "rr_spec \<Rightarrow> bool" where
  "rr_fits = (\<lambda>(nm, tp, ttl, vs). name_ok nm \<and> tp < 65536 \<and> data_fits tp (enc_vals vs) vs)"

lemma getint16_overwrite:
  assumes "i + 2 \<le> length msg" "j + 2 \<le> i \<or> i + 2 \<le> j" "j + 2 \<le> length msg"
  shows "getint16 (overwrite i (putint16 v) msg @ x) i = v" "getint16 (overwrite i (putint16 v) msg @ x) j = getint16 msg j"
proof -
  have "getint16 (take i msg @ putint16 v @ (drop (i + 2) msg @ x)) (length (take i msg)) = v" by (rule getint16_put)
  then show "getint16 (overwrite i (putint16 v) msg @ x) i = v" using assms(1) by (simp add: overwrite_def)
  have "(overwrite i (putint16 v) msg @ x) ! k = msg ! k" if "k < i \<or> i + 2 \<le> k" "k < length msg" for k
  proof -
    have "Suc (Suc (k - 2)) = k" if "i + 2 \<le> k" using that by simp
    then show ?thesis using that assms(1) by (auto simp: overwrite_def nth_append)
  qed
  then show "getint16 (overwrite i (putint16 v) msg @ x) j = getint16 msg j"
    using assms(2,3) by (auto simp: getint16_def)
qed

lemma bump_count_get:
  assumes "12 \<le> length msg"
  shows "getint16 (bump_count (count_field s) msg @ x) (count_field t) = getint16 msg (count_field t) + (if s = t then 1 else 0)"
proof (cases "s = t")
  case True
  then show ?thesis using assms getint16_overwrite(1) [of "count_field s" msg 0]
    by (cases s) (simp_all add: bump_count_def count_field_def)
next
  case False
  then show ?thesis using assms getint16_overwrite(2) [of "count_field s" msg "count_field t"]
    by (cases s; cases t) (simp_all add: bump_count_def count_field_def)
qed

lemma add_rrs_ok:
  assumes "ans_inv st" "list_all (\<lambda>(s, r). rr_fits r \<and> (s = S_ADDITIONAL \<longrightarrow> udp = None)) rs"
  shows "safe (add_rrs mem udp rs st) (\<lambda>st'. ans_inv st' \<and> a_sva st' = a_sva st \<and> a_ar st' = a_ar st \<and>
    (\<forall>s. getint16 (a_msg st') (count_field s) = getint16 (a_msg st) (count_field s) + of_nat (length (filter (\<lambda>r. fst r = s) rs))) \<and>
    rrs_written (masked (a_msg st')) (length (a_msg st)) (map snd rs) (length (a_msg st')) \<and>
    (\<exists>x. masked (a_msg st') = masked (a_msg st) @ x))"
  using assms
proof (induction rs arbitrary: st)
  case (Cons r rs)
  obtain s nm tp ttl vs where r: "r = (s, nm, tp, ttl, vs)" by (cases r)
  have m: "12 \<le> length (a_msg st)" using Cons.prems(1) by (simp add: ans_inv_def)
  have fit: "name_ok nm" "data_fits tp (enc_vals vs) vs" "tp < 65536" and sec: "s = S_ADDITIONAL \<Longrightarrow> udp = None"
    using Cons.prems(2) r by (auto simp: rr_fits_def)
  note one = add_rr_ok [OF Cons.prems(1) fit, of s udp mem "[]" ttl]
  show ?case unfolding r add_rrs.simps
  proof (rule safe_next)
    show "safe (add_rr mem (enc_name nm) tp ttl (enc_vals vs) s udp st) (\<lambda>st1.
      ans_inv st1 \<and> a_sva st1 = a_sva st \<and> a_ar st1 = a_ar st \<and>
      (\<exists>bytes. a_msg st1 = bump_count (count_field s) (a_msg st) @ bytes \<and>
        rr_written (masked (a_msg st1)) (length (a_msg st)) (nm, tp, ttl, vs) (length (a_msg st1))))"
      by (rule safe_mono [OF one [simplified]]) (use sec in auto)
  next
    fix st1 :: answer
    assume st1: "ans_inv st1 \<and> a_sva st1 = a_sva st \<and> a_ar st1 = a_ar st \<and>
      (\<exists>bytes. a_msg st1 = bump_count (count_field s) (a_msg st) @ bytes \<and>
        rr_written (masked (a_msg st1)) (length (a_msg st)) (nm, tp, ttl, vs) (length (a_msg st1)))"
    then obtain bytes where b: "a_msg st1 = bump_count (count_field s) (a_msg st) @ bytes"
      "rr_written (masked (a_msg st1)) (length (a_msg st)) (nm, tp, ttl, vs) (length (a_msg st1))" by blast
    have msk: "masked (a_msg st1) = masked (a_msg st) @ bytes" using m b(1) by simp
    show "safe (add_rrs mem udp rs st1) (\<lambda>st'. ans_inv st' \<and> a_sva st' = a_sva st \<and> a_ar st' = a_ar st \<and>
      (\<forall>t. getint16 (a_msg st') (count_field t) =
        getint16 (a_msg st) (count_field t) + of_nat (length (filter (\<lambda>r. fst r = t) ((s, nm, tp, ttl, vs) # rs)))) \<and>
      rrs_written (masked (a_msg st')) (length (a_msg st)) (map snd ((s, nm, tp, ttl, vs) # rs)) (length (a_msg st')) \<and>
      (\<exists>x. masked (a_msg st') = masked (a_msg st) @ x))"
    proof (rule safe_mono [OF Cons.IH], goal_cases)
      case (3 st')
      then obtain x where x: "masked (a_msg st') = masked (a_msg st1) @ x" by blast
      then have "rr_written (masked (a_msg st')) (length (a_msg st)) (nm, tp, ttl, vs) (length (a_msg st1))"
        using rr_written_append [OF b(2)] by simp
      moreover have "getint16 (a_msg st1) (count_field t) = getint16 (a_msg st) (count_field t) + (if s = t then 1 else 0)" for t
        unfolding b(1) by (rule bump_count_get [OF m])
      ultimately show ?case using 3 st1 x msk by auto
    qed (use st1 Cons.prems(2) in auto)
  qed
qed auto

lemma proceeds_add_rrs: "(\<And>i. mem i) \<Longrightarrow> proceeds (add_rrs mem udp rs st)"
proof (induction rs arbitrary: st)
  case (Cons r rs)
  obtain s nm tp ttl vs where "r = (s, nm, tp, ttl, vs)" by (cases r)
  then show ?case using Cons by (auto intro!: proceeds_next proceeds_add_rr)
qed simp

text \<open>C9. Records with data of the layout of their types added to a new message, those of the additional section
  without a limit for UDP: no assertion fails, nothing is written behind the allocated memory or read outside the
  data, the calls succeed if the allocations do, the counts of the header are the numbers of records added to the
  sections, and the records the message format defines in the finished message are the records added, in order, up to
  the case of the letters of names.\<close>

theorem answer_reads_back:
  assumes "length hdr = 12" "14 \<le> alloc"
    and "\<forall>(s, r) \<in> set rs. rr_fits r \<and> (s = S_ADDITIONAL \<longrightarrow> udp = None)"
  shows "safe (add_rrs mem udp rs (new_answer hdr alloc)) (\<lambda>st.
      (\<forall>s. getint16 (a_msg st) (count_field s) =
         getint16 hdr (count_field s) + of_nat (length (filter (\<lambda>r. fst r = s) rs))) \<and>
      (\<exists>ss. list_all2 reads_as (map snd rs) ss \<and> rrs_at_from (a_msg st) (length (a_msg st)) 12 ss (length (a_msg st)))) \<and>
    ((\<forall>i. mem i) \<longrightarrow> add_rrs mem udp rs (new_answer hdr alloc) \<noteq> return_0)"
proof -
  let ?st = "new_answer hdr alloc"
  have "ans_inv ?st" using assms(1,2) by (simp add: ans_inv_def new_answer_def)
  moreover have "list_all (\<lambda>(s, r). rr_fits r \<and> (s = S_ADDITIONAL \<longrightarrow> udp = None)) rs"
    using assms(3) by (auto simp: list_all_iff)
  ultimately have ok: "safe (add_rrs mem udp rs ?st) (\<lambda>st'. ans_inv st' \<and> a_sva st' = a_sva ?st \<and> a_ar st' = a_ar ?st \<and>
    (\<forall>s. getint16 (a_msg st') (count_field s) = getint16 (a_msg ?st) (count_field s) + of_nat (length (filter (\<lambda>r. fst r = s) rs))) \<and>
    rrs_written (masked (a_msg st')) (length (a_msg ?st)) (map snd rs) (length (a_msg st')) \<and>
    (\<exists>x. masked (a_msg st') = masked (a_msg ?st) @ x))" by (rule add_rrs_ok)
  have "safe (add_rrs mem udp rs ?st) (\<lambda>st.
      (\<forall>s. getint16 (a_msg st) (count_field s) =
         getint16 hdr (count_field s) + of_nat (length (filter (\<lambda>r. fst r = s) rs))) \<and>
      (\<exists>ss. list_all2 reads_as (map snd rs) ss \<and> rrs_at_from (a_msg st) (length (a_msg st)) 12 ss (length (a_msg st))))"
  proof (rule safe_mono [OF ok])
    fix st :: answer
    assume st: "ans_inv st \<and> a_sva st = a_sva ?st \<and> a_ar st = a_ar ?st \<and>
      (\<forall>s. getint16 (a_msg st) (count_field s) = getint16 (a_msg ?st) (count_field s) + of_nat (length (filter (\<lambda>r. fst r = s) rs))) \<and>
      rrs_written (masked (a_msg st)) (length (a_msg ?st)) (map snd rs) (length (a_msg st)) \<and>
      (\<exists>x. masked (a_msg st) = masked (a_msg ?st) @ x)"
    have "12 \<le> length (a_msg st)" "rrs_written (masked (a_msg st)) 12 (map snd rs) (length (a_msg st))"
      using st assms(1) by (simp_all add: ans_inv_def new_answer_def)
    moreover have "list_all (\<lambda>(nm, tp, ttl, vs). data_fits tp (enc_vals vs) vs \<and> tp < 65536) (map snd rs)"
      using assms(3) by (auto simp: list_all_iff rr_fits_def)
    ultimately have "\<exists>ss. list_all2 reads_as (map snd rs) ss \<and> rrs_at_from (a_msg st) (length (a_msg st)) 12 ss (length (a_msg st))"
      by (intro rrs_written_read) simp_all
    then show "(\<forall>s. getint16 (a_msg st) (count_field s) =
         getint16 hdr (count_field s) + of_nat (length (filter (\<lambda>r. fst r = s) rs))) \<and>
      (\<exists>ss. list_all2 reads_as (map snd rs) ss \<and> rrs_at_from (a_msg st) (length (a_msg st)) 12 ss (length (a_msg st)))"
      using st by (simp add: new_answer_def)
  qed
  moreover have "(\<forall>i. mem i) \<longrightarrow> add_rrs mem udp rs ?st \<noteq> return_0"
    using proceeds_add_rrs [of mem udp rs ?st] by (simp add: proceeds_def)
  ultimately show ?thesis by blast
qed

definition ex_records :: "(sect \<times> rr_spec) list" where
  "ex_records =
     [(S_ANSWER, [[97], [98]], T_CNAME, 60, [Nm [[99], [98]]]), (S_ANSWER, [[99], [98]], T_A, 5, [Raw [10, 0, 0, 1]])]"

text \<open>Two records, the name of the second of which is compressed.\<close>

theorem answer_reads_back_witness:
  "\<exists>st ss. add_rrs (\<lambda>_. True) None ex_records (new_answer (replicate 12 0) 256) = go_on st \<and>
     getint16 (a_msg st) 6 = 2 \<and> list_all2 reads_as (map snd ex_records) ss \<and>
     rrs_at_from (a_msg st) (length (a_msg st)) 12 ss (length (a_msg st))"
proof -
  have fit: "\<forall>(s, r) \<in> set ex_records. rr_fits r \<and> (s = S_ADDITIONAL \<longrightarrow> None = (None :: nat option))"
    by (simp add: ex_records_def rr_fits_def data_fits_def rr_layout_def name_ok_def label_ok_def enc_vals_def enc_name_def)
  note ok = answer_reads_back [where hdr = "replicate 12 0" and alloc = 256 and mem = "\<lambda>_. True" and udp = None,
    OF _ _ fit, simplified]
  obtain st where st: "add_rrs (\<lambda>_. True) None ex_records (new_answer (replicate 12 0) 256) = go_on st"
    "\<And>s. getint16 (a_msg st) (count_field s) =
       getint16 (replicate 12 0) (count_field s) + of_nat (length (filter (\<lambda>r. fst r = s) ex_records))"
    "\<exists>ss. list_all2 reads_as (map snd ex_records) ss \<and>
       rrs_at_from (a_msg st) (length (a_msg st)) 12 ss (length (a_msg st))"
    using ok unfolding safe_def by (auto split: option.splits)
  have "getint16 (a_msg st) 6 = 2"
    using st(2) [of S_ANSWER] by (simp add: count_field_def ex_records_def getint16_def)
  then show ?thesis using st(1,3) by blast
qed

section \<open>The OPT pseudo record comes back\<close>

lemma getint16_at: "getint16 (pre @ x # y # post) (length pre) = push_bit 8 (ucast x) OR ucast y"
  by (simp add: getint16_def nth_append)

lemma add_opt_ok:
  assumes "12 \<le> length (a_msg st)"
  shows "safe (add_opt_pseudo_rr mem udpsize rcode ednsver Zflags st) (\<lambda>st'.
    a_msg st' = bump_count (count_field S_ADDITIONAL) (a_msg st) @ opt_rr udpsize rcode ednsver Zflags \<and>
    2 + length (a_msg st') \<le> a_alloc st' \<and> a_cb st' = a_cb st \<and> a_sva st' = a_sva st \<and> a_ar st' = a_ar st)"
  unfolding add_opt_pseudo_rr_def
proof (rule safe_next [OF ensure_room_ok])
  fix st1 :: answer
  assume "a_msg st1 = a_msg st \<and> a_cb st1 = a_cb st \<and> a_sva st1 = a_sva st \<and> a_ar st1 = a_ar st \<and>
    2 + length (a_msg st) + (1 + sizeof_rr_hdr_t) \<le> a_alloc st1"
  moreover have "length (bump_count 10 (a_msg st)) = length (a_msg st)"
    using bump_count(1) [OF assms, of S_ADDITIONAL] by (simp add: count_field_def)
  ultimately show "safe (if dnsmsghdroffset + length (a_msg st1) + (1 + sizeof_rr_hdr_t) > a_alloc st1 then None
       else go_on (st1\<lparr>a_msg := bump_count 10 (a_msg st1) @ opt_rr udpsize rcode ednsver Zflags\<rparr>))
    (\<lambda>st'. a_msg st' = bump_count (count_field S_ADDITIONAL) (a_msg st) @ opt_rr udpsize rcode ednsver Zflags \<and>
    2 + length (a_msg st') \<le> a_alloc st' \<and> a_cb st' = a_cb st \<and> a_sva st' = a_sva st \<and> a_ar st' = a_ar st)"
    by (simp add: count_field_def opt_rr_def)
qed

lemma add_opt_inv:
  assumes "ans_inv st"
  shows "safe (add_opt_pseudo_rr mem udpsize rcode ednsver Zflags st) (\<lambda>st'. ans_inv st' \<and>
    a_msg st' = bump_count (count_field S_ADDITIONAL) (a_msg st) @ opt_rr udpsize rcode ednsver Zflags \<and>
    a_cb st' = a_cb st \<and> a_sva st' = a_sva st \<and> a_ar st' = a_ar st)"
proof -
  have m: "12 \<le> length (a_msg st)" using assms by (simp add: ans_inv_def)
  show ?thesis
    by (rule safe_mono [OF add_opt_ok [OF m]]) (use assms m in \<open>auto simp: ans_inv_def intro: names_inv_append\<close>)
qed

lemma proceeds_add_opt: "(\<And>i. mem i) \<Longrightarrow> proceeds (add_opt_pseudo_rr mem udpsize rcode ednsver Zflags st)"
  unfolding add_opt_pseudo_rr_def by (auto intro!: proceeds_next proceeds_name)

lemma small_take_bit: "unat w < 2 ^ n \<Longrightarrow> take_bit n w = (w :: 'a::len word)"
  by (rule word_unat_eq_iff [THEN iffD2]) (simp add: unsigned_take_bit_eq take_bit_nat_eq_self)

lemma opt_rr_fields:
  assumes m: "12 \<le> length m" and rc: "rcode < 0x1000" and low: "m ! 3 AND 0xf = ucast (rcode AND 0xf)" and ver: "ednsver < 0x100"
  shows "m @ opt_rr udpsize rcode ednsver Zflags = msg \<Longrightarrow>
    msg ! length m = 0 \<and> getint16 msg (length m + 1) = of_nat T_OPT \<and> getint16 msg (length m + 3) = udpsize \<and>
    getint16 msg (length m + 9) = 0 \<and>
    opt_info msg udpsize (length m + 5) =
      \<lparr>ei_udpsize = udpsize, ei_rcode = rcode, ei_version = ednsver, ei_do_flg = ucast (drop_bit 15 Zflags)\<rparr>"
proof (intro conjI)
  assume "m @ opt_rr udpsize rcode ednsver Zflags = msg"
  then have msg: "msg = m @ [0] @ putint16 (of_nat T_OPT) @ putint16 udpsize @ [ucast (drop_bit 4 rcode), ucast ednsver] @
    putint16 Zflags @ putint16 0" by (simp add: opt_rr_def)
  have l: "length (putint16 x) = 2" for x by (simp add: putint16_def)
  show "msg ! length m = 0" by (simp add: msg)
  show "getint16 msg (length m + 1) = of_nat T_OPT" using getint16_put [of "m @ [0]" "of_nat T_OPT"] by (simp add: msg)
  show "getint16 msg (length m + 3) = udpsize"
    using getint16_put [of "m @ [0] @ putint16 (of_nat T_OPT)" udpsize] by (simp add: msg l)
  show "getint16 msg (length m + 9) = 0"
    using getint16_put [of "m @ [0] @ putint16 (of_nat T_OPT) @ putint16 udpsize @ [ucast (drop_bit 4 rcode), ucast ednsver] @
      putint16 Zflags" 0 "[]"] by (simp add: msg l)
  have f: "msg ! (length m + 5) = ucast (drop_bit 4 rcode)" "msg ! (length m + 6) = ucast ednsver"
    "msg ! (length m + 7) = ucast (drop_bit 8 Zflags)" "msg ! 3 = m ! 3"
    using m by (simp_all add: msg putint16_def nth_append)
  have "push_bit 4 (ucast (ucast (drop_bit 4 rcode) :: byte)) OR ucast (m ! 3 AND 0xf) = rcode"
    unfolding low
  proof (rule bit_word_eqI)
    fix n :: nat
    have "take_bit 12 rcode = rcode" using rc by (intro small_take_bit) (simp add: word_less_nat_alt)
    then have hi: "bit rcode n \<Longrightarrow> n < 12" by (metis bit_take_bit_iff)
    have "bit (0xf :: u16) n \<longleftrightarrow> n < 4"
      by (cases "n < 16") (auto simp: less_Suc_eq numeral_eq_Suc bit_Suc dest: bit_imp_le_length)
    then show "bit (push_bit 4 (ucast (ucast (drop_bit 4 rcode) :: byte)) OR ucast (ucast (rcode AND 0xf) :: byte) :: u16) n = bit rcode n"
      using hi by (auto simp: bit_simps)
  qed
  moreover have "ucast (ucast ednsver :: byte) = ednsver"
  proof -
    have "take_bit 8 ednsver = ednsver" using ver by (intro small_take_bit) (simp add: word_less_nat_alt)
    then show ?thesis by (simp add: unsigned_ucast_eq)
  qed
  moreover have "drop_bit 7 (ucast (drop_bit 8 Zflags) :: byte) AND 1 = ucast (drop_bit 15 Zflags)"
    by (rule bit_word_eqI) (auto simp: bit_simps bit_1_iff dest: bit_imp_le_length)
  ultimately show "opt_info msg udpsize (length m + 5) =
      \<lparr>ei_udpsize = udpsize, ei_rcode = rcode, ei_version = ednsver, ei_do_flg = ucast (drop_bit 15 Zflags)\<rparr>"
    using f by (simp add: opt_info_def add.commute)
qed

lemma putint16_getint16: "putint16 (getint16 m i) = [m ! i, m ! (i + 1)]"
proof -
  have "(ucast (drop_bit 8 (push_bit 8 (ucast a) OR ucast b :: u16)) :: byte) = a" for a b :: byte
    by (rule bit_word_eqI) (auto simp: bit_simps dest: bit_imp_le_length)
  moreover have "(ucast (push_bit 8 (ucast a) OR ucast b :: u16) :: byte) = b" for a b :: byte
    by (rule bit_word_eqI) (auto simp: bit_simps dest: bit_imp_le_length)
  ultimately show ?thesis by (simp add: putint16_def getint16_def)
qed

lemma restore_count:
  assumes "i + 2 \<le> length m"
  shows "take (length m) (overwrite i (putint16 (getint16 m i)) (overwrite i (putint16 v) m @ x)) = m"
proof -
  have l: "length (putint16 w) = 2" for w by (simp add: putint16_def)
  have "overwrite i (putint16 (getint16 m i)) (overwrite i (putint16 v) m @ x) =
      take i m @ [m ! i, m ! (i + 1)] @ drop (i + 2) m @ x"
    using assms by (simp add: overwrite_def l putint16_getint16)
  moreover have "drop i m = [m ! i, m ! (i + 1)] @ drop (i + 2) m"
    using assms Cons_nth_drop_Suc [of i m] Cons_nth_drop_Suc [of "i + 1" m] by simp
  then have "m = take i m @ [m ! i, m ! (i + 1)] @ drop (i + 2) m" by (metis append_take_drop_id)
  ultimately show ?thesis by (metis append.assoc append_eq_conv_conj)
qed

lemma remove_opt_added:
  assumes m: "12 \<le> length m" and room: "getint16 m 10 \<noteq> 0xffff"
  shows "remove_opt_pseudo_rr (bump_count 10 m @ opt_rr udpsize rcode ednsver Zflags) = go_on m"
proof -
  let ?msg = "bump_count 10 m @ opt_rr udpsize rcode ednsver Zflags"
  have l: "length (putint16 w) = 2" for w by (simp add: putint16_def)
  have b: "length (bump_count 10 m) = length m"
    using bump_count(1) [OF m, of S_ADDITIONAL] by (simp add: count_field_def)
  have cnt: "getint16 ?msg 10 = getint16 m 10 + 1"
    using bump_count_get [OF m, of S_ADDITIONAL _ S_ADDITIONAL] by (simp add: count_field_def)
  have "getint16 m 10 + 1 \<noteq> 0"
  proof
    assume "getint16 m 10 + 1 = 0"
    then have "getint16 m 10 = - 1" by (simp add: eq_neg_iff_add_eq_0)
    then show False using room by simp
  qed
  then have pos: "getint16 m 10 + 1 > 0" by (simp add: word_neq_0_conv)
  have name: "?msg ! length m = 0" using b by (simp add: nth_append opt_rr_def)
  have tp: "getint16 ?msg (length m + 1) = of_nat T_OPT"
    using getint16_put [of "bump_count 10 m @ [0]" "of_nat T_OPT"] b by (simp add: opt_rr_def)
  have "take (length m) (overwrite 10 (putint16 (getint16 m 10)) ?msg) = m"
    unfolding bump_count_def by (rule restore_count) (use m in simp)
  then show ?thesis
    using m b cnt pos name tp by (auto simp: remove_opt_pseudo_rr_def Let_def opt_rr_def l)
qed

lemma rr2cent_opt:
  assumes m: "12 \<le> length m" and msg: "m @ opt_rr udpsize rcode ednsver Zflags = msg"
    and rc: "rcode < 0x1000" "m ! 3 AND 0xf = ucast (rcode AND 0xf)" "ednsver < 0x100"
  shows "rr2cent sz al msg flags queryts (length m) 11 rs =
    Some (Inr (length m + 11, 0), take_opt msg udpsize (length m + 5) rs)"
proof -
  note f = opt_rr_fields [OF m rc msg]
  have len: "length msg = length m + 11" using msg by (auto simp: opt_rr_def putint16_def)
  have "decompress_name msg (length m) 11 = Some (Inr (enc_name [], 11 - 1, length (enc_name [])))"
    by (rule decompress_name_complete [OF name_at.Root _ _ name_span.Root]) (use f len in \<open>simp_all add: name_ok_def enc_name_def\<close>)
  then have "rr_header msg (length m) 11 =
      Some (Inr ([0], of_nat T_OPT, udpsize, getint32 msg (length m + 5), 0, length m + 11, 0))"
    using f len by (simp add: rr_header_def Let_def enc_name_def add.commute numeral_3_eq_3)
  then show ?thesis using len m by (simp add: rr2cent_def Let_def add.commute [of 5 "length m"])
qed

text \<open>C10. The OPT pseudo record put at the end of a message is read back as the record of the additional section with
  the same UDP size, the same twelve bits of the result code, the same version and the same DO flag, and taking it
  off again leaves the message as it was, unless the count of the section has wrapped around.\<close>

theorem opt_record_roundtrip:
  assumes "12 \<le> length (a_msg st)" "rcode < 0x1000" "a_msg st ! 3 AND 0xf = ucast (rcode AND 0xf)" "ednsver < 0x100"
    and "numopt rs = 0"
  shows "safe (add_opt_pseudo_rr mem udpsize rcode ednsver Zflags st) (\<lambda>st'.
      getint16 (a_msg st') 10 = getint16 (a_msg st) 10 + 1 \<and>
      rr2cent sz al (a_msg st') flags queryts (length (a_msg st)) 11 rs =
        Some (Inr (length (a_msg st'), 0), rs\<lparr>numopt := 1,
          edns := \<lparr>ei_udpsize = udpsize, ei_rcode = rcode, ei_version = ednsver, ei_do_flg = ucast (drop_bit 15 Zflags)\<rparr>\<rparr>) \<and>
      (getint16 (a_msg st) 10 \<noteq> 0xffff \<longrightarrow> remove_opt_pseudo_rr (a_msg st') = go_on (a_msg st))) \<and>
    ((\<forall>i. mem i) \<longrightarrow> add_opt_pseudo_rr mem udpsize rcode ednsver Zflags st \<noteq> return_0)"
proof (intro conjI impI)
  show "safe (add_opt_pseudo_rr mem udpsize rcode ednsver Zflags st) (\<lambda>st'.
      getint16 (a_msg st') 10 = getint16 (a_msg st) 10 + 1 \<and>
      rr2cent sz al (a_msg st') flags queryts (length (a_msg st)) 11 rs =
        Some (Inr (length (a_msg st'), 0), rs\<lparr>numopt := 1,
          edns := \<lparr>ei_udpsize = udpsize, ei_rcode = rcode, ei_version = ednsver, ei_do_flg = ucast (drop_bit 15 Zflags)\<rparr>\<rparr>) \<and>
      (getint16 (a_msg st) 10 \<noteq> 0xffff \<longrightarrow> remove_opt_pseudo_rr (a_msg st') = go_on (a_msg st)))"
  proof (rule safe_mono [OF add_opt_ok [OF assms(1)]])
    fix st' :: answer
    let ?m = "bump_count 10 (a_msg st)"
    assume "a_msg st' = bump_count (count_field S_ADDITIONAL) (a_msg st) @ opt_rr udpsize rcode ednsver Zflags \<and>
      2 + length (a_msg st') \<le> a_alloc st' \<and> a_cb st' = a_cb st \<and> a_sva st' = a_sva st \<and> a_ar st' = a_ar st"
    then have msg: "?m @ opt_rr udpsize rcode ednsver Zflags = a_msg st'" by (simp add: count_field_def)
    have l: "length ?m = length (a_msg st)"
      using bump_count(1) [OF assms(1), of S_ADDITIONAL] by (simp add: count_field_def)
    have "?m ! 3 = a_msg st ! 3" using assms(1) by (simp add: bump_count_def overwrite_def nth_append)
    then have low: "?m ! 3 AND 0xf = ucast (rcode AND 0xf)" using assms(3) by simp
    have m: "12 \<le> length ?m" using assms(1) l by simp
    have "length (a_msg st') = length (a_msg st) + 11"
      unfolding msg [symmetric] length_append l by (simp add: opt_rr_def putint16_def)
    moreover have "getint16 (a_msg st') 10 = getint16 (a_msg st) 10 + 1"
      using bump_count_get [OF assms(1), of S_ADDITIONAL "opt_rr udpsize rcode ednsver Zflags" S_ADDITIONAL] msg
      by (simp add: count_field_def)
    moreover note rr2cent_opt [OF m msg assms(2) low assms(4), of sz al flags queryts rs, unfolded l]
      opt_rr_fields [OF m assms(2) low assms(4) msg, unfolded l]
      remove_opt_added [OF assms(1), of udpsize rcode ednsver Zflags, unfolded msg]
    ultimately show "getint16 (a_msg st') 10 = getint16 (a_msg st) 10 + 1 \<and>
      rr2cent sz al (a_msg st') flags queryts (length (a_msg st)) 11 rs =
        Some (Inr (length (a_msg st'), 0), rs\<lparr>numopt := 1,
          edns := \<lparr>ei_udpsize = udpsize, ei_rcode = rcode, ei_version = ednsver, ei_do_flg = ucast (drop_bit 15 Zflags)\<rparr>\<rparr>) \<and>
      (getint16 (a_msg st) 10 \<noteq> 0xffff \<longrightarrow> remove_opt_pseudo_rr (a_msg st') = go_on (a_msg st))"
      using assms(5) by (simp add: take_opt_def)
  qed
  show "\<forall>i. mem i \<Longrightarrow> add_opt_pseudo_rr mem udpsize rcode ednsver Zflags st \<noteq> return_0"
    using proceeds_add_opt [of mem udpsize rcode ednsver Zflags st] by (simp add: proceeds_def)
qed

theorem opt_record_roundtrip_witness:
  "\<exists>st'. add_opt_pseudo_rr (\<lambda>_. True) 1024 3 0 0x8000 (new_answer [0, 7, 0x80, 3, 0, 0, 0, 0, 0, 0, 0, 0] 256) = go_on st' \<and>
     rr2cent ex_sizes plenty (a_msg st') 0 0 12 11 ex_state =
       Some (Inr (length (a_msg st'), 0), ex_state\<lparr>numopt := 1,
         edns := \<lparr>ei_udpsize = 1024, ei_rcode = 3, ei_version = 0, ei_do_flg = 1\<rparr>\<rparr>) \<and>
     remove_opt_pseudo_rr (a_msg st') = go_on [0, 7, 0x80, 3, 0, 0, 0, 0, 0, 0, 0, 0]"
proof -
  let ?st = "new_answer [0, 7, 0x80, 3, 0, 0, 0, 0, 0, 0, 0, 0] 256"
  have st: "12 \<le> length (a_msg ?st)" "a_msg ?st ! 3 AND 0xf = ucast ((3 :: u16) AND 0xf)" "numopt ex_state = 0"
    "length (a_msg ?st) = 12"
    by (simp_all add: new_answer_def ex_state_def)
  note ok = opt_record_roundtrip [OF st(1) _ st(2) _ st(3), where mem = "\<lambda>_. True" and udpsize = 1024 and ednsver = 0 and
    Zflags = "0x8000" and sz = ex_sizes and al = plenty and flags = 0 and
    queryts = 0, unfolded st(4), simplified]
  have "getint16 (a_msg ?st) 10 \<noteq> 0xffff" by (simp add: new_answer_def getint16_def)
  moreover have "a_msg ?st = [0, 7, 0x80, 3, 0, 0, 0, 0, 0, 0, 0, 0]" by (simp add: new_answer_def)
  ultimately show ?thesis using ok unfolding safe_def by (auto split: option.splits)
qed

end
