(* ===== verification/Dns_Response.thy ===== *)
theory Dns_Response
  imports Dns_Answer
begin

text \<open>
  Answering a query, from pdnsd's \<open>dns_answer.c\<close>: \<open>add_rrset\<close> and \<open>add_to_response\<close>, which put the cached records
  into the answer section, \<open>add_additional_rr\<close> and its callers, and \<open>compose_answer\<close>: the header and the questions,
  the chains of CNAME records, the records about the authority, the OPT record and the additional records.

  What happens outside \<open>dns_answer.c\<close> is a field of \<open>env\<close>, which the number of allocations made so far indexes:
  \<open>dns_cached_resolve\<close>, which asks the name servers, \<open>lookup_cache\<close>, the entries of the hash table, \<open>random\<close>, and the
  outcomes of the allocations. The property is that, whatever these give, nothing is read or written out of bounds,
  no assertion fails, and the message reads back as the questions and the cached records chosen.
\<close>

section \<open>RR sets in the answer section\<close>

abbreviation (input) T_MAX :: nat where "T_MAX \<equiv> 51"
abbreviation (input) QT_IXFR :: nat where "QT_IXFR \<equiv> 251"
abbreviation (input) QT_AXFR :: nat where "QT_AXFR \<equiv> 252"
abbreviation (input) QT_MAILB :: nat where "QT_MAILB \<equiv> 253"
abbreviation (input) QT_MAILA :: nat where "QT_MAILA \<equiv> 254"
abbreviation (input) QT_ALL :: nat where "QT_ALL \<equiv> 255"
abbreviation (input) QC_ALL :: nat where "QC_ALL \<equiv> 255"
abbreviation (input) RRETP_ADD :: nat where "RRETP_ADD \<equiv> 0"
abbreviation (input) MAX_HOPS :: nat where "MAX_HOPS \<equiv> 20"
abbreviation (input) RC_OK :: u16 where "RC_OK \<equiv> 0"
abbreviation (input) RC_NAMEERR :: u16 where "RC_NAMEERR \<equiv> 3"
abbreviation (input) RC_NOTSUPP :: u16 where "RC_NOTSUPP \<equiv> 4"

text \<open>\<open>dns_queryel_t\<close>\<close>

record queryel =
  qe_type :: nat
  qe_class :: nat
  qe_query :: "byte list"

record env =
  e_mem :: "nat \<Rightarrow> bool"
  e_random :: "nat \<Rightarrow> nat"
  e_resolve :: "nat \<Rightarrow> byte list \<Rightarrow> nat \<Rightarrow> u16 \<times> dns_cent option \<times> byte"
  e_lookup :: "nat \<Rightarrow> byte list \<Rightarrow> dns_cent option"
  e_find :: "nat \<Rightarrow> byte list \<Rightarrow> dns_cent option"
  e_queryts :: int
  rnd_recs :: bool
  udpbufsize :: u16

text \<open>\<open>sva_add\<close> and \<open>add_ar\<close>\<close>

definition sva_add :: "env \<Rightarrow> byte list \<Rightarrow> nat \<Rightarrow> byte list \<Rightarrow> answer \<Rightarrow> answer outcome" where
  "sva_add E rhn tp data st =
     with_rhnlen rhn (\<lambda>rlen.
       if e_mem E (a_calls st) then
         go_on (st\<lparr>a_sva := a_sva st @ [\<lparr>sv_tp = tp, sv_nm = take rlen rhn, sv_data = data\<rparr>], a_calls := a_calls st + 1\<rparr>)
       else return_0)"

definition add_ar :: "env \<Rightarrow> nat \<Rightarrow> byte list \<Rightarrow> byte list \<Rightarrow> int \<Rightarrow> answer \<Rightarrow> answer outcome" where
  "add_ar E tp tnm nm ttl st =
     (let grow = (\<lambda>nm. if e_mem E (a_calls st) then
            go_on (st\<lparr>a_ar := a_ar st @ [\<lparr>re_tp = tp, re_ttl = of_int ttl, re_tnm = tnm, re_nm = nm\<rparr>],
                      a_calls := a_calls st + 1\<rparr>)
            else return_0) in
      if tp = T_NS \<or> tp = T_SOA then with_rhnlen nm (\<lambda>nmsz. grow (take nmsz nm)) else grow [])"

definition ans_ttl :: "rr_set \<Rightarrow> int \<Rightarrow> int" where
  "ans_ttl rs queryts =
     (if has_flag (rs_flags rs) CF_LOCAL then rs_ttl rs
      else let tpassed = queryts - rs_ts rs; tpassed = (if tpassed < 0 then 0 else tpassed); ttl = rs_ttl rs - tpassed in
        if ttl < 0 then 0 else ttl)"

text \<open>\<open>follow_cname_chain\<close>: the name copied, or \<open>Some None\<close> for the return value 0.\<close>

definition follow_cname_chain :: "dns_cent \<Rightarrow> byte list outcome" where
  "follow_cname_chain c =
     (case getrrset c (int T_CNAME) of
        None \<Rightarrow> return_0
      | Some rs \<Rightarrow>
          (case rs_rrs rs of
             [] \<Rightarrow> return_0
           | rr # _ \<Rightarrow> if length rr \<le> DNSNAMEBUFSIZE then go_on rr else None))"

text \<open>\<open>randrr\<close>: the position of the record selected; \<open>r\<close> is what \<open>random\<close> returns.\<close>

definition randrr :: "nat \<Rightarrow> 'a list \<Rightarrow> nat" where
  "randrr r rrb = (if length rrb = 0 then 0 else r mod length rrb)"

text \<open>
  The loop over the records of an RR set: from the position \<open>i\<close> on, and around to \<open>first\<close> if the records are to be
  in random order.
\<close>

function rr_loop :: "bool \<Rightarrow> ('a \<Rightarrow> 's \<Rightarrow> 's outcome) \<Rightarrow> 'a list \<Rightarrow> nat \<Rightarrow> nat \<Rightarrow> 's \<Rightarrow> 's outcome" where
  "rr_loop rnd f rrs first i st =
     (if \<not> (i < length rrs \<and> first < length rrs) then None
      else and_next (f (rrs ! i) st) (\<lambda>st.
        let b = i + 1 in
        if rnd then
          let b = (if b = length rrs then 0 else b) in
          if b = first then go_on st else rr_loop rnd f rrs first b st
        else if b = length rrs then go_on st else rr_loop rnd f rrs first b st))"
  by pat_completeness auto
termination
  by (relation "measure (\<lambda>(rnd, f, rrs, first, i, st).
      if \<not> rnd then length rrs - i else if i < first then first - i else first + length rrs - i)") auto

declare rr_loop.simps [simp del]

definition for_rrs :: "env \<Rightarrow> (byte list \<Rightarrow> answer \<Rightarrow> answer outcome) \<Rightarrow> byte list list \<Rightarrow> answer \<Rightarrow> answer outcome" where
  "for_rrs E f rrs st =
     (if rrs = [] then go_on st
      else let first = (if rnd_recs E then randrr (e_random E (a_calls st)) rrs else 0) in
        rr_loop (rnd_recs E) f rrs first first st)"

definition ar_recs :: "nat list" where
  "ar_recs = [T_NS, T_MD, T_MF, T_MB, T_MX, T_SRV]"

definition ar_offs :: "nat list" where
  "ar_offs = [0, 0, 0, 0, 2, 6]"

text \<open>The body of the loop of \<open>add_rrset\<close>\<close>

definition add_rrset_rr :: "env \<Rightarrow> byte list \<Rightarrow> nat \<Rightarrow> int \<Rightarrow> nat option \<Rightarrow> byte list \<Rightarrow> answer \<Rightarrow> answer outcome" where
  "add_rrset_rr E rrn tp ttl udp data st =
     and_next (add_rr (e_mem E) rrn tp (of_int ttl) data S_ANSWER udp st) (\<lambda>st.
       and_next (if tp = T_NS \<or> tp = T_A \<or> tp = T_AAAA then sva_add E rrn tp data st else go_on st) (\<lambda>st.
         case map_of (zip ar_recs ar_offs) tp of
           None \<Rightarrow> go_on st
         | Some off \<Rightarrow> if length data < off then None else add_ar E RRETP_ADD (drop off data) [0] 0 st))"

definition add_rrset :: "env \<Rightarrow> byte list \<Rightarrow> nat \<Rightarrow> dns_cent \<Rightarrow> nat option \<Rightarrow> answer \<Rightarrow> answer outcome" where
  "add_rrset E rrn tp cached udp st =
     (case getrrset cached (int tp) of
        None \<Rightarrow> go_on st
      | Some rs \<Rightarrow> for_rrs E (add_rrset_rr E rrn tp (ans_ttl rs (e_queryts E)) udp) (rs_rrs rs) st)"

text \<open>\<open>rrmuiterlist\<close> and \<open>rrcachiterlist\<close>\<close>

definition rrmuiterlist :: "nat list" where
  "rrmuiterlist = [1, 2, 5, 6, 12, 15, 16, 28]"

definition rrcachiterlist :: "nat list" where
  "rrcachiterlist = [1..<38] @ [42..<52]"

definition rriterlist :: "dns_cent \<Rightarrow> nat list" where
  "rriterlist c = (if negative c then [] else case rrext (body c) of None \<Rightarrow> rrmuiterlist | Some _ \<Rightarrow> rrcachiterlist)"

fun add_rrsets :: "env \<Rightarrow> byte list \<Rightarrow> nat list \<Rightarrow> dns_cent \<Rightarrow> nat option \<Rightarrow> answer \<Rightarrow> answer outcome" where
  "add_rrsets E rrn [] cached udp st = go_on st"
| "add_rrsets E rrn (tp # tps) cached udp st =
     and_next (add_rrset E rrn tp cached udp st) (add_rrsets E rrn tps cached udp)"

definition in_types :: "nat \<Rightarrow> bool" where
  "in_types tp \<longleftrightarrow> T_MIN \<le> tp \<and> tp \<le> T_MAX"

definition add_to_response :: "env \<Rightarrow> byte list \<Rightarrow> nat \<Rightarrow> dns_cent \<Rightarrow> nat option \<Rightarrow> answer \<Rightarrow> answer outcome" where
  "add_to_response E rrn qtype cached udp st =
     and_next
       (if qtype \<noteq> T_CNAME \<and> qtype \<noteq> QT_ALL \<and> \<not> (in_types qtype \<and> have_rr cached qtype)
        then add_rrset E rrn T_CNAME cached udp st else go_on st)
       (\<lambda>st.
         if qtype = QT_AXFR \<or> qtype = QT_IXFR then return_0
         else if qtype = QT_MAILB then add_rrsets E rrn [T_MB, T_MG, T_MR] cached udp st
         else if qtype = QT_MAILA then add_rrsets E rrn [T_MD, T_MF] cached udp st
         else if qtype = QT_ALL then add_rrsets E rrn (rriterlist cached) cached udp st
         else if in_types qtype then add_rrset E rrn qtype cached udp st
         else return_0)"

section \<open>Additional records\<close>

text \<open>The loop over \<open>sva\<close>: whether the record has been added.\<close>

fun sva_has :: "sva_t list \<Rightarrow> byte list \<Rightarrow> nat \<Rightarrow> byte list \<Rightarrow> bool option" where
  "sva_has [] rhn tp data = Some False"
| "sva_has (sv # svs) rhn tp data =
     (if sv_tp sv = tp then
        case rhnicmp (sv_nm sv) rhn of
          None \<Rightarrow> None
        | Some same \<Rightarrow> if same \<and> sv_data sv = data then Some True else sva_has svs rhn tp data
      else sva_has svs rhn tp data)"

definition add_additional_rr ::
  "env \<Rightarrow> byte list \<Rightarrow> nat \<Rightarrow> int \<Rightarrow> byte list \<Rightarrow> sect \<Rightarrow> nat option \<Rightarrow> answer \<Rightarrow> answer outcome" where
  "add_additional_rr E rhn tp ttl data section udp st =
     (case sva_has (a_sva st) rhn tp data of
        None \<Rightarrow> None
      | Some True \<Rightarrow> go_on st
      | Some False \<Rightarrow>
          and_next (add_rr (e_mem E) rhn tp (of_int ttl) data section udp st) (sva_add E rhn tp data))"

definition add_additional_rrs ::
  "env \<Rightarrow> byte list \<Rightarrow> nat \<Rightarrow> int \<Rightarrow> byte list list \<Rightarrow> sect \<Rightarrow> nat option \<Rightarrow> answer \<Rightarrow> answer outcome" where
  "add_additional_rrs E rhn tp ttl rrb section udp st =
     for_rrs E (\<lambda>data. add_additional_rr E rhn tp ttl data section udp) rrb st"

text \<open>One RR set of \<open>add_additional_a\<close>, and the whole.\<close>

definition add_additional_set :: "env \<Rightarrow> byte list \<Rightarrow> nat \<Rightarrow> dns_cent \<Rightarrow> nat option \<Rightarrow> answer \<Rightarrow> answer outcome" where
  "add_additional_set E rhn tp ae udp st =
     (case getrrset ae (int tp) of
        None \<Rightarrow> go_on st
      | Some rs \<Rightarrow> add_additional_rrs E rhn tp (ans_ttl rs (e_queryts E)) (rs_rrs rs) S_ADDITIONAL udp st)"

definition add_additional_a :: "env \<Rightarrow> byte list \<Rightarrow> nat option \<Rightarrow> answer \<Rightarrow> answer outcome" where
  "add_additional_a E rhn udp st =
     (case e_lookup E (a_calls st) rhn of
        None \<Rightarrow> go_on st
      | Some ae \<Rightarrow>
          and_next (add_additional_set E rhn T_A ae udp st) (add_additional_set E rhn T_AAAA ae udp))"

section \<open>compose\_answer\<close>

text \<open>
  The header: the id and the flag \<open>rd\<close> of the query, \<open>qr\<close> and \<open>ra\<close> set. \<open>set_rcode\<close> and \<open>set_aa\<close> are the assignments to
  \<open>ans->hdr.rcode\<close> and \<open>ans->hdr.aa\<close>.
\<close>

definition answer_hdr :: "byte list \<Rightarrow> byte list" where
  "answer_hdr hdr = [hdr ! 0, hdr ! 1, 0x80 OR (hdr ! 2 AND 1), 0x80, 0, 0, 0, 0, 0, 0, 0, 0]"

definition hdr_rd :: "byte list \<Rightarrow> bool" where
  "hdr_rd hdr \<longleftrightarrow> hdr ! 2 AND 1 \<noteq> 0"

definition set_rcode :: "u16 \<Rightarrow> answer \<Rightarrow> answer" where
  "set_rcode rc st = st\<lparr>a_msg := (a_msg st)[3 := (a_msg st ! 3 AND 0xf0) OR (ucast rc AND 0xf)]\<rparr>"

definition set_aa :: "answer \<Rightarrow> answer" where
  "set_aa st = st\<lparr>a_msg := (a_msg st)[2 := a_msg st ! 2 OR 4]\<rparr>"

text \<open>The questions.\<close>

definition add_question :: "env \<Rightarrow> queryel \<Rightarrow> answer \<Rightarrow> answer outcome" where
  "add_question E qe st =
     with_rhnlen (qe_query qe) (\<lambda>l.
       and_next (ensure_room (e_mem E) (l + 4) st) (\<lambda>st.
         case compress_name (e_mem E (a_calls st)) (qe_query qe) (length (a_msg st)) (a_cb st) of
           None \<Rightarrow> None
         | Some None \<Rightarrow> return_0
         | Some (Some (bs, cb)) \<Rightarrow>
             if dnsmsghdroffset + length (a_msg st) + length bs + 4 > a_alloc st then None
             else go_on (st\<lparr>a_msg := bump_count 4 (a_msg st) @ bs @ putint16 (of_nat (qe_type qe)) @
                                putint16 (of_nat (qe_class qe)),
                            a_cb := cb, a_calls := a_calls st + 1\<rparr>)))"

fun add_questions :: "env \<Rightarrow> queryel list \<Rightarrow> answer \<Rightarrow> answer outcome" where
  "add_questions E [] st = go_on st"
| "add_questions E (qe # ql) st = and_next (add_question E qe st) (add_questions E ql)"

definition unsupported :: "queryel \<Rightarrow> bool" where
  "unsupported qe \<longleftrightarrow>
     (not_cached_type (qe_type qe) \<and> qe_type qe \<noteq> QT_MAILB \<and> qe_type qe \<noteq> QT_MAILA \<and> qe_type qe \<noteq> QT_ALL) \<or>
     (qe_class qe \<noteq> 1 \<and> qe_class qe \<noteq> QC_ALL)"

text \<open>An RR set that is not negative.\<close>

definition positive_set :: "rr_set option \<Rightarrow> rr_set option" where
  "positive_set rso = (case rso of None \<Rightarrow> None | Some rs \<Rightarrow> if has_flag (rs_flags rs) CF_NEGATIVE then None else Some rs)"

text \<open>The SOA record put into the authority section when the name does not exist.\<close>

fun add_soa_rrs :: "env \<Rightarrow> byte list \<Rightarrow> int \<Rightarrow> byte list list \<Rightarrow> nat option \<Rightarrow> answer \<Rightarrow> answer outcome" where
  "add_soa_rrs E nm ttl [] udp st = go_on st"
| "add_soa_rrs E nm ttl (rr # rrs) udp st =
     and_next (add_rr (e_mem E) nm T_SOA (of_int ttl) rr S_AUTHORITY udp st) (add_soa_rrs E nm ttl rrs udp)"

definition add_name_error_soa :: "env \<Rightarrow> byte list \<Rightarrow> byte \<Rightarrow> nat option \<Rightarrow> answer \<Rightarrow> answer outcome" where
  "add_name_error_soa E dname csoa udp st =
     (if csoa = cundef then go_on st
      else case rhnsegcnt dname of
        None \<Rightarrow> None
      | Some scnt \<Rightarrow>
          if \<not> unat csoa < scnt then go_on st
          else case skipsegs dname (scnt - unat csoa) of
            None \<Rightarrow> None
          | Some k \<Rightarrow>
              (case e_lookup E (a_calls st) (drop k dname) of
                 None \<Rightarrow> go_on st
               | Some cached \<Rightarrow>
                   (case positive_set (getrrset cached (int T_SOA)) of
                      None \<Rightarrow> go_on st
                    | Some rs \<Rightarrow>
                        add_soa_rrs E (qname cached) (ans_ttl rs (e_queryts E)) (rs_rrs rs) udp st)))"

text \<open>\<open>ednsinfo\<close> is used only as the condition \<open>with_opt\<close>.\<close>

definition add_opt :: "env \<Rightarrow> bool \<Rightarrow> u16 \<Rightarrow> answer \<Rightarrow> answer outcome" where
  "add_opt E with_opt rcode st =
     (if with_opt then add_opt_pseudo_rr (e_mem E) (udpbufsize E) rcode 0 0 st else go_on st)"

text \<open>\<open>getlocalowner\<close>; \<open>look\<close> is \<open>dns_lookup\<close>. The name after the next label, up to the root.\<close>

function getlocalowner :: "(byte list \<Rightarrow> dns_cent option) \<Rightarrow> byte list \<Rightarrow> nat \<Rightarrow> byte list outcome" where
  "getlocalowner look [] tp = None"
| "getlocalowner look (lb # r) tp =
     (if lb = 0 then return_0
      else case drop (unat lb) r of
        [] \<Rightarrow> None
      | lb' # r' \<Rightarrow>
          if lb' = 0 then return_0
          else case look (lb' # r') of
            None \<Rightarrow> getlocalowner look (lb' # r') tp
          | Some ce \<Rightarrow>
              if \<not> has_flag (ce_flags ce) DF_LOCAL then return_0
              else if have_rr ce tp then go_on (lb' # r')
              else getlocalowner look (lb' # r') tp)"
  by pat_completeness auto
termination
proof (relation "measure (\<lambda>(look, nm, tp). length nm)", goal_cases)
  case (2 look lb r tp lb' r')
  then have "length (lb' # r') \<le> length r" by (metis length_drop diff_le_self)
  then show ?case by simp
next
  case (3 look lb r tp lb' r' ce)
  then have "length (lb' # r') \<le> length r" by (metis length_drop diff_le_self)
  then show ?case by simp
qed auto

text \<open>
  The RR set that names the authority: of the entry itself, else of the entry of the zone it belongs to, else, for an
  entry defined locally, of the owner defined locally; and the entry it was found in.
\<close>

definition authority_set :: "env \<Rightarrow> nat \<Rightarrow> nat \<Rightarrow> dns_cent \<Rightarrow> (rr_set \<times> dns_cent) option option" where
  "authority_set E now rretp prev =
     (case positive_set (getrrset prev (int rretp)) of
        Some rs \<Rightarrow> Some (Some (rs, prev))
      | None \<Rightarrow>
          (case rhnsegcnt (qname prev) of
             None \<Rightarrow> None
           | Some scnt \<Rightarrow>
               let tcnt = (if rretp = T_NS then c_ns prev else c_soa prev) in
               case (if tcnt \<noteq> cundef \<and> unat tcnt < scnt then skipsegs (qname prev) (scnt - unat tcnt) else Some 0) of
                 None \<Rightarrow> None
               | Some k \<Rightarrow>
                   let up = e_lookup E now (drop k (qname prev));
                       found = (case up of None \<Rightarrow> None
                         | Some c \<Rightarrow> map_option (\<lambda>rs. (rs, c)) (positive_set (getrrset c (int rretp)))) in
                   if found = None \<and> has_flag (ce_flags prev) DF_LOCAL then
                     case getlocalowner (e_find E now) (qname prev) rretp of
                       None \<Rightarrow> None
                     | Some None \<Rightarrow> Some None
                     | Some (Some nm) \<Rightarrow>
                         Some (case e_lookup E now nm of None \<Rightarrow> None
                           | Some c \<Rightarrow> map_option (\<lambda>rs. (rs, c)) (getrrset c (int rretp)))
                   else Some found))"

fun add_ars :: "env \<Rightarrow> nat \<Rightarrow> byte list list \<Rightarrow> byte list \<Rightarrow> int \<Rightarrow> answer \<Rightarrow> answer outcome" where
  "add_ars E tp [] nm ttl st = go_on st"
| "add_ars E tp (rr # rrs) nm ttl st = and_next (add_ar E tp rr nm ttl st) (add_ars E tp rrs nm ttl)"

definition note_authority :: "env \<Rightarrow> nat \<Rightarrow> dns_cent \<Rightarrow> answer \<Rightarrow> answer outcome" where
  "note_authority E qtype cached st =
     (let rretp =
        (if (in_types qtype \<and> \<not> have_rr cached qtype) \<or>
            (qtype = QT_MAILB \<and> \<not> have_rr cached T_MB \<and> \<not> have_rr cached T_MG \<and> \<not> have_rr cached T_MR) \<or>
            (qtype = QT_MAILA \<and> \<not> have_rr cached T_MD \<and> \<not> have_rr cached T_MF)
         then T_SOA else T_NS) in
      case authority_set E (a_calls st) rretp cached of
        None \<Rightarrow> None
      | Some None \<Rightarrow> go_on st
      | Some (Some (rs, c)) \<Rightarrow> add_ars E rretp (rs_rrs rs) (qname c) (ans_ttl rs (e_queryts E)) st)"

text \<open>
  The loop for one question, with the hops that are left: \<open>Finished\<close> is the \<open>goto cleanup_return\<close> with a result code,
  \<open>Go\<close> the end of the loop, with the flag \<open>aa\<close>.
\<close>

datatype progress = Finished u16 answer | Go bool answer

fun answer_question ::
  "env \<Rightarrow> bool \<Rightarrow> bool \<Rightarrow> nat \<Rightarrow> nat \<Rightarrow> byte list \<Rightarrow> nat option \<Rightarrow> bool \<Rightarrow> answer \<Rightarrow> progress outcome" where
  "answer_question E rd with_opt hops qtype dname udp aa st =
     (case e_resolve E (a_calls st) dname qtype of
        (rc, cached, csoa) \<Rightarrow>
          if rc \<noteq> RC_OK then
            let st = set_rcode rc st in
            and_next
              (if rc = RC_NAMEERR
               then and_next (add_name_error_soa E dname csoa udp st) (add_opt E with_opt rc)
               else go_on st)
              (\<lambda>st. go_on (Finished rc st))
          else case cached of
            None \<Rightarrow> None
          | Some cached \<Rightarrow>
              let aa = (aa \<and> has_flag (ce_flags cached) DF_LOCAL) in
              and_next (add_to_response E dname qtype cached udp st) (\<lambda>st.
                and_next
                  (if rd \<and> qtype \<noteq> T_CNAME \<and> qtype \<noteq> QT_ALL \<and> \<not> (in_types qtype \<and> have_rr cached qtype)
                   then (case follow_cname_chain cached of
                           None \<Rightarrow> None
                         | Some None \<Rightarrow> go_on None
                         | Some (Some nm) \<Rightarrow> go_on (Some nm))
                   else go_on None)
                  (\<lambda>next. case next of
                     Some nm \<Rightarrow>
                       (case hops of
                          0 \<Rightarrow> go_on (Go aa st)
                        | Suc h \<Rightarrow> answer_question E rd with_opt h qtype nm udp aa st)
                   | None \<Rightarrow> and_next (note_authority E qtype cached st) (\<lambda>st. go_on (Go aa st)))))"

declare answer_question.simps [simp del]

fun answer_questions ::
  "env \<Rightarrow> bool \<Rightarrow> bool \<Rightarrow> queryel list \<Rightarrow> nat option \<Rightarrow> bool \<Rightarrow> answer \<Rightarrow> progress outcome" where
  "answer_questions E rd with_opt [] udp aa st = go_on (Go aa st)"
| "answer_questions E rd with_opt (qe # ql) udp aa st =
     (case rhncpy (qe_query qe) of
        None \<Rightarrow> None
      | Some (_, dname) \<Rightarrow>
          and_next (answer_question E rd with_opt MAX_HOPS (qe_type qe) dname udp aa st) (\<lambda>p.
            case p of Finished rc st \<Rightarrow> go_on (Finished rc st)
            | Go aa st \<Rightarrow> answer_questions E rd with_opt ql udp aa st))"

text \<open>The authority section and the additional section.\<close>

fun add_authorities :: "env \<Rightarrow> rr_ext_t list \<Rightarrow> nat option \<Rightarrow> answer \<Rightarrow> answer outcome" where
  "add_authorities E [] udp st = go_on st"
| "add_authorities E (rre # ar) udp st =
     and_next
       (if re_tp rre = T_NS \<or> re_tp rre = T_SOA
        then add_additional_rr E (re_nm rre) (re_tp rre) (uint (re_ttl rre)) (re_tnm rre) S_AUTHORITY udp st
        else go_on st)
       (add_authorities E ar udp)"

fun add_addresses :: "env \<Rightarrow> rr_ext_t list \<Rightarrow> nat option \<Rightarrow> answer \<Rightarrow> answer outcome" where
  "add_addresses E [] udp st = go_on st"
| "add_addresses E (rre # ar) udp st =
     and_next
       (if re_tp rre = T_NS \<or> re_tp rre = RRETP_ADD then add_additional_a E (re_tnm rre) udp st else go_on st)
       (add_addresses E ar udp)"

definition add_sections :: "env \<Rightarrow> bool \<Rightarrow> nat option \<Rightarrow> answer \<Rightarrow> answer outcome" where
  "add_sections E with_opt udp st =
     and_next (add_authorities E (a_ar st) udp st) (\<lambda>st.
       if (case udp of None \<Rightarrow> False | Some u \<Rightarrow> length (a_msg st) + (1 + sizeof_rr_hdr_t) > u) then go_on st
       else and_next (add_opt E with_opt RC_OK st) (\<lambda>st. add_addresses E (a_ar st) udp st))"

text \<open>The result: the answer, or \<open>Some None\<close> for NULL, with the result code.\<close>

definition compose_answer :: "env \<Rightarrow> queryel list \<Rightarrow> byte list \<Rightarrow> bool \<Rightarrow> nat option \<Rightarrow> (u16 \<times> byte list) outcome" where
  "compose_answer E ql hdr with_opt udp =
     (if \<not> e_mem E 0 then return_0
      else
        let st = \<lparr>a_msg = answer_hdr hdr, a_alloc = 256, a_cb = [], a_sva = [], a_ar = [], a_calls = 1\<rparr> in
        and_next (add_questions E ql st) (\<lambda>st.
          if list_ex unsupported ql then go_on (RC_NOTSUPP, a_msg (set_rcode RC_NOTSUPP st))
          else and_next (answer_questions E (hdr_rd hdr) with_opt ql udp True st) (\<lambda>p.
            case p of
              Finished rc st \<Rightarrow> go_on (rc, a_msg st)
            | Go aa st \<Rightarrow>
                and_next (add_sections E with_opt udp st) (\<lambda>st.
                  go_on (RC_OK, a_msg (if aa then set_aa st else st))))))"

section \<open>Loops over records\<close>

fun run_list :: "('a \<Rightarrow> 's \<Rightarrow> 's outcome) \<Rightarrow> 'a list \<Rightarrow> 's \<Rightarrow> 's outcome" where
  "run_list f [] st = go_on st"
| "run_list f (x # xs) st = and_next (f x st) (run_list f xs)"

lemma and_next_cong: "r = r' \<Longrightarrow> (\<And>x. f x = g x) \<Longrightarrow> and_next r f = and_next r' g"
  by (simp add: and_next_def split: option.split)

lemma rr_loop_list:
  "i < length rrs \<Longrightarrow> first < length rrs \<Longrightarrow>
     rr_loop rnd f rrs first i st =
     run_list f (if \<not> rnd then drop i rrs else if i < first then drop i (take first rrs) else drop i rrs @ take first rrs) st"
proof (induction rnd f rrs first i st rule: rr_loop.induct)
  case (1 rnd f rrs first i st)
  have d: "drop i rrs = rrs ! i # drop (Suc i) rrs" by (rule Cons_nth_drop_Suc [symmetric, OF 1(3)])
  have t: "i < first \<Longrightarrow> drop i (take first rrs) = rrs ! i # drop (Suc i) (take first rrs)"
    using Cons_nth_drop_Suc [of i "take first rrs"] 1(4) by simp
  show ?case
  proof (cases rnd)
    case True
    have "rr_loop rnd f rrs first i st = and_next (f (rrs ! i) st) (\<lambda>st.
        let b = (if Suc i = length rrs then 0 else Suc i) in
        if b = first then go_on st else rr_loop rnd f rrs first b st)"
      using 1(3,4) True by (subst rr_loop.simps) (simp add: Let_def)
    also have "\<dots> = and_next (f (rrs ! i) st)
        (run_list f (if i < first then drop (Suc i) (take first rrs) else drop (Suc i) rrs @ take first rrs))"
    proof (rule and_next_cong [OF refl])
      fix st'
      let ?b = "if Suc i = length rrs then 0 else Suc i"
      have b: "?b < length rrs" using 1(3) by auto
      have "?b \<noteq> first \<Longrightarrow> rr_loop rnd f rrs first ?b st' =
          run_list f (if ?b < first then drop ?b (take first rrs) else drop ?b rrs @ take first rrs) st'"
        using "1.IH"(1) [of "Suc i" ?b st'] 1(3,4) True b by auto
      then show "(let b = ?b in if b = first then go_on st' else rr_loop rnd f rrs first b st') =
          run_list f (if i < first then drop (Suc i) (take first rrs) else drop (Suc i) rrs @ take first rrs) st'"
        using 1(3,4) by (auto simp: Let_def)
    qed
    finally show ?thesis using True d t by auto
  next
    case False
    have "rr_loop rnd f rrs first i st = and_next (f (rrs ! i) st) (\<lambda>st.
        if Suc i = length rrs then go_on st else rr_loop rnd f rrs first (Suc i) st)"
      using 1(3,4) False by (subst rr_loop.simps) (simp add: Let_def)
    also have "\<dots> = and_next (f (rrs ! i) st) (run_list f (drop (Suc i) rrs))"
    proof (rule and_next_cong [OF refl])
      fix st'
      have "Suc i \<noteq> length rrs \<Longrightarrow> rr_loop rnd f rrs first (Suc i) st' = run_list f (drop (Suc i) rrs) st'"
        using "1.IH"(2) [of "Suc i" st'] 1(3,4) False by auto
      then show "(if Suc i = length rrs then go_on st' else rr_loop rnd f rrs first (Suc i) st') = run_list f (drop (Suc i) rrs) st'"
        by auto
    qed
    finally show ?thesis using False d by simp
  qed
qed

lemma for_rrs_list:
  "\<exists>k. (\<not> rnd_recs E \<longrightarrow> k = 0) \<and> for_rrs E f rrs st = run_list f (rotate k rrs) st"
proof (cases "rrs = []")
  case False
  let ?k = "if rnd_recs E then randrr (e_random E (a_calls st)) rrs else 0"
  have k: "?k < length rrs" using False by (simp add: randrr_def)
  have "for_rrs E f rrs st = rr_loop (rnd_recs E) f rrs ?k ?k st" using False by (simp add: for_rrs_def Let_def)
  also have "\<dots> = run_list f (if \<not> rnd_recs E then drop ?k rrs else drop ?k rrs @ take ?k rrs) st"
    using rr_loop_list [OF k k, of "rnd_recs E" f st] by simp
  also have "(if \<not> rnd_recs E then drop ?k rrs else drop ?k rrs @ take ?k rrs) = rotate ?k rrs"
    using k by (simp add: rotate_drop_take)
  finally show ?thesis by (intro exI [of _ ?k]) simp
qed (auto simp: for_rrs_def)

lemma run_list_safe:
  assumes "P [] st" "\<And>ys x st. P ys st \<Longrightarrow> x \<in> set xs \<Longrightarrow> safe (f x st) (P (ys @ [x]))"
  shows "safe (run_list f xs st) (P xs)"
proof -
  have "safe (run_list f zs st) (P (ys @ zs))" if "P ys st" "set zs \<subseteq> set xs" for ys zs st
    using that
  proof (induction zs arbitrary: ys st)
    case (Cons z zs)
    then show ?case using assms(2) [of ys st z] by (auto intro!: safe_next [OF assms(2)] dest: Cons.IH [of "ys @ [z]"])
  qed simp
  from this [of "[]" st xs] show ?thesis using assms(1) by simp
qed

lemma proceeds_run_list: "(\<And>x st. x \<in> set xs \<Longrightarrow> proceeds (f x st)) \<Longrightarrow> proceeds (run_list f xs st)"
  by (induction xs arbitrary: st) auto

section \<open>What a message holds\<close>

text \<open>
  The entries of a message: the questions, the records and the OPT record, each with the position of the count in the
  header that counts it.
\<close>

datatype item = Quest "label list" nat nat | Rec rr_spec | Optrec

fun item_at :: "byte list \<Rightarrow> nat \<Rightarrow> item \<Rightarrow> nat \<Rightarrow> bool" where
  "item_at m p (Quest nm tp cls) q \<longleftrightarrow> name_ok nm \<and>
     (\<exists>n. holds_name m p n nm \<and> getint16 m (p + n) = of_nat tp \<and> getint16 m (p + n + 2) = of_nat cls \<and>
        q = p + n + 4 \<and> q \<le> length m)"
| "item_at m p (Rec r) q \<longleftrightarrow> rr_written m p r q"
| "item_at m p Optrec q \<longleftrightarrow>
     q = p + 11 \<and> q \<le> length m \<and> m ! p = 0 \<and> getint16 m (p + 1) = of_nat T_OPT \<and> getint16 m (p + 9) = 0"

fun items_at :: "byte list \<Rightarrow> nat \<Rightarrow> item list \<Rightarrow> nat \<Rightarrow> bool" where
  "items_at m p [] q \<longleftrightarrow> q = p"
| "items_at m p (it # its) q \<longleftrightarrow> (\<exists>p'. item_at m p it p' \<and> items_at m p' its q)"

type_synonym entry = "nat \<times> item"

definition counted :: "byte list \<Rightarrow> entry list \<Rightarrow> bool" where
  "counted msg es \<longleftrightarrow> (\<forall>f \<in> {4, 6, 8, 10}. getint16 msg f = of_nat (length (filter (\<lambda>e. fst e = f) es)))"

text \<open>An entry a program that knows \<open>E\<close> may send.\<close>

definition known_cent :: "env \<Rightarrow> dns_cent \<Rightarrow> bool" where
  "known_cent E c \<longleftrightarrow>
     (\<exists>now nm tp csoa. e_resolve E now nm tp = (RC_OK, Some c, csoa)) \<or> (\<exists>now nm. e_lookup E now nm = Some c)"

definition from_cache :: "env \<Rightarrow> rr_spec \<Rightarrow> bool" where
  "from_cache E = (\<lambda>(nm, tp, ttl, vs). \<exists>c rs d. known_cent E c \<and> getrrset c (int tp) = Some rs \<and> d \<in> set (rs_rrs rs) \<and>
     data_fits tp d vs \<and> ttl = of_int (ans_ttl rs (e_queryts E)))"

fun entry_ok :: "env \<Rightarrow> entry \<Rightarrow> bool" where
  "entry_ok E (f, Quest nm tp cls) \<longleftrightarrow> f = 4 \<and> tp < 65536 \<and> cls < 65536"
| "entry_ok E (f, Rec r) \<longleftrightarrow> f \<in> {6, 8, 10} \<and> rr_fits r \<and> from_cache E r"
| "entry_ok E (f, Optrec) \<longleftrightarrow> f = 10"

definition message_holds :: "env \<Rightarrow> byte list \<Rightarrow> entry list \<Rightarrow> bool" where
  "message_holds E msg es \<longleftrightarrow> 12 \<le> length msg \<and> items_at (masked msg) 12 (map snd es) (length msg) \<and> counted msg es \<and>
     sorted (map fst es) \<and> list_all (entry_ok E) es"

lemma item_at_append: "item_at m p it q \<Longrightarrow> item_at (m @ x) p it q"
proof (cases it)
  case (Quest nm tp cls)
  assume "item_at m p it q"
  then obtain n where n: "name_ok nm" "holds_name m p n nm" "getint16 m (p + n) = of_nat tp" "getint16 m (p + n + 2) = of_nat cls"
    "q = p + n + 4" "q \<le> length m" using Quest by auto
  then have "getint16 (m @ x) (p + n) = of_nat tp" "getint16 (m @ x) (p + n + 2) = of_nat cls"
    by (simp_all add: getint_append)
  then show ?thesis using n Quest holds_name_append [OF n(2), of x] by (auto intro!: exI [of _ n])
next
  case Optrec
  assume "item_at m p it q"
  then show ?thesis using Optrec by (simp add: getint_append nth_append)
qed (simp add: rr_written_append)

lemma items_at_append: "items_at m p its q \<Longrightarrow> items_at (m @ x) p its q"
  by (induction its arbitrary: p) (auto intro: item_at_append)

lemma items_at_snoc: "items_at m p its q \<Longrightarrow> item_at m q it q' \<Longrightarrow> items_at m p (its @ [it]) q'"
  by (induction its arbitrary: p) auto

lemma bump_count_fields:
  assumes "12 \<le> length msg" "i \<in> {4, 6, 8, 10}"
  shows "length (bump_count i msg) = length msg" "masked (bump_count i msg) = masked msg"
    "j \<in> {4, 6, 8, 10} \<Longrightarrow> getint16 (bump_count i msg @ x) j = getint16 msg j + (if i = j then 1 else 0)"
proof -
  show "length (bump_count i msg) = length msg" "masked (bump_count i msg) = masked msg"
    using assms by (auto simp: bump_count_def masked_def overwrite_def)
  have i: "i + 2 \<le> length msg" using assms by auto
  show "getint16 (bump_count i msg @ x) j = getint16 msg j + (if i = j then 1 else 0)" if j: "j \<in> {4, 6, 8, 10}"
  proof (cases "i = j")
    case True
    then show ?thesis using getint16_overwrite(1) [OF i, of 0] assms by (auto simp: bump_count_def)
  next
    case False
    have "j + 2 \<le> i \<or> i + 2 \<le> j" "j + 2 \<le> length msg" using False assms j by auto
    then show ?thesis using getint16_overwrite(2) [OF i, of j] False by (simp add: bump_count_def)
  qed
qed

text \<open>One more entry.\<close>

lemma message_holds_snoc:
  assumes "message_holds E msg es" "msg' = bump_count f msg @ x" "f \<in> {4, 6, 8, 10}" "entry_ok E (f, it)"
    "item_at (masked msg') (length msg) it (length msg')" "\<forall>e \<in> set es. fst e \<le> f"
  shows "message_holds E msg' (es @ [(f, it)])"
proof -
  have m: "12 \<le> length msg" using assms(1) by (simp add: message_holds_def)
  note b = bump_count_fields [OF m assms(3)]
  have "length msg \<le> length msg'" using assms(2) b(1) by simp
  moreover have "items_at (masked msg') 12 (map snd es) (length msg)"
    using assms(1) items_at_append [of "masked msg" 12 "map snd es" "length msg" x] m b(1,2)
    unfolding assms(2) message_holds_def by simp
  then have "items_at (masked msg') 12 (map snd (es @ [(f, it)])) (length msg')"
    using items_at_snoc [OF _ assms(5)] by simp
  moreover have "counted msg' (es @ [(f, it)])"
    unfolding counted_def
  proof
    fix j :: nat
    assume j: "j \<in> {4, 6, 8, 10}"
    have "getint16 msg j = of_nat (length (filter (\<lambda>e. fst e = j) es))"
      using assms(1) j unfolding message_holds_def counted_def by blast
    then show "getint16 msg' j = of_nat (length (filter (\<lambda>e. fst e = j) (es @ [(f, it)])))"
      using b(3) [OF j, of x] by (simp add: assms(2))
  qed
  ultimately show ?thesis
    using assms(1,4,6) m unfolding message_holds_def by (simp add: sorted_append)
qed

lemma count_field_in: "count_field s \<in> {4, 6, 8, 10}" "count_field s \<in> {6, 8, 10}"
  by (cases s; simp add: count_field_def)+

section \<open>The state between calls\<close>

text \<open>
  What is noted about records added and records to be added: legal names, data of the right layout, and names that the
  message contains, so that they take no more than a pointer when they are the owner of an address record.
\<close>

definition sva_ok :: "compel list \<Rightarrow> sva_t \<Rightarrow> bool" where
  "sva_ok cb sv \<longleftrightarrow> (\<exists>nm. name_ok nm \<and> sv_nm sv = enc_name nm) \<and>
     (sv_tp sv = T_NS \<longrightarrow> (\<exists>nm. name_ok nm \<and> sv_data sv = enc_name nm \<and> listed cb nm))"

definition ar_ok :: "env \<Rightarrow> compel list \<Rightarrow> rr_ext_t \<Rightarrow> bool" where
  "ar_ok E cb re \<longleftrightarrow>
     (if re_tp re = RRETP_ADD then \<exists>nm. name_ok nm \<and> re_tnm re = enc_name nm \<and> listed cb nm
      else re_tp re \<in> {T_NS, T_SOA} \<and>
        (\<exists>nm vs. name_ok nm \<and> re_nm re = enc_name nm \<and> data_fits (re_tp re) (re_tnm re) vs \<and>
           from_cache E (nm, re_tp re, re_ttl re, vs)))"

definition resp_ok :: "env \<Rightarrow> entry list \<Rightarrow> answer \<Rightarrow> bool" where
  "resp_ok E es st \<longleftrightarrow> ans_inv st \<and> message_holds E (a_msg st) es \<and>
     list_all (sva_ok (a_cb st)) (a_sva st) \<and> list_all (ar_ok E (a_cb st)) (a_ar st)"

text \<open>The list of names grows, and the id and the flags in the header stay.\<close>

definition cb_grows :: "answer \<Rightarrow> answer \<Rightarrow> bool" where
  "cb_grows st st' \<longleftrightarrow> (\<exists>x. a_cb st' = a_cb st @ x) \<and> take 4 (a_msg st') = take 4 (a_msg st)"

lemma bump_count_flags: "12 \<le> length m \<Longrightarrow> f \<in> {4, 6, 8, 10} \<Longrightarrow> take 4 (bump_count f m @ x) = take 4 m"
  by (auto simp: bump_count_def overwrite_def)

lemma cb_grows_refl [simp]: "cb_grows st st"
  by (simp add: cb_grows_def)

lemma cb_grows_trans: "cb_grows a b \<Longrightarrow> cb_grows b c \<Longrightarrow> cb_grows a c"
  by (auto simp: cb_grows_def)

lemma cb_grows_listed: "cb_grows st st' \<Longrightarrow> listed (a_cb st) nm \<Longrightarrow> listed (a_cb st') nm"
  by (auto simp: cb_grows_def listed_append)

lemma notes_grow:
  assumes "cb_grows st st'"
  shows "sva_ok (a_cb st) sv \<Longrightarrow> sva_ok (a_cb st') sv" "ar_ok E (a_cb st) re \<Longrightarrow> ar_ok E (a_cb st') re"
  using cb_grows_listed [OF assms] unfolding sva_ok_def ar_ok_def by (auto split: if_splits)

lemma resp_ok_grows:
  assumes "resp_ok E es st" "cb_grows st st'" "a_sva st' = a_sva st" "a_ar st' = a_ar st" "ans_inv st'"
    "message_holds E (a_msg st') es'"
  shows "resp_ok E es' st'"
  using assms notes_grow [OF assms(2)] unfolding resp_ok_def by (auto simp: list_all_iff)

text \<open>One record.\<close>

lemma add_rr_step:
  assumes ok: "resp_ok E es st" and nm: "name_ok nm" and fit: "data_fits tp data vs" and tp: "tp < 65536"
    and cached: "from_cache E (nm, tp, ttl, vs)" and last: "\<forall>e \<in> set es. fst e \<le> count_field s"
    and extra: "s = S_ADDITIONAL \<Longrightarrow> udp \<noteq> None \<Longrightarrow> listed (a_cb st) nm \<and> tp \<in> {T_A, T_AAAA}"
  shows "safe (add_rr mem (enc_name nm) tp ttl data s udp st) (\<lambda>st'. cb_grows st st' \<and>
    a_sva st' = a_sva st \<and> a_ar st' = a_ar st \<and> (packed_type tp \<longrightarrow> names_listed (a_cb st') vs) \<and>
    (resp_ok E (es @ [(count_field s, Rec (nm, tp, ttl, vs))]) st' \<and>
        (s = S_ADDITIONAL \<longrightarrow> (\<forall>u. udp = Some u \<longrightarrow> length (a_msg st') \<le> u)) \<or>
     resp_ok E es st' \<and> a_msg st' = a_msg st \<and> s = S_ADDITIONAL \<and> udp \<noteq> None))"
proof -
  have inv: "ans_inv st" and msg: "message_holds E (a_msg st) es" and m: "12 \<le> length (a_msg st)"
    using ok by (simp_all add: resp_ok_def ans_inv_def)
  show ?thesis
  proof (rule safe_mono [OF add_rr_ok [OF inv nm fit tp extra, where mem = mem and rest = "[]" and ttl = ttl, unfolded append_Nil2]])
    fix st' :: answer
    assume "ans_inv st' \<and> a_sva st' = a_sva st \<and> a_ar st' = a_ar st \<and> (\<exists>ext. a_cb st' = a_cb st @ ext) \<and>
      (packed_type tp \<longrightarrow> names_listed (a_cb st') vs) \<and>
      ((\<exists>bytes. a_msg st' = bump_count (count_field s) (a_msg st) @ bytes \<and>
        rr_written (masked (a_msg st')) (length (a_msg st)) (nm, tp, ttl, vs) (length (a_msg st'))) \<and>
        (s = S_ADDITIONAL \<longrightarrow> (\<forall>u. udp = Some u \<longrightarrow> length (a_msg st') \<le> u)) \<or>
       a_msg st' = a_msg st \<and> s = S_ADDITIONAL \<and> udp \<noteq> None)"
    then have st': "ans_inv st'" "a_sva st' = a_sva st" "a_ar st' = a_ar st" "cb_grows st st'"
      "packed_type tp \<longrightarrow> names_listed (a_cb st') vs"
      and dropped: "(\<exists>bytes. a_msg st' = bump_count (count_field s) (a_msg st) @ bytes \<and>
        rr_written (masked (a_msg st')) (length (a_msg st)) (nm, tp, ttl, vs) (length (a_msg st'))) \<and>
        (s = S_ADDITIONAL \<longrightarrow> (\<forall>u. udp = Some u \<longrightarrow> length (a_msg st') \<le> u)) \<or>
       a_msg st' = a_msg st \<and> s = S_ADDITIONAL \<and> udp \<noteq> None"
      using bump_count_flags [OF m count_field_in(1)] by (auto simp: cb_grows_def)
    note keep = resp_ok_grows [OF ok st'(4) st'(2,3) st'(1)]
    have "resp_ok E (es @ [(count_field s, Rec (nm, tp, ttl, vs))]) st'"
      if "a_msg st' = bump_count (count_field s) (a_msg st) @ bytes"
        "rr_written (masked (a_msg st')) (length (a_msg st)) (nm, tp, ttl, vs) (length (a_msg st'))" for bytes
    proof (rule keep, rule message_holds_snoc [OF msg that(1) count_field_in(1)])
      have "vs = vs \<and> data = enc_vals vs" using fit by (simp add: data_fits_def)
      then show "entry_ok E (count_field s, Rec (nm, tp, ttl, vs))"
        using nm tp fit cached count_field_in(2) by (simp add: rr_fits_def)
    qed (use that last in simp_all)
    then show "cb_grows st st' \<and> a_sva st' = a_sva st \<and> a_ar st' = a_ar st \<and>
      (packed_type tp \<longrightarrow> names_listed (a_cb st') vs) \<and>
      (resp_ok E (es @ [(count_field s, Rec (nm, tp, ttl, vs))]) st' \<and>
        (s = S_ADDITIONAL \<longrightarrow> (\<forall>u. udp = Some u \<longrightarrow> length (a_msg st') \<le> u)) \<or>
       resp_ok E es st' \<and> a_msg st' = a_msg st \<and> s = S_ADDITIONAL \<and> udp \<noteq> None)"
      using st' dropped keep [of es] msg by auto
  qed
qed

lemma sva_add_step:
  assumes ok: "resp_ok E es st" and nm: "name_ok nm"
    and listed: "tp = T_NS \<Longrightarrow> \<exists>ls. name_ok ls \<and> data = enc_name ls \<and> listed (a_cb st) ls"
  shows "safe (sva_add E (enc_name nm) tp data st) (\<lambda>st'. resp_ok E es st' \<and> cb_grows st st' \<and> a_msg st' = a_msg st \<and>
    a_cb st' = a_cb st \<and> a_ar st' = a_ar st \<and>
    a_sva st' = a_sva st @ [\<lparr>sv_tp = tp, sv_nm = enc_name nm, sv_data = data\<rparr>])"
proof -
  have "rhnlen (enc_name nm) = Some (length (enc_name nm))"
    using rhnlen_enc [OF name_okD, OF nm, of "[]"] by simp
  then show ?thesis
    using ok nm listed by (auto simp: sva_add_def with_rhnlen_def resp_ok_def sva_ok_def cb_grows_def ans_inv_def)
qed

lemma add_ar_step:
  assumes ok: "resp_ok E es st" and re: "ar_ok E (a_cb st) \<lparr>re_tp = tp, re_ttl = of_int ttl, re_tnm = tnm, re_nm = kept\<rparr>"
    and nm: "tp \<in> {T_NS, T_SOA} \<Longrightarrow> kept = nm \<and> (\<exists>ls. name_ok ls \<and> nm = enc_name ls)" "tp \<notin> {T_NS, T_SOA} \<Longrightarrow> kept = []"
  shows "safe (add_ar E tp tnm nm ttl st) (\<lambda>st'. resp_ok E es st' \<and> cb_grows st st' \<and> a_msg st' = a_msg st \<and>
    a_cb st' = a_cb st \<and> a_sva st' = a_sva st \<and>
    a_ar st' = a_ar st @ [\<lparr>re_tp = tp, re_ttl = of_int ttl, re_tnm = tnm, re_nm = kept\<rparr>])"
proof (cases "tp \<in> {T_NS, T_SOA}")
  case True
  then obtain ls where ls: "name_ok ls" "nm = enc_name ls" "kept = nm" using nm(1) by blast
  then have "rhnlen nm = Some (length nm)" using rhnlen_enc [OF name_okD, OF ls(1), of "[]"] by simp
  then show ?thesis
    using ok re True ls by (auto simp: add_ar_def Let_def with_rhnlen_def resp_ok_def cb_grows_def ans_inv_def)
next
  case False
  then show ?thesis
    using ok re nm(2) by (auto simp: add_ar_def Let_def resp_ok_def cb_grows_def ans_inv_def)
qed

lemma resp_ok_fields: "resp_ok E es st \<Longrightarrow> resp_ok E es (st\<lparr>a_calls := n\<rparr>)"
  by (simp add: resp_ok_def ans_inv_def)

section \<open>The answer section\<close>

text \<open>
  An entry of the cache whose name is legal and whose data has the layout of its type; an environment that returns
  only such entries.
\<close>

definition good_cent :: "dns_cent \<Rightarrow> bool" where
  "good_cent c \<longleftrightarrow> (\<exists>nm. name_ok nm \<and> qname c = enc_name nm) \<and>
     (\<forall>tp rs d. getrrset c (int tp) = Some rs \<longrightarrow> d \<in> set (rs_rrs rs) \<longrightarrow> (\<exists>vs. data_fits tp d vs))"

text \<open>The records of an RR set, from some record on if their order is random.\<close>

definition answers_set :: "env \<Rightarrow> label list \<Rightarrow> dns_cent \<Rightarrow> nat \<Rightarrow> rr_spec list \<Rightarrow> bool" where
  "answers_set E nm cached tp recs \<longleftrightarrow>
     (case getrrset cached (int tp) of
        None \<Rightarrow> recs = []
      | Some rs \<Rightarrow> \<exists>k. (\<not> rnd_recs E \<longrightarrow> k = 0) \<and>
          list_all2 (\<lambda>d r. \<exists>vs. r = (nm, tp, of_int (ans_ttl rs (e_queryts E)), vs) \<and> data_fits tp d vs)
            (rotate k (rs_rrs rs)) recs)"

fun answers_sets :: "env \<Rightarrow> label list \<Rightarrow> dns_cent \<Rightarrow> nat list \<Rightarrow> rr_spec list \<Rightarrow> bool" where
  "answers_sets E nm cached [] recs \<longleftrightarrow> recs = []"
| "answers_sets E nm cached (tp # tps) recs \<longleftrightarrow>
     (\<exists>a b. recs = a @ b \<and> answers_set E nm cached tp a \<and> answers_sets E nm cached tps b)"

definition response_types :: "dns_cent \<Rightarrow> nat \<Rightarrow> nat list option" where
  "response_types cached qtype =
     map_option (\<lambda>tps. if qtype \<noteq> T_CNAME \<and> qtype \<noteq> QT_ALL \<and> \<not> (in_types qtype \<and> have_rr cached qtype) then T_CNAME # tps else tps)
       (if qtype = QT_MAILB then Some [T_MB, T_MG, T_MR]
        else if qtype = QT_MAILA then Some [T_MD, T_MF]
        else if qtype = QT_ALL then Some (rriterlist cached)
        else if in_types qtype then Some [qtype] else None)"

definition answer_entries :: "rr_spec list \<Rightarrow> entry list" where
  "answer_entries recs = map (\<lambda>r. (6, Rec r)) recs"

lemma answer_entries_simps [simp]:
  "answer_entries [] = []" "answer_entries (a @ b) = answer_entries a @ answer_entries b"
  "answer_entries [r] = [(6, Rec r)]" "set (answer_entries recs) = (\<lambda>r. (6, Rec r)) ` set recs"
  by (auto simp: answer_entries_def)

lemma getrrset_type: "getrrset c (int tp) = Some rs \<Longrightarrow> 1 \<le> tp \<and> tp \<le> 51"
  by (auto simp: getrrset_def Let_def split: if_splits)

lemma ar_target:
  assumes "map_of (zip ar_recs ar_offs) tp = Some off" "data_fits tp data vs"
  shows "packed_type tp" "\<exists>ls. name_ok ls \<and> Nm ls \<in> set vs \<and> off \<le> length data \<and> drop off data = enc_name ls"
proof -
  have tp: "tp \<in> {2, 3, 4, 7} \<and> off = 0 \<or> tp = 15 \<and> off = 2 \<or> tp = 33 \<and> off = 6"
    using assms(1) by (auto simp: ar_recs_def ar_offs_def split: if_splits)
  then show "packed_type tp" by (auto simp: packed_type_def)
  obtain fs where fs: "rr_layout tp data = Some fs" "list_all2 field_fits fs vs" "data = enc_vals vs"
    using assms(2) by (auto simp: data_fits_def)
  from tp show "\<exists>ls. name_ok ls \<and> Nm ls \<in> set vs \<and> off \<le> length data \<and> drop off data = enc_name ls"
  proof (elim disjE conjE)
    assume a: "tp \<in> {2, 3, 4, 7}" "off = 0"
    then have "fs = [Name]" using fs(1) by (auto simp: rr_layout_def)
    then show ?thesis using fs a(2) by (auto simp: list_all2_Cons1 enc_vals_def)
  next
    assume a: "tp = 15" "off = 2"
    then have "fs = [Bytes 2, Name]" using fs(1) by (simp add: rr_layout_def)
    then show ?thesis using fs a(2) by (auto simp: list_all2_Cons1 enc_vals_def)
  next
    assume a: "tp = 33" "off = 6"
    then have "fs = [Bytes 6, Name]" using fs(1) by (simp add: rr_layout_def)
    then show ?thesis using fs a(2) by (auto simp: list_all2_Cons1 enc_vals_def)
  qed
qed

lemma ns_target:
  assumes "data_fits T_NS data vs"
  shows "\<exists>ls. name_ok ls \<and> vs = [Nm ls] \<and> data = enc_name ls"
proof -
  obtain fs where "rr_layout 2 data = Some fs" "list_all2 field_fits fs vs" "data = enc_vals vs"
    using assms by (auto simp: data_fits_def)
  moreover from this have "fs = [Name]" by (simp add: rr_layout_def)
  ultimately show ?thesis by (auto simp: list_all2_Cons1 enc_vals_def)
qed

text \<open>What has been added as a record that may be an additional one too: it is noted.\<close>

definition sva_keys :: "sva_t list \<Rightarrow> (label list \<times> nat \<times> byte list) set" where
  "sva_keys svs = (\<Union>sv \<in> set svs. {(lower_name nm, sv_tp sv, sv_data sv) |nm. name_ok nm \<and> sv_nm sv = enc_name nm})"

definition noted :: "entry list \<Rightarrow> answer \<Rightarrow> bool" where
  "noted es st \<longleftrightarrow> (\<forall>f nm tp ttl vs. (f, Rec (nm, tp, ttl, vs)) \<in> set es \<longrightarrow> tp \<in> {T_NS, T_A, T_AAAA} \<longrightarrow>
     (lower_name nm, tp, enc_vals vs) \<in> sva_keys (a_sva st))"

definition resp_inv :: "env \<Rightarrow> entry list \<Rightarrow> answer \<Rightarrow> bool" where
  "resp_inv E es st \<longleftrightarrow> resp_ok E es st \<and> noted es st"

lemma resp_inv_ok: "resp_inv E es st \<Longrightarrow> resp_ok E es st"
  by (simp add: resp_inv_def)

lemma enc_name_eq: "name_ok a \<Longrightarrow> name_ok b \<Longrightarrow> enc_name a = enc_name b \<longleftrightarrow> a = b"
  using enc_name_inj [OF name_okD name_okD, of a b "[]" "[]"] by auto

lemma sva_keys_snoc:
  assumes "name_ok nm"
  shows "sva_keys (svs @ [\<lparr>sv_tp = tp, sv_nm = enc_name nm, sv_data = data\<rparr>]) = insert (lower_name nm, tp, data) (sva_keys svs)"
proof -
  let ?sv = "\<lparr>sv_tp = tp, sv_nm = enc_name nm, sv_data = data\<rparr>"
  have "sva_keys (svs @ [?sv]) = sva_keys svs \<union> sva_keys [?sv]" by (auto simp: sva_keys_def)
  moreover have "sva_keys [?sv] = {(lower_name ls, tp, data) |ls. name_ok ls \<and> enc_name nm = enc_name ls}"
    by (auto simp: sva_keys_def)
  then have "sva_keys [?sv] = {(lower_name nm, tp, data)}" using assms by (auto simp: enc_name_eq)
  ultimately show ?thesis by simp
qed

lemma noted_sva:
  assumes "noted es st" "name_ok nm" "a_sva st' = a_sva st @ [\<lparr>sv_tp = tp, sv_nm = enc_name nm, sv_data = data\<rparr>]" "data = enc_vals vs"
  shows "noted (es @ [(f, Rec (nm, tp, ttl, vs))]) st'"
  using assms by (auto simp: noted_def sva_keys_snoc)

lemma noted_other: "noted es st \<Longrightarrow> tp \<notin> {T_NS, T_A, T_AAAA} \<Longrightarrow> noted (es @ [(f, Rec (nm, tp, ttl, vs))]) st"
  by (auto simp: noted_def)

lemma add_rrset_rr_step:
  assumes ok: "resp_inv E es st" and nm: "name_ok nm" and fit: "data_fits tp data vs" and tp: "tp < 65536"
    and cached: "from_cache E (nm, tp, of_int ttl, vs)" and last: "\<forall>e \<in> set es. fst e \<le> 6"
  shows "safe (add_rrset_rr E (enc_name nm) tp ttl udp data st) (\<lambda>st'.
    resp_inv E (es @ [(6, Rec (nm, tp, of_int ttl, vs))]) st' \<and> cb_grows st st')"
  unfolding add_rrset_rr_def
proof (rule safe_next [OF add_rr_step [OF resp_inv_ok [OF ok] nm fit tp cached]])
  let ?es = "es @ [(6, Rec (nm, tp, of_int ttl, vs))]"
  show "\<forall>e \<in> set es. fst e \<le> count_field S_ANSWER" using last by (simp add: count_field_def)
  fix st1 :: answer
  assume "cb_grows st st1 \<and> a_sva st1 = a_sva st \<and> a_ar st1 = a_ar st \<and> (packed_type tp \<longrightarrow> names_listed (a_cb st1) vs) \<and>
    (resp_ok E (es @ [(count_field S_ANSWER, Rec (nm, tp, of_int ttl, vs))]) st1 \<and>
       (S_ANSWER = S_ADDITIONAL \<longrightarrow> (\<forall>u. udp = Some u \<longrightarrow> length (a_msg st1) \<le> u)) \<or>
     resp_ok E es st1 \<and> a_msg st1 = a_msg st \<and> S_ANSWER = S_ADDITIONAL \<and> udp \<noteq> None)"
  then have st1: "resp_ok E ?es st1" "cb_grows st st1" "packed_type tp \<Longrightarrow> names_listed (a_cb st1) vs"
    "a_sva st1 = a_sva st"
    by (simp_all add: count_field_def)
  have es: "noted es st1" using ok st1(4) by (simp add: resp_inv_def noted_def)
  have data: "data = enc_vals vs" using fit by (simp add: data_fits_def)
  show "safe (and_next (if tp = T_NS \<or> tp = T_A \<or> tp = T_AAAA then sva_add E (enc_name nm) tp data st1 else go_on st1) (\<lambda>st.
      case map_of (zip ar_recs ar_offs) tp of None \<Rightarrow> go_on st
      | Some off \<Rightarrow> if length data < off then None else add_ar E RRETP_ADD (drop off data) [0] 0 st))
    (\<lambda>st'. resp_inv E ?es st' \<and> cb_grows st st')"
  proof (rule safe_next [where P = "\<lambda>st2. resp_inv E ?es st2 \<and> cb_grows st1 st2"])
    have "\<exists>ls. name_ok ls \<and> data = enc_name ls \<and> listed (a_cb st1) ls" if "tp = T_NS"
      using ns_target [of data vs] fit st1(3) that by (auto simp: packed_type_def names_listed_def)
    then show "safe (if tp = T_NS \<or> tp = T_A \<or> tp = T_AAAA then sva_add E (enc_name nm) tp data st1 else go_on st1)
        (\<lambda>st2. resp_inv E ?es st2 \<and> cb_grows st1 st2)"
      using st1(1) noted_other [OF es] noted_sva [OF es nm, where tp = tp and data = data and vs = vs] data
      by (auto simp: resp_inv_def intro!: safe_mono [OF sva_add_step [OF st1(1) nm]])
  next
    fix st2 :: answer
    assume st2: "resp_inv E ?es st2 \<and> cb_grows st1 st2"
    then have grow: "cb_grows st st2" using cb_grows_trans st1(2) by blast
    show "safe (case map_of (zip ar_recs ar_offs) tp of None \<Rightarrow> go_on st2
        | Some off \<Rightarrow> if length data < off then None else add_ar E RRETP_ADD (drop off data) [0] 0 st2)
      (\<lambda>st'. resp_inv E ?es st' \<and> cb_grows st st')"
    proof (cases "map_of (zip ar_recs ar_offs) tp")
      case (Some off)
      note target = ar_target [OF Some fit]
      then obtain ls where ls: "name_ok ls" "Nm ls \<in> set vs" "off \<le> length data" "drop off data = enc_name ls" by blast
      have "listed (a_cb st2) ls"
        using cb_grows_listed [of st1 st2] st1(3) [OF target(1)] ls(2) st2 by (auto simp: names_listed_def)
      then have "ar_ok E (a_cb st2) \<lparr>re_tp = RRETP_ADD, re_ttl = of_int 0, re_tnm = drop off data, re_nm = []\<rparr>"
        using ls by (auto simp: ar_ok_def)
      then have "safe (add_ar E RRETP_ADD (drop off data) [0] 0 st2) (\<lambda>st'. resp_ok E ?es st' \<and> cb_grows st2 st' \<and>
        a_msg st' = a_msg st2 \<and> a_cb st' = a_cb st2 \<and> a_sva st' = a_sva st2 \<and>
        a_ar st' = a_ar st2 @ [\<lparr>re_tp = RRETP_ADD, re_ttl = of_int 0, re_tnm = drop off data, re_nm = []\<rparr>])"
        using st2 by (intro add_ar_step) (simp_all add: resp_inv_def)
      then show ?thesis
        using Some ls(3) grow st2 by (auto simp: resp_inv_def noted_def elim!: safe_mono intro: cb_grows_trans)
    qed (use st2 grow in simp)
  qed
qed simp

lemma from_cacheI:
  assumes "known_cent E c" "getrrset c (int tp) = Some rs" "d \<in> set (rs_rrs rs)" "data_fits tp d vs"
  shows "from_cache E (nm, tp, of_int (ans_ttl rs (e_queryts E)), vs)"
  using assms unfolding from_cache_def by blast

lemma add_rrset_step:
  assumes ok: "resp_inv E es st" and nm: "name_ok nm" and c: "known_cent E c" "good_cent c" and last: "\<forall>e \<in> set es. fst e \<le> 6"
  shows "safe (add_rrset E (enc_name nm) tp c udp st) (\<lambda>st'. \<exists>recs. answers_set E nm c tp recs \<and>
    resp_inv E (es @ answer_entries recs) st' \<and> cb_grows st st')"
proof (cases "getrrset c (int tp)")
  case None
  then show ?thesis using ok by (auto simp: add_rrset_def answers_set_def intro!: exI [of _ "[]"])
next
  case (Some rs)
  let ?ttl = "ans_ttl rs (e_queryts E)" and ?f = "add_rrset_rr E (enc_name nm) tp (ans_ttl rs (e_queryts E)) udp"
  let ?rec = "\<lambda>d r. \<exists>vs. r = (nm, tp, of_int ?ttl, vs) \<and> data_fits tp d vs"
  let ?P = "\<lambda>ds st'. \<exists>recs. list_all2 ?rec ds recs \<and> resp_inv E (es @ answer_entries recs) st' \<and> cb_grows st st'"
  obtain k where k: "\<not> rnd_recs E \<longrightarrow> k = 0" "for_rrs E ?f (rs_rrs rs) st = run_list ?f (rotate k (rs_rrs rs)) st"
    using for_rrs_list by blast
  have "safe (run_list ?f (rotate k (rs_rrs rs)) st) (?P (rotate k (rs_rrs rs)))"
  proof (rule run_list_safe)
    show "?P [] st" using ok by (intro exI [of _ "[]"]) simp
  next
    fix ys d and st1 :: answer
    assume "?P ys st1" and "d \<in> set (rotate k (rs_rrs rs))"
    then obtain recs where recs: "list_all2 ?rec ys recs" "resp_inv E (es @ answer_entries recs) st1" "cb_grows st st1"
      and d: "d \<in> set (rs_rrs rs)" by auto
    obtain vs where vs: "data_fits tp d vs" using c(2) Some d unfolding good_cent_def by blast
    have tp: "tp < 65536" using getrrset_type [OF Some] by simp
    have "\<forall>e \<in> set (es @ answer_entries recs). fst e \<le> 6" using last by auto
    note step = add_rrset_rr_step [OF recs(2) nm vs tp from_cacheI [OF c(1) Some d vs] this]
    show "safe (?f d st1) (?P (ys @ [d]))"
    proof (rule safe_mono [OF step])
      fix st2 :: answer
      assume "resp_inv E ((es @ answer_entries recs) @ [(6, Rec (nm, tp, of_int ?ttl, vs))]) st2 \<and> cb_grows st1 st2"
      then show "?P (ys @ [d]) st2"
        using recs vs cb_grows_trans [of st st1 st2]
        by (intro exI [of _ "recs @ [(nm, tp, of_int ?ttl, vs)]"]) (auto intro: list_all2_appendI)
    qed
  qed
  then have run: "safe (for_rrs E ?f (rs_rrs rs) st) (?P (rotate k (rs_rrs rs)))" unfolding k(2) .
  have "?P (rotate k (rs_rrs rs)) st' \<Longrightarrow> \<exists>recs. answers_set E nm c tp recs \<and>
      resp_inv E (es @ answer_entries recs) st' \<and> cb_grows st st'" for st'
    using k(1) unfolding answers_set_def Some option.case by blast
  from safe_mono [OF run this] show ?thesis by (simp add: add_rrset_def Some)
qed

lemma add_rrsets_step:
  assumes "resp_inv E es st" "name_ok nm" "known_cent E c" "good_cent c" "\<forall>e \<in> set es. fst e \<le> 6"
  shows "safe (add_rrsets E (enc_name nm) tps c udp st) (\<lambda>st'. \<exists>recs. answers_sets E nm c tps recs \<and>
    resp_inv E (es @ answer_entries recs) st' \<and> cb_grows st st')"
  using assms(1,5)
proof (induction tps arbitrary: es st)
  case (Cons tp tps)
  show ?case unfolding add_rrsets.simps
  proof (rule safe_next [OF add_rrset_step [OF Cons.prems(1) assms(2-4) Cons.prems(2)]])
    fix st1 :: answer
    assume "\<exists>recs. answers_set E nm c tp recs \<and> resp_inv E (es @ answer_entries recs) st1 \<and> cb_grows st st1"
    then obtain a where a: "answers_set E nm c tp a" "resp_inv E (es @ answer_entries a) st1" "cb_grows st st1" by blast
    have "\<forall>e \<in> set (es @ answer_entries a). fst e \<le> 6" using Cons.prems(2) by auto
    note ih = Cons.IH [OF a(2) this]
    show "safe (add_rrsets E (enc_name nm) tps c udp st1) (\<lambda>st'. \<exists>recs. answers_sets E nm c (tp # tps) recs \<and>
      resp_inv E (es @ answer_entries recs) st' \<and> cb_grows st st')"
    proof (rule safe_mono [OF ih])
      fix st2 :: answer
      assume "\<exists>recs. answers_sets E nm c tps recs \<and> resp_inv E ((es @ answer_entries a) @ answer_entries recs) st2 \<and> cb_grows st1 st2"
      then obtain b where "answers_sets E nm c tps b" "resp_inv E ((es @ answer_entries a) @ answer_entries b) st2" "cb_grows st1 st2"
        by blast
      then show "\<exists>recs. answers_sets E nm c (tp # tps) recs \<and> resp_inv E (es @ answer_entries recs) st2 \<and> cb_grows st st2"
        using a cb_grows_trans [of st st1 st2] by (intro exI [of _ "a @ b"]) auto
    qed
  qed
qed (auto intro!: exI [of _ "[]"])

lemma and_next_eta: "and_next r (add_rrsets E rrn [] c udp) = r"
  by (simp add: and_next_def split: option.split)

lemma add_to_response_rrsets:
  assumes "response_types c qtype = Some tps"
  shows "add_to_response E rrn qtype c udp st = add_rrsets E rrn tps c udp st"
proof -
  let ?cname = "qtype \<noteq> T_CNAME \<and> qtype \<noteq> QT_ALL \<and> \<not> (in_types qtype \<and> have_rr c qtype)"
  let ?rest = "\<lambda>st. if qtype = QT_AXFR \<or> qtype = QT_IXFR then return_0
         else if qtype = QT_MAILB then add_rrsets E rrn [T_MB, T_MG, T_MR] c udp st
         else if qtype = QT_MAILA then add_rrsets E rrn [T_MD, T_MF] c udp st
         else if qtype = QT_ALL then add_rrsets E rrn (rriterlist c) c udp st
         else if in_types qtype then add_rrset E rrn qtype c udp st
         else return_0"
  obtain tps0 where t: "tps = (if ?cname then T_CNAME # tps0 else tps0)"
    "(if qtype = QT_MAILB then Some [T_MB, T_MG, T_MR] else if qtype = QT_MAILA then Some [T_MD, T_MF]
      else if qtype = QT_ALL then Some (rriterlist c) else if in_types qtype then Some [qtype] else None) = Some tps0"
    using assms unfolding response_types_def by (auto simp del: if_split)
  have "?rest = add_rrsets E rrn tps0 c udp"
  proof
    fix st
    show "?rest st = add_rrsets E rrn tps0 c udp st"
      using t(2) by (auto simp: in_types_def and_next_eta split: if_splits)
  qed
  then have "add_to_response E rrn qtype c udp st =
      and_next (if ?cname then add_rrset E rrn T_CNAME c udp st else go_on st) (add_rrsets E rrn tps0 c udp)"
    unfolding add_to_response_def by simp
  then show ?thesis using t(1) by simp
qed

lemma add_to_response_step:
  assumes "resp_inv E es st" "name_ok nm" "known_cent E c" "good_cent c" "\<forall>e \<in> set es. fst e \<le> 6"
  shows "safe (add_to_response E (enc_name nm) qtype c udp st) (\<lambda>st'. \<exists>tps recs. response_types c qtype = Some tps \<and>
    answers_sets E nm c tps recs \<and> resp_inv E (es @ answer_entries recs) st' \<and> cb_grows st st')"
proof (cases "response_types c qtype")
  case (Some tps)
  then show ?thesis
    unfolding add_to_response_rrsets [OF Some]
    by (auto intro!: safe_mono [OF add_rrsets_step [OF assms]])
next
  case None
  have "safe (if qtype \<noteq> T_CNAME \<and> qtype \<noteq> QT_ALL \<and> \<not> (in_types qtype \<and> have_rr c qtype)
        then add_rrset E (enc_name nm) T_CNAME c udp st else go_on st) (\<lambda>_. True)"
    using add_rrset_step [OF assms, of T_CNAME udp] by (auto intro: safe_mono)
  then show ?thesis
    unfolding add_to_response_def by (rule safe_next) (use None in \<open>auto simp: response_types_def split: if_splits\<close>)
qed

section \<open>The authority and the additional section\<close>

fun item_key :: "item \<Rightarrow> label list \<times> nat \<times> byte list" where
  "item_key (Rec (nm, tp, ttl, vs)) = (lower_name nm, tp, enc_vals vs)"
| "item_key (Quest nm tp cls) = (lower_name nm, tp, [])"
| "item_key Optrec = ([], T_OPT, [])"

text \<open>
  Records added to a section through \<open>add_additional_rr\<close>: none of them has been noted before, no two are equal, and those
  of the additional section leave the message within the size for UDP.
\<close>

definition adds :: "env \<Rightarrow> sect \<Rightarrow> nat option \<Rightarrow> entry list \<Rightarrow> answer \<Rightarrow> entry list \<Rightarrow> answer \<Rightarrow> bool" where
  "adds E s udp es st new st' \<longleftrightarrow> resp_inv E (es @ new) st' \<and> cb_grows st st' \<and> a_ar st' = a_ar st \<and>
     (\<forall>e \<in> set new. fst e = count_field s) \<and>
     (if new = [] then a_msg st' = a_msg st else s = S_ADDITIONAL \<longrightarrow> (\<forall>u. udp = Some u \<longrightarrow> length (a_msg st') \<le> u)) \<and>
     sva_keys (a_sva st) \<subseteq> sva_keys (a_sva st') \<and> distinct (map (item_key \<circ> snd) new) \<and>
     (item_key \<circ> snd) ` set new \<subseteq> sva_keys (a_sva st') - sva_keys (a_sva st)"

lemma adds_refl: "resp_inv E es st \<Longrightarrow> adds E s udp es st [] st"
  by (simp add: adds_def)

lemma adds_trans:
  assumes "adds E s udp es st new st1" "adds E s udp (es @ new) st1 new' st2"
  shows "adds E s udp es st (new @ new') st2"
proof -
  let ?K = "\<lambda>new. (item_key \<circ> snd) ` set new"
  have k: "distinct (map (item_key \<circ> snd) new)" "?K new \<subseteq> sva_keys (a_sva st1) - sva_keys (a_sva st)"
    "distinct (map (item_key \<circ> snd) new')" "?K new' \<subseteq> sva_keys (a_sva st2) - sva_keys (a_sva st1)"
    "sva_keys (a_sva st) \<subseteq> sva_keys (a_sva st1)" "sva_keys (a_sva st1) \<subseteq> sva_keys (a_sva st2)"
    using assms unfolding adds_def by blast+
  then have "?K new \<inter> ?K new' = {}" by blast
  then have "distinct (map (item_key \<circ> snd) (new @ new'))" using k(1,3) by (simp add: image_comp)
  moreover have "?K (new @ new') \<subseteq> sva_keys (a_sva st2) - sva_keys (a_sva st)" using k by auto
  ultimately show ?thesis
    using assms cb_grows_trans [of st st1 st2] k(5,6) unfolding adds_def by (auto simp del: map_append comp_apply split: if_splits)
qed

lemma adds_last:
  assumes "adds E s udp es st new st'" "\<forall>e \<in> set es. fst e \<le> count_field s"
  shows "\<forall>e \<in> set (es @ new). fst e \<le> count_field s"
  using assms by (auto simp: adds_def)

lemma sva_has_ok:
  assumes "list_all (sva_ok cb) svs" "name_ok nm"
  shows "\<exists>b. sva_has svs (enc_name nm) tp data = Some b \<and>
    (b \<longrightarrow> (\<exists>sv \<in> set svs. sv_tp sv = tp \<and> sv_data sv = data)) \<and>
    (\<not> b \<longrightarrow> (lower_name nm, tp, data) \<notin> sva_keys svs)"
  using assms(1)
proof (induction svs)
  case Nil
  show ?case by (intro exI [of _ False]) (simp add: sva_keys_def)
next
  case (Cons sv svs)
  obtain ls where ls: "name_ok ls" "sv_nm sv = enc_name ls" using Cons.prems by (auto simp: sva_ok_def)
  have cmp: "rhnicmp (enc_name ls) (enc_name nm) = Some (lower_name ls = lower_name nm)"
    using rhnicmp_enc [OF name_okD name_okD, OF ls(1) assms(2), of "[]" "[]"] by simp
  have keys: "sva_keys (sv # svs) = insert (lower_name ls, sv_tp sv, sv_data sv) (sva_keys svs)"
    using ls by (auto simp: sva_keys_def enc_name_eq)
  obtain b where b: "sva_has svs (enc_name nm) tp data = Some b" "b \<longrightarrow> (\<exists>sv \<in> set svs. sv_tp sv = tp \<and> sv_data sv = data)"
    "\<not> b \<longrightarrow> (lower_name nm, tp, data) \<notin> sva_keys svs" using Cons.IH Cons.prems by auto
  show ?case
  proof (cases "sv_tp sv = tp \<and> lower_name ls = lower_name nm \<and> sv_data sv = data")
    case True
    then show ?thesis using cmp ls(2) by (intro exI [of _ True]) simp
  next
    case False
    then have "sva_has (sv # svs) (enc_name nm) tp data = Some b" using cmp ls(2) b(1) by auto
    then show ?thesis using b(2,3) False unfolding keys by (intro exI [of _ b]) auto
  qed
qed

text \<open>One record.\<close>

lemma add_additional_rr_step:
  assumes inv: "resp_inv E es st" and nm: "name_ok nm" and fit: "data_fits tp data vs" and tp: "tp < 65536"
    and cached: "from_cache E (nm, tp, of_int ttl, vs)" and last: "\<forall>e \<in> set es. fst e \<le> count_field s"
    and extra: "s = S_ADDITIONAL \<Longrightarrow> udp \<noteq> None \<Longrightarrow> listed (a_cb st) nm \<and> tp \<in> {T_A, T_AAAA}"
  shows "safe (add_additional_rr E (enc_name nm) tp ttl data s udp st) (\<lambda>st'. \<exists>new. adds E s udp es st new st' \<and>
    (tp = T_NS \<longrightarrow> (\<exists>ls. name_ok ls \<and> data = enc_name ls \<and> listed (a_cb st') ls)))"
proof -
  have ok: "resp_ok E es st" and es: "noted es st" using inv by (simp_all add: resp_inv_def)
  have svs: "list_all (sva_ok (a_cb st)) (a_sva st)" using ok by (simp add: resp_ok_def)
  have data: "data = enc_vals vs" using fit by (simp add: data_fits_def)
  obtain b where b: "sva_has (a_sva st) (enc_name nm) tp data = Some b"
    "b \<Longrightarrow> \<exists>sv \<in> set (a_sva st). sv_tp sv = tp \<and> sv_data sv = data"
    "\<not> b \<Longrightarrow> (lower_name nm, tp, data) \<notin> sva_keys (a_sva st)" using sva_has_ok [OF svs nm] by blast
  show ?thesis
  proof (cases b)
    case True
    then obtain sv where "sv \<in> set (a_sva st)" "sv_tp sv = tp" "sv_data sv = data" using b(2) by blast
    then have "tp = T_NS \<longrightarrow> (\<exists>ls. name_ok ls \<and> data = enc_name ls \<and> listed (a_cb st) ls)"
      using svs by (auto simp: list_all_iff sva_ok_def)
    then show ?thesis using True b(1) adds_refl [OF inv] by (auto simp: add_additional_rr_def)
  next
    case False
    have "safe (and_next (add_rr (e_mem E) (enc_name nm) tp (of_int ttl) data s udp st) (sva_add E (enc_name nm) tp data))
      (\<lambda>st'. \<exists>new. adds E s udp es st new st' \<and>
        (tp = T_NS \<longrightarrow> (\<exists>ls. name_ok ls \<and> data = enc_name ls \<and> listed (a_cb st') ls)))"
    proof (rule safe_next [OF add_rr_step [OF ok nm fit tp cached last extra]])
      fix st1 :: answer
      let ?new = "[(count_field s, Rec (nm, tp, of_int ttl, vs))]"
      assume "cb_grows st st1 \<and> a_sva st1 = a_sva st \<and> a_ar st1 = a_ar st \<and> (packed_type tp \<longrightarrow> names_listed (a_cb st1) vs) \<and>
        (resp_ok E (es @ ?new) st1 \<and> (s = S_ADDITIONAL \<longrightarrow> (\<forall>u. udp = Some u \<longrightarrow> length (a_msg st1) \<le> u)) \<or>
         resp_ok E es st1 \<and> a_msg st1 = a_msg st \<and> s = S_ADDITIONAL \<and> udp \<noteq> None)"
      then have st1: "cb_grows st st1" "a_sva st1 = a_sva st" "a_ar st1 = a_ar st" "packed_type tp \<longrightarrow> names_listed (a_cb st1) vs"
        and two: "resp_ok E (es @ ?new) st1 \<and> (s = S_ADDITIONAL \<longrightarrow> (\<forall>u. udp = Some u \<longrightarrow> length (a_msg st1) \<le> u)) \<or>
         resp_ok E es st1 \<and> a_msg st1 = a_msg st" by blast+
      have ns: "\<exists>ls. name_ok ls \<and> data = enc_name ls \<and> listed (a_cb st1) ls" if "tp = T_NS"
        using ns_target [of data vs] fit st1(4) that by (auto simp: packed_type_def names_listed_def)
      from two show "safe (sva_add E (enc_name nm) tp data st1) (\<lambda>st'. \<exists>new. adds E s udp es st new st' \<and>
        (tp = T_NS \<longrightarrow> (\<exists>ls. name_ok ls \<and> data = enc_name ls \<and> listed (a_cb st') ls)))"
      proof
        assume one: "resp_ok E (es @ ?new) st1 \<and> (s = S_ADDITIONAL \<longrightarrow> (\<forall>u. udp = Some u \<longrightarrow> length (a_msg st1) \<le> u))"
        show ?thesis
        proof (rule safe_mono [OF sva_add_step [OF conjunct1 [OF one] nm ns]])
          fix st2 :: answer
          assume st2: "resp_ok E (es @ ?new) st2 \<and> cb_grows st1 st2 \<and> a_msg st2 = a_msg st1 \<and> a_cb st2 = a_cb st1 \<and>
            a_ar st2 = a_ar st1 \<and> a_sva st2 = a_sva st1 @ [\<lparr>sv_tp = tp, sv_nm = enc_name nm, sv_data = data\<rparr>]"
          have "noted (es @ ?new) st2"
            by (rule noted_sva [OF es nm]) (use st2 st1(2) data in simp_all)
          moreover have "sva_keys (a_sva st2) = insert (lower_name nm, tp, data) (sva_keys (a_sva st))"
            using st2 st1(2) sva_keys_snoc [OF nm] by simp
          ultimately have "adds E s udp es st ?new st2"
            using st2 st1 one False b(3) data cb_grows_trans [of st st1 st2] unfolding adds_def resp_inv_def by auto
          then show "\<exists>new. adds E s udp es st new st2 \<and>
            (tp = T_NS \<longrightarrow> (\<exists>ls. name_ok ls \<and> data = enc_name ls \<and> listed (a_cb st2) ls))"
            using ns st2 by auto
        qed
      next
        assume one: "resp_ok E es st1 \<and> a_msg st1 = a_msg st"
        show ?thesis
        proof (rule safe_mono [OF sva_add_step [OF conjunct1 [OF one] nm ns]])
          fix st2 :: answer
          assume st2: "resp_ok E es st2 \<and> cb_grows st1 st2 \<and> a_msg st2 = a_msg st1 \<and> a_cb st2 = a_cb st1 \<and>
            a_ar st2 = a_ar st1 \<and> a_sva st2 = a_sva st1 @ [\<lparr>sv_tp = tp, sv_nm = enc_name nm, sv_data = data\<rparr>]"
          have keys: "sva_keys (a_sva st2) = insert (lower_name nm, tp, data) (sva_keys (a_sva st))"
            using st2 st1(2) sva_keys_snoc [OF nm] by simp
          then have "noted es st2" using es by (auto simp: noted_def)
          then have "adds E s udp es st [] st2"
            using st2 st1 one keys cb_grows_trans [of st st1 st2] unfolding adds_def resp_inv_def by auto
          then show "\<exists>new. adds E s udp es st new st2 \<and>
            (tp = T_NS \<longrightarrow> (\<exists>ls. name_ok ls \<and> data = enc_name ls \<and> listed (a_cb st2) ls))"
            using ns st2 by auto
        qed
      qed
    qed
    then show ?thesis using False b(1) by (simp add: add_additional_rr_def)
  qed
qed

text \<open>The address records of a name that the message contains.\<close>

definition good_env :: "env \<Rightarrow> bool" where
  "good_env E \<longleftrightarrow> (\<forall>c. known_cent E c \<longrightarrow> good_cent c) \<and>
     (\<forall>now nm tp c csoa. e_resolve E now nm tp = (RC_OK, c, csoa) \<longrightarrow> c \<noteq> None)"

lemma add_additional_set_step:
  assumes inv: "resp_inv E es st" and nm: "name_ok nm" "listed (a_cb st) nm" and c: "known_cent E c" "good_cent c"
    and last: "\<forall>e \<in> set es. fst e \<le> 10" and tp: "tp \<in> {T_A, T_AAAA}"
  shows "safe (add_additional_set E (enc_name nm) tp c udp st) (\<lambda>st'. \<exists>new. adds E S_ADDITIONAL udp es st new st')"
proof (cases "getrrset c (int tp)")
  case None
  then show ?thesis using adds_refl [OF inv] by (auto simp: add_additional_set_def)
next
  case (Some rs)
  let ?ttl = "ans_ttl rs (e_queryts E)"
  let ?f = "\<lambda>data. add_additional_rr E (enc_name nm) tp ?ttl data S_ADDITIONAL udp"
  let ?P = "\<lambda>ds :: byte list list. \<lambda>st'. \<exists>new. adds E S_ADDITIONAL udp es st new st'"
  obtain k where k: "for_rrs E ?f (rs_rrs rs) st = run_list ?f (rotate k (rs_rrs rs)) st"
    using for_rrs_list by blast
  have "safe (run_list ?f (rotate k (rs_rrs rs)) st) (?P (rotate k (rs_rrs rs)))"
  proof (rule run_list_safe [where P = ?P])
    show "?P [] st" using adds_refl [OF inv] by blast
  next
    fix ys d and st1 :: answer
    assume "?P ys st1" and "d \<in> set (rotate k (rs_rrs rs))"
    then obtain new where new: "adds E S_ADDITIONAL udp es st new st1" and d: "d \<in> set (rs_rrs rs)" by auto
    have inv1: "resp_inv E (es @ new) st1" and grow: "cb_grows st st1" using new by (simp_all add: adds_def)
    obtain vs where vs: "data_fits tp d vs" using c(2) Some d unfolding good_cent_def by blast
    have tp': "tp < 65536" using getrrset_type [OF Some] by simp
    have last1: "\<forall>e \<in> set (es @ new). fst e \<le> count_field S_ADDITIONAL"
      by (rule adds_last [OF new]) (use last in \<open>simp add: count_field_def\<close>)
    have extra: "listed (a_cb st1) nm \<and> tp \<in> {T_A, T_AAAA}" using cb_grows_listed [OF grow nm(2)] tp by blast
    show "safe (?f d st1) (?P (ys @ [d]))"
      by (rule safe_mono [OF add_additional_rr_step [OF inv1 nm(1) vs tp' from_cacheI [OF c(1) Some d vs] last1 extra]])
        (use adds_trans [OF new] in blast)
  qed
  then show ?thesis by (simp add: add_additional_set_def add_additional_rrs_def Some k)
qed

lemma add_additional_a_step:
  assumes inv: "resp_inv E es st" and nm: "name_ok nm" "listed (a_cb st) nm" and env: "good_env E"
    and last: "\<forall>e \<in> set es. fst e \<le> 10"
  shows "safe (add_additional_a E (enc_name nm) udp st) (\<lambda>st'. \<exists>new. adds E S_ADDITIONAL udp es st new st')"
proof (cases "e_lookup E (a_calls st) (enc_name nm)")
  case None
  then show ?thesis using adds_refl [OF inv] by (auto simp: add_additional_a_def)
next
  case (Some ae)
  have c: "known_cent E ae" "good_cent ae" using Some env unfolding known_cent_def good_env_def by blast+
  show ?thesis unfolding add_additional_a_def Some option.case
  proof (rule safe_next [OF add_additional_set_step [OF inv nm c last]])
    fix st1 :: answer
    assume "\<exists>new. adds E S_ADDITIONAL udp es st new st1"
    then obtain new where new: "adds E S_ADDITIONAL udp es st new st1" by blast
    have inv1: "resp_inv E (es @ new) st1" and grow: "cb_grows st st1" using new by (simp_all add: adds_def)
    have last1: "\<forall>e \<in> set (es @ new). fst e \<le> 10"
      using adds_last [OF new] last by (simp add: count_field_def)
    show "safe (add_additional_set E (enc_name nm) T_AAAA ae udp st1) (\<lambda>st'. \<exists>new. adds E S_ADDITIONAL udp es st new st')"
      by (rule safe_mono [OF add_additional_set_step [OF inv1 nm(1) cb_grows_listed [OF grow nm(2)] c last1]])
        (use adds_trans [OF new] in auto)
  qed simp
qed

lemma add_addresses_step:
  assumes "resp_inv E es st" "good_env E" "\<forall>e \<in> set es. fst e \<le> 10"
    "\<forall>re \<in> set ar. re_tp re \<in> {T_NS, RRETP_ADD} \<longrightarrow> (\<exists>nm. name_ok nm \<and> re_tnm re = enc_name nm \<and> listed (a_cb st) nm)"
  shows "safe (add_addresses E ar udp st) (\<lambda>st'. \<exists>new. adds E S_ADDITIONAL udp es st new st')"
  using assms(1,3,4)
proof (induction ar arbitrary: es st)
  case Nil
  then show ?case using adds_refl [OF Nil(1)] by auto
next
  case (Cons re ar)
  show ?case unfolding add_addresses.simps
  proof (rule safe_next [where P = "\<lambda>st1. \<exists>new. adds E S_ADDITIONAL udp es st new st1"])
    show "safe (if re_tp re = T_NS \<or> re_tp re = RRETP_ADD then add_additional_a E (re_tnm re) udp st else go_on st)
        (\<lambda>st1. \<exists>new. adds E S_ADDITIONAL udp es st new st1)"
    proof (cases "re_tp re \<in> {T_NS, RRETP_ADD}")
      case True
      then obtain nm where "name_ok nm" "re_tnm re = enc_name nm" "listed (a_cb st) nm" using Cons.prems(3) by auto
      then show ?thesis using True add_additional_a_step [OF Cons.prems(1) _ _ assms(2) Cons.prems(2)] by auto
    next
      case False
      then show ?thesis using adds_refl [OF Cons.prems(1)] by auto
    qed
  next
    fix st1 :: answer
    assume "\<exists>new. adds E S_ADDITIONAL udp es st new st1"
    then obtain new where new: "adds E S_ADDITIONAL udp es st new st1" by blast
    have inv1: "resp_inv E (es @ new) st1" and grow: "cb_grows st st1" using new by (simp_all add: adds_def)
    have last1: "\<forall>e \<in> set (es @ new). fst e \<le> 10"
      using adds_last [OF new] Cons.prems(2) by (simp add: count_field_def)
    have ar1: "\<forall>re \<in> set ar. re_tp re \<in> {T_NS, RRETP_ADD} \<longrightarrow>
        (\<exists>nm. name_ok nm \<and> re_tnm re = enc_name nm \<and> listed (a_cb st1) nm)"
      using Cons.prems(3) cb_grows_listed [OF grow] by fastforce
    show "safe (add_addresses E ar udp st1) (\<lambda>st'. \<exists>new. adds E S_ADDITIONAL udp es st new st')"
      by (rule safe_mono [OF Cons.IH [OF inv1 last1 ar1]]) (use adds_trans [OF new] in blast)
  qed
qed

lemma add_authorities_step:
  assumes "resp_inv E es st" "\<forall>e \<in> set es. fst e \<le> 8" "list_all (ar_ok E (a_cb st)) ar"
  shows "safe (add_authorities E ar udp st) (\<lambda>st'. (\<exists>new. adds E S_AUTHORITY udp es st new st') \<and>
    (\<forall>re \<in> set ar. re_tp re \<in> {T_NS, RRETP_ADD} \<longrightarrow> (\<exists>nm. name_ok nm \<and> re_tnm re = enc_name nm \<and> listed (a_cb st') nm)))"
  using assms
proof (induction ar arbitrary: es st)
  case Nil
  then show ?case using adds_refl [OF Nil(1)] by auto
next
  case (Cons re ar)
  have re: "ar_ok E (a_cb st) re" using Cons.prems(3) by simp
  let ?Q = "\<lambda>st1. re_tp re \<in> {T_NS, RRETP_ADD} \<longrightarrow> (\<exists>nm. name_ok nm \<and> re_tnm re = enc_name nm \<and> listed (a_cb st1) nm)"
  show ?case unfolding add_authorities.simps
  proof (rule safe_next [where P = "\<lambda>st1. (\<exists>new. adds E S_AUTHORITY udp es st new st1) \<and> ?Q st1"])
    show "safe (if re_tp re = T_NS \<or> re_tp re = T_SOA
        then add_additional_rr E (re_nm re) (re_tp re) (uint (re_ttl re)) (re_tnm re) S_AUTHORITY udp st else go_on st)
        (\<lambda>st1. (\<exists>new. adds E S_AUTHORITY udp es st new st1) \<and> ?Q st1)"
    proof (cases "re_tp re \<in> {T_NS, T_SOA}")
      case True
      then obtain nm vs where nm: "name_ok nm" "re_nm re = enc_name nm" "data_fits (re_tp re) (re_tnm re) vs"
        "from_cache E (nm, re_tp re, of_int (uint (re_ttl re)), vs)" using re by (auto simp: ar_ok_def split: if_splits)
      have "re_tp re < 65536" "\<forall>e \<in> set es. fst e \<le> count_field S_AUTHORITY"
        using True Cons.prems(2) by (auto simp: count_field_def)
      note step = add_additional_rr_step [OF Cons.prems(1) nm(1,3) this(1) nm(4) this(2), where udp = udp]
      have "safe (add_additional_rr E (enc_name nm) (re_tp re) (uint (re_ttl re)) (re_tnm re) S_AUTHORITY udp st)
          (\<lambda>st1. (\<exists>new. adds E S_AUTHORITY udp es st new st1) \<and> ?Q st1)"
        by (rule safe_mono [OF step]) (use True in auto)
      then show ?thesis using True nm(2) by auto
    next
      case False
      then show ?thesis using adds_refl [OF Cons.prems(1)] re by (auto simp: ar_ok_def)
    qed
  next
    fix st1 :: answer
    assume "(\<exists>new. adds E S_AUTHORITY udp es st new st1) \<and> ?Q st1"
    then obtain new where new: "adds E S_AUTHORITY udp es st new st1" and q: "?Q st1" by blast
    have inv1: "resp_inv E (es @ new) st1" and grow: "cb_grows st st1" using new by (simp_all add: adds_def)
    have last1: "\<forall>e \<in> set (es @ new). fst e \<le> 8"
      using adds_last [OF new] Cons.prems(2) by (simp add: count_field_def)
    have ar1: "list_all (ar_ok E (a_cb st1)) ar"
      using Cons.prems(3) notes_grow(2) [OF grow] by (auto simp: list_all_iff)
    show "safe (add_authorities E ar udp st1) (\<lambda>st'. (\<exists>new. adds E S_AUTHORITY udp es st new st') \<and>
      (\<forall>re \<in> set (re # ar). re_tp re \<in> {T_NS, RRETP_ADD} \<longrightarrow>
         (\<exists>nm. name_ok nm \<and> re_tnm re = enc_name nm \<and> listed (a_cb st') nm)))"
    proof (rule safe_mono [OF Cons.IH [OF inv1 last1 ar1]])
      fix st2 :: answer
      assume "(\<exists>new'. adds E S_AUTHORITY udp (es @ new) st1 new' st2) \<and>
        (\<forall>re \<in> set ar. re_tp re \<in> {T_NS, RRETP_ADD} \<longrightarrow> (\<exists>nm. name_ok nm \<and> re_tnm re = enc_name nm \<and> listed (a_cb st2) nm))"
      then obtain new' where new': "adds E S_AUTHORITY udp (es @ new) st1 new' st2"
        and rest: "\<forall>re \<in> set ar. re_tp re \<in> {T_NS, RRETP_ADD} \<longrightarrow> (\<exists>nm. name_ok nm \<and> re_tnm re = enc_name nm \<and> listed (a_cb st2) nm)"
        by blast
      have "cb_grows st1 st2" using new' by (simp add: adds_def)
      then have "?Q st2" using q cb_grows_listed [of st1 st2] by blast
      then show "(\<exists>new. adds E S_AUTHORITY udp es st new st2) \<and> (\<forall>re \<in> set (re # ar). re_tp re \<in> {T_NS, RRETP_ADD} \<longrightarrow>
         (\<exists>nm. name_ok nm \<and> re_tnm re = enc_name nm \<and> listed (a_cb st2) nm))"
        using rest adds_trans [OF new new'] by auto
    qed
  qed
qed

text \<open>The OPT record and the two sections.\<close>

definition opt_entry :: "bool \<Rightarrow> entry list" where
  "opt_entry with_opt = (if with_opt then [(10, Optrec)] else [])"

lemma add_opt_step:
  assumes inv: "resp_inv E es st" and last: "\<forall>e \<in> set es. fst e \<le> 10"
  shows "safe (add_opt E with_opt rc st) (\<lambda>st'. resp_inv E (es @ opt_entry with_opt) st' \<and> cb_grows st st' \<and> a_cb st' = a_cb st \<and>
    a_sva st' = a_sva st \<and> a_ar st' = a_ar st \<and> length (a_msg st') = length (a_msg st) + (if with_opt then 11 else 0))"
proof (cases with_opt)
  case True
  have ok: "resp_ok E es st" and m: "ans_inv st" "message_holds E (a_msg st) es" "12 \<le> length (a_msg st)" and n: "noted es st"
    using inv by (simp_all add: resp_inv_def resp_ok_def ans_inv_def)
  let ?opt = "opt_rr (udpbufsize E) rc 0 0"
  note b = bump_count_fields [OF m(3), of 10]
  have l: "length ?opt = 11" by (simp add: opt_rr_def putint16_def)
  have "safe (add_opt_pseudo_rr (e_mem E) (udpbufsize E) rc 0 0 st) (\<lambda>st'. resp_inv E (es @ [(10, Optrec)]) st' \<and>
    cb_grows st st' \<and> a_cb st' = a_cb st \<and> a_sva st' = a_sva st \<and> a_ar st' = a_ar st \<and> length (a_msg st') = length (a_msg st) + 11)"
  proof (rule safe_mono [OF add_opt_inv [OF m(1)]])
    fix st' :: answer
    assume "ans_inv st' \<and> a_msg st' = bump_count (count_field S_ADDITIONAL) (a_msg st) @ ?opt \<and> a_cb st' = a_cb st \<and>
      a_sva st' = a_sva st \<and> a_ar st' = a_ar st"
    then have st': "ans_inv st'" "a_msg st' = bump_count 10 (a_msg st) @ ?opt" "a_cb st' = a_cb st" "a_sva st' = a_sva st" "a_ar st' = a_ar st"
      by (simp_all add: count_field_def)
    have grow: "cb_grows st st'" using st' bump_count_flags [OF m(3), of 10] by (simp add: cb_grows_def)
    have len: "length (a_msg st') = length (a_msg st) + 11" using st'(2) b(1) l by simp
    have msk: "masked (a_msg st') = masked (a_msg st) @ ?opt" using st'(2) b(1,2) m(3) by simp
    have "item_at (masked (a_msg st)@ ?opt) (length (masked (a_msg st))) Optrec (length (masked (a_msg st)) + 11)"
      using getint16_put [of "masked (a_msg st) @ [0]" "of_nat T_OPT" "drop 3 ?opt"]
        getint16_put [of "masked (a_msg st) @ take 9 ?opt" 0 "[]"]
      by (simp add: l) (simp add: opt_rr_def putint16_def)
    then have "item_at (masked (a_msg st')) (length (a_msg st)) Optrec (length (a_msg st'))"
      unfolding msk len using m(3) by simp
    then have "message_holds E (a_msg st') (es @ [(10, Optrec)])"
      by (intro message_holds_snoc [OF m(2) st'(2)]) (use last in simp_all)
    then have "resp_ok E (es @ [(10, Optrec)]) st'"
      using resp_ok_grows [OF ok grow st'(4,5,1)] by simp
    moreover have "noted (es @ [(10, Optrec)]) st'" using n st'(4) by (auto simp: noted_def)
    ultimately show "resp_inv E (es @ [(10, Optrec)]) st' \<and> cb_grows st st' \<and> a_cb st' = a_cb st \<and> a_sva st' = a_sva st \<and> a_ar st' = a_ar st \<and>
      length (a_msg st') = length (a_msg st) + 11" using st' len grow by (simp add: resp_inv_def)
  qed
  then show ?thesis using True by (simp add: add_opt_def opt_entry_def)
qed (use inv in \<open>simp add: add_opt_def opt_entry_def\<close>)

definition extra_keys :: "entry list \<Rightarrow> (label list \<times> nat \<times> byte list) list" where
  "extra_keys es = map (item_key \<circ> snd) (filter (\<lambda>e. 8 \<le> fst e \<and> snd e \<noteq> Optrec) es)"

text \<open>No record is sent twice, those of the other types in the answer section apart.\<close>

definition no_repeats :: "entry list \<Rightarrow> bool" where
  "no_repeats es \<longleftrightarrow> distinct (extra_keys es) \<and>
     (\<forall>nm tp ttl vs. (6, Rec (nm, tp, ttl, vs)) \<in> set es \<longrightarrow> tp \<in> {T_NS, T_A, T_AAAA} \<longrightarrow>
        (lower_name nm, tp, enc_vals vs) \<notin> set (extra_keys es))"

lemma extra_keys_append [simp]: "extra_keys (a @ b) = extra_keys a @ extra_keys b"
  by (simp add: extra_keys_def)

lemma extra_keys_none: "\<forall>e \<in> set es. fst e \<le> 6 \<Longrightarrow> extra_keys es = []"
  by (auto simp: extra_keys_def filter_empty_conv)

lemma adds_extra:
  assumes "adds E s udp es st new st'" "s \<noteq> S_ANSWER"
  shows "distinct (extra_keys new)" "set (extra_keys new) \<subseteq> sva_keys (a_sva st') - sva_keys (a_sva st)"
    "sva_keys (a_sva st) \<subseteq> sva_keys (a_sva st')"
proof -
  have a: "distinct (map (item_key \<circ> snd) new)" "(item_key \<circ> snd) ` set new \<subseteq> sva_keys (a_sva st') - sva_keys (a_sva st)"
    "sva_keys (a_sva st) \<subseteq> sva_keys (a_sva st')" using assms(1) by (simp_all add: adds_def)
  show "distinct (extra_keys new)" using a(1) by (simp add: extra_keys_def distinct_map_filter)
  show "set (extra_keys new) \<subseteq> sva_keys (a_sva st') - sva_keys (a_sva st)" using a(2) by (auto simp: extra_keys_def)
  show "sva_keys (a_sva st) \<subseteq> sva_keys (a_sva st')" by (rule a(3))
qed

lemma extra_keys_opt [simp]: "extra_keys (opt_entry with_opt) = []"
  by (simp add: extra_keys_def opt_entry_def)

lemma add_sections_step:
  assumes inv: "resp_inv E es st" and env: "good_env E" and last: "\<forall>e \<in> set es. fst e \<le> 6"
  shows "safe (add_sections E with_opt udp st) (\<lambda>st'. \<exists>new. resp_inv E (es @ new) st' \<and> cb_grows st st' \<and> no_repeats (es @ new) \<and>
    (\<forall>e \<in> set new. fst e \<in> {8, 10}) \<and>
    ((\<exists>e \<in> set new. fst e = 10) \<longrightarrow> (\<forall>u. udp = Some u \<longrightarrow> length (a_msg st') \<le> u)))"
  unfolding add_sections_def
proof (rule safe_next [OF add_authorities_step [OF inv]])
  show "\<forall>e \<in> set es. fst e \<le> 8" using last by auto
  show "list_all (ar_ok E (a_cb st)) (a_ar st)" using inv by (simp add: resp_inv_def resp_ok_def)
  fix st1 :: answer
  assume "(\<exists>new. adds E S_AUTHORITY udp es st new st1) \<and> (\<forall>re \<in> set (a_ar st). re_tp re \<in> {T_NS, RRETP_ADD} \<longrightarrow>
    (\<exists>nm. name_ok nm \<and> re_tnm re = enc_name nm \<and> listed (a_cb st1) nm))"
  then obtain auth where auth: "adds E S_AUTHORITY udp es st auth st1"
    and targets: "\<forall>re \<in> set (a_ar st). re_tp re \<in> {T_NS, RRETP_ADD} \<longrightarrow>
      (\<exists>nm. name_ok nm \<and> re_tnm re = enc_name nm \<and> listed (a_cb st1) nm)" by blast
  have a: "resp_inv E (es @ auth) st1" "a_ar st1 = a_ar st" "\<forall>e \<in> set auth. fst e = 8" "cb_grows st st1"
    using auth by (simp_all add: adds_def count_field_def)
  note k1 = adds_extra [OF auth, simplified]
  have noted: "(lower_name nm, tp, enc_vals vs) \<in> sva_keys (a_sva st)"
    if "(6, Rec (nm, tp, ttl, vs)) \<in> set es" "tp \<in> {T_NS, T_A, T_AAAA}" for nm tp ttl vs
    using that inv unfolding resp_inv_def noted_def by blast
  have fresh: "no_repeats (es @ auth @ opt_entry d @ add)"
    if "distinct (extra_keys add)" "set (extra_keys add) \<inter> sva_keys (a_sva st1) = {}" "\<forall>e \<in> set add. fst e = 10" for d add
  proof -
    let ?es = "es @ auth @ opt_entry d @ add"
    have keys: "extra_keys ?es = extra_keys auth @ extra_keys add" by (simp add: extra_keys_none [OF last])
    then have "distinct (extra_keys ?es)" using that(1,2) k1(1,2) by auto
    moreover have "k \<in> sva_keys (a_sva st) \<Longrightarrow> k \<notin> set (extra_keys ?es)" for k
      using keys that(2) k1(2,3) by auto
    moreover have "(6, it) \<in> set ?es \<Longrightarrow> (6, it) \<in> set es" for it using that(3) a(3) by (auto simp: opt_entry_def)
    ultimately show ?thesis using noted unfolding no_repeats_def by blast
  qed
  have last1: "\<forall>e \<in> set (es @ auth). fst e \<le> 10" using last a(3) by auto
  show "safe (if case udp of None \<Rightarrow> False | Some u \<Rightarrow> length (a_msg st1) + (1 + sizeof_rr_hdr_t) > u then go_on st1
      else and_next (add_opt E with_opt RC_OK st1) (\<lambda>st. add_addresses E (a_ar st) udp st))
    (\<lambda>st'. \<exists>new. resp_inv E (es @ new) st' \<and> cb_grows st st' \<and> no_repeats (es @ new) \<and> (\<forall>e \<in> set new. fst e \<in> {8, 10}) \<and>
      ((\<exists>e \<in> set new. fst e = 10) \<longrightarrow> (\<forall>u. udp = Some u \<longrightarrow> length (a_msg st') \<le> u)))"
  proof (cases "case udp of None \<Rightarrow> False | Some u \<Rightarrow> length (a_msg st1) + (1 + sizeof_rr_hdr_t) > u")
    case True
    then show ?thesis
      using a fresh [of "[]" False] by (auto simp: opt_entry_def extra_keys_def intro!: exI [of _ auth])
  next
    case False
    have "safe (and_next (add_opt E with_opt RC_OK st1) (\<lambda>st. add_addresses E (a_ar st) udp st))
      (\<lambda>st'. \<exists>new. resp_inv E (es @ new) st' \<and> cb_grows st st' \<and> no_repeats (es @ new) \<and> (\<forall>e \<in> set new. fst e \<in> {8, 10}) \<and>
        ((\<exists>e \<in> set new. fst e = 10) \<longrightarrow> (\<forall>u. udp = Some u \<longrightarrow> length (a_msg st') \<le> u)))"
    proof (rule safe_next [OF add_opt_step [OF a(1) last1]])
      fix st2 :: answer
      assume "resp_inv E ((es @ auth) @ opt_entry with_opt) st2 \<and> cb_grows st1 st2 \<and> a_cb st2 = a_cb st1 \<and> a_sva st2 = a_sva st1 \<and>
        a_ar st2 = a_ar st1 \<and> length (a_msg st2) = length (a_msg st1) + (if with_opt then 11 else 0)"
      then have st2: "resp_inv E (es @ auth @ opt_entry with_opt) st2" "a_cb st2 = a_cb st1" "a_sva st2 = a_sva st1"
        "a_ar st2 = a_ar st" "length (a_msg st2) \<le> length (a_msg st1) + 11" "cb_grows st st2"
        using a(2) cb_grows_trans [OF a(4)] by simp_all
      have last2: "\<forall>e \<in> set (es @ auth @ opt_entry with_opt). fst e \<le> 10" using last1 by (auto simp: opt_entry_def)
      have targets2: "\<forall>re \<in> set (a_ar st2). re_tp re \<in> {T_NS, RRETP_ADD} \<longrightarrow>
        (\<exists>nm. name_ok nm \<and> re_tnm re = enc_name nm \<and> listed (a_cb st2) nm)" using targets st2(2,4) by simp
      have room: "\<forall>u. udp = Some u \<longrightarrow> length (a_msg st2) \<le> u" using False st2(5) by auto
      show "safe (add_addresses E (a_ar st2) udp st2)
        (\<lambda>st'. \<exists>new. resp_inv E (es @ new) st' \<and> cb_grows st st' \<and> no_repeats (es @ new) \<and> (\<forall>e \<in> set new. fst e \<in> {8, 10}) \<and>
          ((\<exists>e \<in> set new. fst e = 10) \<longrightarrow> (\<forall>u. udp = Some u \<longrightarrow> length (a_msg st') \<le> u)))"
      proof (rule safe_mono [OF add_addresses_step [OF st2(1) env last2 targets2]])
        fix st3 :: answer
        assume "\<exists>add. adds E S_ADDITIONAL udp (es @ auth @ opt_entry with_opt) st2 add st3"
        then obtain add where add: "adds E S_ADDITIONAL udp (es @ auth @ opt_entry with_opt) st2 add st3" by blast
        note k2 = adds_extra [OF add, simplified]
        have d: "\<forall>e \<in> set add. fst e = 10" "resp_inv E (es @ auth @ opt_entry with_opt @ add) st3"
          "if add = [] then a_msg st3 = a_msg st2 else \<forall>u. udp = Some u \<longrightarrow> length (a_msg st3) \<le> u"
          using add by (simp_all add: adds_def count_field_def split: if_splits)
        have "set (extra_keys add) \<inter> sva_keys (a_sva st1) = {}" using k2(2) st2(3) by auto
        then have "no_repeats (es @ auth @ opt_entry with_opt @ add)" by (intro fresh k2(1) d(1))
        moreover have "\<forall>u. udp = Some u \<longrightarrow> length (a_msg st3) \<le> u" using d(3) room by (auto split: if_splits)
        moreover have "cb_grows st st3" using cb_grows_trans [OF st2(6)] add by (simp add: adds_def)
        ultimately show "\<exists>new. resp_inv E (es @ new) st3 \<and> cb_grows st st3 \<and> no_repeats (es @ new) \<and> (\<forall>e \<in> set new. fst e \<in> {8, 10}) \<and>
          ((\<exists>e \<in> set new. fst e = 10) \<longrightarrow> (\<forall>u. udp = Some u \<longrightarrow> length (a_msg st3) \<le> u))"
          using d a(3) by (intro exI [of _ "auth @ opt_entry with_opt @ add"]) (auto simp: opt_entry_def)
      qed
    qed
    then show ?thesis unfolding if_not_P [OF False] .
  qed
qed

section \<open>The questions\<close>

definition legal_query :: "queryel \<Rightarrow> bool" where
  "legal_query qe \<longleftrightarrow> (\<exists>nm. name_ok nm \<and> qe_query qe = enc_name nm) \<and> qe_type qe < 65536 \<and> qe_class qe < 65536"

definition asks :: "queryel \<Rightarrow> entry \<Rightarrow> bool" where
  "asks qe e \<longleftrightarrow> (\<exists>nm. qe_query qe = enc_name nm \<and> e = (4, Quest nm (qe_type qe) (qe_class qe)))"

lemma add_question_step:
  assumes inv: "resp_inv E es st" and last: "\<forall>e \<in> set es. fst e \<le> 4" and qe: "legal_query qe"
  shows "safe (add_question E qe st) (\<lambda>st'. \<exists>e. asks qe e \<and> resp_inv E (es @ [e]) st' \<and> cb_grows st st')"
proof -
  obtain nm where nm: "name_ok nm" "qe_query qe = enc_name nm" and small: "qe_type qe < 65536" "qe_class qe < 65536"
    using qe by (auto simp: legal_query_def)
  have ok: "resp_ok E es st" and msg: "message_holds E (a_msg st) es" and m: "12 \<le> length (a_msg st)"
    and cb: "names_inv (masked (a_msg st)) (a_cb st)" and n: "noted es st"
    using inv by (simp_all add: resp_inv_def resp_ok_def ans_inv_def)
  let ?M = "masked (a_msg st)" and ?L = "length (a_msg st)" and ?nm = "enc_name nm"
  let ?Q = "\<lambda>st'. \<exists>e. asks qe e \<and> resp_inv E (es @ [e]) st' \<and> cb_grows st st'"
  have len: "rhnlen ?nm = Some (length ?nm)" using rhnlen_enc [OF name_okD, OF nm(1), of "[]"] by simp
  have "safe (and_next (ensure_room (e_mem E) (length ?nm + 4) st) (\<lambda>st.
         case compress_name (e_mem E (a_calls st)) ?nm (length (a_msg st)) (a_cb st) of
           None \<Rightarrow> None
         | Some None \<Rightarrow> return_0
         | Some (Some (bs, cb)) \<Rightarrow>
             if dnsmsghdroffset + length (a_msg st) + length bs + 4 > a_alloc st then None
             else go_on (st\<lparr>a_msg := bump_count 4 (a_msg st) @ bs @ putint16 (of_nat (qe_type qe)) @
                                putint16 (of_nat (qe_class qe)),
                            a_cb := cb, a_calls := a_calls st + 1\<rparr>))) ?Q"
  proof (rule safe_next [OF ensure_room_ok])
    fix st1 :: answer
    assume "a_msg st1 = a_msg st \<and> a_cb st1 = a_cb st \<and> a_sva st1 = a_sva st \<and> a_ar st1 = a_ar st \<and>
      2 + length (a_msg st) + (length ?nm + 4) \<le> a_alloc st1"
    then have st1: "a_msg st1 = a_msg st" "a_cb st1 = a_cb st" "a_sva st1 = a_sva st" "a_ar st1 = a_ar st"
      "2 + ?L + (length ?nm + 4) \<le> a_alloc st1" by simp_all
    have L: "length ?M = ?L" using m by simp
    have name: "safe (compress_name (e_mem E (a_calls st1)) (?nm @ []) ?L (a_cb st)) (\<lambda>(nbuf, cb').
      names_inv (?M @ nbuf) cb' \<and> holds_name (?M @ nbuf) ?L (length nbuf) nm \<and>
      length nbuf \<le> length ?nm \<and> (\<exists>ext. cb' = a_cb st @ ext) \<and> listed cb' nm \<and>
      (listed (a_cb st) nm \<longrightarrow> names_inv ?M cb'))" using cb_step [OF cb nm(1)] unfolding L .
    show "safe (case compress_name (e_mem E (a_calls st1)) ?nm (length (a_msg st1)) (a_cb st1) of
           None \<Rightarrow> None
         | Some None \<Rightarrow> return_0
         | Some (Some (bs, cb)) \<Rightarrow>
             if dnsmsghdroffset + length (a_msg st1) + length bs + 4 > a_alloc st1 then None
             else go_on (st1\<lparr>a_msg := bump_count 4 (a_msg st1) @ bs @ putint16 (of_nat (qe_type qe)) @
                                putint16 (of_nat (qe_class qe)),
                            a_cb := cb, a_calls := a_calls st1 + 1\<rparr>)) ?Q"
    proof (cases "compress_name (e_mem E (a_calls st1)) ?nm ?L (a_cb st) = return_0")
      case False
      then obtain bs cb' where c: "compress_name (e_mem E (a_calls st1)) ?nm ?L (a_cb st) = go_on (bs, cb')"
        "names_inv (?M @ bs) cb'" "holds_name (?M @ bs) ?L (length bs) nm" "length bs \<le> length ?nm" "\<exists>ext. cb' = a_cb st @ ext"
        using name unfolding safe_def by (auto split: option.splits)
      let ?tail = "putint16 (of_nat (qe_type qe)) @ putint16 (of_nat (qe_class qe))"
      let ?st2 = "st1\<lparr>a_msg := bump_count 4 (a_msg st) @ bs @ ?tail, a_cb := cb', a_calls := a_calls st1 + 1\<rparr>"
      let ?e = "(4, Quest nm (qe_type qe) (qe_class qe))"
      have l: "length (putint16 x) = 2" for x by (simp add: putint16_def)
      note b = bump_count_fields [OF m, of 4]
      have msk: "masked (a_msg ?st2) = ?M @ bs @ ?tail" using m b by simp
      have len2: "length (a_msg ?st2) = ?L + length bs + 4" using b(1) by (simp add: l)
      have "holds_name (?M @ bs @ ?tail) ?L (length bs) nm" using holds_name_append [OF c(3), of ?tail] by simp
      moreover have "getint16 (?M @ bs @ ?tail) (?L + length bs) = of_nat (qe_type qe)"
        using getint16_put [of "?M @ bs" "of_nat (qe_type qe)"] L by simp
      moreover have "getint16 (?M @ bs @ ?tail) (?L + length bs + 2) = of_nat (qe_class qe)"
        using getint16_put [of "?M @ bs @ putint16 (of_nat (qe_type qe))" "of_nat (qe_class qe)" "[]"] L by (simp add: l)
      ultimately have "item_at (masked (a_msg ?st2)) ?L (snd ?e) (length (a_msg ?st2))"
        unfolding msk len2 using nm(1) L by (auto simp: l intro!: exI [of _ "length bs"])
      then have mh: "message_holds E (a_msg ?st2) (es @ [?e])"
        by (intro message_holds_snoc [OF msg]) (use last small in simp_all)
      have "names_inv (masked (a_msg ?st2)) cb'" unfolding msk using names_inv_append [OF c(2), of ?tail] by simp
      then have "ans_inv ?st2" unfolding ans_inv_def using len2 m st1(5) c(4) by simp
      moreover have grow: "cb_grows st ?st2"
        using c(5) bump_count_flags [OF m, of 4 "bs @ ?tail"] by (simp add: cb_grows_def)
      ultimately have "resp_ok E (es @ [?e]) ?st2"
        using resp_ok_grows [OF ok grow _ _ _ mh] st1(3,4) by simp
      moreover have "noted (es @ [?e]) ?st2" using n st1(3) by (auto simp: noted_def)
      ultimately have "resp_inv E (es @ [?e]) ?st2" by (simp add: resp_inv_def)
      moreover have "asks qe ?e" using nm(2) by (auto simp: asks_def)
      moreover have "\<not> dnsmsghdroffset + ?L + length bs + 4 > a_alloc st1" using st1(5) c(4) by simp
      ultimately show ?thesis using c(1) st1(1,2) grow by auto
    qed (use st1(1,2) in simp)
  qed
  then show ?thesis by (simp add: add_question_def with_rhnlen_def nm(2) len)
qed

lemma add_questions_step:
  assumes "resp_inv E es st" "\<forall>e \<in> set es. fst e \<le> 4" "\<forall>qe \<in> set ql. legal_query qe"
  shows "safe (add_questions E ql st) (\<lambda>st'. \<exists>qs. list_all2 asks ql qs \<and> resp_inv E (es @ qs) st' \<and> cb_grows st st')"
  using assms
proof (induction ql arbitrary: es st)
  case Nil
  then show ?case by (auto intro!: exI [of _ "[]"])
next
  case (Cons qe ql)
  show ?case unfolding add_questions.simps
  proof (rule safe_next [OF add_question_step [OF Cons.prems(1,2)]])
    fix st1 :: answer
    assume "\<exists>e. asks qe e \<and> resp_inv E (es @ [e]) st1 \<and> cb_grows st st1"
    then obtain e where e: "asks qe e" "resp_inv E (es @ [e]) st1" "cb_grows st st1" by blast
    have "\<forall>e' \<in> set (es @ [e]). fst e' \<le> 4" using Cons.prems(2) e(1) by (auto simp: asks_def)
    note ih = Cons.IH [OF e(2) this]
    show "safe (add_questions E ql st1) (\<lambda>st'. \<exists>qs. list_all2 asks (qe # ql) qs \<and> resp_inv E (es @ qs) st' \<and> cb_grows st st')"
    proof (rule safe_mono [OF ih])
      fix st2 :: answer
      assume "\<exists>qs. list_all2 asks ql qs \<and> resp_inv E ((es @ [e]) @ qs) st2 \<and> cb_grows st1 st2"
      then obtain qs where "list_all2 asks ql qs" "resp_inv E ((es @ [e]) @ qs) st2" "cb_grows st1 st2" by blast
      then show "\<exists>qs. list_all2 asks (qe # ql) qs \<and> resp_inv E (es @ qs) st2 \<and> cb_grows st st2"
        using e(1) cb_grows_trans [OF e(3)] by (intro exI [of _ "e # qs"]) simp
    qed (use Cons.prems(3) in simp)
  qed (use Cons.prems(3) in simp)
qed

section \<open>Answering one question\<close>

text \<open>Changes of the flags in the header.\<close>

lemma resp_inv_flags:
  assumes inv: "resp_inv E es st" and i: "i \<in> {2, 3}"
  shows "resp_inv E es (st\<lparr>a_msg := (a_msg st)[i := b]\<rparr>)"
proof -
  let ?m = "(a_msg st)[i := b]"
  have m: "12 \<le> length (a_msg st)" using inv by (simp add: resp_inv_def resp_ok_def ans_inv_def)
  have "masked ?m = masked (a_msg st)" using i by (auto simp: masked_def)
  moreover have "getint16 ?m f = getint16 (a_msg st) f" if "f \<in> {4, 6, 8, 10}" for f
    using that i by (auto simp: getint16_def)
  ultimately show ?thesis
    using inv m unfolding resp_inv_def resp_ok_def ans_inv_def message_holds_def counted_def noted_def by simp
qed

lemma set_rcode_inv: "resp_inv E es st \<Longrightarrow> resp_inv E es (set_rcode rc st)"
  unfolding set_rcode_def by (rule resp_inv_flags) simp_all

lemma set_aa_inv: "resp_inv E es st \<Longrightarrow> resp_inv E es (set_aa st)"
  unfolding set_aa_def by (rule resp_inv_flags) simp_all

text \<open>The SOA record.\<close>

lemma add_soa_rrs_step:
  assumes "resp_inv E es st" "\<forall>e \<in> set es. fst e \<le> 8" "name_ok nm" "known_cent E c" "good_cent c"
    "getrrset c (int T_SOA) = Some rs" "set rrs \<subseteq> set (rs_rrs rs)"
  shows "safe (add_soa_rrs E (enc_name nm) (ans_ttl rs (e_queryts E)) rrs udp st)
    (\<lambda>st'. \<exists>new. resp_inv E (es @ new) st' \<and> cb_grows st st' \<and> (\<forall>e \<in> set new. fst e = 8))"
  using assms(1,2,7)
proof (induction rrs arbitrary: es st)
  case Nil
  then show ?case by (auto intro!: exI [of _ "[]"])
next
  case (Cons d rrs)
  let ?ttl = "ans_ttl rs (e_queryts E)"
  have ok: "resp_ok E es st" and n: "noted es st" using Cons.prems(1) by (simp_all add: resp_inv_def)
  obtain vs where vs: "data_fits T_SOA d vs" using assms(5,6) Cons.prems(3) unfolding good_cent_def by fastforce
  have d: "d \<in> set (rs_rrs rs)" using Cons.prems(3) by simp
  have last: "\<forall>e \<in> set es. fst e \<le> count_field S_AUTHORITY" using Cons.prems(2) by (simp add: count_field_def)
  show ?case unfolding add_soa_rrs.simps
  proof (rule safe_next [OF add_rr_step [OF ok assms(3) vs _ from_cacheI [OF assms(4,6) d vs] last]])
    fix st1 :: answer
    let ?e = "(8, Rec (nm, T_SOA, of_int ?ttl, vs))"
    assume "cb_grows st st1 \<and> a_sva st1 = a_sva st \<and> a_ar st1 = a_ar st \<and> (packed_type T_SOA \<longrightarrow> names_listed (a_cb st1) vs) \<and>
      (resp_ok E (es @ [(count_field S_AUTHORITY, Rec (nm, T_SOA, of_int ?ttl, vs))]) st1 \<and>
         (S_AUTHORITY = S_ADDITIONAL \<longrightarrow> (\<forall>u. udp = Some u \<longrightarrow> length (a_msg st1) \<le> u)) \<or>
       resp_ok E es st1 \<and> a_msg st1 = a_msg st \<and> S_AUTHORITY = S_ADDITIONAL \<and> udp \<noteq> None)"
    then have "resp_ok E (es @ [?e]) st1" "a_sva st1 = a_sva st" and grow: "cb_grows st st1" by (simp_all add: count_field_def)
    moreover from this n have "noted (es @ [?e]) st1" by (auto simp: noted_def)
    ultimately have inv1: "resp_inv E (es @ [?e]) st1" by (simp add: resp_inv_def)
    have last1: "\<forall>e \<in> set (es @ [?e]). fst e \<le> 8" using Cons.prems(2) by simp
    show "safe (add_soa_rrs E (enc_name nm) ?ttl rrs udp st1)
      (\<lambda>st'. \<exists>new. resp_inv E (es @ new) st' \<and> cb_grows st st' \<and> (\<forall>e \<in> set new. fst e = 8))"
    proof (rule safe_mono [OF Cons.IH [OF inv1 last1]])
      fix st2 :: answer
      assume "\<exists>new. resp_inv E ((es @ [?e]) @ new) st2 \<and> cb_grows st1 st2 \<and> (\<forall>e \<in> set new. fst e = 8)"
      then obtain new where "resp_inv E ((es @ [?e]) @ new) st2" "cb_grows st1 st2" "\<forall>e \<in> set new. fst e = 8" by blast
      then show "\<exists>new. resp_inv E (es @ new) st2 \<and> cb_grows st st2 \<and> (\<forall>e \<in> set new. fst e = 8)"
        using cb_grows_trans [OF grow] by (intro exI [of _ "?e # new"]) simp
    qed (use Cons.prems(3) in simp)
  qed simp_all
qed

lemma skipsegs_name:
  assumes "name_ok nm"
  shows "\<exists>k ls. skipsegs (enc_name nm) n = Some k \<and> drop k (enc_name nm) = enc_name ls \<and> name_ok ls"
proof -
  have s: "skipsegs (enc_name nm) n = Some (length (enc_labels (take n nm)))"
    using skipsegs_enc [OF name_okD [OF assms], of "[]"] by simp
  note split = enc_name_split [of nm n]
  have "name_ok (drop n nm)"
    using assms labels_ok_drop [OF name_okD [OF assms], of n] arg_cong [OF split, of length] by (simp add: name_ok_def)
  moreover have "drop (length (enc_labels (take n nm))) (enc_name nm) = enc_name (drop n nm)"
    by (subst split) simp
  ultimately show ?thesis using s by blast
qed

lemma rhnsegcnt_name: "name_ok nm \<Longrightarrow> rhnsegcnt (enc_name nm) = Some (length nm)"
  using rhnsegcnt_enc [OF name_okD, of nm "[]"] by simp

lemma positive_set_Some: "positive_set rso = Some rs \<Longrightarrow> rso = Some rs"
  by (auto simp: positive_set_def split: option.splits if_splits)

lemma add_name_error_soa_step:
  assumes inv: "resp_inv E es st" and last: "\<forall>e \<in> set es. fst e \<le> 8" and nm: "name_ok nm" and env: "good_env E"
  shows "safe (add_name_error_soa E (enc_name nm) csoa udp st)
    (\<lambda>st'. \<exists>new. resp_inv E (es @ new) st' \<and> cb_grows st st' \<and> (\<forall>e \<in> set new. fst e = 8))"
proof -
  have none: "\<exists>new. resp_inv E (es @ new) st \<and> cb_grows st st \<and> (\<forall>e \<in> set new. fst e = 8)" using inv by (intro exI [of _ "[]"]) simp
  obtain k ls where k: "skipsegs (enc_name nm) (length nm - unat csoa) = Some k" using skipsegs_name [OF nm] by blast
  show ?thesis
  proof (cases "e_lookup E (a_calls st) (drop k (enc_name nm))")
    case (Some c)
    then have c: "known_cent E c" "good_cent c" using env unfolding known_cent_def good_env_def by blast+
    obtain ms where ms: "name_ok ms" "qname c = enc_name ms" using c(2) by (auto simp: good_cent_def)
    show ?thesis
    proof (cases "positive_set (getrrset c (int T_SOA))")
      case (Some rs)
      note step = add_soa_rrs_step [OF inv last ms(1) c positive_set_Some [OF Some] subset_refl, of udp]
      show ?thesis
        using none step \<open>e_lookup _ _ _ = Some c\<close> Some k ms(2) rhnsegcnt_name [OF nm]
        by (auto simp: add_name_error_soa_def)
    qed (use none Some k rhnsegcnt_name [OF nm] in \<open>auto simp: add_name_error_soa_def\<close>)
  qed (use none k rhnsegcnt_name [OF nm] in \<open>auto simp: add_name_error_soa_def\<close>)
qed

text \<open>The records about the authority.\<close>

lemma getlocalowner_ok: "labels_ok nm \<Longrightarrow> getlocalowner look (enc_name nm) tp \<noteq> None"
proof (induction nm)
  case (Cons l nm)
  have l: "label_ok l" "labels_ok nm" using Cons.prems by simp_all
  have d: "drop (unat (of_nat (length l) :: byte)) (l @ enc_name nm) = enc_name nm"
    using l(1) unat_length_byte [of l] by (simp add: label_ok_def)
  obtain b r where br: "enc_name nm = b # r" by (cases nm) simp_all
  show ?case using Cons.IH [OF l(2)] length_byte(1) [of l] l(1) d br by (auto split: option.split)
qed simp

lemma authority_set_ok:
  assumes "known_cent E prev" and env: "good_env E"
  shows "\<exists>r. authority_set E now rretp prev = Some r \<and>
    (\<forall>rs c. r = Some (rs, c) \<longrightarrow> known_cent E c \<and> getrrset c (int rretp) = Some rs)"
proof -
  have looked: "known_cent E c" if "e_lookup E now' nm = Some c" for now' nm c
    using that unfolding known_cent_def by blast
  have "good_cent prev" using assms unfolding good_env_def by blast
  then obtain nm where nm: "name_ok nm" "qname prev = enc_name nm" by (auto simp: good_cent_def)
  let ?tcnt = "if rretp = T_NS then c_ns prev else c_soa prev"
  show ?thesis
  proof (cases "positive_set (getrrset prev (int rretp))")
    case (Some rs)
    then show ?thesis using assms(1) positive_set_Some by (simp add: authority_set_def)
  next
    case None
    obtain k where k: "(if ?tcnt \<noteq> cundef \<and> unat ?tcnt < length nm then skipsegs (enc_name nm) (length nm - unat ?tcnt) else Some 0) = Some k"
      using skipsegs_name [OF nm(1), of "length nm - unat ?tcnt"] by (cases "?tcnt \<noteq> cundef \<and> unat ?tcnt < length nm") auto
    let ?found = "case e_lookup E now (drop k (enc_name nm)) of None \<Rightarrow> None
      | Some c \<Rightarrow> map_option (\<lambda>rs. (rs, c)) (positive_set (getrrset c (int rretp)))"
    have found: "known_cent E c \<and> getrrset c (int rretp) = Some rs" if "?found = Some (rs, c)" for rs c
      using that looked positive_set_Some by (auto split: option.splits)
    have unfold: "authority_set E now rretp prev =
      (if ?found = None \<and> has_flag (ce_flags prev) DF_LOCAL then
         case getlocalowner (e_find E now) (enc_name nm) rretp of
           None \<Rightarrow> None
         | Some None \<Rightarrow> Some None
         | Some (Some nm) \<Rightarrow>
             Some (case e_lookup E now nm of None \<Rightarrow> None
               | Some c \<Rightarrow> map_option (\<lambda>rs. (rs, c)) (getrrset c (int rretp)))
       else Some ?found)"
      unfolding authority_set_def None option.case nm(2) rhnsegcnt_name [OF nm(1)] Let_def k by (rule refl)
    show ?thesis
    proof (cases "?found = None \<and> has_flag (ce_flags prev) DF_LOCAL")
      case True
      obtain r where "getlocalowner (e_find E now) (enc_name nm) rretp = Some r"
        using getlocalowner_ok [OF name_okD [OF nm(1)]] by blast
      then show ?thesis unfolding unfold if_P [OF True] using looked by (auto split: option.splits)
    next
      case False
      show ?thesis unfolding unfold if_not_P [OF False] using found by blast
    qed
  qed
qed

lemma add_ars_step:
  assumes "resp_inv E es st" "tp \<in> {T_NS, T_SOA}" "name_ok nm" "known_cent E c" "good_cent c"
    "getrrset c (int tp) = Some rs" "set rrs \<subseteq> set (rs_rrs rs)"
  shows "safe (add_ars E tp rrs (enc_name nm) (ans_ttl rs (e_queryts E)) st) (\<lambda>st'. resp_inv E es st' \<and> cb_grows st st')"
  using assms(1,7)
proof (induction rrs arbitrary: st)
  case (Cons d rrs)
  let ?ttl = "ans_ttl rs (e_queryts E)"
  have d: "d \<in> set (rs_rrs rs)" using Cons.prems(2) by simp
  obtain vs where vs: "data_fits tp d vs" using assms(5,6) d unfolding good_cent_def by blast
  let ?re = "\<lparr>re_tp = tp, re_ttl = of_int ?ttl, re_tnm = d, re_nm = enc_name nm\<rparr>"
  have re: "ar_ok E (a_cb st) ?re"
    using assms(2,3) vs from_cacheI [OF assms(4,6) d vs] by (auto simp: ar_ok_def)
  have ok: "resp_ok E es st" and n: "noted es st" using Cons.prems(1) by (simp_all add: resp_inv_def)
  have step: "safe (add_ar E tp d (enc_name nm) ?ttl st) (\<lambda>st'. resp_ok E es st' \<and> cb_grows st st' \<and> a_msg st' = a_msg st \<and>
    a_cb st' = a_cb st \<and> a_sva st' = a_sva st \<and> a_ar st' = a_ar st @ [?re])"
    by (rule add_ar_step [OF ok re]) (use assms(2,3) in auto)
  show ?case unfolding add_ars.simps
  proof (rule safe_next [OF step])
    fix st1 :: answer
    assume st1: "resp_ok E es st1 \<and> cb_grows st st1 \<and> a_msg st1 = a_msg st \<and> a_cb st1 = a_cb st \<and>
      a_sva st1 = a_sva st \<and> a_ar st1 = a_ar st @ [?re]"
    then have "resp_inv E es st1" using n by (simp add: resp_inv_def noted_def)
    from Cons.IH [OF this] show "safe (add_ars E tp rrs (enc_name nm) ?ttl st1) (\<lambda>st'. resp_inv E es st' \<and> cb_grows st st')"
      using Cons.prems(2) st1 by (auto elim: safe_mono intro: cb_grows_trans)
  qed
qed simp

lemma note_authority_step:
  assumes inv: "resp_inv E es st" and c: "known_cent E c" and env: "good_env E"
  shows "safe (note_authority E qtype c st) (\<lambda>st'. resp_inv E es st' \<and> cb_grows st st')"
proof -
  let ?tp = "if (in_types qtype \<and> \<not> have_rr c qtype) \<or>
            (qtype = QT_MAILB \<and> \<not> have_rr c T_MB \<and> \<not> have_rr c T_MG \<and> \<not> have_rr c T_MR) \<or>
            (qtype = QT_MAILA \<and> \<not> have_rr c T_MD \<and> \<not> have_rr c T_MF)
         then T_SOA else T_NS"
  have tp: "?tp \<in> {T_NS, T_SOA}" by simp
  obtain r where r: "authority_set E (a_calls st) ?tp c = Some r"
    "\<And>rs c'. r = Some (rs, c') \<Longrightarrow> known_cent E c' \<and> getrrset c' (int ?tp) = Some rs"
    using authority_set_ok [OF c env] by blast
  show ?thesis
  proof (cases r)
    case None
    then show ?thesis using inv r(1) by (simp add: note_authority_def Let_def)
  next
    case (Some x)
    then obtain rs c' where x: "r = Some (rs, c')" by (cases x) simp
    have c': "known_cent E c'" "getrrset c' (int ?tp) = Some rs" using r(2) [OF x] by blast+
    then have good: "good_cent c'" using env unfolding good_env_def by blast
    then obtain nm where nm: "name_ok nm" "qname c' = enc_name nm" by (auto simp: good_cent_def)
    show ?thesis
      using add_ars_step [OF inv tp nm(1) c'(1) good c'(2) subset_refl] r(1) x nm(2)
      unfolding note_authority_def Let_def by simp
  qed
qed

text \<open>
  The answer to one question: the RR sets of the entry for the name, and where that leads to another name by a CNAME
  record, the answer for that name.
\<close>

inductive chain :: "env \<Rightarrow> nat \<Rightarrow> label list \<Rightarrow> rr_spec list \<Rightarrow> bool" for E qtype where
  Last: "e_resolve E now (enc_name nm) qtype = (RC_OK, Some c, csoa) \<Longrightarrow> response_types c qtype = Some tps \<Longrightarrow>
    answers_sets E nm c tps recs \<Longrightarrow> chain E qtype nm recs"
| Follow: "e_resolve E now (enc_name nm) qtype = (RC_OK, Some c, csoa) \<Longrightarrow> response_types c qtype = Some tps \<Longrightarrow>
    answers_sets E nm c tps recs \<Longrightarrow> follow_cname_chain c = go_on (enc_name nm') \<Longrightarrow> chain E qtype nm' recs' \<Longrightarrow>
    chain E qtype nm (recs @ recs')"

lemma follow_cname_ok:
  assumes "good_cent c"
  shows "\<exists>r. follow_cname_chain c = Some r \<and> (\<forall>nm. r = Some nm \<longrightarrow> (\<exists>ls. name_ok ls \<and> nm = enc_name ls))"
proof (cases "getrrset c (int T_CNAME)")
  case (Some rs)
  show ?thesis
  proof (cases "rs_rrs rs")
    case (Cons d ds)
    then obtain vs where "data_fits T_CNAME d vs" using assms Some unfolding good_cent_def by fastforce
    then obtain fs where "rr_layout 5 d = Some fs" "list_all2 field_fits fs vs" "d = enc_vals vs" by (auto simp: data_fits_def)
    moreover from this have "fs = [Name]" by (simp add: rr_layout_def)
    ultimately obtain ls where "name_ok ls" "d = enc_name ls" by (auto simp: list_all2_Cons1 enc_vals_def)
    then show ?thesis using Some Cons by (auto simp: follow_cname_chain_def name_ok_def)
  qed (use Some in \<open>simp add: follow_cname_chain_def\<close>)
qed (simp add: follow_cname_chain_def)

text \<open>
  How the loop for one question, or for all, ends: with the records of the chains added, or early with a result code in
  the header.
\<close>

fun progress_ok :: "env \<Rightarrow> (rr_spec list \<Rightarrow> bool) \<Rightarrow> entry list \<Rightarrow> answer \<Rightarrow> progress \<Rightarrow> bool" where
  "progress_ok E C es st (Go aa st') \<longleftrightarrow>
     (\<exists>recs. C recs \<and> resp_inv E (es @ answer_entries recs) st' \<and> cb_grows st st')"
| "progress_ok E C es st (Finished rc st') \<longleftrightarrow> rc \<noteq> RC_OK \<and>
     (\<exists>new. resp_inv E (es @ new) st' \<and> (\<forall>e \<in> set new. fst e \<in> {6, 8, 10})) \<and>
     take 4 (a_msg st') = take 4 (a_msg (set_rcode rc st))"

lemma set_rcode_flags:
  assumes "resp_inv E es st" "resp_inv E es' st'" "cb_grows st st'"
  shows "take 4 (a_msg (set_rcode rc st')) = take 4 (a_msg (set_rcode rc st))"
proof -
  have m: "12 \<le> length (a_msg st)" "12 \<le> length (a_msg st')"
    using assms(1,2) by (simp_all add: resp_inv_def resp_ok_def ans_inv_def)
  have t: "take 4 (a_msg st') = take 4 (a_msg st)" using assms(3) by (simp add: cb_grows_def)
  have "take 4 (a_msg st') ! 3 = take 4 (a_msg st) ! 3" unfolding t ..
  then have "a_msg st' ! 3 = a_msg st ! 3" using m by simp
  then show ?thesis by (simp add: set_rcode_def take_update_swap t)
qed

lemma progress_ok_next:
  assumes "progress_ok E C (es @ answer_entries a) st1 p" "\<And>recs. C recs \<Longrightarrow> C' (a @ recs)"
    "resp_inv E es st" "resp_inv E (es @ answer_entries a) st1" "cb_grows st st1"
  shows "progress_ok E C' es st p"
proof (cases p)
  case (Go aa st')
  then obtain recs where "C recs" "resp_inv E (es @ answer_entries (a @ recs)) st'" "cb_grows st1 st'"
    using assms(1) by auto
  then show ?thesis using Go assms(2) cb_grows_trans [OF assms(5)] by (auto simp del: answer_entries_simps intro!: exI [of _ "a @ recs"])
next
  case (Finished rc st')
  then obtain new where new: "resp_inv E (es @ answer_entries a @ new) st'" "\<forall>e \<in> set new. fst e \<in> {6, 8, 10}"
    and rc: "rc \<noteq> RC_OK" "take 4 (a_msg st') = take 4 (a_msg (set_rcode rc st1))" using assms(1) by auto
  moreover have "\<forall>e \<in> set (answer_entries a @ new). fst e \<in> {6, 8, 10}" using new(2) by auto
  ultimately show ?thesis
    using Finished set_rcode_flags [OF assms(3,4,5), of rc]
    by (auto intro!: exI [of _ "answer_entries a @ new"])
qed

text \<open>One hop, with what follows a CNAME record as an argument.\<close>

definition one_hop ::
  "env \<Rightarrow> bool \<Rightarrow> bool \<Rightarrow> nat \<Rightarrow> byte list \<Rightarrow> nat option \<Rightarrow> bool \<Rightarrow> answer \<Rightarrow>
     (byte list \<Rightarrow> bool \<Rightarrow> answer \<Rightarrow> progress outcome) \<Rightarrow> progress outcome" where
  "one_hop E rd with_opt qtype dname udp aa st K =
     (case e_resolve E (a_calls st) dname qtype of
        (rc, cached, csoa) \<Rightarrow>
          if rc \<noteq> RC_OK then
            let st = set_rcode rc st in
            and_next
              (if rc = RC_NAMEERR
               then and_next (add_name_error_soa E dname csoa udp st) (add_opt E with_opt rc)
               else go_on st)
              (\<lambda>st. go_on (Finished rc st))
          else case cached of
            None \<Rightarrow> None
          | Some cached \<Rightarrow>
              let aa = (aa \<and> has_flag (ce_flags cached) DF_LOCAL) in
              and_next (add_to_response E dname qtype cached udp st) (\<lambda>st.
                and_next
                  (if rd \<and> qtype \<noteq> T_CNAME \<and> qtype \<noteq> QT_ALL \<and> \<not> (in_types qtype \<and> have_rr cached qtype)
                   then (case follow_cname_chain cached of
                           None \<Rightarrow> None
                         | Some None \<Rightarrow> go_on None
                         | Some (Some nm) \<Rightarrow> go_on (Some nm))
                   else go_on None)
                  (\<lambda>next. case next of
                     Some nm \<Rightarrow> K nm aa st
                   | None \<Rightarrow> and_next (note_authority E qtype cached st) (\<lambda>st. go_on (Go aa st)))))"

lemma answer_question_one_hop:
  "answer_question E rd with_opt hops qtype dname udp aa st =
     one_hop E rd with_opt qtype dname udp aa st (\<lambda>nm aa st. case hops of
       0 \<Rightarrow> go_on (Go aa st) | Suc h \<Rightarrow> answer_question E rd with_opt h qtype nm udp aa st)"
  by (subst answer_question.simps) (simp only: one_hop_def)

lemma one_hop_step:
  assumes inv: "resp_inv E es st" and last: "\<forall>e \<in> set es. fst e \<le> 6" and nm: "name_ok nm" and env: "good_env E"
    and K: "\<And>nm' aa' st1 a. name_ok nm' \<Longrightarrow> resp_inv E (es @ answer_entries a) st1 \<Longrightarrow>
      safe (K (enc_name nm') aa' st1) (progress_ok E (\<lambda>recs. recs = [] \<or> chain E qtype nm' recs) (es @ answer_entries a) st1)"
  shows "safe (one_hop E rd with_opt qtype (enc_name nm) udp aa st K) (progress_ok E (chain E qtype nm) es st)"
proof -
  obtain rc cached csoa where res: "e_resolve E (a_calls st) (enc_name nm) qtype = (rc, cached, csoa)"
    by (cases "e_resolve E (a_calls st) (enc_name nm) qtype")
  show ?thesis
  proof (cases "rc = RC_OK")
    case False
    let ?st0 = "set_rcode rc st"
    have inv0: "resp_inv E es ?st0" by (rule set_rcode_inv [OF inv])
    have last8: "\<forall>e \<in> set es. fst e \<le> 8" using last by auto
    let ?P = "\<lambda>st'. (\<exists>new. resp_inv E (es @ new) st' \<and> (\<forall>e \<in> set new. fst e \<in> {6, 8, 10})) \<and> cb_grows ?st0 st'"
    have "safe (if rc = RC_NAMEERR then and_next (add_name_error_soa E (enc_name nm) csoa udp ?st0) (add_opt E with_opt rc)
        else go_on ?st0) ?P"
    proof (cases "rc = RC_NAMEERR")
      case True
      have "safe (and_next (add_name_error_soa E (enc_name nm) csoa udp ?st0) (add_opt E with_opt rc)) ?P"
      proof (rule safe_next [OF add_name_error_soa_step [OF inv0 last8 nm env]])
        fix st1 :: answer
        assume "\<exists>new. resp_inv E (es @ new) st1 \<and> cb_grows ?st0 st1 \<and> (\<forall>e \<in> set new. fst e = 8)"
        then obtain new where new: "resp_inv E (es @ new) st1" "cb_grows ?st0 st1" "\<forall>e \<in> set new. fst e = 8" by blast
        have last10: "\<forall>e \<in> set (es @ new). fst e \<le> 10" using last new(3) by auto
        show "safe (add_opt E with_opt rc st1) ?P"
        proof (rule safe_mono [OF add_opt_step [OF new(1) last10]])
          fix st2 :: answer
          assume "resp_inv E ((es @ new) @ opt_entry with_opt) st2 \<and> cb_grows st1 st2 \<and> a_cb st2 = a_cb st1 \<and> a_sva st2 = a_sva st1 \<and>
            a_ar st2 = a_ar st1 \<and> length (a_msg st2) = length (a_msg st1) + (if with_opt then 11 else 0)"
          then have "resp_inv E (es @ new @ opt_entry with_opt) st2" "cb_grows ?st0 st2"
            using cb_grows_trans [OF new(2)] by simp_all
          moreover have "\<forall>e \<in> set (new @ opt_entry with_opt). fst e \<in> {6, 8, 10}" using new(3) by (auto simp: opt_entry_def)
          ultimately show "?P st2" by blast
        qed
      qed
      then show ?thesis using True by simp
    next
      case False
      have "?P ?st0" using inv0 by (intro conjI exI [of _ "[]"]) simp_all
      then show ?thesis using False by simp
    qed
    then have "safe (and_next (if rc = RC_NAMEERR then and_next (add_name_error_soa E (enc_name nm) csoa udp ?st0) (add_opt E with_opt rc)
        else go_on ?st0) (\<lambda>st. go_on (Finished rc st))) (progress_ok E (chain E qtype nm) es st)"
      by (rule safe_next) (use False in \<open>simp add: cb_grows_def\<close>)
    then show ?thesis unfolding one_hop_def res prod.case using False by (simp only: Let_def if_True simp_thms not_False_eq_True)
  next
    case True
    then obtain c where c: "cached = Some c" using env res unfolding good_env_def by blast
    have known: "known_cent E c" using res True c unfolding known_cent_def by blast
    then have good: "good_cent c" using env unfolding good_env_def by blast
    note res' = res [unfolded True c]
    let ?aa = "aa \<and> has_flag (ce_flags c) DF_LOCAL"
    let ?body = "\<lambda>st. and_next
        (if rd \<and> qtype \<noteq> T_CNAME \<and> qtype \<noteq> QT_ALL \<and> \<not> (in_types qtype \<and> have_rr c qtype)
         then (case follow_cname_chain c of None \<Rightarrow> None | Some None \<Rightarrow> go_on None | Some (Some nm) \<Rightarrow> go_on (Some nm))
         else go_on None)
        (\<lambda>next. case next of Some nm \<Rightarrow> K nm ?aa st
           | None \<Rightarrow> and_next (note_authority E qtype c st) (\<lambda>st. go_on (Go ?aa st)))"
    have "safe (and_next (add_to_response E (enc_name nm) qtype c udp st) ?body) (progress_ok E (chain E qtype nm) es st)"
    proof (rule safe_next [OF add_to_response_step [OF inv nm known good last]])
      fix st1 :: answer
      assume "\<exists>tps recs. response_types c qtype = Some tps \<and> answers_sets E nm c tps recs \<and>
        resp_inv E (es @ answer_entries recs) st1 \<and> cb_grows st st1"
      then obtain tps a where a: "response_types c qtype = Some tps" "answers_sets E nm c tps a"
        "resp_inv E (es @ answer_entries a) st1" "cb_grows st st1" by blast
      note one = chain.Last [OF res' a(1,2)]
      have none: "safe (and_next (note_authority E qtype c st1) (\<lambda>st. go_on (Go ?aa st))) (progress_ok E (chain E qtype nm) es st)"
        by (rule safe_next [OF note_authority_step [OF a(3) known env]])
          (use one cb_grows_trans [OF a(4)] in auto)
      obtain r where r: "follow_cname_chain c = Some r" "\<And>n. r = Some n \<Longrightarrow> \<exists>ls. name_ok ls \<and> n = enc_name ls"
        using follow_cname_ok [OF good] by blast
      show "safe (?body st1) (progress_ok E (chain E qtype nm) es st)"
      proof (cases "(rd \<and> qtype \<noteq> T_CNAME \<and> qtype \<noteq> QT_ALL \<and> \<not> (in_types qtype \<and> have_rr c qtype)) \<and> r \<noteq> None")
        case True
        then obtain ls where ls: "name_ok ls" "r = Some (enc_name ls)" using r(2) by blast
        have "safe (K (enc_name ls) ?aa st1) (progress_ok E (chain E qtype nm) es st)"
        proof (rule safe_mono [OF K [OF ls(1) a(3)]])
          fix p :: progress
          assume p: "progress_ok E (\<lambda>recs. recs = [] \<or> chain E qtype ls recs) (es @ answer_entries a) st1 p"
          show "progress_ok E (chain E qtype nm) es st p"
          proof (rule progress_ok_next [OF p _ inv a(3,4)])
            show "chain E qtype nm (a @ recs)" if "recs = [] \<or> chain E qtype ls recs" for recs
              using that one chain.Follow [OF res' a(1,2) r(1) [unfolded ls(2)]] by auto
          qed
        qed
        then show ?thesis using True r(1) ls(2) by simp
      next
        case False
        then show ?thesis using none r(1) by (auto split: if_splits)
      qed
    qed
    then show ?thesis unfolding one_hop_def res' prod.case by (simp add: Let_def)
  qed
qed

lemma answer_question_step:
  assumes "resp_inv E es st" "\<forall>e \<in> set es. fst e \<le> 6" "name_ok nm" and env: "good_env E"
  shows "safe (answer_question E rd with_opt hops qtype (enc_name nm) udp aa st)
    (progress_ok E (chain E qtype nm) es st)"
  using assms(1-3)
proof (induction hops arbitrary: es st nm aa)
  case 0
  show ?case unfolding answer_question_one_hop [where hops = 0]
    by (rule one_hop_step [OF 0 env]) (auto intro!: exI [of _ "[]"])
next
  case (Suc h)
  show ?case unfolding answer_question_one_hop [where hops = "Suc h"]
  proof (rule one_hop_step [OF Suc.prems env], unfold nat.case)
    fix nm' aa' a and st1 :: answer
    assume n: "name_ok nm'" "resp_inv E (es @ answer_entries a) st1"
    have "\<forall>e \<in> set (es @ answer_entries a). fst e \<le> 6" using Suc.prems(2) by auto
    from Suc.IH [OF n(2) this n(1)]
    have "safe (answer_question E rd with_opt h qtype (enc_name nm') udp aa' st1)
      (progress_ok E (chain E qtype nm') (es @ answer_entries a) st1)" .
    then show "safe (answer_question E rd with_opt h qtype (enc_name nm') udp aa' st1)
      (progress_ok E (\<lambda>recs. recs = [] \<or> chain E qtype nm' recs) (es @ answer_entries a) st1)"
    proof (rule safe_mono)
      fix p :: progress
      assume "progress_ok E (chain E qtype nm') (es @ answer_entries a) st1 p"
      then show "progress_ok E (\<lambda>recs. recs = [] \<or> chain E qtype nm' recs) (es @ answer_entries a) st1 p"
        by (cases p) auto
    qed
  qed
qed

section \<open>The whole answer\<close>

fun chains :: "env \<Rightarrow> queryel list \<Rightarrow> rr_spec list \<Rightarrow> bool" where
  "chains E [] recs \<longleftrightarrow> recs = []"
| "chains E (qe # ql) recs \<longleftrightarrow>
     (\<exists>nm a b. qe_query qe = enc_name nm \<and> chain E (qe_type qe) nm a \<and> recs = a @ b \<and> chains E ql b)"

lemma answer_questions_step:
  assumes "resp_inv E es st" "\<forall>e \<in> set es. fst e \<le> 6" "\<forall>qe \<in> set ql. legal_query qe" and env: "good_env E"
  shows "safe (answer_questions E rd with_opt ql udp aa st) (progress_ok E (chains E ql) es st)"
  using assms(1-3)
proof (induction ql arbitrary: es st aa)
  case Nil
  then show ?case by (auto intro!: exI [of _ "[]"])
next
  case (Cons qe ql)
  obtain nm where nm: "name_ok nm" "qe_query qe = enc_name nm" using Cons.prems(3) by (auto simp: legal_query_def)
  have "rhncpy (enc_name nm) = Some (length (enc_name nm), enc_name nm)" using rhncpy_enc [OF nm(1), of "[]"] by simp
  then have eq: "answer_questions E rd with_opt (qe # ql) udp aa st =
      and_next (answer_question E rd with_opt MAX_HOPS (qe_type qe) (enc_name nm) udp aa st) (\<lambda>p.
        case p of Finished rc st \<Rightarrow> go_on (Finished rc st)
        | Go aa st \<Rightarrow> answer_questions E rd with_opt ql udp aa st)" by (simp add: nm(2))
  show ?case unfolding eq
  proof (rule safe_next [OF answer_question_step [OF Cons.prems(1,2) nm(1) env]])
    fix p :: progress
    assume p: "progress_ok E (chain E (qe_type qe) nm) es st p"
    show "safe (case p of Finished rc st \<Rightarrow> go_on (Finished rc st)
        | Go aa st \<Rightarrow> answer_questions E rd with_opt ql udp aa st) (progress_ok E (chains E (qe # ql)) es st)"
    proof (cases p)
      case (Finished rc st1)
      then show ?thesis using p by simp
    next
      case (Go aa1 st1)
      then obtain a where a: "chain E (qe_type qe) nm a" "resp_inv E (es @ answer_entries a) st1" "cb_grows st st1" using p by auto
      have "\<forall>e \<in> set (es @ answer_entries a). fst e \<le> 6" using Cons.prems(2) by auto
      note ih = Cons.IH [OF a(2) this]
      have "safe (answer_questions E rd with_opt ql udp aa1 st1) (progress_ok E (chains E (qe # ql)) es st)"
      proof (rule safe_mono [OF ih])
        show "\<forall>qe \<in> set ql. legal_query qe" using Cons.prems(3) by simp
        fix p' :: progress
        assume p': "progress_ok E (chains E ql) (es @ answer_entries a) st1 p'"
        show "progress_ok E (chains E (qe # ql)) es st p'"
        proof (rule progress_ok_next [OF p' _ Cons.prems(1) a(2,3)])
          show "chains E (qe # ql) (a @ recs)" if "chains E ql recs" for recs using a(1) nm(2) that by auto
        qed
      qed
      then show ?thesis using Go by simp
    qed
  qed
qed

text \<open>The id and the flags of an answer.\<close>

definition answer_flags :: "byte list \<Rightarrow> u16 \<Rightarrow> bool \<Rightarrow> byte list" where
  "answer_flags hdr rc aa =
     [hdr ! 0, hdr ! 1, (0x80 OR (hdr ! 2 AND 1)) OR (if aa then 4 else 0), 0x80 OR (ucast rc AND 0xf)]"

definition fresh_answer :: "byte list \<Rightarrow> answer" where
  "fresh_answer hdr = \<lparr>a_msg = answer_hdr hdr, a_alloc = 256, a_cb = [], a_sva = [], a_ar = [], a_calls = 1\<rparr>"

lemma fresh_answer_ok: "resp_inv E [] (fresh_answer hdr)" "take 4 (a_msg (fresh_answer hdr)) = answer_flags hdr RC_OK False"
proof -
  have "counted (answer_hdr hdr) []" by (simp add: counted_def answer_hdr_def getint16_def)
  then show "resp_inv E [] (fresh_answer hdr)"
    by (simp add: fresh_answer_def resp_inv_def resp_ok_def ans_inv_def message_holds_def noted_def)
      (simp add: answer_hdr_def)
  show "take 4 (a_msg (fresh_answer hdr)) = answer_flags hdr RC_OK False"
    by (simp add: fresh_answer_def answer_hdr_def answer_flags_def)
qed

lemma nth_flags: "12 \<le> length m \<Longrightarrow> take 4 m = f \<Longrightarrow> i < 4 \<Longrightarrow> m ! i = f ! i"
  by (metis nth_take)

lemma set_rcode_flags_eq:
  assumes "12 \<le> length (a_msg st)" "take 4 (a_msg st) = answer_flags hdr RC_OK aa"
  shows "take 4 (a_msg (set_rcode rc st)) = answer_flags hdr rc aa"
proof -
  have "a_msg st ! 3 = 0x80" using nth_flags [OF assms, of 3] by (simp add: answer_flags_def)
  then have "a_msg st ! 3 AND 0xf0 = 0x80" by simp
  then show ?thesis
    using assms(2) by (simp add: set_rcode_def take_update_swap answer_flags_def)
qed

lemma set_aa_flags_eq:
  assumes "12 \<le> length (a_msg st)" "take 4 (a_msg st) = answer_flags hdr rc False"
  shows "take 4 (a_msg (set_aa st)) = answer_flags hdr rc True"
proof -
  have "a_msg st ! 2 = 0x80 OR (hdr ! 2 AND 1)" using nth_flags [OF assms, of 2] by (simp add: answer_flags_def)
  then show ?thesis using assms(2) by (simp add: set_aa_def take_update_swap answer_flags_def)
qed

lemma resp_inv_length: "resp_inv E es st \<Longrightarrow> 12 \<le> length (a_msg st)"
  by (simp add: resp_inv_def resp_ok_def ans_inv_def)

text \<open>What is promised of an answer.\<close>

definition answer_ok :: "env \<Rightarrow> queryel list \<Rightarrow> byte list \<Rightarrow> nat option \<Rightarrow> u16 \<Rightarrow> byte list \<Rightarrow> bool" where
  "answer_ok E ql hdr udp rc msg \<longleftrightarrow>
     (\<exists>aa qs recs rest. list_all2 asks ql qs \<and> message_holds E msg (qs @ answer_entries recs @ rest) \<and>
        take 4 msg = answer_flags hdr rc aa \<and> (\<forall>e \<in> set rest. fst e \<in> {6, 8, 10}) \<and>
        (rc = RC_OK \<longrightarrow> \<not> list_ex unsupported ql \<and> chains E ql recs \<and> (\<forall>e \<in> set rest. fst e \<in> {8, 10}) \<and>
           no_repeats (answer_entries recs @ rest) \<and>
           ((\<exists>e \<in> set rest. fst e = 10) \<longrightarrow> (\<forall>u. udp = Some u \<longrightarrow> length msg \<le> u))))"

lemma no_repeats_append: "\<forall>e \<in> set qs. fst e = 4 \<Longrightarrow> no_repeats (qs @ es) \<longleftrightarrow> no_repeats es"
  by (auto simp: no_repeats_def extra_keys_none)

lemma asks_four: "list_all2 asks ql qs \<Longrightarrow> \<forall>e \<in> set qs. fst e = 4"
  by (induction rule: list_all2_induct) (auto simp: asks_def)

lemma compose_answer_ok:
  assumes env: "good_env E" and ql: "\<forall>qe \<in> set ql. legal_query qe"
  shows "safe (compose_answer E ql hdr with_opt udp) (\<lambda>(rc, msg). answer_ok E ql hdr udp rc msg)"
proof (cases "e_mem E 0")
  case True
  let ?st = "fresh_answer hdr" and ?P = "\<lambda>(rc, msg). answer_ok E ql hdr udp rc msg"
  let ?body = "\<lambda>st. if list_ex unsupported ql then go_on (RC_NOTSUPP, a_msg (set_rcode RC_NOTSUPP st))
        else and_next (answer_questions E (hdr_rd hdr) with_opt ql udp True st) (\<lambda>p.
          case p of Finished rc st \<Rightarrow> go_on (rc, a_msg st)
          | Go aa st \<Rightarrow> and_next (add_sections E with_opt udp st) (\<lambda>st.
              go_on (RC_OK, a_msg (if aa then set_aa st else st))))"
  have "safe (and_next (add_questions E ql ?st) ?body) ?P"
  proof (rule safe_next [OF add_questions_step [OF fresh_answer_ok(1) _ ql]])
    fix st1 :: answer
    assume "\<exists>qs. list_all2 asks ql qs \<and> resp_inv E ([] @ qs) st1 \<and> cb_grows ?st st1"
    then obtain qs where qs: "list_all2 asks ql qs" "resp_inv E qs st1" "cb_grows ?st st1" by auto
    note four = asks_four [OF qs(1)]
    have flags: "take 4 (a_msg st1) = answer_flags hdr RC_OK False"
      using qs(3) fresh_answer_ok(2) by (simp add: cb_grows_def)
    have holds: "message_holds E (a_msg st) es" if "resp_inv E es st" for es st
      using that by (simp add: resp_inv_def resp_ok_def)
    show "safe (?body st1) ?P"
    proof (cases "list_ex unsupported ql")
      case True
      have "answer_ok E ql hdr udp RC_NOTSUPP (a_msg (set_rcode RC_NOTSUPP st1))"
        unfolding answer_ok_def
        using qs(1) holds [OF set_rcode_inv [OF qs(2)]] set_rcode_flags_eq [OF resp_inv_length [OF qs(2)] flags]
        by (intro exI [of _ False] exI [of _ qs] exI [of _ "[]"]) simp
      then show ?thesis using True by simp
    next
      case False
      have six: "\<forall>e \<in> set qs. fst e \<le> 6" using four by auto
      have "safe (and_next (answer_questions E (hdr_rd hdr) with_opt ql udp True st1) (\<lambda>p.
          case p of Finished rc st \<Rightarrow> go_on (rc, a_msg st)
          | Go aa st \<Rightarrow> and_next (add_sections E with_opt udp st) (\<lambda>st.
              go_on (RC_OK, a_msg (if aa then set_aa st else st))))) ?P"
      proof (rule safe_next [OF answer_questions_step [OF qs(2) six ql env]])
        fix p :: progress
        assume p: "progress_ok E (chains E ql) qs st1 p"
        show "safe (case p of Finished rc st \<Rightarrow> go_on (rc, a_msg st)
          | Go aa st \<Rightarrow> and_next (add_sections E with_opt udp st) (\<lambda>st.
              go_on (RC_OK, a_msg (if aa then set_aa st else st)))) ?P"
        proof (cases p)
          case (Finished rc st2)
          then obtain new where new: "resp_inv E (qs @ new) st2" "\<forall>e \<in> set new. fst e \<in> {6, 8, 10}" "rc \<noteq> RC_OK"
            "take 4 (a_msg st2) = take 4 (a_msg (set_rcode rc st1))" using p by auto
          have "answer_ok E ql hdr udp rc (a_msg st2)"
            unfolding answer_ok_def
            using qs(1) holds [OF new(1)] new(2-4) set_rcode_flags_eq [OF resp_inv_length [OF qs(2)] flags]
            by (intro exI [of _ False] exI [of _ qs] exI [of _ "[]"] exI [of _ new]) simp
          then show ?thesis using Finished by simp
        next
          case (Go aa st2)
          then obtain recs where recs: "chains E ql recs" "resp_inv E (qs @ answer_entries recs) st2" "cb_grows st1 st2"
            using p by auto
          have six2: "\<forall>e \<in> set (qs @ answer_entries recs). fst e \<le> 6" using six by auto
          have "safe (and_next (add_sections E with_opt udp st2) (\<lambda>st. go_on (RC_OK, a_msg (if aa then set_aa st else st)))) ?P"
          proof (rule safe_next [OF add_sections_step [OF recs(2) env six2]])
            fix st3 :: answer
            assume "\<exists>new. resp_inv E ((qs @ answer_entries recs) @ new) st3 \<and> cb_grows st2 st3 \<and>
              no_repeats ((qs @ answer_entries recs) @ new) \<and> (\<forall>e \<in> set new. fst e \<in> {8, 10}) \<and>
              ((\<exists>e \<in> set new. fst e = 10) \<longrightarrow> (\<forall>u. udp = Some u \<longrightarrow> length (a_msg st3) \<le> u))"
            then obtain rest where rest: "resp_inv E (qs @ answer_entries recs @ rest) st3" "cb_grows st2 st3"
              "no_repeats (qs @ answer_entries recs @ rest)" "\<forall>e \<in> set rest. fst e \<in> {8, 10}"
              "(\<exists>e \<in> set rest. fst e = 10) \<longrightarrow> (\<forall>u. udp = Some u \<longrightarrow> length (a_msg st3) \<le> u)" by auto
            let ?st4 = "if aa then set_aa st3 else st3"
            have inv4: "resp_inv E (qs @ answer_entries recs @ rest) ?st4" using rest(1) set_aa_inv by simp
            have "take 4 (a_msg st3) = answer_flags hdr RC_OK False"
              using flags cb_grows_trans [OF recs(3) rest(2)] by (simp add: cb_grows_def)
            then have flags4: "take 4 (a_msg ?st4) = answer_flags hdr RC_OK aa"
              using set_aa_flags_eq [OF resp_inv_length [OF rest(1)]] by auto
            have len4: "length (a_msg ?st4) = length (a_msg st3)" by (simp add: set_aa_def)
            have "answer_ok E ql hdr udp RC_OK (a_msg ?st4)"
              unfolding answer_ok_def
              using qs(1) holds [OF inv4] flags4 False recs(1) rest(3-5) no_repeats_append [OF four] len4
              by (intro exI [of _ aa] exI [of _ qs] exI [of _ recs] exI [of _ rest]) auto
            then show "safe (go_on (RC_OK, a_msg ?st4)) ?P" by simp
          qed
          then show ?thesis using Go by simp
        qed
      qed
      then show ?thesis using False by simp
    qed
  qed simp
  then show ?thesis using True by (simp add: compose_answer_def fresh_answer_def Let_def)
qed (simp add: compose_answer_def)

text \<open>NULL is returned only when an allocation fails.\<close>

lemma proceeds_notes:
  assumes "\<And>i. e_mem E i"
  shows "proceeds (sva_add E rhn tp data st)" "proceeds (add_ar E tp tnm nm ttl st)" "proceeds (add_opt E with_opt rc st)"
  using assms by (auto simp: sva_add_def add_ar_def add_opt_def Let_def intro!: proceeds_rhnlen proceeds_add_opt)

lemma proceeds_for_rrs: "(\<And>x st. proceeds (f x st)) \<Longrightarrow> proceeds (for_rrs E f rrs st)"
  using for_rrs_list [of E f rrs st] by (auto intro!: proceeds_run_list)

lemma proceeds_sets:
  assumes mem: "\<And>i. e_mem E i"
  shows "proceeds (add_rrset E rrn tp c udp st)" "proceeds (add_rrsets E rrn tps c udp st)"
proof -
  have "proceeds (add_rrset_rr E rrn tp ttl udp data st)" for tp ttl data st
    unfolding add_rrset_rr_def
    by (auto intro!: proceeds_next proceeds_add_rr proceeds_notes mem split: option.split)
  then show set: "proceeds (add_rrset E rrn tp c udp st)" for tp st
    by (auto simp: add_rrset_def intro!: proceeds_for_rrs split: option.split)
  show "proceeds (add_rrsets E rrn tps c udp st)" by (induction tps arbitrary: st) (auto intro!: proceeds_next set)
qed

lemma proceeds_response:
  assumes mem: "\<And>i. e_mem E i" and tp: "in_types qtype \<or> qtype \<in> {QT_MAILB, QT_MAILA, QT_ALL}"
  shows "proceeds (add_to_response E rrn qtype c udp st)"
proof -
  obtain tps where "response_types c qtype = Some tps" using tp by (auto simp: response_types_def in_types_def)
  then show ?thesis by (simp add: add_to_response_rrsets proceeds_sets mem)
qed

lemma proceeds_additional:
  assumes mem: "\<And>i. e_mem E i"
  shows "proceeds (add_additional_rr E rhn tp ttl data s udp st)" "proceeds (add_authorities E ar udp st)"
    "proceeds (add_addresses E ar udp st)"
proof -
  show one: "proceeds (add_additional_rr E rhn tp ttl data s udp st)" for rhn tp ttl data s st
    by (auto simp: add_additional_rr_def intro!: proceeds_next proceeds_add_rr proceeds_notes mem split: option.split bool.split)
  show "proceeds (add_authorities E ar udp st)" by (induction ar arbitrary: st) (auto intro!: proceeds_next one)
  have "proceeds (add_additional_a E rhn udp st)" for rhn st
    by (auto simp: add_additional_a_def add_additional_set_def add_additional_rrs_def
        intro!: proceeds_next proceeds_for_rrs one split: option.split)
  then show "proceeds (add_addresses E ar udp st)" by (induction ar arbitrary: st) (auto intro!: proceeds_next)
qed

lemma proceeds_one_hop:
  assumes mem: "\<And>i. e_mem E i" and tp: "in_types qtype \<or> qtype \<in> {QT_MAILB, QT_MAILA, QT_ALL}"
    and K: "\<And>nm aa st. proceeds (K nm aa st)"
  shows "proceeds (one_hop E rd with_opt qtype dname udp aa st K)"
proof -
  have soas: "proceeds (add_soa_rrs E nm ttl rrs udp st)" for nm ttl rrs st
    by (induction rrs arbitrary: st) (auto intro!: proceeds_next proceeds_add_rr mem)
  have soa: "proceeds (add_name_error_soa E dname csoa udp st)" for csoa st
    by (auto simp: add_name_error_soa_def intro!: soas split: option.split)
  have ars: "proceeds (add_ars E tp rrs nm ttl st)" for tp rrs nm ttl st
    by (induction rrs arbitrary: st) (auto intro!: proceeds_next proceeds_notes mem)
  have auth: "proceeds (note_authority E qtype c st)" for c st
    unfolding note_authority_def Let_def by (auto intro!: ars split: option.split)
  have nxt: "proceeds (if b then (case r of None \<Rightarrow> None | Some None \<Rightarrow> go_on None | Some (Some nm) \<Rightarrow> go_on (Some nm)) else go_on None)"
    for b and r :: "byte list outcome" by (simp split: option.split)
  have cont: "proceeds (case n of Some nm \<Rightarrow> K nm aa st
      | None \<Rightarrow> and_next (note_authority E qtype c st) (\<lambda>st. go_on (Go aa st)))" for n aa c st
    by (cases n) (auto intro: K proceeds_next [OF auth])
  have early: "proceeds (and_next (if b then and_next (add_name_error_soa E dname csoa udp st) (add_opt E with_opt rc) else go_on st)
      (\<lambda>st. go_on (Finished rc st)))" for b csoa rc st
    by (cases b) (auto intro!: proceeds_next soa proceeds_notes mem)
  obtain rc cached csoa where res: "e_resolve E (a_calls st) dname qtype = (rc, cached, csoa)"
    by (cases "e_resolve E (a_calls st) dname qtype")
  show ?thesis
  proof (cases "rc = RC_OK")
    case True
    show ?thesis
    proof (cases cached)
      case None
      then show ?thesis using True by (simp add: one_hop_def res)
    next
      case (Some c)
      have rc: "\<not> rc \<noteq> RC_OK" using True by simp
      show ?thesis unfolding one_hop_def res prod.case Let_def Some option.case if_not_P [OF rc]
        by (intro proceeds_next proceeds_response [OF mem tp] nxt cont)
    qed
  next
    case False
    show ?thesis unfolding one_hop_def res prod.case Let_def if_P [OF False] by (rule early)
  qed
qed

lemma proceeds_question:
  assumes mem: "\<And>i. e_mem E i" and tp: "in_types qtype \<or> qtype \<in> {QT_MAILB, QT_MAILA, QT_ALL}"
  shows "proceeds (answer_question E rd with_opt hops qtype dname udp aa st)"
proof (induction hops arbitrary: dname aa st)
  case 0
  show ?case unfolding answer_question_one_hop [where hops = 0] by (rule proceeds_one_hop [OF mem tp]) simp
next
  case (Suc h)
  show ?case unfolding answer_question_one_hop [where hops = "Suc h"]
    by (rule proceeds_one_hop [OF mem tp]) (simp add: Suc.IH)
qed

lemma supported_type: "\<not> unsupported qe \<Longrightarrow> in_types (qe_type qe) \<or> qe_type qe \<in> {QT_MAILB, QT_MAILA, QT_ALL}"
  by (auto simp: unsupported_def not_cached_type_def in_types_def)

lemma proceeds_questions:
  assumes mem: "\<And>i. e_mem E i"
  shows "\<not> list_ex unsupported ql \<Longrightarrow> proceeds (answer_questions E rd with_opt ql udp aa st)" "proceeds (add_questions E ql st)"
proof -
  show "\<not> list_ex unsupported ql \<Longrightarrow> proceeds (answer_questions E rd with_opt ql udp aa st)"
  proof (induction ql arbitrary: aa st)
    case (Cons qe ql)
    then show ?case
      using proceeds_question [OF mem supported_type, of qe]
      by (auto intro!: proceeds_next split: option.split progress.split)
  qed simp
  have "proceeds (add_question E qe st)" for qe st
  proof -
    have case_next: "proceeds (case r of None \<Rightarrow> None | Some None \<Rightarrow> return_0 | Some (Some (bs, cb)) \<Rightarrow> f bs cb)"
      if "proceeds r" "\<And>bs cb. proceeds (f bs cb)" for r and f :: "byte list \<Rightarrow> compel list \<Rightarrow> answer outcome"
      using that by (auto simp: proceeds_def split: option.split)
    have "proceeds (compress_name (e_mem E n) nm offs cb)" for n nm offs cb using mem [of n] by simp
    then show ?thesis
      unfolding add_question_def
      by (intro proceeds_rhnlen proceeds_next proceeds_name mem case_next) simp_all
  qed
  then show "proceeds (add_questions E ql st)" by (induction ql arbitrary: st) (auto intro!: proceeds_next)
qed

lemma proceeds_compose:
  assumes mem: "\<And>i. e_mem E i"
  shows "proceeds (compose_answer E ql hdr with_opt udp)"
proof -
  have "proceeds (add_sections E with_opt udp st)" for st
    unfolding add_sections_def by (auto intro!: proceeds_next proceeds_additional proceeds_notes mem)
  then show ?thesis
    using mem unfolding compose_answer_def Let_def
    by (auto intro!: proceeds_next proceeds_questions mem split: progress.split)
qed


definition ex_set :: "byte list \<Rightarrow> rr_set" where
  "ex_set d = \<lparr>rs_ttl = 300, rs_ts = 1000, rs_flags = 0, rs_rrs = [d]\<rparr>"

definition ex_entry :: "label list \<Rightarrow> nat \<Rightarrow> byte list \<Rightarrow> dns_cent" where
  "ex_entry nm i d = \<lparr>qname = enc_name nm, cs = 0, num_rrs = 1, ce_flags = 0,
     body = Rr ((replicate NRRMU None)[i := Some (ex_set d)]) None, c_ns = cundef, c_soa = cundef\<rparr>"

text \<open>A mail exchange record for \<open>a\<close>, and the address of its target.\<close>

definition ex_mx :: dns_cent where
  "ex_mx = ex_entry [[97]] 5 ([0, 10] @ enc_name [[98], [97]])"

definition ex_addr :: dns_cent where
  "ex_addr = ex_entry [[98], [97]] 0 [10, 0, 0, 1]"

definition ex_env :: env where
  "ex_env = \<lparr>e_mem = (\<lambda>_. True), e_random = (\<lambda>_. 0),
     e_resolve = (\<lambda>now nm tp. if nm = enc_name [[97]] then (RC_OK, Some ex_mx, cundef) else (RC_NAMEERR, None, cundef)),
     e_lookup = (\<lambda>now nm. if nm = enc_name [[98], [97]] then Some ex_addr else None), e_find = (\<lambda>_ _. None),
     e_queryts = 1100, rnd_recs = True, udpbufsize = 1024\<rparr>"

definition ex_query :: "queryel list" where
  "ex_query = [\<lparr>qe_type = T_MX, qe_class = 1, qe_query = enc_name [[97]]\<rparr>]"

lemma rrlkuptab_inject: "i < 51 \<Longrightarrow> j < 51 \<Longrightarrow> rrlkuptab ! i = rrlkuptab ! j \<Longrightarrow> i = j"
proof -
  have "distinct rrlkuptab" "length rrlkuptab = 51" by (simp_all add: rrlkuptab_def)
  then show "i < 51 \<Longrightarrow> j < 51 \<Longrightarrow> rrlkuptab ! i = rrlkuptab ! j \<Longrightarrow> i = j" by (simp add: nth_eq_iff_index_eq)
qed

lemma ex_entry_good:
  assumes "name_ok nm" "i < 8" "1 \<le> tp" "tp \<le> 51" "rrlkuptab ! (tp - 1) = i" "data_fits tp d vs"
  shows "good_cent (ex_entry nm i d)"
proof -
  have "\<exists>vs. data_fits tp' d' vs"
    if "getrrset (ex_entry nm i d) (int tp') = Some rs" "d' \<in> set (rs_rrs rs)" for tp' rs d'
  proof -
    let ?j = "rrlkuptab ! (tp' - 1)"
    have t: "1 \<le> tp'" "tp' \<le> 51" using getrrset_type [OF that(1)] by simp_all
    have at: "nat (int tp' - 1) = tp' - 1" using t by (simp add: nat_diff_distrib)
    have "?j < 8 \<and> (replicate NRRMU None)[i := Some (ex_set d)] ! ?j = Some rs"
      using that(1) t at by (auto simp: getrrset_def Let_def rrarr_index_def ex_entry_def negative_def has_flag_def split: if_splits)
    then have "?j = i" "rs = ex_set d" using assms(2) by (auto simp: nth_list_update split: if_splits)
    moreover from this have "tp' - 1 = tp - 1" using rrlkuptab_inject [of "tp' - 1" "tp - 1"] assms(3-5) t by simp
    then have "tp' = tp" using assms(3) t(1) by simp
    ultimately show ?thesis using that(2) assms(6) by (auto simp: ex_set_def)
  qed
  then show ?thesis using assms(1) by (auto simp: good_cent_def ex_entry_def)
qed

lemma ex_env_good: "good_env ex_env"
proof -
  have n: "name_ok [[97]]" "name_ok [[98], [97]]" by (simp_all add: name_ok_def label_ok_def)
  have f: "data_fits 15 ([0, 10] @ enc_name [[98], [97]]) [Raw [0, 10], Nm [[98], [97]]]" "data_fits 1 [10, 0, 0, 1] [Raw [10, 0, 0, 1]]"
    using n by (simp_all add: data_fits_def rr_layout_def enc_vals_def)
  have t: "rrlkuptab ! (15 - 1) = 5" "rrlkuptab ! (1 - 1) = 0" by (simp_all add: rrlkuptab_def)
  have "good_cent ex_mx" unfolding ex_mx_def by (rule ex_entry_good [OF n(1) _ _ _ t(1) f(1)]) simp_all
  moreover have "good_cent ex_addr" unfolding ex_addr_def by (rule ex_entry_good [OF n(2) _ _ _ t(2) f(2)]) simp_all
  ultimately show ?thesis
    by (auto simp: good_env_def known_cent_def ex_env_def split: if_splits)
qed


end
