(* ===== verification/Dns_Query.thy ===== *)
theory Dns_Query
  imports Dns_Response
begin

text \<open>
  Queries, from pdnsd's \<open>dns_answer.c\<close>: \<open>decode_query\<close>, \<open>decode_query_additional\<close>, \<open>mk_error_reply\<close>, \<open>process_query\<close>, which
  turns the bytes received from a client into the reply, and what the threads \<open>udp_answer_thread\<close> and \<open>tcp_answer_thread\<close>
  send. The sockets, the addresses of the sender and the limits on the number of threads are not modelled.

  The bytes received are arbitrary. The relations \<open>quest_at\<close> and \<open>extra_at\<close> say what stands in a message; decoding is
  exact with respect to them. The locale \<open>unique_row\<close> is the interface of such relations, and \<open>rr_at\<close> is another
  interpretation, so that the replies can be read back with \<open>decode_query\<close> and \<open>rrs2cent\<close>.
\<close>

section \<open>Decoding a query\<close>

abbreviation (input) RC_FORMERR :: u16 where "RC_FORMERR \<equiv> 1"
abbreviation (input) RC_SERVFAIL :: u16 where "RC_SERVFAIL \<equiv> 2"
abbreviation (input) RC_BADVERS :: u16 where "RC_BADVERS \<equiv> 16"
abbreviation (input) RC_TRUNCATED :: u16 where "RC_TRUNCATED \<equiv> 0xfffe"
abbreviation (input) UDP_BUFSIZE :: nat where "UDP_BUFSIZE \<equiv> 512"

definition rc_of :: "dec_error \<Rightarrow> u16" where
  "rc_of e = (case e of RC_TRUNC \<Rightarrow> RC_TRUNCATED | RC_FORMAT \<Rightarrow> RC_FORMERR)"

text \<open>
  The fields of the header, as \<open>dns_hdr_t\<close> lays out its bits on a little-endian machine.
\<close>

definition hdr_qr :: "byte list \<Rightarrow> bool" where
  "hdr_qr hdr \<longleftrightarrow> hdr ! 2 AND 0x80 \<noteq> 0"

definition hdr_opcode :: "byte list \<Rightarrow> byte" where
  "hdr_opcode hdr = drop_bit 3 (hdr ! 2) AND 0xf"

definition hdr_tc :: "byte list \<Rightarrow> bool" where
  "hdr_tc hdr \<longleftrightarrow> hdr ! 2 AND 2 \<noteq> 0"

definition hdr_z :: "byte list \<Rightarrow> bool" where
  "hdr_z hdr \<longleftrightarrow> hdr ! 3 AND 0x40 \<noteq> 0"

definition hdr_rcode :: "byte list \<Rightarrow> byte" where
  "hdr_rcode hdr = hdr ! 3 AND 0xf"

text \<open>
  The loop of \<open>decode_query\<close>: \<open>n\<close> questions are left; the result code, the list, \<open>*ptrrem\<close> and \<open>*lenrem\<close>. \<open>grow\<close> says
  whether \<open>llist_grow\<close> succeeds; where no list is returned it is empty.
\<close>

fun decode_questions ::
  "(nat \<Rightarrow> bool) \<Rightarrow> byte list \<Rightarrow> nat \<Rightarrow> nat \<Rightarrow> nat \<Rightarrow> queryel list \<Rightarrow> (u16 \<times> queryel list \<times> nat \<times> nat) option" where
  "decode_questions grow data ptr sz 0 ql = Some (RC_OK, ql, ptr, sz)"
| "decode_questions grow data ptr sz (Suc n) ql =
     (case decompress_name data ptr sz of
        None \<Rightarrow> None
      | Some (Inl RC_TRUNC) \<Rightarrow> Some (RC_TRUNCATED, ql, ptr, sz)
      | Some (Inl RC_FORMAT) \<Rightarrow> Some (RC_FORMERR, [], ptr, sz)
      | Some (Inr (qbuf, sz1, qlen)) \<Rightarrow>
          let ptr1 = ptr + (sz - sz1) in
          if sz1 < 4 then Some (RC_TRUNCATED, ql, ptr1, sz1)
          else if \<not> grow n then Some (RC_SERVFAIL, [], ptr1, sz1)
          else if ptr1 + 4 > length data then None
          else decode_questions grow data (ptr1 + 4) (sz1 - 4) n
            (ql @ [\<lparr>qe_type = unat (getint16 data ptr1), qe_class = unat (getint16 data (ptr1 + 2)), qe_query = qbuf\<rparr>]))"

definition decode_query :: "(nat \<Rightarrow> bool) \<Rightarrow> byte list \<Rightarrow> (u16 \<times> queryel list \<times> nat \<times> nat) option" where
  "decode_query grow data =
     (if length data < sizeof_dns_hdr_t then None
      else decode_questions grow data sizeof_dns_hdr_t (length data - sizeof_dns_hdr_t) (unat (getint16 data 4)) [])"

text \<open>\<open>decode_query_additional\<close>: the result code, \<open>*numopt\<close> and what \<open>ep\<close> points to.\<close>

fun decode_query_additional ::
  "byte list \<Rightarrow> nat \<Rightarrow> nat \<Rightarrow> nat \<Rightarrow> nat \<Rightarrow> edns_info \<Rightarrow> (u16 \<times> nat \<times> edns_info) option" where
  "decode_query_additional data ptr sz 0 numoptrr ep = Some (RC_OK, numoptrr, ep)"
| "decode_query_additional data ptr sz (Suc n) numoptrr ep =
     (case decompress_name data ptr sz of
        None \<Rightarrow> None
      | Some (Inl e) \<Rightarrow> Some (rc_of e, numoptrr, ep)
      | Some (Inr (nmbuf, sz1, len)) \<Rightarrow>
          let p = ptr + (sz - sz1) in
          if sz1 < sizeof_rr_hdr_t then Some (RC_TRUNCATED, numoptrr, ep)
          else if p + sizeof_rr_hdr_t > length data then None
          else
            let sz2 = sz1 - sizeof_rr_hdr_t; tp = unat (getint16 data p); rdlen = unat (getint16 data (p + 8)) in
            if sz2 < rdlen then Some (RC_TRUNCATED, numoptrr, ep)
            else decode_query_additional data (p + sizeof_rr_hdr_t + rdlen) (sz2 - rdlen) n
              (if tp = T_OPT then numoptrr + 1 else numoptrr)
              (if tp = T_OPT \<and> numoptrr = 0 then opt_info data (getint16 data (p + 2)) (p + 4) else ep))"

section \<open>process\_query\<close>

definition mk_error_reply :: "byte list \<Rightarrow> byte \<Rightarrow> u16 \<Rightarrow> byte list" where
  "mk_error_reply hdr opcode rescode =
     [hdr ! 0, hdr ! 1, 0x80 OR push_bit 3 (opcode AND 0xf), 0x80 OR (ucast rescode AND 0xf), 0, 0, 0, 0, 0, 0, 0, 0]"

text \<open>
  The code behind the label \<open>error_reply\<close>; \<open>errmem\<close> is the outcome of its \<open>malloc\<close>. The return value of
  \<open>add_opt_pseudo_rr\<close> is not looked at. Results are the result code, the reply and \<open>*udp\<close>.
\<close>

definition error_reply :: "env \<Rightarrow> bool \<Rightarrow> byte list \<Rightarrow> nat option \<Rightarrow> u16 \<Rightarrow> (u16 \<times> byte list \<times> nat option) outcome" where
  "error_reply E errmem data udp res =
     (let ext = (res AND NOT 0xf \<noteq> 0);
          rep = mk_error_reply data (if length data \<ge> 3 then hdr_opcode data else 0) res;
          st = \<lparr>a_msg = rep, a_alloc = dnsmsghdroffset + sizeof_dns_hdr_t + (if ext then 1 + sizeof_rr_hdr_t else 0),
                a_cb = [], a_sva = [], a_ar = [], a_calls = 0\<rparr> in
      if \<not> errmem then return_0
      else if ext then
        case add_opt_pseudo_rr (e_mem E) (udpbufsize E) res 0 0 st of
          None \<Rightarrow> None
        | Some None \<Rightarrow> go_on (res, rep, udp)
        | Some (Some st') \<Rightarrow> go_on (res, a_msg st', udp)
      else go_on (res, rep, udp))"

text \<open>
  The OPT record of the query: an error, or whether there is one and the new \<open>*udp\<close>. \<open>res\<close> is what \<open>decode_query\<close>
  returned.
\<close>

definition query_edns :: "env \<Rightarrow> byte list \<Rightarrow> u16 \<Rightarrow> nat \<Rightarrow> nat \<Rightarrow> nat option \<Rightarrow> (u16 + bool \<times> nat option) option" where
  "query_edns E data res ptr sz udp =
     (let arcount = unat (getint16 data 10) in
      if arcount = 0 then Some (Inr (False, udp))
      else if res = RC_TRUNCATED then Some (Inl RC_FORMERR)
      else
        case decode_query_additional data ptr sz arcount 0 \<lparr>ei_udpsize = 0, ei_rcode = 0, ei_version = 0, ei_do_flg = 0\<rparr> of
          None \<Rightarrow> None
        | Some (r, numoptrr, ep) \<Rightarrow>
            Some (
              if \<not> (r = RC_OK \<or> (r = RC_TRUNCATED \<and> hdr_tc data)) then Inl RC_FORMERR
              else if numoptrr = 0 then Inr (False, udp)
              else if ei_version ep \<noteq> 0 then Inl RC_BADVERS
              else if ei_rcode ep \<noteq> 0 then Inl RC_FORMERR
              else Inr (True,
                if udp \<noteq> None \<and> unat (ei_udpsize ep) > UDP_BUFSIZE
                then Some (if unat (udpbufsize E) > unat (ei_udpsize ep) then unat (ei_udpsize ep) else unat (udpbufsize E))
                else udp)))"

definition process_query ::
  "env \<Rightarrow> (nat \<Rightarrow> bool) \<Rightarrow> bool \<Rightarrow> byte list \<Rightarrow> nat option \<Rightarrow> (u16 \<times> byte list \<times> nat option) outcome" where
  "process_query E grow errmem data udp =
     (let err = error_reply E errmem data in
      if length data < 2 then return_0
      else if length data < sizeof_dns_hdr_t then err udp RC_FORMERR
      else if hdr_qr data then return_0
      else if hdr_opcode data \<noteq> 0 then err udp RC_NOTSUPP
      else if hdr_z data then err udp RC_FORMERR
      else if hdr_rcode data \<noteq> 0 then return_0
      else if getint16 data 6 \<noteq> 0 then err udp RC_FORMERR
      else if getint16 data 8 \<noteq> 0 then err udp RC_FORMERR
      else case decode_query grow data of
        None \<Rightarrow> None
      | Some (res, ql, ptr, sz) \<Rightarrow>
          if res \<noteq> RC_OK \<and> res \<noteq> RC_TRUNCATED then err udp res
          else if res = RC_TRUNCATED \<and> (\<not> hdr_tc data \<or> ql = []) then err udp RC_FORMERR
          else case query_edns E data res ptr sz udp of
            None \<Rightarrow> None
          | Some (Inl e) \<Rightarrow> err udp e
          | Some (Inr (with_opt, udp')) \<Rightarrow>
              if ql = [] then err udp' RC_FORMERR
              else case compose_answer E ql data with_opt udp' of
                None \<Rightarrow> None
              | Some None \<Rightarrow> err udp' RC_SERVFAIL
              | Some (Some (rc, msg)) \<Rightarrow> go_on (rc, msg, udp'))"

section \<open>The answer threads\<close>

text \<open>
  What \<open>udp_answer_thread\<close> sends for a datagram: the reply, cut to the length allowed with the bit \<open>tc\<close> set if it is
  longer.
\<close>

definition udp_answer :: "env \<Rightarrow> (nat \<Rightarrow> bool) \<Rightarrow> bool \<Rightarrow> byte list \<Rightarrow> byte list outcome" where
  "udp_answer E grow errmem data =
     and_next (process_query E grow errmem data (Some UDP_BUFSIZE)) (\<lambda>(rc, resp, udp).
       case udp of
         None \<Rightarrow> None
       | Some udpmaxrespsize \<Rightarrow>
           if length resp > udpmaxrespsize
           then (if length resp < 3 then None else go_on (take udpmaxrespsize (resp[2 := resp ! 2 OR 2])))
           else go_on resp)"

text \<open>
  \<open>tcp_answer_thread\<close>, for one query on a connection. \<open>Polled_out\<close> is a \<open>poll\<close> that gives up, \<open>Read bs\<close> one that does not
  and the bytes the following \<open>read\<close> returns, none for an error or the end of the stream. \<open>read\<close> returns no more bytes than
  it is asked for.
\<close>

datatype tcp_event = Polled_out | Read "byte list"

text \<open>The loop that reads the query: all of it, or the bytes written before the thread ends.\<close>

datatype tcp_read = Got "byte list" | Left "byte list" | Pending

definition tcp_frame :: "byte list \<Rightarrow> byte list" where
  "tcp_frame resp = putint16 (of_nat (length resp)) @ resp"

fun read_query :: "nat \<Rightarrow> byte list \<Rightarrow> tcp_event list \<Rightarrow> tcp_read option" where
  "read_query rlen buf evs =
     (if \<not> length buf < rlen then Some (Got buf)
      else case evs of
        [] \<Rightarrow> Some Pending
      | Polled_out # _ \<Rightarrow> Some (Left [])
      | Read bs # evs' \<Rightarrow>
          if length bs > rlen - length buf then None
          else if bs = [] then
            Some (Left (if length buf \<ge> 2
              then tcp_frame (mk_error_reply buf (if length buf \<ge> 3 then hdr_opcode buf else 0) RC_FORMERR) else []))
          else read_query rlen (buf @ bs) evs')"

text \<open>The bytes written before the connection is closed. \<open>bufmem\<close> is the outcome of the \<open>malloc\<close> of the buffer.\<close>

datatype tcp_result = Tcp_waiting | Tcp_closed "byte list"

definition tcp_answer :: "env \<Rightarrow> (nat \<Rightarrow> bool) \<Rightarrow> bool \<Rightarrow> bool \<Rightarrow> tcp_event list \<Rightarrow> tcp_result option" where
  "tcp_answer E grow errmem bufmem evs =
     (case evs of
        [] \<Rightarrow> Some Tcp_waiting
      | Polled_out # _ \<Rightarrow> Some (Tcp_closed [])
      | Read bs # evs' \<Rightarrow>
          if length bs > 2 then None
          else if length bs \<noteq> 2 then Some (Tcp_closed [])
          else
            let rlen = unat (getint16 bs 0) in
            if rlen = 0 \<or> \<not> bufmem then Some (Tcp_closed [])
            else case read_query rlen [] evs' of
              None \<Rightarrow> None
            | Some Pending \<Rightarrow> Some Tcp_waiting
            | Some (Left out) \<Rightarrow> Some (Tcp_closed out)
            | Some (Got buf) \<Rightarrow>
                (case process_query E grow errmem buf None of
                   None \<Rightarrow> None
                 | Some None \<Rightarrow> Some (Tcp_closed [])
                 | Some (Some (rc, resp, _)) \<Rightarrow> Some (Tcp_closed (tcp_frame resp))))"

section \<open>What a query asks\<close>

text \<open>
  Things of a message one behind the other, \<open>at p x q\<close> if \<open>x\<close> lies at the positions from \<open>p\<close> to \<open>q\<close>. The locale
  \<open>unique_row\<close> is the interface: at a position there is at most one thing.
\<close>

fun row :: "(nat \<Rightarrow> 'a \<Rightarrow> nat \<Rightarrow> bool) \<Rightarrow> nat \<Rightarrow> 'a list \<Rightarrow> nat \<Rightarrow> bool" where
  "row at p [] q \<longleftrightarrow> q = p"
| "row at p (x # xs) q \<longleftrightarrow> (\<exists>p'. at p x p' \<and> row at p' xs q)"

definition none_at :: "(nat \<Rightarrow> 'a \<Rightarrow> nat \<Rightarrow> bool) \<Rightarrow> nat \<Rightarrow> bool" where
  "none_at at p \<longleftrightarrow> (\<forall>x q. \<not> at p x q)"

locale unique_row =
  fixes at :: "nat \<Rightarrow> 'a \<Rightarrow> nat \<Rightarrow> bool"
  assumes unique: "at p a q \<Longrightarrow> at p b r \<Longrightarrow> b = a \<and> r = q"
begin

lemma row_split: "row at p as q \<Longrightarrow> row at p bs r \<Longrightarrow> length as \<le> length bs \<Longrightarrow>
    take (length as) bs = as \<and> row at q (drop (length as) bs) r"
proof (induction as arbitrary: p bs)
  case (Cons a as)
  then obtain b bs' where b: "bs = b # bs'" by (cases bs) auto
  obtain p1 p2 where "at p a p1" "row at p1 as q" "at p b p2" "row at p2 bs' r"
    using Cons.prems b by auto
  moreover from this have "b = a" "p2 = p1" using unique by blast+
  ultimately show ?case using Cons.IH [of p1 bs'] Cons.prems(3) b by auto
qed simp

lemma row_unique: "row at p as q \<Longrightarrow> row at p bs r \<Longrightarrow> length as = length bs \<Longrightarrow> bs = as \<and> r = q"
  using row_split [of p as q bs r] by simp

lemma row_no_more:
  assumes "row at p as q" "none_at at q" "row at p bs r"
  shows "length bs \<le> length as"
proof (rule ccontr)
  assume "\<not> length bs \<le> length as"
  then have "length as < length bs" by simp
  then show False using row_split [OF assms(1,3)] assms(2)
    by (cases "drop (length as) bs") (auto simp: none_at_def)
qed

end

text \<open>A question at a position, and the questions from a position on.\<close>

definition quest_at :: "byte list \<Rightarrow> nat \<Rightarrow> queryel \<Rightarrow> nat \<Rightarrow> bool" where
  "quest_at m p qe q \<longleftrightarrow>
     (\<exists>ls h n. name_at m p ls h \<and> h \<le> 255 \<and> name_ok ls \<and> name_span m p n \<and> q = p + n + 4 \<and> q \<le> length m \<and>
        qe = \<lparr>qe_type = unat (getint16 m (p + n)), qe_class = unat (getint16 m (p + n + 2)), qe_query = enc_name ls\<rparr>)"

abbreviation quests_at :: "byte list \<Rightarrow> nat \<Rightarrow> queryel list \<Rightarrow> nat \<Rightarrow> bool" where
  "quests_at m \<equiv> row (quest_at m)"

text \<open>A record at a position, by its type and the position of its fixed fields.\<close>

definition extra_at :: "byte list \<Rightarrow> nat \<Rightarrow> nat \<times> nat \<Rightarrow> nat \<Rightarrow> bool" where
  "extra_at m p x q \<longleftrightarrow>
     (\<exists>ls h n. name_at m p ls h \<and> h \<le> 255 \<and> name_ok ls \<and> name_span m p n \<and>
        q = p + n + sizeof_rr_hdr_t + unat (getint16 m (p + n + 8)) \<and> q \<le> length m \<and> x = (unat (getint16 m (p + n)), p + n))"

abbreviation extras_at :: "byte list \<Rightarrow> nat \<Rightarrow> (nat \<times> nat) list \<Rightarrow> nat \<Rightarrow> bool" where
  "extras_at m \<equiv> row (extra_at m)"

text \<open>The OPT records, and what the first one says.\<close>

definition opts :: "(nat \<times> nat) list \<Rightarrow> (nat \<times> nat) list" where
  "opts xs = filter (\<lambda>x. fst x = T_OPT) xs"

definition opt_of :: "byte list \<Rightarrow> (nat \<times> nat) list \<Rightarrow> edns_info option" where
  "opt_of m xs = (case opts xs of [] \<Rightarrow> None | (tp, d) # _ \<Rightarrow> Some (opt_info m (getint16 m (d + 2)) (d + 4)))"

lemma opts_simps [simp]:
  "opts [] = []"
  "opts (x # xs) = (if fst x = T_OPT then x # opts xs else opts xs)"
  by (simp_all add: opts_def)

lemma name_read_unique:
  assumes "name_at m p ls h" "h \<le> 255" "name_ok ls" "name_span m p n" "name_at m p ms i" "i \<le> 255" "name_ok ms" "name_span m p j"
  shows "ms = ls"
  using name_field_unique [of m "p + n + j" p "Nm ls" "p + n" "Nm ms" "p + j"] assms by auto

lemma quest_at_unique: "quest_at m p a q \<Longrightarrow> quest_at m p b r \<Longrightarrow> b = a \<and> r = q"
  unfolding quest_at_def by (elim exE conjE) (metis name_span_unique name_read_unique)

lemma extra_at_unique: "extra_at m p a q \<Longrightarrow> extra_at m p b r \<Longrightarrow> b = a \<and> r = q"
  unfolding extra_at_def by (elim exE conjE) (metis name_span_unique)

interpretation questions: unique_row "quest_at m" for m
  by unfold_locales (rule quest_at_unique)

interpretation extras: unique_row "extra_at m" for m
  by unfold_locales (rule extra_at_unique)

lemma quest_at_lt: "quest_at m p qe q \<Longrightarrow> p < q \<and> q \<le> length m"
  by (auto simp: quest_at_def)

lemma quests_at_inside: "quests_at m p ql q \<Longrightarrow> p \<le> length m \<Longrightarrow> q \<le> length m"
  by (induction ql arbitrary: p) (auto dest: quest_at_lt)

lemma extra_at_lt: "extra_at m p x q \<Longrightarrow> p < q \<and> q \<le> length m"
  by (auto simp: extra_at_def)

lemma quest_legal: "quest_at m p qe q \<Longrightarrow> legal_query qe"
  using unat_u16_less by (auto simp: quest_at_def legal_query_def)

lemma quests_legal: "quests_at m p ql q \<Longrightarrow> \<forall>qe \<in> set ql. legal_query qe"
  by (induction ql arbitrary: p) (auto intro: quest_legal)

text \<open>Positions of names in what is left of the message.\<close>

lemma name_read:
  assumes "p + sz = length m"
  obtains (bad) e where "decompress_name m p sz = Some (Inl e)" "\<And>ls h n. \<lbrakk>name_at m p ls h; h \<le> 255; name_ok ls\<rbrakk> \<Longrightarrow> \<not> name_span m p n"
  | (good) ls h n where "decompress_name m p sz = Some (Inr (enc_name ls, sz - n, length (enc_name ls)))"
      "name_at m p ls h" "h \<le> 255" "name_ok ls" "name_span m p n" "p + n \<le> length m" "n \<le> sz"
  using decompress_name_sound [of m p sz]
proof (elim disjE exE conjE)
  fix e
  assume e: "decompress_name m p sz = Some (Inl e)"
  have "\<not> name_span m p n" if "name_at m p ls h" "h \<le> 255" "name_ok ls" for ls h n
  proof
    assume n: "name_span m p n"
    then have "n \<le> sz" using name_span_inside [OF n] assms by simp
    then show False using decompress_name_complete [OF that n, of sz] e by simp
  qed
  then show thesis using bad e by blast
next
  fix ls h n
  assume "decompress_name m p sz = Some (Inr (enc_name ls, sz - n, length (enc_name ls)))" "name_at m p ls h" "h \<le> 255"
    "name_ok ls" "name_span m p n" "n \<le> sz"
  then show thesis using good [of ls n h] assms by simp
qed

section \<open>Decoding is exact\<close>

text \<open>One question: read if there is one, and otherwise the result code says so.\<close>

lemma decode_question:
  assumes "p + sz = length m"
  obtains (none) r p' s' where "r \<in> {RC_TRUNCATED, RC_FORMERR}"
      "decode_questions grow m p sz (Suc n) ql = Some (r, if r = RC_TRUNCATED then ql else [], p', s')" "\<And>qe q. \<not> quest_at m p qe q"
  | (memory) p' s' where "decode_questions grow m p sz (Suc n) ql = Some (RC_SERVFAIL, [], p', s')" "\<not> grow n"
  | (quest) qe q where "quest_at m p qe q" "q \<le> length m"
      "decode_questions grow m p sz (Suc n) ql = decode_questions grow m q (length m - q) n (ql @ [qe])"
proof (cases rule: name_read [OF assms])
  case (1 e)
  then have "\<not> quest_at m p qe q" for qe q unfolding quest_at_def by blast
  then show thesis using 1(1) by (cases e) (auto intro: none)
next
  case (2 ls h k)
  have pos: "p + (sz - (sz - k)) = p + k" using 2 by simp
  show thesis
  proof (cases "sz - k < 4")
    case True
    have "\<not> quest_at m p qe q" for qe q
    proof
      assume "quest_at m p qe q"
      then obtain j where "name_span m p j" "p + j + 4 \<le> length m" "j = k"
        unfolding quest_at_def using name_span_unique [OF 2(2-5)] by blast
      then show False using True assms by simp
    qed
    then show thesis using True 2(1) by (intro none [of RC_TRUNCATED]) (auto simp: Let_def)
  next
    case False
    let ?qe = "\<lparr>qe_type = unat (getint16 m (p + k)), qe_class = unat (getint16 m (p + k + 2)), qe_query = enc_name ls\<rparr>"
    have l: "p + k + 4 \<le> length m" using False assms by simp
    have q: "quest_at m p ?qe (p + k + 4)"
      unfolding quest_at_def using 2(2-5) l by (intro exI [of _ ls] exI [of _ h] exI [of _ k]) simp
    have s: "sz - k - 4 = length m - (p + k + 4)" using assms by simp
    show thesis
    proof (cases "grow n")
      case True
      have "decode_questions grow m p sz (Suc n) ql = decode_questions grow m (p + k + 4) (length m - (p + k + 4)) n (ql @ [?qe])"
        using True False 2(1) l unfolding decode_questions.simps(2) s [symmetric]
        by (simp add: pos Let_def del: decode_questions.simps)
      then show thesis by (rule quest [OF q l])
    next
      case nogrow: False
      then have "decode_questions grow m p sz (Suc n) ql = Some (RC_SERVFAIL, [], p + k, sz - k)"
        using False 2(1) by (simp add: pos Let_def)
      then show thesis using nogrow by (rule memory)
    qed
  qed
qed

definition decoded :: "(nat \<Rightarrow> bool) \<Rightarrow> byte list \<Rightarrow> nat \<Rightarrow> nat \<Rightarrow> queryel list \<Rightarrow> u16 \<times> queryel list \<times> nat \<times> nat \<Rightarrow> bool" where
  "decoded grow m p n ql = (\<lambda>(r, out, q, sz).
     (\<not> (\<forall>i. grow i) \<and> r = RC_SERVFAIL \<and> out = []) \<or>
     (\<exists>qs q'. quests_at m p qs q' \<and> q' \<le> length m \<and>
        (if r = RC_OK then length qs = n \<and> out = ql @ qs \<and> q = q' \<and> sz = length m - q
         else length qs < n \<and> none_at (quest_at m) q' \<and>
           (r = RC_TRUNCATED \<and> out = ql @ qs \<or> r = RC_FORMERR \<and> out = []))))"

lemma decode_questions_exact:
  assumes "p + sz = length m"
  shows "\<exists>res. decode_questions grow m p sz n ql = Some res \<and> decoded grow m p n ql res"
  using assms
proof (induction n arbitrary: p sz ql)
  case 0
  then show ?case by (auto simp: decoded_def intro!: exI [of _ "[]"])
next
  case (Suc n)
  show ?case
  proof (cases rule: decode_question [OF Suc.prems, of grow n ql])
    case (1 r p' s')
    then show ?thesis unfolding 1(2) using Suc.prems
      by (auto simp: decoded_def none_at_def intro!: exI [of _ "[]"])
  next
    case (2 p' s')
    then show ?thesis by (auto simp: decoded_def)
  next
    case (3 qe q)
    obtain res where res: "decode_questions grow m q (length m - q) n (ql @ [qe]) = Some res" "decoded grow m q n (ql @ [qe]) res"
      using Suc.IH [of q "length m - q" "ql @ [qe]"] 3(2) by auto
    obtain r out e s where r: "res = (r, out, e, s)" by (cases res)
    have "decoded grow m p (Suc n) ql res"
    proof (cases "\<not> (\<forall>i. grow i) \<and> r = RC_SERVFAIL \<and> out = []")
      case False
      then obtain qs q' where qs: "quests_at m q qs q'" "q' \<le> length m"
        "if r = RC_OK then length qs = n \<and> out = (ql @ [qe]) @ qs \<and> e = q' \<and> s = length m - e
         else length qs < n \<and> none_at (quest_at m) q' \<and> (r = RC_TRUNCATED \<and> out = (ql @ [qe]) @ qs \<or> r = RC_FORMERR \<and> out = [])"
        using res(2) unfolding r decoded_def by auto
      then show ?thesis unfolding r decoded_def prod.case
        using 3(1) by (intro disjI2 exI [of _ "qe # qs"] exI [of _ q']) auto
    qed (auto simp: r decoded_def)
    then show ?thesis using res(1) 3(3) by simp
  qed
qed

lemma decode_questions_complete:
  assumes "p + sz = length m" "quests_at m p qs q" "length qs = n" "\<forall>i. grow i"
  shows "decode_questions grow m p sz n ql = Some (RC_OK, ql @ qs, q, length m - q)"
proof -
  obtain r out e s where res: "decode_questions grow m p sz n ql = Some (r, out, e, s)" "decoded grow m p n ql (r, out, e, s)"
    using decode_questions_exact [OF assms(1), of grow n ql] by auto
  then obtain as q' where as: "quests_at m p as q'"
    "if r = RC_OK then length as = n \<and> out = ql @ as \<and> e = q' \<and> s = length m - e
     else length as < n \<and> none_at (quest_at m) q'" using assms(4) unfolding decoded_def by (auto split: if_splits)
  show ?thesis
  proof (cases "r = RC_OK")
    case True
    then show ?thesis using as questions.row_unique [OF as(1) assms(2)] assms(3) res(1) by simp
  next
    case False
    then have l: "length as < length qs" "none_at (quest_at m) q'" using as(2) assms(3) by auto
    then have "quests_at m q' (drop (length as) qs) q" using questions.row_split [OF as(1) assms(2)] by simp
    then show ?thesis using l by (cases "drop (length as) qs") (auto simp: none_at_def)
  qed
qed

text \<open>The same for the additional section.\<close>

definition additional_state :: "byte list \<Rightarrow> (nat \<times> nat) list \<Rightarrow> nat \<Rightarrow> edns_info \<Rightarrow> nat \<times> edns_info" where
  "additional_state m xs k ep =
     (k + length (opts xs), if k = 0 then (case opt_of m xs of None \<Rightarrow> ep | Some i \<Rightarrow> i) else ep)"

lemma decode_additional:
  assumes "p + sz = length m"
  obtains (none) e where "decode_query_additional m p sz (Suc n) k ep = Some (rc_of e, k, ep)" "none_at (extra_at m) p"
  | (extra) x q where "extra_at m p x q" "q \<le> length m"
      "decode_query_additional m p sz (Suc n) k ep = decode_query_additional m q (length m - q) n
         (if fst x = T_OPT then k + 1 else k)
         (if fst x = T_OPT \<and> k = 0 then opt_info m (getint16 m (snd x + 2)) (snd x + 4) else ep)"
proof (cases rule: name_read [OF assms])
  case (1 e)
  then have "none_at (extra_at m) p" unfolding extra_at_def none_at_def by blast
  then show thesis using 1(1) by (auto intro: none)
next
  case (2 ls h j)
  have pos: "p + (sz - (sz - j)) = p + j" using 2 by simp
  let ?len = "unat (getint16 m (p + j + 8))"
  have none': thesis if "decode_query_additional m p sz (Suc n) k ep = Some (RC_TRUNCATED, k, ep)"
    "\<not> p + j + sizeof_rr_hdr_t + ?len \<le> length m"
  proof (rule none [of RC_TRUNC])
    show "decode_query_additional m p sz (Suc n) k ep = Some (rc_of RC_TRUNC, k, ep)" using that(1) by (simp add: rc_of_def)
    show "none_at (extra_at m) p" unfolding none_at_def
    proof (intro allI notI)
      fix x q
      assume "extra_at m p x q"
      then obtain j' where "name_span m p j'" "p + j' + sizeof_rr_hdr_t + unat (getint16 m (p + j' + 8)) \<le> length m" "j' = j"
        unfolding extra_at_def using name_span_unique [OF 2(2-5)] by blast
      then show False using that(2) by simp
    qed
  qed
  show thesis
  proof (cases "sz - j < sizeof_rr_hdr_t")
    case True
    then show thesis using assms 2(1) by (intro none') (simp_all add: Let_def)
  next
    case False
    then have h: "\<not> p + j + sizeof_rr_hdr_t > length m" using assms by simp
    show thesis
    proof (cases "sz - j - sizeof_rr_hdr_t < ?len")
      case True
      then show thesis using False assms 2(1) h by (intro none') (simp_all add: pos Let_def)
    next
      case len: False
      let ?q = "p + j + sizeof_rr_hdr_t + ?len"
      have q: "?q \<le> length m" using len False assms by simp
      have x: "extra_at m p (unat (getint16 m (p + j)), p + j) ?q"
        unfolding extra_at_def using 2(2-5) q by (intro exI [of _ ls] exI [of _ h] exI [of _ j]) simp
      have s: "sz - j - sizeof_rr_hdr_t - ?len = length m - ?q" using assms by simp
      show thesis
      proof (rule extra [OF x q])
        show "decode_query_additional m p sz (Suc n) k ep = decode_query_additional m ?q (length m - ?q) n
            (if fst (unat (getint16 m (p + j)), p + j) = T_OPT then k + 1 else k)
            (if fst (unat (getint16 m (p + j)), p + j) = T_OPT \<and> k = 0
             then opt_info m (getint16 m (snd (unat (getint16 m (p + j)), p + j) + 2)) (snd (unat (getint16 m (p + j)), p + j) + 4)
             else ep)"
          using False len h 2(1) unfolding decode_query_additional.simps(2) s [symmetric]
          by (simp add: pos Let_def del: decode_query_additional.simps)
      qed
    qed
  qed
qed

lemma decode_additional_exact:
  assumes "p + sz = length m"
  shows "\<exists>r xs q. decode_query_additional m p sz n k ep = Some (r, additional_state m xs k ep) \<and> extras_at m p xs q \<and>
    (r = RC_OK \<and> length xs = n \<or> r \<in> {RC_TRUNCATED, RC_FORMERR} \<and> length xs < n \<and> none_at (extra_at m) q)"
  using assms
proof (induction n arbitrary: p sz k ep)
  case 0
  show ?case by (rule exI [of _ RC_OK], rule exI [of _ "[]"]) (simp add: additional_state_def opt_of_def)
next
  case (Suc n)
  show ?case
  proof (cases rule: decode_additional [OF Suc.prems, of n k ep])
    case (1 e)
    then show ?thesis
      by (intro exI [of _ "rc_of e"] exI [of _ "[]"] exI [of _ p])
        (simp add: additional_state_def opt_of_def rc_of_def del: decode_query_additional.simps split: dec_error.split)
  next
    case (2 x q)
    let ?k = "if fst x = T_OPT then k + 1 else k"
    let ?ep = "if fst x = T_OPT \<and> k = 0 then opt_info m (getint16 m (snd x + 2)) (snd x + 4) else ep"
    obtain r xs q' where ih: "decode_query_additional m q (length m - q) n ?k ?ep = Some (r, additional_state m xs ?k ?ep)"
      "extras_at m q xs q'" "r = RC_OK \<and> length xs = n \<or> r \<in> {RC_TRUNCATED, RC_FORMERR} \<and> length xs < n \<and> none_at (extra_at m) q'"
      using Suc.IH [of q "length m - q" ?k ?ep] 2(2) by auto
    have "additional_state m xs ?k ?ep = additional_state m (x # xs) k ep"
      by (auto simp: additional_state_def opt_of_def split: prod.split)
    then have "decode_query_additional m p sz (Suc n) k ep = Some (r, additional_state m (x # xs) k ep)"
      unfolding 2(3) ih(1) by simp
    moreover have "extras_at m p (x # xs) q'" using 2(1) ih(2) by auto
    ultimately show ?thesis using ih(3) by (metis length_Cons Suc_less_eq)
  qed
qed

section \<open>What a client is told\<close>

text \<open>An error reply: only the header, with the id and the opcode of the query, and an OPT record if the code needs one.\<close>

definition error_msg :: "env \<Rightarrow> byte list \<Rightarrow> u16 \<Rightarrow> byte list" where
  "error_msg E data rc =
     (let m = mk_error_reply data (if length data \<ge> 3 then hdr_opcode data else 0) rc in
      if rc AND NOT 0xf = 0 then m else bump_count 10 m @ opt_rr (udpbufsize E) rc 0 0)"

lemma error_reply_eq: "error_reply E errmem data udp rc = (if errmem then go_on (rc, error_msg E data rc, udp) else return_0)"
proof -
  let ?m = "mk_error_reply data (if length data \<ge> 3 then hdr_opcode data else 0) rc"
  let ?st = "\<lparr>a_msg = ?m, a_alloc = dnsmsghdroffset + sizeof_dns_hdr_t + (1 + sizeof_rr_hdr_t), a_cb = [], a_sva = [], a_ar = [], a_calls = 0\<rparr>"
  have l: "length ?m = 12" by (simp add: mk_error_reply_def)
  have "add_opt_pseudo_rr (e_mem E) (udpbufsize E) rc 0 0 ?st = go_on (?st\<lparr>a_msg := bump_count 10 ?m @ opt_rr (udpbufsize E) rc 0 0\<rparr>)"
    using l by (simp add: add_opt_pseudo_rr_def ensure_room_def)
  then show ?thesis by (simp add: error_reply_def error_msg_def Let_def)
qed

definition plain_header :: "byte list \<Rightarrow> bool" where
  "plain_header data \<longleftrightarrow> sizeof_dns_hdr_t \<le> length data \<and> \<not> hdr_qr data \<and> hdr_opcode data = 0 \<and> \<not> hdr_z data \<and>
     hdr_rcode data = 0 \<and> getint16 data 6 = 0 \<and> getint16 data 8 = 0"

definition ignored :: "byte list \<Rightarrow> bool" where
  "ignored data \<longleftrightarrow> length data < 2 \<or>
     sizeof_dns_hdr_t \<le> length data \<and> (hdr_qr data \<or> hdr_opcode data = 0 \<and> \<not> hdr_z data \<and> hdr_rcode data \<noteq> 0)"

abbreviation qdcount :: "byte list \<Rightarrow> nat" where "qdcount data \<equiv> unat (getint16 data 4)"
abbreviation arcount :: "byte list \<Rightarrow> nat" where "arcount data \<equiv> unat (getint16 data 10)"

text \<open>The questions and additional records of a message, all of them or, if it says it is truncated, those it has.\<close>

definition complete :: "byte list \<Rightarrow> queryel list \<Rightarrow> (nat \<times> nat) list \<Rightarrow> bool" where
  "complete data ql xs \<longleftrightarrow> (\<exists>p q. quests_at data sizeof_dns_hdr_t ql p \<and> extras_at data p xs q) \<and>
     length ql = qdcount data \<and> length xs = arcount data"

definition partial :: "byte list \<Rightarrow> queryel list \<Rightarrow> (nat \<times> nat) list \<Rightarrow> bool" where
  "partial data ql xs \<longleftrightarrow> hdr_tc data \<and> (\<exists>p q. quests_at data sizeof_dns_hdr_t ql p \<and> extras_at data p xs q \<and>
     (length ql < qdcount data \<and> none_at (quest_at data) p \<and> xs = [] \<and> arcount data = 0 \<or>
      length ql = qdcount data \<and> length xs < arcount data \<and> none_at (extra_at data) q))"

definition opt_fine :: "edns_info option \<Rightarrow> bool" where
  "opt_fine oi \<longleftrightarrow> (case oi of None \<Rightarrow> True | Some i \<Rightarrow> ei_version i = 0 \<and> ei_rcode i = 0)"

text \<open>The size of a reply that the client allows.\<close>

definition allowed :: "env \<Rightarrow> edns_info option \<Rightarrow> nat option \<Rightarrow> nat option" where
  "allowed E oi udp =
     (case (oi, udp) of
        (Some i, Some u) \<Rightarrow>
          Some (if unat (ei_udpsize i) > UDP_BUFSIZE then min (unat (udpbufsize E)) (unat (ei_udpsize i)) else u)
      | _ \<Rightarrow> udp)"

lemma query_edns_exact:
  assumes "p + sz = length data" "res = RC_OK \<or> res = RC_TRUNCATED"
  shows "\<exists>r. query_edns E data res p sz udp = Some r \<and>
    (case r of
       Inl e \<Rightarrow> (e = RC_FORMERR \<or> e = RC_BADVERS) \<and>
         (res = RC_OK \<longrightarrow> (\<nexists>xs q. extras_at data p xs q \<and> length xs = arcount data \<and> opt_fine (opt_of data xs)))
     | Inr (with_opt, udp') \<Rightarrow> \<exists>xs q. extras_at data p xs q \<and> opt_fine (opt_of data xs) \<and>
         with_opt = (opt_of data xs \<noteq> None) \<and> udp' = allowed E (opt_of data xs) udp \<and>
         (length xs = arcount data \<and> (res = RC_TRUNCATED \<longrightarrow> xs = []) \<or>
          res = RC_OK \<and> hdr_tc data \<and> length xs < arcount data \<and> none_at (extra_at data) q))"
proof -
  consider (none) "arcount data = 0" | (trunc) "arcount data \<noteq> 0" "res = RC_TRUNCATED" | (some) "arcount data \<noteq> 0" "res = RC_OK"
    using assms(2) by blast
  then show ?thesis
  proof cases
    case none
    then have "query_edns E data res p sz udp = Some (Inr (False, udp))" by (simp add: query_edns_def Let_def)
    then show ?thesis using none
      by (auto simp: opt_of_def opt_fine_def allowed_def intro!: exI [of _ "[]"])
  next
    case trunc
    then show ?thesis by (simp add: query_edns_def Let_def)
  next
    case some
    let ?ep = "\<lparr>ei_udpsize = 0, ei_rcode = 0, ei_version = 0, ei_do_flg = 0\<rparr>"
    obtain r xs q where x: "decode_query_additional data p sz (arcount data) 0 ?ep = Some (r, additional_state data xs 0 ?ep)"
      "extras_at data p xs q" "r = RC_OK \<and> length xs = arcount data \<or>
        r \<in> {RC_TRUNCATED, RC_FORMERR} \<and> length xs < arcount data \<and> none_at (extra_at data) q"
      using decode_additional_exact [OF assms(1), of "arcount data" 0 ?ep] by blast
    have only: "length ys = arcount data \<Longrightarrow> extras_at data p ys q' \<Longrightarrow> r = RC_OK \<and> ys = xs" for ys q'
      using x(3) extras.row_no_more [OF x(2)] extras.row_unique [OF x(2)] by fastforce
    have n: "opts xs = [] \<longleftrightarrow> opt_of data xs = None" by (auto simp: opt_of_def split: list.split)
    show ?thesis
    proof (cases "r = RC_OK \<or> r = RC_TRUNCATED \<and> hdr_tc data")
      case False
      then have "query_edns E data res p sz udp = Some (Inl RC_FORMERR)"
        using some x(1) by (simp add: query_edns_def Let_def additional_state_def)
      then show ?thesis using False only by auto
    next
      case True
      have xs: "length xs = arcount data \<or> hdr_tc data \<and> length xs < arcount data \<and> none_at (extra_at data) q"
        using True x(3) by auto
      show ?thesis
      proof (cases "opt_of data xs")
        case None
        then have "query_edns E data res p sz udp = Some (Inr (False, udp))"
          using some x(1) True n by (simp add: query_edns_def Let_def additional_state_def)
        then show ?thesis using None x(2) xs some by (auto simp: opt_fine_def allowed_def intro!: exI [of _ xs])
      next
        case (Some i)
        then have o: "opts xs \<noteq> []" using n by auto
        show ?thesis
        proof (cases "opt_fine (Some i)")
          case True': True
          then have "query_edns E data res p sz udp = Some (Inr (True, allowed E (Some i) udp))"
            using some x(1) True o Some
            by (auto simp: query_edns_def Let_def additional_state_def opt_fine_def allowed_def min_def split: option.splits)
          then show ?thesis using True' Some x(2) xs some by (auto intro!: exI [of _ xs])
        next
          case False
          then have "\<exists>e. query_edns E data res p sz udp = Some (Inl e) \<and> (e = RC_FORMERR \<or> e = RC_BADVERS)"
            using some x(1) True o Some by (auto simp: query_edns_def Let_def additional_state_def opt_fine_def)
          then show ?thesis using False Some only by auto
        qed
      qed
    qed
  qed
qed

text \<open>The course of \<open>process_query\<close> on a message that is a query: refused, or handed to \<open>compose_answer\<close>.\<close>

lemma query_decided:
  assumes plain: "plain_header data"
  obtains (refused) rc udp' where "process_query E grow errmem data udp = error_reply E errmem data udp' rc"
      "rc \<in> {RC_FORMERR, RC_SERVFAIL, RC_BADVERS}" "\<exists>oi. udp' = allowed E oi udp"
      "(\<forall>i. grow i) \<Longrightarrow> \<nexists>ql xs. complete data ql xs \<and> ql \<noteq> [] \<and> opt_fine (opt_of data xs)"
  | (asked) ql xs where "complete data ql xs \<or> partial data ql xs" "ql \<noteq> []" "\<forall>qe \<in> set ql. legal_query qe"
      "opt_fine (opt_of data xs)"
      "process_query E grow errmem data udp =
        (let udp' = allowed E (opt_of data xs) udp in
         case compose_answer E ql data (opt_of data xs \<noteq> None) udp' of
           None \<Rightarrow> None
         | Some None \<Rightarrow> error_reply E errmem data udp' RC_SERVFAIL
         | Some (Some (rc, msg)) \<Rightarrow> go_on (rc, msg, udp'))"
      "\<And>ql' xs'. complete data ql' xs' \<Longrightarrow> ql' = ql \<and> xs' = xs"
proof -
  let ?h = "sizeof_dns_hdr_t" and ?qs = "quests_at data sizeof_dns_hdr_t"
  have len: "\<not> length data < 2" "\<not> length data < ?h" "?h + (length data - ?h) = length data"
    using plain by (simp_all add: plain_header_def)
  note pq = process_query_def [of E grow errmem data udp, unfolded Let_def if_not_P [OF len(1)] if_not_P [OF len(2)]]
  obtain r out p sz where dec: "decode_query grow data = Some (r, out, p, sz)"
    "decoded grow data ?h (qdcount data) [] (r, out, p, sz)"
    using decode_questions_exact [OF len(3), of grow "qdcount data" "[]"] len(2) by (auto simp: decode_query_def)
  have course: "process_query E grow errmem data udp =
    (if r \<noteq> RC_OK \<and> r \<noteq> RC_TRUNCATED then error_reply E errmem data udp r
     else if r = RC_TRUNCATED \<and> (\<not> hdr_tc data \<or> out = []) then error_reply E errmem data udp RC_FORMERR
     else case query_edns E data r p sz udp of
       None \<Rightarrow> None
     | Some (Inl e) \<Rightarrow> error_reply E errmem data udp e
     | Some (Inr (with_opt, udp')) \<Rightarrow>
         if out = [] then error_reply E errmem data udp' RC_FORMERR
         else case compose_answer E out data with_opt udp' of
           None \<Rightarrow> None
         | Some None \<Rightarrow> error_reply E errmem data udp' RC_SERVFAIL
         | Some (Some (rc, msg)) \<Rightarrow> go_on (rc, msg, udp'))"
    using plain unfolding pq dec(1) by (simp add: plain_header_def)
  have none: "udp = allowed E None udp" by (simp add: allowed_def)
  show thesis
  proof (cases "\<not> (\<forall>i. grow i) \<and> r = RC_SERVFAIL \<and> out = []")
    case True
    then show thesis using course none by (intro refused [where rc = RC_SERVFAIL and udp' = udp]) auto
  next
    case False
    then obtain qs q where qs: "?qs qs q" "q \<le> length data"
      "if r = RC_OK then length qs = qdcount data \<and> out = qs \<and> p = q \<and> sz = length data - p
       else length qs < qdcount data \<and> none_at (quest_at data) q \<and> (r = RC_TRUNCATED \<and> out = qs \<or> r = RC_FORMERR \<and> out = [])"
      using dec(2) False unfolding decoded_def prod.case append_Nil by blast
    have only: "complete data ql' xs' \<Longrightarrow> r = RC_OK \<and> ql' = out" for ql' xs'
      using qs(3) questions.row_no_more [OF qs(1)] questions.row_unique [OF qs(1)]
      unfolding complete_def by (fastforce split: if_splits)
    show thesis
    proof (cases "r = RC_OK \<or> r = RC_TRUNCATED \<and> hdr_tc data \<and> out \<noteq> []")
      case no: False
      then have "process_query E grow errmem data udp = error_reply E errmem data udp RC_FORMERR"
        using qs(3) unfolding course by (auto split: if_splits)
      then show thesis using no only none by (intro refused [where rc = RC_FORMERR and udp' = udp]) auto
    next
      case go: True
      let ?X = "query_edns E data r q (length data - q) udp"
      have same: "query_edns E data r p sz udp = ?X"
        using go qs(3) by (auto simp: query_edns_def Let_def split: if_splits)
      obtain e where e: "?X = Some e" and ex: "case e of
           Inl e \<Rightarrow> (e = RC_FORMERR \<or> e = RC_BADVERS) \<and>
             (r = RC_OK \<longrightarrow> (\<nexists>xs q'. extras_at data q xs q' \<and> length xs = arcount data \<and> opt_fine (opt_of data xs)))
         | Inr (with_opt, udp') \<Rightarrow> \<exists>xs q'. extras_at data q xs q' \<and> opt_fine (opt_of data xs) \<and>
             with_opt = (opt_of data xs \<noteq> None) \<and> udp' = allowed E (opt_of data xs) udp \<and>
             (length xs = arcount data \<and> (r = RC_TRUNCATED \<longrightarrow> xs = []) \<or>
              r = RC_OK \<and> hdr_tc data \<and> length xs < arcount data \<and> none_at (extra_at data) q')"
        using query_edns_exact [of q "length data - q" data r E udp] qs(2) go by auto
      show thesis
      proof (cases e)
        case (Inl c)
        then have "process_query E grow errmem data udp = error_reply E errmem data udp c"
          using go e same unfolding course by auto
        moreover have "\<nexists>ql xs. complete data ql xs \<and> ql \<noteq> [] \<and> opt_fine (opt_of data xs)"
        proof (intro notI, elim exE conjE)
          fix ql xs
          assume c: "complete data ql xs" "opt_fine (opt_of data xs)"
          then have "r = RC_OK" "ql = out" using only by simp_all
          then have "quests_at data ?h ql q" using qs(1,3) by simp
          then obtain q' where "extras_at data q xs q'" "length xs = arcount data"
            using c(1) questions.row_unique unfolding complete_def by blast
          then show False using ex Inl c(2) \<open>r = RC_OK\<close> by auto
        qed
        ultimately show thesis using ex Inl none by (intro refused [where rc = c and udp' = udp]) auto
      next
        case (Inr w)
        then obtain xs q' where xs: "extras_at data q xs q'" "opt_fine (opt_of data xs)"
          "w = (opt_of data xs \<noteq> None, allowed E (opt_of data xs) udp)"
          "length xs = arcount data \<and> (r = RC_TRUNCATED \<longrightarrow> xs = []) \<or>
            r = RC_OK \<and> hdr_tc data \<and> length xs < arcount data \<and> none_at (extra_at data) q'"
          using ex by (cases w) auto
        have run: "process_query E grow errmem data udp =
          (if out = [] then error_reply E errmem data (allowed E (opt_of data xs) udp) RC_FORMERR
           else case compose_answer E out data (opt_of data xs \<noteq> None) (allowed E (opt_of data xs) udp) of
             None \<Rightarrow> None
           | Some None \<Rightarrow> error_reply E errmem data (allowed E (opt_of data xs) udp) RC_SERVFAIL
           | Some (Some (rc, msg)) \<Rightarrow> go_on (rc, msg, allowed E (opt_of data xs) udp))"
          using go e Inr xs(3) same unfolding course by auto
        have out: "out = qs" using go qs(3) by (auto split: if_splits)
        show thesis
        proof (cases "out = []")
          case True
          then show thesis using run only by (intro refused [where rc = RC_FORMERR and udp' = "allowed E (opt_of data xs) udp"]) auto
        next
          case False
          show thesis
          proof (rule asked [where ql = out and xs = xs])
            show "complete data out xs \<or> partial data out xs"
              using go qs(1,3) xs(1,4) unfolding complete_def partial_def out by (auto split: if_splits)
            show "\<forall>qe \<in> set out. legal_query qe" unfolding out by (rule quests_legal [OF qs(1)])
            show "ql' = out \<and> xs' = xs" if c: "complete data ql' xs'" for ql' xs'
            proof -
              have o: "r = RC_OK" "ql' = out" using only c by simp_all
              then obtain q2 where q2: "extras_at data q xs' q2" "length xs' = arcount data"
                using c qs(1) out questions.row_unique unfolding complete_def by metis
              have "length xs' \<le> length xs" if "none_at (extra_at data) q'"
                by (rule extras.row_no_more [OF xs(1) that q2(1)])
              then have "length xs = length xs'" using xs(4) q2(2) by auto
              then show ?thesis using o extras.row_unique [OF xs(1) q2(1)] by simp
            qed
          qed (use False run xs(2) in \<open>simp_all add: Let_def\<close>)
        qed
      qed
    qed
  qed
qed

text \<open>A message that is no such query is ignored or refused.\<close>

lemma query_ignored: "ignored data \<Longrightarrow> process_query E grow errmem data udp = return_0"
  by (auto simp: process_query_def ignored_def Let_def)

lemma query_refused:
  assumes "\<not> plain_header data" "\<not> ignored data"
  shows "\<exists>rc. (rc = RC_FORMERR \<or> rc = RC_NOTSUPP) \<and> process_query E grow errmem data udp = error_reply E errmem data udp rc"
proof -
  note pq = process_query_def [of E grow errmem data udp, unfolded Let_def]
  have two: "\<not> length data < 2" using assms(2) by (simp add: ignored_def)
  show ?thesis
  proof (cases "length data < sizeof_dns_hdr_t")
    case True
    then have "process_query E grow errmem data udp = error_reply E errmem data udp RC_FORMERR"
      using pq [unfolded if_not_P [OF two] if_P [OF True]] by simp
    then show ?thesis by blast
  next
    case len: False
    then have qr: "\<not> hdr_qr data" using assms(2) by (simp add: ignored_def)
    note pq = pq [unfolded if_not_P [OF two] if_not_P [OF len] if_not_P [OF qr]]
    consider "hdr_opcode data \<noteq> 0" | "hdr_opcode data = 0" "hdr_z data"
      | "hdr_opcode data = 0" "\<not> hdr_z data" "hdr_rcode data = 0" "getint16 data 6 \<noteq> 0"
      | "hdr_opcode data = 0" "\<not> hdr_z data" "hdr_rcode data = 0" "getint16 data 6 = 0" "getint16 data 8 \<noteq> 0"
      using assms len qr by (auto simp: ignored_def plain_header_def)
    then show ?thesis by cases (simp_all add: pq, blast+)
  qed
qed

lemma plain_not_ignored: "plain_header data \<Longrightarrow> \<not> ignored data"
  by (auto simp: plain_header_def ignored_def)

text \<open>What a reply is: an error, or the answer to the questions of the message.\<close>

definition answers_query :: "env \<Rightarrow> byte list \<Rightarrow> nat option \<Rightarrow> u16 \<Rightarrow> byte list \<Rightarrow> nat option \<Rightarrow> bool" where
  "answers_query E data udp rc msg udp' \<longleftrightarrow> plain_header data \<and>
     (\<exists>ql xs. (complete data ql xs \<or> partial data ql xs) \<and> ql \<noteq> [] \<and> opt_fine (opt_of data xs) \<and>
        udp' = allowed E (opt_of data xs) udp \<and> answer_ok E ql data udp' rc msg)"

definition reply_ok :: "env \<Rightarrow> byte list \<Rightarrow> nat option \<Rightarrow> u16 \<times> byte list \<times> nat option \<Rightarrow> bool" where
  "reply_ok E data udp = (\<lambda>(rc, msg, udp').
     sizeof_dns_hdr_t \<le> length msg \<and> take 2 msg = take 2 data \<and> hdr_qr msg \<and> hdr_rcode msg = ucast rc AND 0xf \<and>
     (\<exists>oi. udp' = allowed E oi udp) \<and>
     (rc \<in> {RC_FORMERR, RC_SERVFAIL, RC_NOTSUPP, RC_BADVERS} \<and> msg = error_msg E data rc \<or>
      answers_query E data udp rc msg udp'))"

lemma and_idem_low: "(0x80 OR (x AND 0xf)) AND 0xf = x AND (0xf :: byte)"
  by (simp add: bit.conj_disj_distrib2 and.assoc)

lemma qr_bit: "bit x 7 \<Longrightarrow> x AND 0x80 \<noteq> (0 :: byte)"
proof -
  assume "bit x 7"
  then have "bit (x AND 0x80) 7" by (simp add: bit_simps)
  then show ?thesis by auto
qed

lemma error_msg_header:
  assumes "2 \<le> length data"
  shows "sizeof_dns_hdr_t \<le> length (error_msg E data rc) \<and> take 2 (error_msg E data rc) = take 2 data \<and>
    hdr_qr (error_msg E data rc) \<and> hdr_rcode (error_msg E data rc) = ucast rc AND 0xf"
proof -
  obtain a b r where d: "data = a # b # r" using assms by (cases data rule: remdups_adj.cases) auto
  have "(0x80 OR x) AND 0x80 \<noteq> (0 :: byte)" for x by (rule qr_bit) (simp add: bit_simps)
  note q = this
  show ?thesis
    by (simp add: error_msg_def Let_def mk_error_reply_def d bump_count_def overwrite_def hdr_qr_def hdr_rcode_def q
        and_idem_low putint16_def)
qed

lemma answer_header:
  assumes "answer_ok E ql data udp rc msg" "2 \<le> length data"
  shows "sizeof_dns_hdr_t \<le> length msg \<and> take 2 msg = take 2 data \<and> hdr_qr msg \<and> hdr_rcode msg = ucast rc AND 0xf"
proof -
  obtain aa where f: "12 \<le> length msg" "take 4 msg = answer_flags data rc aa"
    using assms(1) unfolding answer_ok_def message_holds_def by blast
  obtain a b r where d: "data = a # b # r" using assms(2) by (cases data rule: remdups_adj.cases) auto
  have "take 2 msg = take 2 (take 4 msg)" by simp
  then have "take 2 msg = take 2 data" unfolding f(2) by (simp add: answer_flags_def d)
  moreover have "bit (msg ! 2) 7"
    using nth_flags [OF f, of 2] by (simp add: answer_flags_def bit_simps)
  then have "hdr_qr msg" unfolding hdr_qr_def by (rule qr_bit)
  moreover have "hdr_rcode msg = ucast rc AND 0xf"
    using nth_flags [OF f, of 3] by (simp add: answer_flags_def hdr_rcode_def and_idem_low)
  ultimately show ?thesis using f(1) by simp
qed

lemma error_reply_ok:
  assumes "2 \<le> length data" "rc \<in> {RC_FORMERR, RC_SERVFAIL, RC_NOTSUPP, RC_BADVERS}" "\<exists>oi. udp' = allowed E oi udp"
  shows "safe (error_reply E errmem data udp' rc) (reply_ok E data udp)" "errmem \<Longrightarrow> proceeds (error_reply E errmem data udp' rc)"
  using error_msg_header [OF assms(1)] assms(2,3) by (auto simp: error_reply_eq reply_ok_def)

lemma safe_disj: "safe r P \<Longrightarrow> r = return_0 \<or> (\<exists>y. r = go_on y \<and> P y)"
  by (auto simp: safe_def split: option.splits)

lemma plain_long: "plain_header data \<Longrightarrow> 2 \<le> length data"
  by (simp add: plain_header_def)

text \<open>\<open>process_query\<close> from the call of \<open>compose_answer\<close> on.\<close>

lemma query_composed:
  assumes env: "good_env E" and plain: "plain_header data" and ql: "complete data ql xs \<or> partial data ql xs" "ql \<noteq> []"
    "\<forall>qe \<in> set ql. legal_query qe" "opt_fine (opt_of data xs)"
    and run: "process_query E grow errmem data udp =
        (let udp' = allowed E (opt_of data xs) udp in
         case compose_answer E ql data (opt_of data xs \<noteq> None) udp' of
           None \<Rightarrow> None
         | Some None \<Rightarrow> error_reply E errmem data udp' RC_SERVFAIL
         | Some (Some (rc, msg)) \<Rightarrow> go_on (rc, msg, udp'))"
  shows "safe (process_query E grow errmem data udp) (reply_ok E data udp)"
    "errmem \<Longrightarrow> proceeds (process_query E grow errmem data udp)"
    "(\<forall>i. e_mem E i) \<Longrightarrow> \<exists>rc msg. process_query E grow errmem data udp = go_on (rc, msg, allowed E (opt_of data xs) udp) \<and>
       answer_ok E ql data (allowed E (opt_of data xs) udp) rc msg"
proof -
  let ?u = "allowed E (opt_of data xs) udp"
  have safe: "safe (compose_answer E ql data (opt_of data xs \<noteq> None) ?u) (\<lambda>(rc, msg). answer_ok E ql data ?u rc msg)"
    by (rule compose_answer_ok [OF env ql(3)])
  note err = error_reply_ok [OF plain_long [OF plain], of RC_SERVFAIL ?u E udp errmem]
  consider (null) "compose_answer E ql data (opt_of data xs \<noteq> None) ?u = return_0"
    | (msg) rc msg where "compose_answer E ql data (opt_of data xs \<noteq> None) ?u = go_on (rc, msg)" "answer_ok E ql data ?u rc msg"
    using safe_disj [OF safe] by blast
  then have "safe (process_query E grow errmem data udp) (reply_ok E data udp) \<and>
      (errmem \<longrightarrow> proceeds (process_query E grow errmem data udp)) \<and>
      ((\<forall>i. e_mem E i) \<longrightarrow> (\<exists>rc msg. process_query E grow errmem data udp = go_on (rc, msg, ?u) \<and> answer_ok E ql data ?u rc msg))"
  proof cases
    case null
    then have "process_query E grow errmem data udp = error_reply E errmem data ?u RC_SERVFAIL" using run by (simp add: Let_def)
    moreover have "\<not> (\<forall>i. e_mem E i)" using proceeds_compose [of E ql data "opt_of data xs \<noteq> None" ?u] null by auto
    moreover have "safe (error_reply E errmem data ?u RC_SERVFAIL) (reply_ok E data udp)"
      "errmem \<Longrightarrow> proceeds (error_reply E errmem data ?u RC_SERVFAIL)" using err by blast+
    ultimately show ?thesis by metis
  next
    case (msg rc msg)
    then have eq: "process_query E grow errmem data udp = go_on (rc, msg, ?u)" using run by (simp add: Let_def)
    have "reply_ok E data udp (rc, msg, ?u)"
      using answer_header [OF msg(2) plain_long [OF plain]] plain ql(1,2,4) msg(2)
      unfolding reply_ok_def answers_query_def prod.case by blast
    then show ?thesis using msg(2) unfolding eq by simp
  qed
  then show "safe (process_query E grow errmem data udp) (reply_ok E data udp)"
    "errmem \<Longrightarrow> proceeds (process_query E grow errmem data udp)"
    "(\<forall>i. e_mem E i) \<Longrightarrow> \<exists>rc msg. process_query E grow errmem data udp = go_on (rc, msg, ?u) \<and> answer_ok E ql data ?u rc msg"
    by blast+
qed

lemma process_query_ok:
  assumes env: "good_env E"
  shows "safe (process_query E grow errmem data udp) (reply_ok E data udp)"
    "errmem \<Longrightarrow> process_query E grow errmem data udp = return_0 \<longleftrightarrow> ignored data"
    "\<lbrakk>plain_header data; complete data ql xs; ql \<noteq> []; opt_fine (opt_of data xs); \<forall>i. grow i; \<forall>i. e_mem E i\<rbrakk> \<Longrightarrow>
      \<exists>rc msg. process_query E grow errmem data udp = go_on (rc, msg, allowed E (opt_of data xs) udp) \<and>
        answer_ok E ql data (allowed E (opt_of data xs) udp) rc msg"
proof -
  have none: "\<exists>oi. udp = allowed E oi udp" by (rule exI [of _ None]) (simp add: allowed_def)
  have "safe (process_query E grow errmem data udp) (reply_ok E data udp) \<and>
      (errmem \<longrightarrow> (process_query E grow errmem data udp = return_0 \<longleftrightarrow> ignored data))"
  proof (cases "plain_header data")
    case False
    show ?thesis
    proof (cases "ignored data")
      case True
      then show ?thesis by (simp add: query_ignored)
    next
      case no: False
      then have two: "2 \<le> length data" by (simp add: ignored_def)
      obtain rc where rc: "rc = RC_FORMERR \<or> rc = RC_NOTSUPP"
        "process_query E grow errmem data udp = error_reply E errmem data udp rc"
        using query_refused [OF False no] by blast
      then have "rc \<in> {RC_FORMERR, RC_SERVFAIL, RC_NOTSUPP, RC_BADVERS}" by auto
      from error_reply_ok [OF two this none, of errmem] show ?thesis using no unfolding rc(2) proceeds_def by blast
    qed
  next
    case plain: True
    show ?thesis
    proof (cases rule: query_decided [OF plain, of E grow errmem udp])
      case (1 rc udp')
      then have "rc \<in> {RC_FORMERR, RC_SERVFAIL, RC_NOTSUPP, RC_BADVERS}" by auto
      from error_reply_ok [OF plain_long [OF plain] this 1(3), of errmem] show ?thesis
        using plain_not_ignored [OF plain] unfolding 1(1) proceeds_def by blast
    next
      case (2 ql xs)
      from query_composed(1,2) [OF env plain 2(1-5)] show ?thesis
        using plain_not_ignored [OF plain] unfolding proceeds_def by blast
    qed
  qed
  then show "safe (process_query E grow errmem data udp) (reply_ok E data udp)"
    "errmem \<Longrightarrow> process_query E grow errmem data udp = return_0 \<longleftrightarrow> ignored data" by blast+
  show "\<exists>rc msg. process_query E grow errmem data udp = go_on (rc, msg, allowed E (opt_of data xs) udp) \<and>
      answer_ok E ql data (allowed E (opt_of data xs) udp) rc msg"
    if plain: "plain_header data" and c: "complete data ql xs" "ql \<noteq> []" "opt_fine (opt_of data xs)" and mem: "\<forall>i. grow i" "\<forall>i. e_mem E i"
  proof (cases rule: query_decided [OF plain, of E grow errmem udp])
    case (1 rc udp')
    then show ?thesis using c mem(1) by blast
  next
    case (2 ql' xs')
    have "ql = ql'" "xs = xs'" using 2(6) [OF c(1)] by simp_all
    then show ?thesis using query_composed(3) [OF env plain 2(1-5) mem(2)] by simp
  qed
qed

section \<open>What the client reads\<close>

definition same_question :: "queryel \<Rightarrow> queryel \<Rightarrow> bool" where
  "same_question qe qe' \<longleftrightarrow> qe_type qe' = qe_type qe \<and> qe_class qe' = qe_class qe \<and>
     (\<exists>ls ms. qe_query qe = enc_name ls \<and> qe_query qe' = enc_name ms \<and> lower_name ms = lower_name ls)"

text \<open>What reading an entry of a message yields for the cache: nothing for the OPT record.\<close>

fun item_reads :: "item \<Rightarrow> stored \<Rightarrow> bool" where
  "item_reads (Quest nm tp cls) s \<longleftrightarrow> False"
| "item_reads (Rec r) s \<longleftrightarrow> reads_as r s"
| "item_reads Optrec s \<longleftrightarrow> s = None"

lemma getint16_masked: "12 \<le> i \<Longrightarrow> i + 2 \<le> length msg \<Longrightarrow> getint16 (masked msg) i = getint16 msg i"
  by (simp add: getint16_def masked_nth)

lemma unat_small: "n < 65536 \<Longrightarrow> unat (of_nat n :: u16) = n"
  by (simp add: unsigned_of_nat take_bit_nat_eq_self)

lemma quest_read:
  assumes "item_at (masked msg) p (Quest nm tp cls) q" "12 \<le> length msg" "tp < 65536" "cls < 65536"
  shows "12 \<le> p \<and> p < q \<and> (\<exists>qe. quest_at msg p qe q \<and> same_question \<lparr>qe_type = tp, qe_class = cls, qe_query = enc_name nm\<rparr> qe)"
proof -
  obtain n where n: "name_ok nm" "holds_name (masked msg) p n nm" "getint16 (masked msg) (p + n) = of_nat tp"
    "getint16 (masked msg) (p + n + 2) = of_nat cls" "q = p + n + 4" "q \<le> length msg" using assms(1,2) by auto
  have p: "12 \<le> p" "holds_name msg p n nm" using holds_name_masked [OF n(2) assms(2)] by simp_all
  then obtain ms h where ms: "name_span msg p n" "name_at msg p ms h" "lower_name ms = lower_name nm" "h \<le> length ms"
    unfolding holds_name_def by blast
  have ok: "name_ok ms" using name_ok_lower [OF ms(3)] n(1) by simp
  then have h: "h \<le> 255" using ms(4) name_ok_few_labels [of ms] by simp
  have "getint16 msg (p + n) = of_nat tp" "getint16 msg (p + n + 2) = of_nat cls"
    using n(3-6) p(1) by (simp_all add: getint16_masked)
  then have f: "unat (getint16 msg (p + n)) = tp" "unat (getint16 msg (p + n + 2)) = cls" using assms(3,4) by (simp_all add: unat_small)
  have "quest_at msg p \<lparr>qe_type = tp, qe_class = cls, qe_query = enc_name ms\<rparr> q"
    unfolding quest_at_def using ms(1,2) ok h n(5,6) f by (intro exI [of _ ms] exI [of _ h] exI [of _ n]) simp
  moreover have "same_question \<lparr>qe_type = tp, qe_class = cls, qe_query = enc_name nm\<rparr>
      \<lparr>qe_type = tp, qe_class = cls, qe_query = enc_name ms\<rparr>" using ms(3) by (auto simp: same_question_def)
  ultimately show ?thesis using p(1) n(5) by auto
qed

lemma optrec_read:
  assumes "item_at (masked msg) p Optrec q" "12 \<le> length msg" "12 \<le> p"
  shows "p < q \<and> rr_at msg (length msg) p None q"
proof -
  have q: "q = p + 11" "p + 11 \<le> length msg" "msg ! p = 0" "getint16 msg (p + 1) = of_nat T_OPT" "getint16 msg (p + 9) = 0"
    using assms by (auto simp: getint16_masked masked_nth)
  have "name_at msg p [] 0" "name_span msg p 1" using q by (auto intro: name_at.Root name_span.Root simp del: One_nat_def)
  then have "rr_at msg (length msg) p None q"
    unfolding rr_at_def Let_def using q opt_not_cached
    by - (rule exI [of _ "[]"], rule exI [of _ 0], rule exI [of _ 1], simp add: name_ok_def enc_name_def unat_small add.commute [of 9])
  then show ?thesis using q(1) by simp
qed

lemma rr_at_unique: "rr_at msg e p s q \<Longrightarrow> rr_at msg e p t r \<Longrightarrow> t = s \<and> r = q"
  unfolding rr_at_def Let_def
  by (elim exE conjE) (metis name_span_unique name_read_unique layout_at_unique)

lemma rrs_at_row: "rrs_at_from msg e p ss q \<longleftrightarrow> row (rr_at msg e) p ss q"
  by (induction ss arbitrary: p) auto

interpretation records_row: unique_row "rr_at msg e" for msg e
  by unfold_locales (rule rr_at_unique)

lemma items_at_row: "items_at m p its q \<longleftrightarrow> row (item_at m) p its q"
  by (induction its arbitrary: p) auto

lemma row_append: "row at p (xs @ ys) q \<longleftrightarrow> (\<exists>p'. row at p xs p' \<and> row at p' ys q)"
  by (induction xs arbitrary: p) auto

lemma questions_read:
  assumes "12 \<le> length msg" "\<forall>qe \<in> set ql. legal_query qe"
  shows "list_all2 asks ql qs \<Longrightarrow> row (item_at (masked msg)) p (map snd qs) q \<Longrightarrow> 12 \<le> p \<Longrightarrow>
    12 \<le> q \<and> (\<exists>ql'. quests_at msg p ql' q \<and> list_all2 same_question ql ql')"
  using assms(2)
proof (induction ql arbitrary: qs p)
  case (Cons qe ql)
  obtain e qs' where e: "qs = e # qs'" "asks qe e" "list_all2 asks ql qs'" using Cons.prems(1) by (auto simp: list_all2_Cons1)
  obtain nm where nm: "qe_query qe = enc_name nm" "e = (4, Quest nm (qe_type qe) (qe_class qe))" using e(2) by (auto simp: asks_def)
  obtain p' where p': "item_at (masked msg) p (Quest nm (qe_type qe) (qe_class qe)) p'" "row (item_at (masked msg)) p' (map snd qs') q"
    using Cons.prems(2) e(1) nm(2) by auto
  have leg: "qe_type qe < 65536" "qe_class qe < 65536" "\<forall>qe \<in> set ql. legal_query qe"
    using Cons.prems(4) by (simp_all add: legal_query_def)
  obtain qe' where qe': "p < p'" "quest_at msg p qe' p'"
    "same_question \<lparr>qe_type = qe_type qe, qe_class = qe_class qe, qe_query = enc_name nm\<rparr> qe'"
    using quest_read [OF p'(1) assms(1) leg(1,2)] by blast
  have "12 \<le> p'" using Cons.prems(3) qe'(1) by simp
  from Cons.IH [OF e(3) p'(2) this leg(3)] obtain ql' where "12 \<le> q" "quests_at msg p' ql' q" "list_all2 same_question ql ql'" by blast
  moreover have "same_question qe qe'" using qe'(3) nm(1) by (simp add: same_question_def)
  ultimately show ?case using qe'(2) by (intro conjI exI [of _ "qe' # ql'"]) auto
qed auto

lemma records_read:
  assumes "12 \<le> length msg"
  shows "list_all (entry_ok E) es \<Longrightarrow> \<forall>e \<in> set es. fst e \<noteq> 4 \<Longrightarrow> row (item_at (masked msg)) p (map snd es) q \<Longrightarrow> 12 \<le> p \<Longrightarrow>
    \<exists>ss. row (rr_at msg (length msg)) p ss q \<and> list_all2 item_reads (map snd es) ss"
proof (induction es arbitrary: p)
  case (Cons e es)
  obtain f it where e: "e = (f, it)" by (cases e)
  obtain p' where p': "item_at (masked msg) p it p'" "row (item_at (masked msg)) p' (map snd es) q" using Cons.prems(3) e by auto
  have "p < p' \<and> (\<exists>s. rr_at msg (length msg) p s p' \<and> item_reads it s)"
  proof (cases it)
    case (Quest nm tp cls)
    then show ?thesis using Cons.prems(1,2) e by simp
  next
    case (Rec r)
    obtain nm tp ttl vs where r: "r = (nm, tp, ttl, vs)" by (cases r)
    have "rr_written (masked msg) p (nm, tp, ttl, vs) p'" "rr_fits (nm, tp, ttl, vs)" using p'(1) Cons.prems(1) e Rec r by simp_all
    then show ?thesis using rr_written_reads [of msg p nm tp ttl vs p'] assms Rec r by (auto simp: rr_fits_def)
  next
    case Optrec
    then show ?thesis using optrec_read [OF _ assms Cons.prems(4)] p'(1) by auto
  qed
  then obtain s where s: "p < p'" "rr_at msg (length msg) p s p'" "item_reads it s" by blast
  moreover have "12 \<le> p'" using s(1) Cons.prems(4) by simp
  moreover from this obtain ss where "row (rr_at msg (length msg)) p' ss q" "list_all2 item_reads (map snd es) ss"
    using Cons.IH [OF _ _ p'(2)] Cons.prems(1,2) by auto
  ultimately show ?case using e by (intro exI [of _ "s # ss"]) auto
qed auto

text \<open>The questions and the records of an answer, read back.\<close>

lemma answer_read:
  assumes ok: "answer_ok E ql data udp rc msg" and ql: "\<forall>qe \<in> set ql. legal_query qe" "length ql < 65536"
  shows "\<exists>ql' p recs rest ss. decode_query (\<lambda>_. True) msg = Some (RC_OK, ql', p, length msg - p) \<and> 12 \<le> p \<and> p \<le> length msg \<and>
    list_all2 same_question ql ql' \<and> rrs_at_from msg (length msg) p ss (length msg) \<and>
    list_all2 item_reads (map snd (answer_entries recs @ rest)) ss \<and>
    (rc = RC_OK \<longrightarrow> chains E ql recs \<and> no_repeats (answer_entries recs @ rest))"
proof -
  obtain aa qs recs rest where a: "list_all2 asks ql qs" "message_holds E msg (qs @ answer_entries recs @ rest)"
    "\<forall>e \<in> set rest. fst e \<in> {6, 8, 10}" "rc = RC_OK \<longrightarrow> chains E ql recs \<and> no_repeats (answer_entries recs @ rest)"
    using ok unfolding answer_ok_def by blast
  let ?es = "answer_entries recs @ rest"
  have m: "12 \<le> length msg" "row (item_at (masked msg)) 12 (map snd qs @ map snd ?es) (length msg)"
    "counted msg (qs @ ?es)" "list_all (entry_ok E) ?es"
    using a(2) by (simp_all add: message_holds_def items_at_row)
  then obtain p where p: "row (item_at (masked msg)) 12 (map snd qs) p" "row (item_at (masked msg)) p (map snd ?es) (length msg)"
    unfolding row_append by blast
  obtain ql' where q: "12 \<le> p" "quests_at msg 12 ql' p" "list_all2 same_question ql ql'"
    using questions_read [OF m(1) ql(1) a(1) p(1)] by auto
  have "\<forall>e \<in> set ?es. fst e \<noteq> 4" using a(3) by (auto simp: answer_entries_def)
  then obtain ss where ss: "row (rr_at msg (length msg)) p ss (length msg)" "list_all2 item_reads (map snd ?es) ss"
    using records_read [OF m(1,4) _ p(2) q(1)] by blast
  have "filter (\<lambda>e. fst e = 4) (qs @ ?es) = qs"
    using asks_four [OF a(1)] \<open>\<forall>e \<in> set ?es. fst e \<noteq> 4\<close> by (simp add: filter_empty_conv)
  moreover have "getint16 msg 4 = of_nat (length (filter (\<lambda>e. fst e = 4) (qs @ ?es)))" using m(3) unfolding counted_def by blast
  ultimately have "getint16 msg 4 = of_nat (length qs)" by metis
  moreover have "length qs = length ql" "length ql' = length ql" using list_all2_lengthD a(1) q(3) by metis+
  ultimately have "unat (getint16 msg 4) = length ql'" using ql(2) by (simp add: unat_small)
  then have "decode_query (\<lambda>_. True) msg = Some (RC_OK, ql', p, length msg - p)"
    using decode_questions_complete [of 12 "length msg - 12" msg ql' p "length ql'" "\<lambda>_. True" "[]"] q(2) m(1)
    by (simp add: decode_query_def)
  moreover have "p \<le> length msg" by (rule quests_at_inside [OF q(2) m(1)])
  ultimately show ?thesis using q(1,3) ss a(4) unfolding rrs_at_row by blast
qed

text \<open>C13. A reply without an error is understood: read with the decoder of questions and with the reader of resource records,
  it gives the questions of the query, up to the case of the names, and entries for the cache that hold, besides what they
  held before, exactly the records of the answer, authority and additional sections in this order, the records of the
  answer being for every question those of its type along the chain of CNAME records; the reading ends at the end of the
  message.\<close>

theorem reply_understood:
  assumes "good_env E" "process_query E grow errmem data udp = go_on (RC_OK, msg, udp')" "cents_ok sz (centa st)"
  shows "\<exists>ql xs ql' p recs rest ss st'. (complete data ql xs \<or> partial data ql xs) \<and>
    decode_query (\<lambda>_. True) msg = Some (RC_OK, ql', p, length msg - p) \<and> list_all2 same_question ql ql' \<and>
    rrs2cent sz (\<lambda>_. plenty) msg flags queryts p (length msg - p) (length recs + length rest) st = Some (Inr (length msg, 0), st') \<and>
    cents_ok sz (centa st') \<and> view (centa st') = fold add_stored ss (view (centa st)) \<and>
    list_all2 item_reads (map snd (answer_entries recs @ rest)) ss \<and>
    chains E ql recs \<and> no_repeats (answer_entries recs @ rest)"
proof -
  have "reply_ok E data udp (RC_OK, msg, udp')" using process_query_ok(1) [OF assms(1), of grow errmem data udp] assms(2) by simp
  then obtain ql xs where ql: "complete data ql xs \<or> partial data ql xs" "answer_ok E ql data udp' RC_OK msg"
    unfolding reply_ok_def answers_query_def by auto
  then obtain q where q: "quests_at data 12 ql q" "length ql \<le> qdcount data"
    unfolding complete_def partial_def by fastforce
  have "length ql < 65536" using q(2) unat_u16_less [of "getint16 data 4"] by simp
  from answer_read [OF ql(2) quests_legal [OF q(1)] this] obtain ql' p recs rest ss where
    r: "decode_query (\<lambda>_. True) msg = Some (RC_OK, ql', p, length msg - p)" "12 \<le> p" "p \<le> length msg"
      "list_all2 same_question ql ql'" "rrs_at_from msg (length msg) p ss (length msg)"
      "list_all2 item_reads (map snd (answer_entries recs @ rest)) ss" "chains E ql recs" "no_repeats (answer_entries recs @ rest)"
    by blast
  have l: "length ss = length recs + length rest" using list_all2_lengthD [OF r(6)] by (simp add: answer_entries_def)
  have e: "p + (length msg - p) = length msg" using r(3) by simp
  from rrs2cent_ok [of p "length msg - p" msg sz st "\<lambda>_. plenty" flags queryts "length ss", unfolded e] r(2,3) assms(3)
  obtain c st' where c: "rrs2cent sz (\<lambda>_. plenty) msg flags queryts p (length msg - p) (length ss) st = Some (c, st')" "cents_ok sz (centa st')"
    "case c of
       Inr (p', n') \<Rightarrow> p' + n' = length msg \<and> p \<le> p' \<and>
         (\<exists>ts. length ts = length ss \<and> rrs_at_from msg (length msg) p ts p' \<and> view (centa st') = fold add_stored ts (view (centa st)))
     | Inl e \<Rightarrow> (\<forall>i :: nat. plenty = plenty) \<longrightarrow> (\<nexists>ts q. length ts = length ss \<and> rrs_at_from msg (length msg) p ts q)"
    by auto
  then obtain p' n' ts where t: "c = Inr (p', n')" "p' + n' = length msg" "length ts = length ss"
    "rrs_at_from msg (length msg) p ts p'" "view (centa st') = fold add_stored ts (view (centa st))"
    using r(5) by (cases c) (auto split: prod.splits)
  have "ts = ss \<and> p' = length msg"
    using records_row.row_unique [of msg "length msg" p ss "length msg" ts p'] r(5) t(3,4) unfolding rrs_at_row by simp
  then have "c = Inr (length msg, 0)" "view (centa st') = fold add_stored ss (view (centa st))" using t by simp_all
  then show ?thesis using ql(1) r c(1,2) unfolding l by blast
qed

section \<open>Over UDP\<close>

lemma not_tc: "\<not> bit x 1 \<Longrightarrow> x AND 2 = (0 :: byte)"
  using and_exp_eq_0_iff_not_bit [of x 1] by simp

lemma reply_not_tc:
  assumes "reply_ok E data udp (rc, msg, udp')" "2 \<le> length data"
  shows "\<not> hdr_tc msg"
  using assms(1) unfolding reply_ok_def prod.case
proof (elim conjE disjE)
  assume "msg = error_msg E data rc"
  moreover have "(if 3 \<le> length data then hdr_opcode data else 0) AND 0xf = z \<Longrightarrow> (0x80 OR push_bit 3 z) AND 2 = (0 :: byte)" for z
    by (rule not_tc) (simp add: bit_simps)
  ultimately show ?thesis
    by (simp add: error_msg_def Let_def mk_error_reply_def bump_count_def overwrite_def hdr_tc_def)
next
  assume "answers_query E data udp rc msg udp'"
  then obtain ql aa where "12 \<le> length msg" "take 4 msg = answer_flags data rc aa"
    unfolding answers_query_def answer_ok_def message_holds_def by blast
  then have "msg ! 2 = (0x80 OR (data ! 2 AND 1)) OR (if aa then 4 else 0)"
    using nth_flags [of msg "answer_flags data rc aa" 2] by (simp add: answer_flags_def)
  then have "msg ! 2 AND 2 = 0" by (intro not_tc) (auto simp: bit_simps)
  then show ?thesis by (simp add: hdr_tc_def)
qed

text \<open>The size a client has said it takes.\<close>

definition client_size :: "byte list \<Rightarrow> nat \<Rightarrow> bool" where
  "client_size data u \<longleftrightarrow> u \<le> UDP_BUFSIZE \<or>
     (\<exists>ql xs i. (complete data ql xs \<or> partial data ql xs) \<and> opt_of data xs = Some i \<and> u \<le> unat (ei_udpsize i))"

lemma allowed_some: "\<exists>u. allowed E oi (Some n) = Some u"
  by (auto simp: allowed_def split: option.split)

lemma udp_answer_ok:
  assumes env: "good_env E" and cfg: "UDP_BUFSIZE \<le> unat (udpbufsize E)"
  shows "safe (udp_answer E grow errmem data) (\<lambda>out. \<exists>rc msg u.
      process_query E grow errmem data (Some UDP_BUFSIZE) = go_on (rc, msg, Some u) \<and> UDP_BUFSIZE \<le> u \<and>
      client_size data (length out) \<and> length out = min u (length msg) \<and> (hdr_tc out \<longleftrightarrow> u < length msg) \<and>
      (\<forall>i < length out. i \<noteq> 2 \<longrightarrow> out ! i = msg ! i) \<and> (\<not> hdr_tc out \<longrightarrow> out = msg))"
    "udp_answer E grow errmem data = return_0 \<longleftrightarrow> process_query E grow errmem data (Some UDP_BUFSIZE) = return_0"
proof -
  let ?pq = "process_query E grow errmem data (Some UDP_BUFSIZE)"
  consider (null) "?pq = return_0" | (reply) rc msg udp' where "?pq = go_on (rc, msg, udp')" "reply_ok E data (Some UDP_BUFSIZE) (rc, msg, udp')"
    using safe_disj [OF process_query_ok(1) [OF env, of grow errmem data "Some UDP_BUFSIZE"]] by auto
  then have "safe (udp_answer E grow errmem data) (\<lambda>out. \<exists>rc msg u.
      ?pq = go_on (rc, msg, Some u) \<and> UDP_BUFSIZE \<le> u \<and>
      client_size data (length out) \<and> length out = min u (length msg) \<and> (hdr_tc out \<longleftrightarrow> u < length msg) \<and>
      (\<forall>i < length out. i \<noteq> 2 \<longrightarrow> out ! i = msg ! i) \<and> (\<not> hdr_tc out \<longrightarrow> out = msg)) \<and>
    (udp_answer E grow errmem data = return_0 \<longleftrightarrow> ?pq = return_0)"
  proof cases
    case null
    then show ?thesis by (simp add: udp_answer_def)
  next
    case (reply rc msg udp')
    obtain oi where oi: "udp' = allowed E oi (Some UDP_BUFSIZE)" using reply(2) by (auto simp: reply_ok_def)
    obtain u where u: "udp' = Some u" unfolding oi using allowed_some by blast
    have big: "UDP_BUFSIZE \<le> u" using oi u cfg by (auto simp: allowed_def split: option.splits if_splits)
    have "\<not> ignored data" using reply(1) query_ignored [of data E grow errmem "Some UDP_BUFSIZE"] by auto
    then have two: "2 \<le> length data" by (simp add: ignored_def)
    note notc = reply_not_tc [OF reply(2) two]
    have len: "12 \<le> length msg" using reply(2) by (simp add: reply_ok_def)
    have size: "client_size data (min u (length msg))"
      using reply(2) unfolding reply_ok_def prod.case
    proof (elim conjE disjE)
      assume "msg = error_msg E data rc"
      then have "length msg \<le> UDP_BUFSIZE"
        by (simp add: error_msg_def Let_def mk_error_reply_def bump_count_def overwrite_def opt_rr_def putint16_def)
      then have "min u (length msg) \<le> UDP_BUFSIZE" by simp
      then show ?thesis unfolding client_size_def by (rule disjI1)
    next
      assume "answers_query E data (Some UDP_BUFSIZE) rc msg udp'"
      then obtain ql xs where ql: "complete data ql xs \<or> partial data ql xs" "udp' = allowed E (opt_of data xs) (Some UDP_BUFSIZE)"
        unfolding answers_query_def by blast
      then have "u \<le> UDP_BUFSIZE \<or> (\<exists>i. opt_of data xs = Some i \<and> u \<le> unat (ei_udpsize i))"
        using u by (auto simp: allowed_def split: option.splits if_splits)
      then have "min u (length msg) \<le> UDP_BUFSIZE \<or> (\<exists>i. opt_of data xs = Some i \<and> min u (length msg) \<le> unat (ei_udpsize i))"
        by (auto intro: min.coboundedI1)
      then show ?thesis using ql(1) unfolding client_size_def by blast
    qed
    show ?thesis
    proof (cases "u < length msg")
      case True
      let ?out = "take u (msg[2 := msg ! 2 OR 2])"
      have run: "udp_answer E grow errmem data = go_on ?out" using reply(1) True len by (simp add: udp_answer_def u)
      have "bit (?out ! 2 AND 2) 1" using len big by (simp add: bit_simps)
      then have "hdr_tc ?out" unfolding hdr_tc_def by (metis bit_0_eq bot_apply bot_bool_def)
      then show ?thesis using reply(1) u True big size unfolding run safe_simps by (simp add: min_def)
    next
      case False
      then have run: "udp_answer E grow errmem data = go_on msg" using reply(1) by (simp add: udp_answer_def u)
      have m: "min u (length msg) = length msg" using False by simp
      show ?thesis using reply(1) u False big size notc unfolding run safe_simps m by simp
    qed
  qed
  then show "safe (udp_answer E grow errmem data) (\<lambda>out. \<exists>rc msg u.
      ?pq = go_on (rc, msg, Some u) \<and> UDP_BUFSIZE \<le> u \<and>
      client_size data (length out) \<and> length out = min u (length msg) \<and> (hdr_tc out \<longleftrightarrow> u < length msg) \<and>
      (\<forall>i < length out. i \<noteq> 2 \<longrightarrow> out ! i = msg ! i) \<and> (\<not> hdr_tc out \<longrightarrow> out = msg))"
    "udp_answer E grow errmem data = return_0 \<longleftrightarrow> ?pq = return_0" by blast+
qed

section \<open>Over TCP\<close>

declare read_query.simps [simp del]

text \<open>However the query is cut, it is read whole; if the stream breaks, an error is written for what carries an id.\<close>

lemma read_query_chunks:
  "\<forall>bs \<in> set chunks. bs \<noteq> [] \<Longrightarrow> length buf + length (concat chunks) \<le> rlen \<Longrightarrow>
    read_query rlen buf (map Read chunks @ evs) = read_query rlen (buf @ concat chunks) evs"
proof (induction chunks arbitrary: buf)
  case (Cons bs chunks)
  then have "length buf < rlen" "length bs \<le> rlen - length buf" "bs \<noteq> []" by (auto simp flip: length_greater_0_conv)
  then have "read_query rlen buf (Read bs # (map Read chunks @ evs)) = read_query rlen (buf @ bs) (map Read chunks @ evs)"
    by (subst read_query.simps) simp
  then show ?case using Cons.IH [of "buf @ bs"] Cons.prems by simp
qed simp

lemma tcp_frame_length: "length resp < 65536 \<Longrightarrow> unat (getint16 (tcp_frame resp) 0) = length resp \<and> drop 2 (tcp_frame resp) = resp"
  using getint16_put [of "[]" "of_nat (length resp)" resp] by (simp add: tcp_frame_def unat_small putint16_def)

lemma length_prefix: "length data < 65536 \<Longrightarrow> unat (getint16 (putint16 (of_nat (length data))) 0) = length data"
  using getint16_put [of "[]" "of_nat (length data)" "[]"] by (simp add: unat_small)

section \<open>Claims\<close>

text \<open>C11. Whatever bytes arrive, and whatever allocations fail, \<open>process_query\<close> reads only bytes of the message and fails no
  assertion. It gives no reply exactly to what is too short to have an id, is a response, or carries a result code
  already (if the memory for an error reply is there). A reply repeats the id, is marked as one, and is a
  header with one of four error codes or the answer, as \<open>compose_answer\<close> promises it, to the questions that stand in the
  message; every well-formed query with an OPT record of version 0, or none, is answered unless an allocation fails.\<close>

theorem process_query_correct:
  assumes "good_env E"
  shows "safe (process_query E grow errmem data udp) (reply_ok E data udp) \<and>
    (errmem \<longrightarrow> (process_query E grow errmem data udp = return_0 \<longleftrightarrow> ignored data)) \<and>
    (\<forall>ql xs. plain_header data \<and> complete data ql xs \<and> ql \<noteq> [] \<and> opt_fine (opt_of data xs) \<and> (\<forall>i. grow i) \<and> (\<forall>i. e_mem E i) \<longrightarrow>
       (\<exists>rc msg. process_query E grow errmem data udp = go_on (rc, msg, allowed E (opt_of data xs) udp) \<and>
          answer_ok E ql data (allowed E (opt_of data xs) udp) rc msg))"
  using process_query_ok [OF assms] by blast

text \<open>A query for the mail exchange of \<open>a\<close>, with an OPT record for 1000 bytes, and the reply.\<close>

definition ex_data :: "byte list" where
  "ex_data = [1, 2, 1, 0, 0, 1, 0, 0, 0, 0, 0, 1, 1, 97, 0, 0, 15, 0, 1, 0, 0, 41, 3, 232, 0, 0, 0, 0, 0, 0]"

definition ex_sent :: "byte list" where
  "ex_sent = [1, 2, 129, 128, 0, 1, 0, 1, 0, 0, 0, 2, 1, 97, 0, 0, 15, 0, 1, 192, 12, 0, 15, 0, 1, 0, 0, 0, 200, 0, 6, 0, 10, 1, 98,
     192, 12, 0, 0, 41, 4, 0, 0, 0, 0, 0, 0, 0, 192, 33, 0, 1, 0, 1, 0, 0, 0, 200, 0, 4, 10, 0, 0, 1]"

lemma ex_run: "process_query ex_env (\<lambda>_. True) True ex_data (Some UDP_BUFSIZE) = go_on (RC_OK, ex_sent, Some 1000)"
  by code_simp

theorem process_query_correct_witness:
  "process_query ex_env (\<lambda>_. True) True ex_data (Some UDP_BUFSIZE) = go_on (RC_OK, ex_sent, Some 1000) \<and>
   answers_query ex_env ex_data (Some UDP_BUFSIZE) RC_OK ex_sent (Some 1000) \<and> \<not> ignored ex_data"
  using process_query_correct [OF ex_env_good, of "\<lambda>_. True" True ex_data "Some UDP_BUFSIZE"]
  by (simp add: ex_run reply_ok_def)

theorem reply_understood_witness:
  "decode_query (\<lambda>_. True) ex_sent = Some (RC_OK, ex_query, 19, 45) \<and>
   (\<exists>recs rest ss st'. rrs2cent ex_sizes (\<lambda>_. plenty) ex_sent 0 1100 19 45 (length recs + length rest) ex_state = Some (Inr (64, 0), st') \<and>
      view (centa st') = fold add_stored ss (\<lambda>_ _. []) \<and>
      list_all2 item_reads (map snd (answer_entries recs @ rest)) ss \<and> no_repeats (answer_entries recs @ rest))"
proof -
  have dec: "decode_query (\<lambda>_. True) ex_sent = Some (RC_OK, ex_query, 19, 45)" by code_simp
  have len: "length ex_sent = 64" by (simp add: ex_sent_def)
  have empty: "view (centa ex_state) = (\<lambda>_ _. [])" by (simp add: ex_state_def view_def fun_eq_iff)
  have "cents_ok ex_sizes (centa ex_state)" by (simp add: ex_state_def)
  from reply_understood [OF ex_env_good ex_run this, of 0 1100] show ?thesis
    unfolding empty dec len
  proof (elim exE conjE)
    fix ql' :: "queryel list" and p recs rest ss st'
    assume r: "Some (RC_OK, ex_query, 19, 45) = Some (RC_OK, ql', p, 64 - p)"
      "rrs2cent ex_sizes (\<lambda>_. plenty) ex_sent 0 1100 p (64 - p) (length recs + length rest) ex_state = Some (Inr (64, 0), st')"
      "view (centa st') = fold add_stored ss (\<lambda>_ _. [])" "list_all2 item_reads (map snd (answer_entries recs @ rest)) ss"
      "no_repeats (answer_entries recs @ rest)"
    have "p = 19" "(64 :: nat) - 19 = 45" using r(1) by simp_all
    then show "Some (RC_OK, ex_query, 19, 45) = Some (RC_OK, ex_query, 19, 45) \<and>
      (\<exists>recs rest ss st'. rrs2cent ex_sizes (\<lambda>_. plenty) ex_sent 0 1100 19 45 (length recs + length rest) ex_state = Some (Inr (64, 0), st') \<and>
        view (centa st') = fold add_stored ss (\<lambda>_ _. []) \<and>
        list_all2 item_reads (map snd (answer_entries recs @ rest)) ss \<and> no_repeats (answer_entries recs @ rest))"
      using r(2-5) by metis
  qed
qed

text \<open>C15. A reply over UDP is the reply of \<open>process_query\<close>, or what is left of it with the truncation bit set and nothing else
  changed if it is longer than allowed: at least 512 bytes, and more only if the OPT record of the query allows it. The
  configuration does not accept a smaller buffer size.\<close>

theorem udp_answer_fits:
  assumes "good_env E" "UDP_BUFSIZE \<le> unat (udpbufsize E)"
  shows "safe (udp_answer E grow errmem data) (\<lambda>out. \<exists>rc msg u.
      process_query E grow errmem data (Some UDP_BUFSIZE) = go_on (rc, msg, Some u) \<and> UDP_BUFSIZE \<le> u \<and>
      client_size data (length out) \<and> length out = min u (length msg) \<and> (hdr_tc out \<longleftrightarrow> u < length msg) \<and>
      (\<forall>i < length out. i \<noteq> 2 \<longrightarrow> out ! i = msg ! i) \<and> (\<not> hdr_tc out \<longrightarrow> out = msg)) \<and>
    (udp_answer E grow errmem data = return_0 \<longleftrightarrow> process_query E grow errmem data (Some UDP_BUFSIZE) = return_0)"
  using udp_answer_ok [OF assms, of grow errmem data] by blast

theorem udp_answer_fits_witness:
  "udp_answer ex_env (\<lambda>_. True) True ex_data = go_on ex_sent \<and> client_size ex_data (length ex_sent) \<and> \<not> hdr_tc ex_sent"
proof -
  have run: "udp_answer ex_env (\<lambda>_. True) True ex_data = go_on ex_sent"
    by (simp add: udp_answer_def ex_run) (simp add: ex_sent_def)
  have "UDP_BUFSIZE \<le> unat (udpbufsize ex_env)" by (simp add: ex_env_def)
  from udp_answer_fits [OF ex_env_good this, of "\<lambda>_. True" True ex_data] show ?thesis
    unfolding run safe_simps by (simp add: ex_run ex_sent_def)
qed



end
