(* ===== verification/Spec2Isabelle.thy ===== *)
theory Spec2Isabelle
  imports Wire Inet Avl Packet_Buffer Packet_Stream Fair_Queue Parse_Number Addr Udpgw_Run Socks_Run
    Device_Udp Dns_Nat Tcp_Client Tcp_Run Tcp_Table Socks_Udpgw Rhn Dns_Name Dns_Compress Dns_Cent Dns_Hash Dns_Record Dns_Answer Dns_Response Dns_Query
begin

text \<open>
  A verification of the native core of the VPN app: \<open>tun2socks\<close>, the C program under
  \<open>src/app/src/main/jni/badvpn/\<close> that carries the TCP connections and UDP datagrams of a TUN device over a
  SOCKS5 server, and the data structures of \<open>pdnsd\<close> (\<open>src/app/src/main/jni/pdnsd/src/\<close>), the caching DNS
  server the app runs beside it. The models are shallow embeddings of the code as the Android build compiles it
  (\<open>Android.mk\<close>: Linux, little-endian, \<open>ANDROID\<close> and \<open>NDEBUG\<close> defined, \<open>ANDROID_UDP\<close> not).

  The program's parts and how they meet. Packets read from the TUN device go to the DNS interception, then to
  the UDP relay, and the rest to lwIP. The UDP relay submits datagrams to the udpgw client, which keeps a
  table of flows and sends framed messages through a fair queue and a stream to a udpgw server, over a
  connection its owner keeps up through the SOCKS client. lwIP ends the device's TCP connections, and each is relayed
  over a SOCKS client of its own. Answers of the server are decoded, matched to their flow and written to
  the device as packets. \<open>pdnsd\<close> is a process of its own. It reads names from DNS messages, keeps what it
  learns of a name in a cache entry, finds entries by name in a hash table, and writes answers with compressed names.

  Theories, in the order of the imports, with what they model and show.

  \<^item> \<open>Prelude\<close>: machine types, memory images of integers, the interface \<open>codec\<close> of a packed C structure,
    and lemmas on lists and words.
  \<^item> \<open>Wire\<close> (\<open>misc/byteorder.h\<close>, \<open>read_write_int.h\<close>, \<open>bsize.h\<close>, \<open>balign.h\<close>): byte order, byte-wise access, and
    overflow-tracking size arithmetic, which is exact or marked.
  \<^item> \<open>Inet\<close> (\<open>misc/ipv4_proto.h\<close>, \<open>ipv6_proto.h\<close>, \<open>udp_proto.h\<close>): headers as interpretations of \<open>codec\<close>, the
    checksums as one's complement sums, and the checks of received packets, which accept exactly the
    well-formed ones.
  \<^item> \<open>Avl\<close> (\<open>structure/BAVL.h\<close>): the intrusive balanced tree with its parent pointers as a zipper; the
    locale \<open>comparator\<close> is the interface to its clients, whose key orders are interpretations of it.
  \<^item> \<open>Chunk_Buffer\<close>, \<open>Packet_Buffer\<close> (\<open>structure/ChunkBuffer2.h\<close>, \<open>flow/PacketBuffer.c\<close>): the circular
    buffer on its array refines a queue of packets, and the buffer between two flows loses nothing.
  \<^item> \<open>Packet_Stream\<close> (\<open>protocol/packetproto.h\<close>, \<open>flow/PacketProtoEncoder.c\<close>, \<open>PacketStreamSender.c\<close>,
    \<open>PacketProtoDecoder.c\<close>): framing and its inverse over any cutting of the stream.
  \<^item> \<open>Fair_Queue\<close> (\<open>flow/PacketPassFairQueue.c\<close>): virtual time on 64-bit counters and the order of service.
  \<^item> \<open>Parse_Number\<close>, \<open>Addr\<close> (\<open>misc/parse_number.h\<close>, \<open>ipaddr.h\<close>, \<open>system/BAddr.h\<close>): numbers and addresses as text.
  \<^item> \<open>Udpgw_Proto\<close>, \<open>Udpgw_Client\<close>, \<open>Udpgw_Table\<close>, \<open>Udpgw_Run\<close> (\<open>protocol/udpgw_proto.h\<close>,
    \<open>udpgw_client/UdpGwClient.c\<close>): messages, the flow table on heap nodes in two trees and a list, its invariant, and
    the client as a state machine that refines a bounded table in order of last use.
  \<^item> \<open>Socks_Client\<close>, \<open>Socks_Run\<close> (\<open>socksclient/BSocksClient.c\<close>): the SOCKS5 client's handlers and its
    state machine: safety of memory and of the objects it owns, and the complete handshake.
  \<^item> \<open>Device_Udp\<close>, \<open>Dns_Nat\<close> (\<open>tun2socks/tun2socks.c\<close>): packets from and to the device, and the interception
    of DNS, which refines address translation on a finite map.
  \<^item> \<open>Tcp_Client\<close>, \<open>Tcp_Run\<close>, \<open>Tcp_Table\<close> (\<open>tun2socks/tun2socks.c\<close>): the handlers of a relayed TCP
    connection, its state machine with the history of the bytes in both directions, and the program's list of
    connections and the authentication data they share.
  \<^item> \<open>Socks_Udpgw\<close> (\<open>tun2socks/SocksUdpGwClient.c\<close>): the udpgw client over a SOCKS client, with reconnection,
    run on the models of both.
  \<^item> \<open>Rhn\<close> (\<open>pdnsd/src/helpers.c\<close>, \<open>helpers.h\<close>, \<open>domain_match\<close> of \<open>dns.c\<close>): domain names in transport form;
    each operation computes on the encoded bytes what its specification says of the list of labels.
  \<^item> \<open>Dns_Name\<close>, \<open>Dns_Compress\<close> (\<open>pdnsd/src/dns.c\<close>): decompression, safe on any bytes and exact for the
    inductive meaning of a name in a message, and compression, which writes names that decompress to themselves.
  \<^item> \<open>Dns_Cent\<close> (\<open>pdnsd/src/cache.c\<close>): a cache entry, its record sets and the accounting of its size.
  \<^item> \<open>Dns_Hash\<close> (\<open>pdnsd/src/hash.c\<close>): the hash table of entries, through the locale \<open>name_table\<close>, refines a finite
    map on names without case; the iteration visits every entry once.
  \<^item> \<open>Dns_Record\<close> (\<open>pdnsd/src/dns_query.c\<close>): \<open>rrs2cent\<close>, the resource records of a received message, read exactly
    as the layouts of their types say and kept in cache entries.
  \<^item> \<open>Dns_Answer\<close> (\<open>pdnsd/src/dns_answer.c\<close>): \<open>add_rr\<close> and the OPT pseudo record; an answer reads back as the
    records added to it.
  \<^item> \<open>Dns_Response\<close> (\<open>pdnsd/src/dns_answer.c\<close>, \<open>getlocalowner\<close> of \<open>cache.c\<close>): \<open>compose_answer\<close> and what it calls. The
    name resolution, the cache, the clock and \<open>random\<close> are parameters; whatever they give, an answer holds the questions,
    then for each the records of its type along the CNAME chain, then authority and additional records, none twice.
  \<^item> \<open>Dns_Query\<close> (\<open>pdnsd/src/dns_answer.c\<close>): \<open>process_query\<close> from the bytes of a client to the reply, and what the UDP and
    TCP threads send. Any bytes are decoded exactly, every well-formed query is answered, and the reply reads back with
    \<open>decode_query\<close> and \<open>rrs2cent\<close> as the questions and records it was composed of.
  \<^item> This theory: a datagram's way through the whole program.

  Conventions. A C structure is a record, its operations and handlers are functions on it, and what is
  handed to another component is a list of effects or a field for the operation in progress. An object whose address matters
  lives in a map from addresses. Assertions of the code, double frees and uses of freed objects are the value
  \<open>None\<close>, so that a theorem that a handler returns \<open>Some\<close> says they do not happen. Loops are structural or have
  a termination proof; the search for a connection id, the loops that empty a table and \<open>free_connections\<close> are
  \<open>partial_function (option)\<close> or terminating functions, with theorems that they return. There is no fuel. \<open>malloc\<close>, \<open>BRealloc\<close>, \<open>getaddrinfo\<close>
  and lwIP are parameters; what is assumed of them is stated as hypotheses or enabling conditions: fresh
  addresses, callbacks only while installed, no more data than the window, no more acknowledged than written.

  Not modelled. lwIP (third-party), the event loop and timers (handlers run in any order the contracts
  allow), sockets, the TUN device and signals (system calls), logging, the hand-over interfaces of
  \<open>flow/\<close> (their contract is in the enabling conditions), the option parsing and start-up of \<open>main\<close>,
  the name resolution, server selection, configuration, cache file and threads of \<open>pdnsd\<close>, the BadVPN programs the app does not build (client, server, udpgw server, NCD),
  generated code, and the Kotlin app. Packet-socket addresses, the counted variant of the tree, and cancellation in
  the fair queue are left out of their components.
\<close>

section \<open>A datagram through the program\<close>

lemma relayed_datagram:
  "process_device_udp_packet cfg pkt = Some (l, r, is_dns, d) \<Longrightarrow> datagram_of pkt = Some (l, r, d)"
  by (auto simp: process_device_udp_packet_def datagram_of_def split: option.splits if_splits)

text \<open>C4. A datagram through the whole program: a packet read from the device that is relayed is submitted with
  the addresses and data it carries and, whatever the state of the table, has a connection afterwards. For that
  connection's flow there is one message, which reads back with the connection's id, the remote address and the data of
  the datagram, the DNS flag exactly when it goes to the DNS server, and the rebind flag exactly when the address pair was
  not in the table: a connection of the table sends it at once when its flow has a buffer and nothing when it has
  none, a new connection from its first job. When the server answers on that connection with any data that
  fits the device, exactly that data is written to the device as a valid packet from the address the datagram
  was sent to, to the address it came from.\<close>

theorem datagram_answered:
  assumes "process_device_udp_packet cfg pkt = Some (l, r, is_dns, d)"
    "client_reachable cl" "client_enabled (Submit (Some p) True l r is_dns d) cl"
    "flags AND UDPGW_CLIENT_FLAG_IPV6 = 0"
    "udpgw_client_handler_received cfg l r e = Some pkt'"
  shows "datagram_of pkt = Some (l, r, d) \<and> datagram_of pkt' = Some (r, l, e) \<and>
    (\<exists>cl' effs q m. UdpGwClient_SubmitPacket (Some p) True l r is_dns d cl = Some (cl', effs) \<and>
       addr_at cl' q = \<lparr>local_addr = l, remote_addr = r\<rparr> \<and> q \<in> set (uc_list cl') \<and>
       message_for cl' m q r d is_dns (\<lparr>local_addr = l, remote_addr = r\<rparr> \<notin> snd ` set (con_table cl)) \<and>
       datagram_sent cl cl' effs q m \<and>
       (int (length e) \<le> uc_udp_mtu cl' \<longrightarrow>
         snd (recv_interface_handler_send (udpgw_message flags (conid_at cl' q) r e) cl') = [Received l r e]))"
proof -
  have ok: "addr_ok l" "addr_ok r" using assms(3) by simp_all
  obtain cl' effs q m where s: "UdpGwClient_SubmitPacket (Some p) True l r is_dns d cl = Some (cl', effs)"
    "addr_at cl' q = \<lparr>local_addr = l, remote_addr = r\<rparr>" "q \<in> set (uc_list cl')"
    "message_for cl' m q r d is_dns (\<lparr>local_addr = l, remote_addr = r\<rparr> \<notin> snd ` set (con_table cl))"
    "datagram_sent cl cl' effs q m"
    using submit_sends [OF client_reachable_inv [OF assms(2)] assms(3)] by blast
  have reach: "client_reachable cl'" by (rule client_reachable.handle [OF assms(2,3)]) (simp add: s(1))
  have "snd (recv_interface_handler_send (udpgw_message flags (conid_at cl' q) r e) cl') = [Received l r e]"
    if "int (length e) \<le> uc_udp_mtu cl'"
    using answer_delivered [OF reach s(3) assms(4) that] s(2) by simp
  then show ?thesis using relayed_datagram [OF assms(1)] received_datagram [OF assms(5) ok] s by blast
qed

definition ex_packet :: "byte list" where
  "ex_packet = the (udpgw_client_handler_received ex_cfg ex_remote ex_local [1, 2, 3])"

lemma datagram_answered_witness:
  "\<exists>pkt' cl' effs q m. udpgw_client_handler_received ex_cfg ex_local ex_remote [9] = Some pkt' \<and>
     datagram_of pkt' = Some (ex_remote, ex_local, [9]) \<and>
     UdpGwClient_SubmitPacket (Some 7) True ex_local ex_remote False [1, 2, 3] ex_init = Some (cl', effs) \<and>
     message_for cl' m q ex_remote [1, 2, 3] False
       (\<lparr>local_addr = ex_local, remote_addr = ex_remote\<rparr> \<notin> snd ` set (con_table ex_init)) \<and>
     datagram_sent ex_init cl' effs q m \<and>
     (int 1 \<le> uc_udp_mtu cl' \<longrightarrow>
       snd (recv_interface_handler_send (udpgw_message 0 (conid_at cl' q) ex_remote [9]) cl') =
         [Received ex_local ex_remote [9]])"
proof -
  have "ip_version ex_packet = 4 \<and> datagram_of ex_packet = Some (ex_local, ex_remote, [1, 2, 3])"
    using written_v4 [of "[1, 2, 3]" ex_cfg] by (simp add: ex_packet_def ex_cfg_def ex_local_def ex_remote_def Let_def)
  then have "process_device_udp_packet ex_cfg ex_packet = Some (ex_local, ex_remote, False, [1, 2, 3])"
    by (auto simp: process_device_udp_packet_def datagram_of_def ex_cfg_def split: option.splits)
  moreover obtain pkt' where "udpgw_client_handler_received ex_cfg ex_local ex_remote [9] = Some pkt'"
    by (auto simp: udpgw_client_handler_received_def ex_cfg_def ex_local_def ex_remote_def Let_def)
  ultimately show ?thesis
    using datagram_answered [OF _ ex_init_reachable ex_submit_enabled, of ex_cfg ex_packet 0 "[9]" pkt'] by fastforce
qed

end
